(* ===== verification/Prelude.thy ===== *)
theory Prelude
  imports Main "HOL-Library.Word"
begin

unbundle bit_operations_syntax

text \<open>
  Shared vocabulary of the development: the widths of the machine integers, the error values
  of \<^verbatim>\<open>libaflmm_core::Error\<close>, the result of a mutation, and the generic facts on
  lists, options and words that the component theories use.

  A Rust \<^verbatim>\<open>Result<T, Error>\<close> is \<open>error + 'a\<close>: \<open>Inl\<close> is the
  error. A panic is the error value \<open>Panic\<close>: the call does not return and its caller
  does not go on. Lengths and indices of vectors are natural numbers (a Rust vector holds at most
  \<open>isize::MAX\<close> elements, so sums of two lengths do not wrap); addresses and hashes are words.
\<close>

section \<open>Types\<close>

type_synonym u8 = "8 word"
type_synonym u16 = "16 word"
type_synonym u32 = "32 word"
type_synonym u64 = "64 word"
type_synonym u128 = "128 word"
type_synonym bytes = "u8 list"

datatype error =
    Serialize
  | Compression
  | EmptyOptional
  | KeyNotFound
  | KeyExists
  | Empty
  | IteratorEnd
  | NotImplemented
  | IllegalState
  | IllegalArgument
  | Unsupported
  | SkipRemainingStages
  | OsError
  | Unknown
  | InvalidCorpus
  | Runtime
  | InvalidInput
  | InternalBug
  | Panic

text \<open>\<open>usize::MAX\<close> on a 64-bit target.\<close>

definition usize_max :: nat where
  "usize_max = 2 ^ 64 - 1"

section \<open>Collections of facts\<close>

named_theorems list_facts \<open>facts on the list operations the models use\<close>

section \<open>Overwriting a part of a list\<close>

text \<open>The bytes of \<open>xs\<close> from index \<open>k\<close> on are replaced by \<open>ys\<close>.\<close>

definition overwrite :: "'a list \<Rightarrow> nat \<Rightarrow> 'a list \<Rightarrow> 'a list" where
  "overwrite xs k ys = take k xs @ ys @ drop (k + length ys) xs"

lemma length_overwrite [simp, list_facts]:
  "k + length ys \<le> length xs \<Longrightarrow> length (overwrite xs k ys) = length xs"
  by (simp add: overwrite_def)

lemma overwrite_Nil [simp, list_facts]: "overwrite xs k [] = xs"
  by (simp add: overwrite_def)

lemma overwrite_all: "length ys = length xs \<Longrightarrow> overwrite xs 0 ys = ys"
  by (simp add: overwrite_def)

lemma length_take_drop: "s + n \<le> length xs \<Longrightarrow> length (take n (drop s xs)) = n"
  by simp

lemma overwrite_append_mid:
  assumes "k = length as" and "length bs = length ys"
  shows "overwrite (as @ bs @ cs) k ys = as @ ys @ cs"
  using assms by (simp add: overwrite_def)

lemma nth_overwrite:
  assumes "k + length ys \<le> length xs" and "i < length xs"
  shows "overwrite xs k ys ! i =
    (if k \<le> i \<and> i < k + length ys then ys ! (i - k) else xs ! i)"
  using assms by (auto simp: overwrite_def nth_append)

lemma take_overwrite [list_facts]:
  "k \<le> length xs \<Longrightarrow> n \<le> k \<Longrightarrow> take n (overwrite xs k ys) = take n xs"
  by (simp add: overwrite_def min_def)

lemma drop_overwrite [list_facts]:
  "k \<le> length xs \<Longrightarrow> drop (k + length ys) (overwrite xs k ys) = drop (k + length ys) xs"
  by (simp add: overwrite_def)

section \<open>Splitting a list at given lengths\<close>

lemma split_at2:
  assumes "a \<le> b" and "b \<le> length xs"
  shows "xs = take a xs @ take (b - a) (drop a xs) @ drop b xs"
proof -
  have "drop a xs = take (b - a) (drop a xs) @ drop (b - a) (drop a xs)"
    by (simp only: append_take_drop_id)
  also have "drop (b - a) (drop a xs) = drop b xs"
    using assms(1) by simp
  finally show ?thesis
    by (metis append_take_drop_id)
qed

lemma split_at4:
  assumes "a \<le> b" "b \<le> c" "c \<le> d" "d \<le> length xs"
  obtains p q r s t where "xs = p @ q @ r @ s @ t"
    "length p = a" "length q = b - a" "length r = c - b" "length s = d - c"
    "length t = length xs - d"
proof
  have cd: "drop c xs = take (d - c) (drop c xs) @ drop d xs"
    using assms by (metis append_take_drop_id drop_drop le_add_diff_inverse2)
  have bc: "drop b xs = take (c - b) (drop b xs) @ drop c xs"
    using assms by (metis append_take_drop_id drop_drop le_add_diff_inverse2)
  show "xs = take a xs @ take (b - a) (drop a xs) @ take (c - b) (drop b xs) @
      take (d - c) (drop c xs) @ drop d xs"
    using split_at2 [of a b xs] assms cd bc by (metis le_trans)
qed (use assms in simp_all)

section \<open>Options and sums\<close>

text \<open>The \<^verbatim>\<open>?\<close> operator: an error ends the function.\<close>

definition rbind :: "'e + 'a \<Rightarrow> ('a \<Rightarrow> 'e + 'b) \<Rightarrow> 'e + 'b" where
  "rbind m f = (case m of Inl e \<Rightarrow> Inl e | Inr a \<Rightarrow> f a)"

lemma rbind_simps [simp]: "rbind (Inl e) f = Inl e" "rbind (Inr a) f = f a"
  by (simp_all add: rbind_def)

lemma rbind_Inr_iff: "rbind m f = Inr b \<longleftrightarrow> (\<exists>a. m = Inr a \<and> f a = Inr b)"
  by (cases m) auto

lemma rbind_Inl_iff: "rbind m f = Inl e \<longleftrightarrow> m = Inl e \<or> (\<exists>a. m = Inr a \<and> f a = Inl e)"
  by (cases m) auto

lemma Inr_bind_cases:
  assumes "(case m of Inl e \<Rightarrow> Inl e | Inr a \<Rightarrow> f a) = Inr r"
  obtains a where "m = Inr a" "f a = Inr r"
  using assms by (cases m) auto

section \<open>Words\<close>

lemma unat_lt_64: "unat (x :: u64) < 18446744073709551616"
  using unsigned_less [of x] by simp

lemma unat_shift_one:
  assumes "k < 64" shows "unat (push_bit k (1 :: u64)) = 2 ^ k"
proof -
  have lt: "(2 :: nat) ^ k < 2 ^ 64" using assms by (intro power_strict_increasing) simp_all
  have "unat (push_bit k (1 :: u64)) = take_bit LENGTH(64) (push_bit k (unat (1 :: u64)))"
    by (rule unsigned_push_bit_eq)
  also have "push_bit k (unat (1 :: u64)) = 2 ^ k" by (simp only: unsigned_1 push_bit_of_1)
  also have "take_bit LENGTH(64) (2 ^ k :: nat) = 2 ^ k"
    by (rule take_bit_nat_eq_self) (use lt in simp)
  finally show ?thesis .
qed

lemma push_bit_fixed_zero:
  fixes x :: "'a::len word"
  assumes eq: "x = push_bit k x" and k: "0 < k"
  shows "x = 0"
proof (rule bit_word_eqI)
  fix n assume "n < LENGTH('a)"
  have "\<not> bit x n" for n
  proof (induction n rule: less_induct)
    case (less n)
    show ?case
    proof
      assume b: "bit x n"
      then have "bit (push_bit k x) n" by (subst (asm) eq)
      then have "k \<le> n" and "bit x (n - k)" by (simp_all add: bit_push_bit_iff)
      with less [of "n - k"] k show False by auto
    qed
  qed
  then show "bit x n = bit 0 n" by simp
qed

lemma drop_bit_fixed_zero:
  fixes x :: "'a::len word"
  assumes eq: "x = drop_bit k x" and k: "0 < k"
  shows "x = 0"
proof (rule bit_word_eqI)
  fix n assume n: "n < LENGTH('a)"
  have "n \<le> LENGTH('a) \<Longrightarrow> \<not> bit x (LENGTH('a) - n)" for n
  proof (induction n rule: less_induct)
    case (less n)
    show ?case
    proof
      assume b: "bit x (LENGTH('a) - n)"
      then have "bit (drop_bit k x) (LENGTH('a) - n)" by (subst (asm) eq)
      then have b': "bit x (LENGTH('a) - n + k)" by (simp add: bit_drop_bit_eq add.commute)
      then have "LENGTH('a) - n + k < LENGTH('a)" by (rule bit_imp_le_length)
      with k less.prems have kn: "k < n" by arith
      then have "LENGTH('a) - n + k = LENGTH('a) - (n - k)" using less.prems by arith
      with b' have "bit x (LENGTH('a) - (n - k))" by (simp only:)
      moreover have "\<not> bit x (LENGTH('a) - (n - k))"
        by (rule less.IH) (use k kn less.prems in arith)+
      ultimately show False by blast
    qed
  qed
  from this [of "LENGTH('a) - n"] n show "bit x n = bit 0 n" by simp
qed

lemma xor_shift_left_eq_0:
  fixes x :: "'a::len word"
  assumes "0 < k"
  shows "x XOR push_bit k x = 0 \<longleftrightarrow> x = 0"
proof
  assume "x XOR push_bit k x = 0"
  then have "x XOR (x XOR push_bit k x) = x XOR 0" by simp
  then have "push_bit k x = x" by (simp flip: xor.assoc)
  with assms show "x = 0" by (metis push_bit_fixed_zero)
qed simp

lemma xor_shift_right_eq_0:
  fixes x :: "'a::len word"
  assumes "0 < k"
  shows "x XOR drop_bit k x = 0 \<longleftrightarrow> x = 0"
proof
  assume "x XOR drop_bit k x = 0"
  then have "x XOR (x XOR drop_bit k x) = x XOR 0" by simp
  then have "drop_bit k x = x" by (simp flip: xor.assoc)
  with assms show "x = 0" by (metis drop_bit_fixed_zero)
qed simp

end
