(* ===== verification/Rands.thy ===== *)
theory Rands
  imports Prelude
begin

text \<open>
  The random number generators of \<^verbatim>\<open>libaflmm_bolts/src/rands/mod.rs\<close> and the
  sampling methods of the trait \<^verbatim>\<open>Rand\<close>. A generator is a function from its state
  to the next 64-bit value and the next state; the trait's provided methods take that function as
  their first argument, the way a Rust \<^verbatim>\<open>R: Rand\<close> bound passes the method table.

  The lemmas: the bounded samples stay within their bounds for every generator
  (locale \<open>rand_api\<close>, interpreted on the definitions), \<open>choose\<close> returns a member of a
  non-empty iterator for correct size hints, and each generator keeps the invariant its seed
  establishes (locale \<open>prng\<close>).
\<close>

section \<open>splitmix64 and the bounded sample\<close>

text \<open>The state after the call, and the value returned.\<close>

definition splitmix64 :: "u64 \<Rightarrow> u64 \<times> u64" where
  "splitmix64 x =
     (let x' = x + 0x9e3779b97f4a7c15;
          z1 = (x' XOR drop_bit 30 x') * 0xbf58476d1ce4e5b9;
          z2 = (z1 XOR drop_bit 27 z1) * 0x94d049bb133111eb
      in (x', z2 XOR drop_bit 31 z2))"

definition fast_bound :: "u64 \<Rightarrow> u64 \<Rightarrow> u64" where
  "fast_bound rand n =
     (let mul = (ucast rand :: u128) * (ucast n :: u128) in ucast (drop_bit 64 mul))"

definition fast_bound_usize :: "u64 \<Rightarrow> u64 \<Rightarrow> u64" where
  "fast_bound_usize rand n =
     (let mul = (ucast rand :: u128) * (ucast n :: u128) in ucast (drop_bit 64 mul))"

section \<open>The trait Rand\<close>

definition below :: "('r \<Rightarrow> u64 \<times> 'r) \<Rightarrow> 'r \<Rightarrow> nat \<Rightarrow> nat \<times> 'r" where
  "below nxt r n = (let (x, r') = nxt r in (unat (fast_bound x (of_nat n)), r'))"

definition below_or_zero :: "('r \<Rightarrow> u64 \<times> 'r) \<Rightarrow> 'r \<Rightarrow> nat \<Rightarrow> nat \<times> 'r" where
  "below_or_zero nxt r n = (let (x, r') = nxt r in (unat (fast_bound_usize x (of_nat n)), r'))"

definition between :: "('r \<Rightarrow> u64 \<times> 'r) \<Rightarrow> 'r \<Rightarrow> nat \<Rightarrow> nat \<Rightarrow> nat \<times> 'r" where
  "between nxt r lo hi =
     (if hi = usize_max \<and> lo = 0 then (let (x, r') = nxt r in (unat x, r'))
      else (let (x, r') = below nxt r (hi - lo + 1) in (lo + x, r')))"

text \<open>
  The free function \<open>choose\<close> on an iterator of known length, and the trait method
  \<open>choose\<close>. An iterator is the list of the items it has left and \<open>hint\<close> its
  \<open>size_hint\<close>; \<open>iter_nth\<close> is \<open>Iterator::nth\<close>.
\<close>

definition choose_exact :: "'a list \<Rightarrow> u64 \<Rightarrow> 'a option" where
  "choose_exact items rand =
     (if length items = 0 then None
      else Some (items ! unat (fast_bound rand (of_nat (length items)))))"

fun iter_nth :: "'a list \<Rightarrow> nat \<Rightarrow> 'a option \<times> 'a list" where
  "iter_nth [] n = (None, [])"
| "iter_nth (x # xs) 0 = (Some x, xs)"
| "iter_nth (x # xs) (Suc n) = iter_nth xs n"

partial_function (option) choose_loop ::
  "('r \<Rightarrow> u64 \<times> 'r) \<Rightarrow> ('a list \<Rightarrow> nat \<times> nat option) \<Rightarrow> 'a list \<Rightarrow> nat \<Rightarrow> nat \<Rightarrow> nat option
    \<Rightarrow> 'a option \<Rightarrow> 'r \<Rightarrow> ('a option \<times> 'r) option" where
  "choose_loop nxt hint items consumed lower upper result r =
     (if 1 < lower then
        (let (ix, r') = below nxt r (lower + consumed);
             (result', items', skip) =
               (if ix < lower
                then (let (e, rest) = iter_nth items ix in (e, rest, lower - (ix + 1)))
                else (result, items, lower))
         in if upper = Some lower then Some (result', r')
            else (let items'' = (if 0 < skip then snd (iter_nth items' (skip - 1)) else items')
                  in choose_loop nxt hint items'' (consumed + lower) (fst (hint items''))
                       (snd (hint items'')) result' r'))
      else
        (case items of
           [] \<Rightarrow> Some (result, r)
         | e # rest \<Rightarrow>
             (let (k, r') = below nxt r (consumed + 1);
                  result' = (if k = 0 then Some e else result)
              in choose_loop nxt hint rest (consumed + 1) (fst (hint rest)) (snd (hint rest))
                   result' r')))"

definition rand_choose ::
  "('r \<Rightarrow> u64 \<times> 'r) \<Rightarrow> ('a list \<Rightarrow> nat \<times> nat option) \<Rightarrow> 'a list \<Rightarrow> 'r
    \<Rightarrow> ('a option \<times> 'r) option" where
  "rand_choose nxt hint items r =
     (let (lower, upper) = hint items
      in if upper = Some lower
         then (if lower = 0 then Some (None, r)
               else (let (ix, r') = below nxt r lower in Some (fst (iter_nth items ix), r')))
         else choose_loop nxt hint items 0 lower upper None r)"

text \<open>
  \<open>choose\<close> on a slice or any other \<open>ExactSizeIterator\<close>: the hint is exact, so the
  index sampled is all there is to it. The models of the mutators use this index.
\<close>

definition choose_index :: "('r \<Rightarrow> u64 \<times> 'r) \<Rightarrow> 'r \<Rightarrow> nat \<Rightarrow> nat option \<times> 'r" where
  "choose_index nxt r len =
     (if len = 0 then (None, r) else (let (ix, r') = below nxt r len in (Some ix, r')))"

section \<open>Bounds of the samples\<close>

lemma fast_bound_nat: "unat (fast_bound rand n) = unat rand * unat n div 2 ^ 64"
proof -
  have r: "unat rand < 2 ^ 64" and n: "unat n < 2 ^ 64"
    using unsigned_less [of rand] unsigned_less [of n] by simp_all
  have "unat rand * unat n \<le> (2 ^ 64 - 1) * (2 ^ 64 - 1)"
    by (rule mult_le_mono) (use r n in linarith)+
  then have lt: "unat rand * unat n < 2 ^ 128"
    by (rule le_less_trans) simp
  have ur: "unat (ucast rand :: u128) = unat rand" and un: "unat (ucast n :: u128) = unat n"
    by (simp_all add: unsigned_ucast_eq take_bit_nat_eq_self r [THEN less_trans] n [THEN less_trans])
  have "unat ((ucast rand :: u128) * (ucast n :: u128)) = unat rand * unat n"
    using lt by (simp add: unat_word_ariths ur un)
  then have u: "unat (drop_bit 64 ((ucast rand :: u128) * (ucast n :: u128)))
      = unat rand * unat n div 2 ^ 64"
    by (subst unat_drop_bit_eq) (simp add: drop_bit_eq_div)
  have "unat rand * unat n div 2 ^ 64 < 2 ^ 64"
    using lt by (simp add: div_less_iff_less_mult)
  then show ?thesis
    by (simp add: fast_bound_def Let_def unsigned_ucast_eq u take_bit_nat_eq_self)
qed

lemma fast_bound_usize_eq: "fast_bound_usize = fast_bound"
  by (simp add: fun_eq_iff fast_bound_usize_def fast_bound_def)

lemma fast_bound_less: "n \<noteq> 0 \<Longrightarrow> unat (fast_bound rand n) < unat n"
proof -
  assume "n \<noteq> 0"
  then have "0 < unat n" by (simp add: unat_gt_0)
  moreover have "unat rand < 2 ^ 64" using unsigned_less [of rand] by simp
  ultimately have "unat rand * unat n < 2 ^ 64 * unat n" by simp
  then have "unat rand * unat n div 2 ^ 64 < unat n"
    by (simp add: div_less_iff_less_mult mult.commute)
  then show ?thesis by (simp only: fast_bound_nat)
qed

lemma fast_bound_0 [simp]: "fast_bound rand 0 = 0"
  by (simp add: fast_bound_def)

lemma fast_bound_zero [simp]: "fast_bound 0 n = 0"
  by (simp add: fast_bound_def)

lemma fast_bound_of_nat:
  assumes "0 < n" shows "unat (fast_bound rand (of_nat n)) < n"
proof (cases "(of_nat n :: u64) = 0")
  case False
  then have "unat (fast_bound rand (of_nat n)) < unat (of_nat n :: u64)"
    by (rule fast_bound_less)
  also have "\<dots> \<le> n" by (simp add: unsigned_of_nat take_bit_eq_mod)
  finally show ?thesis .
qed (use assms in simp)

text \<open>What the clients of \<open>Rand\<close> rely on: every sample lies within its bound.\<close>

locale rand_api =
  fixes rbelow :: "'r \<Rightarrow> nat \<Rightarrow> nat \<times> 'r"
    and rbelow0 :: "'r \<Rightarrow> nat \<Rightarrow> nat \<times> 'r"
    and rbetween :: "'r \<Rightarrow> nat \<Rightarrow> nat \<Rightarrow> nat \<times> 'r"
  assumes below_lt: "0 < n \<Longrightarrow> fst (rbelow r n) < n"
    and below0_le: "fst (rbelow0 r n) \<le> n - 1"
    and between_range: "lo \<le> hi \<Longrightarrow> lo \<le> fst (rbetween r lo hi) \<and> fst (rbetween r lo hi) \<le> hi"
begin

lemma below_eq_lt: "rbelow r n = (x, r') \<Longrightarrow> 0 < n \<Longrightarrow> x < n"
  using below_lt [of n r] by simp

lemma below0_eq_le: "rbelow0 r n = (x, r') \<Longrightarrow> x \<le> n - 1"
  using below0_le [of r n] by simp

lemma between_eq: "rbetween r lo hi = (x, r') \<Longrightarrow> lo \<le> hi \<Longrightarrow> lo \<le> x \<and> x \<le> hi"
  using between_range [of lo hi r] by simp

end

interpretation rnd: rand_api "below nxt" "below_or_zero nxt" "between nxt" for nxt
proof
  show b: "fst (below nxt r n) < n" if "0 < n" for r n
    using that by (simp add: below_def split_def Let_def fast_bound_of_nat)
  show "fst (below_or_zero nxt r n) \<le> n - 1" for r n
    using fast_bound_of_nat [of n "fst (nxt r)"]
    by (cases "n = 0") (simp_all add: below_or_zero_def split_def Let_def fast_bound_usize_eq)
  show "lo \<le> fst (between nxt r lo hi) \<and> fst (between nxt r lo hi) \<le> hi"
    if "lo \<le> hi" for r lo hi
  proof (cases "hi = usize_max \<and> lo = 0")
    case True
    have "unat (fst (nxt r)) \<le> usize_max"
      using unat_lt_64 [of "fst (nxt r)"] by (simp add: usize_max_def)
    with True show ?thesis by (simp add: between_def split_def Let_def)
  next
    case False
    with b [of "hi - lo + 1" r] that show ?thesis
      by (auto simp: between_def split_def Let_def)
  qed
qed

lemma choose_index_lt: "choose_index nxt r n = (Some i, r') \<Longrightarrow> i < n"
  by (auto simp: choose_index_def split: if_splits prod.splits dest: rnd.below_eq_lt)

lemma choose_index_None: "choose_index nxt r n = (None, r') \<Longrightarrow> n = 0"
  by (auto simp: choose_index_def split: if_splits prod.splits)

section \<open>The generators\<close>

record xoshiro =
  xo0 :: u64
  xo1 :: u64
  xo2 :: u64
  xo3 :: u64

definition xoshiro_set_seed :: "xoshiro \<Rightarrow> u64 \<Rightarrow> xoshiro" where
  "xoshiro_set_seed s seed =
     (let (seed1, v0) = splitmix64 seed; (seed2, v1) = splitmix64 seed1;
          (seed3, v2) = splitmix64 seed2; (seed4, v3) = splitmix64 seed3
      in s\<lparr>xo0 := v0, xo1 := v1, xo2 := v2, xo3 := v3\<rparr>)"

definition xoshiro_next :: "xoshiro \<Rightarrow> u64 \<times> xoshiro" where
  "xoshiro_next s =
     (let ret = word_rotl 23 (xo0 s + xo3 s) + xo0 s;
          t = push_bit 17 (xo1 s);
          s2 = xo2 s XOR xo0 s;
          s3 = xo3 s XOR xo1 s;
          s1 = xo1 s XOR s2;
          s0 = xo0 s XOR s3;
          s2' = s2 XOR t;
          s3' = word_rotl 45 s3
      in (ret, s\<lparr>xo0 := s0, xo1 := s1, xo2 := s2', xo3 := s3'\<rparr>))"

definition xoshiro_with_seed :: "u64 \<Rightarrow> xoshiro" where
  "xoshiro_with_seed seed = xoshiro_set_seed \<lparr>xo0 = 0, xo1 = 0, xo2 = 0, xo3 = 0\<rparr> seed"

text \<open>The xorshift generator's state is its one word.\<close>

definition xorshift64_set_seed :: "u64 \<Rightarrow> u64" where
  "xorshift64_set_seed seed = snd (splitmix64 seed) OR 1"

definition xorshift64_next :: "u64 \<Rightarrow> u64 \<times> u64" where
  "xorshift64_next s =
     (let x1 = s XOR push_bit 13 s;
          x2 = x1 XOR drop_bit 7 x1;
          x3 = x2 XOR push_bit 17 x2
      in (x3, x3))"

definition lehmer64_set_seed :: "u64 \<Rightarrow> u128" where
  "lehmer64_set_seed seed =
     (let (seed1, hi) = splitmix64 seed;
          (seed2, v) = splitmix64 seed1;
          lo = v OR 1
      in push_bit 64 (ucast hi) OR ucast lo)"

definition lehmer64_next :: "u128 \<Rightarrow> u64 \<times> u128" where
  "lehmer64_next s = (let s' = s * 0xda942042e4dd58b5 in (ucast (drop_bit 64 s'), s'))"

record romu_trio =
  rt_x :: u64
  rt_y :: u64
  rt_z :: u64

definition romu_trio_set_seed :: "romu_trio \<Rightarrow> u64 \<Rightarrow> romu_trio" where
  "romu_trio_set_seed s seed =
     (let (seed1, v0) = splitmix64 seed; (seed2, v1) = splitmix64 seed1;
          (seed3, v2) = splitmix64 seed2
      in s\<lparr>rt_x := v0, rt_y := v1, rt_z := v2\<rparr>)"

definition romu_trio_next :: "romu_trio \<Rightarrow> u64 \<times> romu_trio" where
  "romu_trio_next s =
     (let xp = rt_x s; yp = rt_y s; zp = rt_z s
      in (xp, s\<lparr>rt_x := 15241094284759029579 * zp,
                rt_y := word_rotl 12 (yp - xp),
                rt_z := word_rotl 44 (zp - yp)\<rparr>))"

record romu_duo_jr =
  rd_x :: u64
  rd_y :: u64

definition romu_duo_jr_set_seed :: "romu_duo_jr \<Rightarrow> u64 \<Rightarrow> romu_duo_jr" where
  "romu_duo_jr_set_seed s seed =
     (let (seed1, v0) = splitmix64 seed; (seed2, v1) = splitmix64 seed1
      in s\<lparr>rd_x := v0, rd_y := v1\<rparr>)"

definition romu_duo_jr_next :: "romu_duo_jr \<Rightarrow> u64 \<times> romu_duo_jr" where
  "romu_duo_jr_next s =
     (let xp = rd_x s
      in (xp, s\<lparr>rd_x := 15241094284759029579 * rd_y s,
                rd_y := word_rotl 27 (rd_y s - xp)\<rparr>))"

record sfc64 =
  sfc_a :: u64
  sfc_b :: u64
  sfc_c :: u64
  sfc_w :: u64

definition sfc64_next :: "sfc64 \<Rightarrow> u64 \<times> sfc64" where
  "sfc64_next s =
     (let out = sfc_a s + sfc_b s + sfc_w s
      in (out, s\<lparr>sfc_w := sfc_w s + 1,
                 sfc_a := sfc_b s XOR drop_bit 11 (sfc_b s),
                 sfc_b := sfc_c s + push_bit 3 (sfc_c s),
                 sfc_c := word_rotl 24 (sfc_c s) + out\<rparr>))"

definition sfc64_set_seed :: "u64 \<Rightarrow> sfc64" where
  "sfc64_set_seed seed =
     ((\<lambda>s. snd (sfc64_next s)) ^^ 12) \<lparr>sfc_a = seed, sfc_b = seed, sfc_c = seed, sfc_w = 1\<rparr>"

text \<open>The constant generator of the tests.\<close>

definition xkcd_set_seed :: "u64 \<Rightarrow> u64" where
  "xkcd_set_seed seed = snd (splitmix64 seed)"

definition xkcd_next :: "u64 \<Rightarrow> u64 \<times> u64" where
  "xkcd_next s = (s, s)"

section \<open>Invariants of the generators\<close>

text \<open>A generator with an invariant: the seed establishes it and every step keeps it.\<close>

locale prng =
  fixes seed :: "u64 \<Rightarrow> 'r" and nxt :: "'r \<Rightarrow> u64 \<times> 'r" and inv :: "nat \<Rightarrow> 'r \<Rightarrow> bool"
  assumes inv_seed: "inv 0 (seed v)"
    and inv_next: "inv n r \<Longrightarrow> inv (Suc n) (snd (nxt r))"
begin

lemma inv_run: "inv n (((\<lambda>r. snd (nxt r)) ^^ n) (seed v))"
  by (induction n) (simp_all add: inv_seed inv_next)

end

interpretation xs64: prng xorshift64_set_seed xorshift64_next "\<lambda>_ s. s \<noteq> 0"
proof
  fix v :: u64
  have "bit (xorshift64_set_seed v) 0"
    by (simp add: xorshift64_set_seed_def bit_or_iff)
  then show "xorshift64_set_seed v \<noteq> 0" by auto
next
  fix r :: u64
  assume "r \<noteq> 0"
  then have "r XOR push_bit 13 r \<noteq> 0" (is "?x \<noteq> 0") by (simp add: xor_shift_left_eq_0)
  then have "?x XOR drop_bit 7 ?x \<noteq> 0" (is "?y \<noteq> 0") by (subst xor_shift_right_eq_0) simp_all
  then have "?y XOR push_bit 17 ?y \<noteq> 0" by (subst xor_shift_left_eq_0) simp_all
  then show "snd (xorshift64_next r) \<noteq> 0"
    by (simp only: xorshift64_next_def Let_def snd_conv not_False_eq_True)
qed

interpretation lehmer: prng lehmer64_set_seed lehmer64_next "\<lambda>_ s. odd s"
proof
  fix v :: u64
  have "bit (lehmer64_set_seed v) 0"
    by (simp add: lehmer64_set_seed_def split_def Let_def bit_or_iff bit_push_bit_iff
        bit_ucast_iff)
  then show "odd (lehmer64_set_seed v)" by (simp add: bit_0)
next
  fix r :: u128
  assume "odd r"
  moreover have "odd (0xda942042e4dd58b5 :: u128)" by simp
  ultimately show "odd (snd (lehmer64_next r))"
    by (simp add: lehmer64_next_def Let_def)
qed

lemma sfc64_run_w: "sfc_w (((\<lambda>s. snd (sfc64_next s)) ^^ n) s) = sfc_w s + of_nat n"
  by (induction n) (simp_all add: sfc64_next_def Let_def)

interpretation sfc: prng sfc64_set_seed sfc64_next "\<lambda>n s. sfc_w s = 13 + of_nat n"
proof
  show "sfc_w (sfc64_set_seed v) = 13 + of_nat 0" for v
    unfolding sfc64_set_seed_def by (subst sfc64_run_w) simp
qed (simp add: sfc64_next_def Let_def)

lemma xoshiro_next_zero:
  assumes z: "xo0 s' = 0" "xo1 s' = 0" "xo2 s' = 0" "xo3 s' = 0" and s': "s' = snd (xoshiro_next s)"
  shows "xo0 s = 0 \<and> xo1 s = 0 \<and> xo2 s = 0 \<and> xo3 s = 0"
proof -
  let ?a = "xo0 s" and ?b = "xo1 s" and ?c = "xo2 s" and ?d = "xo3 s"
  have "word_rotr 45 (word_rotl 45 (?d XOR ?b)) = word_rotr 45 0"
    using z(4) by (simp add: s' xoshiro_next_def Let_def)
  then have db: "?d XOR ?b = 0" by simp
  then have a: "?a = 0" using z(1) by (simp add: s' xoshiro_next_def Let_def)
  then have bc: "?b XOR ?c = 0" and cb: "?c XOR push_bit 17 ?b = 0"
    using z(2,3) by (simp_all add: s' xoshiro_next_def Let_def)
  from bc have "?b XOR (?b XOR ?c) = ?b XOR 0" by simp
  then have c: "?c = ?b" by (simp flip: xor.assoc)
  with cb have b: "?b = 0" by (simp add: xor_shift_left_eq_0)
  with db a c show ?thesis by simp
qed

text \<open>
  The two generators whose step is linear never reach the absorbing all-zero state, and the
  multiplicative one keeps an odd state: from any seed and after any number of steps the
  xorshift64 state is non-zero and the Lehmer64 state is odd, so neither stream degenerates to a
  constant zero.
\<close>

theorem seeded_generators_never_zero:
  "((\<lambda>r. snd (xorshift64_next r)) ^^ n) (xorshift64_set_seed seed) \<noteq> 0
   \<and> odd (((\<lambda>r. snd (lehmer64_next r)) ^^ n) (lehmer64_set_seed seed))
   \<and> sfc_w (((\<lambda>r. snd (sfc64_next r)) ^^ n) (sfc64_set_seed seed)) = 13 + of_nat n"
  using xs64.inv_run lehmer.inv_run sfc.inv_run by blast

section \<open>choose returns a member of the iterator\<close>

lemma iter_nth_eq:
  "iter_nth xs n = (if n < length xs then Some (xs ! n) else None, drop (Suc n) xs)"
  by (induction xs n rule: iter_nth.induct) auto

definition hint_ok :: "('a list \<Rightarrow> nat \<times> nat option) \<Rightarrow> bool" where
  "hint_ok hint \<longleftrightarrow> (\<forall>xs. fst (hint xs) \<le> length xs \<and>
     (case snd (hint xs) of None \<Rightarrow> True | Some u \<Rightarrow> length xs \<le> u))"

lemma hint_okD:
  assumes "hint_ok hint"
  shows "fst (hint xs) \<le> length xs" and "snd (hint xs) = Some u \<Longrightarrow> length xs \<le> u"
  using assms by (auto simp: hint_ok_def split: option.splits dest: spec [of _ xs])

lemma choose_loop_member:
  assumes hint: "hint_ok hint"
  shows "lower \<le> length items \<Longrightarrow> (\<And>u. upper = Some u \<Longrightarrow> length items \<le> u) \<Longrightarrow>
    set items \<subseteq> S \<Longrightarrow> consumed = 0 \<or> result \<in> Some ` S \<Longrightarrow>
    \<exists>res r'. choose_loop nxt hint items consumed lower upper result r = Some (res, r') \<and>
      (if items = [] \<and> consumed = 0 then res = result else res \<in> Some ` S)"
proof (induction items arbitrary: consumed lower upper result r rule: length_induct)
  case (1 items)
  note IH = "1.IH" [rule_format] and prems = "1.prems"
  note unfold = choose_loop.simps [of nxt hint items consumed lower upper result r]
  show ?case
  proof (cases "1 < lower")
    case True
    obtain ix r1 where b: "below nxt r (lower + consumed) = (ix, r1)" by force
    with True have ix: "ix < lower + consumed" by (auto dest: rnd.below_eq_lt)
    define result' where "result' = (if ix < lower then Some (items ! ix) else result)"
    have "items ! i \<in> S" if "i < lower" for i
      using prems(1,3) that by (meson less_le_trans nth_mem subsetD)
    then have res': "result' \<in> Some ` S"
      using prems(4) ix by (auto simp: result'_def)
    let ?rest = "drop lower items"
    have skip: "Suc (Suc (lower - 2)) = lower" "\<not> Suc ix < lower \<Longrightarrow> ix < lower \<Longrightarrow> Suc ix = lower"
      using True by simp_all
    have "choose_loop nxt hint items consumed lower upper result r =
      (if upper = Some lower then Some (result', r1)
       else choose_loop nxt hint ?rest (consumed + lower) (fst (hint ?rest)) (snd (hint ?rest))
              result' r1)"
      using True b prems(1)
      by (auto simp: unfold iter_nth_eq result'_def Let_def split_def add.commute skip)
    moreover have "\<exists>res r'. choose_loop nxt hint ?rest (consumed + lower) (fst (hint ?rest))
        (snd (hint ?rest)) result' r1 = Some (res, r') \<and>
        (if ?rest = [] \<and> consumed + lower = 0 then res = result' else res \<in> Some ` S)"
      by (rule IH [OF _ hint_okD [OF hint]])
        (use True prems(1,3) res' set_drop_subset [of lower items] in auto)
    ultimately show ?thesis using res' True prems(1) by auto
  next
    case False
    show ?thesis
    proof (cases items)
      case Nil
      with False have "choose_loop nxt hint items consumed lower upper result r = Some (result, r)"
        by (subst unfold) (simp add: Nil)
      with prems(4) Nil show ?thesis by auto
    next
      case (Cons e rest)
      obtain k r1 where b: "below nxt r (consumed + 1) = (k, r1)" by force
      then have k: "k < consumed + 1" by (auto dest: rnd.below_eq_lt)
      define result' where "result' = (if k = 0 then Some e else result)"
      have res': "result' \<in> Some ` S"
        using prems k Cons by (auto simp: result'_def)
      have "choose_loop nxt hint items consumed lower upper result r =
        choose_loop nxt hint rest (consumed + 1) (fst (hint rest)) (snd (hint rest)) result' r1"
        using False b by (subst unfold) (simp add: Cons result'_def)
      moreover have "\<exists>res r'. choose_loop nxt hint rest (consumed + 1) (fst (hint rest))
          (snd (hint rest)) result' r1 = Some (res, r') \<and>
          (if rest = [] \<and> consumed + 1 = 0 then res = result' else res \<in> Some ` S)"
        by (rule IH [OF _ hint_okD [OF hint]]) (use Cons prems res' in auto)
      ultimately show ?thesis using Cons by auto
    qed
  qed
qed

text \<open>
  The trait method \<open>Rand::choose\<close>, reservoir sampling over an iterator whose size
  hints are correct, always returns: \<open>None\<close> for an empty iterator and otherwise one of its
  items, for every generator and every generator state.
\<close>

theorem rand_choose_total:
  assumes hint: "hint_ok hint"
  shows "\<exists>res r'. rand_choose nxt hint items r = Some (res, r') \<and>
    (if items = [] then res = None else (\<exists>x \<in> set items. res = Some x))"
proof (cases "snd (hint items) = Some (fst (hint items))")
  case True
  then have len: "fst (hint items) = length items"
    using hint_okD [OF hint, of items] by force
  with True show ?thesis
    using rnd.below_lt [of "length items" nxt r]
    by (cases "below nxt r (length items)")
      (auto simp: rand_choose_def split_def Let_def iter_nth_eq)
next
  case False
  have "\<exists>res r'. choose_loop nxt hint items 0 (fst (hint items)) (snd (hint items)) None r
      = Some (res, r') \<and> (if items = [] \<and> (0::nat) = 0 then res = None
        else res \<in> Some ` set items)"
    by (rule choose_loop_member [OF hint]) (use hint_okD [OF hint] in auto)
  with False show ?thesis
    by (cases "items = []") (auto simp: rand_choose_def split_def Let_def)
qed

theorem rand_choose_total_witness:
  "\<exists>res r'. rand_choose (\<lambda>r. (r, r + 1)) (\<lambda>xs. (0, None)) [10, 20, 30 :: nat] 5 = Some (res, r') \<and>
    (\<exists>x \<in> {10, 20, 30}. res = Some x)"
proof -
  have "hint_ok (\<lambda>xs :: nat list. (0, None))" by (simp add: hint_ok_def)
  from rand_choose_total [OF this, of "\<lambda>r. (r, r + 1)" "[10, 20, 30]" 5] show ?thesis
    by simp
qed

end
