(* ===== verification/Buffers.thy ===== *)
theory Buffers
  imports Rands
begin

text \<open>
  The buffer primitives of \<^verbatim>\<open>libaflmm/src/mutators/mutations.rs\<close> and the resizing
  methods of \<^verbatim>\<open>ResizableMutator\<close> for a byte vector. The two unsafe copies are the
  code's \<open>core::ptr::copy\<close>; their \<open>debug_assert!\<close>s are the model's \<open>Panic\<close>, so a
  proof that a caller never panics is a proof that none of its unsafe copies leaves the buffers.
  \<open>rand_range\<close> is split into the interval a sample selects and the sampling, because the
  interval is what its documentation makes a claim about.
\<close>

section \<open>Copies\<close>

definition buffer_self_copy :: "'a list \<Rightarrow> nat \<Rightarrow> nat \<Rightarrow> nat \<Rightarrow> error + 'a list" where
  "buffer_self_copy data from to len =
     (if data = [] then Inl Panic
      else if \<not> from + len \<le> length data then Inl Panic
      else if \<not> to + len \<le> length data then Inl Panic
      else if len \<noteq> 0 \<and> from \<noteq> to then Inr (overwrite data to (take len (drop from data)))
      else Inr data)"

definition buffer_copy :: "'a list \<Rightarrow> 'a list \<Rightarrow> nat \<Rightarrow> nat \<Rightarrow> nat \<Rightarrow> error + 'a list" where
  "buffer_copy dst src from to len =
     (if dst = [] then Inl Panic
      else if src = [] then Inl Panic
      else if \<not> from + len \<le> length src then Inl Panic
      else if \<not> to + len \<le> length dst then Inl Panic
      else if len \<noteq> 0 then Inr (overwrite dst to (take len (drop from src)))
      else Inr dst)"

definition buffer_set :: "'a list \<Rightarrow> nat \<Rightarrow> nat \<Rightarrow> 'a \<Rightarrow> error + 'a list" where
  "buffer_set data from len val =
     (if \<not> from + len \<le> length data then Inl Panic
      else Inr (overwrite data from (replicate len val)))"

section \<open>ResizableMutator on a vector\<close>

definition vec_resize :: "bytes \<Rightarrow> nat \<Rightarrow> u8 \<Rightarrow> bytes" where
  "vec_resize v new_len value = take new_len v @ replicate (new_len - length v) value"

definition vec_drain :: "bytes \<Rightarrow> nat \<Rightarrow> nat \<Rightarrow> error + bytes" where
  "vec_drain v start stop =
     (if start \<le> stop \<and> stop \<le> length v then Inr (take start v @ drop stop v) else Inl Panic)"

text \<open>\<open>splice(from.., replacement)\<close>.\<close>

definition vec_splice_from :: "bytes \<Rightarrow> nat \<Rightarrow> bytes \<Rightarrow> error + bytes" where
  "vec_splice_from v from replacement =
     (if from \<le> length v then Inr (take from v @ replacement) else Inl Panic)"

section \<open>rand\_range\<close>

definition range_of_sample :: "nat \<Rightarrow> nat \<Rightarrow> nat \<Rightarrow> nat \<times> nat" where
  "range_of_sample upper len sample =
     (let offset2 = 1 + sample;
          offset1 = offset2 - len;
          offset2' = (if upper < offset2 then upper else offset2)
      in (offset1, offset2'))"

definition rand_range :: "('r \<Rightarrow> u64 \<times> 'r) \<Rightarrow> 'r \<Rightarrow> nat \<Rightarrow> nat \<Rightarrow> (nat \<times> nat) \<times> 'r" where
  "rand_range nxt r upper max_len =
     (let (l, r1) = below nxt r max_len;
          len = 1 + l;
          (sample, r2) = below_or_zero nxt r1 (upper + len - 1)
      in (range_of_sample upper len sample, r2))"

section \<open>Facts\<close>

lemma buffer_self_copy_ok:
  assumes "data \<noteq> []" "from + len \<le> length data" "to + len \<le> length data"
  shows "buffer_self_copy data from to len = Inr (overwrite data to (take len (drop from data)))"
proof (cases "len = 0")
  case False
  show ?thesis
  proof (cases "from = to")
    case True
    have "overwrite data to (take len (drop to data)) = data"
      using assms by (simp add: overwrite_def) (metis append_take_drop_id drop_drop add.commute)
    with True assms show ?thesis by (simp add: buffer_self_copy_def)
  qed (use assms in \<open>simp add: buffer_self_copy_def\<close>)
qed (use assms in \<open>simp add: buffer_self_copy_def\<close>)

lemma buffer_copy_ok:
  assumes "dst \<noteq> []" "src \<noteq> []" "from + len \<le> length src" "to + len \<le> length dst"
  shows "buffer_copy dst src from to len = Inr (overwrite dst to (take len (drop from src)))"
  using assms by (cases "len = 0") (simp_all add: buffer_copy_def)

lemma buffer_set_ok:
  "from + len \<le> length data \<Longrightarrow>
    buffer_set data from len val = Inr (overwrite data from (replicate len val))"
  by (simp add: buffer_set_def)

lemma length_vec_resize [simp]: "length (vec_resize v n x) = n"
  by (simp add: vec_resize_def)

lemma vec_resize_eq_Nil_iff [simp]: "vec_resize v n x = [] \<longleftrightarrow> n = 0"
  by (simp flip: length_0_conv)

lemma vec_resize_grow: "length v \<le> n \<Longrightarrow> vec_resize v n x = v @ replicate (n - length v) x"
  by (simp add: vec_resize_def)

lemma take_drop_vec_resize:
  "s + n \<le> length v \<Longrightarrow> take n (drop s (vec_resize v (length v + m) x)) = take n (drop s v)"
  by (simp add: vec_resize_def)

text \<open>
  The idiom of every inserting mutator: grow the vector by \<open>n\<close> bytes, move the tail from
  \<open>off\<close> up, then write \<open>ys\<close> into the hole.
\<close>

lemma grow_shift_ok:
  assumes "off \<le> length v" "0 < n"
  shows "buffer_self_copy (vec_resize v (length v + n) 0) off (off + n) (length v - off)
    = Inr (take off v @ take n (drop off v @ replicate n 0) @ drop off v)"
proof -
  have "buffer_self_copy (vec_resize v (length v + n) 0) off (off + n) (length v - off)
    = Inr (overwrite (vec_resize v (length v + n) 0) (off + n)
        (take (length v - off) (drop off (vec_resize v (length v + n) 0))))"
    using assms by (intro buffer_self_copy_ok) (auto simp: vec_resize_def)
  also have "take (length v - off) (drop off (vec_resize v (length v + n) 0)) = drop off v"
    using assms by (simp add: vec_resize_grow)
  also have "overwrite (vec_resize v (length v + n) 0) (off + n) (drop off v)
    = take off v @ take n (drop off v @ replicate n 0) @ drop off v"
  proof -
    have "take (off + n) (v @ replicate n 0) = take off v @ take n (drop off v @ replicate n 0)"
      using assms by (subst take_add) simp
    moreover have "drop (off + n + length (drop off v)) (v @ replicate n 0) = []"
      using assms by simp
    ultimately show ?thesis by (simp add: overwrite_def vec_resize_grow)
  qed
  finally show ?thesis .
qed

lemma overwrite_hole:
  assumes "length ys = n" "length zs = n" "off = length as"
  shows "overwrite (as @ zs @ bs) off ys = as @ ys @ bs"
  using assms by (simp add: overwrite_def)

lemma range_of_sample_bounds:
  assumes "range_of_sample upper len sample = (s, e)"
    and "0 < upper" "0 < len" "sample < upper + len - 1"
  shows "s < e \<and> e \<le> upper \<and> e - s \<le> len"
  using assms by (auto simp: range_of_sample_def Let_def split: if_splits)

lemma rand_range_bounds:
  assumes "rand_range nxt r upper max_len = ((s, e), r')" and "0 < upper" "0 < max_len"
  shows "s < e \<and> e \<le> upper \<and> e - s \<le> max_len"
proof -
  obtain l r1 where l: "below nxt r max_len = (l, r1)" by force
  obtain x r2 where x: "below_or_zero nxt r1 (upper + (1 + l) - 1) = (x, r2)" by force
  have "l < max_len" using l assms(3) by (auto dest: rnd.below_eq_lt)
  moreover have "x < upper + (1 + l) - 1"
    using rnd.below0_eq_le [OF x] assms(2) by simp
  moreover have "range_of_sample upper (1 + l) x = (s, e)"
    using assms(1) l x by (simp add: rand_range_def Let_def)
  ultimately show ?thesis
    using range_of_sample_bounds [of upper "1 + l" x s e] assms(2) by simp
qed

text \<open>
  What the documentation of \<open>rand_range\<close> promises: for every window length, the samples
  \<open>0 \<dots> upper + len - 2\<close> cover each index below \<open>upper\<close> equally often, namely
  \<open>len\<close> times each, so no position of an input is favoured.
\<close>

theorem rand_range_covers_evenly:
  assumes "i < upper" and "0 < len"
  shows "card {sample. sample < upper + len - 1 \<and>
      fst (range_of_sample upper len sample) \<le> i \<and> i < snd (range_of_sample upper len sample)}
    = len"
proof -
  have "{sample. sample < upper + len - 1 \<and>
      fst (range_of_sample upper len sample) \<le> i \<and> i < snd (range_of_sample upper len sample)}
    = {i..<i + len}"
    using assms by (auto simp: range_of_sample_def Let_def)
  then show ?thesis by simp
qed

theorem rand_range_covers_evenly_witness:
  "card {sample. sample < 10 + 3 - (1 :: nat) \<and>
      fst (range_of_sample 10 3 sample) \<le> 9 \<and> 9 < snd (range_of_sample 10 3 sample)} = 3"
  using rand_range_covers_evenly [of 9 10 3] by simp

end
