(* ===== verification/MutatorApi.thy ===== *)
theory MutatorApi
  imports Buffers
begin

text \<open>
  The trait \<^verbatim>\<open>Mutator\<close> (\<^verbatim>\<open>libaflmm/src/mutators/mod.rs\<close>) as the
  models use it: a mutator takes what it reads of the fuzzer state, the input and the generator,
  and returns whether it acted, the new input and the new generator. The locale
  \<open>byte_mutator\<close> states what every caller of a mutator on byte inputs relies on; each mutator
  of the library is shown to satisfy it where it is defined.
\<close>

datatype mres = Mutated | Skipped

text \<open>
  What a mutator reads of the state: the maximal input size, the identifiers the scheduler
  tracks and the one it currently schedules, the lookups of the corpus (enabled entries, all
  entries), the token dictionary and the logged comparisons, where the state has them. A logged
  comparison is \<^verbatim>\<open>CmpValues\<close> of \<^verbatim>\<open>observers/cmplog/mod.rs\<close>: the two operands
  and whether the first is a constant.
\<close>

datatype cmp_values =
    CmpU8 u8 u8 bool
  | CmpU16 u16 u16 bool
  | CmpU32 u32 u32 bool
  | CmpU64 u64 u64 bool
  | CmpBytes bytes bytes

record 'i mstate =
  max_size :: nat
  sched_ids :: "u64 list"
  sched_current :: "u64 option"
  corpus_get :: "u64 \<Rightarrow> error + 'i"
  corpus_get_all :: "u64 \<Rightarrow> error + 'i"
  tokens_md :: "bytes list option"
  cmplog_md :: "cmp_values list option"

type_synonym 'r outcome = "error + mres \<times> bytes \<times> 'r"

text \<open>
  A state is well formed for the size limit \<open>L\<close> when its own maximal size and all inputs
  the corpus returns for scheduled identifiers are within \<open>L\<close>, the lookups succeed for the
  scheduled identifiers, no token is empty, and the two sides of a logged comparison of byte
  strings are equally long.
\<close>

definition mst_ok :: "nat \<Rightarrow> bytes mstate \<Rightarrow> bool" where
  "mst_ok L st \<longleftrightarrow> max_size st \<le> L \<and>
     (\<forall>id \<in> set (sched_ids st). \<exists>other. corpus_get st id = Inr other \<and>
        corpus_get_all st id = Inr other \<and> length other \<le> L) \<and>
     (case tokens_md st of None \<Rightarrow> True | Some ts \<Rightarrow> [] \<notin> set ts) \<and>
     (case cmplog_md st of None \<Rightarrow> True
      | Some cmps \<Rightarrow> (\<forall>a b. CmpBytes a b \<in> set cmps \<longrightarrow> length a = length b))"

text \<open>
  The contract: a mutator neither fails nor panics, keeps the input within the limit, and
  leaves it alone when it reports \<open>Skipped\<close>.
\<close>

definition outcome_ok :: "nat \<Rightarrow> bytes \<Rightarrow> 'r outcome \<Rightarrow> bool" where
  "outcome_ok L inp res \<longleftrightarrow> (case res of Inl _ \<Rightarrow> False
     | Inr (m, out, _) \<Rightarrow> length out \<le> L \<and> (m = Skipped \<longrightarrow> out = inp))"

locale byte_mutator =
  fixes mutate :: "bytes mstate \<Rightarrow> bytes \<Rightarrow> 'r \<Rightarrow> 'r outcome"
  assumes contract: "mst_ok L st \<Longrightarrow> length inp \<le> L \<Longrightarrow> outcome_ok L inp (mutate st inp r)"
begin

lemma total:
  assumes "mst_ok L st" "length inp \<le> L"
  obtains m out r' where "mutate st inp r = Inr (m, out, r')" "length out \<le> L"
    "m = Skipped \<Longrightarrow> out = inp"
  using contract [OF assms, of r] by (auto simp: outcome_ok_def split: sum.splits)

end

named_theorems outcome_intros \<open>how the branches of a mutator meet the contract\<close>

lemma outcome_ok_Mutated [outcome_intros]:
  "length out \<le> L \<Longrightarrow> outcome_ok L inp (Inr (Mutated, out, r))"
  by (simp add: outcome_ok_def)

lemma outcome_ok_Skipped [outcome_intros]:
  "length inp \<le> L \<Longrightarrow> outcome_ok L inp (Inr (Skipped, inp, r))"
  by (simp add: outcome_ok_def)

lemma outcome_ok_if [outcome_intros]:
  "(b \<Longrightarrow> outcome_ok L inp x) \<Longrightarrow> (\<not> b \<Longrightarrow> outcome_ok L inp y) \<Longrightarrow>
    outcome_ok L inp (if b then x else y)"
  by simp

lemma outcome_ok_pair [outcome_intros]:
  "(\<And>a b. p = (a, b) \<Longrightarrow> outcome_ok L inp (f a b)) \<Longrightarrow>
    outcome_ok L inp (case p of (a, b) \<Rightarrow> f a b)"
  by (cases p) simp

lemma mst_okD:
  assumes "mst_ok L st" "tid \<in> set (sched_ids st)"
  obtains other where "corpus_get st tid = Inr other" "corpus_get_all st tid = Inr other"
    "length other \<le> L"
  using assms by (auto simp: mst_ok_def)

text \<open>\<open>rand.choose(\<dots>).unwrap()\<close> on a slice of the given length.\<close>

definition choose_unwrap :: "('r \<Rightarrow> u64 \<times> 'r) \<Rightarrow> 'r \<Rightarrow> nat \<Rightarrow> error + nat \<times> 'r" where
  "choose_unwrap nxt r len =
     (case choose_index nxt r len of (None, _) \<Rightarrow> Inl Panic | (Some i, r') \<Rightarrow> Inr (i, r'))"

lemma choose_unwrap_ok:
  assumes "0 < len" obtains i r' where "choose_unwrap nxt r len = Inr (i, r')" "i < len"
proof -
  obtain i r' where b: "below nxt r len = (i, r')" by force
  with assms have "i < len" by (auto dest: rnd.below_eq_lt)
  with b assms that show ?thesis by (auto simp: choose_unwrap_def choose_index_def)
qed

lemma outcome_ok_choose [outcome_intros]:
  assumes "0 < len" and "\<And>i r'. i < len \<Longrightarrow> outcome_ok L inp (f (i, r'))"
  shows "outcome_ok L inp (rbind (choose_unwrap nxt r len) f)"
  using assms by (metis choose_unwrap_ok rbind_simps(2))

end
