(* ===== verification/ByteMutators.thy ===== *)
theory ByteMutators
  imports MutatorApi
begin

text \<open>
  The mutators of \<^verbatim>\<open>libaflmm/src/mutators/mutations.rs\<close> that change bytes in
  place: bit and byte flips, increment, decrement, negation, the random byte, the additions on
  1, 2, 4 and 8 byte windows and the interesting values. The macros
  \<open>add_mutator_impl!\<close> and \<open>interesting_mutator_impl!\<close> are one definition each, over the
  size of the window in bytes; an integer of that size is the number its bytes spell
  (\<open>from_ne_bytes\<close> is little-endian on the supported targets).
\<close>

section \<open>Single bytes\<close>

definition mutate_bit_flip :: "('r \<Rightarrow> u64 \<times> 'r) \<Rightarrow> bytes mstate \<Rightarrow> bytes \<Rightarrow> 'r \<Rightarrow> 'r outcome" where
  "mutate_bit_flip nxt st inp r =
     (if inp = [] then Inr (Skipped, inp, r)
      else rbind (choose_unwrap nxt r 8) (\<lambda>(k, r1).
        let bit = push_bit k 1 in
        rbind (choose_unwrap nxt r1 (length inp)) (\<lambda>(i, r2).
          Inr (Mutated, inp[i := inp ! i XOR bit], r2))))"

definition mutate_byte_flip :: "('r \<Rightarrow> u64 \<times> 'r) \<Rightarrow> bytes mstate \<Rightarrow> bytes \<Rightarrow> 'r \<Rightarrow> 'r outcome" where
  "mutate_byte_flip nxt st inp r =
     (if inp = [] then Inr (Skipped, inp, r)
      else rbind (choose_unwrap nxt r (length inp)) (\<lambda>(i, r1).
        Inr (Mutated, inp[i := inp ! i XOR 0xff], r1)))"

definition mutate_byte_inc :: "('r \<Rightarrow> u64 \<times> 'r) \<Rightarrow> bytes mstate \<Rightarrow> bytes \<Rightarrow> 'r \<Rightarrow> 'r outcome" where
  "mutate_byte_inc nxt st inp r =
     (if inp = [] then Inr (Skipped, inp, r)
      else rbind (choose_unwrap nxt r (length inp)) (\<lambda>(i, r1).
        Inr (Mutated, inp[i := inp ! i + 1], r1)))"

definition mutate_byte_dec :: "('r \<Rightarrow> u64 \<times> 'r) \<Rightarrow> bytes mstate \<Rightarrow> bytes \<Rightarrow> 'r \<Rightarrow> 'r outcome" where
  "mutate_byte_dec nxt st inp r =
     (if inp = [] then Inr (Skipped, inp, r)
      else rbind (choose_unwrap nxt r (length inp)) (\<lambda>(i, r1).
        Inr (Mutated, inp[i := inp ! i - 1], r1)))"

definition mutate_byte_neg :: "('r \<Rightarrow> u64 \<times> 'r) \<Rightarrow> bytes mstate \<Rightarrow> bytes \<Rightarrow> 'r \<Rightarrow> 'r outcome" where
  "mutate_byte_neg nxt st inp r =
     (if inp = [] then Inr (Skipped, inp, r)
      else rbind (choose_unwrap nxt r (length inp)) (\<lambda>(i, r1).
        Inr (Mutated, inp[i := - (inp ! i)], r1)))"

definition mutate_byte_rand :: "('r \<Rightarrow> u64 \<times> 'r) \<Rightarrow> bytes mstate \<Rightarrow> bytes \<Rightarrow> 'r \<Rightarrow> 'r outcome" where
  "mutate_byte_rand nxt st inp r =
     (if inp = [] then Inr (Skipped, inp, r)
      else rbind (choose_unwrap nxt r (length inp)) (\<lambda>(i, r1).
        let (k, r2) = below nxt r1 254
        in Inr (Mutated, inp[i := inp ! i XOR (1 + of_nat k)], r2)))"

section \<open>Integers in byte windows\<close>

fun le_val :: "bytes \<Rightarrow> nat" where
  "le_val [] = 0"
| "le_val (b # bs) = unat b + 256 * le_val bs"

fun le_bytes :: "nat \<Rightarrow> nat \<Rightarrow> bytes" where
  "le_bytes 0 v = []"
| "le_bytes (Suc n) v = of_nat (v mod 256) # le_bytes n (v div 256)"

definition be_bytes :: "nat \<Rightarrow> nat \<Rightarrow> bytes" where
  "be_bytes n v = rev (le_bytes n v)"

definition wrapping_add :: "nat \<Rightarrow> nat \<Rightarrow> nat \<Rightarrow> nat" where
  "wrapping_add n a b = (a + b) mod 256 ^ n"

definition wrapping_sub :: "nat \<Rightarrow> nat \<Rightarrow> nat \<Rightarrow> nat" where
  "wrapping_sub n a b = (a + (256 ^ n - b mod 256 ^ n)) mod 256 ^ n"

definition swap_bytes :: "nat \<Rightarrow> nat \<Rightarrow> nat" where
  "swap_bytes n v = le_val (rev (le_bytes n v))"

definition arith_max :: nat where
  "arith_max = 35"

definition mutate_add :: "nat \<Rightarrow> ('r \<Rightarrow> u64 \<times> 'r) \<Rightarrow> bytes mstate \<Rightarrow> bytes \<Rightarrow> 'r \<Rightarrow> 'r outcome" where
  "mutate_add sz nxt st inp r =
     (if length inp < sz then Inr (Skipped, inp, r)
      else rbind (choose_unwrap nxt r (length inp - sz + 1)) (\<lambda>(index, r1).
        let val = le_val (take sz (drop index inp));
            (k, r2) = below nxt r1 arith_max;
            num = 1 + k;
            (sel, r3) = below nxt r2 4;
            new_val =
              (if sel = 0 then wrapping_add sz val num
               else if sel = 1 then wrapping_sub sz val num
               else if sel = 2 then swap_bytes sz (wrapping_add sz (swap_bytes sz val) num)
               else swap_bytes sz (wrapping_sub sz (swap_bytes sz val) num))
        in Inr (Mutated, overwrite inp index (le_bytes sz new_val), r3)))"

definition interesting_8 :: "int list" where
  "interesting_8 = [-128, -1, 0, 1, 16, 32, 64, 100, 127]"

definition interesting_16 :: "int list" where
  "interesting_16 =
    [-128, -1, 0, 1, 16, 32, 64, 100, 127, -32768, -129, 128, 255, 256, 512, 1000, 1024, 4096,
     32767]"

definition interesting_32 :: "int list" where
  "interesting_32 =
    [-128, -1, 0, 1, 16, 32, 64, 100, 127, -32768, -129, 128, 255, 256, 512, 1000, 1024, 4096,
     32767, -2147483648, -100663046, -32769, 32768, 65535, 65536, 100663045, 2147483647]"

definition mutate_interesting ::
  "nat \<Rightarrow> int list \<Rightarrow> ('r \<Rightarrow> u64 \<times> 'r) \<Rightarrow> bytes mstate \<Rightarrow> bytes \<Rightarrow> 'r \<Rightarrow> 'r outcome" where
  "mutate_interesting sz interesting nxt st inp r =
     (if length inp < sz then Inr (Skipped, inp, r)
      else
        let upper_bound = length inp + 1 - sz;
            (idx, r1) = below nxt r upper_bound
        in rbind (choose_unwrap nxt r1 (length interesting)) (\<lambda>(v, r2).
             let val = nat ((interesting ! v) mod 256 ^ sz) in
             rbind (choose_unwrap nxt r2 2) (\<lambda>(e, r3).
               let new_bytes = (if e = 0 then be_bytes sz val else le_bytes sz val)
               in Inr (Mutated, overwrite inp idx new_bytes, r3))))"

section \<open>Facts on the encodings\<close>

lemma length_le_bytes [simp]: "length (le_bytes n v) = n"
  by (induction n v rule: le_bytes.induct) simp_all

lemma length_be_bytes [simp]: "length (be_bytes n v) = n"
  by (simp add: be_bytes_def)

lemma le_val_less: "le_val bs < 256 ^ length bs"
proof (induction bs)
  case (Cons b bs)
  have "unat b < 256" using unsigned_less [of b] by simp
  with Cons show ?case by simp
qed simp

lemma le_bytes_le_val [simp]: "le_bytes (length bs) (le_val bs) = bs"
proof (induction bs)
  case (Cons b bs)
  have "unat b < 256" using unsigned_less [of b] by simp
  with Cons show ?case by simp
qed simp

lemma le_val_le_bytes [simp]: "le_val (le_bytes n v) = v mod 256 ^ n"
proof (induction n v rule: le_bytes.induct)
  case (2 n v)
  have "unat (of_nat (v mod 256) :: u8) = v mod 256"
    by (simp add: unsigned_of_nat take_bit_eq_mod)
  with 2 show ?case
    by (simp add: mod_mult2_eq)
qed simp

lemma le_val_eq_iff: "length as = length bs \<Longrightarrow> le_val as = le_val bs \<longleftrightarrow> as = bs"
  by (metis le_bytes_le_val)

section \<open>The contract\<close>

lemmas byte_mutator_defs = mutate_bit_flip_def mutate_byte_flip_def mutate_byte_inc_def
  mutate_byte_dec_def mutate_byte_neg_def mutate_byte_rand_def

interpretation bit_flip: byte_mutator "mutate_bit_flip nxt" for nxt
  by unfold_locales (auto simp: byte_mutator_defs Let_def intro!: outcome_intros)

interpretation byte_flip: byte_mutator "mutate_byte_flip nxt" for nxt
  by unfold_locales (auto simp: byte_mutator_defs intro!: outcome_intros)

interpretation byte_inc: byte_mutator "mutate_byte_inc nxt" for nxt
  by unfold_locales (auto simp: byte_mutator_defs intro!: outcome_intros)

interpretation byte_dec: byte_mutator "mutate_byte_dec nxt" for nxt
  by unfold_locales (auto simp: byte_mutator_defs intro!: outcome_intros)

interpretation byte_neg: byte_mutator "mutate_byte_neg nxt" for nxt
  by unfold_locales (auto simp: byte_mutator_defs intro!: outcome_intros)

interpretation byte_rand: byte_mutator "mutate_byte_rand nxt" for nxt
  by unfold_locales (auto simp: byte_mutator_defs split_def Let_def intro!: outcome_intros)

interpretation add: byte_mutator "mutate_add sz nxt" for sz nxt
  by unfold_locales (auto simp: mutate_add_def split_def Let_def intro!: outcome_intros)

lemma interesting_contract:
  assumes "vals \<noteq> []"
  shows "byte_mutator (mutate_interesting sz vals nxt)"
proof
  fix L st and inp :: bytes and r
  assume len: "length inp \<le> L"
  show "outcome_ok L inp (mutate_interesting sz vals nxt st inp r)"
  proof (cases "length inp < sz")
    case True
    with len show ?thesis by (simp add: mutate_interesting_def outcome_intros)
  next
    case False
    obtain idx r1 where idx: "below nxt r (Suc (length inp) - sz) = (idx, r1)" by force
    with False have "idx + sz \<le> length inp"
      using rnd.below_eq_lt [OF idx] by simp
    with False len assms show ?thesis
      by (auto simp: mutate_interesting_def idx Let_def intro!: outcome_intros)
  qed
qed

interpretation interesting8: byte_mutator "mutate_interesting 1 interesting_8 nxt" for nxt
  by (rule interesting_contract) (simp add: interesting_8_def)

interpretation interesting16: byte_mutator "mutate_interesting 2 interesting_16 nxt" for nxt
  by (rule interesting_contract) (simp add: interesting_16_def)

interpretation interesting32: byte_mutator "mutate_interesting 4 interesting_32 nxt" for nxt
  by (rule interesting_contract) (simp add: interesting_32_def)

section \<open>What an addition does\<close>

lemma le_val_rev_le_bytes: "le_val (rev (le_bytes sz v)) = swap_bytes sz v"
  by (simp add: swap_bytes_def)

lemma swap_bytes_swap [simp]: "swap_bytes sz (swap_bytes sz v) = v mod 256 ^ sz"
proof -
  have "length (rev (le_bytes sz v)) = sz" by simp
  then have "le_bytes sz (swap_bytes sz v) = rev (le_bytes sz v)"
    unfolding swap_bytes_def by (metis le_bytes_le_val)
  then show ?thesis by (simp add: swap_bytes_def [of sz "swap_bytes sz v"])
qed

lemma swap_bytes_window: "length w = sz \<Longrightarrow> swap_bytes sz (le_val w) = le_val (rev w)"
  by (metis swap_bytes_def le_bytes_le_val)

text \<open>The value of a window is moved by \<open>n\<close>, up or down, wrapping at the width of the window.\<close>

definition moved_by :: "nat \<Rightarrow> nat \<Rightarrow> nat \<Rightarrow> nat \<Rightarrow> bool" where
  "moved_by sz n a b \<longleftrightarrow> b = (a + n) mod 256 ^ sz \<or> a = (b + n) mod 256 ^ sz"

lemma wrapping_add_moved: "moved_by sz n a (wrapping_add sz a n)"
  by (simp add: moved_by_def wrapping_add_def)

lemma wrapping_sub_moved:
  assumes "a < 256 ^ sz" shows "moved_by sz n a (wrapping_sub sz a n)"
proof -
  let ?M = "256 ^ sz :: nat"
  have "(wrapping_sub sz a n + n) mod ?M = (a + (?M - n mod ?M) + n mod ?M) mod ?M"
    unfolding wrapping_sub_def by (simp add: mod_simps)
  also have "a + (?M - n mod ?M) + n mod ?M = a + ?M"
  proof -
    have "n mod ?M < ?M" by simp
    then show ?thesis by linarith
  qed
  also have "(a + ?M) mod ?M = a" using assms by simp
  finally show ?thesis by (simp add: moved_by_def)
qed

lemma wrapping_less: "wrapping_add sz a n < 256 ^ sz" "wrapping_sub sz a n < 256 ^ sz"
  by (simp_all add: wrapping_add_def wrapping_sub_def)

text \<open>
  An addition mutator picks one window of its width and adds or subtracts a number from 1 to
  \<open>ARITH_MAX\<close> to the integer stored there, read in one of the two byte orders and wrapping at the
  width; all bytes outside of the window keep their values.
\<close>

theorem add_moves_one_window:
  assumes "mutate_add sz nxt st inp r = Inr (Mutated, out, r')"
  shows "\<exists>index n. index + sz \<le> length inp \<and> 1 \<le> n \<and> n \<le> arith_max \<and> length out = length inp \<and>
    take index out = take index inp \<and> drop (index + sz) out = drop (index + sz) inp \<and>
    (let w = take sz (drop index inp); w' = take sz (drop index out)
     in moved_by sz n (le_val w) (le_val w') \<or> moved_by sz n (le_val (rev w)) (le_val (rev w')))"
proof -
  from assms have len: "sz \<le> length inp" by (auto simp: mutate_add_def split: if_splits)
  obtain i r1 where i: "choose_unwrap nxt r (length inp - sz + 1) = Inr (i, r1)"
    "i < length inp - sz + 1"
    by (rule choose_unwrap_ok [of "length inp - sz + 1" nxt r]) simp
  obtain k r2 where k: "below nxt r1 arith_max = (k, r2)" by force
  obtain sel r3 where sel: "below nxt r2 4 = (sel, r3)" by force
  have kb: "k < arith_max" by (rule rnd.below_eq_lt [OF k]) (simp add: arith_max_def)
  define w where "w = take sz (drop i inp)"
  define v where "v = (if sel = 0 then wrapping_add sz (le_val w) (1 + k)
       else if sel = 1 then wrapping_sub sz (le_val w) (1 + k)
       else if sel = 2 then swap_bytes sz (wrapping_add sz (swap_bytes sz (le_val w)) (1 + k))
       else swap_bytes sz (wrapping_sub sz (swap_bytes sz (le_val w)) (1 + k)))"
  have out: "out = overwrite inp i (le_bytes sz v)"
    using assms len i(1) by (auto simp: mutate_add_def k sel Let_def w_def v_def)
  have ib: "i + sz \<le> length inp" using i(2) len by linarith
  have lw: "length w = sz" using ib by (simp add: w_def length_take_drop del: length_take)
  have lt: "le_val w < 256 ^ sz" "le_val (rev w) < 256 ^ sz"
    using le_val_less [of w] le_val_less [of "rev w"] lw by simp_all
  have w': "take sz (drop i out) = le_bytes sz v" using ib by (simp add: out overwrite_def)
  have "moved_by sz (1 + k) (le_val w) (le_val (le_bytes sz v)) \<or>
      moved_by sz (1 + k) (le_val (rev w)) (le_val (rev (le_bytes sz v)))"
    using wrapping_add_moved [of sz "1 + k"] wrapping_sub_moved [OF lt(1), of "1 + k"]
      wrapping_sub_moved [OF lt(2), of "1 + k"] wrapping_less [of sz _ "1 + k"]
    by (simp add: v_def le_val_rev_le_bytes swap_bytes_window [OF lw] mod_less)
  moreover have "take i out = take i inp" "drop (i + sz) out = drop (i + sz) inp"
    "length out = length inp"
    using ib by (simp_all add: out overwrite_def)
  ultimately show ?thesis
    using ib kb by (intro exI [of _ i] exI [of _ "1 + k"]) (simp add: w' Let_def flip: w_def)
qed

theorem add_moves_one_window_witness:
  "\<exists>index n. index + 2 \<le> length [255 :: u8, 0] \<and> 1 \<le> n \<and> n \<le> arith_max \<and>
    length [0 :: u8, 1] = length [255 :: u8, 0] \<and>
    take index [0, 1] = take index [255 :: u8, 0] \<and>
    drop (index + 2) [0, 1] = drop (index + 2) [255 :: u8, 0] \<and>
    (let w = take 2 (drop index [255, 0]); w' = take 2 (drop index [0, 1])
     in moved_by 2 n (le_val w) (le_val w') \<or> moved_by 2 n (le_val (rev w)) (le_val (rev w')))"
proof (rule add_moves_one_window [where nxt = "\<lambda>s :: u64. (0, s)" and r = 0 and r' = 0 and
      st = undefined])
  have "choose_unwrap (\<lambda>s :: u64. (0, s)) 0 1 = Inr (0, 0)"
    by (simp add: choose_unwrap_def choose_index_def below_def)
  moreover have "wrapping_add 2 (le_val [255, 0]) 1 = 256"
    by (simp add: wrapping_add_def)
  moreover have "le_bytes 2 256 = [0, 1]"
    unfolding numeral_2_eq_2 by simp
  ultimately show "mutate_add 2 (\<lambda>s :: u64. (0, s)) undefined [255, 0] 0 = Inr (Mutated, [0, 1], 0)"
    by (simp add: mutate_add_def below_def overwrite_def)
qed

end
