(* ===== verification/ResizeMutators.thy ===== *)
theory ResizeMutators
  imports ByteMutators
begin

text \<open>
  The mutators of \<^verbatim>\<open>libaflmm/src/mutators/mutations.rs\<close> that move blocks of bytes:
  deletion, expansion, insertion, overwriting with a constant, copying within the input and
  swapping two ranges. A \<open>Range\<close> is the pair of its bounds. The temporary buffer that
  \<open>BytesInsertCopyMutator\<close> and \<open>BytesSwapMutator\<close> keep between calls is threaded
  beside the generator.

  For each mutator the lemmas give its effect on the input in terms of \<open>take\<close> and
  \<open>drop\<close>; the contract of \<open>byte_mutator\<close> follows from them, and with it that no
  \<open>debug_assert!\<close> of the unsafe copies fails.
\<close>

section \<open>Deletion, expansion and insertion\<close>

definition mutate_delete :: "('r \<Rightarrow> u64 \<times> 'r) \<Rightarrow> bytes mstate \<Rightarrow> bytes \<Rightarrow> 'r \<Rightarrow> 'r outcome" where
  "mutate_delete nxt st inp r =
     (let size = length inp
      in if size \<le> 2 then Inr (Skipped, inp, r)
         else let ((start, stop), r1) = rand_range nxt r size (size - 1)
              in rbind (vec_drain inp start stop) (\<lambda>out. Inr (Mutated, out, r1)))"

definition mutate_expand :: "('r \<Rightarrow> u64 \<times> 'r) \<Rightarrow> bytes mstate \<Rightarrow> bytes \<Rightarrow> 'r \<Rightarrow> 'r outcome" where
  "mutate_expand nxt st inp r =
     (let max = max_size st; size = length inp
      in if size = 0 \<or> max \<le> size then Inr (Skipped, inp, r)
         else let ((start, stop), r1) = rand_range nxt r size (min 16 (max - size));
                  data = vec_resize inp (size + (stop - start)) 0
              in rbind (buffer_self_copy data start (start + (stop - start)) (size - start))
                   (\<lambda>out. Inr (Mutated, out, r1)))"

definition mutate_insert :: "('r \<Rightarrow> u64 \<times> 'r) \<Rightarrow> bytes mstate \<Rightarrow> bytes \<Rightarrow> 'r \<Rightarrow> 'r outcome" where
  "mutate_insert nxt st inp r =
     (let max = max_size st; size = length inp
      in if size = 0 \<or> max \<le> size then Inr (Skipped, inp, r)
         else let (k, r1) = below nxt r 16;
                  (offset, r2) = below nxt r1 (size + 1)
              in if max < size + (1 + k) \<and> \<not> size < max then Inr (Skipped, inp, r2)
                 else let amount = (if max < size + (1 + k) then max - size else 1 + k);
                          (i, r3) = below nxt r2 size;
                          val = inp ! i;
                          data = vec_resize inp (size + amount) 0
                      in rbind (buffer_self_copy data offset (offset + amount) (size - offset))
                           (\<lambda>data. rbind (buffer_set data offset amount val)
                             (\<lambda>out. Inr (Mutated, out, r3))))"

definition mutate_rand_insert ::
  "('r \<Rightarrow> u64 \<times> 'r) \<Rightarrow> bytes mstate \<Rightarrow> bytes \<Rightarrow> 'r \<Rightarrow> 'r outcome" where
  "mutate_rand_insert nxt st inp r =
     (let max = max_size st; size = length inp
      in if max \<le> size then Inr (Skipped, inp, r)
         else let (k, r1) = below nxt r 16;
                  (offset, r2) = below nxt r1 (size + 1)
              in if max < size + (1 + k) \<and> \<not> size < max then Inr (Skipped, inp, r2)
                 else let amount = (if max < size + (1 + k) then max - size else 1 + k);
                          (x, r3) = nxt r2;
                          val = ucast x;
                          data = vec_resize inp (size + amount) 0
                      in rbind (buffer_self_copy data offset (offset + amount) (size - offset))
                           (\<lambda>data. rbind (buffer_set data offset amount val)
                             (\<lambda>out. Inr (Mutated, out, r3))))"

section \<open>Overwriting and copying\<close>

definition mutate_set :: "('r \<Rightarrow> u64 \<times> 'r) \<Rightarrow> bytes mstate \<Rightarrow> bytes \<Rightarrow> 'r \<Rightarrow> 'r outcome" where
  "mutate_set nxt st inp r =
     (let size = length inp
      in if size = 0 then Inr (Skipped, inp, r)
         else let ((start, stop), r1) = rand_range nxt r size (min size 16)
              in rbind (choose_unwrap nxt r1 (length inp)) (\<lambda>(i, r2).
                   rbind (buffer_set inp start (stop - start) (inp ! i))
                     (\<lambda>out. Inr (Mutated, out, r2))))"

definition mutate_rand_set :: "('r \<Rightarrow> u64 \<times> 'r) \<Rightarrow> bytes mstate \<Rightarrow> bytes \<Rightarrow> 'r \<Rightarrow> 'r outcome" where
  "mutate_rand_set nxt st inp r =
     (let size = length inp
      in if size = 0 then Inr (Skipped, inp, r)
         else let ((start, stop), r1) = rand_range nxt r size (min size 16);
                  (x, r2) = nxt r1
              in rbind (buffer_set inp start (stop - start) (ucast x))
                   (\<lambda>out. Inr (Mutated, out, r2)))"

definition mutate_copy :: "('r \<Rightarrow> u64 \<times> 'r) \<Rightarrow> bytes mstate \<Rightarrow> bytes \<Rightarrow> 'r \<Rightarrow> 'r outcome" where
  "mutate_copy nxt st inp r =
     (let size = length inp
      in if size \<le> 1 then Inr (Skipped, inp, r)
         else let (target, r1) = below nxt r size;
                  ((start, stop), r2) = rand_range nxt r1 size (size - target)
              in rbind (buffer_self_copy inp start target (stop - start))
                   (\<lambda>out. Inr (Mutated, out, r2)))"

definition mutate_insert_copy ::
  "('r \<Rightarrow> u64 \<times> 'r) \<Rightarrow> bytes mstate \<Rightarrow> bytes \<Rightarrow> bytes \<times> 'r \<Rightarrow> (bytes \<times> 'r) outcome" where
  "mutate_insert_copy nxt st inp = (\<lambda>(tmp_buf, r).
     let size = length inp
     in if size \<le> 1 \<or> max_size st \<le> size then Inr (Skipped, inp, tmp_buf, r)
        else let (target, r1) = below nxt r size;
                 max_insert_len = min (size - target) (max_size st - size);
                 max_insert_len = min 16 max_insert_len;
                 ((start, stop), r2) = rand_range nxt r1 size max_insert_len;
                 len = stop - start;
                 data = vec_resize inp (size + len) 0;
                 tmp_buf = vec_resize tmp_buf len 0
             in rbind (buffer_copy tmp_buf data start 0 len) (\<lambda>tmp_buf.
                rbind (buffer_self_copy data target (target + len) (size - target)) (\<lambda>data.
                rbind (buffer_copy data tmp_buf 0 target len) (\<lambda>out.
                  Inr (Mutated, out, tmp_buf, r2)))))"

section \<open>Swapping two ranges\<close>

text \<open>
  The two branches of \<open>BytesSwapMutator::mutate\<close>, after the second range is drawn: it lies
  before the first one, or behind it. The results are the temporary buffer and the input.
\<close>

definition swap_second_before ::
  "bytes \<Rightarrow> bytes \<Rightarrow> nat \<times> nat \<Rightarrow> nat \<times> nat \<Rightarrow> error + bytes \<times> bytes" where
  "swap_second_before tmp_buf inp = (\<lambda>(f_start, f_end) (s_start, s_end).
     let f_len = f_end - f_start; s_len = s_end - s_start;
         tmp_buf = vec_resize tmp_buf f_len 0
     in if s_len \<le> f_len
        then let diff_in_size = f_len - s_len
             in rbind (buffer_copy tmp_buf inp f_start 0 f_len) (\<lambda>tmp_buf.
                rbind (buffer_self_copy inp s_end (s_end + diff_in_size) (f_start - s_end)) (\<lambda>inp.
                rbind (buffer_self_copy inp s_start (f_start + diff_in_size) s_len) (\<lambda>inp.
                rbind (buffer_copy inp tmp_buf 0 s_start f_len) (\<lambda>inp.
                  Inr (tmp_buf, inp)))))
        else let diff_in_size = s_len - f_len
             in rbind (buffer_copy tmp_buf inp f_start 0 f_len) (\<lambda>tmp_buf.
                rbind (buffer_self_copy inp s_end (s_end - diff_in_size) (f_start - s_end)) (\<lambda>inp.
                rbind (buffer_self_copy inp s_start (f_start - diff_in_size) s_len) (\<lambda>inp.
                rbind (buffer_copy inp tmp_buf 0 s_start f_len) (\<lambda>inp.
                  Inr (tmp_buf, inp))))))"

definition swap_second_behind ::
  "bytes \<Rightarrow> bytes \<Rightarrow> nat \<times> nat \<Rightarrow> nat \<times> nat \<Rightarrow> error + bytes \<times> bytes" where
  "swap_second_behind tmp_buf inp = (\<lambda>(f_start, f_end) (s_start, s_end).
     let f_len = f_end - f_start; s_len = s_end - s_start;
         tmp_buf = vec_resize tmp_buf s_len 0
     in if f_len \<le> s_len
        then let diff_in_size = s_len - f_len
             in rbind (buffer_copy tmp_buf inp s_start 0 s_len) (\<lambda>tmp_buf.
                rbind (buffer_self_copy inp f_end (f_end + diff_in_size) (s_start - f_end)) (\<lambda>inp.
                rbind (buffer_self_copy inp f_start (s_start + diff_in_size) f_len) (\<lambda>inp.
                rbind (buffer_copy inp tmp_buf 0 f_start s_len) (\<lambda>inp.
                  Inr (tmp_buf, inp)))))
        else let diff_in_size = f_len - s_len
             in rbind (buffer_copy tmp_buf inp s_start 0 s_len) (\<lambda>tmp_buf.
                rbind (buffer_self_copy inp f_end (f_end - diff_in_size) (s_start - f_end)) (\<lambda>inp.
                rbind (buffer_self_copy inp f_start (s_start - diff_in_size) f_len) (\<lambda>inp.
                rbind (buffer_copy inp tmp_buf 0 f_start s_len) (\<lambda>inp.
                  Inr (tmp_buf, inp))))))"

definition mutate_swap ::
  "('r \<Rightarrow> u64 \<times> 'r) \<Rightarrow> bytes mstate \<Rightarrow> bytes \<Rightarrow> bytes \<times> 'r \<Rightarrow> (bytes \<times> 'r) outcome" where
  "mutate_swap nxt st inp = (\<lambda>(tmp_buf, r).
     let size = length inp
     in if size \<le> 1 then Inr (Skipped, inp, tmp_buf, r)
        else let ((f_start, f_end), r1) = rand_range nxt r size size;
                 (x, r2) = nxt r1
             in if x AND 1 = 0 \<and> f_start \<noteq> 0
                then let (second, r3) = rand_range nxt r2 f_start f_start
                     in rbind (swap_second_before tmp_buf inp (f_start, f_end) second)
                          (\<lambda>(tmp_buf, out). Inr (Mutated, out, tmp_buf, r3))
                else if f_end \<noteq> size
                then let ((s_start, s_end), r3) = rand_range nxt r2 (size - f_end) (size - f_end);
                         second = (s_start + f_end, s_end + f_end)
                     in rbind (swap_second_behind tmp_buf inp (f_start, f_end) second)
                          (\<lambda>(tmp_buf, out). Inr (Mutated, out, tmp_buf, r3))
                else Inr (Skipped, inp, tmp_buf, r2))"

section \<open>The effect of the block moves\<close>

lemma grow_shift_hole:
  assumes "off \<le> length v" "0 < n"
  obtains hole where "length hole = n"
    "buffer_self_copy (vec_resize v (length v + n) 0) off (off + n) (length v - off)
      = Inr (take off v @ hole @ drop off v)"
  by (rule that [OF _ grow_shift_ok [OF assms]]) simp

lemma grow_set_ok:
  assumes "off \<le> length v" "0 < n"
  shows "rbind (buffer_self_copy (vec_resize v (length v + n) 0) off (off + n) (length v - off))
      (\<lambda>data. rbind (buffer_set data off n x) f)
    = f (take off v @ replicate n x @ drop off v)"
proof -
  obtain hole where "length hole = n" and
    "buffer_self_copy (vec_resize v (length v + n) 0) off (off + n) (length v - off)
      = Inr (take off v @ hole @ drop off v)"
    by (rule grow_shift_hole [OF assms])
  then show ?thesis
    using assms by (simp add: buffer_set_ok overwrite_hole)
qed

lemma grow_write_ok:
  assumes "off \<le> length v" "0 < n" "s + n \<le> length src"
  shows "rbind (buffer_self_copy (vec_resize v (length v + n) 0) off (off + n) (length v - off))
      (\<lambda>data. rbind (buffer_copy data src s off n) f)
    = f (take off v @ take n (drop s src) @ drop off v)"
proof -
  obtain hole where hole: "length hole = n" and
    shift: "buffer_self_copy (vec_resize v (length v + n) 0) off (off + n) (length v - off)
      = Inr (take off v @ hole @ drop off v)"
    by (rule grow_shift_hole [OF assms(1,2)])
  let ?d = "take off v @ hole @ drop off v"
  have "buffer_copy ?d src s off n = Inr (overwrite ?d off (take n (drop s src)))"
    using assms hole by (intro buffer_copy_ok) auto
  then show ?thesis
    using assms hole shift by (simp add: overwrite_hole)
qed

section \<open>What each mutator does to the input\<close>

text \<open>
  \<open>result_is P res\<close>: the call returned normally, and when it reports a mutation the new
  input satisfies \<open>P\<close>; otherwise the input is the old one.
\<close>

definition result_is :: "bytes \<Rightarrow> (bytes \<Rightarrow> bool) \<Rightarrow> 'r outcome \<Rightarrow> bool" where
  "result_is inp P res \<longleftrightarrow> (case res of Inl _ \<Rightarrow> False
     | Inr (Mutated, out, _) \<Rightarrow> P out | Inr (Skipped, out, _) \<Rightarrow> out = inp)"

lemma result_is_simps [simp]:
  "result_is inp P (Inr (Mutated, out, r)) \<longleftrightarrow> P out"
  "result_is inp P (Inr (Skipped, out, r)) \<longleftrightarrow> out = inp"
  "\<not> result_is inp P (Inl e)"
  by (simp_all add: result_is_def)

lemma result_is_outcome:
  assumes "result_is inp P res" "length inp \<le> L" "\<And>out. P out \<Longrightarrow> length out \<le> L"
  shows "outcome_ok L inp res"
proof (cases res)
  case (Inr t)
  then obtain m out r where "res = Inr (m, out, r)" by (cases t) auto
  with assms show ?thesis by (cases m) (auto simp: outcome_ok_def)
qed (use assms in simp)

lemma result_is_choose:
  assumes "0 < n" "\<And>i r'. i < n \<Longrightarrow> result_is inp P (f (i, r'))"
  shows "result_is inp P (rbind (choose_unwrap nxt r n) f)"
  using assms by (metis choose_unwrap_ok rbind_simps(2))

text \<open>The shapes of the results.\<close>

definition deleted_block :: "bytes \<Rightarrow> bytes \<Rightarrow> bool" where
  "deleted_block inp out \<longleftrightarrow> (\<exists>s e. s < e \<and> e \<le> length inp \<and> e - s < length inp \<and>
     out = take s inp @ drop e inp)"

definition inserted_block :: "nat \<Rightarrow> (nat \<Rightarrow> bytes \<Rightarrow> bool) \<Rightarrow> bytes \<Rightarrow> bytes \<Rightarrow> bool" where
  "inserted_block n B inp out \<longleftrightarrow> (\<exists>off ys. off \<le> length inp \<and> ys \<noteq> [] \<and> length ys \<le> n \<and> B off ys \<and>
     out = take off inp @ ys @ drop off inp)"

definition overwritten_block :: "(bytes \<Rightarrow> bool) \<Rightarrow> bytes \<Rightarrow> bytes \<Rightarrow> bool" where
  "overwritten_block B inp out \<longleftrightarrow> (\<exists>off ys. ys \<noteq> [] \<and> off + length ys \<le> length inp \<and> B ys \<and>
     out = overwrite inp off ys)"

definition block_of :: "bytes \<Rightarrow> bytes \<Rightarrow> bool" where
  "block_of src ys \<longleftrightarrow> (\<exists>s. s + length ys \<le> length src \<and> ys = take (length ys) (drop s src))"

lemma length_inserted: "inserted_block n B inp out \<Longrightarrow> length out \<le> length inp + n"
  by (auto simp: inserted_block_def)

lemma length_overwritten: "overwritten_block B inp out \<Longrightarrow> length out = length inp"
  by (auto simp: overwritten_block_def)

lemma block_of_take: "s + n \<le> length src \<Longrightarrow> block_of src (take n (drop s src))"
  by (auto simp: block_of_def)

lemma deleted_blockI:
  "s < e \<Longrightarrow> e \<le> length inp \<Longrightarrow> e - s < length inp \<Longrightarrow> deleted_block inp (take s inp @ drop e inp)"
  by (auto simp: deleted_block_def)

lemma inserted_blockI:
  "off \<le> length inp \<Longrightarrow> 0 < length ys \<Longrightarrow> length ys \<le> n \<Longrightarrow> B off ys \<Longrightarrow>
    inserted_block n B inp (take off inp @ ys @ drop off inp)"
  by (auto simp: inserted_block_def)

lemma overwritten_blockI:
  "0 < length ys \<Longrightarrow> off + length ys \<le> length inp \<Longrightarrow> B ys \<Longrightarrow>
    overwritten_block B inp (overwrite inp off ys)"
  by (auto simp: overwritten_block_def)

lemma delete_effect: "result_is inp (deleted_block inp) (mutate_delete nxt st inp r)"
proof (cases "length inp \<le> 2")
  case False
  obtain s e r1 where rg: "rand_range nxt r (length inp) (length inp - 1) = ((s, e), r1)"
    by (metis surj_pair)
  have b: "s < e \<and> e \<le> length inp \<and> e - s \<le> length inp - 1"
    by (rule rand_range_bounds [OF rg]) (use False in auto)
  with False have "deleted_block inp (take s inp @ drop e inp)"
    by (intro deleted_blockI) auto
  with False rg b show ?thesis by (simp add: mutate_delete_def Let_def vec_drain_def)
qed (simp add: mutate_delete_def)

lemma expand_effect:
  "result_is inp (inserted_block (min 16 (max_size st - length inp))
      (\<lambda>off ys. ys = take (length ys) (drop off inp @ replicate (length ys) 0)) inp)
    (mutate_expand nxt st inp r)"
proof (cases "length inp = 0 \<or> max_size st \<le> length inp")
  case False
  let ?n = "min 16 (max_size st - length inp)"
  obtain s e r1 where rg: "rand_range nxt r (length inp) ?n = ((s, e), r1)"
    by (metis surj_pair)
  have b: "s < e \<and> e \<le> length inp \<and> e - s \<le> ?n"
    by (rule rand_range_bounds [OF rg]) (use False in auto)
  let ?ys = "take (e - s) (drop s inp @ replicate (e - s) 0)"
  have "length ?ys = e - s" by simp
  with b have "inserted_block ?n
      (\<lambda>off ys. ys = take (length ys) (drop off inp @ replicate (length ys) 0)) inp
      (take s inp @ ?ys @ drop s inp)"
    by (intro inserted_blockI) (auto simp del: take_append)
  moreover have "buffer_self_copy (vec_resize inp (length inp + (e - s)) 0) s (s + (e - s))
      (length inp - s) = Inr (take s inp @ ?ys @ drop s inp)"
    by (rule grow_shift_ok) (use b in auto)
  ultimately show ?thesis
    using False by (simp add: mutate_expand_def Let_def rg del: take_append)
qed (auto simp: mutate_expand_def)

text \<open>The two insertions share the choice of the amount and of the offset.\<close>

lemma insert_amount:
  assumes "below nxt r 16 = (k, r1)" "len < lim"
  shows "0 < (if lim < len + (1 + k) then lim - len else 1 + k)"
    "(if lim < len + (1 + k) then lim - len else 1 + k) \<le> min 16 (lim - len)"
  using assms rnd.below_eq_lt [OF assms(1)] by auto

lemma insert_effect:
  "result_is inp (inserted_block (min 16 (max_size st - length inp))
      (\<lambda>_ ys. \<exists>i < length inp. ys = replicate (length ys) (inp ! i)) inp)
    (mutate_insert nxt st inp r)"
proof (cases "length inp = 0 \<or> max_size st \<le> length inp")
  case False
  obtain k r1 where k: "below nxt r 16 = (k, r1)" by force
  obtain off r2 where off: "below nxt r1 (Suc (length inp)) = (off, r2)" by force
  obtain i r3 where i: "below nxt r2 (length inp) = (i, r3)" by force
  define n where "n = (if max_size st < length inp + (1 + k) then max_size st - length inp else 1 + k)"
  have n: "0 < n" "n \<le> min 16 (max_size st - length inp)"
    using insert_amount [OF k] False by (auto simp: n_def)
  have "off \<le> length inp" using rnd.below_eq_lt [OF off] by simp
  moreover have "i < length inp" using rnd.below_eq_lt [OF i] False by simp
  ultimately have "inserted_block (min 16 (max_size st - length inp))
      (\<lambda>_ ys. \<exists>i < length inp. ys = replicate (length ys) (inp ! i)) inp
      (take off inp @ replicate n (inp ! i) @ drop off inp)"
    using n by (intro inserted_blockI) auto
  moreover have "mutate_insert nxt st inp r
      = Inr (Mutated, take off inp @ replicate n (inp ! i) @ drop off inp, r3)"
    using False \<open>off \<le> length inp\<close> n(1)
    by (simp add: mutate_insert_def Let_def k off i grow_set_ok flip: n_def) (simp add: n_def)
  ultimately show ?thesis by simp
qed (auto simp: mutate_insert_def)

lemma rand_insert_effect:
  "result_is inp (inserted_block (min 16 (max_size st - length inp))
      (\<lambda>_ ys. \<exists>x. ys = replicate (length ys) x) inp)
    (mutate_rand_insert nxt st inp r)"
proof (cases "max_size st \<le> length inp")
  case False
  obtain k r1 where k: "below nxt r 16 = (k, r1)" by force
  obtain off r2 where off: "below nxt r1 (Suc (length inp)) = (off, r2)" by force
  obtain x r3 where x: "nxt r2 = (x, r3)" by force
  define n where "n = (if max_size st < length inp + (1 + k) then max_size st - length inp else 1 + k)"
  have n: "0 < n" "n \<le> min 16 (max_size st - length inp)"
    using insert_amount [OF k] False by (auto simp: n_def)
  have "off \<le> length inp" using rnd.below_eq_lt [OF off] by simp
  then have "inserted_block (min 16 (max_size st - length inp))
      (\<lambda>_ ys. \<exists>x. ys = replicate (length ys) x) inp
      (take off inp @ replicate n (ucast x) @ drop off inp)"
    using n by (intro inserted_blockI) auto
  moreover have "mutate_rand_insert nxt st inp r
      = Inr (Mutated, take off inp @ replicate n (ucast x) @ drop off inp, r3)"
    using False \<open>off \<le> length inp\<close> n(1)
    by (simp add: mutate_rand_insert_def Let_def k off x grow_set_ok flip: n_def) (simp add: n_def)
  ultimately show ?thesis by simp
qed (auto simp: mutate_rand_insert_def)

lemma set_effect:
  "result_is inp (overwritten_block
      (\<lambda>ys. length ys \<le> 16 \<and> (\<exists>i < length inp. ys = replicate (length ys) (inp ! i))) inp)
    (mutate_set nxt st inp r)"
proof (cases "length inp = 0")
  case False
  obtain s e r1 where rg: "rand_range nxt r (length inp) (min (length inp) 16) = ((s, e), r1)"
    by (metis surj_pair)
  have b: "s < e \<and> e \<le> length inp \<and> e - s \<le> min (length inp) 16"
    by (rule rand_range_bounds [OF rg]) (use False in auto)
  have "overwritten_block
      (\<lambda>ys. length ys \<le> 16 \<and> (\<exists>i < length inp. ys = replicate (length ys) (inp ! i))) inp
      (overwrite inp s (replicate (e - s) (inp ! i)))" if "i < length inp" for i
    using b that by (intro overwritten_blockI) auto
  with b False show ?thesis
    by (auto simp: mutate_set_def Let_def rg buffer_set_ok intro!: result_is_choose)
qed (simp add: mutate_set_def)

lemma rand_set_effect:
  "result_is inp (overwritten_block
      (\<lambda>ys. length ys \<le> 16 \<and> (\<exists>x. ys = replicate (length ys) x)) inp)
    (mutate_rand_set nxt st inp r)"
proof (cases "length inp = 0")
  case False
  obtain s e r1 where rg: "rand_range nxt r (length inp) (min (length inp) 16) = ((s, e), r1)"
    by (metis surj_pair)
  obtain x r2 where x: "nxt r1 = (x, r2)" by force
  have b: "s < e \<and> e \<le> length inp \<and> e - s \<le> min (length inp) 16"
    by (rule rand_range_bounds [OF rg]) (use False in auto)
  have "overwritten_block
      (\<lambda>ys. length ys \<le> 16 \<and> (\<exists>x. ys = replicate (length ys) x)) inp
      (overwrite inp s (replicate (e - s) (ucast x)))"
    using b by (intro overwritten_blockI) auto
  with b False show ?thesis
    by (simp add: mutate_rand_set_def Let_def rg x buffer_set_ok)
qed (simp add: mutate_rand_set_def)

lemma copy_effect:
  "result_is inp (overwritten_block (block_of inp) inp) (mutate_copy nxt st inp r)"
proof (cases "length inp \<le> 1")
  case False
  obtain t r1 where t: "below nxt r (length inp) = (t, r1)" by force
  have tl: "t < length inp" by (rule rnd.below_eq_lt [OF t]) (use False in auto)
  obtain s e r2 where rg: "rand_range nxt r1 (length inp) (length inp - t) = ((s, e), r2)"
    by (metis surj_pair)
  have b: "s < e \<and> e \<le> length inp \<and> e - s \<le> length inp - t"
    by (rule rand_range_bounds [OF rg]) (use tl in auto)
  have "buffer_self_copy inp s t (e - s) = Inr (overwrite inp t (take (e - s) (drop s inp)))"
    by (rule buffer_self_copy_ok) (use b tl in auto)
  moreover have "overwritten_block (block_of inp) inp (overwrite inp t (take (e - s) (drop s inp)))"
    using b tl by (intro overwritten_blockI block_of_take) auto
  ultimately show ?thesis
    using False by (simp add: mutate_copy_def Let_def t rg)
qed (simp add: mutate_copy_def)

lemma insert_copy_effect:
  "result_is inp (inserted_block (min 16 (max_size st - length inp)) (\<lambda>_. block_of inp) inp)
    (mutate_insert_copy nxt st inp (tmp_buf, r))"
proof (cases "length inp \<le> 1 \<or> max_size st \<le> length inp")
  case False
  obtain t r1 where t: "below nxt r (length inp) = (t, r1)" by force
  have tl: "t < length inp" by (rule rnd.below_eq_lt [OF t]) (use False in auto)
  let ?m = "min 16 (min (length inp - t) (max_size st - length inp))"
  obtain s e r2 where rg: "rand_range nxt r1 (length inp) ?m = ((s, e), r2)"
    by (metis surj_pair)
  have b: "s < e \<and> e \<le> length inp \<and> e - s \<le> ?m"
    by (rule rand_range_bounds [OF rg]) (use False tl in auto)
  then obtain n where e: "e = s + n" and n: "0 < n" by (metis less_imp_add_positive)
  let ?data = "vec_resize inp (length inp + n) 0"
  have copied: "buffer_copy (vec_resize tmp_buf n 0) ?data s 0 n
      = Inr (overwrite (vec_resize tmp_buf n 0) 0 (take n (drop s ?data)))"
    by (rule buffer_copy_ok) (use b e n in auto)
  have "take n (drop s ?data) = take n (drop s inp)"
    by (rule take_drop_vec_resize) (use b e in linarith)
  with copied have tmp: "buffer_copy (vec_resize tmp_buf n 0) ?data s 0 n
      = Inr (overwrite (vec_resize tmp_buf n 0) 0 (take n (drop s inp)))" by simp
  moreover have "overwrite (vec_resize tmp_buf n 0) 0 (take n (drop s inp)) = take n (drop s inp)"
    by (rule overwrite_all, subst length_take_drop) (use b e n in auto)
  ultimately have tmp: "buffer_copy (vec_resize tmp_buf n 0) ?data s 0 n
      = Inr (take n (drop s inp))" by simp
  have res: "mutate_insert_copy nxt st inp (tmp_buf, r)
      = Inr (Mutated, take t inp @ take n (drop s inp) @ drop t inp, take n (drop s inp), r2)"
    using False b tl n rg grow_write_ok [of t inp n 0 "take n (drop s inp)"]
    by (simp add: mutate_insert_copy_def Let_def t tmp e length_take_drop del: length_take)
  have "inserted_block (min 16 (max_size st - length inp)) (\<lambda>_. block_of inp) inp
      (take t inp @ take n (drop s inp) @ drop t inp)"
    using b tl n e by (intro inserted_blockI block_of_take) auto
  with res show ?thesis by simp
qed (auto simp: mutate_insert_copy_def)

section \<open>The effect of a swap\<close>

text \<open>
  Both branches move the later of the two ranges through the buffer: one is the other with the
  roles of the ranges exchanged.
\<close>

lemma swap_second_behind_eq:
  "swap_second_behind tmp_buf inp f s = swap_second_before tmp_buf inp s f"
  by (cases f; cases s) (simp only: swap_second_behind_def swap_second_before_def split Let_def)

text \<open>
  What ends up where the later range was. When the earlier range is the longer one, the middle is
  moved to the left, over the end of the earlier range, before that range is copied.
\<close>

definition moved_range :: "bytes \<Rightarrow> bytes \<Rightarrow> bytes \<Rightarrow> bytes" where
  "moved_range early mid late =
     (if length early \<le> length late then early
      else take (length late) early @
        take (length early - length late) (mid @ drop (length late + length mid) (early @ mid)))"

lemma length_moved_range [simp]: "length (moved_range early mid late) = length early"
  by (auto simp: moved_range_def min_def)

lemma moved_range_no_mid [simp]: "moved_range early [] late = early"
  by (simp add: moved_range_def)

lemma moved_range_short [simp]: "length early \<le> length late \<Longrightarrow> moved_range early mid late = early"
  by (simp add: moved_range_def)

lemma self_copy_parts:
  assumes "data \<noteq> []" "data = as @ src @ bs" "data = cs @ old @ ds"
    "length src = n" "length old = n" "length as = from" "length cs = to"
  shows "buffer_self_copy data from to n = Inr (cs @ src @ ds)"
proof -
  have "length data = from + n + length bs" "length data = to + n + length ds"
    using assms(4-) arg_cong [OF assms(2), of length] arg_cong [OF assms(3), of length] by simp_all
  then have "buffer_self_copy data from to n = Inr (overwrite data to (take n (drop from data)))"
    using assms(1) by (intro buffer_self_copy_ok) simp_all
  moreover have "take n (drop from data) = src"
    using assms(4,6) by (simp add: assms(2))
  moreover have "overwrite data to src = cs @ src @ ds"
    using assms(4,5,7) by (simp add: assms(3) overwrite_def)
  ultimately show ?thesis by simp
qed

lemma swap_parts:
  fixes p early mid late t :: bytes
  assumes "early \<noteq> []" "late \<noteq> []"
    and s: "s_start = length p" "s_end = s_start + length early"
    and f: "f_start = s_end + length mid" "f_end = f_start + length late"
  shows "swap_second_before tmp_buf (p @ early @ mid @ late @ t) (f_start, f_end) (s_start, s_end)
    = Inr (late, p @ late @ mid @ moved_range early mid late @ t)"
proof -
  let ?inp = "p @ early @ mid @ late @ t"
  have "buffer_copy (vec_resize tmp_buf (length late) 0) ?inp f_start 0 (length late)
      = Inr (overwrite (vec_resize tmp_buf (length late) 0) 0
          (take (length late) (drop f_start ?inp)))"
    by (rule buffer_copy_ok) (use assms in \<open>auto simp: s f\<close>)
  then have tmp: "buffer_copy (vec_resize tmp_buf (length late) 0) ?inp f_start 0 (length late)
      = Inr late"
    by (simp add: s f overwrite_def)
  have put: "buffer_copy (p @ x @ y) late 0 s_start (length late) = Inr (p @ late @ y)"
    if "length x = length late" for x y :: bytes
    using that assms(2) by (subst buffer_copy_ok) (auto simp: s overwrite_def)
  show ?thesis
  proof (cases "length early \<le> length late")
    case True
    define d where "d = length late - length early"
    define x where "x = take d (mid @ late)"
    define old where "old = take (length mid) (drop d (mid @ late))"
    have len: "length x = d" "length old = length mid" using True by (simp_all add: x_def old_def d_def)
    have "drop (length mid) (drop d (mid @ late)) = drop (length mid + d) (mid @ late)"
      by (rule drop_drop)
    also have "\<dots> = drop d late" by simp
    finally have ml: "mid @ late = x @ old @ drop d late"
      unfolding x_def old_def by (metis append_take_drop_id)
    have one: "buffer_self_copy ?inp s_end (s_end + d) (length mid)
        = Inr ((p @ early @ x) @ mid @ (drop d late @ t))"
    proof (rule self_copy_parts [where as = "p @ early" and bs = "late @ t" and old = old])
      show "?inp = (p @ early @ x) @ old @ drop d late @ t"
        using ml by (metis append_assoc)
    qed (use assms len in \<open>auto simp: s\<close>)
    have two: "buffer_self_copy ((p @ early @ x) @ mid @ (drop d late @ t))
        s_start (f_start + d) (length early)
      = Inr ((p @ early @ x @ mid) @ early @ t)"
      by (rule self_copy_parts [where as = p and bs = "x @ mid @ drop d late @ t"
            and old = "drop d late"])
        (use assms True len in \<open>auto simp: s f d_def\<close>)
    have "length (early @ x) = length late"
      using True len by (simp add: d_def)
    from put [OF this, of "mid @ early @ t"] show ?thesis
      using True tmp one two
      by (simp add: swap_second_before_def Let_def s f flip: d_def)
  next
    case False
    define d where "d = length early - length late"
    define x where "x = drop (length late + length mid) (early @ mid)"
    define y where "y = take d (mid @ x)"
    have len: "length x = d" using False by (simp add: x_def d_def)
    define old where "old = take (length mid) (drop (length late) (early @ mid))"
    have lo: "length old = length mid" using False by (simp add: old_def)
    have "drop (length mid) (drop (length late) (early @ mid)) = x"
      unfolding x_def drop_drop by (simp only: add.commute)
    then have "early @ mid = take (length late) (early @ mid) @ old @ x"
      unfolding old_def by (metis append_take_drop_id)
    moreover have "take (length late) (early @ mid) = take (length late) early"
      using False by simp
    ultimately have em: "early @ mid = take (length late) early @ old @ x" by simp
    have one: "buffer_self_copy ?inp s_end (s_end - d) (length mid)
        = Inr ((p @ take (length late) early) @ mid @ (x @ late @ t))"
    proof (rule self_copy_parts [where as = "p @ early" and bs = "late @ t" and old = old])
      show "?inp = (p @ take (length late) early) @ old @ x @ late @ t"
        using em by (metis append_assoc)
    qed (use assms len lo False in \<open>auto simp: s d_def\<close>)
    have mx: "mid @ x = y @ drop d (mid @ x)" by (simp only: y_def append_take_drop_id)
    have two: "buffer_self_copy ((p @ take (length late) early) @ mid @ (x @ late @ t))
        s_start (f_start - d) (length early)
      = Inr ((p @ take (length late) early @ mid) @ (take (length late) early @ y) @ t)"
    proof (rule self_copy_parts [where as = p and bs = "drop d (mid @ x) @ late @ t"
            and old = "x @ late"])
      show "(p @ take (length late) early) @ mid @ (x @ late @ t)
          = p @ (take (length late) early @ y) @ drop d (mid @ x) @ late @ t"
        using mx by (metis append_assoc)
    qed (use assms False len in \<open>auto simp: s f d_def y_def\<close>)
    have "length (take (length late) early) = length late" using False by simp
    moreover have "moved_range early mid late = take (length late) early @ y"
      unfolding moved_range_def y_def x_def d_def using False by (simp only: if_False)
    ultimately show ?thesis
      using False tmp one two put [of "take (length late) early" "mid @ (take (length late) early @ y) @ t"]
      by (simp add: swap_second_before_def Let_def s f flip: d_def)
  qed
qed

lemma swap_ranges_split:
  assumes "ls < le" "le \<le> hs" "hs < he" "he \<le> length inp"
  obtains p early mid late t where "inp = p @ early @ mid @ late @ t"
    "length p = ls" "length early = le - ls" "length mid = hs - le" "length late = he - hs"
    "swap_second_before tmp_buf inp (hs, he) (ls, le)
      = Inr (late, p @ late @ mid @ moved_range early mid late @ t)"
proof -
  obtain p early mid late t where parts: "inp = p @ early @ mid @ late @ t"
    "length p = ls" "length early = le - ls" "length mid = hs - le" "length late = he - hs"
    by (rule split_at4 [OF less_imp_le [OF assms(1)] assms(2) less_imp_le [OF assms(3)] assms(4)])
  moreover have "swap_second_before tmp_buf inp (hs, he) (ls, le)
      = Inr (late, p @ late @ mid @ moved_range early mid late @ t)"
    unfolding parts(1) by (rule swap_parts) (use parts assms in auto)
  ultimately show ?thesis by (rule that)
qed

definition swapped_blocks :: "bytes \<Rightarrow> bytes \<Rightarrow> bool" where
  "swapped_blocks inp out \<longleftrightarrow> (\<exists>p early mid late t. inp = p @ early @ mid @ late @ t \<and>
     early \<noteq> [] \<and> late \<noteq> [] \<and> out = p @ late @ mid @ moved_range early mid late @ t)"

lemma length_swapped: "swapped_blocks inp out \<Longrightarrow> length out = length inp"
  by (auto simp: swapped_blocks_def)

lemma swap_result:
  assumes "ls < le" "le \<le> hs" "hs < he" "he \<le> length inp"
  obtains tmp out where "swap_second_before tmp_buf inp (hs, he) (ls, le) = Inr (tmp, out)"
    "swapped_blocks inp out"
proof (rule swap_ranges_split [OF assms, where tmp_buf = tmp_buf])
  fix p early mid late t
  assume inp: "inp = p @ early @ mid @ late @ t"
    and len: "length early = le - ls" "length late = he - hs"
    and res: "swap_second_before tmp_buf inp (hs, he) (ls, le)
      = Inr (late, p @ late @ mid @ moved_range early mid late @ t)"
  have "early \<noteq> []" "late \<noteq> []" using len assms by auto
  then have "swapped_blocks inp (p @ late @ mid @ moved_range early mid late @ t)"
    unfolding swapped_blocks_def using inp by blast
  with res show thesis by (rule that)
qed

lemma swap_effect: "result_is inp (swapped_blocks inp) (mutate_swap nxt st inp (tmp_buf, r))"
proof (cases "length inp \<le> 1")
  case False
  then have ne: "0 < length inp" by linarith
  obtain fs fe r1 where f: "rand_range nxt r (length inp) (length inp) = ((fs, fe), r1)"
    by (metis surj_pair)
  have fb: "fs < fe \<and> fe \<le> length inp \<and> fe - fs \<le> length inp"
    by (rule rand_range_bounds [OF f ne ne])
  obtain x r2 where x: "nxt r1 = (x, r2)" by force
  consider "x AND 1 = 0 \<and> fs \<noteq> 0" | "\<not> (x AND 1 = 0 \<and> fs \<noteq> 0)" "fe \<noteq> length inp"
    | "\<not> (x AND 1 = 0 \<and> fs \<noteq> 0)" "fe = length inp" by blast
  then show ?thesis
  proof cases
    case 1
    obtain ss se r3 where s: "rand_range nxt r2 fs fs = ((ss, se), r3)" by (metis surj_pair)
    have sb: "ss < se \<and> se \<le> fs \<and> se - ss \<le> fs"
      by (rule rand_range_bounds [OF s]) (use 1 in auto)
    obtain tmp out where "swap_second_before tmp_buf inp (fs, fe) (ss, se) = Inr (tmp, out)"
      "swapped_blocks inp out"
      by (rule swap_result [of ss se fs fe inp tmp_buf]) (use sb fb in auto)
    with 1 False f x s show ?thesis by (simp add: mutate_swap_def Let_def)
  next
    case 2
    obtain ss se r3 where s: "rand_range nxt r2 (length inp - fe) (length inp - fe) = ((ss, se), r3)"
      by (metis surj_pair)
    have sb: "ss < se \<and> se \<le> length inp - fe \<and> se - ss \<le> length inp - fe"
      by (rule rand_range_bounds [OF s]) (use 2 fb in auto)
    obtain tmp out where "swap_second_before tmp_buf inp (ss + fe, se + fe) (fs, fe) = Inr (tmp, out)"
      "swapped_blocks inp out"
      by (rule swap_result [of fs fe "ss + fe" "se + fe" inp tmp_buf]) (use sb fb in auto)
    with 2 False f x s show ?thesis
      by (auto simp: mutate_swap_def Let_def swap_second_behind_eq)
  next
    case 3
    with False f x show ?thesis by (auto simp: mutate_swap_def Let_def)
  qed
qed (simp add: mutate_swap_def)

section \<open>The contract\<close>

text \<open>A mutator whose effect is known and bounded meets the contract.\<close>

lemma byte_mutatorI:
  assumes "\<And>st inp r. result_is inp (P st inp) (mutate st inp r)"
    and "\<And>st inp out. P st inp out \<Longrightarrow> length out \<le> max (length inp) (max_size st)"
  shows "byte_mutator mutate"
proof
  fix L st and inp :: bytes and r
  assume "mst_ok L st" "length inp \<le> L"
  then show "outcome_ok L inp (mutate st inp r)"
    using assms(2) [of st inp] by (intro result_is_outcome [OF assms(1)]) (fastforce simp: mst_ok_def)+
qed

interpretation delete: byte_mutator "mutate_delete nxt" for nxt
  by (rule byte_mutatorI [OF delete_effect]) (auto simp: deleted_block_def)

interpretation expand: byte_mutator "mutate_expand nxt" for nxt
  by (rule byte_mutatorI [OF expand_effect]) (auto dest: length_inserted)

interpretation insert: byte_mutator "mutate_insert nxt" for nxt
  by (rule byte_mutatorI [OF insert_effect]) (auto dest: length_inserted)

interpretation rand_insert: byte_mutator "mutate_rand_insert nxt" for nxt
  by (rule byte_mutatorI [OF rand_insert_effect]) (auto dest: length_inserted)

interpretation set: byte_mutator "mutate_set nxt" for nxt
  by (rule byte_mutatorI [OF set_effect]) (auto dest: length_overwritten)

interpretation rand_set: byte_mutator "mutate_rand_set nxt" for nxt
  by (rule byte_mutatorI [OF rand_set_effect]) (auto dest: length_overwritten)

interpretation copy: byte_mutator "mutate_copy nxt" for nxt
  by (rule byte_mutatorI [OF copy_effect]) (auto dest: length_overwritten)

interpretation insert_copy: byte_mutator "mutate_insert_copy nxt" for nxt
proof (rule byte_mutatorI)
  fix st inp and r :: "bytes \<times> 'a"
  show "result_is inp (inserted_block (min 16 (max_size st - length inp)) (\<lambda>_. block_of inp) inp)
      (mutate_insert_copy nxt st inp r)"
    by (cases r) (simp add: insert_copy_effect)
qed (auto dest: length_inserted)

interpretation swap: byte_mutator "mutate_swap nxt" for nxt
proof (rule byte_mutatorI)
  fix st inp and r :: "bytes \<times> 'a"
  show "result_is inp (swapped_blocks inp) (mutate_swap nxt st inp r)"
    by (cases r) (simp add: swap_effect)
qed (auto dest: length_swapped)

section \<open>The properties\<close>

text \<open>
  Every inserting mutator keeps the bytes of the input in their order, puts one non-empty
  block between them and never exceeds the maximal size: the block is copies of a byte of the
  input, copies of a random byte, or a block of the input itself.
\<close>

theorem insertions_keep_the_input:
  "result_is inp (inserted_block (min 16 (max_size st - length inp))
      (\<lambda>_ ys. \<exists>i < length inp. ys = replicate (length ys) (inp ! i)) inp)
    (mutate_insert nxt st inp r) \<and>
   result_is inp (inserted_block (min 16 (max_size st - length inp))
      (\<lambda>_ ys. \<exists>x. ys = replicate (length ys) x) inp)
    (mutate_rand_insert nxt st inp r) \<and>
   result_is inp (inserted_block (min 16 (max_size st - length inp)) (\<lambda>_. block_of inp) inp)
    (mutate_insert_copy nxt st inp (tmp_buf, r))"
  by (intro conjI insert_effect rand_insert_effect insert_copy_effect)

text \<open>
  The mutators that rewrite a block in place: the deletion takes out one proper, non-empty
  block and the others overwrite one block inside of the input, with copies of one of its bytes,
  copies of a random byte, or a block read from the input before anything was written.
\<close>

theorem block_rewrites_stay_inside:
  "result_is inp (deleted_block inp) (mutate_delete nxt st inp r) \<and>
   result_is inp (overwritten_block
      (\<lambda>ys. length ys \<le> 16 \<and> (\<exists>i < length inp. ys = replicate (length ys) (inp ! i))) inp)
    (mutate_set nxt st inp r) \<and>
   result_is inp (overwritten_block
      (\<lambda>ys. length ys \<le> 16 \<and> (\<exists>x. ys = replicate (length ys) x)) inp)
    (mutate_rand_set nxt st inp r) \<and>
   result_is inp (overwritten_block (block_of inp) inp) (mutate_copy nxt st inp r)"
  by (intro conjI delete_effect set_effect rand_set_effect copy_effect)

text \<open>
  A swap exchanges the two ranges and keeps everything else, provided that the earlier range
  is not the longer one or nothing lies between the two.
\<close>

theorem swap_exchanges_ranges:
  fixes p early mid late t :: bytes
  assumes "early \<noteq> []" "late \<noteq> []" "length early \<le> length late \<or> mid = []"
    and "s_start = length p" "s_end = s_start + length early"
    and "f_start = s_end + length mid" "f_end = f_start + length late"
  shows "swap_second_before tmp_buf (p @ early @ mid @ late @ t) (f_start, f_end) (s_start, s_end)
      = Inr (late, p @ late @ mid @ early @ t) \<and>
    swap_second_behind tmp_buf (p @ early @ mid @ late @ t) (s_start, s_end) (f_start, f_end)
      = Inr (late, p @ late @ mid @ early @ t)"
  using swap_parts [OF assms(1,2,4,5,6,7), of tmp_buf t] assms(3)
  by (auto simp: swap_second_behind_eq)

theorem swap_exchanges_ranges_witness:
  "swap_second_before [] [1, 2, 3, 4, 5, 6] (3, 5) (1, 2) = Inr ([4, 5], [1, 4, 5, 3, 2, 6]) \<and>
   swap_second_behind [] [1, 2, 3, 4, 5, 6] (1, 2) (3, 5) = Inr ([4, 5], [1, 4, 5, 3, 2, 6])"
  using swap_exchanges_ranges [of "[2]" "[4, 5]" "[3]" 1 "[1]" 2 3 5 "[]" "[6]"] by simp

text \<open>
  When the earlier range is the longer one and something lies between, the swap is not one:
  the middle is moved over the end of the earlier range before that range is copied, so bytes of
  the input are lost and others doubled.
\<close>

theorem swap_loses_bytes:
  "swap_second_before [] [1, 2, 3, 4] (3, 4) (0, 2) = Inr ([4], [4, 3, 1, 3]) \<and>
   swap_second_behind [] [1, 2, 3, 4] (0, 2) (3, 4) = Inr ([4], [4, 3, 1, 3])"
  by (simp add: swap_second_behind_eq swap_second_before_def Let_def buffer_copy_def
      buffer_self_copy_def vec_resize_def overwrite_def numeral_2_eq_2 numeral_3_eq_3)

end
