(* ===== verification/Crossover.thy ===== *)
theory Crossover
  imports ResizeMutators
begin

text \<open>
  The mutators of \<^verbatim>\<open>libaflmm/src/mutators/mutations.rs\<close> that mix the input with
  another one of the corpus: the crossovers, on byte inputs and on inputs mapped to bytes, and the
  splice. Their lemmas say which bytes of the other input end up where, for every corpus that
  knows the identifiers the scheduler tracks.
\<close>

section \<open>Picking the other test case\<close>

definition choose_id :: "('r \<Rightarrow> u64 \<times> 'r) \<Rightarrow> 'i mstate \<Rightarrow> 'r \<Rightarrow> u64 option \<times> 'r" where
  "choose_id nxt st r =
     (case choose_index nxt r (length (sched_ids st)) of
        (None, r') \<Rightarrow> (None, r')
      | (Some i, r') \<Rightarrow> (Some (sched_ids st ! i), r'))"

section \<open>Crossover\<close>

definition crossover_insert :: "bytes \<Rightarrow> nat \<Rightarrow> nat \<Rightarrow> nat \<times> nat \<Rightarrow> bytes \<Rightarrow> error + bytes" where
  "crossover_insert inp sz target = (\<lambda>(start, stop) other.
     let len = stop - start;
         data = vec_resize inp (sz + len) 0
     in rbind (buffer_self_copy data target (target + len) (sz - target)) (\<lambda>data.
          rbind (buffer_copy data other start target len) Inr))"

definition mutate_crossover_insert ::
  "('r \<Rightarrow> u64 \<times> 'r) \<Rightarrow> bytes mstate \<Rightarrow> bytes \<Rightarrow> 'r \<Rightarrow> 'r outcome" where
  "mutate_crossover_insert nxt st inp r =
     (let size = length inp
      in if size = 0 then Inr (Skipped, inp, r)
         else let max = max_size st
         in if max \<le> size then Inr (Skipped, inp, r)
         else case choose_id nxt st r of
           (None, r1) \<Rightarrow> Inr (Skipped, inp, r1)
         | (Some tid, r1) \<Rightarrow>
             if sched_current st = Some tid then Inr (Skipped, inp, r1)
             else rbind (corpus_get st tid) (\<lambda>other_testcase.
               let other_size = length other_testcase
               in if other_size < 2 then Inr (Skipped, inp, r1)
                  else let (range, r2) = rand_range nxt r1 other_size (min other_size (max - size));
                           (target, r3) = below nxt r2 size
                       in rbind (corpus_get_all st tid) (\<lambda>other.
                          rbind (crossover_insert inp size target range other) (\<lambda>out.
                            Inr (Mutated, out, r3)))))"

definition crossover_replace :: "bytes \<Rightarrow> nat \<Rightarrow> nat \<times> nat \<Rightarrow> bytes \<Rightarrow> error + bytes" where
  "crossover_replace inp target = (\<lambda>(start, stop) other.
     buffer_copy inp other start target (stop - start))"

definition mutate_crossover_replace ::
  "('r \<Rightarrow> u64 \<times> 'r) \<Rightarrow> bytes mstate \<Rightarrow> bytes \<Rightarrow> 'r \<Rightarrow> 'r outcome" where
  "mutate_crossover_replace nxt st inp r =
     (let size = length inp
      in if size = 0 then Inr (Skipped, inp, r)
         else case choose_id nxt st r of
           (None, r1) \<Rightarrow> Inr (Skipped, inp, r1)
         | (Some tid, r1) \<Rightarrow>
             if sched_current st = Some tid then Inr (Skipped, inp, r1)
             else rbind (corpus_get_all st tid) (\<lambda>testcase.
               let other_size = length testcase
               in if other_size < 2 then Inr (Skipped, inp, r1)
                  else let (target, r2) = below nxt r1 size;
                           (range, r3) = rand_range nxt r2 other_size (min other_size (size - target))
                       in rbind (corpus_get_all st tid) (\<lambda>other.
                          rbind (crossover_replace inp target range other) (\<lambda>out.
                            Inr (Mutated, out, r3)))))"

text \<open>
  The mapped variants work on the bytes a mapper finds in the corpus inputs;
  \<open>map_to_option_bytes\<close> is part of the mapper here.
\<close>

definition mutate_mapped_crossover_insert ::
  "('i \<Rightarrow> bytes option) \<Rightarrow> ('r \<Rightarrow> u64 \<times> 'r) \<Rightarrow> 'i mstate \<Rightarrow> bytes \<Rightarrow> 'r \<Rightarrow> 'r outcome" where
  "mutate_mapped_crossover_insert input_mapper nxt st inp r =
     (let size = length inp; max = max_size st
      in if max \<le> size \<or> size = 0 then Inr (Skipped, inp, r)
         else case choose_id nxt st r of
           (None, r1) \<Rightarrow> Inr (Skipped, inp, r1)
         | (Some tid, r1) \<Rightarrow>
             if sched_current st = Some tid then Inr (Skipped, inp, r1)
             else rbind (corpus_get_all st tid) (\<lambda>other_testcase.
               let other_size = (case input_mapper other_testcase of None \<Rightarrow> 0 | Some b \<Rightarrow> length b)
               in if other_size < 2 then Inr (Skipped, inp, r1)
                  else let (range, r2) = rand_range nxt r1 other_size (min other_size (max - size));
                           (target, r3) = below nxt r2 size
                       in rbind (corpus_get_all st tid) (\<lambda>other_testcase.
                          case input_mapper other_testcase of
                            None \<Rightarrow> Inr (Skipped, inp, r3)
                          | Some mapped_other_input \<Rightarrow>
                              rbind (crossover_insert inp size target range mapped_other_input)
                                (\<lambda>out. Inr (Mutated, out, r3)))))"

definition mutate_mapped_crossover_replace ::
  "('i \<Rightarrow> bytes option) \<Rightarrow> ('r \<Rightarrow> u64 \<times> 'r) \<Rightarrow> 'i mstate \<Rightarrow> bytes \<Rightarrow> 'r \<Rightarrow> 'r outcome" where
  "mutate_mapped_crossover_replace input_mapper nxt st inp r =
     (let size = length inp
      in if size = 0 then Inr (Skipped, inp, r)
         else case choose_id nxt st r of
           (None, r1) \<Rightarrow> Inr (Skipped, inp, r1)
         | (Some tid, r1) \<Rightarrow>
             if sched_current st = Some tid then Inr (Skipped, inp, r1)
             else rbind (corpus_get_all st tid) (\<lambda>other_testcase.
               let other_size = (case input_mapper other_testcase of None \<Rightarrow> 0 | Some b \<Rightarrow> length b)
               in if other_size < 2 then Inr (Skipped, inp, r1)
                  else let (target, r2) = below nxt r1 size;
                           (range, r3) = rand_range nxt r2 other_size (min other_size (size - target))
                       in rbind (corpus_get_all st tid) (\<lambda>other_testcase.
                          case input_mapper other_testcase of
                            None \<Rightarrow> Inr (Skipped, inp, r3)
                          | Some mapped_other_input \<Rightarrow>
                              rbind (crossover_replace inp target range mapped_other_input)
                                (\<lambda>out. Inr (Mutated, out, r3)))))"

section \<open>Splice\<close>

fun locate_diffs_loop :: "nat \<Rightarrow> bytes \<Rightarrow> bytes \<Rightarrow> int \<Rightarrow> int \<Rightarrow> int \<times> int" where
  "locate_diffs_loop i (x # xs) (y # ys) first_diff last_diff =
     (if x \<noteq> y
      then locate_diffs_loop (i + 1) xs ys (if first_diff < 0 then int i else first_diff) (int i)
      else locate_diffs_loop (i + 1) xs ys first_diff last_diff)"
| "locate_diffs_loop i _ _ first_diff last_diff = (first_diff, last_diff)"

definition locate_diffs :: "bytes \<Rightarrow> bytes \<Rightarrow> int \<times> int" where
  "locate_diffs this other = locate_diffs_loop 0 this other (-1) (-1)"

definition mutate_splice :: "('r \<Rightarrow> u64 \<times> 'r) \<Rightarrow> bytes mstate \<Rightarrow> bytes \<Rightarrow> 'r \<Rightarrow> 'r outcome" where
  "mutate_splice nxt st inp r =
     (case choose_id nxt st r of
        (None, r1) \<Rightarrow> Inr (Skipped, inp, r1)
      | (Some tid, r1) \<Rightarrow>
          if sched_current st = Some tid then Inr (Skipped, inp, r1)
          else rbind (corpus_get_all st tid) (\<lambda>other.
            let (f, l) = locate_diffs inp other
            in if f \<noteq> l \<and> 0 \<le> f \<and> 2 \<le> l
               then let (split_at, r2) = between nxt r1 (nat f) (nat l)
                    in rbind (corpus_get_all st tid) (\<lambda>other.
                         if length other < split_at then Inl Panic
                         else rbind (vec_splice_from inp split_at (drop split_at other)) (\<lambda>out.
                           Inr (Mutated, out, r2)))
               else Inr (Skipped, inp, r1)))"

section \<open>The first and the last difference\<close>

text \<open>\<open>last_diff\<close>: the last position where the inputs differ, or the value before.\<close>

lemma locate_diffs_last:
  "(snd (locate_diffs_loop i xs ys f0 l0) = l0 \<and>
      (\<forall>k < min (length xs) (length ys). xs ! k = ys ! k)) \<or>
    (\<exists>b < min (length xs) (length ys). snd (locate_diffs_loop i xs ys f0 l0) = int (i + b) \<and>
      xs ! b \<noteq> ys ! b \<and> (\<forall>k < min (length xs) (length ys). b < k \<longrightarrow> xs ! k = ys ! k))"
proof (induction i xs ys f0 l0 rule: locate_diffs_loop.induct)
  case (1 i x xs y ys f0 l0)
  define f1 where "f1 = (if x \<noteq> y then if f0 < 0 then int i else f0 else f0)"
  define l1 where "l1 = (if x \<noteq> y then int i else l0)"
  have step: "snd (locate_diffs_loop i (x # xs) (y # ys) f0 l0)
      = snd (locate_diffs_loop (i + 1) xs ys f1 l1)"
    by (simp add: f1_def l1_def)
  have IH: "(snd (locate_diffs_loop (i + 1) xs ys f1 l1) = l1 \<and>
      (\<forall>k < min (length xs) (length ys). xs ! k = ys ! k)) \<or>
    (\<exists>b < min (length xs) (length ys). snd (locate_diffs_loop (i + 1) xs ys f1 l1)
        = int (i + 1 + b) \<and> xs ! b \<noteq> ys ! b \<and>
      (\<forall>k < min (length xs) (length ys). b < k \<longrightarrow> xs ! k = ys ! k))"
    using 1 by (cases "x = y") (simp_all only: f1_def l1_def not_not simp_thms if_True if_False)
  then show ?case
  proof (elim disjE exE conjE)
    assume l: "snd (locate_diffs_loop (i + 1) xs ys f1 l1) = l1"
      and eq: "\<forall>k < min (length xs) (length ys). xs ! k = ys ! k"
    show ?case
    proof (cases "x = y")
      case True
      with l step eq show ?thesis by (intro disjI1) (auto simp: l1_def less_Suc_eq_0_disj nth_Cons')
    next
      case False
      with l step eq show ?thesis
        by (intro disjI2 exI [of _ 0]) (auto simp: l1_def nth_Cons split: nat.split)
    qed
  next
    fix b
    assume b: "b < min (length xs) (length ys)" "xs ! b \<noteq> ys ! b"
      "snd (locate_diffs_loop (i + 1) xs ys f1 l1) = int (i + 1 + b)"
      "\<forall>k < min (length xs) (length ys). b < k \<longrightarrow> xs ! k = ys ! k"
    with step show ?case
      by (intro disjI2 exI [of _ "Suc b"]) (auto simp: nth_Cons split: nat.split)
  qed
qed auto

lemma locate_diffs_first_known: "0 \<le> f0 \<Longrightarrow> fst (locate_diffs_loop i xs ys f0 l0) = f0"
  by (induction i xs ys f0 l0 rule: locate_diffs_loop.induct) auto

lemma locate_diffs_first:
  "f0 < 0 \<Longrightarrow> 0 \<le> fst (locate_diffs_loop i xs ys f0 l0) \<Longrightarrow>
    \<exists>a < min (length xs) (length ys). fst (locate_diffs_loop i xs ys f0 l0) = int (i + a) \<and>
      xs ! a \<noteq> ys ! a \<and> (\<forall>k < a. xs ! k = ys ! k)"
proof (induction i xs ys f0 l0 rule: locate_diffs_loop.induct)
  case (1 i x xs y ys f0 l0)
  show ?case
  proof (cases "x = y")
    case True
    with 1 obtain a where "a < min (length xs) (length ys)"
      "fst (locate_diffs_loop (i + 1) xs ys f0 l0) = int (i + 1 + a)" "xs ! a \<noteq> ys ! a"
      "\<forall>k < a. xs ! k = ys ! k" by auto
    with True show ?thesis
      by (intro exI [of _ "Suc a"]) (auto simp: less_Suc_eq_0_disj)
  next
    case False
    with 1(3) show ?thesis by (intro exI [of _ 0]) (simp add: locate_diffs_first_known)
  qed
qed auto

lemma locate_diffs_range:
  assumes "locate_diffs xs ys = (f, l)" "0 \<le> f" "f \<noteq> l"
  shows "f < l" "l < int (length xs)" "l < int (length ys)"
    "take (nat f) xs = take (nat f) ys" "xs ! nat f \<noteq> ys ! nat f" "xs ! nat l \<noteq> ys ! nat l"
    "\<And>k. nat l < k \<Longrightarrow> k < min (length xs) (length ys) \<Longrightarrow> xs ! k = ys ! k"
proof -
  have fl: "f = fst (locate_diffs_loop 0 xs ys (-1) (-1))"
    "l = snd (locate_diffs_loop 0 xs ys (-1) (-1))"
    using assms(1) by (simp_all add: locate_diffs_def)
  obtain a where a: "a < min (length xs) (length ys)" "f = int a" "xs ! a \<noteq> ys ! a"
    "\<forall>k < a. xs ! k = ys ! k"
    using locate_diffs_first [of "-1" 0 xs ys "-1"] assms(2) fl by auto
  obtain b where b: "b < min (length xs) (length ys)" "l = int b" "xs ! b \<noteq> ys ! b"
    "\<forall>k < min (length xs) (length ys). b < k \<longrightarrow> xs ! k = ys ! k"
    using locate_diffs_last [of 0 xs ys "-1" "-1"] a fl by auto
  have "\<not> b < a" using a b by auto
  with a b assms(3) show "f < l" "l < int (length xs)" "l < int (length ys)" by auto
  show "take (nat f) xs = take (nat f) ys" using a by (auto intro: nth_equalityI)
  show "xs ! nat f \<noteq> ys ! nat f" "xs ! nat l \<noteq> ys ! nat l" using a b by simp_all
  show "nat l < k \<Longrightarrow> k < min (length xs) (length ys) \<Longrightarrow> xs ! k = ys ! k" for k
    using b by simp
qed

section \<open>The effect of the mutators\<close>

definition from_corpus :: "bytes mstate \<Rightarrow> (bytes \<Rightarrow> bytes \<Rightarrow> bool) \<Rightarrow> bytes \<Rightarrow> bool" where
  "from_corpus st P out \<longleftrightarrow> (\<exists>tid \<in> set (sched_ids st). \<exists>other. sched_current st \<noteq> Some tid \<and>
     corpus_get_all st tid = Inr other \<and> P other out)"

text \<open>All these mutators start by picking another test case of the corpus.\<close>

lemma choose_id_cases:
  obtains r1 where "choose_id nxt st r = (None, r1)"
  | tid r1 where "choose_id nxt st r = (Some tid, r1)" "tid \<in> set (sched_ids st)"
proof -
  obtain i r1 where i: "choose_index nxt r (length (sched_ids st)) = (i, r1)" by force
  show thesis
  proof (cases i)
    case None
    with i that(1) show thesis by (simp add: choose_id_def)
  next
    case (Some k)
    with i have "k < length (sched_ids st)" by (auto dest: choose_index_lt)
    with i Some that(2) show thesis by (simp add: choose_id_def)
  qed
qed

lemma crossover_insert_ok:
  assumes "s < e" "e \<le> length other" "e - s \<le> n" "t \<le> length inp"
  obtains out where "crossover_insert inp (length inp) t (s, e) other = Inr out"
    "inserted_block n (\<lambda>_. block_of other) inp out"
proof -
  from assms(1,3) obtain k where k: "e = s + k" "0 < k" "k \<le> n"
    by (metis add_diff_cancel_left' less_imp_add_positive)
  have "crossover_insert inp (length inp) t (s, e) other
      = Inr (take t inp @ take k (drop s other) @ drop t inp)"
    using assms k grow_write_ok [of t inp k s other Inr] by (simp add: crossover_insert_def Let_def)
  moreover have "inserted_block n (\<lambda>_. block_of other) inp
      (take t inp @ take k (drop s other) @ drop t inp)"
    using assms k by (intro inserted_blockI block_of_take) auto
  ultimately show thesis by (rule that)
qed

lemma crossover_replace_ok:
  assumes "s < e" "e \<le> length other" "t + (e - s) \<le> length inp"
  obtains out where "crossover_replace inp t (s, e) other = Inr out"
    "overwritten_block (block_of other) inp out"
proof -
  from assms(1) obtain k where k: "e = s + k" "0 < k"
    by (metis less_imp_add_positive)
  have "buffer_copy inp other s t k = Inr (overwrite inp t (take k (drop s other)))"
    by (rule buffer_copy_ok) (use assms k in auto)
  then have "crossover_replace inp t (s, e) other = Inr (overwrite inp t (take k (drop s other)))"
    using k by (simp add: crossover_replace_def)
  moreover have "overwritten_block (block_of other) inp (overwrite inp t (take k (drop s other)))"
    using assms k by (intro overwritten_blockI block_of_take) auto
  ultimately show thesis by (rule that)
qed

lemma from_corpusI:
  "tid \<in> set (sched_ids st) \<Longrightarrow> sched_current st \<noteq> Some tid \<Longrightarrow> corpus_get_all st tid = Inr other \<Longrightarrow>
    P other out \<Longrightarrow> from_corpus st P out"
  by (auto simp: from_corpus_def)

lemma crossover_insert_effect:
  assumes "mst_ok L st"
  shows "result_is inp (from_corpus st (\<lambda>other.
      inserted_block (max_size st - length inp) (\<lambda>_. block_of other) inp))
    (mutate_crossover_insert nxt st inp r)"
proof (cases rule: choose_id_cases [of nxt st r])
  case (2 tid r1)
  obtain other where o: "corpus_get st tid = Inr other" "corpus_get_all st tid = Inr other"
    by (rule mst_okD [OF assms 2(2)])
  consider "inp = [] \<or> max_size st \<le> length inp \<or> sched_current st = Some tid \<or> length other < 2"
    | "inp \<noteq> []" "length inp < max_size st" "sched_current st \<noteq> Some tid" "2 \<le> length other"
    by linarith
  then show ?thesis
  proof cases
    case 1
    with 2 o show ?thesis by (auto simp: mutate_crossover_insert_def Let_def)
  next
    case go: 2
    let ?m = "min (length other) (max_size st - length inp)"
    obtain s e r2 where rg: "rand_range nxt r1 (length other) ?m = ((s, e), r2)"
      by (metis surj_pair)
    have b: "s < e \<and> e \<le> length other \<and> e - s \<le> ?m"
      by (rule rand_range_bounds [OF rg]) (use go in auto)
    obtain t r3 where t: "below nxt r2 (length inp) = (t, r3)" by force
    have "t < length inp" by (rule rnd.below_eq_lt [OF t]) (use go in simp)
    with b obtain out where "crossover_insert inp (length inp) t (s, e) other = Inr out"
      "inserted_block (max_size st - length inp) (\<lambda>_. block_of other) inp out"
      by (auto intro: crossover_insert_ok [of s e other "max_size st - length inp" t inp])
    with 2 go o rg t show ?thesis
      by (auto simp: mutate_crossover_insert_def Let_def intro: from_corpusI)
  qed
qed (auto simp: mutate_crossover_insert_def Let_def)

lemma crossover_replace_effect:
  assumes "mst_ok L st"
  shows "result_is inp (from_corpus st (\<lambda>other. overwritten_block (block_of other) inp))
    (mutate_crossover_replace nxt st inp r)"
proof (cases rule: choose_id_cases [of nxt st r])
  case (2 tid r1)
  obtain other where o: "corpus_get_all st tid = Inr other"
    by (rule mst_okD [OF assms 2(2)])
  consider "inp = [] \<or> sched_current st = Some tid \<or> length other < 2"
    | "inp \<noteq> []" "sched_current st \<noteq> Some tid" "2 \<le> length other"
    by linarith
  then show ?thesis
  proof cases
    case 1
    with 2 o show ?thesis by (auto simp: mutate_crossover_replace_def Let_def)
  next
    case go: 2
    obtain t r2 where t: "below nxt r1 (length inp) = (t, r2)" by force
    have tl: "t < length inp" by (rule rnd.below_eq_lt [OF t]) (use go in simp)
    let ?m = "min (length other) (length inp - t)"
    obtain s e r3 where rg: "rand_range nxt r2 (length other) ?m = ((s, e), r3)"
      by (metis surj_pair)
    have b: "s < e \<and> e \<le> length other \<and> e - s \<le> ?m"
      by (rule rand_range_bounds [OF rg]) (use go tl in auto)
    with tl obtain out where "crossover_replace inp t (s, e) other = Inr out"
      "overwritten_block (block_of other) inp out"
      by (auto intro: crossover_replace_ok [of s e other t inp])
    with 2 go o rg t show ?thesis
      by (auto simp: mutate_crossover_replace_def Let_def intro: from_corpusI)
  qed
qed (auto simp: mutate_crossover_replace_def Let_def)

text \<open>A splice keeps the common prefix and takes the rest, up to the last difference, from the other.\<close>

definition spliced :: "bytes \<Rightarrow> bytes \<Rightarrow> bytes \<Rightarrow> bool" where
  "spliced inp other out \<longleftrightarrow> (\<exists>k. k < length inp \<and> k < length other \<and> inp \<noteq> other \<and>
     out = take k inp @ drop k other)"

lemma splice_effect:
  assumes "mst_ok L st"
  shows "result_is inp (from_corpus st (spliced inp)) (mutate_splice nxt st inp r)"
proof (cases rule: choose_id_cases [of nxt st r])
  case (2 tid r1)
  obtain other where o: "corpus_get_all st tid = Inr other"
    by (rule mst_okD [OF assms 2(2)])
  obtain f l where fl: "locate_diffs inp other = (f, l)" by force
  show ?thesis
  proof (cases "sched_current st \<noteq> Some tid \<and> f \<noteq> l \<and> 0 \<le> f \<and> 2 \<le> l")
    case True
    obtain k r2 where k: "between nxt r1 (nat f) (nat l) = (k, r2)" by force
    have range: "f < l" "l < int (length inp)" "l < int (length other)" "inp ! nat l \<noteq> other ! nat l"
      using locate_diffs_range [OF fl] True by auto
    have "nat f \<le> k \<and> k \<le> nat l" by (rule rnd.between_eq [OF k]) (use range in simp)
    with range True have kl: "k < length inp" "k < length other" by linarith+
    with range(4) have "spliced inp other (take k inp @ drop k other)"
      unfolding spliced_def by metis
    with True 2 o fl k kl show ?thesis
      by (auto simp: mutate_splice_def Let_def vec_splice_from_def intro: from_corpusI)
  next
    case False
    with 2 o fl show ?thesis by (auto simp: mutate_splice_def Let_def)
  qed
qed (auto simp: mutate_splice_def)

section \<open>The mapped variants\<close>

text \<open>On byte inputs, mapped by the identity, the variants are the plain mutators.\<close>

lemma mapped_replace_eq: "mutate_mapped_crossover_replace Some = mutate_crossover_replace"
  by (intro ext) (simp only: mutate_mapped_crossover_replace_def mutate_crossover_replace_def option.case)

lemma mapped_insert_eq:
  assumes "mst_ok L st"
  shows "mutate_mapped_crossover_insert Some nxt st inp r = mutate_crossover_insert nxt st inp r"
proof (cases rule: choose_id_cases [of nxt st r])
  case (2 tid r1)
  obtain other where "corpus_get st tid = Inr other" "corpus_get_all st tid = Inr other"
    by (rule mst_okD [OF assms 2(2)])
  with 2 show ?thesis
    by (auto simp: mutate_mapped_crossover_insert_def mutate_crossover_insert_def Let_def)
qed (auto simp: mutate_mapped_crossover_insert_def mutate_crossover_insert_def Let_def)

section \<open>The contract\<close>

lemma from_corpus_length:
  assumes "from_corpus st P out" "mst_ok L st" "\<And>other. length other \<le> L \<Longrightarrow> P other out \<Longrightarrow> Q"
  shows Q
  using assms by (auto simp: from_corpus_def elim!: mst_okD)

interpretation crossover_insert: byte_mutator "mutate_crossover_insert nxt" for nxt
proof
  fix L st and inp :: bytes and r
  assume st: "mst_ok L st" and len: "length inp \<le> L"
  have "max_size st \<le> L" using st by (simp add: mst_ok_def)
  show "outcome_ok L inp (mutate_crossover_insert nxt st inp r)"
  proof (cases "length inp \<le> max_size st")
    case True
    show ?thesis
      by (rule result_is_outcome [OF crossover_insert_effect [OF st] len])
        (use True \<open>max_size st \<le> L\<close> in \<open>auto simp: from_corpus_def dest: length_inserted\<close>)
  next
    case False
    with len show ?thesis by (auto simp: mutate_crossover_insert_def Let_def intro: outcome_intros)
  qed
qed

interpretation crossover_replace: byte_mutator "mutate_crossover_replace nxt" for nxt
proof
  fix L st and inp :: bytes and r
  assume st: "mst_ok L st" and len: "length inp \<le> L"
  show "outcome_ok L inp (mutate_crossover_replace nxt st inp r)"
    by (rule result_is_outcome [OF crossover_replace_effect [OF st] len])
      (use len in \<open>auto simp: from_corpus_def dest: length_overwritten\<close>)
qed

interpretation splice: byte_mutator "mutate_splice nxt" for nxt
proof
  fix L st and inp :: bytes and r
  assume st: "mst_ok L st" and len: "length inp \<le> L"
  show "outcome_ok L inp (mutate_splice nxt st inp r)"
    by (rule result_is_outcome [OF splice_effect [OF st] len], erule from_corpus_length [OF _ st])
      (auto simp: spliced_def)
qed

section \<open>The properties\<close>

text \<open>
  Crossover and splice mix the input with another test case of the corpus, never with the one
  being mutated: the insertion adds one block of the other input and stays within the maximal size,
  the replacement overwrites one block with one of the other input, and the splice keeps a prefix
  and continues with the rest of the other input.
\<close>

theorem crossover_takes_from_another:
  assumes "mst_ok L st"
  shows "result_is inp (from_corpus st (\<lambda>other.
      inserted_block (max_size st - length inp) (\<lambda>_. block_of other) inp))
    (mutate_crossover_insert nxt st inp r) \<and>
   result_is inp (from_corpus st (\<lambda>other. overwritten_block (block_of other) inp))
    (mutate_crossover_replace nxt st inp r) \<and>
   result_is inp (from_corpus st (spliced inp)) (mutate_splice nxt st inp r)"
  by (intro conjI crossover_insert_effect [OF assms] crossover_replace_effect [OF assms]
      splice_effect [OF assms])

text \<open>A state with two test cases, the first one being scheduled.\<close>

definition two_inputs :: "bytes mstate" where
  "two_inputs = \<lparr>max_size = 8, sched_ids = [7, 9], sched_current = Some 7,
     corpus_get = (\<lambda>tid. if tid = 7 then Inr [1, 2, 3] else if tid = 9 then Inr [1, 5, 4, 3]
       else Inl KeyNotFound),
     corpus_get_all = (\<lambda>tid. if tid = 7 then Inr [1, 2, 3] else if tid = 9 then Inr [1, 5, 4, 3]
       else Inl KeyNotFound),
     tokens_md = None, cmplog_md = None\<rparr>"

lemma two_inputs_ok: "mst_ok 8 two_inputs"
  by (simp add: two_inputs_def mst_ok_def)

theorem crossover_takes_from_another_witness:
  "result_is [1, 2, 3] (from_corpus two_inputs (\<lambda>other.
      inserted_block (max_size two_inputs - length [1 :: u8, 2, 3]) (\<lambda>_. block_of other) [1, 2, 3]))
    (mutate_crossover_insert xorshift64_next two_inputs [1, 2, 3] 5) \<and>
   result_is [1, 2, 3] (from_corpus two_inputs (\<lambda>other.
      overwritten_block (block_of other) [1, 2, 3]))
    (mutate_crossover_replace xorshift64_next two_inputs [1, 2, 3] 5) \<and>
   result_is [1, 2, 3] (from_corpus two_inputs (spliced [1, 2, 3]))
    (mutate_splice xorshift64_next two_inputs [1, 2, 3] 5)"
  by (rule crossover_takes_from_another [OF two_inputs_ok])

text \<open>
  The positions \<open>locate_diffs\<close> reports, when there are two of them: the inputs agree
  before the first and, as far as both reach, behind the last, and differ at both.
\<close>

theorem locate_diffs_exact:
  assumes "locate_diffs xs ys = (int a, int b)" "a \<noteq> b"
  shows "a < b \<and> b < length xs \<and> b < length ys \<and> take a xs = take a ys \<and>
    xs ! a \<noteq> ys ! a \<and> xs ! b \<noteq> ys ! b \<and>
    (\<forall>k. b < k \<longrightarrow> k < min (length xs) (length ys) \<longrightarrow> xs ! k = ys ! k)"
proof -
  have "(0 :: int) \<le> int a" "int a \<noteq> int b" using assms(2) by simp_all
  from locate_diffs_range [OF assms(1) this] show ?thesis by simp
qed

theorem locate_diffs_exact_witness:
  "take 1 [1 :: u8, 2, 3, 4, 5] = take 1 [1, 9, 3, 8, 5, 6] \<and>
    [1 :: u8, 2, 3, 4, 5] ! 1 \<noteq> [1, 9, 3, 8, 5, 6] ! 1 \<and>
    [1 :: u8, 2, 3, 4, 5] ! 3 \<noteq> [1, 9, 3, 8, 5, 6] ! 3 \<and>
    [1 :: u8, 2, 3, 4, 5] ! 4 = [1, 9, 3, 8, 5, 6] ! 4"
proof -
  have "locate_diffs [1, 2, 3, 4, 5] [1, 9, 3, 8, 5, 6] = (int 1, int 3)"
    by (simp add: locate_diffs_def)
  from locate_diffs_exact [OF this] show ?thesis by simp
qed

end
