(* ===== verification/Tokens.thy ===== *)
theory Tokens
  imports ResizeMutators
begin

text \<open>
  The token dictionary of \<^verbatim>\<open>libaflmm/src/mutators/token_mutations.rs\<close> with the
  decoder \<open>str_decode\<close> of \<^verbatim>\<open>mutations.rs\<close>, and the mutators
  \<open>TokenInsert\<close> and \<open>TokenReplace\<close>. A Rust string is the list of its UTF-8 bytes; the file
  a dictionary is read from is the list of its lines.

  The lemmas: the vector and the set of a dictionary agree and hold no duplicates, escaping and
  decoding a token is a round trip, so is laying out and parsing an autotoken section, and the two
  mutators write exactly a token, cut to the room there is.
\<close>

section \<open>Decoding a token\<close>

definition from_hex :: "u8 \<Rightarrow> error + u8" where
  "from_hex hex =
     (if 48 \<le> hex \<and> hex \<le> 57 then Inr (hex - 48)
      else if 65 \<le> hex \<and> hex \<le> 70 then Inr (hex - 55)
      else if 97 \<le> hex \<and> hex \<le> 102 then Inr (hex - 87)
      else Inl IllegalArgument)"

fun str_decode_loop :: "bytes \<Rightarrow> bytes \<Rightarrow> bool \<Rightarrow> nat \<Rightarrow> u8 \<Rightarrow> error + bytes" where
  "str_decode_loop [] token take_next take_next_two decoded = Inr token"
| "str_decode_loop (c # cs) token take_next take_next_two decoded =
     (if take_next_two = 1
      then rbind (from_hex c) (\<lambda>h. str_decode_loop cs token take_next 2 (push_bit 4 h))
      else if take_next_two = 2
      then rbind (from_hex c) (\<lambda>h.
             str_decode_loop cs (token @ [decoded + h]) take_next 0 (decoded + h))
      else if c \<noteq> 92 \<or> take_next
      then (if take_next \<and> (c = 120 \<or> c = 88)
            then str_decode_loop cs token False 1 decoded
            else str_decode_loop cs (token @ [c]) False take_next_two decoded)
      else str_decode_loop cs token True take_next_two decoded)"

definition str_decode :: "bytes \<Rightarrow> error + bytes" where
  "str_decode item = str_decode_loop item [] False 0 0"

section \<open>The dictionary\<close>

record tokens =
  tokens_vec :: "bytes list"
  tokens_set :: "bytes set"

definition tokens_new :: tokens where
  "tokens_new = \<lparr>tokens_vec = [], tokens_set = {}\<rparr>"

definition add_token :: "tokens \<Rightarrow> bytes \<Rightarrow> bool \<times> tokens" where
  "add_token ts token =
     (if token \<in> tokens_set ts then (False, ts)
      else (True, ts\<lparr>tokens_set := insert token (tokens_set ts),
                     tokens_vec := tokens_vec ts @ [token]\<rparr>))"

definition add_tokens :: "tokens \<Rightarrow> bytes list \<Rightarrow> tokens" where
  "add_tokens ts new = fold (\<lambda>token ts. snd (add_token ts token)) new ts"

function parse_autodict_loop :: "tokens \<Rightarrow> bytes \<Rightarrow> nat \<Rightarrow> nat \<Rightarrow> error + tokens" where
  "parse_autodict_loop ts sect sz head =
     (if sz \<le> head then (if head = sz then Inr ts else Inl Panic)
      else if length sect \<le> head then Inl Panic
      else let n = unat (sect ! head); head' = head + 1
           in if 0 < n
              then (if length sect < head' + n then Inl Panic
                    else parse_autodict_loop (snd (add_token ts (take n (drop head' sect)))) sect sz
                           (head' + n))
              else parse_autodict_loop ts sect sz head')"
  by pat_completeness auto
termination by (relation "measure (\<lambda>(_, _, sz, head). sz - head)") auto

declare parse_autodict_loop.simps [simp del]

definition parse_autodict :: "tokens \<Rightarrow> bytes \<Rightarrow> nat \<Rightarrow> error + tokens" where
  "parse_autodict ts sect sz = parse_autodict_loop ts sect sz 0"

text \<open>\<open>from_mut_ptrs\<close> over the memory of the process.\<close>

definition tokens_from_mut_ptrs :: "(u64 \<Rightarrow> u8) \<Rightarrow> u64 \<Rightarrow> u64 \<Rightarrow> error + tokens" where
  "tokens_from_mut_ptrs mem token_start token_stop =
     (if token_start = 0 \<or> token_stop = 0 then Inr tokens_new
      else if token_stop < token_start then Inl IllegalArgument
      else let section_size = unat (token_stop - token_start);
               sect = map (\<lambda>i. mem (token_start + of_nat i)) [0..<section_size]
           in parse_autodict tokens_new sect section_size)"

section \<open>Dictionary files\<close>

text \<open>
  The white space of \<open>trim_start\<close> and \<open>trim_end\<close>, in UTF-8: the ASCII white space and
  the multi-byte characters with the property \<open>White_Space\<close>. The trailing one is matched on the
  reversed bytes.
\<close>

fun strip_white :: "bytes \<Rightarrow> bytes option" where
  "strip_white [] = None"
| "strip_white (b # bs) =
     (if (9 \<le> b \<and> b \<le> 13) \<or> b = 32 then Some bs
      else case bs of
        [] \<Rightarrow> None
      | c # cs \<Rightarrow>
          if b = 0xc2 \<and> (c = 0x85 \<or> c = 0xa0) then Some cs
          else case cs of
            [] \<Rightarrow> None
          | d # ds \<Rightarrow>
              if (b = 0xe1 \<and> c = 0x9a \<and> d = 0x80) \<or>
                 (b = 0xe2 \<and> c = 0x80 \<and> (0x80 \<le> d \<and> d \<le> 0x8a \<or> d = 0xa8 \<or> d = 0xa9 \<or> d = 0xaf)) \<or>
                 (b = 0xe2 \<and> c = 0x81 \<and> d = 0x9f) \<or> (b = 0xe3 \<and> c = 0x80 \<and> d = 0x80)
              then Some ds else None)"

fun strip_white_rev :: "bytes \<Rightarrow> bytes option" where
  "strip_white_rev [] = None"
| "strip_white_rev (d # cs) =
     (if (9 \<le> d \<and> d \<le> 13) \<or> d = 32 then Some cs
      else case cs of
        [] \<Rightarrow> None
      | c # bs \<Rightarrow>
          if c = 0xc2 \<and> (d = 0x85 \<or> d = 0xa0) then Some bs
          else case bs of
            [] \<Rightarrow> None
          | b # as \<Rightarrow>
              if strip_white [b, c, d] = Some [] then Some as else None)"

lemma strip_white_shorter: "strip_white bs = Some cs \<Longrightarrow> length cs < length bs"
  by (cases bs rule: strip_white.cases) (auto split: if_splits list.splits)

lemma strip_white_rev_shorter: "strip_white_rev bs = Some cs \<Longrightarrow> length cs < length bs"
  by (cases bs rule: strip_white_rev.cases) (auto split: if_splits list.splits)

function trim_start :: "bytes \<Rightarrow> bytes" where
  "trim_start bs = (case strip_white bs of None \<Rightarrow> bs | Some cs \<Rightarrow> trim_start cs)"
  by pat_completeness auto
termination by (relation "measure length") (auto dest: strip_white_shorter)

function trim_rev :: "bytes \<Rightarrow> bytes" where
  "trim_rev bs = (case strip_white_rev bs of None \<Rightarrow> bs | Some cs \<Rightarrow> trim_rev cs)"
  by pat_completeness auto
termination by (relation "measure length") (auto dest: strip_white_rev_shorter)

declare trim_start.simps [simp del] trim_rev.simps [simp del]

definition trim_end :: "bytes \<Rightarrow> bytes" where
  "trim_end bs = rev (trim_rev (rev bs))"

text \<open>
  \<open>line.chars().nth(n)\<close> is asked only whether it is the character with a given ASCII code:
  the bytes that start a character are those that do not continue one.
\<close>

definition char_starts :: "bytes \<Rightarrow> bytes" where
  "char_starts line = filter (\<lambda>b. b AND 0xc0 \<noteq> 0x80) line"

definition nth_char_is :: "bytes \<Rightarrow> nat \<Rightarrow> u8 \<Rightarrow> bool" where
  "nth_char_is line n c \<longleftrightarrow> n < length (char_starts line) \<and> char_starts line ! n = c"

fun find_byte :: "u8 \<Rightarrow> bytes \<Rightarrow> nat option" where
  "find_byte c [] = None"
| "find_byte c (b # bs) = (if b = c then Some 0 else map_option Suc (find_byte c bs))"

text \<open>
  \<open>line.get(from..to)\<close>: \<open>None\<close> when the bounds are out of order; they stand on
  characters here, because both neighbours are quotes.
\<close>

definition str_get :: "bytes \<Rightarrow> nat \<Rightarrow> nat \<Rightarrow> bytes option" where
  "str_get line start stop =
     (if start \<le> stop \<and> stop \<le> length line then Some (take (stop - start) (drop start line)) else None)"

text \<open>One turn of the loop of \<open>add_from_file\<close>, and the loop.\<close>

definition add_line :: "tokens \<Rightarrow> bytes \<Rightarrow> error + tokens" where
  "add_line ts raw =
     (let line = trim_end (trim_start raw)
      in if line = [] \<or> nth_char_is line 0 35 then Inr ts
         else case find_byte 34 line of
           None \<Rightarrow> Inl IllegalArgument
         | Some pos_quote \<Rightarrow>
             if \<not> nth_char_is line (length line - 1) 34 then Inl IllegalArgument
             else case str_get line (pos_quote + 1) (length line - 1) of
               None \<Rightarrow> Inl IllegalArgument
             | Some item \<Rightarrow>
                 if item = [] then Inr ts
                 else case str_decode item of
                   Inl _ \<Rightarrow> Inl IllegalArgument
                 | Inr token \<Rightarrow> Inr (snd (add_token ts token)))"

fun add_from_lines :: "tokens \<Rightarrow> bytes list \<Rightarrow> error + tokens" where
  "add_from_lines ts [] = Inr ts"
| "add_from_lines ts (line # lines) = rbind (add_line ts line) (\<lambda>ts. add_from_lines ts lines)"

section \<open>The mutators\<close>

definition mutate_token_insert ::
  "('r \<Rightarrow> u64 \<times> 'r) \<Rightarrow> bytes mstate \<Rightarrow> bytes \<Rightarrow> 'r \<Rightarrow> 'r outcome" where
  "mutate_token_insert nxt st inp r =
     (let max = max_size st
      in case tokens_md st of
           None \<Rightarrow> Inr (Skipped, inp, r)
         | Some meta \<Rightarrow>
             if length meta = 0 then Inr (Skipped, inp, r)
             else let (token_idx, r1) = below nxt r (length meta);
                      size = length inp;
                      (off, r2) = below nxt r1 (size + 1);
                      token = meta ! token_idx;
                      len = length token
                  in if max < size + len \<and> \<not> size < max then Inr (Skipped, inp, r2)
                     else let len = (if max < size + len then max - size else len);
                              data = vec_resize inp (size + len) 0
                          in rbind (buffer_self_copy data off (off + len) (size - off)) (\<lambda>data.
                             rbind (buffer_copy data token 0 off len) (\<lambda>out.
                               Inr (Mutated, out, r2))))"

definition mutate_token_replace ::
  "('r \<Rightarrow> u64 \<times> 'r) \<Rightarrow> bytes mstate \<Rightarrow> bytes \<Rightarrow> 'r \<Rightarrow> 'r outcome" where
  "mutate_token_replace nxt st inp r =
     (let size = length inp
      in if size = 0 then Inr (Skipped, inp, r)
         else let (off, r1) = below nxt r size
              in case tokens_md st of
                   None \<Rightarrow> Inr (Skipped, inp, r1)
                 | Some meta \<Rightarrow>
                     if length meta = 0 then Inr (Skipped, inp, r1)
                     else let (token_idx, r2) = below nxt r1 (length meta);
                              token = meta ! token_idx;
                              len = length token;
                              len = (if size < off + len then size - off else len)
                          in rbind (buffer_copy inp token 0 off len) (\<lambda>out.
                               Inr (Mutated, out, r2)))"

section \<open>The dictionary holds no duplicates\<close>

definition tokens_ok :: "tokens \<Rightarrow> bool" where
  "tokens_ok ts \<longleftrightarrow> tokens_set ts = set (tokens_vec ts) \<and> distinct (tokens_vec ts)"

named_theorems tokens_intros \<open>the invariant of the dictionary is kept\<close>

lemma tokens_ok_new [tokens_intros]: "tokens_ok tokens_new"
  by (simp add: tokens_ok_def tokens_new_def)

lemma add_token_ok [tokens_intros]: "tokens_ok ts \<Longrightarrow> tokens_ok (snd (add_token ts token))"
  by (auto simp: tokens_ok_def add_token_def)

lemma add_token_vec:
  "tokens_ok ts \<Longrightarrow> tokens_vec (snd (add_token ts token)) =
    (if token \<in> set (tokens_vec ts) then tokens_vec ts else tokens_vec ts @ [token])"
  by (auto simp: tokens_ok_def add_token_def)

lemma add_tokens_ok [tokens_intros]: "tokens_ok ts \<Longrightarrow> tokens_ok (add_tokens ts new)"
  unfolding add_tokens_def by (induction new arbitrary: ts) (simp_all add: add_token_ok)

lemma add_tokens_vec:
  assumes "tokens_ok ts" "distinct new" "set new \<inter> set (tokens_vec ts) = {}"
  shows "tokens_vec (add_tokens ts new) = tokens_vec ts @ new"
  using assms unfolding add_tokens_def
  by (induction new arbitrary: ts) (auto simp: add_token_ok add_token_vec)

lemma parse_autodict_loop_ok:
  "tokens_ok ts \<Longrightarrow> parse_autodict_loop ts sect sz head = Inr ts' \<Longrightarrow> tokens_ok ts'"
proof (induction ts sect sz head rule: parse_autodict_loop.induct)
  case (1 ts sect sz head)
  show ?case
    using 1(3-4) 1(1)[OF _ _ refl refl] 1(2)[OF _ _ refl refl]
    by (subst (asm) parse_autodict_loop.simps) (auto simp: Let_def add_token_ok split: if_splits)
qed

lemma add_line_ok: "tokens_ok ts \<Longrightarrow> add_line ts raw = Inr ts' \<Longrightarrow> tokens_ok ts'"
  by (auto simp: add_line_def Let_def add_token_ok split: if_splits option.splits sum.splits)

lemma add_from_lines_ok: "tokens_ok ts \<Longrightarrow> add_from_lines ts lines = Inr ts' \<Longrightarrow> tokens_ok ts'"
  by (induction ts lines rule: add_from_lines.induct) (auto simp: rbind_Inr_iff dest: add_line_ok)

section \<open>Autotoken sections\<close>

definition autodict_section :: "bytes list \<Rightarrow> bytes" where
  "autodict_section ts = concat (map (\<lambda>t. of_nat (length t) # t) ts)"

lemma parse_autodict_loop_section:
  assumes "\<forall>t \<in> set new. 0 < length t \<and> length t < 256" "sect = pre @ autodict_section new"
  shows "parse_autodict_loop ts sect (length sect) (length pre) = Inr (add_tokens ts new)"
  using assms
proof (induction new arbitrary: ts pre)
  case Nil
  then show ?case
    by (subst parse_autodict_loop.simps) (simp add: autodict_section_def add_tokens_def)
next
  case (Cons t new)
  let ?k = "length t"
  have sect: "sect = (pre @ of_nat ?k # t) @ autodict_section new"
    using Cons.prems by (simp add: autodict_section_def)
  have k: "unat (of_nat ?k :: u8) = ?k" "0 < ?k"
    using Cons.prems(1) by (simp_all add: unsigned_of_nat take_bit_nat_eq_self)
  have hd: "sect ! length pre = of_nat ?k" by (simp add: sect nth_append)
  have "parse_autodict_loop (snd (add_token ts t)) sect (length sect) (length (pre @ of_nat ?k # t))
      = Inr (add_tokens (snd (add_token ts t)) new)"
    by (rule Cons.IH) (use Cons.prems(1) sect in auto)
  moreover have "take ?k (drop (length pre + 1) sect) = t" by (simp add: sect)
  moreover have "length pre + 1 + ?k \<le> length sect" "length pre < length sect"
    by (simp_all add: sect)
  ultimately show ?case
    using k hd by (subst parse_autodict_loop.simps) (simp add: Let_def add_tokens_def)
qed

section \<open>Escaping\<close>

definition hex_digit :: "u8 \<Rightarrow> u8" where
  "hex_digit n = (if n < 10 then n + 48 else n + 55)"

definition escape_byte :: "u8 \<Rightarrow> bytes" where
  "escape_byte b =
     (if b = 92 \<or> b = 34 then [92, b]
      else if 32 \<le> b \<and> b \<le> 126 then [b]
      else [92, 120, hex_digit (drop_bit 4 b), hex_digit (b AND 15)])"

definition escape :: "bytes \<Rightarrow> bytes" where
  "escape bs = concat (map escape_byte bs)"

lemma from_hex_digits:
  "list_all (\<lambda>k. from_hex (hex_digit (of_nat k)) = Inr (of_nat k)) [0..<16]"
  by code_simp

lemma from_hex_digit:
  assumes "n < 16" shows "from_hex (hex_digit n) = Inr n"
proof -
  have "unat n \<in> set [0..<16]" using assms by (simp add: word_less_nat_alt)
  then have "from_hex (hex_digit (of_nat (unat n))) = Inr (of_nat (unat n))"
    using from_hex_digits unfolding list_all_iff by blast
  then show ?thesis by simp
qed

lemma nibbles: "push_bit 4 (drop_bit 4 b) + (b AND 15) = (b :: u8)"
proof -
  have m: "(15 :: u8) = mask 4" by (simp add: mask_eq_exp_minus_1)
  have "push_bit 4 (drop_bit 4 b) AND (b AND 15) = 0"
    unfolding m by (rule bit_word_eqI) (auto simp: bit_simps)
  then have "push_bit 4 (drop_bit 4 b) + (b AND 15) = push_bit 4 (drop_bit 4 b) OR (b AND 15)"
    by (rule disjunctive_add_eq_or)
  also have "\<dots> = b" unfolding m by (rule bit_word_eqI) (auto simp: bit_simps)
  finally show ?thesis .
qed

lemma nibble_less: "drop_bit 4 (b :: u8) < 16" "b AND 15 < 16"
proof -
  have "unat b < 256" using unsigned_less [of b] by simp
  then have "unat b div 16 < 16" by simp
  then show "drop_bit 4 b < 16"
    by (simp only: word_less_nat_alt unat_drop_bit_eq) (simp add: drop_bit_eq_div)
  have "b AND 15 \<le> 15" by (rule word_and_le1)
  also have "(15 :: u8) < 16" by simp
  finally show "b AND 15 < 16" .
qed

lemma str_decode_escape_byte:
  "str_decode_loop (escape_byte b @ cs) token False 0 d
    = str_decode_loop cs (token @ [b]) False 0
        (if b = 92 \<or> b = 34 \<or> 32 \<le> b \<and> b \<le> 126 then d else b)"
  using from_hex_digit [OF nibble_less(1), of b] from_hex_digit [OF nibble_less(2), of b]
  by (auto simp: escape_byte_def nibbles)

lemma str_decode_loop_escape:
  "str_decode_loop (escape bs) token False 0 d = Inr (token @ bs)"
proof (induction bs arbitrary: token d)
  case (Cons b bs)
  then show ?case by (simp add: escape_def str_decode_escape_byte)
qed (simp add: escape_def)

section \<open>The effect of the mutators\<close>

definition token_part :: "bytes list \<Rightarrow> bytes \<Rightarrow> bool" where
  "token_part meta ys \<longleftrightarrow> (\<exists>token \<in> set meta. ys = take (length ys) token)"

lemma token_partI: "k < length meta \<Longrightarrow> token_part meta (take n (meta ! k))"
  unfolding token_part_def by (intro bexI [of _ "meta ! k"]) (simp_all add: min_def)

lemma token_insert_effect:
  assumes "mst_ok L st"
  shows "result_is inp (\<lambda>out. \<exists>meta. tokens_md st = Some meta \<and>
      inserted_block (max_size st - length inp) (\<lambda>_. token_part meta) inp out)
    (mutate_token_insert nxt st inp r)"
proof (cases "tokens_md st")
  case (Some meta)
  have ne: "[] \<notin> set meta" using assms Some by (simp add: mst_ok_def)
  obtain k r1 where k: "below nxt r (length meta) = (k, r1)" by force
  obtain off r2 where off: "below nxt r1 (Suc (length inp)) = (off, r2)" by force
  show ?thesis
  proof (cases "meta = [] \<or> max_size st < length inp + length (meta ! k) \<and> \<not> length inp < max_size st")
    case False
    then have km: "k < length meta" by (intro rnd.below_eq_lt [OF k]) auto
    then have "meta ! k \<noteq> []" using ne by (metis nth_mem)
    define n where "n = (if max_size st < length inp + length (meta ! k)
      then max_size st - length inp else length (meta ! k))"
    have n: "0 < n" "n \<le> length (meta ! k)" "n \<le> max_size st - length inp"
      using False \<open>meta ! k \<noteq> []\<close> by (auto simp: n_def)
    have "off \<le> length inp" using rnd.below_eq_lt [OF off] by simp
    then have "inserted_block (max_size st - length inp) (\<lambda>_. token_part meta) inp
        (take off inp @ take n (meta ! k) @ drop off inp)"
      using n km by (intro inserted_blockI token_partI) auto
    moreover have "mutate_token_insert nxt st inp r
        = Inr (Mutated, take off inp @ take n (meta ! k) @ drop off inp, r2)"
      using False Some \<open>off \<le> length inp\<close> n grow_write_ok [of off inp n 0 "meta ! k"]
      by (simp add: mutate_token_insert_def Let_def k off flip: n_def)
    ultimately show ?thesis using Some by simp
  qed (use Some k off in \<open>auto simp: mutate_token_insert_def Let_def\<close>)
qed (simp add: mutate_token_insert_def)

lemma token_replace_effect:
  assumes "mst_ok L st"
  shows "result_is inp (\<lambda>out. \<exists>meta. tokens_md st = Some meta \<and>
      overwritten_block (token_part meta) inp out)
    (mutate_token_replace nxt st inp r)"
proof (cases "inp = [] \<or> tokens_md st = None \<or> tokens_md st = Some []")
  case False
  then obtain meta where Some: "tokens_md st = Some meta" "meta \<noteq> []" by auto
  have ne: "[] \<notin> set meta" using assms Some by (simp add: mst_ok_def)
  obtain off r1 where off: "below nxt r (length inp) = (off, r1)" by force
  obtain k r2 where k: "below nxt r1 (length meta) = (k, r2)" by force
  have km: "k < length meta" by (rule rnd.below_eq_lt [OF k]) (use Some in simp)
  then have tne: "meta ! k \<noteq> []" using ne by (metis nth_mem)
  have ol: "off < length inp" by (rule rnd.below_eq_lt [OF off]) (use False in simp)
  define n where "n = (if length inp < off + length (meta ! k)
    then length inp - off else length (meta ! k))"
  have n: "0 < n" "n \<le> length (meta ! k)" "off + n \<le> length inp"
    using ol tne by (auto simp: n_def)
  have "buffer_copy inp (meta ! k) 0 off n = Inr (overwrite inp off (take n (drop 0 (meta ! k))))"
    by (rule buffer_copy_ok) (use n tne False in auto)
  then have "mutate_token_replace nxt st inp r = Inr (Mutated, overwrite inp off (take n (meta ! k)), r2)"
    using False Some by (simp add: mutate_token_replace_def Let_def off k flip: n_def)
  moreover have "overwritten_block (token_part meta) inp (overwrite inp off (take n (meta ! k)))"
    using n km by (intro overwritten_blockI token_partI) auto
  ultimately show ?thesis using Some by simp
qed (auto simp: mutate_token_replace_def Let_def split_def)

interpretation token_insert: byte_mutator "mutate_token_insert nxt" for nxt
proof
  fix L st and inp :: bytes and r
  assume st: "mst_ok L st" and len: "length inp \<le> L"
  then show "outcome_ok L inp (mutate_token_insert nxt st inp r)"
    by (intro result_is_outcome [OF token_insert_effect [OF st] len])
      (fastforce dest: length_inserted simp: mst_ok_def)
qed

interpretation token_replace: byte_mutator "mutate_token_replace nxt" for nxt
proof
  fix L st and inp :: bytes and r
  assume st: "mst_ok L st" and len: "length inp \<le> L"
  then show "outcome_ok L inp (mutate_token_replace nxt st inp r)"
    by (intro result_is_outcome [OF token_replace_effect [OF st] len])
      (auto dest: length_overwritten)
qed

section \<open>The properties\<close>

text \<open>
  C40. Decoding undoes escaping: every byte string is the decoding of its dictionary notation, with
  quotes and backslashes escaped and unprintable bytes written as two hexadecimal digits.
\<close>

theorem str_decode_escape: "str_decode (escape bs) = Inr bs"
  using str_decode_loop_escape [of bs "[]" 0] by (simp add: str_decode_def)

text \<open>
  Parsing an autotoken section gives back the tokens laid out in it, in their order, when they
  are distinct and of a length that fits its length byte.
\<close>

theorem parse_autodict_section:
  assumes "\<forall>t \<in> set new. 0 < length t \<and> length t < 256" "distinct new"
  shows "\<exists>ts. parse_autodict tokens_new (autodict_section new) (length (autodict_section new)) = Inr ts \<and>
    tokens_vec ts = new \<and> tokens_ok ts"
proof -
  have "parse_autodict tokens_new (autodict_section new) (length (autodict_section new))
      = Inr (add_tokens tokens_new new)"
    unfolding parse_autodict_def
    using parse_autodict_loop_section [OF assms(1), of "autodict_section new" "[]"] by simp
  moreover have "tokens_vec (add_tokens tokens_new new) = new"
    using add_tokens_vec [OF tokens_ok_new assms(2)] by (simp add: tokens_new_def)
  ultimately show ?thesis by (simp add: tokens_intros)
qed

theorem parse_autodict_section_witness:
  "\<exists>ts. parse_autodict tokens_new (autodict_section [[104, 105], [33]])
      (length (autodict_section [[104, 105], [33]])) = Inr ts \<and>
    tokens_vec ts = [[104, 105], [33]] \<and> tokens_ok ts"
  by (rule parse_autodict_section) simp_all

text \<open>
  However a dictionary is built, from sections, from files or token by token, its vector holds
  no token twice and agrees with the set used to find duplicates.
\<close>

theorem dictionary_has_no_duplicates:
  assumes "tokens_ok ts"
  shows "tokens_ok (snd (add_token ts token)) \<and> tokens_ok (add_tokens ts new) \<and>
    (\<forall>ts'. parse_autodict ts sect n = Inr ts' \<longrightarrow> tokens_ok ts') \<and>
    (\<forall>ts'. add_from_lines ts lines = Inr ts' \<longrightarrow> tokens_ok ts')"
  using assms parse_autodict_loop_ok [OF assms] add_from_lines_ok [OF assms]
  by (auto simp: parse_autodict_def intro: tokens_intros)

theorem dictionary_has_no_duplicates_witness:
  "tokens_ok (snd (add_token tokens_new [1])) \<and> tokens_ok (add_tokens tokens_new [[1], [2], [1]])"
  using dictionary_has_no_duplicates [OF tokens_ok_new] by blast

text \<open>
  The token mutators write a token of the dictionary, or as much of its beginning as there is
  room for: the insertion between the bytes of the input and within the maximal size, the replacement
  over bytes of the input without changing its length.
\<close>

theorem token_mutators_write_tokens:
  assumes "mst_ok L st"
  shows "result_is inp (\<lambda>out. \<exists>meta. tokens_md st = Some meta \<and>
      inserted_block (max_size st - length inp) (\<lambda>_. token_part meta) inp out)
    (mutate_token_insert nxt st inp r) \<and>
   result_is inp (\<lambda>out. \<exists>meta. tokens_md st = Some meta \<and>
      overwritten_block (token_part meta) inp out)
    (mutate_token_replace nxt st inp r)"
  by (intro conjI token_insert_effect [OF assms] token_replace_effect [OF assms])

definition with_dictionary :: "bytes list \<Rightarrow> bytes mstate" where
  "with_dictionary ts = \<lparr>max_size = 8, sched_ids = [], sched_current = None,
     corpus_get = (\<lambda>_. Inl KeyNotFound), corpus_get_all = (\<lambda>_. Inl KeyNotFound),
     tokens_md = Some ts, cmplog_md = None\<rparr>"

theorem token_mutators_write_tokens_witness:
  "result_is [1, 2, 3] (\<lambda>out. \<exists>meta. tokens_md (with_dictionary [[7, 8]]) = Some meta \<and>
      inserted_block (max_size (with_dictionary [[7, 8]]) - length [1 :: u8, 2, 3])
        (\<lambda>_. token_part meta) [1, 2, 3] out)
    (mutate_token_insert xorshift64_next (with_dictionary [[7, 8]]) [1, 2, 3] 5) \<and>
   result_is [1, 2, 3] (\<lambda>out. \<exists>meta. tokens_md (with_dictionary [[7, 8]]) = Some meta \<and>
      overwritten_block (token_part meta) [1, 2, 3] out)
    (mutate_token_replace xorshift64_next (with_dictionary [[7, 8]]) [1, 2, 3] 5)"
  by (rule token_mutators_write_tokens [where L = 8]) (simp add: with_dictionary_def mst_ok_def)

text \<open>
  A dictionary line whose only escape is cut short is accepted and adds the empty token, and
  with a dictionary that holds just the empty token \<open>TokenReplace\<close> fails the assertion of
  \<open>buffer_copy\<close> on every non-empty input.
\<close>

theorem empty_token_panics:
  "add_line tokens_new [34, 92, 120, 52, 34] = Inr \<lparr>tokens_vec = [[]], tokens_set = {[]}\<rparr> \<and>
   mutate_token_replace nxt (with_dictionary [[]]) (b # bs) r = Inl Panic"
proof
  have "trim_end (trim_start [34, 92, 120, 52, 34]) = [34, 92, 120, 52, 34]"
    by (simp add: trim_end_def trim_start.simps [of "[34, 92, 120, 52, 34]"]
        trim_rev.simps [of "[34, 52, 120, 92, 34]"])
  then show "add_line tokens_new [34, 92, 120, 52, 34] = Inr \<lparr>tokens_vec = [[]], tokens_set = {[]}\<rparr>"
    by (simp add: add_line_def nth_char_is_def char_starts_def str_get_def str_decode_def
        from_hex_def add_token_def tokens_new_def)
  obtain off r1 where "below nxt r (length (b # bs)) = (off, r1)" by force
  moreover obtain k r2 where "below nxt r1 1 = (k, r2)" by force
  moreover have "k = 0" using rnd.below_eq_lt [OF calculation(2)] by simp
  moreover have "off < length (b # bs)" using rnd.below_eq_lt [OF calculation(1)] by simp
  ultimately show "mutate_token_replace nxt (with_dictionary [[]]) (b # bs) r = Inl Panic"
    by (simp add: mutate_token_replace_def with_dictionary_def buffer_copy_def)
qed

end
