(* ===== verification/InputToState.thy ===== *)
theory InputToState
  imports ResizeMutators
begin

text \<open>
  The input-to-state mutators of \<^verbatim>\<open>libaflmm/src/mutators/token_mutations.rs\<close>:
  \<open>I2SRandReplace\<close> and \<open>I2SRandReplaceBinonly\<close> look in the input for one operand of a
  logged comparison and write the other one there. The blocks for 16, 32 and 64 bits are the same
  code at three widths, so the search is one definition over the width in bytes, and integers are
  the numbers their bytes spell.
\<close>

section \<open>Searching for an operand\<close>

fun i2s_u8_loop :: "u8 \<Rightarrow> u8 \<Rightarrow> bool \<Rightarrow> bytes \<Rightarrow> nat list \<Rightarrow> mres \<times> bytes" where
  "i2s_u8_loop v1 v2 v1_is_const bs [] = (Skipped, bs)"
| "i2s_u8_loop v1 v2 v1_is_const bs (i # is) =
     (if \<not> v1_is_const \<and> bs ! i = v1 then (Mutated, bs[i := v2])
      else if bs ! i = v2 then (Mutated, bs[i := v1])
      else i2s_u8_loop v1 v2 v1_is_const bs is)"

text \<open>What is written over a window that reads as \<open>val\<close>, if anything is.\<close>

definition i2s_hit :: "nat \<Rightarrow> nat \<Rightarrow> nat \<Rightarrow> bool \<Rightarrow> nat \<Rightarrow> nat option" where
  "i2s_hit sz v1 v2 v1_is_const val =
     (if \<not> v1_is_const \<and> val = v1 then Some v2
      else if \<not> v1_is_const \<and> swap_bytes sz val = v1 then Some (swap_bytes sz v2)
      else if val = v2 then Some v1
      else if swap_bytes sz val = v2 then Some (swap_bytes sz v1)
      else None)"

fun i2s_word_loop :: "nat \<Rightarrow> nat \<Rightarrow> nat \<Rightarrow> bool \<Rightarrow> bytes \<Rightarrow> nat list \<Rightarrow> mres \<times> bytes" where
  "i2s_word_loop sz v1 v2 v1_is_const bs [] = (Skipped, bs)"
| "i2s_word_loop sz v1 v2 v1_is_const bs (i # is) =
     (case i2s_hit sz v1 v2 v1_is_const (le_val (take sz (drop i bs))) of
        Some new_val \<Rightarrow> (Mutated, overwrite bs i (le_bytes sz new_val))
      | None \<Rightarrow> i2s_word_loop sz v1 v2 v1_is_const bs is)"

definition i2s_u16 :: "u16 \<Rightarrow> u16 \<Rightarrow> bool \<Rightarrow> nat \<Rightarrow> bytes \<Rightarrow> mres \<times> bytes" where
  "i2s_u16 v1 v2 v1_is_const off bs =
     (if 2 \<le> length bs
      then i2s_word_loop 2 (unat v1) (unat v2) v1_is_const bs [off..<Suc (length bs - 2)]
      else (Skipped, bs))"

definition i2s_u32 :: "u32 \<Rightarrow> u32 \<Rightarrow> bool \<Rightarrow> nat \<Rightarrow> bytes \<Rightarrow> mres \<times> bytes" where
  "i2s_u32 v1 v2 v1_is_const off bs =
     (if 4 \<le> length bs
      then i2s_word_loop 4 (unat v1) (unat v2) v1_is_const bs [off..<Suc (length bs - 4)]
      else (Skipped, bs))"

definition i2s_u64 :: "u64 \<Rightarrow> u64 \<Rightarrow> bool \<Rightarrow> nat \<Rightarrow> bytes \<Rightarrow> mres \<times> bytes" where
  "i2s_u64 v1 v2 v1_is_const off bs =
     (if 8 \<le> length bs
      then i2s_word_loop 8 (unat v1) (unat v2) v1_is_const bs [off..<Suc (length bs - 8)]
      else (Skipped, bs))"

text \<open>
  Byte strings: the longest prefix of one operand that stands at \<open>i\<close> is overwritten with as
  many bytes of the other one. The inner loop counts the size down to 0.
\<close>

fun i2s_prefix_loop :: "bytes \<Rightarrow> bytes \<Rightarrow> bytes \<Rightarrow> nat \<Rightarrow> nat \<Rightarrow> (error + bytes) option" where
  "i2s_prefix_loop operand other bs i 0 = None"
| "i2s_prefix_loop operand other bs i (Suc n) =
     (if take (Suc n) operand = take (Suc n) (drop i bs)
      then Some (buffer_copy bs other 0 i (Suc n))
      else i2s_prefix_loop operand other bs i n)"

fun i2s_bytes_loop :: "bytes \<Rightarrow> bytes \<Rightarrow> bytes \<Rightarrow> nat list \<Rightarrow> error + mres \<times> bytes" where
  "i2s_bytes_loop v1 v2 bs [] = Inr (Skipped, bs)"
| "i2s_bytes_loop v1 v2 bs (i # is) =
     (case i2s_prefix_loop v1 v2 bs i (min (length v1) (length bs - i)) of
        Some out \<Rightarrow> rbind out (\<lambda>out. Inr (Mutated, out))
      | None \<Rightarrow>
          (case i2s_prefix_loop v2 v1 bs i (min (length v2) (length bs - i)) of
             Some out \<Rightarrow> rbind out (\<lambda>out. Inr (Mutated, out))
           | None \<Rightarrow> i2s_bytes_loop v1 v2 bs is))"

section \<open>The mutators\<close>

definition with_rng :: "'r \<Rightarrow> error + mres \<times> bytes \<Rightarrow> 'r outcome" where
  "with_rng r res = rbind res (\<lambda>(m, out). Inr (m, out, r))"

definition mutate_i2s :: "('r \<Rightarrow> u64 \<times> 'r) \<Rightarrow> bytes mstate \<Rightarrow> bytes \<Rightarrow> 'r \<Rightarrow> 'r outcome" where
  "mutate_i2s nxt st inp r =
     (if inp = [] then Inr (Skipped, inp, r)
      else case cmplog_md st of
        None \<Rightarrow> Inr (Skipped, inp, r)
      | Some cmps \<Rightarrow>
          if length cmps = 0 then Inr (Skipped, inp, r)
          else let (idx, r1) = below nxt r (length cmps);
                   (off, r2) = below nxt r1 (length inp)
               in with_rng r2
                    (case cmps ! idx of
                       CmpU8 v1 v2 c \<Rightarrow> Inr (i2s_u8_loop v1 v2 c inp [off..<length inp])
                     | CmpU16 v1 v2 c \<Rightarrow> Inr (i2s_u16 v1 v2 c off inp)
                     | CmpU32 v1 v2 c \<Rightarrow> Inr (i2s_u32 v1 v2 c off inp)
                     | CmpU64 v1 v2 c \<Rightarrow> Inr (i2s_u64 v1 v2 c off inp)
                     | CmpBytes v1 v2 \<Rightarrow> i2s_bytes_loop v1 v2 inp [off..<length inp]))"

text \<open>
  The variant for targets without source: a power of two of bytes, up to the width of the operands,
  is compared, the rest of the value being zero, and no operand is treated as constant.
\<close>

definition random_slice_size :: "nat \<Rightarrow> ('r \<Rightarrow> u64 \<times> 'r) \<Rightarrow> 'r \<Rightarrow> nat \<times> 'r" where
  "random_slice_size sz_log nxt r = (let (res, r') = below nxt r (sz_log + 1) in (2 ^ res, r'))"

fun bin_u8_loop :: "u8 \<Rightarrow> u8 \<Rightarrow> bytes \<Rightarrow> nat list \<Rightarrow> mres \<times> bytes" where
  "bin_u8_loop v1 v2 bs [] = (Skipped, bs)"
| "bin_u8_loop v1 v2 bs (i # is) =
     (if bs ! i = v1 then (Mutated, bs[i := v2])
      else if bs ! i = v2 then (Mutated, bs[i := v1])
      else bin_u8_loop v1 v2 bs is)"

definition bin_hit :: "nat \<Rightarrow> nat \<Rightarrow> nat \<Rightarrow> nat \<Rightarrow> nat option" where
  "bin_hit sz v1 v2 val =
     (if val = v1 then Some v2
      else if val = v2 then Some v1
      else if swap_bytes sz val = v1 then Some (swap_bytes sz v2)
      else if swap_bytes sz val = v2 then Some (swap_bytes sz v1)
      else None)"

fun bin_word_loop :: "nat \<Rightarrow> nat \<Rightarrow> nat \<Rightarrow> nat \<Rightarrow> bytes \<Rightarrow> nat list \<Rightarrow> mres \<times> bytes" where
  "bin_word_loop sz cmp_size v1 v2 bs [] = (Skipped, bs)"
| "bin_word_loop sz cmp_size v1 v2 bs (i # is) =
     (case bin_hit sz v1 v2 (le_val (take cmp_size (drop i bs) @ replicate (sz - cmp_size) 0)) of
        Some new_val \<Rightarrow> (Mutated, overwrite bs i (take cmp_size (le_bytes sz new_val)))
      | None \<Rightarrow> bin_word_loop sz cmp_size v1 v2 bs is)"

definition bin_u16 ::
  "('r \<Rightarrow> u64 \<times> 'r) \<Rightarrow> u16 \<Rightarrow> u16 \<Rightarrow> nat \<Rightarrow> bytes \<Rightarrow> 'r \<Rightarrow> (mres \<times> bytes) \<times> 'r" where
  "bin_u16 nxt v1 v2 off bs r =
     (let (cmp_size, r') = random_slice_size 1 nxt r
      in (if cmp_size \<le> length bs
          then bin_word_loop 2 cmp_size (unat v1) (unat v2) bs [off..<length bs - (cmp_size - 1)]
          else (Skipped, bs), r'))"

definition bin_u32 ::
  "('r \<Rightarrow> u64 \<times> 'r) \<Rightarrow> u32 \<Rightarrow> u32 \<Rightarrow> nat \<Rightarrow> bytes \<Rightarrow> 'r \<Rightarrow> (mres \<times> bytes) \<times> 'r" where
  "bin_u32 nxt v1 v2 off bs r =
     (let (cmp_size, r') = random_slice_size 2 nxt r
      in (if cmp_size \<le> length bs
          then bin_word_loop 4 cmp_size (unat v1) (unat v2) bs [off..<length bs - (cmp_size - 1)]
          else (Skipped, bs), r'))"

definition bin_u64 ::
  "('r \<Rightarrow> u64 \<times> 'r) \<Rightarrow> u64 \<Rightarrow> u64 \<Rightarrow> nat \<Rightarrow> bytes \<Rightarrow> 'r \<Rightarrow> (mres \<times> bytes) \<times> 'r" where
  "bin_u64 nxt v1 v2 off bs r =
     (let (cmp_size, r') = random_slice_size 3 nxt r
      in (if cmp_size \<le> length bs
          then bin_word_loop 8 cmp_size (unat v1) (unat v2) bs [off..<length bs - (cmp_size - 1)]
          else (Skipped, bs), r'))"

definition mutate_i2s_binonly ::
  "('r \<Rightarrow> u64 \<times> 'r) \<Rightarrow> bytes mstate \<Rightarrow> bytes \<Rightarrow> 'r \<Rightarrow> 'r outcome" where
  "mutate_i2s_binonly nxt st inp r =
     (if inp = [] then Inr (Skipped, inp, r)
      else case cmplog_md st of
        None \<Rightarrow> Inr (Skipped, inp, r)
      | Some cmps \<Rightarrow>
          if length cmps = 0 then Inr (Skipped, inp, r)
          else let (idx, r1) = below nxt r (length cmps);
                   (off, r2) = below nxt r1 (length inp)
               in case cmps ! idx of
                    CmpU8 v1 v2 _ \<Rightarrow> with_rng r2 (Inr (bin_u8_loop v1 v2 inp [off..<length inp]))
                  | CmpU16 v1 v2 _ \<Rightarrow>
                      (let (res, r3) = bin_u16 nxt v1 v2 off inp r2 in with_rng r3 (Inr res))
                  | CmpU32 v1 v2 _ \<Rightarrow>
                      (let (res, r3) = bin_u32 nxt v1 v2 off inp r2 in with_rng r3 (Inr res))
                  | CmpU64 v1 v2 _ \<Rightarrow>
                      (let (res, r3) = bin_u64 nxt v1 v2 off inp r2 in with_rng r3 (Inr res))
                  | CmpBytes v1 v2 \<Rightarrow>
                      with_rng r2 (i2s_bytes_loop v1 v2 inp [off..<length inp]))"

lemma with_rng_Inr: "with_rng r (Inr (m, out)) = Inr (m, out, r)"
  by (simp add: with_rng_def)

section \<open>What is replaced\<close>

text \<open>
  \<open>replaced V W inp out\<close>: at some place \<open>V\<close> stood in the input, and now \<open>W\<close> stands there.
\<close>

definition replaced :: "(bytes \<times> bytes) set \<Rightarrow> nat \<Rightarrow> bytes \<Rightarrow> bytes \<Rightarrow> bool" where
  "replaced pairs off inp out \<longleftrightarrow> (\<exists>i a b. off \<le> i \<and> (a, b) \<in> pairs \<and> length a = length b \<and>
     i + length a \<le> length inp \<and> take (length a) (drop i inp) = a \<and> out = overwrite inp i b)"

lemma replacedI:
  assumes "(a, b) \<in> pairs" "length a = length b" "off \<le> i" "i + length a \<le> length inp"
    "take (length a) (drop i inp) = a"
  shows "replaced pairs off inp (overwrite inp i b)"
  unfolding replaced_def by (intro exI [of _ i] exI [of _ a] exI [of _ b]) (use assms in simp)

lemma length_replaced: "replaced pairs off inp out \<Longrightarrow> length out = length inp"
  by (auto simp: replaced_def)

lemma overwrite_single: "i < length xs \<Longrightarrow> overwrite xs i [x] = xs[i := x]"
  by (simp add: overwrite_def upd_conv_take_nth_drop)

lemma i2s_u8_replaced:
  assumes "i2s_u8_loop v1 v2 c inp is = (m, out)" "\<forall>i \<in> set is. off \<le> i \<and> i < length inp"
  shows "m = Skipped \<and> out = inp \<or>
    m = Mutated \<and> replaced ({([v2], [v1])} \<union> (if c then {} else {([v1], [v2])})) off inp out"
  using assms
proof (induction v1 v2 c inp "is" rule: i2s_u8_loop.induct)
  case (2 v1 v2 c bs i "is")
  have tk: "take (length [bs ! i]) (drop i bs) = [bs ! i]"
    using 2(3) by (simp add: take_Suc_conv_app_nth Cons_nth_drop_Suc [symmetric])
  show ?case
    using 2 replacedI [OF _ _ _ _ tk, of "[v2]" _ off] replacedI [OF _ _ _ _ tk, of "[v1]" _ off]
    by (auto simp: overwrite_single split: if_splits)
qed simp

text \<open>The pairs of windows for two integers: as stored, and with the bytes swapped.\<close>

definition word_pairs :: "nat \<Rightarrow> nat \<Rightarrow> nat \<Rightarrow> bool \<Rightarrow> (bytes \<times> bytes) set" where
  "word_pairs sz v1 v2 c =
     {(le_bytes sz v2, le_bytes sz v1), (be_bytes sz v2, be_bytes sz v1)} \<union>
     (if c then {} else {(le_bytes sz v1, le_bytes sz v2), (be_bytes sz v1, be_bytes sz v2)})"

lemma le_bytes_swap: "le_bytes sz (swap_bytes sz v) = be_bytes sz v"
proof -
  have "length (rev (le_bytes sz v)) = sz" by simp
  then show ?thesis unfolding swap_bytes_def be_bytes_def by (metis le_bytes_le_val)
qed

lemma i2s_hit_pairs:
  assumes "i2s_hit sz v1 v2 c (le_val w) = Some nv" "length w = sz"
  shows "(w, le_bytes sz nv) \<in> word_pairs sz v1 v2 c"
proof -
  have w: "w = le_bytes sz (le_val w)" using assms(2) by (metis le_bytes_le_val)
  have sw: "be_bytes sz (swap_bytes sz (le_val w)) = w"
    by (metis be_bytes_def le_bytes_swap rev_rev_ident w)
  from assms(1) consider "\<not> c" "le_val w = v1" "nv = v2"
    | "\<not> c" "swap_bytes sz (le_val w) = v1" "nv = swap_bytes sz v2"
    | "le_val w = v2" "nv = v1" | "swap_bytes sz (le_val w) = v2" "nv = swap_bytes sz v1"
    by (auto simp: i2s_hit_def split: if_splits)
  then show ?thesis
    by cases (use w sw in \<open>auto simp: word_pairs_def le_bytes_swap\<close>)
qed

lemma i2s_word_replaced:
  assumes "i2s_word_loop sz v1 v2 c inp is = (m, out)" "\<forall>i \<in> set is. off \<le> i \<and> i + sz \<le> length inp"
  shows "m = Skipped \<and> out = inp \<or> m = Mutated \<and> replaced (word_pairs sz v1 v2 c) off inp out"
  using assms
proof (induction sz v1 v2 c inp "is" rule: i2s_word_loop.induct)
  case (2 sz v1 v2 c bs i "is")
  let ?w = "take sz (drop i bs)"
  have w: "length ?w = sz" using 2(3) by (simp add: length_take_drop del: length_take)
  show ?case
  proof (cases "i2s_hit sz v1 v2 c (le_val ?w)")
    case (Some nv)
    have "replaced (word_pairs sz v1 v2 c) off bs (overwrite bs i (le_bytes sz nv))"
      by (rule replacedI [OF i2s_hit_pairs [OF Some w]]) (use 2(3) w in auto)
    with Some 2(2) show ?thesis by simp
  qed (use 2 in simp)
qed simp

text \<open>The pairs of windows for two byte strings: prefixes of the same length.\<close>

definition prefix_pairs :: "bytes \<Rightarrow> bytes \<Rightarrow> (bytes \<times> bytes) set" where
  "prefix_pairs v1 v2 = {(take n v1, take n v2) |n. True} \<union> {(take n v2, take n v1) |n. True}"

lemma i2s_prefix_replaced:
  assumes "i2s_prefix_loop x y inp i n = Some res" "length x = length y" "n \<le> length x"
    "i + n \<le> length inp" "off \<le> i"
  shows "\<exists>k out. res = Inr out \<and> 0 < k \<and> k \<le> n \<and> out = overwrite inp i (take k y) \<and>
    take k x = take k (drop i inp)"
  using assms
proof (induction x y inp i n rule: i2s_prefix_loop.induct)
  case (2 x y bs i n)
  show ?case
  proof (cases "take (Suc n) x = take (Suc n) (drop i bs)")
    case True
    have "buffer_copy bs y 0 i (Suc n) = Inr (overwrite bs i (take (Suc n) (drop 0 y)))"
      by (rule buffer_copy_ok) (use 2(3-5) in auto)
    with True 2(2) show ?thesis by (intro exI [of _ "Suc n"]) auto
  next
    case False
    with 2(2-6) 2(1) [OF False] show ?thesis by fastforce
  qed
qed simp

lemma i2s_prefix_pairs:
  assumes "i2s_prefix_loop x y inp i (min (length x) (length inp - i)) = Some res"
    "length x = length y" "i < length inp" "off \<le> i" "prefix_pairs x y = P"
  shows "\<exists>out. res = Inr out \<and> replaced P off inp out"
proof -
  obtain k out where k: "res = Inr out" "0 < k" "k \<le> min (length x) (length inp - i)"
    "out = overwrite inp i (take k y)" "take k x = take k (drop i inp)"
  proof -
    have "min (length x) (length inp - i) \<le> length x"
      "i + min (length x) (length inp - i) \<le> length inp" using assms(3) by auto
    from i2s_prefix_replaced [OF assms(1,2) this assms(4)] that show thesis by blast
  qed
  have le: "k \<le> length x" "k \<le> length y" "i + k \<le> length inp" using k(3) assms(2,3) by auto
  have "(take k x, take k y) \<in> P" using assms(5) by (auto simp: prefix_pairs_def)
  then have "replaced P off inp (overwrite inp i (take k y))"
    by (rule replacedI) (use le k(5) assms(4) in simp_all)
  with k show ?thesis by auto
qed

lemma prefix_pairs_commute: "prefix_pairs v2 v1 = prefix_pairs v1 v2"
  by (auto simp: prefix_pairs_def)

lemma i2s_bytes_replaced:
  assumes "length v1 = length v2" "\<forall>i \<in> set is. off \<le> i \<and> i < length inp"
  shows "\<exists>m out. i2s_bytes_loop v1 v2 inp is = Inr (m, out) \<and>
    (m = Skipped \<and> out = inp \<or> m = Mutated \<and> replaced (prefix_pairs v1 v2) off inp out)"
  using assms
proof (induction v1 v2 inp "is" rule: i2s_bytes_loop.induct)
  case (2 v1 v2 bs i "is")
  let ?l1 = "i2s_prefix_loop v1 v2 bs i (min (length v1) (length bs - i))"
  let ?l2 = "i2s_prefix_loop v2 v1 bs i (min (length v2) (length bs - i))"
  have i: "i < length bs" "off \<le> i" using 2(3) by auto
  show ?case
  proof (cases ?l1)
    case (Some res)
    with i2s_prefix_pairs [OF Some 2(2) i refl] show ?thesis by auto
  next
    case l1: None
    show ?thesis
    proof (cases ?l2)
      case (Some res)
      with l1 i2s_prefix_pairs [OF Some 2(2) [symmetric] i prefix_pairs_commute] show ?thesis by auto
    next
      case None
      with l1 2 show ?thesis by simp
    qed
  qed
qed simp

text \<open>The windows a logged comparison lets the mutator replace.\<close>

fun cmp_pairs :: "cmp_values \<Rightarrow> (bytes \<times> bytes) set" where
  "cmp_pairs (CmpU8 v1 v2 c) = {([v2], [v1])} \<union> (if c then {} else {([v1], [v2])})"
| "cmp_pairs (CmpU16 v1 v2 c) = word_pairs 2 (unat v1) (unat v2) c"
| "cmp_pairs (CmpU32 v1 v2 c) = word_pairs 4 (unat v1) (unat v2) c"
| "cmp_pairs (CmpU64 v1 v2 c) = word_pairs 8 (unat v1) (unat v2) c"
| "cmp_pairs (CmpBytes v1 v2) = prefix_pairs v1 v2"

lemma i2s_word_result:
  assumes "sz \<le> length inp"
  shows "result_is inp (replaced (word_pairs sz v1 v2 c) off inp)
    (with_rng r (Inr (i2s_word_loop sz v1 v2 c inp [off..<Suc (length inp - sz)])))"
proof -
  obtain m out where res: "i2s_word_loop sz v1 v2 c inp [off..<Suc (length inp - sz)] = (m, out)"
    by force
  have "\<forall>i \<in> set [off..<Suc (length inp - sz)]. off \<le> i \<and> i + sz \<le> length inp"
    using assms by auto
  from i2s_word_replaced [OF res this] res show ?thesis by (auto simp: with_rng_def simp del: upt_Suc)
qed

lemma i2s_effect:
  assumes "mst_ok L st"
  shows "result_is inp (\<lambda>out. \<exists>cmps v off. cmplog_md st = Some cmps \<and> v \<in> set cmps \<and>
      replaced (cmp_pairs v) off inp out)
    (mutate_i2s nxt st inp r)"
proof (cases "inp = [] \<or> cmplog_md st = None \<or> cmplog_md st = Some []")
  case False
  then obtain cmps where cmps: "cmplog_md st = Some cmps" "cmps \<noteq> []" by auto
  obtain idx r1 where idx: "below nxt r (length cmps) = (idx, r1)" by force
  obtain off r2 where off: "below nxt r1 (length inp) = (off, r2)" by force
  have "idx < length cmps" by (rule rnd.below_eq_lt [OF idx]) (use cmps in simp)
  then have mem: "cmps ! idx \<in> set cmps" by simp
  have "off < length inp" by (rule rnd.below_eq_lt [OF off]) (use False in simp)
  let ?body = "case cmps ! idx of
       CmpU8 v1 v2 c \<Rightarrow> Inr (i2s_u8_loop v1 v2 c inp [off..<length inp])
     | CmpU16 v1 v2 c \<Rightarrow> Inr (i2s_u16 v1 v2 c off inp)
     | CmpU32 v1 v2 c \<Rightarrow> Inr (i2s_u32 v1 v2 c off inp)
     | CmpU64 v1 v2 c \<Rightarrow> Inr (i2s_u64 v1 v2 c off inp)
     | CmpBytes v1 v2 \<Rightarrow> i2s_bytes_loop v1 v2 inp [off..<length inp]"
  have range: "\<forall>i \<in> set [off..<length inp]. off \<le> i \<and> i < length inp" by auto
  have "result_is inp (replaced (cmp_pairs (cmps ! idx)) off inp) (with_rng r2 ?body)"
  proof (cases "cmps ! idx")
    case (CmpU8 v1 v2 c)
    obtain m out where res: "i2s_u8_loop v1 v2 c inp [off..<length inp] = (m, out)" by force
    from i2s_u8_replaced [OF res range] res CmpU8 show ?thesis by (auto simp: with_rng_def)
  next
    case (CmpU16 v1 v2 c)
    then show ?thesis by (auto simp: i2s_u16_def i2s_word_result with_rng_Inr simp del: upt_Suc)
  next
    case (CmpU32 v1 v2 c)
    then show ?thesis by (auto simp: i2s_u32_def i2s_word_result with_rng_Inr simp del: upt_Suc)
  next
    case (CmpU64 v1 v2 c)
    then show ?thesis by (auto simp: i2s_u64_def i2s_word_result with_rng_Inr simp del: upt_Suc)
  next
    case (CmpBytes v1 v2)
    then have "length v1 = length v2" using assms cmps mem by (auto simp: mst_ok_def)
    from i2s_bytes_replaced [OF this range] CmpBytes show ?thesis by (auto simp: with_rng_def)
  qed
  then have "result_is inp (\<lambda>out. \<exists>cmps v off. cmplog_md st = Some cmps \<and> v \<in> set cmps \<and>
      replaced (cmp_pairs v) off inp out) (with_rng r2 ?body)"
    using cmps mem by (auto simp: result_is_def split: sum.splits mres.splits prod.splits)
  moreover have "mutate_i2s nxt st inp r = with_rng r2 ?body"
    using False cmps by (simp add: mutate_i2s_def idx off)
  ultimately show ?thesis by simp
qed (auto simp: mutate_i2s_def)

interpretation i2s: byte_mutator "mutate_i2s nxt" for nxt
proof
  fix L st and inp :: bytes and r
  assume st: "mst_ok L st" and len: "length inp \<le> L"
  then show "outcome_ok L inp (mutate_i2s nxt st inp r)"
    by (intro result_is_outcome [OF i2s_effect [OF st] len]) (auto dest: length_replaced)
qed

section \<open>The variant for targets without source\<close>

lemma bin_u8_length:
  "bin_u8_loop v1 v2 inp is = (m, out) \<Longrightarrow> (m = Skipped \<longrightarrow> out = inp) \<and> length out = length inp"
  by (induction v1 v2 inp "is" rule: bin_u8_loop.induct) (auto split: if_splits)

lemma bin_word_length:
  "bin_word_loop sz n v1 v2 inp is = (m, out) \<Longrightarrow> \<forall>i \<in> set is. i + n \<le> length inp \<Longrightarrow> n \<le> sz \<Longrightarrow>
    (m = Skipped \<longrightarrow> out = inp) \<and> length out = length inp"
  by (induction sz n v1 v2 inp "is" rule: bin_word_loop.induct) (auto split: option.splits)

lemma random_slice_size_bounds:
  assumes "random_slice_size k nxt r = (n, r')"
  shows "0 < n \<and> n \<le> 2 ^ k"
proof -
  obtain res where res: "below nxt r (k + 1) = (res, r')" and n: "n = 2 ^ res"
    using assms by (auto simp: random_slice_size_def split: prod.splits)
  from rnd.below_eq_lt [OF res] have "res \<le> k" by simp
  with n show ?thesis by (simp add: power_increasing)
qed

lemma bin_word_result:
  assumes "random_slice_size k nxt r = (n, r')" "2 ^ k \<le> sz" "n \<le> length inp"
  shows "outcome_ok (length inp) inp
    (with_rng r' (Inr (bin_word_loop sz n v1 v2 inp [off..<length inp - (n - 1)])))"
proof -
  obtain m out where res: "bin_word_loop sz n v1 v2 inp [off..<length inp - (n - 1)] = (m, out)"
    by force
  have "0 < n \<and> n \<le> 2 ^ k" by (rule random_slice_size_bounds [OF assms(1)])
  then have "\<forall>i \<in> set [off..<length inp - (n - 1)]. i + n \<le> length inp" "n \<le> sz"
    using assms(2,3) by auto
  from bin_word_length [OF res this] res show ?thesis
    by (simp add: with_rng_Inr outcome_ok_def)
qed

lemma outcome_ok_mono: "outcome_ok L inp res \<Longrightarrow> L \<le> L' \<Longrightarrow> outcome_ok L' inp res"
  by (auto simp: outcome_ok_def split: sum.splits prod.splits)

lemma bin_contract:
  assumes "mst_ok L st"
  shows "outcome_ok (length inp) inp (mutate_i2s_binonly nxt st inp r)"
proof (cases "inp = [] \<or> cmplog_md st = None \<or> cmplog_md st = Some []")
  case False
  then obtain cmps where cmps: "cmplog_md st = Some cmps" "cmps \<noteq> []" by auto
  obtain idx r1 where idx: "below nxt r (length cmps) = (idx, r1)" by force
  obtain off r2 where off: "below nxt r1 (length inp) = (off, r2)" by force
  have "idx < length cmps" by (rule rnd.below_eq_lt [OF idx]) (use cmps in simp)
  then have mem: "cmps ! idx \<in> set cmps" by simp
  have skip: "outcome_ok (length inp) inp (with_rng r' (Inr (Skipped, inp)))" for r' :: 'a
    by (simp add: with_rng_Inr outcome_ok_def)
  have "inp \<noteq> []" using False by simp
  note body = this cmps idx off mutate_i2s_binonly_def
  show ?thesis
  proof (cases "cmps ! idx")
    case (CmpU8 v1 v2 c)
    obtain m out where res: "bin_u8_loop v1 v2 inp [off..<length inp] = (m, out)" by force
    from bin_u8_length [OF res] res CmpU8 show ?thesis
      by (simp add: body with_rng_Inr outcome_ok_def)
  next
    case (CmpU16 v1 v2 c)
    obtain n r3 where n: "random_slice_size 1 nxt r2 = (n, r3)" by force
    from bin_word_result [OF n, of 2 inp "unat v1" "unat v2" off] CmpU16 show ?thesis
      by (simp add: body bin_u16_def n [simplified] skip)
  next
    case (CmpU32 v1 v2 c)
    obtain n r3 where n: "random_slice_size 2 nxt r2 = (n, r3)" by force
    from bin_word_result [OF n, of 4 inp "unat v1" "unat v2" off] CmpU32 show ?thesis
      by (simp add: body bin_u32_def n skip)
  next
    case (CmpU64 v1 v2 c)
    obtain n r3 where n: "random_slice_size 3 nxt r2 = (n, r3)" by force
    from bin_word_result [OF n, of 8 inp "unat v1" "unat v2" off] CmpU64 show ?thesis
      by (simp add: body bin_u64_def n skip)
  next
    case (CmpBytes v1 v2)
    have "\<forall>i \<in> set [off..<length inp]. off \<le> i \<and> i < length inp" by auto
    moreover have "length v1 = length v2" using assms cmps mem CmpBytes by (auto simp: mst_ok_def)
    ultimately obtain m out where res: "i2s_bytes_loop v1 v2 inp [off..<length inp] = Inr (m, out)"
      and "m = Skipped \<and> out = inp \<or> m = Mutated \<and> replaced (prefix_pairs v1 v2) off inp out"
      using i2s_bytes_replaced by blast
    with CmpBytes show ?thesis
      by (auto simp: body with_rng_Inr outcome_ok_def dest: length_replaced)
  qed
qed (auto simp: mutate_i2s_binonly_def outcome_ok_def)

interpretation i2s_binonly: byte_mutator "mutate_i2s_binonly nxt" for nxt
  by unfold_locales (rule outcome_ok_mono [OF bin_contract])

section \<open>The properties\<close>

text \<open>
  \<open>I2SRandReplace\<close> changes nothing but one window: where an operand of a logged
  comparison stood (in either byte order for integers; a prefix for byte strings) the other operand
  stands afterwards, in the same byte order and length, and a constant is never replaced.
\<close>

theorem i2s_replaces_operands:
  assumes "mst_ok L st"
  shows "result_is inp (\<lambda>out. \<exists>cmps v off. cmplog_md st = Some cmps \<and> v \<in> set cmps \<and>
      replaced (cmp_pairs v) off inp out)
    (mutate_i2s nxt st inp r)"
  by (rule i2s_effect [OF assms])

definition with_cmplog :: "cmp_values list \<Rightarrow> bytes mstate" where
  "with_cmplog cmps = \<lparr>max_size = 8, sched_ids = [], sched_current = None,
     corpus_get = (\<lambda>_. Inl KeyNotFound), corpus_get_all = (\<lambda>_. Inl KeyNotFound),
     tokens_md = None, cmplog_md = Some cmps\<rparr>"

theorem i2s_replaces_operands_witness:
  "result_is [1, 2, 3] (\<lambda>out. \<exists>cmps v off. cmplog_md (with_cmplog [CmpU16 0x0302 0x0707 False]) = Some cmps \<and>
      v \<in> set cmps \<and> replaced (cmp_pairs v) off [1, 2, 3] out)
    (mutate_i2s xorshift64_next (with_cmplog [CmpU16 0x0302 0x0707 False]) [1, 2, 3] 5)"
  by (rule i2s_replaces_operands [where L = 8]) (simp add: with_cmplog_def mst_ok_def)

text \<open>
  For byte strings of different lengths the copy is not guarded: when the longer operand is
  found in the input, more bytes are copied than the shorter one has, and the assertion of
  \<open>buffer_copy\<close> fails.
\<close>

theorem i2s_reads_past_the_operand:
  "mutate_i2s (\<lambda>s. (0, s)) (with_cmplog [CmpBytes [1, 2, 3] [9]]) [1, 2, 3] r = Inl Panic"
  by (simp add: mutate_i2s_def with_cmplog_def below_def with_rng_def buffer_copy_def
      upt_rec [of 0] eval_nat_numeral(3) numeral_2_eq_2)

end
