(* ===== verification/Scheduled.thy ===== *)
theory Scheduled
  imports Crossover Tokens InputToState
begin

text \<open>
  Composition of mutators: the tuples and vectors of \<^verbatim>\<open>libaflmm/src/mutators/mod.rs\<close>,
  the scheduled mutators of \<^verbatim>\<open>scheduled.rs\<close>, the wrapper of \<^verbatim>\<open>hash.rs\<close> and
  the collections of \<^verbatim>\<open>havoc_mutations.rs\<close>. A tuple of mutators is the list of its
  members.

  The main result is compositional: a stack of mutators that each meet the contract meets it, and
  so does the standard mutator, the havoc scheduler over all mutations of the library.
\<close>

type_synonym 'r mutator = "bytes mstate \<Rightarrow> bytes \<Rightarrow> 'r \<Rightarrow> 'r outcome"

section \<open>Tuples and vectors of mutators\<close>

fun tuple_mutate_all :: "'r mutator list \<Rightarrow> 'r mutator" where
  "tuple_mutate_all [] st inp rand = Inr (Skipped, inp, rand)"
| "tuple_mutate_all (m # ms) st inp rand =
     rbind (m st inp rand) (\<lambda>(r, inp, rand).
     rbind (tuple_mutate_all ms st inp rand) (\<lambda>(r', inp, rand).
       if r' = Mutated then Inr (Mutated, inp, rand) else Inr (r, inp, rand)))"

fun tuple_get_and_mutate :: "'r mutator list \<Rightarrow> nat \<Rightarrow> 'r mutator" where
  "tuple_get_and_mutate [] index st inp rand = Inr (Skipped, inp, rand)"
| "tuple_get_and_mutate (m # ms) index st inp rand =
     (if index = 0 then m st inp rand else tuple_get_and_mutate ms (index - 1) st inp rand)"

fun vec_try_fold :: "'r mutator list \<Rightarrow> mres \<Rightarrow> 'r mutator" where
  "vec_try_fold [] ret st inp rand = Inr (ret, inp, rand)"
| "vec_try_fold (m # ms) ret st inp rand =
     rbind (m st inp rand) (\<lambda>(r, inp, rand).
       vec_try_fold ms (if r = Mutated then Mutated else ret) st inp rand)"

definition vec_mutate_all :: "'r mutator list \<Rightarrow> 'r mutator" where
  "vec_mutate_all ms = vec_try_fold ms Skipped"

definition vec_get_and_mutate :: "'r mutator list \<Rightarrow> nat \<Rightarrow> 'r mutator" where
  "vec_get_and_mutate ms index st inp rand =
     (if index < length ms then (ms ! index) st inp rand else Inl KeyNotFound)"

section \<open>Scheduled mutators\<close>

text \<open>\<open>scheduled_mutate\<close>: the number of iterations is drawn first, then an index per turn.\<close>

fun scheduled_loop ::
  "('r \<Rightarrow> error + nat \<times> 'r) \<Rightarrow> (nat \<Rightarrow> 'r mutator) \<Rightarrow> nat \<Rightarrow> mres \<Rightarrow> 'r mutator" where
  "scheduled_loop schedule get 0 r st inp rand = Inr (r, inp, rand)"
| "scheduled_loop schedule get (Suc n) r st inp rand =
     rbind (schedule rand) (\<lambda>(idx, rand).
     rbind (get idx st inp rand) (\<lambda>(outcome, inp, rand).
       scheduled_loop schedule get n (if outcome = Mutated then Mutated else r) st inp rand))"

definition scheduled_mutate ::
  "('r \<Rightarrow> error + nat \<times> 'r) \<Rightarrow> ('r \<Rightarrow> error + nat \<times> 'r) \<Rightarrow> (nat \<Rightarrow> 'r mutator) \<Rightarrow> 'r mutator" where
  "scheduled_mutate iterations schedule get st inp rand =
     rbind (iterations rand) (\<lambda>(num, rand). scheduled_loop schedule get num Skipped st inp rand)"

definition single_iterations :: "'r \<Rightarrow> error + nat \<times> 'r" where
  "single_iterations rand = Inr (1, rand)"

definition mutations_schedule :: "('r \<Rightarrow> u64 \<times> 'r) \<Rightarrow> nat \<Rightarrow> 'r \<Rightarrow> error + nat \<times> 'r" where
  "mutations_schedule nxt len rand = (if len = 0 then Inl Panic else Inr (below nxt rand len))"

definition single_choice_mutate :: "('r \<Rightarrow> u64 \<times> 'r) \<Rightarrow> 'r mutator list \<Rightarrow> 'r mutator" where
  "single_choice_mutate nxt ms =
     scheduled_mutate single_iterations (mutations_schedule nxt (length ms)) (tuple_get_and_mutate ms)"

text \<open>A shift by the width of the \<open>u64\<close> or more panics.\<close>

definition havoc_iterations :: "('r \<Rightarrow> u64 \<times> 'r) \<Rightarrow> nat \<Rightarrow> 'r \<Rightarrow> error + nat \<times> 'r" where
  "havoc_iterations nxt max_stack_pow rand =
     (let (x, rand) = below_or_zero nxt rand max_stack_pow
      in if 64 \<le> 1 + x then Inl Panic else Inr (unat (push_bit (1 + x) (1 :: u64)), rand))"

definition havoc_mutate :: "('r \<Rightarrow> u64 \<times> 'r) \<Rightarrow> nat \<Rightarrow> 'r mutator list \<Rightarrow> 'r mutator" where
  "havoc_mutate nxt max_stack_pow ms =
     scheduled_mutate (havoc_iterations nxt max_stack_pow) (mutations_schedule nxt (length ms))
       (tuple_get_and_mutate ms)"

text \<open>\<open>HavocScheduledMutator::new\<close> sets the power to 7.\<close>

definition default_max_stack_pow :: nat where
  "default_max_stack_pow = 7"

section \<open>The hash-checked wrapper\<close>

definition mutation_checker :: "(bytes \<Rightarrow> u64) \<Rightarrow> 'r mutator \<Rightarrow> 'r mutator" where
  "mutation_checker hash inner st inp rand =
     (let before = hash inp
      in rbind (inner st inp rand) (\<lambda>(_, out, rand).
           if before = hash out then Inr (Skipped, out, rand) else Inr (Mutated, out, rand)))"

section \<open>The collections of the library\<close>

text \<open>
  The state the members of a collection share: the generator, and the buffers of the two mutators
  that own one.
\<close>

record 'r havoc_state =
  h_rng :: 'r
  h_copy_buf :: bytes
  h_swap_buf :: bytes

definition h_next :: "('r \<Rightarrow> u64 \<times> 'r) \<Rightarrow> 'r havoc_state \<Rightarrow> u64 \<times> 'r havoc_state" where
  "h_next nxt s = (let (x, r) = nxt (h_rng s) in (x, s\<lparr>h_rng := r\<rparr>))"

definition on_rng :: "'r mutator \<Rightarrow> 'r havoc_state mutator" where
  "on_rng m st inp s = rbind (m st inp (h_rng s)) (\<lambda>(res, out, r). Inr (res, out, s\<lparr>h_rng := r\<rparr>))"

definition on_copy_buf :: "(bytes \<times> 'r) mutator \<Rightarrow> 'r havoc_state mutator" where
  "on_copy_buf m st inp s = rbind (m st inp (h_copy_buf s, h_rng s)) (\<lambda>(res, out, buf, r).
     Inr (res, out, s\<lparr>h_copy_buf := buf, h_rng := r\<rparr>))"

definition on_swap_buf :: "(bytes \<times> 'r) mutator \<Rightarrow> 'r havoc_state mutator" where
  "on_swap_buf m st inp s = rbind (m st inp (h_swap_buf s, h_rng s)) (\<lambda>(res, out, buf, r).
     Inr (res, out, s\<lparr>h_swap_buf := buf, h_rng := r\<rparr>))"

definition havoc_mutations_no_crossover :: "('r \<Rightarrow> u64 \<times> 'r) \<Rightarrow> 'r havoc_state mutator list" where
  "havoc_mutations_no_crossover nxt =
     [on_rng (mutate_bit_flip nxt), on_rng (mutate_byte_flip nxt), on_rng (mutate_byte_inc nxt),
      on_rng (mutate_byte_dec nxt), on_rng (mutate_byte_neg nxt), on_rng (mutate_byte_rand nxt),
      on_rng (mutate_add 1 nxt), on_rng (mutate_add 2 nxt), on_rng (mutate_add 4 nxt),
      on_rng (mutate_add 8 nxt),
      on_rng (mutate_interesting 1 interesting_8 nxt),
      on_rng (mutate_interesting 2 interesting_16 nxt),
      on_rng (mutate_interesting 4 interesting_32 nxt),
      on_rng (mutate_delete nxt), on_rng (mutate_delete nxt), on_rng (mutate_delete nxt),
      on_rng (mutate_delete nxt),
      on_rng (mutate_expand nxt), on_rng (mutate_insert nxt), on_rng (mutate_rand_insert nxt),
      on_rng (mutate_set nxt), on_rng (mutate_rand_set nxt), on_rng (mutate_copy nxt),
      on_copy_buf (mutate_insert_copy nxt), on_swap_buf (mutate_swap nxt)]"

definition havoc_crossover :: "('r \<Rightarrow> u64 \<times> 'r) \<Rightarrow> 'r havoc_state mutator list" where
  "havoc_crossover nxt =
     [on_rng (mutate_crossover_insert nxt), on_rng (mutate_crossover_replace nxt)]"

definition havoc_mutations :: "('r \<Rightarrow> u64 \<times> 'r) \<Rightarrow> 'r havoc_state mutator list" where
  "havoc_mutations nxt = havoc_mutations_no_crossover nxt @ havoc_crossover nxt"

definition tokens_mutations :: "('r \<Rightarrow> u64 \<times> 'r) \<Rightarrow> 'r havoc_state mutator list" where
  "tokens_mutations nxt = [on_rng (mutate_token_insert nxt), on_rng (mutate_token_replace nxt)]"

definition std_mutator :: "('r \<Rightarrow> u64 \<times> 'r) \<Rightarrow> 'r havoc_state mutator" where
  "std_mutator nxt = havoc_mutate (h_next nxt) default_max_stack_pow (havoc_mutations nxt)"

section \<open>Tuples and vectors agree\<close>

lemma vec_try_fold_eq:
  "vec_try_fold ms ret st inp rand =
     rbind (tuple_mutate_all ms st inp rand) (\<lambda>(r, inp, rand).
       Inr (if r = Mutated then Mutated else ret, inp, rand))"
proof (induction ms arbitrary: ret inp rand)
  case (Cons m ms)
  show ?case
  proof (cases "m st inp rand")
    case (Inr res)
    obtain r out rand' where res: "res = (r, out, rand')" by (cases res)
    show ?thesis
      by (cases "tuple_mutate_all ms st out rand'") (auto simp: Inr res Cons.IH split: prod.splits)
  qed simp
qed simp

lemma vec_mutate_all_eq: "vec_mutate_all = tuple_mutate_all"
proof (intro ext)
  fix ms st and inp :: bytes and rand :: 'a
  show "vec_mutate_all ms st inp rand = tuple_mutate_all ms st inp rand"
    unfolding vec_mutate_all_def vec_try_fold_eq
    by (cases "tuple_mutate_all ms st inp rand") (auto, metis mres.exhaust)
qed

lemma tuple_get_nth: "index < length ms \<Longrightarrow> tuple_get_and_mutate ms index = ms ! index"
  by (induction ms arbitrary: index) (auto simp: fun_eq_iff nth_Cons' less_Suc_eq_0_disj)

lemma vec_get_eq: "index < length ms \<Longrightarrow> vec_get_and_mutate ms index = tuple_get_and_mutate ms index"
  by (auto simp: fun_eq_iff vec_get_and_mutate_def tuple_get_nth)

section \<open>The contract of a composition\<close>

text \<open>
  The two laws that carry all compositions: the outcome of a first mutator, followed by a second
  one on what the first left.
\<close>

lemma outcome_ok_bind:
  assumes "outcome_ok L inp x"
    and "\<And>m out r. x = Inr (m, out, r) \<Longrightarrow> length out \<le> L \<Longrightarrow> (m = Skipped \<Longrightarrow> out = inp) \<Longrightarrow>
      outcome_ok L inp (f (m, out, r))"
  shows "outcome_ok L inp (rbind x f)"
  using assms by (cases x) (auto simp: outcome_ok_def)

lemma scheduled_loop_ok:
  assumes "mst_ok L st" "length inp \<le> L"
    and sched: "\<And>r. \<exists>i r'. schedule r = Inr (i, r') \<and> i < n"
    and get: "\<And>i. i < n \<Longrightarrow> byte_mutator (get i)"
    and acc: "acc = Skipped \<longrightarrow> inp = start"
  shows "outcome_ok L start (scheduled_loop schedule get k acc st inp r)"
  using assms(2) acc
proof (induction k arbitrary: inp r acc)
  case 0
  then show ?case by (simp add: outcome_ok_def)
next
  case (Suc k)
  obtain i r1 where i: "schedule r = Inr (i, r1)" "i < n" using sched by blast
  obtain m out r2 where step: "get i st inp r1 = Inr (m, out, r2)" "length out \<le> L"
    "m = Skipped \<Longrightarrow> out = inp"
    using byte_mutator.total [OF get [OF i(2)] assms(1) Suc.prems(1), of r1] by blast
  show ?case
    using Suc.IH [OF step(2), of "if m = Mutated then Mutated else acc" r2] Suc.prems(2) step i
    by (cases m) auto
qed

lemma scheduled_mutate_contract:
  assumes iter: "\<And>r. \<exists>k r'. iterations r = Inr (k, r')"
    and sched: "\<And>r. \<exists>i r'. schedule r = Inr (i, r') \<and> i < n"
    and get: "\<And>i. i < n \<Longrightarrow> byte_mutator (get i)"
  shows "byte_mutator (scheduled_mutate iterations schedule get)"
proof
  fix L st and inp :: bytes and r
  assume st: "mst_ok L st" "length inp \<le> L"
  obtain k r1 where "iterations r = Inr (k, r1)" using iter by blast
  with scheduled_loop_ok [OF st sched get] show
    "outcome_ok L inp (scheduled_mutate iterations schedule get st inp r)"
    by (simp add: scheduled_mutate_def)
qed

lemma mutations_schedule_ok:
  "0 < n \<Longrightarrow> \<exists>i r'. mutations_schedule nxt n r = Inr (i, r') \<and> i < n"
  using rnd.below_lt [of n nxt r] by (cases "below nxt r n") (auto simp: mutations_schedule_def)

lemma havoc_iterations_eq:
  assumes "pow \<le> 63"
  obtains k r' where "havoc_iterations nxt pow r = Inr (2 ^ k, r')" "1 \<le> k" "k \<le> max 1 pow"
proof -
  obtain x r' where x: "below_or_zero nxt r pow = (x, r')" by force
  have le: "x \<le> pow - 1" by (rule rnd.below0_eq_le [OF x])
  with assms have "1 + x < 64" by linarith
  then have "unat (push_bit (1 + x) (1 :: u64)) = 2 ^ (1 + x)" by (rule unat_shift_one)
  with x \<open>1 + x < 64\<close> have "havoc_iterations nxt pow r = Inr (2 ^ (1 + x), r')"
    by (simp add: havoc_iterations_def)
  with le show thesis by (intro that [of "1 + x" r']) auto
qed

lemma tuple_get_contract:
  "\<forall>m \<in> set ms. byte_mutator m \<Longrightarrow> i < length ms \<Longrightarrow> byte_mutator (tuple_get_and_mutate ms i)"
  by (simp add: tuple_get_nth)

lemma single_choice_contract:
  assumes "ms \<noteq> []" "\<forall>m \<in> set ms. byte_mutator m"
  shows "byte_mutator (single_choice_mutate nxt ms)"
  unfolding single_choice_mutate_def
proof (rule scheduled_mutate_contract [where n = "length ms"])
  show "\<exists>i r'. mutations_schedule nxt (length ms) r = Inr (i, r') \<and> i < length ms" for r
    by (rule mutations_schedule_ok) (use assms in simp)
qed (use assms in \<open>auto simp: single_iterations_def tuple_get_contract\<close>)

lemma havoc_contract:
  assumes "ms \<noteq> []" "\<forall>m \<in> set ms. byte_mutator m" "pow \<le> 63"
  shows "byte_mutator (havoc_mutate nxt pow ms)"
  unfolding havoc_mutate_def
proof (rule scheduled_mutate_contract [where n = "length ms"])
  show "\<exists>k r'. havoc_iterations nxt pow r = Inr (k, r')" for r
    by (rule havoc_iterations_eq [OF assms(3), of nxt r]) blast
  show "\<exists>i r'. mutations_schedule nxt (length ms) r = Inr (i, r') \<and> i < length ms" for r
    by (rule mutations_schedule_ok) (use assms in simp)
qed (use assms in \<open>auto simp: tuple_get_contract\<close>)

lemma tuple_all_contract:
  assumes "\<forall>m \<in> set ms. byte_mutator m"
  shows "byte_mutator (tuple_mutate_all ms)"
proof
  fix L st and inp :: bytes and r
  assume st: "mst_ok L st" "length inp \<le> L"
  from assms st(2) show "outcome_ok L inp (tuple_mutate_all ms st inp r)"
  proof (induction ms arbitrary: inp r)
    case (Cons m ms)
    obtain a out r1 where m: "m st inp r = Inr (a, out, r1)" "length out \<le> L" "a = Skipped \<Longrightarrow> out = inp"
      using byte_mutator.total [of m L st inp r] Cons.prems st(1) by auto
    have "outcome_ok L out (tuple_mutate_all ms st out r1)"
      using Cons.IH Cons.prems(1) m(2) by simp
    with m show ?case
      by (cases "tuple_mutate_all ms st out r1") (auto simp: outcome_ok_def, metis mres.exhaust)
  qed (simp add: outcome_ok_def)
qed

text \<open>
  The wrapper reports what happened to the input, whatever the wrapped mutator claims, unless the
  hashes of the two inputs collide.
\<close>

lemma mutation_checker_reports:
  assumes "byte_mutator m" "mst_ok L st" "length inp \<le> L"
    and "\<And>out. hash inp = hash out \<Longrightarrow> inp = out"
  obtains out r' where "length out \<le> L"
    "mutation_checker hash m st inp r = Inr (if out = inp then Skipped else Mutated, out, r')"
proof -
  obtain a out r' where "m st inp r = Inr (a, out, r')" "length out \<le> L"
    using byte_mutator.total [OF assms(1-3), of r] by blast
  with assms(4) [of out] show thesis
    by (intro that [of out r']) (auto simp: mutation_checker_def Let_def)
qed

section \<open>The standard mutator\<close>

lemma lift_contract:
  assumes "byte_mutator m"
    and "\<And>st inp s. lift st inp s = rbind (m st inp (get s)) (\<lambda>(res, out, r). Inr (res, out, put s r))"
  shows "byte_mutator lift"
proof
  fix L st and inp :: bytes and s
  assume "mst_ok L st" "length inp \<le> L"
  then obtain a out r where "m st inp (get s) = Inr (a, out, r)" "length out \<le> L"
    "a = Skipped \<Longrightarrow> out = inp"
    using byte_mutator.total [OF assms(1), of L st inp "get s"] by blast
  then show "outcome_ok L inp (lift st inp s)"
    by (simp add: assms(2) outcome_ok_def)
qed

lemma on_rng_contract: "byte_mutator m \<Longrightarrow> byte_mutator (on_rng m)"
  by (rule lift_contract [where put = "\<lambda>s r. s\<lparr>h_rng := r\<rparr>"]) (auto simp: on_rng_def)

lemma on_copy_buf_contract: "byte_mutator m \<Longrightarrow> byte_mutator (on_copy_buf m)"
  by (rule lift_contract [where put = "\<lambda>s (b, r). s\<lparr>h_copy_buf := b, h_rng := r\<rparr>"])
    (auto simp: on_copy_buf_def split_def)

lemma on_swap_buf_contract: "byte_mutator m \<Longrightarrow> byte_mutator (on_swap_buf m)"
  by (rule lift_contract [where put = "\<lambda>s (b, r). s\<lparr>h_swap_buf := b, h_rng := r\<rparr>"])
    (auto simp: on_swap_buf_def split_def)

lemmas library_contracts =
  bit_flip.byte_mutator_axioms byte_flip.byte_mutator_axioms byte_inc.byte_mutator_axioms
  byte_dec.byte_mutator_axioms byte_neg.byte_mutator_axioms byte_rand.byte_mutator_axioms
  add.byte_mutator_axioms interesting8.byte_mutator_axioms interesting16.byte_mutator_axioms
  interesting32.byte_mutator_axioms delete.byte_mutator_axioms expand.byte_mutator_axioms
  insert.byte_mutator_axioms rand_insert.byte_mutator_axioms set.byte_mutator_axioms
  rand_set.byte_mutator_axioms copy.byte_mutator_axioms insert_copy.byte_mutator_axioms
  swap.byte_mutator_axioms crossover_insert.byte_mutator_axioms
  crossover_replace.byte_mutator_axioms token_insert.byte_mutator_axioms
  token_replace.byte_mutator_axioms

lemma havoc_mutations_contract: "\<forall>m \<in> set (havoc_mutations nxt). byte_mutator m"
  unfolding havoc_mutations_def havoc_mutations_no_crossover_def havoc_crossover_def
  by (simp add: on_rng_contract on_copy_buf_contract on_swap_buf_contract library_contracts
    del: One_nat_def)

lemma tokens_mutations_contract: "\<forall>m \<in> set (tokens_mutations nxt). byte_mutator m"
  by (simp add: tokens_mutations_def on_rng_contract library_contracts)

lemma havoc_mutations_ne: "havoc_mutations nxt \<noteq> []"
  by (simp add: havoc_mutations_def havoc_mutations_no_crossover_def)

interpretation std: byte_mutator "std_mutator nxt" for nxt
  unfolding std_mutator_def
  by (rule havoc_contract [OF havoc_mutations_ne havoc_mutations_contract])
    (simp add: default_max_stack_pow_def)

section \<open>The properties\<close>

text \<open>
  C6. The standard mutator (the havoc scheduler over all mutations of the library, with the default
  power of iterations) neither fails nor panics, never leaves the size limit and leaves the input
  alone when it reports \<open>Skipped\<close>, for every generator and every state whose scheduled test
  cases are in the corpus and within the limit.
\<close>

theorem std_mutator_is_safe:
  assumes "mst_ok L st" "length inp \<le> L"
  shows "\<exists>m out s'. std_mutator nxt st inp s = Inr (m, out, s') \<and> length out \<le> L \<and>
    (m = Skipped \<longrightarrow> out = inp)"
  using std.total [OF assms, of nxt s] by metis

theorem std_mutator_is_safe_witness:
  "\<exists>m out s'. std_mutator xorshift64_next two_inputs [1, 2, 3]
      \<lparr>h_rng = 5, h_copy_buf = [], h_swap_buf = []\<rparr> = Inr (m, out, s') \<and> length out \<le> 8"
  using std_mutator_is_safe [OF two_inputs_ok, of "[1, 2, 3]" xorshift64_next
      "\<lparr>h_rng = 5, h_copy_buf = [], h_swap_buf = []\<rparr>"] by auto

text \<open>
  The same holds for a stack of any mutators that keep the contract, scheduled one at a time
  or in the havoc manner, or run all in order as a tuple or as a vector.
\<close>

theorem stacked_mutators_are_safe:
  assumes "ms \<noteq> []" "\<forall>m \<in> set ms. byte_mutator m" "pow \<le> 63"
  shows "byte_mutator (single_choice_mutate nxt ms) \<and> byte_mutator (havoc_mutate nxt pow ms) \<and>
    byte_mutator (tuple_mutate_all ms) \<and> byte_mutator (vec_mutate_all ms)"
  using assms by (simp add: single_choice_contract havoc_contract tuple_all_contract
      vec_mutate_all_eq)

theorem stacked_mutators_are_safe_witness:
  "byte_mutator (single_choice_mutate (h_next xorshift64_next) (tokens_mutations xorshift64_next)) \<and>
    byte_mutator (havoc_mutate (h_next xorshift64_next) 5 (tokens_mutations xorshift64_next)) \<and>
    byte_mutator (tuple_mutate_all (tokens_mutations xorshift64_next)) \<and>
    byte_mutator (vec_mutate_all (tokens_mutations xorshift64_next))"
  by (rule stacked_mutators_are_safe)
    (simp_all add: tokens_mutations_contract, simp add: tokens_mutations_def)

text \<open>
  The havoc scheduler draws a power of two of iterations, from 2 up to two to the given power
  (128 by default).
\<close>

theorem havoc_iterations_bounds:
  assumes "1 \<le> pow" "pow \<le> 63" "havoc_iterations nxt pow r = Inr (n, r')"
  shows "\<exists>k. n = 2 ^ k \<and> 2 \<le> n \<and> n \<le> 2 ^ pow"
proof -
  obtain k r'' where k: "havoc_iterations nxt pow r = Inr (2 ^ k, r'')" "1 \<le> k" "k \<le> max 1 pow"
    by (rule havoc_iterations_eq [OF assms(2)])
  have "(2 :: nat) \<le> 2 ^ k" "(2 :: nat) ^ k \<le> 2 ^ pow"
    using k assms(1) self_le_power [of "2 :: nat" k] by (auto intro!: power_increasing)
  with k assms(3) show ?thesis by auto
qed

theorem havoc_iterations_bounds_witness:
  "\<exists>k. (128 :: nat) = 2 ^ k \<and> 2 \<le> (128 :: nat) \<and> (128 :: nat) \<le> 2 ^ default_max_stack_pow"
proof (rule havoc_iterations_bounds)
  have "fast_bound (2 ^ 64 - 1) 7 = 6" by (simp add: word_unat_eq_iff fast_bound_nat)
  then show "havoc_iterations (\<lambda>s :: u64. (2 ^ 64 - 1, s)) default_max_stack_pow 0 = Inr (128, 0)"
    by (simp add: havoc_iterations_def below_or_zero_def fast_bound_usize_eq default_max_stack_pow_def
        unat_shift_one)
qed (simp_all add: default_max_stack_pow_def)

end
