(* ===== verification/CorpusMaps.thy ===== *)
theory CorpusMaps
  imports Rands "HOL-Library.AList"
begin

text \<open>
  The in-memory maps of \<^verbatim>\<open>libaflmm/src/corpus/store/maps.rs\<close>. A
  \<open>TestcaseId\<close> is its 64-bit hash. The standard library's \<open>BTreeMap\<close> is an association
  list in ascending order of the keys, its \<open>HashMap\<close> an association list without repeated keys
  whose order nothing depends on; \<open>binary_search\<close> finds the place its documentation promises for a
  sorted slice.

  What a store relies on is stated by two locales: \<open>append_map\<close> for a map that is only added
  to and read, and \<open>corpus_map\<close> for one that is removed from as well. The B-tree map meets
  both; the hash map, whose \<open>remove\<close> leaves \<open>first_id\<close> and \<open>last_id\<close> behind, only the
  first.
\<close>

section \<open>The history\<close>

definition binary_search :: "'k::linorder list \<Rightarrow> 'k \<Rightarrow> nat + nat" where
  "binary_search keys x =
     (let n = length (takeWhile (\<lambda>k. k < x) keys)
      in if n < length keys \<and> keys ! n = x then Inr n else Inl n)"

type_synonym history = "u64 list"

definition history_add :: "history \<Rightarrow> u64 \<Rightarrow> history" where
  "history_add keys tid =
     (case binary_search keys tid of
        Inl idx \<Rightarrow> take idx keys @ tid # drop idx keys
      | Inr _ \<Rightarrow> keys)"

definition history_remove :: "history \<Rightarrow> u64 \<Rightarrow> history" where
  "history_remove keys tid =
     (case binary_search keys tid of
        Inr idx \<Rightarrow> take idx keys @ drop (idx + 1) keys
      | Inl _ \<Rightarrow> keys)"

definition history_nth :: "history \<Rightarrow> nat \<Rightarrow> error + u64" where
  "history_nth keys idx = (if idx < length keys then Inr (keys ! idx) else Inl Panic)"

section \<open>The B-tree map\<close>

text \<open>The operations of the standard library's map, and its ranges.\<close>

fun bt_insert :: "'k::linorder \<Rightarrow> 'a \<Rightarrow> ('k \<times> 'a) list \<Rightarrow> ('k \<times> 'a) list" where
  "bt_insert k v [] = [(k, v)]"
| "bt_insert k v ((k', v') # kvs) =
     (if k < k' then (k, v) # (k', v') # kvs
      else if k = k' then (k, v) # kvs
      else (k', v') # bt_insert k v kvs)"

definition bt_remove :: "'k \<Rightarrow> ('k \<times> 'a) list \<Rightarrow> ('k \<times> 'a) list" where
  "bt_remove k kvs = filter (\<lambda>(k', _). k' \<noteq> k) kvs"

record 'a btree_corpus_map =
  bt_map :: "(u64 \<times> 'a) list"
  bt_history :: history

definition btree_empty :: "'a btree_corpus_map" where
  "btree_empty = \<lparr>bt_map = [], bt_history = []\<rparr>"

definition btree_count :: "'a btree_corpus_map \<Rightarrow> nat" where
  "btree_count m = length (bt_map m)"

definition btree_add :: "'a btree_corpus_map \<Rightarrow> u64 \<Rightarrow> 'a \<Rightarrow> error + bool \<times> 'a btree_corpus_map" where
  "btree_add m tid testcase =
     Inr (map_of (bt_map m) tid \<noteq> None,
       m\<lparr>bt_history := history_add (bt_history m) tid, bt_map := bt_insert tid testcase (bt_map m)\<rparr>)"

definition btree_get :: "'a btree_corpus_map \<Rightarrow> u64 \<Rightarrow> 'a option" where
  "btree_get m tid = map_of (bt_map m) tid"

definition btree_remove ::
  "'a btree_corpus_map \<Rightarrow> u64 \<Rightarrow> error + 'a option \<times> 'a btree_corpus_map" where
  "btree_remove m tid =
     (case map_of (bt_map m) tid of
        None \<Rightarrow> Inr (None, m)
      | Some ret \<Rightarrow>
          Inr (Some ret, m\<lparr>bt_map := bt_remove tid (bt_map m),
            bt_history := history_remove (bt_history m) tid\<rparr>))"

definition btree_prev :: "'a btree_corpus_map \<Rightarrow> u64 \<Rightarrow> u64 option" where
  "btree_prev m tid =
     (case rev (filter (\<lambda>k. k \<le> tid) (map fst (bt_map m))) of
        [] \<Rightarrow> None
      | this_id # rest \<Rightarrow>
          if tid \<noteq> this_id then None
          else (case rest of [] \<Rightarrow> None | prev_id # _ \<Rightarrow> Some prev_id))"

definition btree_next :: "'a btree_corpus_map \<Rightarrow> u64 \<Rightarrow> u64 option" where
  "btree_next m tid =
     (case filter (\<lambda>k. tid \<le> k) (map fst (bt_map m)) of
        [] \<Rightarrow> None
      | this_id # rest \<Rightarrow>
          if tid \<noteq> this_id then None
          else (case rest of [] \<Rightarrow> None | next_id # _ \<Rightarrow> Some next_id))"

definition btree_first :: "'a btree_corpus_map \<Rightarrow> u64 option" where
  "btree_first m = (case bt_map m of [] \<Rightarrow> None | (k, _) # _ \<Rightarrow> Some k)"

definition btree_last :: "'a btree_corpus_map \<Rightarrow> u64 option" where
  "btree_last m = (case rev (bt_map m) of [] \<Rightarrow> None | (k, _) # _ \<Rightarrow> Some k)"

definition btree_nth :: "'a btree_corpus_map \<Rightarrow> nat \<Rightarrow> error + u64" where
  "btree_nth m n = history_nth (bt_history m) n"

section \<open>The hash map\<close>

record 'a storage_item =
  si_testcase :: 'a
  si_prev :: "u64 option"
  si_next :: "u64 option"

record 'a hash_corpus_map =
  hm_map :: "(u64 \<times> 'a storage_item) list"
  hm_first_id :: "u64 option"
  hm_last_id :: "u64 option"
  hm_history :: history

definition hash_empty :: "'a hash_corpus_map" where
  "hash_empty = \<lparr>hm_map = [], hm_first_id = None, hm_last_id = None, hm_history = []\<rparr>"

definition hash_count :: "'a hash_corpus_map \<Rightarrow> nat" where
  "hash_count m = length (hm_map m)"

text \<open>\<open>map.get_mut(&id).unwrap()\<close>, then an assignment to a field.\<close>

definition update_item ::
  "u64 \<Rightarrow> ('a storage_item \<Rightarrow> 'a storage_item) \<Rightarrow> (u64 \<times> 'a storage_item) list
    \<Rightarrow> error + (u64 \<times> 'a storage_item) list" where
  "update_item k f kvs =
     (case map_of kvs k of None \<Rightarrow> Inl Panic | Some item \<Rightarrow> Inr (AList.update k (f item) kvs))"

definition hash_add :: "'a hash_corpus_map \<Rightarrow> u64 \<Rightarrow> 'a \<Rightarrow> error + bool \<times> 'a hash_corpus_map" where
  "hash_add m tid testcase =
     rbind (case hm_last_id m of
              Some last_id \<Rightarrow> rbind (update_item last_id (\<lambda>it. it\<lparr>si_next := Some tid\<rparr>) (hm_map m))
                (\<lambda>kvs. Inr (Some last_id, kvs))
            | None \<Rightarrow> Inr (None, hm_map m))
       (\<lambda>(prev, kvs).
          Inr (map_of kvs tid \<noteq> None,
            m\<lparr>hm_first_id := (if hm_first_id m = None then Some tid else hm_first_id m),
              hm_last_id := Some tid,
              hm_history := history_add (hm_history m) tid,
              hm_map := AList.update tid \<lparr>si_testcase = testcase, si_prev = prev, si_next = None\<rparr> kvs\<rparr>))"

definition hash_get :: "'a hash_corpus_map \<Rightarrow> u64 \<Rightarrow> 'a option" where
  "hash_get m tid = map_option si_testcase (map_of (hm_map m) tid)"

definition hash_remove ::
  "'a hash_corpus_map \<Rightarrow> u64 \<Rightarrow> error + 'a option \<times> 'a hash_corpus_map" where
  "hash_remove m tid =
     (case map_of (hm_map m) tid of
        None \<Rightarrow> Inr (None, m)
      | Some entry \<Rightarrow>
          let kvs = AList.delete tid (hm_map m)
          in rbind (case si_prev entry of
                      None \<Rightarrow> Inr kvs
                    | Some prev \<Rightarrow> update_item prev (\<lambda>it. it\<lparr>si_next := si_next entry\<rparr>) kvs) (\<lambda>kvs.
             rbind (case si_next entry of
                      None \<Rightarrow> Inr kvs
                    | Some nxt \<Rightarrow> update_item nxt (\<lambda>it. it\<lparr>si_prev := si_prev entry\<rparr>) kvs) (\<lambda>kvs.
               Inr (Some (si_testcase entry),
                 m\<lparr>hm_map := kvs, hm_history := history_remove (hm_history m) tid\<rparr>))))"

definition hash_prev :: "'a hash_corpus_map \<Rightarrow> u64 \<Rightarrow> u64 option" where
  "hash_prev m tid = (case map_of (hm_map m) tid of Some item \<Rightarrow> si_prev item | _ \<Rightarrow> None)"

definition hash_next :: "'a hash_corpus_map \<Rightarrow> u64 \<Rightarrow> u64 option" where
  "hash_next m tid = (case map_of (hm_map m) tid of Some item \<Rightarrow> si_next item | _ \<Rightarrow> None)"

definition hash_first :: "'a hash_corpus_map \<Rightarrow> u64 option" where
  "hash_first m = hm_first_id m"

definition hash_last :: "'a hash_corpus_map \<Rightarrow> u64 option" where
  "hash_last m = hm_last_id m"

definition hash_nth :: "'a hash_corpus_map \<Rightarrow> nat \<Rightarrow> error + u64" where
  "hash_nth m n = history_nth (hm_history m) n"

section \<open>The contracts\<close>

locale append_map =
  fixes wf :: "'m \<Rightarrow> bool" and entries :: "'m \<Rightarrow> u64 \<Rightarrow> 'a option"
    and m_empty :: 'm and m_count :: "'m \<Rightarrow> nat"
    and m_add :: "'m \<Rightarrow> u64 \<Rightarrow> 'a \<Rightarrow> error + bool \<times> 'm"
    and m_get :: "'m \<Rightarrow> u64 \<Rightarrow> 'a option"
  assumes wf_empty: "wf m_empty" "entries m_empty = Map.empty"
    and add: "wf m \<Longrightarrow> \<exists>m'. m_add m k v = Inr (entries m k \<noteq> None, m') \<and> wf m' \<and>
      entries m' = (entries m)(k \<mapsto> v)"
    and get: "wf m \<Longrightarrow> m_get m k = entries m k"
    and count: "wf m \<Longrightarrow> m_count m = card (dom (entries m))"
begin

lemma addE:
  assumes "wf m"
  obtains m' where "m_add m k v = Inr (entries m k \<noteq> None, m')" "wf m'"
    "entries m' = (entries m)(k \<mapsto> v)"
  using add [OF assms, of k v] by blast

text \<open>Adding in any order: what is found is what was added last under the identifier.\<close>

lemma get_after_add: "wf m \<Longrightarrow> m_add m k v = Inr (b, m') \<Longrightarrow> m_get m' k = Some v"
  using add [of m k v] get [of m' k] by auto

lemma get_other: "wf m \<Longrightarrow> m_add m k v = Inr (b, m') \<Longrightarrow> k' \<noteq> k \<Longrightarrow> m_get m' k' = m_get m k'"
  using add [of m k v] get [of m' k'] get [of m k'] by auto

end

locale corpus_map = append_map wf entries m_empty m_count m_add m_get
  for wf :: "'m \<Rightarrow> bool" and entries :: "'m \<Rightarrow> u64 \<Rightarrow> 'a option" and m_empty :: 'm
    and m_count :: "'m \<Rightarrow> nat" and m_add :: "'m \<Rightarrow> u64 \<Rightarrow> 'a \<Rightarrow> error + bool \<times> 'm"
    and m_get :: "'m \<Rightarrow> u64 \<Rightarrow> 'a option" +
  fixes m_remove :: "'m \<Rightarrow> u64 \<Rightarrow> error + 'a option \<times> 'm"
  assumes remove_absent: "wf m \<Longrightarrow> entries m k = None \<Longrightarrow> m_remove m k = Inr (None, m)"
    and remove_present: "wf m \<Longrightarrow> entries m k = Some v \<Longrightarrow>
      \<exists>m'. m_remove m k = Inr (Some v, m') \<and> wf m' \<and> entries m' = (entries m)(k := None)"
begin

lemma removeE:
  assumes "wf m"
  obtains m' where "m_remove m k = Inr (entries m k, m')" "wf m'"
    "entries m' = (entries m)(k := None)"
proof (cases "entries m k")
  case None
  with remove_absent [OF assms None] assms that [of m] show ?thesis by (simp add: fun_upd_idem)
next
  case (Some v)
  with remove_present [OF assms Some] that show ?thesis by auto
qed

end

section \<open>Sorted lists\<close>

definition ascending :: "'k::linorder list \<Rightarrow> bool" where
  "ascending ks \<longleftrightarrow> sorted_wrt (<) ks"

lemma ascending_distinct: "ascending ks \<Longrightarrow> distinct ks"
  unfolding ascending_def by (induction ks) auto

lemma ascending_unique:
  assumes "ascending ks" "ascending ls" "set ks = set ls"
  shows "ks = ls"
proof -
  have "sorted ks" "sorted ls" using assms(1,2) by (auto simp: ascending_def strict_sorted_iff)
  with assms show ?thesis by (metis ascending_distinct sorted_distinct_set_unique)
qed

text \<open>\<open>binary_search\<close> splits an ascending list at the place of the key.\<close>

lemma binary_search_split:
  assumes "ascending keys"
  obtains as bs where "keys = as @ bs" "\<forall>a \<in> set as. a < x" "\<forall>b \<in> set bs. x < b"
    "binary_search keys x = Inl (length as)" "x \<notin> set keys"
  | as bs where "keys = as @ x # bs" "\<forall>a \<in> set as. a < x" "\<forall>b \<in> set bs. x < b"
    "binary_search keys x = Inr (length as)"
proof -
  define as where "as = takeWhile (\<lambda>k. k < x) keys"
  define ds where "ds = dropWhile (\<lambda>k. k < x) keys"
  have keys: "keys = as @ ds" by (simp add: as_def ds_def)
  have as: "\<forall>a \<in> set as. a < x" unfolding as_def by (auto dest: set_takeWhileD)
  show thesis
  proof (cases ds)
    case Nil
    have "takeWhile (\<lambda>k. k < x) as = as" using as by (simp add: takeWhile_eq_all_conv)
    with that(1) [of as "[]"] Nil keys as show thesis
      by (auto simp: binary_search_def)
  next
    case (Cons d bs)
    have nd: "\<not> d < x" using Cons by (auto simp: ds_def dropWhile_eq_Cons_conv)
    have db: "\<forall>b \<in> set bs. d < b"
      using assms by (auto simp: keys Cons ascending_def sorted_wrt_append)
    have nth: "keys ! length as = d" "length as < length keys" by (simp_all add: keys Cons)
    show thesis
    proof (cases "d = x")
      case True
      with that(2) [of as bs] keys Cons as db nth show thesis
        by (auto simp: binary_search_def as_def [symmetric])
    next
      case False
      with nd have "x < d" by simp
      with db have "\<forall>b \<in> set ds. x < b" by (auto simp: Cons)
      moreover have "binary_search keys x = Inl (length as)"
        using nth False by (simp add: binary_search_def as_def [symmetric] Let_def)
      moreover have "x \<notin> set keys" using calculation(1) as by (auto simp: keys)
      ultimately show thesis using that(1) [of as ds] keys as by blast
    qed
  qed
qed

lemma history_add_set:
  assumes "ascending keys"
  shows "ascending (history_add keys x)" "set (history_add keys x) = insert x (set keys)"
proof -
  show "ascending (history_add keys x)"
    by (rule binary_search_split [OF assms, of x])
      (use assms in \<open>auto simp: history_add_def ascending_def sorted_wrt_append\<close>)
  show "set (history_add keys x) = insert x (set keys)"
    by (rule binary_search_split [OF assms, of x]) (auto simp: history_add_def)
qed

lemma history_remove_set:
  assumes "ascending keys"
  shows "ascending (history_remove keys x)" "set (history_remove keys x) = set keys - {x}"
proof -
  show "ascending (history_remove keys x)"
    by (rule binary_search_split [OF assms, of x])
      (use assms in \<open>auto simp: history_remove_def ascending_def sorted_wrt_append\<close>)
  show "set (history_remove keys x) = set keys - {x}"
    by (rule binary_search_split [OF assms, of x]) (auto simp: history_remove_def)
qed

section \<open>The B-tree map meets the contract\<close>

definition btree_wf :: "'a btree_corpus_map \<Rightarrow> bool" where
  "btree_wf m \<longleftrightarrow> ascending (map fst (bt_map m)) \<and> bt_history m = map fst (bt_map m)"

lemma set_bt_insert: "fst ` set (bt_insert k v kvs) = insert k (fst ` set kvs)"
  by (induction k v kvs rule: bt_insert.induct) auto

lemma ascending_bt_insert:
  "ascending (map fst kvs) \<Longrightarrow> ascending (map fst (bt_insert k v kvs))"
proof (induction k v kvs rule: bt_insert.induct)
  case (2 k v k' v' kvs)
  then show ?case
    using set_bt_insert [of k v kvs] by (auto simp: ascending_def)
qed (simp add: ascending_def)

lemma map_of_bt_insert: "map_of (bt_insert k v kvs) = (map_of kvs)(k \<mapsto> v)"
  by (induction k v kvs rule: bt_insert.induct) (auto simp: fun_eq_iff)

lemma ascending_bt_remove:
  "ascending (map fst kvs) \<Longrightarrow> ascending (map fst (bt_remove k kvs))"
  by (auto simp: ascending_def bt_remove_def sorted_wrt_map intro: sorted_wrt_filter)

lemma set_bt_remove: "fst ` set (bt_remove k kvs) = fst ` set kvs - {k}"
  by (auto simp: bt_remove_def image_iff)

lemma map_of_bt_remove: "map_of (bt_remove k kvs) = (map_of kvs)(k := None)"
  unfolding bt_remove_def by (induction kvs) (auto simp: fun_eq_iff)

lemma history_bt_insert:
  assumes "ascending (map fst kvs)"
  shows "history_add (map fst kvs) k = map fst (bt_insert k v kvs)"
  by (rule ascending_unique)
    (use assms in \<open>simp_all add: history_add_set ascending_bt_insert set_bt_insert\<close>)

lemma history_bt_remove:
  assumes "ascending (map fst kvs)"
  shows "history_remove (map fst kvs) k = map fst (bt_remove k kvs)"
  by (rule ascending_unique)
    (use assms in \<open>simp_all add: history_remove_set ascending_bt_remove set_bt_remove\<close>)

interpretation btree: corpus_map btree_wf "\<lambda>m. map_of (bt_map m)" btree_empty btree_count
  btree_add btree_get btree_remove
proof
  show "btree_wf btree_empty" "map_of (bt_map btree_empty) = Map.empty"
    by (simp_all add: btree_wf_def btree_empty_def ascending_def)
next
  fix m :: "'a btree_corpus_map" and k v
  assume "btree_wf m"
  then show "\<exists>m'. btree_add m k v = Inr (map_of (bt_map m) k \<noteq> None, m') \<and> btree_wf m' \<and>
      map_of (bt_map m') = (map_of (bt_map m))(k \<mapsto> v)"
    by (simp add: btree_add_def btree_wf_def ascending_bt_insert history_bt_insert map_of_bt_insert)
next
  fix m :: "'a btree_corpus_map"
  assume "btree_wf m"
  then have "distinct (map fst (bt_map m))" by (simp add: btree_wf_def ascending_distinct)
  then show "btree_count m = card (dom (map_of (bt_map m)))"
    by (metis btree_count_def distinct_card dom_map_of_conv_image_fst length_map set_map)
next
  fix m :: "'a btree_corpus_map" and k v
  assume "btree_wf m" "map_of (bt_map m) k = Some v"
  then show "\<exists>m'. btree_remove m k = Inr (Some v, m') \<and> btree_wf m' \<and>
      map_of (bt_map m') = (map_of (bt_map m))(k := None)"
    by (simp add: btree_remove_def btree_wf_def ascending_bt_remove history_bt_remove map_of_bt_remove)
qed (simp_all add: btree_get_def btree_remove_def)

section \<open>The hash map, as long as nothing is removed\<close>

definition hash_wf :: "'a hash_corpus_map \<Rightarrow> bool" where
  "hash_wf m \<longleftrightarrow> distinct (map fst (hm_map m)) \<and>
     (\<forall>k. hm_last_id m = Some k \<longrightarrow> map_of (hm_map m) k \<noteq> None) \<and>
     ascending (hm_history m) \<and> set (hm_history m) = dom (map_of (hm_map m))"

definition hash_entries :: "'a hash_corpus_map \<Rightarrow> u64 \<Rightarrow> 'a option" where
  "hash_entries m k = map_option si_testcase (map_of (hm_map m) k)"

lemma update_item_Some:
  "map_of kvs k = Some it \<Longrightarrow> update_item k f kvs = Inr (AList.update k (f it) kvs)"
  by (simp add: update_item_def)

lemma hash_add_eq:
  assumes "hash_wf m"
  obtains prev kvs where "hash_add m k v = Inr (map_of (hm_map m) k \<noteq> None,
      m\<lparr>hm_first_id := (if hm_first_id m = None then Some k else hm_first_id m),
        hm_last_id := Some k, hm_history := history_add (hm_history m) k,
        hm_map := AList.update k \<lparr>si_testcase = v, si_prev = prev, si_next = None\<rparr> kvs\<rparr>)"
    "prev = hm_last_id m" "distinct (map fst kvs)"
    "\<forall>j. map_of kvs j = (if hm_last_id m = Some j
      then map_option (\<lambda>it. it\<lparr>si_next := Some k\<rparr>) (map_of (hm_map m) j) else map_of (hm_map m) j)"
proof (cases "hm_last_id m")
  case None
  then show thesis
    by (intro that [where prev = None and kvs = "hm_map m"])
      (use assms in \<open>auto simp: hash_add_def hash_wf_def\<close>)
next
  case (Some l)
  with assms obtain it where it: "map_of (hm_map m) l = Some it" by (auto simp: hash_wf_def)
  let ?kvs = "AList.update l (it\<lparr>si_next := Some k\<rparr>) (hm_map m)"
  show thesis
  proof (rule that [where prev = "Some l" and kvs = ?kvs])
    have "(map_of ?kvs k \<noteq> None) = (map_of (hm_map m) k \<noteq> None)"
      using it by (simp add: update_conv)
    then show "hash_add m k v = Inr (map_of (hm_map m) k \<noteq> None,
      m\<lparr>hm_first_id := (if hm_first_id m = None then Some k else hm_first_id m),
        hm_last_id := Some k, hm_history := history_add (hm_history m) k,
        hm_map := AList.update k \<lparr>si_testcase = v, si_prev = Some l, si_next = None\<rparr> ?kvs\<rparr>)"
      by (simp add: hash_add_def Some update_item_Some [OF it])
  qed (use assms Some it in \<open>auto simp: hash_wf_def distinct_update update_conv\<close>)
qed

lemma hash_add_wf:
  assumes "hash_wf m" "hash_add m k v = Inr (b, m')"
  shows "hash_wf m' \<and> b = (hash_entries m k \<noteq> None) \<and> hash_entries m' = (hash_entries m)(k \<mapsto> v)"
proof -
  obtain prev kvs where add: "hash_add m k v = Inr (map_of (hm_map m) k \<noteq> None,
      m\<lparr>hm_first_id := (if hm_first_id m = None then Some k else hm_first_id m),
        hm_last_id := Some k, hm_history := history_add (hm_history m) k,
        hm_map := AList.update k \<lparr>si_testcase = v, si_prev = prev, si_next = None\<rparr> kvs\<rparr>)"
    and "prev = hm_last_id m" and kvs: "distinct (map fst kvs)" "\<forall>j. map_of kvs j = (if hm_last_id m = Some j
      then map_option (\<lambda>it. it\<lparr>si_next := Some k\<rparr>) (map_of (hm_map m) j) else map_of (hm_map m) j)"
    by (rule hash_add_eq [OF assms(1), of k v])
  have dom: "dom (map_of kvs) = dom (map_of (hm_map m))"
    by (auto simp: kvs(2) [rule_format] split: if_splits)
  have asc: "ascending (hm_history m)" using assms(1) by (simp add: hash_wf_def)
  have "hash_wf m'"
    using add assms kvs(1) history_add_set [OF asc, of k]
    by (simp add: hash_wf_def distinct_update update_conv' dom)
  moreover have "hash_entries m' = (hash_entries m)(k \<mapsto> v)"
    using add assms(2)
    by (auto simp: fun_eq_iff hash_entries_def update_conv kvs(2) [rule_format] option.map_comp comp_def)
  ultimately show ?thesis using add assms(2) by (simp add: hash_entries_def)
qed

interpretation hash: append_map hash_wf hash_entries hash_empty hash_count hash_add hash_get
proof
  show "hash_wf hash_empty" "hash_entries hash_empty = Map.empty"
    by (simp_all add: hash_wf_def hash_entries_def hash_empty_def ascending_def fun_eq_iff)
next
  fix m :: "'a hash_corpus_map" and k v
  assume m: "hash_wf m"
  obtain b m' where "hash_add m k v = Inr (b, m')"
    by (rule hash_add_eq [OF m, of k v]) blast
  with hash_add_wf [OF m this] show "\<exists>m'. hash_add m k v = Inr (hash_entries m k \<noteq> None, m') \<and>
      hash_wf m' \<and> hash_entries m' = (hash_entries m)(k \<mapsto> v)"
    by blast
next
  fix m :: "'a hash_corpus_map"
  assume "hash_wf m"
  then have "distinct (map fst (hm_map m))" by (simp add: hash_wf_def)
  then have "hash_count m = card (dom (map_of (hm_map m)))"
    by (metis hash_count_def distinct_card dom_map_of_conv_image_fst length_map set_map)
  also have "dom (map_of (hm_map m)) = dom (hash_entries m)" by (auto simp: hash_entries_def)
  finally show "hash_count m = card (dom (hash_entries m))" .
qed (simp add: hash_get_def hash_entries_def)

section \<open>The order of the hash map\<close>

text \<open>The links of the entries spell the list of identifiers in the order they were added.\<close>

definition hash_linked :: "'a hash_corpus_map \<Rightarrow> u64 list \<Rightarrow> bool" where
  "hash_linked m ids \<longleftrightarrow> hash_wf m \<and> distinct ids \<and> dom (map_of (hm_map m)) = set ids \<and>
     hm_first_id m = (if ids = [] then None else Some (hd ids)) \<and>
     hm_last_id m = (if ids = [] then None else Some (last ids)) \<and>
     (\<forall>i < length ids. \<exists>it. map_of (hm_map m) (ids ! i) = Some it \<and>
        si_prev it = (if i = 0 then None else Some (ids ! (i - 1))) \<and>
        si_next it = (if Suc i < length ids then Some (ids ! Suc i) else None))"

lemma hash_linked_empty: "hash_linked hash_empty []"
  by (simp add: hash_linked_def hash_empty_def hash_wf_def ascending_def)

lemma hash_linked_add:
  assumes "hash_linked m ids" "k \<notin> set ids"
  obtains m' where "hash_add m k v = Inr (False, m')" "hash_linked m' (ids @ [k])"
proof -
  have wf: "hash_wf m" using assms(1) by (simp add: hash_linked_def)
  have fresh: "map_of (hm_map m) k = None" using assms by (auto simp: hash_linked_def)
  obtain prev kvs where add: "hash_add m k v = Inr (map_of (hm_map m) k \<noteq> None,
      m\<lparr>hm_first_id := (if hm_first_id m = None then Some k else hm_first_id m),
        hm_last_id := Some k, hm_history := history_add (hm_history m) k,
        hm_map := AList.update k \<lparr>si_testcase = v, si_prev = prev, si_next = None\<rparr> kvs\<rparr>)"
      (is "_ = Inr (_, ?m')")
    and prev: "prev = hm_last_id m" and kvs: "distinct (map fst kvs)"
      "\<forall>j. map_of kvs j = (if hm_last_id m = Some j
      then map_option (\<lambda>it. it\<lparr>si_next := Some k\<rparr>) (map_of (hm_map m) j) else map_of (hm_map m) j)"
    by (rule hash_add_eq [OF wf, of k v])
  have last: "hm_last_id m = (if ids = [] then None else Some (ids ! (length ids - 1)))"
    using assms(1) by (simp add: hash_linked_def last_conv_nth)
  have dist: "distinct ids" using assms(1) by (simp add: hash_linked_def)
  have "\<exists>it. map_of (hm_map ?m') ((ids @ [k]) ! i) = Some it \<and>
        si_prev it = (if i = 0 then None else Some ((ids @ [k]) ! (i - 1))) \<and>
        si_next it = (if Suc i < length (ids @ [k]) then Some ((ids @ [k]) ! Suc i) else None)"
    if i: "i < length (ids @ [k])" for i
  proof (cases "i < length ids")
    case True
    then obtain it where it: "map_of (hm_map m) (ids ! i) = Some it"
      "si_prev it = (if i = 0 then None else Some (ids ! (i - 1)))"
      "si_next it = (if Suc i < length ids then Some (ids ! Suc i) else None)"
      using assms(1) by (auto simp: hash_linked_def)
    have ik: "ids ! i \<noteq> k" using True assms(2) by auto
    have lasti: "hm_last_id m = Some (ids ! i) \<longleftrightarrow> Suc i = length ids"
      using True dist by (auto simp: last nth_eq_iff_index_eq)
    show ?thesis
      using True it ik lasti by (auto simp: nth_append update_conv kvs(2) [rule_format])
  next
    case False
    with i have "i = length ids" by simp
    then show ?thesis by (auto simp: update_conv prev last nth_append)
  qed
  moreover have "hash_wf ?m'" using hash_add_wf [OF wf add] by simp
  moreover have "dom (map_of (hm_map ?m')) = set (ids @ [k])"
  proof -
    have "dom (map_of kvs) = dom (map_of (hm_map m))" by (auto simp: kvs(2) [rule_format] split: if_splits)
    then show ?thesis using assms(1) by (simp add: update_conv' hash_linked_def)
  qed
  moreover have "hm_first_id ?m' = Some (hd (ids @ [k]))"
    using assms(1) by (auto simp: hash_linked_def)
  ultimately have "hash_linked ?m' (ids @ [k])"
    using dist assms(2) unfolding hash_linked_def by simp
  with add fresh show thesis by (intro that [of ?m']) simp_all
qed

text \<open>Adding all of a list, one after the other.\<close>

fun hash_add_all :: "'a hash_corpus_map \<Rightarrow> (u64 \<times> 'a) list \<Rightarrow> error + 'a hash_corpus_map" where
  "hash_add_all m [] = Inr m"
| "hash_add_all m ((k, v) # kvs) = rbind (hash_add m k v) (\<lambda>(_, m). hash_add_all m kvs)"

lemma hash_add_all_linked:
  assumes "hash_linked m ids" "distinct (ids @ map fst kvs)"
  obtains m' where "hash_add_all m kvs = Inr m'" "hash_linked m' (ids @ map fst kvs)"
  using assms
proof (induction kvs arbitrary: m ids thesis)
  case (Cons kv kvs)
  obtain k v where kv: "kv = (k, v)" by force
  obtain m1 where m1: "hash_add m k v = Inr (False, m1)" "hash_linked m1 (ids @ [k])"
    using hash_linked_add [OF Cons.prems(2), of k v] Cons.prems(3) kv by auto
  obtain m' where "hash_add_all m1 kvs = Inr m'" "hash_linked m' ((ids @ [k]) @ map fst kvs)"
    by (rule Cons.IH [OF _ m1(2)]) (use Cons.prems(3) kv in auto)
  with m1 kv show ?case by (intro Cons.prems(1) [of m']) auto
qed simp

section \<open>The properties\<close>

text \<open>
  C28. The B-tree map is a finite map that keeps its history: adding reports whether the identifier
  was known and stores the test case under it, removing hands back what was stored and forgets it,
  neither touches the other identifiers, neither fails, and the history always lists the identifiers
  in ascending order.
\<close>

theorem btree_map_is_a_map:
  assumes "btree_wf m"
  shows "(\<exists>m'. btree_add m k v = Inr (btree_get m k \<noteq> None, m') \<and> btree_wf m' \<and>
      (\<forall>j. btree_get m' j = (if j = k then Some v else btree_get m j))) \<and>
    (\<exists>m'. btree_remove m k = Inr (btree_get m k, m') \<and> btree_wf m' \<and>
      (\<forall>j. btree_get m' j = (if j = k then None else btree_get m j))) \<and>
    btree_count m = card {j. btree_get m j \<noteq> None} \<and>
    (\<forall>n < btree_count m. btree_nth m n = Inr (map fst (bt_map m) ! n))"
proof -
  obtain m1 where "btree_add m k v = Inr (map_of (bt_map m) k \<noteq> None, m1)" "btree_wf m1"
    "map_of (bt_map m1) = (map_of (bt_map m))(k \<mapsto> v)"
    by (rule btree.addE [OF assms])
  moreover obtain m2 where "btree_remove m k = Inr (map_of (bt_map m) k, m2)" "btree_wf m2"
    "map_of (bt_map m2) = (map_of (bt_map m))(k := None)"
    by (rule btree.removeE [OF assms])
  moreover have "btree_count m = card {j. btree_get m j \<noteq> None}"
    using btree.count [OF assms] by (simp add: dom_def btree_get_def)
  moreover have "\<forall>n < btree_count m. btree_nth m n = Inr (map fst (bt_map m) ! n)"
    using assms by (simp add: btree_nth_def history_nth_def btree_wf_def btree_count_def)
  ultimately show ?thesis by (simp add: btree_get_def)
qed

theorem btree_map_is_a_map_witness:
  "\<exists>m'. btree_add \<lparr>bt_map = [(2, False), (5, True)], bt_history = [2, 5]\<rparr> 3 True = Inr (False, m') \<and>
    btree_get m' 3 = Some True \<and> btree_get m' 5 = Some True \<and> btree_get m' 4 = None"
proof -
  have "btree_wf \<lparr>bt_map = [(2, False), (5, True)], bt_history = [2, 5]\<rparr>"
    by (simp add: btree_wf_def ascending_def)
  from btree_map_is_a_map [OF this, of 3 True] show ?thesis by (auto simp: btree_get_def)
qed



text \<open>
  The hash map does not survive the removal of its last entry: \<open>last_id\<close> still names it, and
  the next addition unwraps the entry that is gone.
\<close>

theorem hash_map_add_after_remove_panics:
  "rbind (hash_add hash_empty k v) (\<lambda>(_, m). rbind (hash_remove m k) (\<lambda>(_, m). hash_add m k' v'))
    = Inl Panic"
  by (simp add: hash_add_def hash_remove_def hash_empty_def update_item_def)

text \<open>
  The order of the B-tree map is the order of the hashes and not, as the trait documents, the
  order of insertion: whatever was added first, the first entry is the smallest identifier.
\<close>

theorem btree_first_is_smallest:
  assumes "btree_wf m" "bt_map m \<noteq> []"
  shows "btree_first m = Some (Min (set (map fst (bt_map m)))) \<and>
    btree_last m = Some (Max (set (map fst (bt_map m))))"
proof -
  have asc: "ascending (map fst (bt_map m))" using assms(1) by (simp add: btree_wf_def)
  obtain k v kvs where kv: "bt_map m = (k, v) # kvs" using assms(2) by (cases "bt_map m") auto
  obtain k' v' kvs' where kv': "bt_map m = kvs' @ [(k', v')]"
    using assms(2) by (cases "bt_map m" rule: rev_cases) auto
  have "Min (set (map fst (bt_map m))) = k"
    using asc by (intro Min_eqI) (auto simp: kv ascending_def less_imp_le)
  moreover have "Max (set (map fst (bt_map m))) = k'"
    using asc by (intro Max_eqI) (auto simp: kv' ascending_def sorted_wrt_append less_imp_le)
  moreover have "btree_first m = Some k" by (simp add: btree_first_def kv)
  moreover have "btree_last m = Some k'" by (simp add: btree_last_def kv')
  ultimately show ?thesis by simp
qed

theorem btree_first_is_smallest_witness:
  "btree_first \<lparr>bt_map = [(4, False), (9, True)], bt_history = [4, 9]\<rparr>
      = Some (Min (set (map fst [(4 :: u64, False), (9, True)]))) \<and>
    btree_last \<lparr>bt_map = [(4, False), (9, True)], bt_history = [4, 9]\<rparr>
      = Some (Max (set (map fst [(4 :: u64, False), (9, True)])))"
  using btree_first_is_smallest [of "\<lparr>bt_map = [(4, False), (9, True)], bt_history = [4, 9]\<rparr>"]
  by (simp add: btree_wf_def ascending_def)

end
