(* ===== verification/Stores.thy ===== *)
theory Stores
  imports CorpusMaps
begin

text \<open>
  Test cases and the stores of \<^verbatim>\<open>libaflmm/src/corpus/store\<close>: in memory and on disk.
  The traits \<open>InMemoryCorpusMap\<close> and \<open>Store\<close> are records of operations that the models take
  as arguments, the way the generic code takes its type parameters. An operation on \<open>&mut self\<close>
  returns its result and the new state.

  The hash that names an input and the two conversions between an input and the contents of a file
  come from outside (the hasher and the type of the inputs) and are parameters. A directory is the
  map from the identifiers, which name the files, to their contents.

  The contracts: \<open>append_store\<close> for a store that is added to and read, \<open>store\<close> for one that
  disables entries as well, \<open>removable_store\<close> for one that forgets them.
\<close>

section \<open>Test cases\<close>

record 'i testcase =
  tc_input :: 'i
  tc_id :: u64

definition testcase_new :: "('i \<Rightarrow> u64) \<Rightarrow> 'i \<Rightarrow> 'i testcase" where
  "testcase_new hash input = \<lparr>tc_input = input, tc_id = hash input\<rparr>"

datatype storage_result = Stored u64 | Duplicate u64

fun into_testcase_id :: "storage_result \<Rightarrow> u64" where
  "into_testcase_id (Stored tid) = tid"
| "into_testcase_id (Duplicate tid) = tid"

section \<open>The traits\<close>

record ('m, 't) map_ops =
  mo_empty :: 'm
  mo_count :: "'m \<Rightarrow> nat"
  mo_add :: "'m \<Rightarrow> u64 \<Rightarrow> 't \<Rightarrow> error + bool \<times> 'm"
  mo_get :: "'m \<Rightarrow> u64 \<Rightarrow> 't option"
  mo_remove :: "'m \<Rightarrow> u64 \<Rightarrow> error + 't option \<times> 'm"

definition btree_ops :: "('t btree_corpus_map, 't) map_ops" where
  "btree_ops = \<lparr>mo_empty = btree_empty, mo_count = btree_count, mo_add = btree_add,
     mo_get = btree_get, mo_remove = btree_remove\<rparr>"

definition hash_ops :: "('t hash_corpus_map, 't) map_ops" where
  "hash_ops = \<lparr>mo_empty = hash_empty, mo_count = hash_count, mo_add = hash_add,
     mo_get = hash_get, mo_remove = hash_remove\<rparr>"

record ('s, 'i) store_ops =
  st_count :: "'s \<Rightarrow> nat"
  st_count_disabled :: "'s \<Rightarrow> nat"
  st_add_shared :: "bool \<Rightarrow> 'i testcase \<Rightarrow> 's \<Rightarrow> (error + storage_result) \<times> 's"
  st_get_from :: "bool \<Rightarrow> 's \<Rightarrow> u64 \<Rightarrow> error + 'i testcase"
  st_disable :: "u64 \<Rightarrow> 's \<Rightarrow> (error + unit) \<times> 's"

text \<open>The provided methods of the trait \<open>Store\<close>.\<close>

definition store_count_all :: "('s, 'i) store_ops \<Rightarrow> 's \<Rightarrow> nat" where
  "store_count_all ops s = min usize_max (st_count ops s + st_count_disabled ops s)"

definition store_is_empty :: "('s, 'i) store_ops \<Rightarrow> 's \<Rightarrow> bool" where
  "store_is_empty ops s \<longleftrightarrow> st_count ops s = 0"

definition store_get :: "('s, 'i) store_ops \<Rightarrow> 's \<Rightarrow> u64 \<Rightarrow> error + 'i testcase" where
  "store_get ops s tid = st_get_from ops True s tid"

definition store_get_from_all :: "('s, 'i) store_ops \<Rightarrow> 's \<Rightarrow> u64 \<Rightarrow> error + 'i testcase" where
  "store_get_from_all ops s tid = st_get_from ops False s tid"

section \<open>The in-memory store\<close>

record 'm in_memory_store =
  im_enabled_map :: 'm
  im_disabled_map :: 'm

definition inmem_new :: "('m, 't) map_ops \<Rightarrow> 'm in_memory_store" where
  "inmem_new ops = \<lparr>im_enabled_map = mo_empty ops, im_disabled_map = mo_empty ops\<rparr>"

definition inmem_add_shared ::
  "('m, 'i testcase) map_ops \<Rightarrow> bool \<Rightarrow> 'i testcase \<Rightarrow> 'm in_memory_store
    \<Rightarrow> (error + storage_result) \<times> 'm in_memory_store" where
  "inmem_add_shared ops enabled testcase s =
     (let testcase_id = tc_id testcase;
          added = (if enabled
            then rbind (mo_add ops (im_enabled_map s) testcase_id testcase)
                   (\<lambda>(b, m). Inr (b, s\<lparr>im_enabled_map := m\<rparr>))
            else rbind (mo_add ops (im_disabled_map s) testcase_id testcase)
                   (\<lambda>(b, m). Inr (b, s\<lparr>im_disabled_map := m\<rparr>)))
      in case added of
           Inl e \<Rightarrow> (Inl e, s)
         | Inr (already_stored, s') \<Rightarrow>
             (Inr (if already_stored then Duplicate testcase_id else Stored testcase_id), s'))"

definition inmem_get_from ::
  "('m, 'i testcase) map_ops \<Rightarrow> bool \<Rightarrow> 'm in_memory_store \<Rightarrow> u64 \<Rightarrow> error + 'i testcase" where
  "inmem_get_from ops enabled s tid =
     (let testcase = mo_get ops (im_enabled_map s) tid;
          testcase = (if enabled then testcase
            else if testcase = None then mo_get ops (im_disabled_map s) tid else testcase)
      in case testcase of None \<Rightarrow> Inl KeyNotFound | Some tc \<Rightarrow> Inr tc)"

definition inmem_disable ::
  "('m, 'i testcase) map_ops \<Rightarrow> u64 \<Rightarrow> 'm in_memory_store \<Rightarrow> (error + unit) \<times> 'm in_memory_store" where
  "inmem_disable ops tid s =
     (case mo_remove ops (im_enabled_map s) tid of
        Inl e \<Rightarrow> (Inl e, s)
      | Inr (None, m) \<Rightarrow> (Inl KeyNotFound, s\<lparr>im_enabled_map := m\<rparr>)
      | Inr (Some tc, m) \<Rightarrow>
          (case mo_add ops (im_disabled_map s) tid tc of
             Inl e \<Rightarrow> (Inl e, s\<lparr>im_enabled_map := m\<rparr>)
           | Inr (_, m') \<Rightarrow> (Inr (), s\<lparr>im_enabled_map := m, im_disabled_map := m'\<rparr>)))"

definition inmem_remove ::
  "('m, 'i testcase) map_ops \<Rightarrow> u64 \<Rightarrow> 'm in_memory_store
    \<Rightarrow> (error + 'i testcase) \<times> 'm in_memory_store" where
  "inmem_remove ops tid s =
     (case mo_remove ops (im_enabled_map s) tid of
        Inl e \<Rightarrow> (Inl e, s)
      | Inr (Some tc, m) \<Rightarrow> (Inr tc, s\<lparr>im_enabled_map := m\<rparr>)
      | Inr (None, m) \<Rightarrow>
          let s = s\<lparr>im_enabled_map := m\<rparr>
          in case mo_remove ops (im_disabled_map s) tid of
               Inl e \<Rightarrow> (Inl e, s)
             | Inr (Some tc, m) \<Rightarrow> (Inr tc, s\<lparr>im_disabled_map := m\<rparr>)
             | Inr (None, m) \<Rightarrow> (Inl KeyNotFound, s\<lparr>im_disabled_map := m\<rparr>))"

definition inmem_ops :: "('m, 'i testcase) map_ops \<Rightarrow> ('m in_memory_store, 'i) store_ops" where
  "inmem_ops ops = \<lparr>st_count = (\<lambda>s. mo_count ops (im_enabled_map s)),
     st_count_disabled = (\<lambda>s. mo_count ops (im_disabled_map s)),
     st_add_shared = inmem_add_shared ops, st_get_from = inmem_get_from ops,
     st_disable = inmem_disable ops\<rparr>"

section \<open>The on-disk store\<close>

record ('m, 'f) on_disk_store =
  od_enabled_map :: 'm
  od_disabled_map :: 'm
  od_disk :: "u64 \<Rightarrow> 'f option"

definition ondisk_new :: "('m, 't) map_ops \<Rightarrow> (u64 \<Rightarrow> 'f option) \<Rightarrow> ('m, 'f) on_disk_store" where
  "ondisk_new ops disk =
     \<lparr>od_enabled_map = mo_empty ops, od_disabled_map = mo_empty ops, od_disk = disk\<rparr>"

definition save_testcase ::
  "('i \<Rightarrow> error + 'f) \<Rightarrow> 'i testcase \<Rightarrow> (u64 \<Rightarrow> 'f option) \<Rightarrow> (error + u64) \<times> (u64 \<Rightarrow> 'f option)" where
  "save_testcase to_file testcase disk =
     (case to_file (tc_input testcase) of
        Inl e \<Rightarrow> (Inl e, disk)
      | Inr file \<Rightarrow> (Inr (tc_id testcase), disk(tc_id testcase \<mapsto> file)))"

definition load_testcase ::
  "('i \<Rightarrow> u64) \<Rightarrow> ('f \<Rightarrow> error + 'i) \<Rightarrow> u64 \<Rightarrow> (u64 \<Rightarrow> 'f option) \<Rightarrow> error + 'i testcase" where
  "load_testcase hash from_file testcase_id disk =
     (case disk testcase_id of
        None \<Rightarrow> Inl OsError
      | Some file \<Rightarrow> rbind (from_file file) (\<lambda>input. Inr (testcase_new hash input)))"

definition ondisk_add_shared ::
  "('i \<Rightarrow> error + 'f) \<Rightarrow> ('m, u64) map_ops \<Rightarrow> bool \<Rightarrow> 'i testcase \<Rightarrow> ('m, 'f) on_disk_store
    \<Rightarrow> (error + storage_result) \<times> ('m, 'f) on_disk_store" where
  "ondisk_add_shared to_file ops enabled testcase s =
     (let testcase_id = tc_id testcase;
          added = (if enabled
            then rbind (mo_add ops (od_enabled_map s) testcase_id testcase_id)
                   (\<lambda>(b, m). Inr (b, s\<lparr>od_enabled_map := m\<rparr>))
            else rbind (mo_add ops (od_disabled_map s) testcase_id testcase_id)
                   (\<lambda>(b, m). Inr (b, s\<lparr>od_disabled_map := m\<rparr>)))
      in case added of
           Inl e \<Rightarrow> (Inl e, s)
         | Inr (is_present, s') \<Rightarrow>
             if is_present then (Inr (Duplicate testcase_id), s')
             else (case save_testcase to_file testcase (od_disk s') of
                     (Inl e, disk) \<Rightarrow> (Inl e, s'\<lparr>od_disk := disk\<rparr>)
                   | (Inr _, disk) \<Rightarrow> (Inr (Stored testcase_id), s'\<lparr>od_disk := disk\<rparr>)))"

definition ondisk_get_from ::
  "('i \<Rightarrow> u64) \<Rightarrow> ('f \<Rightarrow> error + 'i) \<Rightarrow> ('m, u64) map_ops \<Rightarrow> bool \<Rightarrow> ('m, 'f) on_disk_store \<Rightarrow> u64
    \<Rightarrow> error + 'i testcase" where
  "ondisk_get_from hash from_file ops enabled s tid =
     (let found = (case mo_get ops (od_enabled_map s) tid of
            Some stored_id \<Rightarrow> Some stored_id
          | None \<Rightarrow> if enabled then None else mo_get ops (od_disabled_map s) tid)
      in case found of
           None \<Rightarrow> Inl KeyNotFound
         | Some stored_id \<Rightarrow> load_testcase hash from_file stored_id (od_disk s))"

definition ondisk_disable ::
  "('m, u64) map_ops \<Rightarrow> u64 \<Rightarrow> ('m, 'f) on_disk_store \<Rightarrow> (error + unit) \<times> ('m, 'f) on_disk_store" where
  "ondisk_disable ops tid s =
     (case mo_remove ops (od_enabled_map s) tid of
        Inl e \<Rightarrow> (Inl e, s)
      | Inr (None, m) \<Rightarrow> (Inl KeyNotFound, s\<lparr>od_enabled_map := m\<rparr>)
      | Inr (Some tc, m) \<Rightarrow>
          (case mo_add ops (od_disabled_map s) tid tc of
             Inl e \<Rightarrow> (Inl e, s\<lparr>od_enabled_map := m\<rparr>)
           | Inr (_, m') \<Rightarrow> (Inr (), s\<lparr>od_enabled_map := m, od_disabled_map := m'\<rparr>)))"

definition ondisk_ops ::
  "('i \<Rightarrow> u64) \<Rightarrow> ('i \<Rightarrow> error + 'f) \<Rightarrow> ('f \<Rightarrow> error + 'i) \<Rightarrow> ('m, u64) map_ops
    \<Rightarrow> (('m, 'f) on_disk_store, 'i) store_ops" where
  "ondisk_ops hash to_file from_file ops =
     \<lparr>st_count = (\<lambda>s. mo_count ops (od_enabled_map s)),
      st_count_disabled = (\<lambda>s. mo_count ops (od_disabled_map s)),
      st_add_shared = ondisk_add_shared to_file ops,
      st_get_from = ondisk_get_from hash from_file ops,
      st_disable = ondisk_disable ops\<rparr>"

section \<open>The contracts\<close>

text \<open>
  What a store promises, over the maps of its enabled and its disabled test cases. \<open>named\<close> holds
  of the test cases that carry the hash of their input; two of them never share an identifier when
  the hash has no collision among the inputs in use.
\<close>

definition found :: "'t option \<Rightarrow> error + 't" where
  "found x = (case x of None \<Rightarrow> Inl KeyNotFound | Some tc \<Rightarrow> Inr tc)"

lemma found_simps [simp]: "found None = Inl KeyNotFound" "found (Some tc) = Inr tc"
  by (simp_all add: found_def)

locale append_store =
  fixes wf :: "'s \<Rightarrow> bool"
    and enabled disabled :: "'s \<Rightarrow> u64 \<Rightarrow> 'i testcase option"
    and storable :: "'s \<Rightarrow> 'i testcase \<Rightarrow> bool"
    and ops :: "('s, 'i) store_ops"
  assumes add_enabled: "wf s \<Longrightarrow> storable s tc \<Longrightarrow>
      \<exists>s'. st_add_shared ops True tc s =
          (Inr (if enabled s (tc_id tc) = None then Stored (tc_id tc) else Duplicate (tc_id tc)), s') \<and>
        wf s' \<and> enabled s' = (enabled s)(tc_id tc \<mapsto> tc) \<and> disabled s' = disabled s"
    and add_disabled: "wf s \<Longrightarrow> storable s tc \<Longrightarrow>
      \<exists>s'. st_add_shared ops False tc s =
          (Inr (if disabled s (tc_id tc) = None then Stored (tc_id tc) else Duplicate (tc_id tc)), s') \<and>
        wf s' \<and> enabled s' = enabled s \<and> disabled s' = (disabled s)(tc_id tc \<mapsto> tc)"
    and get_enabled: "wf s \<Longrightarrow> st_get_from ops True s k = found (enabled s k)"
    and get_all: "wf s \<Longrightarrow> st_get_from ops False s k =
      found (case enabled s k of Some tc \<Rightarrow> Some tc | None \<Rightarrow> disabled s k)"
    and count: "wf s \<Longrightarrow> st_count ops s = card (dom (enabled s))"
      "wf s \<Longrightarrow> st_count_disabled ops s = card (dom (disabled s))"
    and entry_id: "wf s \<Longrightarrow> enabled s k = Some tc \<Longrightarrow> tc_id tc = k"
      "wf s \<Longrightarrow> disabled s k = Some tc \<Longrightarrow> tc_id tc = k"
begin

lemma get_after_add:
  assumes "wf s" "storable s tc" "st_add_shared ops True tc s = (res, s')"
  shows "st_get_from ops True s' (tc_id tc) = Inr tc" "st_get_from ops False s' (tc_id tc) = Inr tc"
  using add_enabled [OF assms(1,2)] assms(3) get_enabled [of s'] get_all [of s'] by auto

end

locale store = append_store +
  assumes disable_absent: "wf s \<Longrightarrow> enabled s k = None \<Longrightarrow>
      \<exists>s'. st_disable ops k s = (Inl KeyNotFound, s') \<and> wf s' \<and>
        enabled s' = enabled s \<and> disabled s' = disabled s"
    and disable_present: "wf s \<Longrightarrow> enabled s k = Some tc \<Longrightarrow>
      \<exists>s'. st_disable ops k s = (Inr (), s') \<and> wf s' \<and>
        enabled s' = (enabled s)(k := None) \<and> disabled s' = (disabled s)(k \<mapsto> tc)"
begin

text \<open>Disabling hides a test case from \<open>get\<close> and not from \<open>get_from_all\<close>.\<close>

lemma get_after_disable:
  assumes "wf s" "enabled s k = Some tc" "st_disable ops k s = (res, s')"
  shows "st_get_from ops True s' k = Inl KeyNotFound" "st_get_from ops False s' k = Inr tc"
  using disable_present [OF assms(1,2)] assms(3) get_enabled [of s' k] get_all [of s' k] by auto

end

locale removable_store = store wf enabled disabled storable ops
  for wf :: "'s \<Rightarrow> bool" and enabled disabled :: "'s \<Rightarrow> u64 \<Rightarrow> 'i testcase option"
    and storable :: "'s \<Rightarrow> 'i testcase \<Rightarrow> bool" and ops :: "('s, 'i) store_ops" +
  fixes remove :: "u64 \<Rightarrow> 's \<Rightarrow> (error + 'i testcase) \<times> 's"
  assumes remove_enabled: "wf s \<Longrightarrow> enabled s k = Some tc \<Longrightarrow>
      \<exists>s'. remove k s = (Inr tc, s') \<and> wf s' \<and> enabled s' = (enabled s)(k := None) \<and>
        disabled s' = disabled s"

section \<open>The in-memory store meets the contracts\<close>

text \<open>Over a map that is only added to, and over one that is removed from.\<close>

definition inmem_wf :: "('m \<Rightarrow> bool) \<Rightarrow> ('m \<Rightarrow> u64 \<Rightarrow> 'i testcase option) \<Rightarrow> 'm in_memory_store \<Rightarrow> bool" where
  "inmem_wf mwf entries s \<longleftrightarrow> mwf (im_enabled_map s) \<and> mwf (im_disabled_map s) \<and>
     (\<forall>k tc. entries (im_enabled_map s) k = Some tc \<longrightarrow> tc_id tc = k) \<and>
     (\<forall>k tc. entries (im_disabled_map s) k = Some tc \<longrightarrow> tc_id tc = k)"

lemma inmem_append_store:
  assumes "append_map mwf entries (mo_empty mops) (mo_count mops) (mo_add mops) (mo_get mops)"
  shows "append_store (inmem_wf mwf entries) (\<lambda>s. entries (im_enabled_map s))
    (\<lambda>s. entries (im_disabled_map s)) (\<lambda>_ _. True) (inmem_ops mops)"
proof
  fix s and tc :: "'b testcase"
  assume s: "inmem_wf mwf entries s"
  then have wf: "mwf (im_enabled_map s)" "mwf (im_disabled_map s)" by (simp_all add: inmem_wf_def)
  obtain m1 where "mo_add mops (im_enabled_map s) (tc_id tc) tc
      = Inr (entries (im_enabled_map s) (tc_id tc) \<noteq> None, m1)" "mwf m1"
    "entries m1 = (entries (im_enabled_map s))(tc_id tc \<mapsto> tc)"
    by (rule append_map.addE [OF assms wf(1)])
  with s show "\<exists>s'. st_add_shared (inmem_ops mops) True tc s =
      (Inr (if entries (im_enabled_map s) (tc_id tc) = None then Stored (tc_id tc)
        else Duplicate (tc_id tc)), s') \<and> inmem_wf mwf entries s' \<and>
      entries (im_enabled_map s') = (entries (im_enabled_map s))(tc_id tc \<mapsto> tc) \<and>
      entries (im_disabled_map s') = entries (im_disabled_map s)"
    by (auto simp: inmem_ops_def inmem_add_shared_def inmem_wf_def Let_def)
  obtain m2 where "mo_add mops (im_disabled_map s) (tc_id tc) tc
      = Inr (entries (im_disabled_map s) (tc_id tc) \<noteq> None, m2)" "mwf m2"
    "entries m2 = (entries (im_disabled_map s))(tc_id tc \<mapsto> tc)"
    by (rule append_map.addE [OF assms wf(2)])
  with s show "\<exists>s'. st_add_shared (inmem_ops mops) False tc s =
      (Inr (if entries (im_disabled_map s) (tc_id tc) = None then Stored (tc_id tc)
        else Duplicate (tc_id tc)), s') \<and> inmem_wf mwf entries s' \<and>
      entries (im_enabled_map s') = entries (im_enabled_map s) \<and>
      entries (im_disabled_map s') = (entries (im_disabled_map s))(tc_id tc \<mapsto> tc)"
    by (auto simp: inmem_ops_def inmem_add_shared_def inmem_wf_def Let_def)
next
  fix s :: "'a in_memory_store" and k
  assume "inmem_wf mwf entries s"
  then have wf: "mwf (im_enabled_map s)" "mwf (im_disabled_map s)" by (simp_all add: inmem_wf_def)
  note get = append_map.get [OF assms wf(1)] append_map.get [OF assms wf(2)]
  show "st_get_from (inmem_ops mops) True s k = found (entries (im_enabled_map s) k)"
    by (simp add: inmem_ops_def inmem_get_from_def get found_def Let_def)
  show "st_get_from (inmem_ops mops) False s k =
      found (case entries (im_enabled_map s) k of Some tc \<Rightarrow> Some tc
        | None \<Rightarrow> entries (im_disabled_map s) k)"
    by (auto simp: inmem_ops_def inmem_get_from_def get found_def Let_def split: option.splits)
next
  fix s :: "'a in_memory_store"
  assume "inmem_wf mwf entries s"
  then have wf: "mwf (im_enabled_map s)" "mwf (im_disabled_map s)" by (simp_all add: inmem_wf_def)
  show "st_count (inmem_ops mops) s = card (dom (entries (im_enabled_map s)))"
    "st_count_disabled (inmem_ops mops) s = card (dom (entries (im_disabled_map s)))"
    using append_map.count [OF assms wf(1)] append_map.count [OF assms wf(2)]
    by (simp_all add: inmem_ops_def)
qed (auto simp: inmem_wf_def)

interpretation inmem_hash: append_store "inmem_wf hash_wf hash_entries"
  "\<lambda>s. hash_entries (im_enabled_map s)" "\<lambda>s. hash_entries (im_disabled_map s)"
  "\<lambda>_ _. True" "inmem_ops hash_ops"
  by (rule inmem_append_store) (simp add: hash_ops_def hash.append_map_axioms)

lemma inmem_removable_store:
  assumes "corpus_map mwf entries (mo_empty mops) (mo_count mops) (mo_add mops) (mo_get mops)
    (mo_remove mops)"
  shows "removable_store (inmem_wf mwf entries) (\<lambda>s. entries (im_enabled_map s))
    (\<lambda>s. entries (im_disabled_map s)) (\<lambda>_ _. True) (inmem_ops mops) (inmem_remove mops)"
proof (intro removable_store.intro store.intro removable_store_axioms.intro store_axioms.intro)
  show "append_store (inmem_wf mwf entries) (\<lambda>s. entries (im_enabled_map s))
    (\<lambda>s. entries (im_disabled_map s)) (\<lambda>_ _. True) (inmem_ops mops)"
    using assms by (intro inmem_append_store) (simp add: corpus_map_def)
next
  fix s :: "'a in_memory_store" and k
  assume s: "inmem_wf mwf entries s" and none: "entries (im_enabled_map s) k = None"
  have "mo_remove mops (im_enabled_map s) k = Inr (None, im_enabled_map s)"
    using corpus_map.remove_absent [OF assms _ none] s by (simp add: inmem_wf_def)
  with s show "\<exists>s'. st_disable (inmem_ops mops) k s = (Inl KeyNotFound, s') \<and>
      inmem_wf mwf entries s' \<and> entries (im_enabled_map s') = entries (im_enabled_map s) \<and>
      entries (im_disabled_map s') = entries (im_disabled_map s)"
    by (simp add: inmem_ops_def inmem_disable_def)
next
  fix s :: "'a in_memory_store" and k and tc :: "'b testcase"
  assume s: "inmem_wf mwf entries s" and tc: "entries (im_enabled_map s) k = Some tc"
  then have wf: "mwf (im_enabled_map s)" "mwf (im_disabled_map s)" by (simp_all add: inmem_wf_def)
  obtain m where m: "mo_remove mops (im_enabled_map s) k = Inr (Some tc, m)" "mwf m"
    "entries m = (entries (im_enabled_map s))(k := None)"
    using corpus_map.remove_present [OF assms wf(1) tc] by blast
  obtain m' where m': "mo_add mops (im_disabled_map s) k tc
      = Inr (entries (im_disabled_map s) k \<noteq> None, m')" "mwf m'"
    "entries m' = (entries (im_disabled_map s))(k \<mapsto> tc)"
    using append_map.addE [OF corpus_map.axioms(1) [OF assms] wf(2), of k tc] by blast
  from s m m' tc show "\<exists>s'. st_disable (inmem_ops mops) k s = (Inr (), s') \<and>
      inmem_wf mwf entries s' \<and> entries (im_enabled_map s') = (entries (im_enabled_map s))(k := None) \<and>
      entries (im_disabled_map s') = (entries (im_disabled_map s))(k \<mapsto> tc)"
    by (auto simp: inmem_ops_def inmem_disable_def inmem_wf_def)
  from s m show "\<exists>s'. inmem_remove mops k s = (Inr tc, s') \<and> inmem_wf mwf entries s' \<and>
      entries (im_enabled_map s') = (entries (im_enabled_map s))(k := None) \<and>
      entries (im_disabled_map s') = entries (im_disabled_map s)"
    by (auto simp: inmem_remove_def inmem_wf_def)
qed

interpretation inmem_btree: removable_store "inmem_wf btree_wf (\<lambda>m. map_of (bt_map m))"
  "\<lambda>s. map_of (bt_map (im_enabled_map s))" "\<lambda>s. map_of (bt_map (im_disabled_map s))"
  "\<lambda>_ _. True" "inmem_ops btree_ops" "inmem_remove btree_ops"
  by (rule inmem_removable_store) (simp add: btree_ops_def btree.corpus_map_axioms)

section \<open>The on-disk store meets the contract\<close>

text \<open>
  The entries of the store are the test cases the files hold. What is stored must be readable again
  and carry the hash of its input, and a test case stored under the same identifier before must be
  the same one: then a file that is already there need not be written.
\<close>

definition on_disk_entry ::
  "('i \<Rightarrow> u64) \<Rightarrow> ('f \<Rightarrow> error + 'i) \<Rightarrow> (u64 \<Rightarrow> 'f option) \<Rightarrow> u64 option \<Rightarrow> 'i testcase option" where
  "on_disk_entry hash from_file disk x =
     (case x of None \<Rightarrow> None
      | Some k \<Rightarrow> (case load_testcase hash from_file k disk of Inl _ \<Rightarrow> None | Inr tc \<Rightarrow> Some tc))"

definition ondisk_wf ::
  "('i \<Rightarrow> u64) \<Rightarrow> ('f \<Rightarrow> error + 'i) \<Rightarrow> ('m \<Rightarrow> bool) \<Rightarrow> ('m \<Rightarrow> u64 \<Rightarrow> u64 option)
    \<Rightarrow> ('m, 'f) on_disk_store \<Rightarrow> bool" where
  "ondisk_wf hash from_file mwf entries s \<longleftrightarrow> mwf (od_enabled_map s) \<and> mwf (od_disabled_map s) \<and>
     (\<forall>k x. entries (od_enabled_map s) k = Some x \<or> entries (od_disabled_map s) k = Some x \<longrightarrow>
        x = k \<and> (\<exists>tc. load_testcase hash from_file k (od_disk s) = Inr tc \<and> tc_id tc = k))"

definition ondisk_storable ::
  "('i \<Rightarrow> u64) \<Rightarrow> ('i \<Rightarrow> error + 'f) \<Rightarrow> ('f \<Rightarrow> error + 'i) \<Rightarrow> ('m \<Rightarrow> u64 \<Rightarrow> u64 option)
    \<Rightarrow> ('m, 'f) on_disk_store \<Rightarrow> 'i testcase \<Rightarrow> bool" where
  "ondisk_storable hash to_file from_file entries s tc \<longleftrightarrow>
     tc_id tc = hash (tc_input tc) \<and>
     (\<exists>file. to_file (tc_input tc) = Inr file \<and> from_file file = Inr (tc_input tc)) \<and>
     (entries (od_enabled_map s) (tc_id tc) \<noteq> None \<or> entries (od_disabled_map s) (tc_id tc) \<noteq> None \<longrightarrow>
        load_testcase hash from_file (tc_id tc) (od_disk s) = Inr tc)"

lemma load_after_save:
  assumes "tc_id tc = hash (tc_input tc)" "from_file file = Inr (tc_input tc)"
  shows "load_testcase hash from_file k (disk(tc_id tc \<mapsto> file)) =
    (if k = tc_id tc then Inr tc else load_testcase hash from_file k disk)"
  using assms by (cases tc) (simp add: load_testcase_def testcase_new_def)

lemma ondisk_append_store:
  assumes "append_map mwf entries (mo_empty mops) (mo_count mops) (mo_add mops) (mo_get mops)"
  shows "append_store (ondisk_wf hash from_file mwf entries)
    (\<lambda>s k. on_disk_entry hash from_file (od_disk s) (entries (od_enabled_map s) k))
    (\<lambda>s k. on_disk_entry hash from_file (od_disk s) (entries (od_disabled_map s) k))
    (ondisk_storable hash to_file from_file entries) (ondisk_ops hash to_file from_file mops)"
    (is "append_store ?wf ?en ?dis ?ok ?ops")
proof
  fix s tc
  assume s: "?wf s" and ok: "?ok s tc"
  then have wf: "mwf (od_enabled_map s)" "mwf (od_disabled_map s)" by (simp_all add: ondisk_wf_def)
  from ok obtain content where io: "tc_id tc = hash (tc_input tc)" "to_file (tc_input tc) = Inr content"
    "from_file content = Inr (tc_input tc)" by (auto simp: ondisk_storable_def)
  note load = load_after_save [of tc hash from_file content, OF io(1,3)]
  let ?k = "tc_id tc"
  have entry: "\<And>k x. entries (od_enabled_map s) k = Some x \<or> entries (od_disabled_map s) k = Some x \<Longrightarrow>
      x = k \<and> (\<exists>tc. load_testcase hash from_file k (od_disk s) = Inr tc \<and> tc_id tc = k)"
    using s unfolding ondisk_wf_def by blast
  have known: "entries (od_enabled_map s) ?k \<noteq> None \<or> entries (od_disabled_map s) ?k \<noteq> None \<Longrightarrow>
      load_testcase hash from_file ?k (od_disk s) = Inr tc"
    using ok unfolding ondisk_storable_def by blast
  have same: "on_disk_entry hash from_file ((od_disk s)(?k \<mapsto> content)) (entries m j)
      = on_disk_entry hash from_file (od_disk s) (entries m j)"
    if "m = od_enabled_map s \<or> m = od_disabled_map s" for m j
  proof (cases "entries m j")
    case (Some x)
    with that entry [of j x] have "x = j" by auto
    with that Some known show ?thesis by (auto simp: on_disk_entry_def load)
  qed (simp add: on_disk_entry_def)
  have new: "on_disk_entry hash from_file ((od_disk s)(?k \<mapsto> content)) (Some ?k) = Some tc"
    by (simp add: on_disk_entry_def load)
  obtain m1 where m1: "mo_add mops (od_enabled_map s) ?k ?k
      = Inr (entries (od_enabled_map s) ?k \<noteq> None, m1)" "mwf m1"
    "entries m1 = (entries (od_enabled_map s))(?k \<mapsto> ?k)"
    by (rule append_map.addE [OF assms wf(1)])
  show "\<exists>s'. st_add_shared ?ops True tc s =
      (Inr (if ?en s ?k = None then Stored ?k else Duplicate ?k), s') \<and> ?wf s' \<and>
      ?en s' = (?en s)(?k \<mapsto> tc) \<and> ?dis s' = ?dis s"
  proof (cases "entries (od_enabled_map s) ?k")
    case None
    let ?s = "s\<lparr>od_enabled_map := m1, od_disk := (od_disk s)(?k \<mapsto> content)\<rparr>"
    have "st_add_shared ?ops True tc s = (Inr (Stored ?k), ?s)"
      using None m1(1) io(2) by (simp add: ondisk_ops_def ondisk_add_shared_def save_testcase_def Let_def)
    moreover have "?wf ?s"
      using wf m1 entry by (auto simp: ondisk_wf_def load)
    moreover have "?en ?s = (?en s)(?k \<mapsto> tc)"
      by (auto simp: fun_eq_iff m1(3) same new)
    moreover have "?dis ?s = ?dis s"
      by (auto simp: fun_eq_iff same)
    ultimately show ?thesis using None by (intro exI [of _ ?s]) (simp add: on_disk_entry_def)
  next
    case (Some x)
    let ?s = "s\<lparr>od_enabled_map := m1\<rparr>"
    have "st_add_shared ?ops True tc s = (Inr (Duplicate ?k), ?s)"
      using Some m1(1) by (simp add: ondisk_ops_def ondisk_add_shared_def Let_def)
    moreover have x: "x = ?k" using entry [of ?k x] Some by auto
    moreover have old: "?en s ?k = Some tc" using Some known x by (simp add: on_disk_entry_def)
    moreover have "?en ?s = (?en s)(?k \<mapsto> tc)"
      using Some x old by (auto simp: fun_eq_iff m1(3))
    moreover have "?wf ?s"
      using wf m1 entry Some x by (auto simp: ondisk_wf_def)
    ultimately show ?thesis by (intro exI [of _ ?s]) simp
  qed
  obtain m2 where m2: "mo_add mops (od_disabled_map s) ?k ?k
      = Inr (entries (od_disabled_map s) ?k \<noteq> None, m2)" "mwf m2"
    "entries m2 = (entries (od_disabled_map s))(?k \<mapsto> ?k)"
    by (rule append_map.addE [OF assms wf(2)])
  show "\<exists>s'. st_add_shared ?ops False tc s =
      (Inr (if ?dis s ?k = None then Stored ?k else Duplicate ?k), s') \<and> ?wf s' \<and>
      ?en s' = ?en s \<and> ?dis s' = (?dis s)(?k \<mapsto> tc)"
  proof (cases "entries (od_disabled_map s) ?k")
    case None
    let ?s = "s\<lparr>od_disabled_map := m2, od_disk := (od_disk s)(?k \<mapsto> content)\<rparr>"
    have "st_add_shared ?ops False tc s = (Inr (Stored ?k), ?s)"
      using None m2(1) io(2) by (simp add: ondisk_ops_def ondisk_add_shared_def save_testcase_def Let_def)
    moreover have "?wf ?s"
      using wf m2 entry by (auto simp: ondisk_wf_def load)
    moreover have "?dis ?s = (?dis s)(?k \<mapsto> tc)"
      by (auto simp: fun_eq_iff m2(3) same new)
    moreover have "?en ?s = ?en s"
      by (auto simp: fun_eq_iff same)
    ultimately show ?thesis using None by (intro exI [of _ ?s]) (simp add: on_disk_entry_def)
  next
    case (Some x)
    let ?s = "s\<lparr>od_disabled_map := m2\<rparr>"
    have "st_add_shared ?ops False tc s = (Inr (Duplicate ?k), ?s)"
      using Some m2(1) by (simp add: ondisk_ops_def ondisk_add_shared_def Let_def)
    moreover have x: "x = ?k" using entry [of ?k x] Some by auto
    moreover have old: "?dis s ?k = Some tc" using Some known x by (simp add: on_disk_entry_def)
    moreover have "?dis ?s = (?dis s)(?k \<mapsto> tc)"
      using Some x old by (auto simp: fun_eq_iff m2(3))
    moreover have "?wf ?s"
      using wf m2 entry Some x by (auto simp: ondisk_wf_def)
    ultimately show ?thesis by (intro exI [of _ ?s]) simp
  qed
next
  fix s k
  assume s: "?wf s"
  then have wf: "mwf (od_enabled_map s)" "mwf (od_disabled_map s)" by (simp_all add: ondisk_wf_def)
  have entry: "\<And>k x. entries (od_enabled_map s) k = Some x \<or> entries (od_disabled_map s) k = Some x \<Longrightarrow>
      x = k \<and> (\<exists>tc. load_testcase hash from_file k (od_disk s) = Inr tc \<and> tc_id tc = k)"
    using s unfolding ondisk_wf_def by blast
  note get = append_map.get [OF assms wf(1)] append_map.get [OF assms wf(2)]
  show "st_get_from ?ops True s k = found (?en s k)"
    using entry by (fastforce simp: ondisk_ops_def ondisk_get_from_def get on_disk_entry_def split: option.splits)
  show "st_get_from ?ops False s k = found (case ?en s k of Some tc \<Rightarrow> Some tc | None \<Rightarrow> ?dis s k)"
    using entry by (fastforce simp: ondisk_ops_def ondisk_get_from_def get on_disk_entry_def split: option.splits)
  have dom: "dom (?en s) = dom (entries (od_enabled_map s))" "dom (?dis s) = dom (entries (od_disabled_map s))"
    using entry by (fastforce simp: on_disk_entry_def split: option.splits)+
  show "st_count ?ops s = card (dom (?en s))" "st_count_disabled ?ops s = card (dom (?dis s))"
    using append_map.count [OF assms wf(1)] append_map.count [OF assms wf(2)]
    by (simp_all only: dom) (simp_all add: ondisk_ops_def)
  show "tc_id tc = k" if "?en s k = Some tc" for tc
    using that entry by (fastforce simp: on_disk_entry_def split: option.splits)
  show "tc_id tc = k" if "?dis s k = Some tc" for tc
    using that entry by (fastforce simp: on_disk_entry_def split: option.splits)
qed

lemma ondisk_store:
  assumes "corpus_map mwf entries (mo_empty mops) (mo_count mops) (mo_add mops) (mo_get mops)
    (mo_remove mops)"
  shows "store (ondisk_wf hash from_file mwf entries)
    (\<lambda>s k. on_disk_entry hash from_file (od_disk s) (entries (od_enabled_map s) k))
    (\<lambda>s k. on_disk_entry hash from_file (od_disk s) (entries (od_disabled_map s) k))
    (ondisk_storable hash to_file from_file entries) (ondisk_ops hash to_file from_file mops)"
    (is "store ?wf ?en ?dis ?ok ?ops")
proof (intro store.intro store_axioms.intro)
  show "append_store ?wf ?en ?dis ?ok ?ops"
    using assms by (intro ondisk_append_store) (simp add: corpus_map_def)
next
  fix s k
  assume s: "?wf s" and none: "?en s k = None"
  then have "entries (od_enabled_map s) k = None"
    by (fastforce simp: on_disk_entry_def ondisk_wf_def split: option.splits)
  then have "mo_remove mops (od_enabled_map s) k = Inr (None, od_enabled_map s)"
    using corpus_map.remove_absent [OF assms] s by (simp add: ondisk_wf_def)
  with s show "\<exists>s'. st_disable ?ops k s = (Inl KeyNotFound, s') \<and> ?wf s' \<and>
      ?en s' = ?en s \<and> ?dis s' = ?dis s"
    by (simp add: ondisk_ops_def ondisk_disable_def)
next
  fix s k tc
  assume s: "?wf s" and tc: "?en s k = Some tc"
  then have wf: "mwf (od_enabled_map s)" "mwf (od_disabled_map s)" by (simp_all add: ondisk_wf_def)
  from tc obtain x where x: "entries (od_enabled_map s) k = Some x"
    by (auto simp: on_disk_entry_def split: option.splits)
  with s have xk: "x = k" by (auto simp: ondisk_wf_def)
  obtain m where m: "mo_remove mops (od_enabled_map s) k = Inr (Some x, m)" "mwf m"
    "entries m = (entries (od_enabled_map s))(k := None)"
    using corpus_map.remove_present [OF assms wf(1) x] by blast
  obtain m' where m': "mo_add mops (od_disabled_map s) k x
      = Inr (entries (od_disabled_map s) k \<noteq> None, m')" "mwf m'"
    "entries m' = (entries (od_disabled_map s))(k \<mapsto> x)"
    using append_map.addE [OF corpus_map.axioms(1) [OF assms] wf(2), of k x] by blast
  let ?s = "s\<lparr>od_enabled_map := m, od_disabled_map := m'\<rparr>"
  have "st_disable ?ops k s = (Inr (), ?s)"
    using m(1) m'(1) by (simp add: ondisk_ops_def ondisk_disable_def)
  moreover have "?wf ?s" using s m m' x xk by (auto simp: ondisk_wf_def)
  moreover have "?en ?s = (?en s)(k := None)"
    by (auto simp: fun_eq_iff m(3) on_disk_entry_def)
  moreover have "?dis ?s = (?dis s)(k \<mapsto> tc)"
    using tc x by (auto simp: fun_eq_iff m'(3) on_disk_entry_def)
  ultimately show "\<exists>s'. st_disable ?ops k s = (Inr (), s') \<and> ?wf s' \<and>
      ?en s' = (?en s)(k := None) \<and> ?dis s' = (?dis s)(k \<mapsto> tc)"
    by (intro exI [of _ ?s]) simp
qed

interpretation ondisk_hash: append_store "ondisk_wf hash from_file hash_wf hash_entries"
  "\<lambda>s k. on_disk_entry hash from_file (od_disk s) (hash_entries (od_enabled_map s) k)"
  "\<lambda>s k. on_disk_entry hash from_file (od_disk s) (hash_entries (od_disabled_map s) k)"
  "ondisk_storable hash to_file from_file hash_entries"
  "ondisk_ops hash to_file from_file hash_ops" for hash to_file from_file
  by (rule ondisk_append_store) (simp add: hash_ops_def hash.append_map_axioms)

interpretation ondisk_btree: store "ondisk_wf hash from_file btree_wf (\<lambda>m. map_of (bt_map m))"
  "\<lambda>s k. on_disk_entry hash from_file (od_disk s) (map_of (bt_map (od_enabled_map s)) k)"
  "\<lambda>s k. on_disk_entry hash from_file (od_disk s) (map_of (bt_map (od_disabled_map s)) k)"
  "ondisk_storable hash to_file from_file (\<lambda>m. map_of (bt_map m))"
  "ondisk_ops hash to_file from_file btree_ops" for hash to_file from_file
  by (rule ondisk_store) (simp add: btree_ops_def btree.corpus_map_axioms)

end
