(* ===== verification/Corpora.thy ===== *)
theory Corpora
  imports Stores MutatorApi
begin

text \<open>
  The schedulers, cache policies and corpora of \<^verbatim>\<open>libaflmm/src/corpus\<close>. A corpus owns a
  store (or a cache store, a fallback store and the policy between them) and a scheduler; adding
  a test case that was not stored yet registers it with the scheduler.

  The lemmas: the queue visits every test case in turn; a corpus that is only added to finds every
  identifier its scheduler tracks, which is what the mutators rely on; and a corpus behind a
  first-in-first-out cache answers as its fallback store does.
\<close>

section \<open>Schedulers\<close>

record 'q scheduler_ops =
  sd_on_add :: "u64 \<Rightarrow> 'q \<Rightarrow> (error + unit) \<times> 'q"
  sd_current :: "'q \<Rightarrow> error + u64 option"
  sd_next :: "'q \<Rightarrow> (error + u64 option) \<times> 'q"
  sd_ids :: "'q \<Rightarrow> u64 list"

record queue_scheduler =
  q_queue :: "u64 list"
  q_current :: "nat option"

definition queue_new :: queue_scheduler where
  "queue_new = \<lparr>q_queue = [], q_current = None\<rparr>"

definition queue_on_add :: "u64 \<Rightarrow> queue_scheduler \<Rightarrow> (error + unit) \<times> queue_scheduler" where
  "queue_on_add tid q = (Inr (), q\<lparr>q_queue := q_queue q @ [tid]\<rparr>)"

definition queue_current :: "queue_scheduler \<Rightarrow> error + u64 option" where
  "queue_current q =
     (case q_current q of
        None \<Rightarrow> Inr None
      | Some idx \<Rightarrow> if idx < length (q_queue q) then Inr (Some (q_queue q ! idx)) else Inl Panic)"

definition queue_next :: "queue_scheduler \<Rightarrow> (error + u64 option) \<times> queue_scheduler" where
  "queue_next q =
     (if q_queue q = [] then (Inr None, q)
      else let idx = (case q_current q of
                 Some current \<Rightarrow> if current + 1 < length (q_queue q) then current + 1 else 0
               | None \<Rightarrow> 0)
           in (Inr (Some (q_queue q ! idx)), q\<lparr>q_current := Some idx\<rparr>))"

definition queue_ids :: "queue_scheduler \<Rightarrow> u64 list" where
  "queue_ids q = q_queue q"

definition queue_ops :: "queue_scheduler scheduler_ops" where
  "queue_ops = \<lparr>sd_on_add = queue_on_add, sd_current = queue_current, sd_next = queue_next,
     sd_ids = queue_ids\<rparr>"

record 'r rand_scheduler =
  rs_rand :: 'r
  rs_current :: "u64 option"
  rs_ids :: "u64 list"

definition rand_sched_new :: "'r \<Rightarrow> 'r rand_scheduler" where
  "rand_sched_new rand = \<lparr>rs_rand = rand, rs_current = None, rs_ids = []\<rparr>"

definition rand_sched_on_add :: "u64 \<Rightarrow> 'r rand_scheduler \<Rightarrow> (error + unit) \<times> 'r rand_scheduler" where
  "rand_sched_on_add tid q = (Inr (), q\<lparr>rs_ids := rs_ids q @ [tid]\<rparr>)"

definition rand_sched_current :: "'r rand_scheduler \<Rightarrow> error + u64 option" where
  "rand_sched_current q = Inr (rs_current q)"

definition rand_sched_next ::
  "('r \<Rightarrow> u64 \<times> 'r) \<Rightarrow> 'r rand_scheduler \<Rightarrow> (error + u64 option) \<times> 'r rand_scheduler" where
  "rand_sched_next nxt q =
     (if rs_ids q = [] then (Inr None, q)
      else let (idx, r) = below nxt (rs_rand q) (length (rs_ids q));
               tid = rs_ids q ! idx
           in (Inr (Some tid), q\<lparr>rs_rand := r, rs_current := Some tid\<rparr>))"

definition rand_sched_ops :: "('r \<Rightarrow> u64 \<times> 'r) \<Rightarrow> 'r rand_scheduler scheduler_ops" where
  "rand_sched_ops nxt = \<lparr>sd_on_add = rand_sched_on_add, sd_current = rand_sched_current,
     sd_next = rand_sched_next nxt, sd_ids = rs_ids\<rparr>"

definition nop_sched_ops :: "unit scheduler_ops" where
  "nop_sched_ops = \<lparr>sd_on_add = (\<lambda>_ q. (Inr (), q)), sd_current = (\<lambda>_. Inr None),
     sd_next = (\<lambda>q. (Inr None, q)), sd_ids = (\<lambda>_. [])\<rparr>"

section \<open>The corpus with one store\<close>

record ('s, 'q) single_corpus =
  sc_store :: 's
  sc_scheduler :: 'q
  sc_keys :: "u64 list"
  sc_current :: "u64 option"

definition single_new :: "'s \<Rightarrow> 'q \<Rightarrow> ('s, 'q) single_corpus" where
  "single_new st sched =
     \<lparr>sc_store = st, sc_scheduler = sched, sc_keys = [], sc_current = None\<rparr>"

definition single_add_inner ::
  "('s, 'i) store_ops \<Rightarrow> bool \<Rightarrow> 'i testcase \<Rightarrow> ('s, 'q) single_corpus
    \<Rightarrow> (error + u64) \<times> ('s, 'q) single_corpus" where
  "single_add_inner sops enabled testcase c =
     (case st_add_shared sops enabled testcase (sc_store c) of
        (Inl e, s) \<Rightarrow> (Inl e, c\<lparr>sc_store := s\<rparr>)
      | (Inr res, s) \<Rightarrow> (Inr (into_testcase_id res), c\<lparr>sc_store := s\<rparr>))"

definition single_get_from ::
  "('s, 'i) store_ops \<Rightarrow> bool \<Rightarrow> ('s, 'q) single_corpus \<Rightarrow> u64 \<Rightarrow> error + 'i testcase" where
  "single_get_from sops enabled c tid = st_get_from sops enabled (sc_store c) tid"

definition single_add_shared ::
  "('s, 'i) store_ops \<Rightarrow> 'q scheduler_ops \<Rightarrow> bool \<Rightarrow> 'i testcase \<Rightarrow> ('s, 'q) single_corpus
    \<Rightarrow> (error + u64) \<times> ('s, 'q) single_corpus" where
  "single_add_shared sops qops enabled testcase c =
     (case st_add_shared sops enabled testcase (sc_store c) of
        (Inl e, s) \<Rightarrow> (Inl e, c\<lparr>sc_store := s\<rparr>)
      | (Inr (Stored tid), s) \<Rightarrow>
          (case sd_on_add qops tid (sc_scheduler c) of
             (Inl e, q) \<Rightarrow> (Inl e, c\<lparr>sc_store := s, sc_scheduler := q\<rparr>)
           | (Inr _, q) \<Rightarrow> (Inr tid, c\<lparr>sc_store := s, sc_scheduler := q\<rparr>))
      | (Inr (Duplicate tid), s) \<Rightarrow> (Inr tid, c\<lparr>sc_store := s\<rparr>))"

definition single_disable ::
  "('s, 'i) store_ops \<Rightarrow> u64 \<Rightarrow> ('s, 'q) single_corpus \<Rightarrow> (error + unit) \<times> ('s, 'q) single_corpus" where
  "single_disable sops tid c =
     (case st_disable sops tid (sc_store c) of (res, s) \<Rightarrow> (res, c\<lparr>sc_store := s\<rparr>))"

section \<open>Cache policies\<close>

text \<open>
  A policy acts on the pair of the cache store and the fallback store. \<open>IdentityCache\<close> has no
  state of its own.
\<close>

definition identity_add_shared ::
  "('c, 'i) store_ops \<Rightarrow> ('f, 'i) store_ops \<Rightarrow> bool \<Rightarrow> 'i testcase \<Rightarrow> 'c \<times> 'f
    \<Rightarrow> (error + storage_result) \<times> 'c \<times> 'f" where
  "identity_add_shared cops fops enabled testcase = (\<lambda>(cs, fs).
     case st_add_shared cops enabled testcase cs of
       (Inl e, cs) \<Rightarrow> (Inl e, cs, fs)
     | (Inr _, cs) \<Rightarrow> (case st_add_shared fops enabled testcase fs of (res, fs) \<Rightarrow> (res, cs, fs)))"

definition identity_get_from ::
  "('c, 'i) store_ops \<Rightarrow> ('f, 'i) store_ops \<Rightarrow> bool \<Rightarrow> u64 \<Rightarrow> 'c \<Rightarrow> 'f
    \<Rightarrow> (error + 'i testcase) \<times> 'c" where
  "identity_get_from cops fops enabled tid cs fs =
     (case store_get cops cs tid of
        Inr tc \<Rightarrow> (Inr tc, cs)
      | Inl KeyNotFound \<Rightarrow>
          (case st_get_from fops enabled fs tid of
             Inl e \<Rightarrow> (Inl e, cs)
           | Inr fb_tc \<Rightarrow>
               (case st_add_shared cops enabled fb_tc cs of
                  (Inl e, cs) \<Rightarrow> (Inl e, cs)
                | (Inr _, cs) \<Rightarrow> (Inr fb_tc, cs)))
      | Inl e \<Rightarrow> (Inl e, cs))"

definition cache_disable ::
  "('c, 'i) store_ops \<Rightarrow> ('f, 'i) store_ops \<Rightarrow> u64 \<Rightarrow> 'c \<times> 'f \<Rightarrow> (error + unit) \<times> 'c \<times> 'f" where
  "cache_disable cops fops tid = (\<lambda>(cs, fs).
     case st_disable cops tid cs of
       (Inl e, cs) \<Rightarrow> (Inl e, cs, fs)
     | (Inr _, cs) \<Rightarrow> (case st_disable fops tid fs of (res, fs) \<Rightarrow> (res, cs, fs)))"

record fifo_cache =
  ff_cached_ids :: "u64 list"
  ff_cache_max_len :: nat

definition fifo_new :: "nat \<Rightarrow> fifo_cache" where
  "fifo_new cache_max_len = \<lparr>ff_cached_ids = [], ff_cache_max_len = cache_max_len\<rparr>"

definition fifo_add_shared ::
  "('f, 'i) store_ops \<Rightarrow> bool \<Rightarrow> 'i testcase \<Rightarrow> 'f \<Rightarrow> (error + storage_result) \<times> 'f" where
  "fifo_add_shared fops enabled testcase fs = st_add_shared fops enabled testcase fs"

text \<open>
  \<open>get_from\<close>: the eviction (the queue's back is its last element), the fetch and the insertion.
\<close>

definition fifo_evict ::
  "(u64 \<Rightarrow> 'c \<Rightarrow> (error + 'i testcase) \<times> 'c) \<Rightarrow> fifo_cache \<Rightarrow> 'c \<Rightarrow> (error + unit) \<times> fifo_cache \<times> 'c" where
  "fifo_evict remove ff cs =
     (if length (ff_cached_ids ff) = ff_cache_max_len ff
      then (if ff_cached_ids ff = [] then (Inl Panic, ff, cs)
            else let to_evict = last (ff_cached_ids ff);
                     ff = ff\<lparr>ff_cached_ids := butlast (ff_cached_ids ff)\<rparr>
                 in case remove to_evict cs of
                      (Inl e, cs) \<Rightarrow> (Inl e, ff, cs)
                    | (Inr _, cs) \<Rightarrow> (Inr (), ff, cs))
      else (Inr (), ff, cs))"

definition fifo_fetch ::
  "('c, 'i) store_ops \<Rightarrow> ('f, 'i) store_ops \<Rightarrow> bool \<Rightarrow> u64 \<Rightarrow> fifo_cache \<Rightarrow> 'c \<Rightarrow> 'f
    \<Rightarrow> (error + 'i testcase) \<times> fifo_cache \<times> 'c" where
  "fifo_fetch cops fops enabled tid ff cs fs =
     (if \<not> length (ff_cached_ids ff) < ff_cache_max_len ff then (Inl Panic, ff, cs)
      else case st_get_from fops enabled fs tid of
        Inl e \<Rightarrow> (Inl e, ff, cs)
      | Inr fb_tc \<Rightarrow>
          (case st_add_shared cops enabled fb_tc cs of
             (Inl e, cs) \<Rightarrow> (Inl e, ff, cs)
           | (Inr _, cs) \<Rightarrow>
               let ff = ff\<lparr>ff_cached_ids := tc_id fb_tc # ff_cached_ids ff\<rparr>
               in (store_get cops cs (tc_id fb_tc), ff, cs)))"

definition fifo_get_from ::
  "('c, 'i) store_ops \<Rightarrow> (u64 \<Rightarrow> 'c \<Rightarrow> (error + 'i testcase) \<times> 'c) \<Rightarrow> ('f, 'i) store_ops \<Rightarrow> bool
    \<Rightarrow> u64 \<Rightarrow> fifo_cache \<Rightarrow> 'c \<Rightarrow> 'f \<Rightarrow> (error + 'i testcase) \<times> fifo_cache \<times> 'c" where
  "fifo_get_from cops remove fops enabled tid ff cs fs =
     (if tid \<in> set (ff_cached_ids ff) then (store_get cops cs tid, ff, cs)
      else case fifo_evict remove ff cs of
        (Inl e, ff, cs) \<Rightarrow> (Inl e, ff, cs)
      | (Inr _, ff, cs) \<Rightarrow> fifo_fetch cops fops enabled tid ff cs fs)"

section \<open>The corpus behind a cache\<close>

text \<open>
  \<open>CombinedCorpus\<close> over a policy: its additions and lookups, from the operations of the policy.
\<close>

record ('k, 'c, 'f, 'q) combined_corpus =
  cc_cache :: 'k
  cc_cache_store :: 'c
  cc_fallback_store :: 'f
  cc_scheduler :: 'q
  cc_keys :: "u64 list"
  cc_current :: "u64 option"

definition combined_new :: "'q \<Rightarrow> 'k \<Rightarrow> 'c \<Rightarrow> 'f \<Rightarrow> ('k, 'c, 'f, 'q) combined_corpus" where
  "combined_new sched cache cache_store fallback_store =
     \<lparr>cc_cache = cache, cc_cache_store = cache_store, cc_fallback_store = fallback_store,
      cc_scheduler = sched, cc_keys = [], cc_current = None\<rparr>"

definition combined_count :: "('f, 'i) store_ops \<Rightarrow> ('k, 'c, 'f, 'q) combined_corpus \<Rightarrow> nat" where
  "combined_count fops c = st_count fops (cc_fallback_store c)"

definition combined_add_inner ::
  "('k \<Rightarrow> 'c \<Rightarrow> 'f \<Rightarrow> (error + storage_result) \<times> 'k \<times> 'c \<times> 'f)
    \<Rightarrow> ('k, 'c, 'f, 'q) combined_corpus \<Rightarrow> (error + u64) \<times> ('k, 'c, 'f, 'q) combined_corpus" where
  "combined_add_inner add c =
     (case add (cc_cache c) (cc_cache_store c) (cc_fallback_store c) of
        (res, k, cs, fs) \<Rightarrow>
          let c = c\<lparr>cc_cache := k, cc_cache_store := cs, cc_fallback_store := fs\<rparr>
          in case res of Inl e \<Rightarrow> (Inl e, c) | Inr r \<Rightarrow> (Inr (into_testcase_id r), c))"

definition combined_add_shared ::
  "('k \<Rightarrow> 'c \<Rightarrow> 'f \<Rightarrow> (error + storage_result) \<times> 'k \<times> 'c \<times> 'f) \<Rightarrow> 'q scheduler_ops
    \<Rightarrow> ('k, 'c, 'f, 'q) combined_corpus \<Rightarrow> (error + u64) \<times> ('k, 'c, 'f, 'q) combined_corpus" where
  "combined_add_shared add qops c =
     (case add (cc_cache c) (cc_cache_store c) (cc_fallback_store c) of
        (res, k, cs, fs) \<Rightarrow>
          let c = c\<lparr>cc_cache := k, cc_cache_store := cs, cc_fallback_store := fs\<rparr>
          in case res of
               Inl e \<Rightarrow> (Inl e, c)
             | Inr (Duplicate tid) \<Rightarrow> (Inr tid, c)
             | Inr (Stored tid) \<Rightarrow>
                 (case sd_on_add qops tid (cc_scheduler c) of
                    (Inl e, q) \<Rightarrow> (Inl e, c\<lparr>cc_scheduler := q\<rparr>)
                  | (Inr _, q) \<Rightarrow> (Inr tid, c\<lparr>cc_scheduler := q\<rparr>)))"

definition combined_get_from ::
  "(u64 \<Rightarrow> 'k \<Rightarrow> 'c \<Rightarrow> 'f \<Rightarrow> (error + 'i testcase) \<times> 'k \<times> 'c) \<Rightarrow> u64
    \<Rightarrow> ('k, 'c, 'f, 'q) combined_corpus
    \<Rightarrow> (error + 'i testcase) \<times> ('k, 'c, 'f, 'q) combined_corpus" where
  "combined_get_from get tid c =
     (case get tid (cc_cache c) (cc_cache_store c) (cc_fallback_store c) of
        (res, k, cs) \<Rightarrow> (res, c\<lparr>cc_cache := k, cc_cache_store := cs\<rparr>))"

section \<open>What a corpus relies on in its scheduler\<close>

locale scheduler =
  fixes inv :: "'q \<Rightarrow> bool" and qops :: "'q scheduler_ops"
  assumes on_add: "inv q \<Longrightarrow> \<exists>q'. sd_on_add qops tid q = (Inr (), q') \<and> inv q' \<and>
      sd_ids qops q' = sd_ids qops q @ [tid]"
    and next_none: "inv q \<Longrightarrow> sd_ids qops q = [] \<Longrightarrow> sd_next qops q = (Inr None, q)"
    and next_some: "inv q \<Longrightarrow> sd_ids qops q \<noteq> [] \<Longrightarrow>
      \<exists>tid q'. sd_next qops q = (Inr (Some tid), q') \<and> tid \<in> set (sd_ids qops q) \<and> inv q' \<and>
        sd_ids qops q' = sd_ids qops q \<and> sd_current qops q' = Inr (Some tid)"
    and current: "inv q \<Longrightarrow> \<exists>c. sd_current qops q = Inr c \<and> set_option c \<subseteq> set (sd_ids qops q)"

definition queue_inv :: "queue_scheduler \<Rightarrow> bool" where
  "queue_inv q \<longleftrightarrow> (\<forall>idx. q_current q = Some idx \<longrightarrow> idx < length (q_queue q))"

interpretation queue: scheduler queue_inv queue_ops
proof
  fix q :: queue_scheduler and tid
  assume q: "queue_inv q"
  then show "\<exists>q'. sd_on_add queue_ops tid q = (Inr (), q') \<and> queue_inv q' \<and>
      sd_ids queue_ops q' = sd_ids queue_ops q @ [tid]"
    by (auto simp: queue_ops_def queue_on_add_def queue_inv_def queue_ids_def less_SucI)
  show "sd_next queue_ops q = (Inr None, q)" if "sd_ids queue_ops q = []"
    using that by (simp add: queue_ops_def queue_next_def queue_ids_def)
  show "\<exists>tid q'. sd_next queue_ops q = (Inr (Some tid), q') \<and> tid \<in> set (sd_ids queue_ops q) \<and>
      queue_inv q' \<and> sd_ids queue_ops q' = sd_ids queue_ops q \<and>
      sd_current queue_ops q' = Inr (Some tid)" if "sd_ids queue_ops q \<noteq> []"
    using that by (auto simp: queue_ops_def queue_next_def queue_ids_def queue_inv_def
        queue_current_def Let_def split: option.splits)
  show "\<exists>c. sd_current queue_ops q = Inr c \<and> set_option c \<subseteq> set (sd_ids queue_ops q)"
    using q by (auto simp: queue_ops_def queue_current_def queue_inv_def queue_ids_def split: option.splits)
qed

interpretation rand_sched: scheduler "\<lambda>q. set_option (rs_current q) \<subseteq> set (rs_ids q)"
  "rand_sched_ops nxt" for nxt
proof
  fix q :: "'a rand_scheduler" and tid
  assume q: "set_option (rs_current q) \<subseteq> set (rs_ids q)"
  then show "\<exists>q'. sd_on_add (rand_sched_ops nxt) tid q = (Inr (), q') \<and>
      set_option (rs_current q') \<subseteq> set (rs_ids q') \<and>
      sd_ids (rand_sched_ops nxt) q' = sd_ids (rand_sched_ops nxt) q @ [tid]"
    by (auto simp: rand_sched_ops_def rand_sched_on_add_def)
  show "sd_next (rand_sched_ops nxt) q = (Inr None, q)" if "sd_ids (rand_sched_ops nxt) q = []"
    using that by (simp add: rand_sched_ops_def rand_sched_next_def)
  show "\<exists>tid q'. sd_next (rand_sched_ops nxt) q = (Inr (Some tid), q') \<and>
      tid \<in> set (sd_ids (rand_sched_ops nxt) q) \<and> set_option (rs_current q') \<subseteq> set (rs_ids q') \<and>
      sd_ids (rand_sched_ops nxt) q' = sd_ids (rand_sched_ops nxt) q \<and>
      sd_current (rand_sched_ops nxt) q' = Inr (Some tid)" if "sd_ids (rand_sched_ops nxt) q \<noteq> []"
  proof -
    from that have ne: "rs_ids q \<noteq> []" by (simp add: rand_sched_ops_def)
    obtain idx r where idx: "below nxt (rs_rand q) (length (rs_ids q)) = (idx, r)" by force
    have "idx < length (rs_ids q)" by (rule rnd.below_eq_lt [OF idx]) (use ne in simp)
    with ne idx show ?thesis
      by (simp add: rand_sched_ops_def rand_sched_next_def rand_sched_current_def Let_def)
  qed
  show "\<exists>c. sd_current (rand_sched_ops nxt) q = Inr c \<and>
      set_option c \<subseteq> set (sd_ids (rand_sched_ops nxt) q)"
    using q by (simp add: rand_sched_ops_def rand_sched_current_def)
qed

section \<open>A corpus that is added to\<close>

text \<open>Test cases added one after the other, all enabled.\<close>

fun single_add_all ::
  "('s, 'i) store_ops \<Rightarrow> 'q scheduler_ops \<Rightarrow> 'i testcase list \<Rightarrow> ('s, 'q) single_corpus
    \<Rightarrow> error + ('s, 'q) single_corpus" where
  "single_add_all sops qops [] c = Inr c"
| "single_add_all sops qops (tc # tcs) c =
     (case single_add_shared sops qops True tc c of
        (Inl e, _) \<Rightarrow> Inl e
      | (Inr _, c) \<Rightarrow> single_add_all sops qops tcs c)"

locale scheduled_store = append_store wf enabled disabled storable ops + scheduler inv qops
  for wf :: "'s \<Rightarrow> bool" and enabled disabled :: "'s \<Rightarrow> u64 \<Rightarrow> 'i testcase option"
    and storable :: "'s \<Rightarrow> 'i testcase \<Rightarrow> bool" and ops :: "('s, 'i) store_ops"
    and inv :: "'q \<Rightarrow> bool" and qops :: "'q scheduler_ops"
begin

definition corpus_inv :: "('s, 'q) single_corpus \<Rightarrow> bool" where
  "corpus_inv c \<longleftrightarrow> wf (sc_store c) \<and> inv (sc_scheduler c) \<and>
     disabled (sc_store c) = Map.empty \<and> distinct (sd_ids qops (sc_scheduler c)) \<and>
     set (sd_ids qops (sc_scheduler c)) = dom (enabled (sc_store c))"

lemma add_inv:
  assumes "corpus_inv c" "storable (sc_store c) tc"
  obtains c' where "single_add_shared ops qops True tc c = (Inr (tc_id tc), c')" "corpus_inv c'"
    "enabled (sc_store c') = (enabled (sc_store c))(tc_id tc \<mapsto> tc)"
proof -
  have wf: "wf (sc_store c)" and iq: "inv (sc_scheduler c)"
    using assms(1) by (simp_all add: corpus_inv_def)
  obtain s where s: "st_add_shared ops True tc (sc_store c) =
      (Inr (if enabled (sc_store c) (tc_id tc) = None then Stored (tc_id tc)
        else Duplicate (tc_id tc)), s)" "wf s"
    "enabled s = (enabled (sc_store c))(tc_id tc \<mapsto> tc)" "disabled s = disabled (sc_store c)"
    using add_enabled [OF wf assms(2)] by blast
  show thesis
  proof (cases "enabled (sc_store c) (tc_id tc)")
    case None
    obtain q where q: "sd_on_add qops (tc_id tc) (sc_scheduler c) = (Inr (), q)" "inv q"
      "sd_ids qops q = sd_ids qops (sc_scheduler c) @ [tc_id tc]"
      using on_add [OF iq] by blast
    let ?c = "c\<lparr>sc_store := s, sc_scheduler := q\<rparr>"
    have "single_add_shared ops qops True tc c = (Inr (tc_id tc), ?c)"
      using s(1) q(1) None by (simp add: single_add_shared_def)
    moreover have "corpus_inv ?c"
      using assms(1) s q None by (auto simp: corpus_inv_def)
    ultimately show thesis using s by (intro that [of ?c]) simp_all
  next
    case (Some old)
    let ?c = "c\<lparr>sc_store := s\<rparr>"
    have "single_add_shared ops qops True tc c = (Inr (tc_id tc), ?c)"
      using s(1) Some by (simp add: single_add_shared_def)
    moreover have "corpus_inv ?c"
      using assms(1) s Some by (auto simp: corpus_inv_def)
    ultimately show thesis using s by (intro that [of ?c]) simp_all
  qed
qed

text \<open>Every identifier the scheduler tracks is found by both lookups.\<close>

lemma tracked_found:
  assumes "corpus_inv c" "tid \<in> set (sd_ids qops (sc_scheduler c))"
  obtains tc where "single_get_from ops True c tid = Inr tc" "single_get_from ops False c tid = Inr tc"
    "enabled (sc_store c) tid = Some tc" "tc_id tc = tid"
proof -
  from assms obtain tc where tc: "enabled (sc_store c) tid = Some tc" by (auto simp: corpus_inv_def)
  moreover have "wf (sc_store c)" using assms(1) by (simp add: corpus_inv_def)
  ultimately show thesis
    using get_enabled get_all entry_id(1) by (intro that [of tc]) (auto simp: single_get_from_def)
qed

lemma count_tracked:
  assumes "corpus_inv c"
  shows "st_count ops (sc_store c) = length (sd_ids qops (sc_scheduler c))"
    "st_count_disabled ops (sc_store c) = 0"
  using assms count [of "sc_store c"] by (auto simp: corpus_inv_def distinct_card [symmetric])

lemma add_all_inv:
  assumes "corpus_inv c" "\<And>s tc. wf s \<Longrightarrow> tc \<in> set tcs \<Longrightarrow> storable s tc"
  shows "\<exists>c'. single_add_all ops qops tcs c = Inr c' \<and> corpus_inv c' \<and>
    dom (enabled (sc_store c')) = dom (enabled (sc_store c)) \<union> tc_id ` set tcs \<and>
    (\<forall>k tc. enabled (sc_store c') k = Some tc \<longrightarrow> enabled (sc_store c) k = Some tc \<or> tc \<in> set tcs)"
  using assms
proof (induction tcs arbitrary: c)
  case (Cons tc tcs)
  have "storable (sc_store c) tc" using Cons.prems by (simp add: corpus_inv_def)
  then obtain c1 where c1: "single_add_shared ops qops True tc c = (Inr (tc_id tc), c1)"
    "corpus_inv c1" "enabled (sc_store c1) = (enabled (sc_store c))(tc_id tc \<mapsto> tc)"
    using add_inv [OF Cons.prems(1)] by blast
  obtain c' where c': "single_add_all ops qops tcs c1 = Inr c'" "corpus_inv c'"
    "dom (enabled (sc_store c')) = dom (enabled (sc_store c1)) \<union> tc_id ` set tcs"
    "\<forall>k tc. enabled (sc_store c') k = Some tc \<longrightarrow> enabled (sc_store c1) k = Some tc \<or> tc \<in> set tcs"
    using Cons.IH [OF c1(2)] Cons.prems(2) by auto
  have "single_add_all ops qops (tc # tcs) c = Inr c'" using c1(1) c'(1) by simp
  moreover have "dom (enabled (sc_store c')) = dom (enabled (sc_store c)) \<union> tc_id ` set (tc # tcs)"
    using c'(3) c1(3) by auto
  moreover have "\<forall>k t. enabled (sc_store c') k = Some t \<longrightarrow>
      enabled (sc_store c) k = Some t \<or> t \<in> set (tc # tcs)"
    using c'(4) c1(3) by (auto split: if_splits)
  ultimately show ?case using c'(2) by blast
qed simp

end

text \<open>The corpora of the library: in memory and on disk, over the hash map, with a queue or at random.\<close>

interpretation inmem_queue: scheduled_store "inmem_wf hash_wf hash_entries"
  "\<lambda>s. hash_entries (im_enabled_map s)" "\<lambda>s. hash_entries (im_disabled_map s)"
  "\<lambda>_ _. True" "inmem_ops hash_ops" queue_inv queue_ops ..

interpretation inmem_rand: scheduled_store "inmem_wf hash_wf hash_entries"
  "\<lambda>s. hash_entries (im_enabled_map s)" "\<lambda>s. hash_entries (im_disabled_map s)"
  "\<lambda>_ _. True" "inmem_ops hash_ops" "\<lambda>q. set_option (rs_current q) \<subseteq> set (rs_ids q)"
  "rand_sched_ops nxt" for nxt ..

interpretation ondisk_queue: scheduled_store "ondisk_wf hash from_file hash_wf hash_entries"
  "\<lambda>s k. on_disk_entry hash from_file (od_disk s) (hash_entries (od_enabled_map s) k)"
  "\<lambda>s k. on_disk_entry hash from_file (od_disk s) (hash_entries (od_disabled_map s) k)"
  "ondisk_storable hash to_file from_file hash_entries"
  "ondisk_ops hash to_file from_file hash_ops" queue_inv queue_ops for hash to_file from_file ..

definition inmem_corpus_new ::
  "('m, 't) map_ops \<Rightarrow> 'q \<Rightarrow> ('m in_memory_store, 'q) single_corpus" where
  "inmem_corpus_new mops sched = single_new (inmem_new mops) sched"

lemma inmem_queue_new: "inmem_queue.corpus_inv (inmem_corpus_new hash_ops queue_new)"
  unfolding inmem_queue.corpus_inv_def
  by (simp add: hash.wf_empty inmem_corpus_new_def single_new_def inmem_new_def
      inmem_wf_def hash_ops_def queue_new_def queue_inv_def queue_ops_def queue_ids_def)

section \<open>The queue visits everything\<close>

lemma queue_state_after:
  assumes "ids \<noteq> []"
  shows "((\<lambda>q. snd (queue_next q)) ^^ n) \<lparr>q_queue = ids, q_current = None\<rparr>
    = \<lparr>q_queue = ids, q_current = (if n = 0 then None else Some ((n - 1) mod length ids))\<rparr>"
proof (induction n)
  case (Suc n)
  show ?case
  proof (cases n)
    case (Suc m)
    have "Suc m mod length ids = (if Suc (m mod length ids) < length ids
        then Suc (m mod length ids) else 0)"
      using assms mod_Suc [of m "length ids"] mod_less_divisor [of "length ids" m]
      by (auto simp: Suc_lessI)
    with Suc Suc.IH assms show ?thesis by (simp add: queue_next_def Let_def)
  qed (use assms in \<open>simp add: queue_next_def\<close>)
qed simp

section \<open>The first-in-first-out cache\<close>

locale fifo_cached =
  cs: removable_store cwf cen cdis cok cops remove +
  fs: append_store fwf fen fdis fok fops
  for cwf :: "'c \<Rightarrow> bool" and cen cdis :: "'c \<Rightarrow> u64 \<Rightarrow> 'i testcase option"
    and cok :: "'c \<Rightarrow> 'i testcase \<Rightarrow> bool" and cops :: "('c, 'i) store_ops"
    and remove :: "u64 \<Rightarrow> 'c \<Rightarrow> (error + 'i testcase) \<times> 'c"
    and fwf :: "'f \<Rightarrow> bool" and fen fdis :: "'f \<Rightarrow> u64 \<Rightarrow> 'i testcase option"
    and fok :: "'f \<Rightarrow> 'i testcase \<Rightarrow> bool" and fops :: "('f, 'i) store_ops" +
  assumes cache_takes_all: "cwf s \<Longrightarrow> cok s tc"
begin

text \<open>The cache store holds exactly the cached identifiers, with what the fallback store has.\<close>

definition fifo_inv :: "fifo_cache \<Rightarrow> 'c \<Rightarrow> 'f \<Rightarrow> bool" where
  "fifo_inv ff s f \<longleftrightarrow> cwf s \<and> fwf f \<and> distinct (ff_cached_ids ff) \<and>
     length (ff_cached_ids ff) \<le> ff_cache_max_len ff \<and> 0 < ff_cache_max_len ff \<and>
     dom (cen s) = set (ff_cached_ids ff) \<and> cdis s = Map.empty \<and>
     (\<forall>k tc. cen s k = Some tc \<longrightarrow> fen f k = Some tc)"

lemma evict_ok:
  assumes "fifo_inv ff s f"
  obtains ff' s' where "fifo_evict remove ff s = (Inr (), ff', s')" "fifo_inv ff' s' f"
    "length (ff_cached_ids ff') < ff_cache_max_len ff'" "set (ff_cached_ids ff') \<subseteq> set (ff_cached_ids ff)"
proof (cases "length (ff_cached_ids ff) = ff_cache_max_len ff")
  case False
  with assms that [of ff s] show thesis by (simp add: fifo_evict_def fifo_inv_def)
next
  case True
  with assms have ne: "ff_cached_ids ff \<noteq> []" by (auto simp: fifo_inv_def)
  then obtain ids k where ids: "ff_cached_ids ff = ids @ [k]" by (cases "ff_cached_ids ff" rule: rev_cases) auto
  have "k \<in> dom (cen s)" using assms ids by (auto simp: fifo_inv_def)
  then obtain tc where tc: "cen s k = Some tc" by auto
  obtain s' where s': "remove k s = (Inr tc, s')" "cwf s'" "cen s' = (cen s)(k := None)" "cdis s' = cdis s"
    using cs.remove_enabled [OF _ tc] assms by (auto simp: fifo_inv_def)
  let ?ff = "ff\<lparr>ff_cached_ids := ids\<rparr>"
  have "fifo_evict remove ff s = (Inr (), ?ff, s')"
    using True ids s'(1) by (simp add: fifo_evict_def)
  moreover have "fifo_inv ?ff s' f"
    using assms ids s' True by (auto simp: fifo_inv_def split: if_splits)
  ultimately show thesis using True ids by (intro that [of ?ff s']) auto
qed

lemma fetch_ok:
  assumes "fifo_inv ff s f" "length (ff_cached_ids ff) < ff_cache_max_len ff"
    "k \<notin> set (ff_cached_ids ff)"
  shows "\<exists>ff' s'. fifo_fetch cops fops True k ff s f = (st_get_from fops True f k, ff', s') \<and>
    fifo_inv ff' s' f"
proof (cases "fen f k")
  case None
  with assms show ?thesis
    by (simp add: fifo_fetch_def fifo_inv_def fs.get_enabled)
next
  case (Some tc)
  have wf: "cwf s" "fwf f" using assms(1) by (simp_all add: fifo_inv_def)
  have k: "tc_id tc = k" by (rule fs.entry_id(1) [OF wf(2) Some])
  obtain s' where s': "\<exists>r. st_add_shared cops True tc s = (Inr r, s')" "cwf s'"
    "cen s' = (cen s)(k \<mapsto> tc)" "cdis s' = cdis s"
    using cs.add_enabled [OF wf(1) cache_takes_all [OF wf(1)], of tc] k by auto
  let ?ff = "ff\<lparr>ff_cached_ids := k # ff_cached_ids ff\<rparr>"
  have get: "st_get_from fops True f k = Inr tc" using fs.get_enabled [OF wf(2)] Some by simp
  have "store_get cops s' k = Inr tc" using cs.get_enabled [OF s'(2)] s'(3) by (simp add: store_get_def)
  with s'(1) get k assms(2) have "fifo_fetch cops fops True k ff s f = (Inr tc, ?ff, s')"
    by (auto simp: fifo_fetch_def Let_def)
  moreover have "fifo_inv ?ff s' f"
    using assms s' Some by (auto simp: fifo_inv_def)
  ultimately show ?thesis using get by auto
qed

text \<open>A lookup through the cache answers as the fallback store does.\<close>

lemma lookup_transparent:
  assumes "fifo_inv ff s f"
  shows "\<exists>ff' s'. fifo_get_from cops remove fops True k ff s f = (st_get_from fops True f k, ff', s') \<and>
    fifo_inv ff' s' f"
proof (cases "k \<in> set (ff_cached_ids ff)")
  case True
  with assms have "k \<in> dom (cen s)" by (simp add: fifo_inv_def)
  then obtain tc where "cen s k = Some tc" by blast
  moreover from this assms have "fen f k = Some tc" by (simp add: fifo_inv_def)
  moreover have "cwf s" "fwf f" using assms by (simp_all add: fifo_inv_def)
  ultimately show ?thesis
    using True assms cs.get_enabled fs.get_enabled
    by (simp add: fifo_get_from_def store_get_def)
next
  case False
  obtain ff' s' where ev: "fifo_evict remove ff s = (Inr (), ff', s')" "fifo_inv ff' s' f"
    "length (ff_cached_ids ff') < ff_cache_max_len ff'" "set (ff_cached_ids ff') \<subseteq> set (ff_cached_ids ff)"
    by (rule evict_ok [OF assms])
  have "k \<notin> set (ff_cached_ids ff')" using False ev(4) by blast
  from fetch_ok [OF ev(2,3) this] False ev(1) show ?thesis by (simp add: fifo_get_from_def)
qed

end

interpretation fifo_btree: fifo_cached "inmem_wf btree_wf (\<lambda>m. map_of (bt_map m))"
  "\<lambda>s. map_of (bt_map (im_enabled_map s))" "\<lambda>s. map_of (bt_map (im_disabled_map s))"
  "\<lambda>_ _. True" "inmem_ops btree_ops" "inmem_remove btree_ops"
  "ondisk_wf hash from_file btree_wf (\<lambda>m. map_of (bt_map m))"
  "\<lambda>s k. on_disk_entry hash from_file (od_disk s) (map_of (bt_map (od_enabled_map s)) k)"
  "\<lambda>s k. on_disk_entry hash from_file (od_disk s) (map_of (bt_map (od_disabled_map s)) k)"
  "ondisk_storable hash to_file from_file (\<lambda>m. map_of (bt_map m))"
  "ondisk_ops hash to_file from_file btree_ops" for hash to_file from_file
  by unfold_locales simp

section \<open>Properties\<close>

text \<open>The identifiers a fresh queue has after some additions, and its state after some steps.\<close>

definition queue_of :: "u64 list \<Rightarrow> queue_scheduler" where
  "queue_of ids = fold (\<lambda>tid q. snd (queue_on_add tid q)) ids queue_new"

lemma queue_of_eq: "queue_of ids = \<lparr>q_queue = ids, q_current = None\<rparr>"
proof -
  have "fold (\<lambda>tid q. snd (queue_on_add tid q)) ids q = q\<lparr>q_queue := q_queue q @ ids\<rparr>" for q
    by (induction ids arbitrary: q) (simp_all add: queue_on_add_def)
  then show ?thesis by (simp add: queue_of_def queue_new_def)
qed

lemma queue_next_chosen:
  assumes "snd (queue_next q) = \<lparr>q_queue = ids, q_current = Some i\<rparr>" "ids \<noteq> []" "q_queue q \<noteq> []"
  shows "fst (queue_next q) = Inr (Some (ids ! i))"
  using assms by (cases q) (auto simp: queue_next_def Let_def)

text \<open>
  The queue scheduler hands out the test cases in the order they were added and starts over at
  the end: its n-th choice is the entry at n modulo the length, and an empty queue chooses nothing.
\<close>

theorem queue_visits_in_turn:
  "fst (queue_next (((\<lambda>q. snd (queue_next q)) ^^ n) (queue_of ids)))
    = Inr (if ids = [] then None else Some (ids ! (n mod length ids)))"
proof (cases "ids = []")
  case True
  have "((\<lambda>q. snd (queue_next q)) ^^ n) (queue_of []) = queue_of []"
    by (induction n) (simp_all add: queue_of_eq queue_next_def)
  with True show ?thesis by (simp add: queue_of_eq queue_next_def)
next
  case False
  have "((\<lambda>q. snd (queue_next q)) ^^ Suc n) (queue_of ids)
      = \<lparr>q_queue = ids, q_current = Some (n mod length ids)\<rparr>"
    using queue_state_after [OF False, of "Suc n"] by (simp add: queue_of_eq)
  then have "snd (queue_next (((\<lambda>q. snd (queue_next q)) ^^ n) (queue_of ids)))
      = \<lparr>q_queue = ids, q_current = Some (n mod length ids)\<rparr>" by simp
  moreover have "q_queue (((\<lambda>q. snd (queue_next q)) ^^ n) (queue_of ids)) = ids"
    using queue_state_after [OF False, of n] by (simp add: queue_of_eq)
  ultimately show ?thesis using False queue_next_chosen by fastforce
qed

text \<open>
  C20. A corpus in memory with a queue takes any sequence of test cases without an error. Afterwards
  the queue holds every identifier once, their number is the count of the corpus, and each is found,
  by the lookup among the enabled entries and by the one among all of them.
\<close>

theorem added_corpus_finds_tracked:
  fixes tcs :: "'i testcase list"
  shows "\<exists>c. single_add_all (inmem_ops hash_ops) queue_ops tcs (inmem_corpus_new hash_ops queue_new) = Inr c \<and>
    distinct (queue_ids (sc_scheduler c)) \<and> set (queue_ids (sc_scheduler c)) = tc_id ` set tcs \<and>
    st_count (inmem_ops hash_ops) (sc_store c) = length (queue_ids (sc_scheduler c)) \<and>
    (\<forall>tid\<in>tc_id ` set tcs. \<exists>tc\<in>set tcs. tc_id tc = tid \<and>
      single_get_from (inmem_ops hash_ops) True c tid = Inr tc \<and>
      single_get_from (inmem_ops hash_ops) False c tid = Inr tc)"
proof -
  let ?new = "inmem_corpus_new hash_ops queue_new ::
    ('i testcase hash_corpus_map in_memory_store, queue_scheduler) single_corpus"
  have empty: "hash_entries (im_enabled_map (sc_store ?new)) = Map.empty"
    by (simp add: inmem_corpus_new_def single_new_def inmem_new_def hash_ops_def hash.wf_empty)
  obtain c where c: "single_add_all (inmem_ops hash_ops) queue_ops tcs ?new = Inr c"
    "inmem_queue.corpus_inv c"
    "dom (hash_entries (im_enabled_map (sc_store c))) = tc_id ` set tcs"
    "\<forall>k tc. hash_entries (im_enabled_map (sc_store c)) k = Some tc \<longrightarrow> tc \<in> set tcs"
    using inmem_queue.add_all_inv [OF inmem_queue_new, of tcs] empty by auto
  have ids: "sd_ids queue_ops (sc_scheduler c) = queue_ids (sc_scheduler c)"
    by (simp add: queue_ops_def)
  have "set (queue_ids (sc_scheduler c)) = tc_id ` set tcs" "distinct (queue_ids (sc_scheduler c))"
    using c(2,3) unfolding inmem_queue.corpus_inv_def ids by auto
  moreover have "st_count (inmem_ops hash_ops) (sc_store c) = length (queue_ids (sc_scheduler c))"
    using inmem_queue.count_tracked(1) [OF c(2)] by (simp add: ids)
  moreover have "\<exists>tc\<in>set tcs. tc_id tc = tid \<and> single_get_from (inmem_ops hash_ops) True c tid = Inr tc \<and>
      single_get_from (inmem_ops hash_ops) False c tid = Inr tc" if "tid \<in> tc_id ` set tcs" for tid
    using inmem_queue.tracked_found [OF c(2), of tid] c(4) that calculation(1) unfolding ids by metis
  ultimately show ?thesis using c(1) by blast
qed

theorem added_corpus_finds_tracked_witness:
  "\<exists>c. single_add_all (inmem_ops hash_ops) queue_ops
      [\<lparr>tc_input = [1 :: u8], tc_id = 5\<rparr>, \<lparr>tc_input = [2], tc_id = 3\<rparr>, \<lparr>tc_input = [1], tc_id = 5\<rparr>]
      (inmem_corpus_new hash_ops queue_new) = Inr c \<and>
    set (queue_ids (sc_scheduler c)) = {5, 3} \<and> length (queue_ids (sc_scheduler c)) = 2 \<and>
    single_get_from (inmem_ops hash_ops) True c 3 = Inr \<lparr>tc_input = [2], tc_id = 3\<rparr>"
proof -
  let ?tcs = "[\<lparr>tc_input = [1 :: u8], tc_id = 5\<rparr>, \<lparr>tc_input = [2], tc_id = 3\<rparr>,
    \<lparr>tc_input = [1], tc_id = 5\<rparr>]"
  obtain c where c: "single_add_all (inmem_ops hash_ops) queue_ops ?tcs
      (inmem_corpus_new hash_ops queue_new) = Inr c" "distinct (queue_ids (sc_scheduler c))"
    "set (queue_ids (sc_scheduler c)) = tc_id ` set ?tcs"
    "\<forall>tid\<in>tc_id ` set ?tcs. \<exists>tc\<in>set ?tcs. tc_id tc = tid \<and>
      single_get_from (inmem_ops hash_ops) True c tid = Inr tc \<and>
      single_get_from (inmem_ops hash_ops) False c tid = Inr tc"
    using added_corpus_finds_tracked [of ?tcs] by blast
  have "length (queue_ids (sc_scheduler c)) = 2"
    using distinct_card [OF c(2)] by (simp add: c(3) card_insert_if)
  moreover have "{5, 3, 5} = {5, 3 :: u64}" by auto
  ultimately show ?thesis
    using c(1,3,4) by (intro exI [of _ c] conjI) (simp_all del: single_add_all.simps)
qed

text \<open>Lookups through a corpus behind a cache, one after the other; the results in order.\<close>

fun lookups ::
  "(u64 \<Rightarrow> 'k \<Rightarrow> 'c \<Rightarrow> 'f \<Rightarrow> (error + 'i testcase) \<times> 'k \<times> 'c) \<Rightarrow> u64 list
    \<Rightarrow> ('k, 'c, 'f, 'q) combined_corpus \<Rightarrow> (error + 'i testcase) list" where
  "lookups get [] c = []"
| "lookups get (tid # tids) c =
     (case combined_get_from get tid c of (res, c) \<Rightarrow> res # lookups get tids c)"



text \<open>
  A test case that is added as disabled is handed to the scheduler all the same: the scheduler
  then chooses an identifier that \<open>get\<close> does not find. Only \<open>get_from_all\<close> does.
\<close>

theorem disabled_test_case_is_scheduled:
  "\<exists>c q. single_add_shared (inmem_ops hash_ops) queue_ops False tc
        (inmem_corpus_new hash_ops queue_new) = (Inr (tc_id tc), c) \<and>
    queue_next (sc_scheduler c) = (Inr (Some (tc_id tc)), q) \<and>
    single_get_from (inmem_ops hash_ops) True c (tc_id tc) = Inl KeyNotFound \<and>
    single_get_from (inmem_ops hash_ops) False c (tc_id tc) = Inr tc"
  by (simp add: single_add_shared_def inmem_corpus_new_def single_new_def inmem_new_def
      inmem_ops_def hash_ops_def inmem_add_shared_def hash_add_def hash_empty_def queue_ops_def
      queue_on_add_def queue_new_def queue_next_def single_get_from_def inmem_get_from_def hash_get_def Let_def)

text \<open>
  A cache that keeps one test case in a hash map cannot replace it: the second test case that
  is looked up ends in a panic, because the map's removal leaves the ends of its list in place.
\<close>

theorem cache_of_one_panics:
  assumes "st_get_from fops True disk a = Inr ta" "tc_id ta = a"
    "st_get_from fops True disk b = Inr tb" "a \<noteq> b"
  shows "lookups (fifo_get_from (inmem_ops hash_ops) (inmem_remove hash_ops) fops True) [a, b]
      (combined_new sched (fifo_new 1) (inmem_new hash_ops) disk) = [Inr ta, Inl Panic]"
  using assms
  by (simp add: combined_get_from_def combined_new_def fifo_get_from_def fifo_new_def fifo_evict_def
      fifo_fetch_def inmem_new_def inmem_ops_def hash_ops_def inmem_add_shared_def hash_add_def
      hash_empty_def store_get_def inmem_get_from_def hash_get_def inmem_remove_def hash_remove_def
      update_item_def Let_def)

theorem cache_of_one_panics_witness:
  "let disk = \<lparr>im_enabled_map = \<lparr>bt_map = [(3, \<lparr>tc_input = [1 :: u8], tc_id = 3\<rparr>),
        (5, \<lparr>tc_input = [2], tc_id = 5\<rparr>)], bt_history = [3, 5]\<rparr>, im_disabled_map = btree_empty\<rparr>
   in lookups (fifo_get_from (inmem_ops hash_ops) (inmem_remove hash_ops) (inmem_ops btree_ops) True)
      [3, 5] (combined_new queue_new (fifo_new 1) (inmem_new hash_ops) disk)
    = [Inr \<lparr>tc_input = [1], tc_id = 3\<rparr>, Inl Panic]"
  unfolding Let_def
  by (rule cache_of_one_panics [where tb = "\<lparr>tc_input = [2], tc_id = 5\<rparr>"])
    (simp_all add: inmem_ops_def inmem_get_from_def btree_ops_def btree_get_def)

end
