(* ===== verification/AsanShadow.thy ===== *)
theory AsanShadow
  imports Prelude
begin

text \<open>
  The shadow memory of the address sanitizer, \<^verbatim>\<open>libaflmm_asan/src/shadow/guest.rs\<close>, with
  the default layout of a 64-bit target. One shadow byte describes a granule of eight bytes: 0 when
  all are valid, \<open>k\<close> from 1 to 7 when the first \<open>k\<close> are, a negative value when none is. The two
  mapped regions are functions from the offset in the region to the byte; a slice of a region is
  its name, its offset and its length, and slicing past the end of a region panics.

  Addresses and lengths are 64-bit words. \<open>byte_poisoned\<close> says what the shadow means for one
  byte; the lemmas show that \<open>is_poison\<close> decides it for a range and that \<open>poison\<close> and
  \<open>unpoison\<close> set it, which the locale at the end makes into the contract the allocator uses.
\<close>

section \<open>Poison types, errors and the layout\<close>

datatype poison_type =
    AsanValid | AsanPartial1 | AsanPartial2 | AsanPartial3 | AsanPartial4 | AsanPartial5
  | AsanPartial6 | AsanPartial7 | AsanArrayCookie | AsanStackRz | AsanStackLeftRz
  | AsanStackMidRz | AsanStackRightRz | AsanStackFreed | AsanStackOoscope | AsanGlobalRz
  | AsanHeapRz | AsanUser | AsanHeapLeftRz | AsanHeapRightRz | AsanHeapFreed

fun poison_value :: "poison_type \<Rightarrow> u8" where
  "poison_value AsanValid = 0x00"
| "poison_value AsanPartial1 = 0x01"
| "poison_value AsanPartial2 = 0x02"
| "poison_value AsanPartial3 = 0x03"
| "poison_value AsanPartial4 = 0x04"
| "poison_value AsanPartial5 = 0x05"
| "poison_value AsanPartial6 = 0x06"
| "poison_value AsanPartial7 = 0x07"
| "poison_value AsanArrayCookie = 0xac"
| "poison_value AsanStackRz = 0xf0"
| "poison_value AsanStackLeftRz = 0xf1"
| "poison_value AsanStackMidRz = 0xf2"
| "poison_value AsanStackRightRz = 0xf3"
| "poison_value AsanStackFreed = 0xf5"
| "poison_value AsanStackOoscope = 0xf8"
| "poison_value AsanGlobalRz = 0xf9"
| "poison_value AsanHeapRz = 0xe9"
| "poison_value AsanUser = 0xf7"
| "poison_value AsanHeapLeftRz = 0xfa"
| "poison_value AsanHeapRightRz = 0xfb"
| "poison_value AsanHeapFreed = 0xfd"

datatype shadow_error =
    InvalidMemoryAddress u64
  | UnalignedEndAddress u64 u64
  | UnalignedStartAddress u64 u64
  | AddressRangeOverflow u64 u64
  | Poisoned u64 u64
  | ShadowMmapError
  | ShadowPanic

definition SHADOW_OFFSET :: u64 where "SHADOW_OFFSET = 0x7fff8000"
definition LOW_MEM_OFFSET :: u64 where "LOW_MEM_OFFSET = 0x0"
definition LOW_MEM_SIZE :: u64 where "LOW_MEM_SIZE = 0x00007fff8000"
definition LOW_SHADOW_OFFSET :: u64 where "LOW_SHADOW_OFFSET = 0x00007fff8000"
definition LOW_SHADOW_SIZE :: u64 where "LOW_SHADOW_SIZE = 0xffff000"
definition HIGH_SHADOW_OFFSET :: u64 where "HIGH_SHADOW_OFFSET = 0x02008fff7000"
definition HIGH_SHADOW_SIZE :: u64 where "HIGH_SHADOW_SIZE = 0xdfff0001000"
definition HIGH_MEM_OFFSET :: u64 where "HIGH_MEM_OFFSET = 0x10007fff8000"
definition HIGH_MEM_SIZE :: u64 where "HIGH_MEM_SIZE = 0x6fff80008000"
definition ALLOC_ALIGN_POW :: nat where "ALLOC_ALIGN_POW = 3"
definition ALLOC_ALIGN_SIZE :: u64 where "ALLOC_ALIGN_SIZE = push_bit ALLOC_ALIGN_POW 1"

definition LOW_MEM_LIMIT :: u64 where "LOW_MEM_LIMIT = LOW_MEM_OFFSET + (LOW_MEM_SIZE - 1)"
definition HIGH_MEM_LIMIT :: u64 where "HIGH_MEM_LIMIT = HIGH_MEM_OFFSET + (HIGH_MEM_SIZE - 1)"

lemmas layout_defs = SHADOW_OFFSET_def LOW_MEM_OFFSET_def LOW_MEM_SIZE_def LOW_SHADOW_OFFSET_def
  LOW_SHADOW_SIZE_def HIGH_SHADOW_OFFSET_def HIGH_SHADOW_SIZE_def HIGH_MEM_OFFSET_def
  HIGH_MEM_SIZE_def LOW_MEM_LIMIT_def HIGH_MEM_LIMIT_def

section \<open>Addresses\<close>

definition align_down :: "u64 \<Rightarrow> u64" where
  "align_down addr = addr AND NOT (ALLOC_ALIGN_SIZE - 1)"

definition align_up :: "u64 \<Rightarrow> shadow_error + u64" where
  "align_up addr =
     (if addr \<le> -1 - (ALLOC_ALIGN_SIZE - 1)
      then Inr ((addr + (ALLOC_ALIGN_SIZE - 1)) AND NOT (ALLOC_ALIGN_SIZE - 1))
      else Inl ShadowPanic)"

definition remainder :: "u64 \<Rightarrow> u64" where
  "remainder addr = addr AND (ALLOC_ALIGN_SIZE - 1)"

definition is_out_of_bounds :: "u64 \<Rightarrow> u64 \<Rightarrow> bool" where
  "is_out_of_bounds addr len = (if len = 0 then False else -1 - len + 1 < addr)"

definition is_start_aligned :: "u64 \<Rightarrow> bool" where
  "is_start_aligned addr = (remainder addr = 0)"

definition end_remainder :: "u64 \<Rightarrow> u64 \<Rightarrow> u64" where
  "end_remainder addr len = remainder (remainder addr + remainder len)"

definition is_end_aligned :: "u64 \<Rightarrow> u64 \<Rightarrow> bool" where
  "is_end_aligned addr len = (end_remainder addr len = 0)"

definition is_low_memory :: "u64 \<Rightarrow> u64 \<Rightarrow> bool" where
  "is_low_memory addr len =
     (if \<not> (LOW_MEM_OFFSET \<le> addr \<and> addr \<le> LOW_MEM_LIMIT) then False
      else len \<le> LOW_MEM_LIMIT - addr + 1)"

definition is_high_memory :: "u64 \<Rightarrow> u64 \<Rightarrow> bool" where
  "is_high_memory addr len =
     (if \<not> (HIGH_MEM_OFFSET \<le> addr \<and> addr \<le> HIGH_MEM_LIMIT) then False
      else len \<le> HIGH_MEM_LIMIT - addr + 1)"

definition is_memory :: "u64 \<Rightarrow> u64 \<Rightarrow> bool" where
  "is_memory addr len \<longleftrightarrow> is_low_memory addr len \<or> is_high_memory addr len"

section \<open>The shadow regions\<close>

record guest_shadow =
  gs_lo :: "u64 \<Rightarrow> u8"
  gs_hi :: "u64 \<Rightarrow> u8"

datatype region = Lo | Hi

fun region_size :: "region \<Rightarrow> u64" where
  "region_size Lo = LOW_SHADOW_SIZE"
| "region_size Hi = HIGH_SHADOW_SIZE"

fun region_bytes :: "guest_shadow \<Rightarrow> region \<Rightarrow> u64 \<Rightarrow> u8" where
  "region_bytes s Lo = gs_lo s"
| "region_bytes s Hi = gs_hi s"

type_synonym slice = "region \<times> u64 \<times> u64"

text \<open>The mappings are fresh, so they read as zero; \<open>mapped\<close> tells whether the mapping succeeded.\<close>

definition map_shadow :: "(u64 \<Rightarrow> u64 \<Rightarrow> bool) \<Rightarrow> u64 \<Rightarrow> u64 \<Rightarrow> shadow_error + (u64 \<Rightarrow> u8)" where
  "map_shadow mapped addr sz = (if mapped addr sz then Inr (\<lambda>_. 0) else Inl ShadowMmapError)"

definition shadow_new :: "(u64 \<Rightarrow> u64 \<Rightarrow> bool) \<Rightarrow> shadow_error + guest_shadow" where
  "shadow_new mapped =
     rbind (map_shadow mapped LOW_SHADOW_OFFSET LOW_SHADOW_SIZE) (\<lambda>lo.
     rbind (map_shadow mapped HIGH_SHADOW_OFFSET HIGH_SHADOW_SIZE) (\<lambda>hi.
     Inr \<lparr>gs_lo = lo, gs_hi = hi\<rparr>))"

definition slice_region :: "region \<Rightarrow> u64 \<Rightarrow> u64 \<Rightarrow> shadow_error + slice" where
  "slice_region r offset n =
     (if offset \<le> offset + n \<and> offset + n \<le> region_size r then Inr (r, offset, n)
      else Inl ShadowPanic)"

definition read_slice :: "guest_shadow \<Rightarrow> slice \<Rightarrow> u8 list" where
  "read_slice s = (\<lambda>(r, offset, n). map (\<lambda>i. region_bytes s r (offset + of_nat i)) [0..<unat n])"

definition fill_slice :: "slice \<Rightarrow> u8 \<Rightarrow> guest_shadow \<Rightarrow> guest_shadow" where
  "fill_slice = (\<lambda>(r, offset, n) v s.
     case r of
       Lo \<Rightarrow> s\<lparr>gs_lo := (\<lambda>i. if offset \<le> i \<and> i < offset + n then v else gs_lo s i)\<rparr>
     | Hi \<Rightarrow> s\<lparr>gs_hi := (\<lambda>i. if offset \<le> i \<and> i < offset + n then v else gs_hi s i)\<rparr>)"

text \<open>Reading and writing the element at index 0, which panics on an empty slice.\<close>

definition first_of :: "guest_shadow \<Rightarrow> slice \<Rightarrow> shadow_error + u8" where
  "first_of s = (\<lambda>(r, offset, n). if n = 0 then Inl ShadowPanic else Inr (region_bytes s r offset))"

definition set_first :: "slice \<Rightarrow> u8 \<Rightarrow> guest_shadow \<Rightarrow> shadow_error + guest_shadow" where
  "set_first = (\<lambda>(r, offset, n) v s.
     if n = 0 then Inl ShadowPanic else Inr (fill_slice (r, offset, 1) v s))"

definition get_shadow :: "u64 \<Rightarrow> u64 \<Rightarrow> shadow_error + slice" where
  "get_shadow addr len =
     (if addr mod ALLOC_ALIGN_SIZE \<noteq> 0 \<or> len mod ALLOC_ALIGN_SIZE \<noteq> 0 then Inl ShadowPanic
      else let shadow_addr = drop_bit ALLOC_ALIGN_POW addr + SHADOW_OFFSET;
               shadow_len = drop_bit ALLOC_ALIGN_POW len
           in if is_low_memory addr len
              then slice_region Lo (shadow_addr - LOW_SHADOW_OFFSET) shadow_len
              else if is_high_memory addr len
              then slice_region Hi (shadow_addr - HIGH_SHADOW_OFFSET) shadow_len
              else Inl (InvalidMemoryAddress addr))"

definition get_shadow_mut :: "u64 \<Rightarrow> u64 \<Rightarrow> shadow_error + slice" where
  "get_shadow_mut addr len =
     (if addr mod ALLOC_ALIGN_SIZE \<noteq> 0 \<or> len mod ALLOC_ALIGN_SIZE \<noteq> 0 then Inl ShadowPanic
      else let shadow_addr = drop_bit ALLOC_ALIGN_POW addr + SHADOW_OFFSET
           in rbind (align_up len) (\<lambda>aligned_len.
              let shadow_len = drop_bit ALLOC_ALIGN_POW aligned_len
              in if is_low_memory addr len
                 then slice_region Lo (shadow_addr - LOW_SHADOW_OFFSET) shadow_len
                 else if is_high_memory addr len
                 then slice_region Hi (shadow_addr - HIGH_SHADOW_OFFSET) shadow_len
                 else Inl (InvalidMemoryAddress addr)))"

section \<open>The operations\<close>

text \<open>\<open>poison\<close>: first the odd bytes at the unaligned start, then the rest, whose end is aligned.\<close>

definition poison_start :: "u64 \<Rightarrow> u64 \<Rightarrow> guest_shadow \<Rightarrow> shadow_error + u64 \<times> guest_shadow" where
  "poison_start start len s =
     (if is_start_aligned start then Inr (len, s)
      else let first_unpoisoned = remainder start;
               poisoned = ALLOC_ALIGN_SIZE - first_unpoisoned;
               remaining_len = len - poisoned
           in rbind (get_shadow_mut (align_down start) ALLOC_ALIGN_SIZE) (\<lambda>first_shadow.
              rbind (set_first first_shadow (ucast first_unpoisoned) s) (\<lambda>s.
              Inr (remaining_len, s))))"

definition poison :: "u64 \<Rightarrow> u64 \<Rightarrow> poison_type \<Rightarrow> guest_shadow \<Rightarrow> shadow_error + guest_shadow" where
  "poison start len pt s =
     (if is_out_of_bounds start len then Inl (AddressRangeOverflow start len)
      else if \<not> is_memory start len then Inl (InvalidMemoryAddress start)
      else if \<not> is_end_aligned start len then Inl (UnalignedEndAddress start len)
      else if len = 0 then Inr s
      else rbind (poison_start start len s) (\<lambda>(remaining_len, s).
        if remaining_len = 0 then Inr s
        else rbind (align_up start) (\<lambda>start_aligned_up.
             rbind (get_shadow_mut start_aligned_up remaining_len) (\<lambda>shadow_map.
             Inr (fill_slice shadow_map (poison_value pt) s)))))"

definition unpoison_end :: "u64 \<Rightarrow> u64 \<Rightarrow> guest_shadow \<Rightarrow> shadow_error + u64 \<times> guest_shadow" where
  "unpoison_end start len s =
     (if is_end_aligned start len then Inr (len, s)
      else let end_aligned = start + align_down len;
               last_unpoisoned = remainder len;
               remaining_len = len - last_unpoisoned
           in rbind (get_shadow_mut end_aligned ALLOC_ALIGN_SIZE) (\<lambda>last_shadow.
              rbind (set_first last_shadow (ucast last_unpoisoned) s) (\<lambda>s.
              Inr (remaining_len, s))))"

definition unpoison :: "u64 \<Rightarrow> u64 \<Rightarrow> guest_shadow \<Rightarrow> shadow_error + guest_shadow" where
  "unpoison start len s =
     (if is_out_of_bounds start len then Inl (AddressRangeOverflow start len)
      else if \<not> is_memory start len then Inl (InvalidMemoryAddress start)
      else if \<not> is_start_aligned start then Inl (UnalignedStartAddress start len)
      else if len = 0 then Inr s
      else rbind (unpoison_end start len s) (\<lambda>(remaining_len, s).
        if remaining_len = 0 then Inr s
        else rbind (get_shadow_mut start (align_down len)) (\<lambda>shadow_map.
             Inr (fill_slice shadow_map (poison_value AsanValid) s))))"

text \<open>
  \<open>is_poison\<close>: the granule of an unaligned start, the granule of an unaligned end, and the whole
  granules between them.
\<close>

definition poison_at_start :: "u64 \<Rightarrow> u64 \<Rightarrow> guest_shadow \<Rightarrow> shadow_error + bool option \<times> u64" where
  "poison_at_start start len s =
     (if is_start_aligned start then Inr (None, len)
      else let skipped = remainder start;
               first_len = ALLOC_ALIGN_SIZE - skipped
           in rbind (get_shadow (align_down start) ALLOC_ALIGN_SIZE) (\<lambda>k_start.
              rbind (first_of s k_start) (\<lambda>first_k.
              if len \<le> first_len
              then let test_len = ucast (len + skipped) :: u8
                   in Inr (Some (first_k \<noteq> 0 \<and> first_k <s test_len), len)
              else let remaining_len = len - first_len
                   in Inr (if first_k \<noteq> 0 then Some True else None, remaining_len))))"

definition poison_at_end ::
  "u64 \<Rightarrow> u64 \<Rightarrow> u64 \<Rightarrow> guest_shadow \<Rightarrow> shadow_error + bool option \<times> u64" where
  "poison_at_end start len remaining_len s =
     (if is_end_aligned start len then Inr (None, remaining_len)
      else let last_len = end_remainder start len;
               remaining_len = remaining_len - last_len
           in rbind (get_shadow (align_down (start + len)) ALLOC_ALIGN_SIZE) (\<lambda>k_end.
              rbind (first_of s k_end) (\<lambda>last_k.
              Inr (if last_k \<noteq> 0 \<and> last_k <s (ucast last_len :: u8) then Some True else None,
                remaining_len))))"

definition poison_rest :: "u64 \<Rightarrow> u64 \<Rightarrow> u64 \<Rightarrow> guest_shadow \<Rightarrow> shadow_error + bool" where
  "poison_rest start len remaining_len s =
     rbind (poison_at_end start len remaining_len s) (\<lambda>(answer, remaining_len).
       case answer of Some b \<Rightarrow> Inr b
       | None \<Rightarrow>
           if remaining_len = 0 then Inr False
           else rbind (align_up start) (\<lambda>start_aligned.
                rbind (get_shadow start_aligned remaining_len) (\<lambda>shadow_map.
                Inr (list_ex (\<lambda>v. v \<noteq> poison_value AsanValid) (read_slice s shadow_map)))))"

definition is_poison :: "u64 \<Rightarrow> u64 \<Rightarrow> guest_shadow \<Rightarrow> shadow_error + bool" where
  "is_poison start len s =
     (if is_out_of_bounds start len then Inl (AddressRangeOverflow start len)
      else if \<not> is_memory start len then Inl (InvalidMemoryAddress start)
      else if len = 0 then Inr False
      else rbind (poison_at_start start len s) (\<lambda>(answer, remaining_len).
        case answer of Some b \<Rightarrow> Inr b | None \<Rightarrow> poison_rest start len remaining_len s))"

text \<open>\<open>load\<close> and \<open>store\<close> are the same check.\<close>

definition shadow_load :: "u64 \<Rightarrow> u64 \<Rightarrow> guest_shadow \<Rightarrow> shadow_error + unit" where
  "shadow_load start len s =
     rbind (is_poison start len s) (\<lambda>b. if b then Inl (Poisoned start len) else Inr ())"

definition shadow_store :: "u64 \<Rightarrow> u64 \<Rightarrow> guest_shadow \<Rightarrow> shadow_error + unit" where
  "shadow_store start len s =
     rbind (is_poison start len s) (\<lambda>b. if b then Inl (Poisoned start len) else Inr ())"

section \<open>The address arithmetic in natural numbers\<close>

lemma ALLOC_ALIGN_SIZE_eq: "ALLOC_ALIGN_SIZE = 8"
  by (simp add: ALLOC_ALIGN_SIZE_def ALLOC_ALIGN_POW_def push_bit_eq_mult)

lemma unat_remainder: "unat (remainder a) = unat a mod 8"
proof -
  have "remainder a = take_bit 3 a"
    by (simp add: remainder_def ALLOC_ALIGN_SIZE_eq take_bit_eq_mask mask_eq_exp_minus_1)
  then show ?thesis by (simp add: take_bit_eq_mod unat_mod_distrib)
qed

lemma remainder_plus_and_not: "remainder a + (a AND NOT (ALLOC_ALIGN_SIZE - 1)) = a"
proof -
  have "remainder a AND (a AND NOT (ALLOC_ALIGN_SIZE - 1)) = 0"
    unfolding remainder_def by (rule bit_word_eqI) (simp add: bit_simps)
  then have "remainder a + (a AND NOT (ALLOC_ALIGN_SIZE - 1))
      = remainder a OR (a AND NOT (ALLOC_ALIGN_SIZE - 1))"
    by (rule disjunctive_add_eq_or)
  also have "\<dots> = a" unfolding remainder_def by (rule bit_word_eqI) (auto simp: bit_simps)
  finally show ?thesis .
qed

lemma unat_and_not: "unat (a AND NOT (ALLOC_ALIGN_SIZE - 1)) = unat a - unat a mod 8"
proof -
  have "a AND NOT (ALLOC_ALIGN_SIZE - 1) = a - remainder a"
    using remainder_plus_and_not [of a] by (simp add: algebra_simps)
  moreover have "remainder a \<le> a" by (simp add: word_le_nat_alt unat_remainder)
  ultimately show ?thesis by (simp add: unat_sub unat_remainder)
qed

lemma unat_align_down: "unat (align_down a) = unat a - unat a mod 8"
  by (simp only: align_down_def unat_and_not)

lemma unat_add_64: "unat a + unat b < 18446744073709551616 \<Longrightarrow> unat (a + b :: u64) = unat a + unat b"
  by (simp add: unat_add_lem [THEN iffD1])

lemma unat_max_64: "unat (-1 :: u64) = 18446744073709551615"
  by (simp add: unsigned_minus_1_eq_mask mask_eq_exp_minus_1)

lemma align_up_ok:
  assumes "unat a + 7 < 18446744073709551616"
  obtains b where "align_up a = Inr b" "unat b = (unat a + 7) div 8 * 8"
proof
  have "unat (-1 - (ALLOC_ALIGN_SIZE - 1)) = 18446744073709551608" by (simp add: ALLOC_ALIGN_SIZE_eq)
  then show "align_up a = Inr ((a + (ALLOC_ALIGN_SIZE - 1)) AND NOT (ALLOC_ALIGN_SIZE - 1))"
    using assms by (simp add: align_up_def word_le_nat_alt)
  have "unat (a + (ALLOC_ALIGN_SIZE - 1)) = unat a + 7"
    using assms by (subst unat_add_64) (simp_all add: ALLOC_ALIGN_SIZE_eq)
  then show "unat ((a + (ALLOC_ALIGN_SIZE - 1)) AND NOT (ALLOC_ALIGN_SIZE - 1)) = (unat a + 7) div 8 * 8"
    by (simp only: unat_and_not minus_mod_eq_div_mult)
qed

lemma unat_end_remainder: "unat (end_remainder a n) = (unat a + unat n) mod 8"
proof -
  have "unat (remainder a + remainder n) = unat a mod 8 + unat n mod 8"
  proof -
    have "unat a mod 8 < 8" "unat n mod 8 < 8" by simp_all
    then have "unat (remainder a) + unat (remainder n) < 18446744073709551616"
      unfolding unat_remainder by linarith
    then show ?thesis by (subst unat_add_64) (simp_all only: unat_remainder)
  qed
  then show ?thesis by (simp add: end_remainder_def unat_remainder mod_add_eq)
qed

text \<open>The bytes \<open>[a, a + n)\<close> lie in the low or in the high memory.\<close>

definition in_memory :: "nat \<Rightarrow> nat \<Rightarrow> bool" where
  "in_memory a n \<longleftrightarrow> a < 0x7fff8000 \<and> a + n \<le> 0x7fff8000 \<or>
     0x10007fff8000 \<le> a \<and> a < 0x800000000000 \<and> a + n \<le> 0x800000000000"

lemma is_low_memory_unat:
  "is_low_memory a n \<longleftrightarrow> unat a < 0x7fff8000 \<and> unat a + unat n \<le> 0x7fff8000"
proof (cases "unat a < 0x7fff8000")
  case True
  then have "unat (0x7fff7fff - a) = 0x7fff7fff - unat a"
    by (subst unat_sub) (simp_all add: word_le_nat_alt)
  then have "unat (0x7fff7fff - a + 1) = 0x7fff8000 - unat a"
    using True by (subst unat_add_64) simp_all
  with True show ?thesis
    by (auto simp: is_low_memory_def layout_defs word_le_nat_alt)
qed (simp add: is_low_memory_def layout_defs word_le_nat_alt)

lemma is_high_memory_unat:
  "is_high_memory a n \<longleftrightarrow> 0x10007fff8000 \<le> unat a \<and> unat a < 0x800000000000 \<and>
     unat a + unat n \<le> 0x800000000000"
proof (cases "unat a < 0x800000000000")
  case True
  then have "unat (0x7fffffffffff - a) = 0x7fffffffffff - unat a"
    by (subst unat_sub) (simp_all add: word_le_nat_alt)
  then have "unat (0x7fffffffffff - a + 1) = 0x800000000000 - unat a"
    using True by (subst unat_add_64) simp_all
  with True show ?thesis
    by (auto simp: is_high_memory_def layout_defs word_le_nat_alt)
qed (simp add: is_high_memory_def layout_defs word_le_nat_alt)

lemma is_memory_unat: "is_memory a n \<longleftrightarrow> in_memory (unat a) (unat n)"
  by (auto simp: is_memory_def in_memory_def is_low_memory_unat is_high_memory_unat)

lemma in_memory_in_bounds: "in_memory (unat a) (unat n) \<Longrightarrow> \<not> is_out_of_bounds a n"
proof -
  assume m: "in_memory (unat a) (unat n)"
  have "unat (-1 - n + 1) = 18446744073709551616 - unat n" if "n \<noteq> 0"
  proof -
    from that have "0 < unat n" by (simp add: unat_gt_0)
    moreover have "unat (-1 - n) = 18446744073709551615 - unat n"
      using unat_lt_64 [of n] by (subst unat_sub) (simp_all add: word_le_nat_alt unat_max_64)
    moreover have "unat (-1 - n) + 1 < 18446744073709551616"
      using calculation by linarith
    ultimately show ?thesis using unat_lt_64 [of n] by (subst unat_add_64) simp_all
  qed
  with m show ?thesis by (auto simp: is_out_of_bounds_def word_less_nat_alt in_memory_def)
qed

section \<open>What the shadow says about a byte\<close>

text \<open>The shadow byte of the granule of an address, and whether the byte at the address is poisoned.\<close>

definition shadow_at :: "guest_shadow \<Rightarrow> nat \<Rightarrow> u8" where
  "shadow_at s a = (if a < 0x7fff8000 then gs_lo s (of_nat (a div 8))
     else gs_hi s (of_nat (a div 8 - 0x2000ffff000)))"

definition byte_poisoned :: "guest_shadow \<Rightarrow> nat \<Rightarrow> bool" where
  "byte_poisoned s a \<longleftrightarrow> shadow_at s a \<noteq> 0 \<and> sint (shadow_at s a) \<le> int (a mod 8)"

definition region_base :: "region \<Rightarrow> nat" where
  "region_base r = (case r of Lo \<Rightarrow> 0 | Hi \<Rightarrow> 0x10007fff8000)"

definition region_of :: "nat \<Rightarrow> region" where
  "region_of a = (if a < 0x7fff8000 then Lo else Hi)"

lemma high_granule: "((a :: nat) - 0x10007fff8000) div 8 = a div 8 - 0x2000ffff000"
proof (cases "0x10007fff8000 \<le> a")
  case True
  then obtain m where "a = 8 * 0x2000ffff000 + m" by (auto simp: le_iff_add)
  then show ?thesis by (simp only: diff_add_inverse div_mult_self4)
qed simp

lemma shadow_at_region:
  "shadow_at s a = region_bytes s (region_of a) (of_nat ((a - region_base (region_of a)) div 8))"
proof (cases "a < 0x7fff8000")
  case False
  have "(a - 0x10007fff8000) div 8 = a div 8 - 0x2000ffff000" by (rule high_granule)
  with False show ?thesis by (simp add: shadow_at_def region_of_def region_base_def)
qed (simp add: shadow_at_def region_of_def region_base_def)

text \<open>The slice of the shadow that belongs to aligned bytes.\<close>

definition shadow_slice :: "nat \<Rightarrow> nat \<Rightarrow> slice" where
  "shadow_slice a n = (region_of a, of_nat ((a - region_base (region_of a)) div 8), of_nat (n div 8))"

lemma word_mod_8_eq_0: "(a :: u64) mod 8 = 0 \<longleftrightarrow> unat a mod 8 = 0"
  by (simp add: unat_mod_distrib flip: unat_eq_0)

lemma unat_drop_bit_3: "unat (drop_bit 3 a :: u64) = unat a div 8"
  by (simp add: drop_bit_eq_div unat_div_distrib)

lemma slice_of_granules:
  assumes "in_memory (unat a) (unat n)" "unat a mod 8 = 0" "unat n mod 8 = 0"
  shows "(if is_low_memory a n
      then slice_region Lo (drop_bit 3 a + SHADOW_OFFSET - LOW_SHADOW_OFFSET) (drop_bit 3 n)
      else if is_high_memory a n
      then slice_region Hi (drop_bit 3 a + SHADOW_OFFSET - HIGH_SHADOW_OFFSET) (drop_bit 3 n)
      else Inl (InvalidMemoryAddress a)) = Inr (shadow_slice (unat a) (unat n))"
proof (cases "unat a < 0x7fff8000")
  case True
  have low: "is_low_memory a n" using assms True by (simp add: is_low_memory_unat in_memory_def)
  have off: "drop_bit 3 a + SHADOW_OFFSET - LOW_SHADOW_OFFSET = drop_bit 3 a"
    by (simp add: layout_defs)
  have "unat (drop_bit 3 a + drop_bit 3 n) = unat a div 8 + unat n div 8"
    by (subst unat_add_64) (use assms low in \<open>auto simp: unat_drop_bit_3 is_low_memory_unat\<close>)
  then have "slice_region Lo (drop_bit 3 a) (drop_bit 3 n) = Inr (Lo, drop_bit 3 a, drop_bit 3 n)"
    using low assms by (auto simp: slice_region_def word_le_nat_alt unat_drop_bit_3 layout_defs is_low_memory_unat)
  moreover have "shadow_slice (unat a) (unat n) = (Lo, drop_bit 3 a, drop_bit 3 n)"
    using True by (simp add: shadow_slice_def region_of_def region_base_def flip: unat_drop_bit_3)
  ultimately show ?thesis using low by (simp only: off if_True)
next
  case False
  have nlow: "\<not> is_low_memory a n" using False by (simp add: is_low_memory_unat)
  have high: "is_high_memory a n" using assms False by (simp add: is_high_memory_unat in_memory_def)
  then have a: "0x10007fff8000 \<le> unat a" by (simp add: is_high_memory_unat)
  let ?off = "drop_bit 3 a + SHADOW_OFFSET - HIGH_SHADOW_OFFSET"
  have "unat (drop_bit 3 a + SHADOW_OFFSET) = unat a div 8 + 0x7fff8000"
    by (subst unat_add_64) (use high in \<open>auto simp: unat_drop_bit_3 layout_defs is_high_memory_unat\<close>)
  then have "unat ?off = unat a div 8 - 0x2000ffff000"
    using a by (subst unat_sub) (auto simp: layout_defs word_le_nat_alt)
  also have "\<dots> = (unat a - 0x10007fff8000) div 8"
    by (rule high_granule [symmetric])
  finally have off: "unat ?off = (unat a - 0x10007fff8000) div 8" .
  have "unat (?off + drop_bit 3 n) = (unat a - 0x10007fff8000) div 8 + unat n div 8"
    by (subst unat_add_64) (use high in \<open>auto simp: off unat_drop_bit_3 is_high_memory_unat\<close>)
  then have "slice_region Hi ?off (drop_bit 3 n) = Inr (Hi, ?off, drop_bit 3 n)"
    using high assms by (auto simp: slice_region_def word_le_nat_alt off HIGH_SHADOW_SIZE_def is_high_memory_unat)
  moreover have "shadow_slice (unat a) (unat n) = (Hi, ?off, drop_bit 3 n)"
    using False by (simp add: shadow_slice_def region_of_def region_base_def flip: off unat_drop_bit_3)
  ultimately show ?thesis using nlow high by (simp only: if_True if_False)
qed

lemma get_shadow_eq:
  assumes "in_memory (unat a) (unat n)" "unat a mod 8 = 0" "unat n mod 8 = 0"
  shows "get_shadow a n = Inr (shadow_slice (unat a) (unat n))"
  using assms slice_of_granules [OF assms]
  by (simp add: get_shadow_def ALLOC_ALIGN_SIZE_eq word_mod_8_eq_0 Let_def ALLOC_ALIGN_POW_def)

lemma get_shadow_mut_eq:
  assumes "in_memory (unat a) (unat n)" "unat a mod 8 = 0" "unat n mod 8 = 0"
  shows "get_shadow_mut a n = Inr (shadow_slice (unat a) (unat n))"
proof -
  have "unat n + 7 < 18446744073709551616" using assms(1) by (auto simp: in_memory_def)
  then obtain b where b: "align_up n = Inr b" "unat b = (unat n + 7) div 8 * 8" by (rule align_up_ok)
  have "unat b = unat n" using b(2) assms(3) by presburger
  then have "b = n" by (simp add: unsigned_word_eqI)
  with b(1) assms slice_of_granules [OF assms] show ?thesis
    by (simp add: get_shadow_mut_def ALLOC_ALIGN_SIZE_eq word_mod_8_eq_0 Let_def ALLOC_ALIGN_POW_def)
qed

lemma unat_of_nat_small: "k < 18446744073709551616 \<Longrightarrow> unat (of_nat k :: u64) = k"
  by (simp add: unsigned_of_nat take_bit_nat_eq_self_iff)

lemma region_within:
  assumes "in_memory a n" "i < n"
  shows "region_of (a + i) = region_of a" "region_base (region_of a) \<le> a"
  using assms by (auto simp: in_memory_def region_of_def region_base_def)

lemma granule_index:
  assumes "region_base r \<le> a"
  shows "(a + 8 * i - region_base r) div 8 = (a - region_base r) div 8 + i"
proof -
  from assms obtain m where "a = region_base r + m" by (auto simp: le_iff_add)
  then show ?thesis by (simp add: add.assoc)
qed

lemma read_shadow_slice:
  assumes "in_memory a n" "n mod 8 = 0"
  shows "read_slice s (shadow_slice a n) = map (\<lambda>i. shadow_at s (a + 8 * i)) [0..<n div 8]"
proof -
  have "unat (of_nat (n div 8) :: u64) = n div 8"
    by (rule unat_of_nat_small) (use assms in \<open>auto simp: in_memory_def\<close>)
  moreover have "region_bytes s (region_of a) (of_nat ((a - region_base (region_of a)) div 8) + of_nat i)
      = shadow_at s (a + 8 * i)" if "i < n div 8" for i
  proof -
    from that have "8 * i < n" by linarith
    note r = region_within [OF assms(1) this]
    show ?thesis by (simp add: shadow_at_region r(1) granule_index [OF r(2)])
  qed
  ultimately show ?thesis by (simp add: read_slice_def shadow_slice_def)
qed

lemma first_of_shadow_slice: "in_memory a 8 \<Longrightarrow> first_of s (shadow_slice a 8) = Inr (shadow_at s a)"
  by (simp add: first_of_def shadow_slice_def shadow_at_region)

lemma set_first_shadow_slice: "set_first (shadow_slice a 8) v s = Inr (fill_slice (shadow_slice a 8) v s)"
  by (simp add: set_first_def shadow_slice_def)

lemma shadow_at_fill:
  assumes "in_memory a n" "a mod 8 = 0" "n mod 8 = 0" "in_memory b 1"
  shows "shadow_at (fill_slice (shadow_slice a n) v s) b =
    (if a \<le> b \<and> b < a + n then v else shadow_at s b)"
proof (cases "region_of b = region_of a")
  case True
  define base where "base = region_base (region_of a)"
  have base: "base \<le> a" "base \<le> b" "base mod 8 = 0"
    using assms(1,4) True by (auto simp: base_def in_memory_def region_of_def region_base_def split: if_splits)
  let ?a = "(a - base) div 8" and ?b = "(b - base) div 8" and ?n = "n div 8"
  have small: "?a < 18446744073709551616" "?b < 18446744073709551616" "?n < 18446744073709551616"
    "?a + ?n < 18446744073709551616"
    using assms(1,4) by (auto simp: in_memory_def)
  have sum: "unat (of_nat ?a + of_nat ?n :: u64) = ?a + ?n"
    by (subst unat_add_64) (simp_all add: unat_of_nat_small small)
  have "(of_nat ?a :: u64) \<le> of_nat ?b \<longleftrightarrow> ?a \<le> ?b" "(of_nat ?b :: u64) < of_nat ?a + of_nat ?n \<longleftrightarrow> ?b < ?a + ?n"
    by (simp_all add: word_le_nat_alt word_less_nat_alt sum unat_of_nat_small small)
  moreover have "?a \<le> ?b \<longleftrightarrow> a \<le> b" "?b < ?a + ?n \<longleftrightarrow> b < a + n"
  proof -
    obtain x y where x: "a = base + x" and y: "b = base + y" using base(1,2) by (auto simp: le_iff_add)
    have "x mod 8 = 0" using assms(2) base(3) unfolding x by (metis add.commute add_0 mod_add_right_eq)
    then obtain p where p: "x = 8 * p" by auto
    obtain m where m: "n = 8 * m" using assms(3) by auto
    have "p \<le> y div 8 \<longleftrightarrow> 8 * p \<le> y" by (simp add: less_eq_div_iff_mult_less_eq mult.commute)
    then show "?a \<le> ?b \<longleftrightarrow> a \<le> b" by (simp add: x y p)
    have "y div 8 < p + m \<longleftrightarrow> y < 8 * p + 8 * m" by (simp add: div_less_iff_less_mult algebra_simps)
    then show "?b < ?a + ?n \<longleftrightarrow> b < a + n" by (simp add: x y p m)
  qed
  ultimately show ?thesis
    using True by (cases "region_of a")
      (simp_all add: shadow_at_region shadow_slice_def fill_slice_def base_def)
next
  case False
  then have "\<not> (a \<le> b \<and> b < a + n)"
    using assms(1,4) by (auto simp: in_memory_def region_of_def split: if_splits)
  with False show ?thesis
    by (cases "region_of a"; cases "region_of b")
      (auto simp: shadow_at_region shadow_slice_def fill_slice_def)
qed

section \<open>The three operations\<close>

text \<open>Every shadow byte is 0, 1 to 7, or negative.\<close>

definition shadow_wf :: "guest_shadow \<Rightarrow> bool" where
  "shadow_wf s \<longleftrightarrow> (\<forall>a. in_memory a 1 \<longrightarrow> sint (shadow_at s a) < 8)"

lemma shadow_at_granule: "shadow_at s (a - a mod 8) = shadow_at s a"
proof -
  have "a - a mod 8 < 0x7fff8000 \<longleftrightarrow> a < 0x7fff8000" by presburger
  then show ?thesis by (simp add: shadow_at_def minus_mod_eq_div_mult)
qed

lemma in_memory_granule:
  assumes "in_memory a n" "i < n" shows "in_memory (a + i - (a + i) mod 8) 8" "in_memory (a + i) 1"
proof -
  have "x - x mod 8 + 8 \<le> y" if "x < y" "y mod 8 = 0" for x y :: nat using that by presburger
  moreover have "y \<le> x - x mod 8" if "y \<le> x" "y mod 8 = 0" for x y :: nat using that by presburger
  ultimately show "in_memory (a + i - (a + i) mod 8) 8"
    using assms by (auto simp: in_memory_def intro: le_less_trans)
  show "in_memory (a + i) 1" using assms by (auto simp: in_memory_def)
qed

lemma same_granule:
  fixes a x :: nat
  assumes "a - a mod 8 \<le> x" "x < a - a mod 8 + 8"
  shows "x - x mod 8 = a - a mod 8" "x mod 8 = x - (a - a mod 8)"
proof -
  have "a - a mod 8 = 8 * (a div 8)" by (simp add: minus_mod_eq_mult_div)
  with assms obtain r where "x = 8 * (a div 8) + r" "r < 8" by (metis le_iff_add nat_add_left_cancel_less)
  then show "x - x mod 8 = a - a mod 8" "x mod 8 = x - (a - a mod 8)"
    by (simp_all add: minus_mod_eq_mult_div)
qed

lemma byte_poisoned_granule:
  assumes "a - a mod 8 \<le> x" "x < a - a mod 8 + 8"
  shows "byte_poisoned s x \<longleftrightarrow> shadow_at s a \<noteq> 0 \<and> sint (shadow_at s a) \<le> int (x - (a - a mod 8))"
proof -
  have "shadow_at s x = shadow_at s a"
    using same_granule(1) [OF assms] shadow_at_granule [of s x] shadow_at_granule [of s a] by simp
  then show ?thesis using same_granule(2) [OF assms] by (simp add: byte_poisoned_def)
qed

text \<open>Of the bytes \<open>[a, b)\<close> in one granule the last one decides.\<close>

lemma granule_poisoned:
  assumes "a < b" "b \<le> a - a mod 8 + 8"
  shows "(\<exists>x\<in>{a..<b}. byte_poisoned s x) \<longleftrightarrow>
    shadow_at s a \<noteq> 0 \<and> sint (shadow_at s a) < int (b - (a - a mod 8))"
proof -
  let ?g = "a - a mod 8"
  have byte: "byte_poisoned s x \<longleftrightarrow> shadow_at s a \<noteq> 0 \<and> sint (shadow_at s a) \<le> int (x - ?g)"
    if "x \<in> {a..<b}" for x
    using that assms by (intro byte_poisoned_granule) auto
  show ?thesis
  proof
    assume "\<exists>x\<in>{a..<b}. byte_poisoned s x"
    then obtain x where "x \<in> {a..<b}" "byte_poisoned s x" by blast
    with byte [of x] show "shadow_at s a \<noteq> 0 \<and> sint (shadow_at s a) < int (b - ?g)" by auto
  next
    assume "shadow_at s a \<noteq> 0 \<and> sint (shadow_at s a) < int (b - ?g)"
    with byte [of "b - 1"] assms have "byte_poisoned s (b - 1)" by auto
    with assms(1) show "\<exists>x\<in>{a..<b}. byte_poisoned s x" by (intro bexI [of _ "b - 1"]) auto
  qed
qed

lemma granule_poisoned_full:
  assumes "shadow_wf s" "in_memory a 1" "b = a - a mod 8 + 8"
  shows "(\<exists>x\<in>{a..<b}. byte_poisoned s x) \<longleftrightarrow> shadow_at s a \<noteq> 0"
proof -
  have "a < b" using assms(3) mod_less_divisor [of 8 a] by linarith
  moreover have "sint (shadow_at s a) < 8" using assms(1,2) by (simp add: shadow_wf_def)
  ultimately show ?thesis using granule_poisoned [of a b s] assms(3) by simp
qed

lemma granules_poisoned:
  assumes "shadow_wf s" "in_memory a (8 * n)" "a mod 8 = 0"
  shows "list_ex (\<lambda>v. v \<noteq> 0) (map (\<lambda>i. shadow_at s (a + 8 * i)) [0..<n]) \<longleftrightarrow>
    (\<exists>x\<in>{a..<a + 8 * n}. byte_poisoned s x)"
proof -
  have "(\<exists>x\<in>{a + 8 * i..<a + 8 * i + 8}. byte_poisoned s x) \<longleftrightarrow> shadow_at s (a + 8 * i) \<noteq> 0"
    if "i < n" for i
    using that assms by (intro granule_poisoned_full) (auto simp: in_memory_def)
  moreover have "{a..<a + 8 * n} = (\<Union>i<n. {a + 8 * i..<a + 8 * i + 8})"
    by (induction n) (auto simp: lessThan_Suc)
  ultimately show ?thesis by (auto simp: list_ex_iff)
qed

lemma two_pow_8: "(2 :: int) ^ 8 = 256" and two_pow_7: "(2 :: int) ^ 7 = 128"
  by simp_all

lemma granule_bounds:
  "x - x mod 8 \<le> x" "x < x - x mod 8 + 8" "(x - x mod 8) mod 8 = 0"
  "x mod 8 \<noteq> 0 \<Longrightarrow> x - x mod 8 < x" for x :: nat
  using mod_less_divisor [of 8 x] by (linarith, linarith, simp add: minus_mod_eq_mult_div,
    metis diff_less mod_less_eq_dividend less_le_trans not_gr_zero)

lemma sint_ucast_small:
  assumes "unat (w :: u64) < 128" shows "sint (ucast w :: u8) = int (unat w)"
proof -
  have "uint (ucast w :: u8) = take_bit 8 (uint w)" by (simp add: unsigned_ucast_eq)
  also have "\<dots> = take_bit 8 (int (unat w))" by (simp only: uint_nat)
  also have "\<dots> = int (unat w)"
  proof (rule take_bit_int_eq_self)
    have "int (unat w) < 256" using assms by linarith
    then show "int (unat w) < 2 ^ 8" by (metis two_pow_8)
  qed (rule of_nat_0_le_iff)
  finally have u: "uint (ucast w :: u8) = int (unat w)" .
  have "sint (ucast w :: u8) = signed_take_bit 7 (uint (ucast w :: u8))"
    by (simp add: sint_uint)
  also have "\<dots> = int (unat w)"
    unfolding u
  proof (rule signed_take_bit_int_eq_self)
    have "int (unat w) < 128" using assms by linarith
    then show "int (unat w) < 2 ^ 7" by (metis two_pow_7)
    show "- (2 ^ 7) \<le> int (unat w)" by (rule order_trans [OF _ of_nat_0_le_iff]) simp
  qed
  finally show ?thesis .
qed

lemma is_start_aligned_unat: "is_start_aligned a \<longleftrightarrow> unat a mod 8 = 0"
  by (simp add: is_start_aligned_def unat_remainder flip: unat_eq_0)

lemma is_end_aligned_unat: "is_end_aligned a n \<longleftrightarrow> (unat a + unat n) mod 8 = 0"
  by (simp add: is_end_aligned_def unat_end_remainder flip: unat_eq_0)

lemma first_granule:
  assumes "in_memory (unat start) (unat len)" "len \<noteq> 0"
  shows "get_shadow (align_down start) ALLOC_ALIGN_SIZE
      = Inr (shadow_slice (unat start - unat start mod 8) 8)"
    "get_shadow_mut (align_down start) ALLOC_ALIGN_SIZE
      = Inr (shadow_slice (unat start - unat start mod 8) 8)"
    "in_memory (unat start - unat start mod 8) 8" "in_memory (unat start) 1"
proof -
  have n: "0 < unat len" using assms(2) by (simp add: unat_gt_0)
  from in_memory_granule [OF assms(1) n] show m: "in_memory (unat start - unat start mod 8) 8"
    "in_memory (unat start) 1" by simp_all
  have "(unat start - unat start mod 8) mod 8 = 0" by presburger
  with m show "get_shadow (align_down start) ALLOC_ALIGN_SIZE
      = Inr (shadow_slice (unat start - unat start mod 8) 8)"
    "get_shadow_mut (align_down start) ALLOC_ALIGN_SIZE
      = Inr (shadow_slice (unat start - unat start mod 8) 8)"
    using get_shadow_eq [of "align_down start" 8] get_shadow_mut_eq [of "align_down start" 8]
    by (simp_all add: unat_align_down ALLOC_ALIGN_SIZE_eq)
qed

lemma unat_first_len:
  "unat (ALLOC_ALIGN_SIZE - remainder start) = 8 - unat start mod 8"
  using mod_less_divisor [of 8 "unat start"]
  by (subst unat_sub) (auto simp: ALLOC_ALIGN_SIZE_eq word_le_nat_alt unat_remainder)

lemma poison_at_start_inside:
  assumes "in_memory (unat start) (unat len)" "len \<noteq> 0" "unat start mod 8 \<noteq> 0"
    "unat len \<le> 8 - unat start mod 8"
  shows "poison_at_start start len s
    = Inr (Some (\<exists>x\<in>{unat start..<unat start + unat len}. byte_poisoned s x), len)"
proof -
  let ?a = "unat start" and ?n = "unat len"
  have le: "len \<le> ALLOC_ALIGN_SIZE - remainder start"
    using assms(4) by (simp add: word_le_nat_alt unat_first_len)
  have "unat (len + remainder start) = ?n + ?a mod 8"
    using assms(4) by (subst unat_add_64) (auto simp: unat_remainder)
  then have "sint (ucast (len + remainder start) :: u8) = int (?n + ?a mod 8)"
    using assms(4) by (subst sint_ucast_small) auto
  also have "?n + ?a mod 8 = ?a + ?n - (?a - ?a mod 8)" by simp
  finally have test: "sint (ucast (len + remainder start) :: u8) = int (?a + ?n - (?a - ?a mod 8))" .
  have "0 < ?n" using assms(2) by (simp add: unat_gt_0)
  moreover have "?a + ?n \<le> ?a - ?a mod 8 + 8" using assms(4) by linarith
  ultimately have "(\<exists>x\<in>{?a..<?a + ?n}. byte_poisoned s x) \<longleftrightarrow>
      shadow_at s ?a \<noteq> 0 \<and> shadow_at s ?a <s (ucast (len + remainder start) :: u8)"
    using granule_poisoned [of ?a "?a + ?n" s] by (simp only: word_sless_alt test)
  with assms(3) le show ?thesis
    by (simp add: poison_at_start_def is_start_aligned_unat first_granule [OF assms(1,2)]
        first_of_shadow_slice shadow_at_granule Let_def)
qed

lemma poison_at_start_beyond:
  assumes "shadow_wf s" "in_memory (unat start) (unat len)" "len \<noteq> 0" "unat start mod 8 \<noteq> 0"
    "8 - unat start mod 8 < unat len"
  obtains r where "poison_at_start start len s = Inr (if \<exists>x\<in>{unat start..<unat start - unat start mod 8 + 8}.
      byte_poisoned s x then Some True else None, r)" "unat r = unat len - (8 - unat start mod 8)"
proof
  have gt: "\<not> len \<le> ALLOC_ALIGN_SIZE - remainder start"
    using assms(5) by (simp add: word_le_nat_alt unat_first_len)
  have "(\<exists>x\<in>{unat start..<unat start - unat start mod 8 + 8}. byte_poisoned s x) \<longleftrightarrow>
      shadow_at s (unat start) \<noteq> 0"
    using assms(1) first_granule(4) [OF assms(2,3)] by (intro granule_poisoned_full) simp_all
  with assms(4) gt show "poison_at_start start len s =
      Inr (if \<exists>x\<in>{unat start..<unat start - unat start mod 8 + 8}. byte_poisoned s x
        then Some True else None, len - (ALLOC_ALIGN_SIZE - remainder start))"
    by (simp add: poison_at_start_def is_start_aligned_unat first_granule [OF assms(2,3)]
        first_of_shadow_slice shadow_at_granule Let_def)
  show "unat (len - (ALLOC_ALIGN_SIZE - remainder start)) = unat len - (8 - unat start mod 8)"
    using gt by (subst unat_sub) (auto simp: unat_first_len)
qed

lemma unat_end:
  fixes start len :: u64
  assumes "in_memory (unat start) (unat len)" shows "unat (start + len) = unat start + unat len"
  by (rule unat_add_64) (use assms in \<open>auto simp: in_memory_def\<close>)

lemma last_granule:
  assumes "in_memory (unat start) (unat len)" "len \<noteq> 0" "(unat start + unat len) mod 8 \<noteq> 0"
  shows "get_shadow (align_down (start + len)) ALLOC_ALIGN_SIZE
      = Inr (shadow_slice (unat start + unat len - (unat start + unat len) mod 8) 8)"
    "in_memory (unat start + unat len - (unat start + unat len) mod 8) 8"
    "in_memory (unat start + unat len) 1"
proof -
  let ?e = "unat start + unat len"
  have "?e \<noteq> 0x7fff8000" "?e \<noteq> 0x800000000000" using assms(3) by auto
  then have "in_memory ?e 1"
    using assms(1) by (auto simp: in_memory_def)
  from in_memory_granule [OF this, of 0] show m: "in_memory (?e - ?e mod 8) 8" by simp
  have "(?e - ?e mod 8) mod 8 = 0" by presburger
  with m show "get_shadow (align_down (start + len)) ALLOC_ALIGN_SIZE = Inr (shadow_slice (?e - ?e mod 8) 8)"
    using get_shadow_eq [of "align_down (start + len)" 8]
    by (simp add: unat_align_down ALLOC_ALIGN_SIZE_eq unat_end [OF assms(1)])
  show "in_memory ?e 1" by fact
qed

lemma poison_at_end_unaligned:
  assumes "in_memory (unat start) (unat len)" "len \<noteq> 0" "(unat start + unat len) mod 8 \<noteq> 0"
    "(unat start + unat len) mod 8 \<le> unat r"
  obtains r' where "poison_at_end start len r s =
      Inr (if \<exists>x\<in>{unat start + unat len - (unat start + unat len) mod 8..<unat start + unat len}.
        byte_poisoned s x then Some True else None, r')"
    "unat r' = unat r - (unat start + unat len) mod 8"
proof
  let ?e = "unat start + unat len"
  let ?g = "?e - ?e mod 8"
  have g: "?g - ?g mod 8 = ?g" by (simp only: granule_bounds(3) diff_zero)
  have "sint (ucast (end_remainder start len) :: u8) = int (unat (end_remainder start len))"
    by (rule sint_ucast_small) (simp add: unat_end_remainder less_trans [OF mod_less_divisor])
  also have "\<dots> = int (?e - ?g)" by (simp add: unat_end_remainder)
  finally have test: "sint (ucast (end_remainder start len) :: u8) = int (?e - ?g)" .
  have "?g < ?e" "?e \<le> ?g + 8"
    using granule_bounds(4) [OF assms(3)] granule_bounds(2) [of ?e] by simp_all
  then have "(\<exists>x\<in>{?g..<?e}. byte_poisoned s x) \<longleftrightarrow>
      shadow_at s ?g \<noteq> 0 \<and> shadow_at s ?g <s (ucast (end_remainder start len) :: u8)"
    using granule_poisoned [of ?g ?e s] by (simp only: word_sless_alt test g)
  then show "poison_at_end start len r s = Inr (if \<exists>x\<in>{?g..<?e}. byte_poisoned s x
      then Some True else None, r - end_remainder start len)"
    using assms(3) by (simp add: poison_at_end_def is_end_aligned_unat last_granule [OF assms(1-3)]
        first_of_shadow_slice Let_def)
  show "unat (r - end_remainder start len) = unat r - ?e mod 8"
    using assms(4) by (subst unat_sub) (simp_all add: word_le_nat_alt unat_end_remainder)
qed

lemma whole_granules:
  assumes "shadow_wf s" "in_memory (unat start) (unat len)" "a = (unat start + 7) div 8 * 8"
    "a + unat r \<le> unat start + unat len" "unat r mod 8 = 0"
  shows "(if r = 0 then Inr False
      else rbind (align_up start) (\<lambda>start_aligned.
           rbind (get_shadow start_aligned r) (\<lambda>shadow_map.
           Inr (list_ex (\<lambda>v. v \<noteq> poison_value AsanValid) (read_slice s shadow_map)))))
    = Inr (\<exists>x\<in>{a..<a + unat r}. byte_poisoned s x)"
proof (cases "r = 0")
  case False
  then have r: "0 < unat r" by (simp add: unat_gt_0)
  have "unat start + 7 < 18446744073709551616" using assms(2) by (auto simp: in_memory_def)
  then obtain b where "align_up start = Inr b" "unat b = (unat start + 7) div 8 * 8" by (rule align_up_ok)
  then have b: "align_up start = Inr b" "unat b = a" using assms(3) by simp_all
  have "unat start \<le> a" unfolding assms(3) by presburger
  then have m: "in_memory a (unat r)" using assms(2,4) r by (auto simp: in_memory_def)
  have a8: "a mod 8 = 0" using assms(3) by simp
  have "get_shadow b r = Inr (shadow_slice a (unat r))"
    using get_shadow_eq [of b r] m a8 assms(5) b(2) by simp
  moreover have n: "unat r = 8 * (unat r div 8)" using assms(5) by auto
  have "list_ex (\<lambda>v. v \<noteq> 0) (read_slice s (shadow_slice a (unat r)))
      \<longleftrightarrow> (\<exists>x\<in>{a..<a + unat r}. byte_poisoned s x)"
    using granules_poisoned [of s a "unat r div 8"] assms(1) m a8 n
    by (simp only: read_shadow_slice [OF m assms(5)])
  ultimately show ?thesis using False b(1) by simp
qed simp

lemma beyond_first:
  fixes a m n :: nat
  assumes "m \<le> a" "m < 8" "8 - m < n"
  shows "a - m + 8 \<le> a + n" "a \<le> a - m + 8" "n - (8 - m) = a + n - (a - m + 8)"
  using assms by arith+

lemma is_poison_checked:
  assumes "in_memory (unat start) (unat len)" "len \<noteq> 0"
  shows "is_poison start len s = rbind (poison_at_start start len s) (\<lambda>(answer, r).
    case answer of Some b \<Rightarrow> Inr b | None \<Rightarrow> poison_rest start len r s)"
  using assms by (simp add: is_poison_def is_memory_unat in_memory_in_bounds)

lemma poison_rest_exact:
  assumes wf: "shadow_wf s" and m: "in_memory (unat start) (unat len)" and len: "len \<noteq> 0"
    and a: "a = (unat start + 7) div 8 * 8" "a \<le> unat start + unat len"
    and r: "unat r = unat start + unat len - a"
  shows "poison_rest start len r s = Inr (\<exists>x\<in>{a..<unat start + unat len}. byte_poisoned s x)"
proof -
  let ?e = "unat start + unat len"
  have a8: "a mod 8 = 0" using a(1) by simp
  show ?thesis
  proof (cases "?e mod 8 = 0")
    case True
    have "unat r mod 8 = 0" using a8 True a(2) r by (metis mod_0 diff_self_eq_0 mod_eq_dvd_iff_nat dvd_imp_mod_0)
    moreover have "a + unat r = ?e" using r a(2) by simp
    moreover have "poison_at_end start len r s = Inr (None, r)"
      using True by (simp add: poison_at_end_def is_end_aligned_unat)
    ultimately show ?thesis
      using whole_granules [OF wf m a(1), of r] by (simp add: poison_rest_def)
  next
    case False
    let ?g = "?e - ?e mod 8"
    have ag: "a \<le> ?g"
    proof -
      obtain q where "a = 8 * q" using a8 by auto
      with a(2) have "q \<le> ?e div 8" by (simp add: less_eq_div_iff_mult_less_eq mult.commute)
      with \<open>a = 8 * q\<close> show ?thesis by (simp add: minus_mod_eq_mult_div)
    qed
    have "?e mod 8 \<le> unat r" using r ag by simp
    then obtain r' where r': "poison_at_end start len r s = Inr (if \<exists>x\<in>{?g..<?e}.
        byte_poisoned s x then Some True else None, r')" "unat r' = unat r - ?e mod 8"
      by (rule poison_at_end_unaligned [OF m len False])
    have sum: "a + unat r' = ?g" using r'(2) r ag by simp
    then have "unat r' = ?g - a" by simp
    moreover have "(?g - a) mod 8 = 0"
      using a8 granule_bounds(3) [of ?e] ag by (metis dvd_imp_mod_0 dvd_diff_nat mod_0_imp_dvd)
    ultimately have r8: "unat r' mod 8 = 0" by simp
    have split: "{a..<?e} = {a..<?g} \<union> {?g..<?e}" using ag granule_bounds(1) [of ?e] by auto
    have "(\<exists>x\<in>{a..<?e}. byte_poisoned s x) \<longleftrightarrow>
        (\<exists>x\<in>{a..<?g}. byte_poisoned s x) \<or> (\<exists>x\<in>{?g..<?e}. byte_poisoned s x)"
      unfolding split by blast
    moreover have "a + unat r' \<le> ?e" using sum by simp
    ultimately show ?thesis
      using whole_granules [OF wf m a(1) _ r8] r'(1) sum
      by (auto simp: poison_rest_def)
  qed
qed

lemma is_poison_exact:
  assumes wf: "shadow_wf s" and m: "in_memory (unat start) (unat len)"
  shows "is_poison start len s = Inr (\<exists>x\<in>{unat start..<unat start + unat len}. byte_poisoned s x)"
proof (cases "len = 0")
  case True
  with m show ?thesis by (simp add: is_poison_def is_memory_unat in_memory_in_bounds)
next
  case len: False
  let ?a = "unat start" and ?e = "unat start + unat len"
  let ?up = "(unat start + 7) div 8 * 8"
  consider (aligned) "?a mod 8 = 0" | (inside) "?a mod 8 \<noteq> 0" "unat len \<le> 8 - ?a mod 8"
    | (beyond) "?a mod 8 \<noteq> 0" "8 - ?a mod 8 < unat len" by linarith
  then show ?thesis
  proof cases
    case aligned
    then have "?up = ?a" by auto
    with aligned poison_rest_exact [OF wf m len, of ?a len] show ?thesis
      by (simp add: is_poison_checked [OF m len] poison_at_start_def is_start_aligned_unat)
  next
    case inside
    with poison_at_start_inside [OF m len inside] show ?thesis
      by (simp add: is_poison_checked [OF m len])
  next
    case beyond
    let ?g = "?a - ?a mod 8 + 8"
    have up: "?g = ?up"
    proof -
      have "?a = 8 * (?a div 8) + ?a mod 8" by simp
      moreover have "0 < ?a mod 8" "?a mod 8 < 8" using beyond(1) by simp_all
      ultimately obtain q t where "?a = 8 * q + t" "0 < t" "t < 8" by blast
      moreover from this(2) obtain u where "t = Suc u" by (cases t) auto
      moreover from calculation have "(u + 8 * (q + 1)) div 8 = q + 1"
        by (subst div_mult_self2) simp_all
      ultimately show ?thesis by (simp add: algebra_simps)
    qed
    obtain r where r: "poison_at_start start len s = Inr (if \<exists>x\<in>{?a..<?g}. byte_poisoned s x
        then Some True else None, r)" "unat r = unat len - (8 - ?a mod 8)"
      by (rule poison_at_start_beyond [OF wf m len beyond])
    note ge = beyond_first [OF mod_less_eq_dividend [of ?a 8] mod_less_divisor beyond(2)]
    have "unat r = ?e - ?g" using r(2) ge(3) by simp
    then have "poison_rest start len r s = Inr (\<exists>x\<in>{?g..<?e}. byte_poisoned s x)"
      using ge(1) by (intro poison_rest_exact [OF wf m len up]) simp_all
    moreover have "{?a..<?e} = {?a..<?g} \<union> {?g..<?e}" using ge(1,2) by auto
    ultimately show ?thesis using r(1) by (auto simp: is_poison_checked [OF m len])
  qed
qed

text \<open>What \<open>poison\<close> writes, granule by granule.\<close>

lemma unat_ucast_8: "unat (w :: u64) < 8 \<Longrightarrow> (ucast w :: u8) = of_nat (unat w)"
  by simp

lemma round_up_unaligned: "(a :: nat) mod 8 \<noteq> 0 \<Longrightarrow> (a + 7) div 8 * 8 = a - a mod 8 + 8"
proof -
  assume "a mod 8 \<noteq> 0"
  then obtain u where u: "a mod 8 = Suc u" by (cases "a mod 8") auto
  have "Suc u < 8" unfolding u [symmetric] by simp
  then have lt: "u < 7" by simp
  have "a = a div 8 * 8 + Suc u" unfolding u [symmetric] by simp
  then have a: "a + 7 = u + 8 * (a div 8 + 1)" by (simp add: algebra_simps)
  have "(a + 7) div 8 = a div 8 + 1" unfolding a using lt by (subst div_mult_self2) simp_all
  then show ?thesis by (simp add: minus_mod_eq_mult_div)
qed

lemma round_up_aligned: "(a :: nat) mod 8 = 0 \<Longrightarrow> (a + 7) div 8 * 8 = a"
  by auto

lemma round_up_bounds: "(a :: nat) \<le> (a + 7) div 8 * 8" "(a + 7) div 8 * 8 mod 8 = 0"
  "b mod 8 = 0 \<Longrightarrow> a \<le> b \<Longrightarrow> (a + 7) div 8 * 8 \<le> b"
proof -
  show "a \<le> (a + 7) div 8 * 8"
    using div_mult_mod_eq [of "a + 7" 8] mod_less_divisor [of 8 "a + 7"] by linarith
  show "(a + 7) div 8 * 8 \<le> b" if "b mod 8 = 0" "a \<le> b"
  proof -
    from that(1) obtain q where q: "b = 8 * q" by auto
    have "(a + 7) div 8 \<le> (8 * q + 7) div 8" using that(2) q by (intro div_le_mono) simp
    then show ?thesis by (simp add: q)
  qed
qed simp

lemma poison_start_effect:
  assumes m: "in_memory (unat start) (unat len)" and len: "len \<noteq> 0"
    and e8: "(unat start + unat len) mod 8 = 0"
  obtains r s' where "poison_start start len s = Inr (r, s')"
    "unat r = unat start + unat len - (unat start + 7) div 8 * 8"
    "\<forall>b. in_memory b 1 \<longrightarrow> shadow_at s' b =
      (if unat start mod 8 \<noteq> 0 \<and> unat start - unat start mod 8 \<le> b \<and> b < unat start - unat start mod 8 + 8
       then of_nat (unat start mod 8) else shadow_at s b)"
proof (cases "unat start mod 8 = 0")
  case True
  then have "(unat start + 7) div 8 * 8 = unat start" by auto
  with True show thesis by (intro that [of len s]) (simp_all add: poison_start_def is_start_aligned_unat)
next
  case False
  let ?g = "unat start - unat start mod 8"
  let ?s = "fill_slice (shadow_slice ?g 8) (of_nat (unat start mod 8)) s"
  have up: "(unat start + 7) div 8 * 8 = ?g + 8" by (rule round_up_unaligned [OF False])
  have le: "?g + 8 \<le> unat start + unat len" using round_up_bounds(3) [OF e8, of "unat start"] up by simp
  have "8 - unat start mod 8 \<le> unat len" using le mod_less_divisor [of 8 "unat start"]
    by (simp add: le_diff_conv2)
  then have r: "unat (len - (ALLOC_ALIGN_SIZE - remainder start)) = unat start + unat len - (?g + 8)"
    using mod_less_divisor [of 8 "unat start"]
    by (subst unat_sub) (simp_all add: word_le_nat_alt unat_first_len)
  have "poison_start start len s = Inr (len - (ALLOC_ALIGN_SIZE - remainder start), ?s)"
    using False by (simp add: poison_start_def is_start_aligned_unat first_granule(2) [OF m len]
        set_first_shadow_slice Let_def unat_ucast_8 unat_remainder)
  moreover have "shadow_at ?s b = (if ?g \<le> b \<and> b < ?g + 8 then of_nat (unat start mod 8) else shadow_at s b)"
    if "in_memory b 1" for b
    by (rule shadow_at_fill [OF first_granule(3) [OF m len] granule_bounds(3) _ that]) simp
  ultimately show thesis using r up False by (intro that) auto
qed

lemma poison_merge:
  fixes a g up e b :: nat
  assumes "a \<le> up" "g \<le> a" "p \<Longrightarrow> up = g + 8" "\<not> p \<Longrightarrow> up = a" "up \<le> e"
  shows "(if up \<le> b \<and> b < e then v else if p \<and> g \<le> b \<and> b < g + 8 then w else x) =
    (if p \<and> g \<le> b \<and> b < g + 8 then w else if a \<le> b \<and> b < e then v else x)"
  using assms by (cases p) auto

lemma poison_effect:
  assumes m: "in_memory (unat start) (unat len)" and len: "len \<noteq> 0"
    and e8: "(unat start + unat len) mod 8 = 0"
  obtains s' where "poison start len pt s = Inr s'"
    "\<forall>b. in_memory b 1 \<longrightarrow> shadow_at s' b =
      (if unat start mod 8 \<noteq> 0 \<and> unat start - unat start mod 8 \<le> b \<and> b < unat start - unat start mod 8 + 8
       then of_nat (unat start mod 8)
       else if unat start \<le> b \<and> b < unat start + unat len then poison_value pt
       else shadow_at s b)"
proof -
  let ?a = "unat start" and ?e = "unat start + unat len"
  let ?g = "?a - ?a mod 8" and ?up = "(?a + 7) div 8 * 8"
  obtain r s1 where s1: "poison_start start len s = Inr (r, s1)" "unat r = ?e - ?up"
    "\<forall>b. in_memory b 1 \<longrightarrow> shadow_at s1 b = (if ?a mod 8 \<noteq> 0 \<and> ?g \<le> b \<and> b < ?g + 8
      then of_nat (?a mod 8) else shadow_at s b)"
    by (rule poison_start_effect [OF m len e8])
  have pre: "\<not> is_out_of_bounds start len" "is_memory start len" "is_end_aligned start len"
    using m e8 by (simp_all add: in_memory_in_bounds is_memory_unat is_end_aligned_unat)
  have le: "?up \<le> ?e" using round_up_bounds(3) [OF e8, of ?a] by simp
  have merge: "(if ?up \<le> b \<and> b < ?e then v else if ?a mod 8 \<noteq> 0 \<and> ?g \<le> b \<and> b < ?g + 8 then w else x) =
      (if ?a mod 8 \<noteq> 0 \<and> ?g \<le> b \<and> b < ?g + 8 then w else if ?a \<le> b \<and> b < ?e then v else x)" for b and v w x :: u8
    by (rule poison_merge [OF round_up_bounds(1) granule_bounds(1) _ _ le])
      (simp_all only: round_up_unaligned round_up_aligned not_not simp_thms)
  show thesis
  proof (cases "r = 0")
    case True
    then have "?e = ?up" using s1(2) le by simp
    have "0 < unat len" using len by (simp add: unat_gt_0)
    with \<open>?e = ?up\<close> have "?a mod 8 \<noteq> 0" using round_up_aligned [of ?a] by linarith
    then have "?e = ?g + 8" using \<open>?e = ?up\<close> round_up_unaligned by simp
    then have "?a \<le> b \<and> b < ?e \<longrightarrow> ?g \<le> b \<and> b < ?g + 8" for b
      using granule_bounds(1) [of ?a] by (metis le_trans)
    moreover have "poison start len pt s = Inr s1" using True pre len s1(1) by (simp add: poison_def)
    ultimately show thesis
      using s1(3) \<open>?a mod 8 \<noteq> 0\<close> by (intro that [of s1]) simp_all
  next
    case False
    then have r: "0 < unat r" by (simp add: unat_gt_0)
    have sum: "?up + unat r = ?e" using s1(2) le by simp
    have "?a + 7 < 18446744073709551616" using m by (auto simp: in_memory_def)
    then obtain b where b: "align_up start = Inr b" "unat b = ?up" by (rule align_up_ok)
    have mu: "in_memory ?up (unat r)"
      using m r sum round_up_bounds(1) [of ?a] by (auto simp: in_memory_def)
    have r8: "unat r mod 8 = 0" using e8 sum by (metis mod_add_self1 mod_mult_self2_is_0 mod_add_left_eq add_0)
    let ?s = "fill_slice (shadow_slice ?up (unat r)) (poison_value pt) s1"
    have "poison start len pt s = Inr ?s"
      using False pre len s1(1) b get_shadow_mut_eq [of b r] mu r8 round_up_bounds(2) [of ?a]
      by (simp add: poison_def)
    then show thesis
    proof (rule that, intro allI impI)
      fix x assume x: "in_memory x 1"
      have "shadow_at ?s x = (if ?up \<le> x \<and> x < ?e then poison_value pt else shadow_at s1 x)"
        using shadow_at_fill [OF mu round_up_bounds(2) r8 x] sum by simp
      then show "shadow_at ?s x = (if ?a mod 8 \<noteq> 0 \<and> ?g \<le> x \<and> x < ?g + 8 then of_nat (?a mod 8)
          else if ?a \<le> x \<and> x < ?e then poison_value pt else shadow_at s x)"
        by (simp only: s1(3) [rule_format, OF x] merge)
    qed
  qed
qed

lemma aligned_add_mod: "a mod 8 = 0 \<Longrightarrow> (a + n) mod 8 = n mod 8" for a n :: nat
  by (metis add_0 mod_add_left_eq)

lemma unpoison_effect:
  assumes m: "in_memory (unat start) (unat len)" and len: "len \<noteq> 0" and a8: "unat start mod 8 = 0"
  obtains s' where "unpoison start len s = Inr s'"
    "\<forall>b. in_memory b 1 \<longrightarrow> shadow_at s' b =
      (if unat start \<le> b \<and> b < unat start + unat len - unat len mod 8 then 0
       else if unat len mod 8 \<noteq> 0 \<and> unat start + unat len - unat len mod 8 \<le> b \<and>
          b < unat start + unat len - unat len mod 8 + 8 then of_nat (unat len mod 8)
       else shadow_at s b)"
proof -
  let ?a = "unat start" and ?n = "unat len"
  let ?nd = "?n - ?n mod 8"
  have n0: "?a + ?n - ?n mod 8 = ?a + ?nd" by simp
  have pre: "\<not> is_out_of_bounds start len" "is_memory start len" "is_start_aligned start"
    using m a8 by (simp_all add: in_memory_in_bounds is_memory_unat is_start_aligned_unat)
  have ealigned: "is_end_aligned start len \<longleftrightarrow> ?n mod 8 = 0"
    by (simp only: is_end_aligned_unat aligned_add_mod [OF a8])
  have main: "in_memory ?a ?nd" if "?nd \<noteq> 0" using m by (auto simp: in_memory_def)
  have down: "unat (align_down len) = ?nd" by (rule unat_align_down)
  obtain r s1 where s1: "unpoison_end start len s = Inr (r, s1)" "unat r = ?nd"
    "\<forall>b. in_memory b 1 \<longrightarrow> shadow_at s1 b = (if ?n mod 8 \<noteq> 0 \<and> ?a + ?nd \<le> b \<and> b < ?a + ?nd + 8
      then of_nat (?n mod 8) else shadow_at s b)"
  proof (cases "?n mod 8 = 0")
    case True
    then show thesis by (intro that [of len s]) (simp_all add: unpoison_end_def ealigned)
  next
    case False
    have "unat (start + align_down len) = ?a + ?nd"
      using m by (subst unat_add_64) (auto simp: unat_align_down in_memory_def)
    moreover have g8: "(?a + ?nd) mod 8 = 0"
      by (simp only: aligned_add_mod [OF a8] granule_bounds(3))
    moreover have gm: "in_memory (?a + ?nd) 8"
      using in_memory_granule(1) [OF m granule_bounds(4) [OF False]] unfolding g8 by simp
    ultimately have "get_shadow_mut (start + align_down len) ALLOC_ALIGN_SIZE = Inr (shadow_slice (?a + ?nd) 8)"
      using get_shadow_mut_eq [of "start + align_down len" 8] by (simp add: ALLOC_ALIGN_SIZE_eq)
    then have "unpoison_end start len s =
        Inr (len - remainder len, fill_slice (shadow_slice (?a + ?nd) 8) (of_nat (?n mod 8)) s)"
      using False by (simp add: unpoison_end_def ealigned set_first_shadow_slice Let_def
          unat_ucast_8 unat_remainder)
    moreover have "unat (len - remainder len) = ?nd"
      by (subst unat_sub) (simp_all add: word_le_nat_alt unat_remainder)
    ultimately show thesis
      using False shadow_at_fill [OF gm g8] by (intro that) auto
  qed
  show thesis
  proof (cases "r = 0")
    case True
    then have "?nd = 0" using s1(2) by simp
    moreover have "unpoison start len s = Inr s1" using True pre len s1(1) by (simp add: unpoison_def)
    ultimately show thesis using s1(3) unfolding n0 by (intro that) auto
  next
    case False
    then have "?nd \<noteq> 0" using s1(2) by (metis unat_eq_0)
    note ma = main [OF this]
    let ?s = "fill_slice (shadow_slice ?a ?nd) 0 s1"
    have "get_shadow_mut start (align_down len) = Inr (shadow_slice ?a ?nd)"
      using get_shadow_mut_eq [of start "align_down len"] ma a8 granule_bounds(3) [of ?n] by (simp add: down)
    then have "unpoison start len s = Inr ?s"
      using False pre len s1(1) by (simp add: unpoison_def)
    then show thesis
      using s1(3) shadow_at_fill [OF ma a8 granule_bounds(3)] unfolding n0 by (intro that) auto
  qed
qed

section \<open>The contract of a shadow\<close>

record 's shadow_ops =
  sh_poison :: "u64 \<Rightarrow> u64 \<Rightarrow> poison_type \<Rightarrow> 's \<Rightarrow> shadow_error + 's"
  sh_unpoison :: "u64 \<Rightarrow> u64 \<Rightarrow> 's \<Rightarrow> shadow_error + 's"
  sh_is_poison :: "u64 \<Rightarrow> u64 \<Rightarrow> 's \<Rightarrow> shadow_error + bool"

definition guest_shadow_ops :: "guest_shadow shadow_ops" where
  "guest_shadow_ops = \<lparr>sh_poison = poison, sh_unpoison = unpoison, sh_is_poison = is_poison\<rparr>"

text \<open>
  Poisoning makes its range poisoned and the bytes before it in its first granule valid; unpoisoning
  makes its range valid and the bytes after it in its last granule poisoned.
\<close>

locale asan_shadow =
  fixes inv :: "'s \<Rightarrow> bool" and poisoned :: "'s \<Rightarrow> nat \<Rightarrow> bool" and ops :: "'s shadow_ops"
  assumes poison: "inv s \<Longrightarrow> in_memory (unat a) (unat n) \<Longrightarrow> (unat a + unat n) mod 8 = 0 \<Longrightarrow>
      sint (poison_value pt) < 0 \<Longrightarrow> \<exists>s'. sh_poison ops a n pt s = Inr s' \<and> inv s' \<and>
        (\<forall>b. in_memory b 1 \<longrightarrow> poisoned s' b =
          (if unat a \<le> b \<and> b < unat a + unat n then True
           else if n \<noteq> 0 \<and> unat a - unat a mod 8 \<le> b \<and> b < unat a then False else poisoned s b))"
    and unpoison: "inv s \<Longrightarrow> in_memory (unat a) (unat n) \<Longrightarrow> unat a mod 8 = 0 \<Longrightarrow>
      \<exists>s'. sh_unpoison ops a n s = Inr s' \<and> inv s' \<and>
        (\<forall>b. in_memory b 1 \<longrightarrow> poisoned s' b =
          (if unat a \<le> b \<and> b < unat a + unat n then False
           else if unat a + unat n \<le> b \<and> b < unat a + (unat n + 7) div 8 * 8 then True
           else poisoned s b))"
    and is_poison: "inv s \<Longrightarrow> in_memory (unat a) (unat n) \<Longrightarrow>
      sh_is_poison ops a n s = Inr (\<exists>b\<in>{unat a..<unat a + unat n}. poisoned s b)"

lemma sint_of_nat_small: "k < 8 \<Longrightarrow> sint (of_nat k :: u8) = int k"
proof -
  assume k: "k < 8"
  have u: "unat (of_nat k :: u64) = k" by (rule unat_of_nat_small) (use k in simp)
  have "sint (ucast (of_nat k :: u64) :: u8) = int k" by (subst sint_ucast_small) (use u k in simp_all)
  moreover have "(ucast (of_nat k :: u64) :: u8) = of_nat (unat (of_nat k :: u64))" by simp
  ultimately show ?thesis by (simp only: u)
qed

lemma of_nat_small_neq_0: "0 < k \<Longrightarrow> k < 8 \<Longrightarrow> (of_nat k :: u8) \<noteq> 0"
  using sint_of_nat_small [of k] by auto

lemma partial_granule_byte:
  assumes "g mod 8 = 0" "g \<le> b" "b < g + 8" "0 < k" "k < 8" "shadow_at s b = of_nat k"
  shows "byte_poisoned s b \<longleftrightarrow> g + k \<le> b"
proof -
  have "b mod 8 = b - g" using same_granule(2) [of g b] assms(1-3) by simp
  then show ?thesis
    using assms by (auto simp: byte_poisoned_def sint_of_nat_small of_nat_small_neq_0)
qed

lemma poison_bytes:
  assumes wf: "shadow_wf s" and m: "in_memory (unat a) (unat n)" and e8: "(unat a + unat n) mod 8 = 0"
    and neg: "sint (poison_value pt) < 0"
  shows "\<exists>s'. poison a n pt s = Inr s' \<and> shadow_wf s' \<and>
    (\<forall>b. in_memory b 1 \<longrightarrow> byte_poisoned s' b =
      (if unat a \<le> b \<and> b < unat a + unat n then True
       else if n \<noteq> 0 \<and> unat a - unat a mod 8 \<le> b \<and> b < unat a then False else byte_poisoned s b))"
proof (cases "n = 0")
  case True
  with m e8 wf show ?thesis
    by (auto simp: poison_def in_memory_in_bounds is_memory_unat is_end_aligned_unat)
next
  case False
  let ?g = "unat a - unat a mod 8"
  obtain s' where s': "poison a n pt s = Inr s'" "\<forall>b. in_memory b 1 \<longrightarrow> shadow_at s' b =
      (if unat a mod 8 \<noteq> 0 \<and> ?g \<le> b \<and> b < ?g + 8 then of_nat (unat a mod 8)
       else if unat a \<le> b \<and> b < unat a + unat n then poison_value pt else shadow_at s b)"
    by (rule poison_effect [OF m False e8])
  have "shadow_wf s'"
    using wf neg by (auto simp: shadow_wf_def s'(2) sint_of_nat_small)
  moreover have "byte_poisoned s' b =
      (if unat a \<le> b \<and> b < unat a + unat n then True
       else if n \<noteq> 0 \<and> ?g \<le> b \<and> b < unat a then False else byte_poisoned s b)" if b: "in_memory b 1" for b
  proof (cases "unat a mod 8 \<noteq> 0 \<and> ?g \<le> b \<and> b < ?g + 8")
    case True
    then have "byte_poisoned s' b \<longleftrightarrow> ?g + unat a mod 8 \<le> b"
      using s'(2) b by (intro partial_granule_byte) (simp_all add: granule_bounds(3))
    moreover have "?g + unat a mod 8 = unat a" by simp
    moreover have "b < unat a + unat n"
      using True round_up_bounds(3) [OF e8, of "unat a"] round_up_unaligned [of "unat a"] by simp
    ultimately show ?thesis using True False by auto
  next
    case False
    then have "shadow_at s' b = (if unat a \<le> b \<and> b < unat a + unat n then poison_value pt else shadow_at s b)"
      by (simp only: s'(2) [rule_format, OF b] False if_False)
    moreover have "\<not> (?g \<le> b \<and> b < unat a)"
      using False granule_bounds(2) [of "unat a"] by (cases "unat a mod 8 = 0") auto
    ultimately show ?thesis using neg by (auto simp: byte_poisoned_def)
  qed
  ultimately show ?thesis using s'(1) by blast
qed

lemma untouched_tail:
  assumes "\<not> (p \<and> e0 \<le> b \<and> b < e0 + 8)" "\<not> p \<Longrightarrow> up = e" "\<not> p \<Longrightarrow> e0 = e" "p \<Longrightarrow> up = e0 + 8"
    "e0 \<le> e" "e \<le> e0 + 8" "a \<le> e0" "shadow_at s' b = (if a \<le> b \<and> b < e0 then 0 else shadow_at s b)"
  shows "byte_poisoned s' b =
    (if a \<le> b \<and> b < e then False else if e \<le> b \<and> b < up then True else byte_poisoned s b)"
  using assms by (cases p) (auto simp: byte_poisoned_def)

lemma inside_tail:
  fixes a b e up :: nat
  assumes "q \<longleftrightarrow> e \<le> b" "a \<le> b" "b < up"
  shows "q = (if a \<le> b \<and> b < e then False else if e \<le> b \<and> b < up then True else r)"
  using assms by auto

lemma unpoison_bytes:
  assumes wf: "shadow_wf s" and m: "in_memory (unat a) (unat n)" and a8: "unat a mod 8 = 0"
  shows "\<exists>s'. unpoison a n s = Inr s' \<and> shadow_wf s' \<and>
    (\<forall>b. in_memory b 1 \<longrightarrow> byte_poisoned s' b =
      (if unat a \<le> b \<and> b < unat a + unat n then False
       else if unat a + unat n \<le> b \<and> b < unat a + (unat n + 7) div 8 * 8 then True
       else byte_poisoned s b))"
proof (cases "n = 0")
  case True
  with m a8 wf show ?thesis
    by (auto simp: unpoison_def in_memory_in_bounds is_memory_unat is_start_aligned_unat)
next
  case False
  let ?nd = "unat n - unat n mod 8"
  let ?ed = "unat a + unat n - unat n mod 8"
  obtain s' where s': "unpoison a n s = Inr s'" "\<forall>b. in_memory b 1 \<longrightarrow> shadow_at s' b =
      (if unat a \<le> b \<and> b < ?ed then 0
       else if unat n mod 8 \<noteq> 0 \<and> ?ed \<le> b \<and> b < ?ed + 8 then of_nat (unat n mod 8) else shadow_at s b)"
    by (rule unpoison_effect [OF m False a8])
  have e0: "?ed = unat a + ?nd" by simp
  have e8: "?ed mod 8 = 0" unfolding e0 by (simp only: aligned_add_mod [OF a8] granule_bounds(3))
  have "shadow_wf s'"
    using wf by (auto simp: shadow_wf_def s'(2) sint_of_nat_small)
  moreover have "byte_poisoned s' b =
      (if unat a \<le> b \<and> b < unat a + unat n then False
       else if unat a + unat n \<le> b \<and> b < unat a + (unat n + 7) div 8 * 8 then True
       else byte_poisoned s b)" if b: "in_memory b 1" for b
  proof (cases "unat n mod 8 \<noteq> 0 \<and> ?ed \<le> b \<and> b < ?ed + 8")
    case True
    have "shadow_at s' b = of_nat (unat n mod 8)"
      using s'(2) [rule_format, OF b] True by (simp split: if_splits)
    with True have "byte_poisoned s' b \<longleftrightarrow> ?ed + unat n mod 8 \<le> b"
      by (intro partial_granule_byte [OF e8]) simp_all
    also have "?ed + unat n mod 8 = unat a + unat n" by (rule le_add_diff_inverse2) (simp add: trans_le_add2)
    finally have byte: "byte_poisoned s' b \<longleftrightarrow> unat a + unat n \<le> b" .
    have up: "b < unat a + (unat n + 7) div 8 * 8"
      using True unfolding round_up_unaligned [OF True [THEN conjunct1]] e0 add.assoc by blast
    have "unat a \<le> b"
      using True unfolding e0 by (metis le_add1 le_trans)
    from inside_tail [OF byte this up] show ?thesis .
  next
    case False
    have "unat a + (unat n + 7) div 8 * 8 = unat a + unat n" "?ed = unat a + unat n"
      if "\<not> unat n mod 8 \<noteq> 0" using that round_up_aligned by simp_all
    moreover have "unat a + (unat n + 7) div 8 * 8 = ?ed + 8" if "unat n mod 8 \<noteq> 0"
      unfolding round_up_unaligned [OF that] e0 by (rule add.assoc [symmetric])
    moreover have "?ed \<le> unat a + unat n" "unat a \<le> ?ed" unfolding e0 by simp_all
    moreover have "unat a + unat n \<le> ?ed + 8"
      using granule_bounds(2) [of "unat n"] unfolding e0 add.assoc by (intro add_left_mono less_imp_le_nat)
    moreover have "shadow_at s' b = (if unat a \<le> b \<and> b < ?ed then 0 else shadow_at s b)"
      by (simp only: s'(2) [rule_format, OF b] False if_False)
    ultimately show ?thesis by (intro untouched_tail [OF False]) blast+
  qed
  ultimately show ?thesis using s'(1) by blast
qed

interpretation guest_shadow: asan_shadow shadow_wf byte_poisoned guest_shadow_ops
proof
  fix s and a n :: u64 and pt
  assume s: "shadow_wf s" and m: "in_memory (unat a) (unat n)"
  show "\<exists>s'. sh_poison guest_shadow_ops a n pt s = Inr s' \<and> shadow_wf s' \<and>
      (\<forall>b. in_memory b 1 \<longrightarrow> byte_poisoned s' b = (if unat a \<le> b \<and> b < unat a + unat n then True
        else if n \<noteq> 0 \<and> unat a - unat a mod 8 \<le> b \<and> b < unat a then False else byte_poisoned s b))"
    if "(unat a + unat n) mod 8 = 0" "sint (poison_value pt) < 0"
    using poison_bytes [OF s m that] by (simp add: guest_shadow_ops_def)
  show "\<exists>s'. sh_unpoison guest_shadow_ops a n s = Inr s' \<and> shadow_wf s' \<and>
      (\<forall>b. in_memory b 1 \<longrightarrow> byte_poisoned s' b = (if unat a \<le> b \<and> b < unat a + unat n then False
        else if unat a + unat n \<le> b \<and> b < unat a + (unat n + 7) div 8 * 8 then True
        else byte_poisoned s b))" if "unat a mod 8 = 0"
    using unpoison_bytes [OF s m that] by (simp add: guest_shadow_ops_def)
  show "sh_is_poison guest_shadow_ops a n s = Inr (\<exists>b\<in>{unat a..<unat a + unat n}. byte_poisoned s b)"
    using is_poison_exact [OF s m] by (simp add: guest_shadow_ops_def)
qed

section \<open>Properties\<close>

text \<open>A fresh shadow, in which every byte is valid.\<close>

definition fresh_shadow :: guest_shadow where
  "fresh_shadow = \<lparr>gs_lo = (\<lambda>_. 0), gs_hi = (\<lambda>_. 0)\<rparr>"

lemma shadow_at_fresh [simp]: "shadow_at fresh_shadow a = 0"
  by (simp add: shadow_at_def fresh_shadow_def)

lemma fresh_shadow_wf [simp]: "shadow_wf fresh_shadow"
  by (simp add: shadow_wf_def)

lemma byte_poisoned_fresh [simp]: "\<not> byte_poisoned fresh_shadow a"
  by (simp add: byte_poisoned_def)

lemma shadow_new_fresh:
  "mapped LOW_SHADOW_OFFSET LOW_SHADOW_SIZE \<Longrightarrow> mapped HIGH_SHADOW_OFFSET HIGH_SHADOW_SIZE \<Longrightarrow>
    shadow_new mapped = Inr fresh_shadow"
  by (simp add: shadow_new_def map_shadow_def fresh_shadow_def)

text \<open>
  C8. The check of a load or a store is exact: over a well-formed shadow and a range inside the low
  or the high memory, at any alignment and of any length, it fails exactly when the shadow marks
  some byte of the range as poisoned. It never panics, reads outside the shadow regions, or depends
  on bytes next to the range.
\<close>

theorem shadow_check_exact:
  assumes "shadow_wf s" "is_memory start len"
  shows "shadow_load start len s = (if \<exists>b\<in>{unat start..<unat start + unat len}. byte_poisoned s b
      then Inl (Poisoned start len) else Inr ()) \<and>
    shadow_store start len s = shadow_load start len s"
  using guest_shadow.is_poison [OF assms(1), where a = start and n = len] assms(2)
  by (simp_all add: shadow_load_def shadow_store_def guest_shadow_ops_def is_memory_unat)

theorem shadow_check_exact_witness:
  "shadow_load 0x1003 20 fresh_shadow = Inr () \<and> shadow_store 0x1003 20 fresh_shadow = Inr ()"
  using shadow_check_exact [of fresh_shadow "0x1003" 20]
  by (simp add: is_memory_unat in_memory_def)

text \<open>
  C30. Poisoning a range whose end is aligned, with a poison value that is not partial, succeeds and
  marks every byte of the range. Outside it only the bytes that share the first granule change, and
  those become valid. A range with an unaligned end is refused and one that leaves the memory too.
\<close>

theorem poison_marks_range:
  assumes "shadow_wf s" "is_memory start len" "sint (poison_value pt) < 0"
  shows "if is_end_aligned start len
    then \<exists>s'. poison start len pt s = Inr s' \<and> shadow_wf s' \<and>
      (\<forall>b. in_memory b 1 \<longrightarrow> byte_poisoned s' b =
        (if unat start \<le> b \<and> b < unat start + unat len then True
         else if len \<noteq> 0 \<and> unat start - unat start mod 8 \<le> b \<and> b < unat start then False
         else byte_poisoned s b))
    else poison start len pt s = Inl (UnalignedEndAddress start len)"
proof (cases "is_end_aligned start len")
  case True
  with guest_shadow.poison [where s = s and a = start and n = len and pt = pt] assms show ?thesis
    by (simp add: guest_shadow_ops_def is_memory_unat is_end_aligned_unat)
next
  case False
  with assms(2) show ?thesis by (simp add: poison_def in_memory_in_bounds is_memory_unat)
qed

theorem poison_marks_range_witness:
  "\<exists>s'. poison 0x1003 13 AsanHeapRightRz fresh_shadow = Inr s' \<and> byte_poisoned s' 0x1003 \<and>
    byte_poisoned s' 0x100f \<and> \<not> byte_poisoned s' 0x1002 \<and> \<not> byte_poisoned s' 0x1010"
proof -
  have al: "is_end_aligned 0x1003 13" by (simp add: is_end_aligned_unat)
  obtain s' where "poison 0x1003 13 AsanHeapRightRz fresh_shadow = Inr s'"
    "\<forall>b. in_memory b 1 \<longrightarrow> byte_poisoned s' b =
      (if unat (0x1003 :: u64) \<le> b \<and> b < unat (0x1003 :: u64) + unat (13 :: u64) then True
       else if (13 :: u64) \<noteq> 0 \<and> unat (0x1003 :: u64) - unat (0x1003 :: u64) mod 8 \<le> b \<and> b < unat (0x1003 :: u64)
       then False else byte_poisoned fresh_shadow b)"
    using poison_marks_range [of fresh_shadow "0x1003" 13 AsanHeapRightRz] al
    by (auto simp: is_memory_unat in_memory_def)
  then show ?thesis by (intro exI [of _ s']) (simp add: in_memory_def)
qed

text \<open>
  C32. Unpoisoning a range whose start is aligned succeeds and makes every byte of the range valid.
  Outside it only the bytes that share the last granule change, and those become poisoned: an
  access that runs past an object of any length is caught at its first byte.
\<close>

theorem unpoison_clears_range:
  assumes "shadow_wf s" "is_memory start len"
  shows "if is_start_aligned start
    then \<exists>s'. unpoison start len s = Inr s' \<and> shadow_wf s' \<and>
      (\<forall>b. in_memory b 1 \<longrightarrow> byte_poisoned s' b =
        (if unat start \<le> b \<and> b < unat start + unat len then False
         else if unat start + unat len \<le> b \<and> b < unat start + (unat len + 7) div 8 * 8 then True
         else byte_poisoned s b))
    else unpoison start len s = Inl (UnalignedStartAddress start len)"
proof (cases "is_start_aligned start")
  case True
  with guest_shadow.unpoison [where s = s and a = start and n = len] assms show ?thesis
    by (simp add: guest_shadow_ops_def is_memory_unat is_start_aligned_unat)
next
  case False
  with assms(2) show ?thesis by (simp add: unpoison_def in_memory_in_bounds is_memory_unat)
qed

theorem unpoison_clears_range_witness:
  "\<exists>s'. unpoison 0x1000 13 fresh_shadow = Inr s' \<and> \<not> byte_poisoned s' 0x100c \<and>
    byte_poisoned s' 0x100d \<and> byte_poisoned s' 0x100f \<and> \<not> byte_poisoned s' 0x1010"
proof -
  have al: "is_start_aligned 0x1000" by (simp add: is_start_aligned_unat)
  obtain s' where "unpoison 0x1000 13 fresh_shadow = Inr s'"
    "\<forall>b. in_memory b 1 \<longrightarrow> byte_poisoned s' b =
      (if unat (0x1000 :: u64) \<le> b \<and> b < unat (0x1000 :: u64) + unat (13 :: u64) then False
       else if unat (0x1000 :: u64) + unat (13 :: u64) \<le> b \<and>
         b < unat (0x1000 :: u64) + (unat (13 :: u64) + 7) div 8 * 8 then True else byte_poisoned fresh_shadow b)"
    using unpoison_clears_range [of fresh_shadow "0x1000" 13] al
    by (auto simp: is_memory_unat in_memory_def)
  then show ?thesis by (intro exI [of _ s']) (simp add: in_memory_def)
qed

end
