(* ===== verification/AsanTracking.thy ===== *)
theory AsanTracking
  imports Prelude
begin

text \<open>
  Tracking of the live allocations, \<^verbatim>\<open>libaflmm_asan/src/tracking\<close>. The precise tracker is
  an ordered set of ranges in which overlapping ranges count as equal; the fast one is a set of
  start addresses. The ordered set is the list of its elements in order: an insertion fails at the
  first equal element and otherwise goes in front of the first greater one.

  The contract says that tracking a range that overlaps no tracked one succeeds and that untracking
  the start of a tracked one does; both trackers meet it.
\<close>

datatype tracking_error =
    TrackingRangeOverflow u64 u64
  | AllocationNotFound u64
  | TrackingConflict u64 u64
  | ZeroLength u64

definition tracking_out_of_bounds :: "u64 \<Rightarrow> u64 \<Rightarrow> bool" where
  "tracking_out_of_bounds addr len = (if len = 0 then False else -1 - len + 1 < addr)"

section \<open>The precise tracker\<close>

record tracked_range =
  tr_start :: u64
  tr_len :: u64

definition range_eq :: "tracked_range \<Rightarrow> tracked_range \<Rightarrow> bool" where
  "range_eq self other =
     (if tr_start other < tr_start self
      then let delta = tr_start self - tr_start other in delta < tr_len other
      else let delta = tr_start other - tr_start self in delta < tr_len self)"

datatype ordering = Less | Equal | Greater

definition range_cmp :: "tracked_range \<Rightarrow> tracked_range \<Rightarrow> ordering" where
  "range_cmp self other =
     (if range_eq self other then Equal
      else if tr_start self < tr_start other then Less
      else if tr_start self = tr_start other then Equal else Greater)"

fun ranges_insert :: "tracked_range \<Rightarrow> tracked_range list \<Rightarrow> bool \<times> tracked_range list" where
  "ranges_insert item [] = (True, [item])"
| "ranges_insert item (r # rs) =
     (case range_cmp item r of
        Less \<Rightarrow> (True, item # r # rs)
      | Equal \<Rightarrow> (False, r # rs)
      | Greater \<Rightarrow> (case ranges_insert item rs of (b, rs) \<Rightarrow> (b, r # rs)))"

fun ranges_remove :: "tracked_range \<Rightarrow> tracked_range list \<Rightarrow> bool \<times> tracked_range list" where
  "ranges_remove item [] = (False, [])"
| "ranges_remove item (r # rs) =
     (case range_cmp item r of
        Less \<Rightarrow> (False, r # rs)
      | Equal \<Rightarrow> (True, rs)
      | Greater \<Rightarrow> (case ranges_remove item rs of (b, rs) \<Rightarrow> (b, r # rs)))"

definition guest_track ::
  "u64 \<Rightarrow> u64 \<Rightarrow> tracked_range list \<Rightarrow> (tracking_error + unit) \<times> tracked_range list" where
  "guest_track start len ranges =
     (if tracking_out_of_bounds start len then (Inl (TrackingRangeOverflow start len), ranges)
      else if len = 0 then (Inl (ZeroLength start), ranges)
      else let item = \<lparr>tr_start = start, tr_len = len\<rparr>
           in case ranges_insert item ranges of
                (False, ranges) \<Rightarrow> (Inl (TrackingConflict start len), ranges)
              | (True, ranges) \<Rightarrow> (Inr (), ranges))"

definition guest_untrack ::
  "u64 \<Rightarrow> tracked_range list \<Rightarrow> (tracking_error + unit) \<times> tracked_range list" where
  "guest_untrack start ranges =
     (let item = \<lparr>tr_start = start, tr_len = 1\<rparr>
      in case ranges_remove item ranges of
           (False, ranges) \<Rightarrow> (Inl (AllocationNotFound start), ranges)
         | (True, ranges) \<Rightarrow> (Inr (), ranges))"

definition guest_tracking_new :: "tracked_range list" where
  "guest_tracking_new = []"

section \<open>The fast tracker\<close>

definition fast_track :: "u64 \<Rightarrow> u64 \<Rightarrow> u64 set \<Rightarrow> (tracking_error + unit) \<times> u64 set" where
  "fast_track start len ranges =
     (if tracking_out_of_bounds start len then (Inl (TrackingRangeOverflow start len), ranges)
      else if len = 0 then (Inl (ZeroLength start), ranges)
      else if start \<in> ranges then (Inl (TrackingConflict start len), ranges)
      else (Inr (), insert start ranges))"

definition fast_untrack :: "u64 \<Rightarrow> u64 set \<Rightarrow> (tracking_error + unit) \<times> u64 set" where
  "fast_untrack start ranges =
     (if start \<notin> ranges then (Inl (AllocationNotFound start), ranges)
      else (Inr (), ranges - {start}))"

definition fast_tracking_new :: "u64 set" where
  "fast_tracking_new = {}"

section \<open>The contract\<close>

record 't tracking_ops =
  tk_track :: "u64 \<Rightarrow> u64 \<Rightarrow> 't \<Rightarrow> (tracking_error + unit) \<times> 't"
  tk_untrack :: "u64 \<Rightarrow> 't \<Rightarrow> (tracking_error + unit) \<times> 't"

definition guest_tracking_ops :: "tracked_range list tracking_ops" where
  "guest_tracking_ops = \<lparr>tk_track = guest_track, tk_untrack = guest_untrack\<rparr>"

definition fast_tracking_ops :: "u64 set tracking_ops" where
  "fast_tracking_ops = \<lparr>tk_track = fast_track, tk_untrack = fast_untrack\<rparr>"

text \<open>The bytes of two ranges do not meet.\<close>

definition apart :: "u64 \<Rightarrow> u64 \<Rightarrow> u64 \<Rightarrow> u64 \<Rightarrow> bool" where
  "apart a n b m \<longleftrightarrow> unat a + unat n \<le> unat b \<or> unat b + unat m \<le> unat a"

text \<open>
  \<open>tracks t live\<close>: the tracker holds the ranges of \<open>live\<close>, from start addresses to lengths.
\<close>

locale asan_tracking =
  fixes tracks :: "'t \<Rightarrow> (u64 \<Rightarrow> u64 option) \<Rightarrow> bool" and ops :: "'t tracking_ops"
  assumes track: "tracks t live \<Longrightarrow> len \<noteq> 0 \<Longrightarrow> unat start + unat len \<le> 2 ^ 64 \<Longrightarrow>
      \<forall>s l. live s = Some l \<longrightarrow> apart start len s l \<Longrightarrow>
      \<exists>t'. tk_track ops start len t = (Inr (), t') \<and> tracks t' (live(start \<mapsto> len))"
    and untrack: "tracks t live \<Longrightarrow> live start = Some len \<Longrightarrow>
      \<exists>t'. tk_untrack ops start t = (Inr (), t') \<and> tracks t' (live(start := None))"
    and track_zero: "tracks t live \<Longrightarrow> tk_track ops start 0 t = (Inl (ZeroLength start), t)"

section \<open>Ranges as intervals\<close>

definition range_ok :: "tracked_range \<Rightarrow> bool" where
  "range_ok r \<longleftrightarrow> 0 < unat (tr_len r) \<and> unat (tr_start r) + unat (tr_len r) \<le> 2 ^ 64"

definition before :: "tracked_range \<Rightarrow> tracked_range \<Rightarrow> bool" where
  "before r s \<longleftrightarrow> unat (tr_start r) + unat (tr_len r) \<le> unat (tr_start s)"

lemma range_eq_overlap:
  assumes "range_ok r" "range_ok s"
  shows "range_eq r s \<longleftrightarrow> \<not> before r s \<and> \<not> before s r"
proof (cases "tr_start s < tr_start r")
  case True
  then have "unat (tr_start r - tr_start s) = unat (tr_start r) - unat (tr_start s)"
    by (simp add: unat_sub less_imp_le)
  with True assms show ?thesis
    by (auto simp: range_eq_def before_def range_ok_def word_less_nat_alt)
next
  case False
  then have "unat (tr_start s - tr_start r) = unat (tr_start s) - unat (tr_start r)"
    by (simp add: unat_sub)
  with False assms show ?thesis
    by (auto simp: range_eq_def before_def range_ok_def word_less_nat_alt)
qed

lemma range_cmp_cases:
  assumes "range_ok r" "range_ok s"
  shows "range_cmp r s = (if before r s then Less else if before s r then Greater else Equal)"
  using assms by (auto simp: range_cmp_def range_eq_overlap) (auto simp: before_def range_ok_def word_less_nat_alt)

definition ranges_wf :: "tracked_range list \<Rightarrow> bool" where
  "ranges_wf rs \<longleftrightarrow> sorted_wrt before rs \<and> (\<forall>r\<in>set rs. range_ok r)"

lemma before_trans: "before r s \<Longrightarrow> range_ok s \<Longrightarrow> before s u \<Longrightarrow> before r u"
  by (simp add: before_def range_ok_def)

lemma ranges_insert_free:
  assumes "ranges_wf rs" "range_ok r" "\<forall>s\<in>set rs. before r s \<or> before s r"
  shows "\<exists>rs'. ranges_insert r rs = (True, rs') \<and> ranges_wf rs' \<and> set rs' = insert r (set rs)"
  using assms
proof (induction rs)
  case (Cons s rs)
  then have wf: "ranges_wf rs" "range_ok s" "\<forall>u\<in>set rs. before s u" by (simp_all add: ranges_wf_def)
  show ?case
  proof (cases "before r s")
    case True
    then have "ranges_insert r (s # rs) = (True, r # s # rs)"
      using range_cmp_cases [OF Cons.prems(2) wf(2)] by simp
    moreover have "ranges_wf (r # s # rs)"
      using Cons.prems(1,2) True wf before_trans by (auto simp: ranges_wf_def)
    ultimately show ?thesis by auto
  next
    case False
    then have "range_cmp r s = Greater"
      using Cons.prems(3) range_cmp_cases [OF Cons.prems(2) wf(2)] by simp
    moreover obtain rs' where "ranges_insert r rs = (True, rs')" "ranges_wf rs'" "set rs' = insert r (set rs)"
      using Cons.IH [OF wf(1) Cons.prems(2)] Cons.prems(3) by auto
    moreover have "ranges_wf (s # rs')"
      using calculation wf False Cons.prems(3) by (auto simp: ranges_wf_def)
    ultimately show ?thesis by auto
  qed
qed (simp add: ranges_wf_def)

lemma ranges_insert_conflict:
  assumes "ranges_wf rs" "range_ok r" "s \<in> set rs" "\<not> before r s" "\<not> before s r"
  shows "ranges_insert r rs = (False, rs)"
  using assms
proof (induction rs)
  case (Cons u rs)
  then have wf: "ranges_wf rs" "range_ok u" "\<forall>v\<in>set rs. before u v" by (simp_all add: ranges_wf_def)
  show ?case
  proof (cases "s = u")
    case True
    with Cons.prems wf show ?thesis by (simp add: range_cmp_cases)
  next
    case False
    then have s: "s \<in> set rs" using Cons.prems(3) by simp
    then have "before u s" using wf(3) by blast
    then have "\<not> before r u" using Cons.prems(4) wf(2) before_trans by blast
    with Cons.prems wf Cons.IH [OF wf(1) Cons.prems(2) s Cons.prems(4,5)]
    show ?thesis by (simp add: range_cmp_cases)
  qed
qed simp

lemma ranges_remove_spec:
  assumes "ranges_wf rs" "range_ok r" "s \<in> set rs" "\<not> before r s" "\<not> before s r"
    "\<forall>u\<in>set rs. u \<noteq> s \<longrightarrow> before r u \<or> before u r"
  shows "ranges_remove r rs = (True, remove1 s rs)"
  using assms
proof (induction rs)
  case (Cons u rs)
  then have wf: "ranges_wf rs" "range_ok u" "\<forall>v\<in>set rs. before u v" by (simp_all add: ranges_wf_def)
  show ?case
  proof (cases "u = s")
    case True
    with Cons.prems wf show ?thesis by (simp add: range_cmp_cases)
  next
    case False
    then have "s \<in> set rs" using Cons.prems(3) by simp
    then have "before u s" using wf(3) by blast
    then have "\<not> before r u" using Cons.prems(4) wf(2) before_trans by blast
    with False Cons.prems wf have "range_cmp r u = Greater" by (auto simp: range_cmp_cases)
    with False Cons.IH [OF wf(1) Cons.prems(2) \<open>s \<in> set rs\<close> Cons.prems(4,5)] Cons.prems(6)
    show ?thesis by simp
  qed
qed simp

section \<open>Both trackers meet the contract\<close>

lemma tracking_out_of_bounds_unat:
  "tracking_out_of_bounds start len \<longleftrightarrow> len \<noteq> 0 \<and> 2 ^ 64 < unat start + unat len"
proof (cases "len = 0")
  case False
  then have n: "0 < unat len" by (simp add: unat_gt_0)
  have "unat (-1 - len) = 18446744073709551615 - unat len"
    using unat_lt_64 [of len] by (subst unat_sub)
      (simp_all add: word_le_nat_alt unsigned_minus_1_eq_mask mask_eq_exp_minus_1)
  then have "unat (-1 - len + 1) = 18446744073709551616 - unat len"
    using n unat_lt_64 [of len] by (subst unat_add_lem [THEN iffD1]) auto
  then show ?thesis using n unat_lt_64 [of len]
    by (auto simp: tracking_out_of_bounds_def word_less_nat_alt unat_gt_0)
qed (simp add: tracking_out_of_bounds_def)

lemma tracking_in_bounds: "unat start + unat len \<le> 2 ^ 64 \<Longrightarrow> \<not> tracking_out_of_bounds start len"
  by (simp add: tracking_out_of_bounds_unat)

definition guest_tracks :: "tracked_range list \<Rightarrow> (u64 \<Rightarrow> u64 option) \<Rightarrow> bool" where
  "guest_tracks rs live \<longleftrightarrow> ranges_wf rs \<and> (\<forall>s l. live s = Some l \<longleftrightarrow> \<lparr>tr_start = s, tr_len = l\<rparr> \<in> set rs)"

lemma apart_before:
  "apart a n (tr_start s) (tr_len s) \<longleftrightarrow>
    before \<lparr>tr_start = a, tr_len = n\<rparr> s \<or> before s \<lparr>tr_start = a, tr_len = n\<rparr>"
  by (auto simp: apart_def before_def)

lemma sorted_before_apart:
  assumes "ranges_wf rs" "r \<in> set rs" "s \<in> set rs" "r \<noteq> s" shows "before r s \<or> before s r"
  using assms by (induction rs) (auto simp: ranges_wf_def)

lemma ranges_wf_distinct: "ranges_wf rs \<Longrightarrow> distinct rs"
proof (induction rs)
  case (Cons r rs)
  then have "\<not> before r r" by (simp add: ranges_wf_def before_def range_ok_def)
  with Cons show ?case by (auto simp: ranges_wf_def)
qed simp

lemma ranges_wf_remove1: "ranges_wf rs \<Longrightarrow> ranges_wf (remove1 s rs)"
  by (induction rs) (auto simp: ranges_wf_def dest: notin_set_remove1 set_remove1_subset [THEN subsetD])

interpretation guest_tracking: asan_tracking guest_tracks guest_tracking_ops
proof
  fix t live and start len :: u64
  assume t: "guest_tracks t live" and len: "len \<noteq> 0" and b: "unat start + unat len \<le> 2 ^ 64"
    and free: "\<forall>s l. live s = Some l \<longrightarrow> apart start len s l"
  let ?r = "\<lparr>tr_start = start, tr_len = len\<rparr>"
  have ok: "range_ok ?r" using len b by (simp add: range_ok_def unat_gt_0)
  have wf: "ranges_wf t" using t by (simp add: guest_tracks_def)
  have "\<forall>s\<in>set t. before ?r s \<or> before s ?r"
  proof
    fix s assume s: "s \<in> set t"
    obtain a n where "s = \<lparr>tr_start = a, tr_len = n\<rparr>" by (cases s)
    with s have "\<lparr>tr_start = tr_start s, tr_len = tr_len s\<rparr> \<in> set t" by simp
    then have "live (tr_start s) = Some (tr_len s)" using t unfolding guest_tracks_def by blast
    with free have "apart start len (tr_start s) (tr_len s)" by blast
    then show "before ?r s \<or> before s ?r" by (simp only: apart_before)
  qed
  from ranges_insert_free [OF wf ok this] obtain t' where
    t': "ranges_insert ?r t = (True, t')" "ranges_wf t'" "set t' = insert ?r (set t)" by blast
  have "live start = None"
  proof (rule ccontr)
    assume "live start \<noteq> None"
    then obtain l where l: "live start = Some l" by blast
    then have "\<lparr>tr_start = start, tr_len = l\<rparr> \<in> set t" using t by (simp add: guest_tracks_def)
    then have "0 < unat l" using wf by (auto simp: ranges_wf_def range_ok_def)
    moreover have "apart start len start l" using free l by blast
    ultimately show False using len by (auto simp: apart_def unat_eq_0)
  qed
  moreover have eq: "live s = Some l \<longleftrightarrow> \<lparr>tr_start = s, tr_len = l\<rparr> \<in> set t" for s l
    using t by (simp add: guest_tracks_def)
  ultimately have "\<lparr>tr_start = start, tr_len = l\<rparr> \<notin> set t" for l by (metis option.distinct(1))
  then have "guest_tracks t' (live(start \<mapsto> len))"
    using t' eq by (auto simp: guest_tracks_def)
  moreover have "tk_track guest_tracking_ops start len t = (Inr (), t')"
    using len t'(1) tracking_in_bounds [OF b] by (simp add: guest_tracking_ops_def guest_track_def)
  ultimately show "\<exists>t'. tk_track guest_tracking_ops start len t = (Inr (), t') \<and>
      guest_tracks t' (live(start \<mapsto> len))" by blast
next
  fix t live and start len :: u64
  assume t: "guest_tracks t live" and l: "live start = Some len"
  let ?r = "\<lparr>tr_start = start, tr_len = 1\<rparr>" and ?s = "\<lparr>tr_start = start, tr_len = len\<rparr>"
  have wf: "ranges_wf t" and s: "?s \<in> set t" using t l by (simp_all add: guest_tracks_def)
  then have ok: "range_ok ?s" by (simp add: ranges_wf_def)
  then have "range_ok ?r" by (simp add: range_ok_def)
  moreover have nb: "\<not> before ?r ?s" "\<not> before ?s ?r" using ok by (auto simp: before_def range_ok_def)
  moreover have "\<forall>u\<in>set t. u \<noteq> ?s \<longrightarrow> before ?r u \<or> before u ?r"
    using sorted_before_apart [OF wf _ s] ok by (fastforce simp: before_def range_ok_def)
  ultimately have "ranges_remove ?r t = (True, remove1 ?s t)"
    using ranges_remove_spec [OF wf _ s] by blast
  then have "tk_untrack guest_tracking_ops start t = (Inr (), remove1 ?s t)"
    by (simp add: guest_tracking_ops_def guest_untrack_def)
  moreover have "guest_tracks (remove1 ?s t) (live(start := None))"
  proof -
    have eq: "live s = Some n \<longleftrightarrow> \<lparr>tr_start = s, tr_len = n\<rparr> \<in> set t" for s n
      using t by (simp add: guest_tracks_def)
    then have "n = len" if "\<lparr>tr_start = start, tr_len = n\<rparr> \<in> set t" for n
      using that l by (metis option.inject)
    then show ?thesis
      using eq ranges_wf_distinct [OF wf] ranges_wf_remove1 [OF wf] by (auto simp: guest_tracks_def)
  qed
  ultimately show "\<exists>t'. tk_untrack guest_tracking_ops start t = (Inr (), t') \<and>
      guest_tracks t' (live(start := None))" by blast
qed (simp add: guest_tracking_ops_def guest_track_def tracking_out_of_bounds_def)

interpretation fast_tracking: asan_tracking "\<lambda>t live. t = dom live \<and> (\<forall>s l. live s = Some l \<longrightarrow> l \<noteq> 0)"
  fast_tracking_ops
proof
  fix t live and start len :: u64
  assume t: "t = dom live \<and> (\<forall>s l. live s = Some l \<longrightarrow> l \<noteq> 0)" and len: "len \<noteq> 0"
    and b: "unat start + unat len \<le> 2 ^ 64" and free: "\<forall>s l. live s = Some l \<longrightarrow> apart start len s l"
  have "start \<notin> t"
  proof
    assume "start \<in> t"
    then obtain l where l: "live start = Some l" using t by blast
    then have "apart start len start l" "l \<noteq> 0" using t free by blast+
    with len show False by (auto simp: apart_def unat_eq_0)
  qed
  with t len tracking_in_bounds [OF b]
  show "\<exists>t'. tk_track fast_tracking_ops start len t = (Inr (), t') \<and>
      t' = dom (live(start \<mapsto> len)) \<and> (\<forall>s l. (live(start \<mapsto> len)) s = Some l \<longrightarrow> l \<noteq> 0)"
    by (auto simp: fast_tracking_ops_def fast_track_def)
next
  fix t live and start len :: u64
  assume "t = dom live \<and> (\<forall>s l. live s = Some l \<longrightarrow> l \<noteq> 0)" "live start = Some len"
  then show "\<exists>t'. tk_untrack fast_tracking_ops start t = (Inr (), t') \<and>
      t' = dom (live(start := None)) \<and> (\<forall>s l. (live(start := None)) s = Some l \<longrightarrow> l \<noteq> 0)"
    by (auto simp: fast_tracking_ops_def fast_untrack_def)
qed (simp add: fast_tracking_ops_def fast_track_def tracking_out_of_bounds_def)

section \<open>Properties\<close>

text \<open>
  C39. The precise tracker accepts a range exactly when it has a positive length, does not run past
  the end of the address space and overlaps no tracked range. Then it tracks that range as well;
  otherwise it reports why and nothing changes.
\<close>

theorem tracking_is_exact:
  assumes "ranges_wf rs"
  shows "guest_track start len rs =
      (if len \<noteq> 0 \<and> 2 ^ 64 < unat start + unat len then (Inl (TrackingRangeOverflow start len), rs)
       else if len = 0 then (Inl (ZeroLength start), rs)
       else if \<exists>s\<in>set rs. \<not> apart start len (tr_start s) (tr_len s) then (Inl (TrackingConflict start len), rs)
       else (Inr (), snd (ranges_insert \<lparr>tr_start = start, tr_len = len\<rparr> rs))) \<and>
    ranges_wf (snd (guest_track start len rs)) \<and>
    (fst (guest_track start len rs) = Inr () \<longrightarrow>
       set (snd (guest_track start len rs)) = insert \<lparr>tr_start = start, tr_len = len\<rparr> (set rs))"
proof -
  let ?r = "\<lparr>tr_start = start, tr_len = len\<rparr>"
  consider "len \<noteq> 0" "2 ^ 64 < unat start + unat len" | "len = 0"
    | (conflict) s where "len \<noteq> 0" "unat start + unat len \<le> 2 ^ 64" "s \<in> set rs"
        "\<not> apart start len (tr_start s) (tr_len s)"
    | (free) "len \<noteq> 0" "unat start + unat len \<le> 2 ^ 64"
        "\<forall>s\<in>set rs. apart start len (tr_start s) (tr_len s)"
    by fastforce
  then show ?thesis
  proof cases
    case 1
    then show ?thesis using assms by (simp add: guest_track_def tracking_out_of_bounds_unat)
  next
    case 2
    then show ?thesis using assms by (simp add: guest_track_def tracking_out_of_bounds_def)
  next
    case conflict
    have "range_ok ?r" using conflict(1,2) by (simp add: range_ok_def unat_gt_0)
    then have "ranges_insert ?r rs = (False, rs)"
      using ranges_insert_conflict [OF assms _ conflict(3), of ?r] conflict(4) by (simp add: apart_before)
    then have "guest_track start len rs = (Inl (TrackingConflict start len), rs)"
      using conflict(1) tracking_in_bounds [OF conflict(2)] by (simp add: guest_track_def)
    with conflict assms show ?thesis by auto
  next
    case free
    have "range_ok ?r" using free(1,2) by (simp add: range_ok_def unat_gt_0)
    then obtain rs' where rs': "ranges_insert ?r rs = (True, rs')" "ranges_wf rs'" "set rs' = insert ?r (set rs)"
      using ranges_insert_free [OF assms, of ?r] free(3) by (auto simp: apart_before)
    then have "guest_track start len rs = (Inr (), rs')"
      using free(1) tracking_in_bounds [OF free(2)] by (simp add: guest_track_def)
    with free rs' show ?thesis by simp
  qed
qed

theorem tracking_is_exact_witness:
  "fst (guest_track 0x1010 16 [\<lparr>tr_start = 0x1000, tr_len = 16\<rparr>, \<lparr>tr_start = 0x2000, tr_len = 8\<rparr>]) = Inr () \<and>
    fst (guest_track 0x100f 16 [\<lparr>tr_start = 0x1000, tr_len = 16\<rparr>, \<lparr>tr_start = 0x2000, tr_len = 8\<rparr>])
      = Inl (TrackingConflict 0x100f 16)"
proof -
  let ?rs = "[\<lparr>tr_start = 0x1000, tr_len = 16\<rparr>, \<lparr>tr_start = 0x2000, tr_len = 8\<rparr>]"
  have "ranges_wf ?rs" by (simp add: ranges_wf_def before_def range_ok_def)
  from tracking_is_exact [OF this, of "0x1010" 16] tracking_is_exact [OF this, of "0x100f" 16]
  show ?thesis by (simp add: apart_def)
qed

text \<open>
  The precise tracker untracks by overlap: freeing an address in the middle of an allocation removes
  the allocation, although no allocation starts there.
\<close>

lemma untrack_accepts_interior:
  "guest_untrack 0x1008 [\<lparr>tr_start = 0x1000, tr_len = 16\<rparr>] = (Inr (), []) \<and>
    fast_untrack 0x1008 {0x1000} = (Inl (AllocationNotFound 0x1008), {0x1000})"
  by (simp add: guest_untrack_def fast_untrack_def range_cmp_def range_eq_def)

end
