(* ===== verification/AsanFrontend.thy ===== *)
theory AsanFrontend
  imports AsanShadow AsanTracking
begin

text \<open>
  The allocator of the address sanitizer, \<^verbatim>\<open>libaflmm_asan/src/allocator/frontend/default.rs\<close>:
  red zones around each object, poisoning and tracking on allocation, and a quarantine of freed
  blocks. The backend allocator is code of other crates (or of the target's libc): its two
  operations are arguments, and what is asked of a block it hands out is what \<open>GlobalAlloc\<close>
  promises, that it is aligned, has the size asked for and meets no block in use.

  Addresses and sizes are 64-bit words. The memory contents are not part of the state, so the
  optional filling of fresh objects is left out.
\<close>

section \<open>The state\<close>

datatype frontend_error =
    InvalidRedZoneSize u64
  | InvalidAlignment u64
  | AllocatorError
  | AllocationTooLarge u64
  | LayoutError
  | ShadowError shadow_error
  | TrackingError tracking_error
  | DoubleFree u64
  | InvalidAddress u64
  | QuarantineCorruption
  | FrontendPanic

record allocation =
  al_frontend_len :: u64
  al_backend_addr :: u64
  al_backend_len :: u64
  al_backend_align :: u64
  al_freed :: bool

record ('b, 's, 't) frontend =
  fe_backend :: 'b
  fe_shadow :: 's
  fe_tracking :: 't
  fe_red_zone_size :: u64
  fe_allocations :: "u64 \<Rightarrow> allocation option"
  fe_quarantine :: "u64 list"
  fe_quarantine_size :: u64
  fe_quarantine_used :: u64

text \<open>The backend: a null pointer is the address 0.\<close>

record 'b backend_ops =
  ba_alloc :: "u64 \<Rightarrow> u64 \<Rightarrow> 'b \<Rightarrow> u64 \<times> 'b"
  ba_dealloc :: "u64 \<Rightarrow> u64 \<Rightarrow> u64 \<Rightarrow> 'b \<Rightarrow> 'b"

section \<open>The operations\<close>

definition FRONTEND_ALIGN :: u64 where
  "FRONTEND_ALIGN = 16"

definition checked_add :: "u64 \<Rightarrow> u64 \<Rightarrow> u64 option" where
  "checked_add a b = (if unat a + unat b < 2 ^ 64 then Some (a + b) else None)"

text \<open>\<open>Layout::from_size_align\<close>: the alignment is a power of two and the size fits in an \<open>isize\<close>.\<close>

definition layout_ok :: "u64 \<Rightarrow> u64 \<Rightarrow> bool" where
  "layout_ok sz align \<longleftrightarrow> align \<noteq> 0 \<and> align AND (align - 1) = 0 \<and> unat sz + unat align \<le> 2 ^ 63"

definition checked_align_up :: "u64 \<Rightarrow> u64 option" where
  "checked_align_up sz =
     Option.bind (checked_add sz (FRONTEND_ALIGN - 1)) (\<lambda>val. Some (val AND NOT (FRONTEND_ALIGN - 1)))"

definition frontend_new ::
  "'b \<Rightarrow> 's \<Rightarrow> 't \<Rightarrow> u64 \<Rightarrow> u64 \<Rightarrow> frontend_error + ('b, 's, 't) frontend" where
  "frontend_new backend sh tracking red_zone_size quarantine_size =
     (if red_zone_size mod FRONTEND_ALIGN \<noteq> 0 then Inl (InvalidRedZoneSize red_zone_size)
      else if 2 ^ 64 \<le> unat red_zone_size * 2 then Inl (InvalidRedZoneSize red_zone_size)
      else Inr \<lparr>fe_backend = backend, fe_shadow = sh, fe_tracking = tracking,
             fe_red_zone_size = red_zone_size, fe_allocations = Map.empty, fe_quarantine = [],
             fe_quarantine_size = quarantine_size, fe_quarantine_used = 0\<rparr>)"

definition allocated_size :: "u64 \<Rightarrow> u64 \<Rightarrow> u64 \<Rightarrow> u64 option" where
  "allocated_size red_zone_size len align =
     Option.bind (Option.bind (checked_add len align) checked_align_up)
       (\<lambda>sz. checked_add sz (red_zone_size * 2))"

definition place :: "u64 \<Rightarrow> u64 \<Rightarrow> u64 \<Rightarrow> u64" where
  "place red_zone_size orig align =
     (let rz = orig + red_zone_size in if align = 0 then rz else rz + align - rz mod align)"

text \<open>The second half of \<open>alloc\<close>: track the object, then poison, unpoison, poison.\<close>

definition protect ::
  "'s shadow_ops \<Rightarrow> 't tracking_ops \<Rightarrow> u64 \<Rightarrow> u64 \<Rightarrow> u64 \<Rightarrow> ('b, 's, 't) frontend
    \<Rightarrow> (frontend_error + u64) \<times> ('b, 's, 't) frontend" where
  "protect sops tops orig data len fe =
     (case tk_track tops data len (fe_tracking fe) of
        (Inl e, t) \<Rightarrow> (Inl (TrackingError e), fe\<lparr>fe_tracking := t\<rparr>)
      | (Inr _, t) \<Rightarrow>
          let fe = fe\<lparr>fe_tracking := t\<rparr>
          in case sh_poison sops orig (data - orig) AsanHeapLeftRz (fe_shadow fe) of
               Inl e \<Rightarrow> (Inl (ShadowError e), fe)
             | Inr s \<Rightarrow>
                 let fe = fe\<lparr>fe_shadow := s\<rparr>
                 in case sh_unpoison sops data len (fe_shadow fe) of
                      Inl e \<Rightarrow> (Inl (ShadowError e), fe)
                    | Inr s \<Rightarrow>
                        let fe = fe\<lparr>fe_shadow := s\<rparr>
                        in case checked_align_up len of
                             None \<Rightarrow> (Inl FrontendPanic, fe)
                           | Some up \<Rightarrow>
                               let poison_len = up - len + fe_red_zone_size fe
                               in case sh_poison sops (data + len) poison_len AsanStackRightRz (fe_shadow fe) of
                                    Inl e \<Rightarrow> (Inl (ShadowError e), fe)
                                  | Inr s \<Rightarrow> (Inr data, fe\<lparr>fe_shadow := s\<rparr>))"

definition frontend_alloc ::
  "'b backend_ops \<Rightarrow> 's shadow_ops \<Rightarrow> 't tracking_ops \<Rightarrow> u64 \<Rightarrow> u64 \<Rightarrow> ('b, 's, 't) frontend
    \<Rightarrow> (frontend_error + u64) \<times> ('b, 's, 't) frontend" where
  "frontend_alloc bops sops tops len align fe =
     (if align mod 8 \<noteq> 0 then (Inl (InvalidAlignment align), fe)
      else case allocated_size (fe_red_zone_size fe) len align of
        None \<Rightarrow> (Inl (AllocationTooLarge len), fe)
      | Some sz \<Rightarrow>
          if sz mod FRONTEND_ALIGN \<noteq> 0 then (Inl FrontendPanic, fe)
          else if \<not> layout_ok sz FRONTEND_ALIGN then (Inl (AllocationTooLarge len), fe)
          else case ba_alloc bops sz FRONTEND_ALIGN (fe_backend fe) of
            (orig, b) \<Rightarrow>
              let fe = fe\<lparr>fe_backend := b\<rparr>
              in if orig = 0 then (Inl AllocatorError, fe)
                 else let data = place (fe_red_zone_size fe) orig align
                      in if align \<noteq> 0 \<and> data mod align \<noteq> 0 \<or> orig + sz < data + len
                         then (Inl FrontendPanic, fe)
                         else protect sops tops orig data len
                                (fe\<lparr>fe_allocations := (fe_allocations fe)(data \<mapsto>
                                   \<lparr>al_frontend_len = len, al_backend_addr = orig, al_backend_len = sz,
                                    al_backend_align = FRONTEND_ALIGN, al_freed = False\<rparr>)\<rparr>))"

function purge_quarantine ::
  "'b backend_ops \<Rightarrow> ('b, 's, 't) frontend \<Rightarrow> (frontend_error + unit) \<times> ('b, 's, 't) frontend" where
  "purge_quarantine bops fe =
     (if \<not> fe_quarantine_size fe < fe_quarantine_used fe then (Inr (), fe)
      else case fe_quarantine fe of
        [] \<Rightarrow> (Inl QuarantineCorruption, fe)
      | addr # addrs \<Rightarrow>
          let fe = fe\<lparr>fe_quarantine := addrs\<rparr>
          in case fe_allocations fe addr of
               None \<Rightarrow> (Inl QuarantineCorruption, fe)
             | Some al \<Rightarrow>
                 let fe = fe\<lparr>fe_allocations := (fe_allocations fe)(addr := None)\<rparr>
                 in if \<not> layout_ok (al_backend_len al) (al_backend_align al) then (Inl LayoutError, fe)
                    else purge_quarantine bops (fe\<lparr>
                           fe_backend := ba_dealloc bops (al_backend_addr al) (al_backend_len al)
                             (al_backend_align al) (fe_backend fe),
                           fe_quarantine_used := fe_quarantine_used fe - al_backend_len al\<rparr>))"
  by pat_completeness auto

termination by (relation "measure (\<lambda>(_, fe). length (fe_quarantine fe))") auto

declare purge_quarantine.simps [simp del]

definition frontend_dealloc ::
  "'b backend_ops \<Rightarrow> 's shadow_ops \<Rightarrow> 't tracking_ops \<Rightarrow> u64 \<Rightarrow> ('b, 's, 't) frontend
    \<Rightarrow> (frontend_error + unit) \<times> ('b, 's, 't) frontend" where
  "frontend_dealloc bops sops tops addr fe =
     (if addr = 0 then (Inr (), fe)
      else case fe_allocations fe addr of
        None \<Rightarrow> (Inl (InvalidAddress addr), fe)
      | Some al \<Rightarrow>
          if al_freed al then (Inl (DoubleFree addr), fe)
          else let fe = fe\<lparr>fe_allocations := (fe_allocations fe)(addr \<mapsto> al\<lparr>al_freed := True\<rparr>)\<rparr>
               in case sh_poison sops (al_backend_addr al) (al_backend_len al) AsanHeapFreed (fe_shadow fe) of
                    Inl e \<Rightarrow> (Inl (ShadowError e), fe)
                  | Inr s \<Rightarrow>
                      let fe = fe\<lparr>fe_shadow := s\<rparr>
                      in case tk_untrack tops addr (fe_tracking fe) of
                           (Inl e, t) \<Rightarrow> (Inl (TrackingError e), fe\<lparr>fe_tracking := t\<rparr>)
                         | (Inr _, t) \<Rightarrow>
                             purge_quarantine bops (fe\<lparr>fe_tracking := t,
                               fe_quarantine_used := fe_quarantine_used fe + al_backend_len al,
                               fe_quarantine := fe_quarantine fe @ [addr]\<rparr>))"

definition frontend_get_size :: "('b, 's, 't) frontend \<Rightarrow> u64 \<Rightarrow> frontend_error + u64" where
  "frontend_get_size fe addr =
     (case fe_allocations fe addr of
        None \<Rightarrow> Inl (InvalidAddress addr)
      | Some al \<Rightarrow> if al_freed al then Inl (InvalidAddress addr) else Inr (al_frontend_len al))"

section \<open>The arithmetic of a placement\<close>

lemma unat_and_not_15: "unat (a AND NOT (16 - 1) :: u64) = unat a div 16 * 16"
proof -
  have m: "(15 :: u64) = mask 4" by (simp add: mask_eq_exp_minus_1)
  have "(a AND 15) AND (a AND NOT 15) = 0" by (rule bit_word_eqI) (simp add: bit_simps)
  then have "(a AND 15) + (a AND NOT 15) = (a AND 15) OR (a AND NOT 15)" by (rule disjunctive_add_eq_or)
  also have "\<dots> = a" by (rule bit_word_eqI) (auto simp: bit_simps)
  finally have "a AND NOT 15 = a - (a AND 15)" by (simp add: algebra_simps)
  moreover have r: "unat (a AND 15) = unat a mod 16"
    by (simp add: m flip: take_bit_eq_mask) (simp add: take_bit_eq_mod unat_mod_distrib)
  moreover have "a AND 15 \<le> a" by (simp add: word_le_nat_alt r)
  ultimately show ?thesis by (simp add: unat_sub minus_mod_eq_div_mult)
qed

lemma checked_add_Some: "checked_add a b = Some c \<longleftrightarrow> unat a + unat b < 2 ^ 64 \<and> c = a + b"
  by (auto simp: checked_add_def)

lemma unat_checked_add: "checked_add a b = Some c \<Longrightarrow> unat c = unat a + unat b"
  by (auto simp: checked_add_Some intro!: unat_add_64)

lemma checked_align_up_Some:
  assumes "checked_align_up a = Some b"
  shows "unat b = (unat a + 15) div 16 * 16"
proof -
  from assms obtain c where c: "checked_add a (FRONTEND_ALIGN - 1) = Some c"
    "b = c AND NOT (FRONTEND_ALIGN - 1)" by (auto simp: checked_align_up_def bind_eq_Some_conv)
  have "unat c = unat a + 15" using unat_checked_add [OF c(1)] by (simp add: FRONTEND_ALIGN_def)
  then show ?thesis using c(2) unat_and_not_15 [of c] by (simp add: FRONTEND_ALIGN_def)
qed

lemma checked_align_up_fits:
  assumes "unat a + 15 < 2 ^ 64" obtains b where "checked_align_up a = Some b"
  using assms by (auto simp: checked_align_up_def checked_add_def FRONTEND_ALIGN_def)

text \<open>What \<open>alloc\<close> asks for: the object rounded up with room to align it, and two red zones.\<close>

lemma allocated_size_Some:
  assumes "allocated_size rz len align = Some sz" "unat rz * 2 < 2 ^ 64"
  shows "unat sz = (unat len + unat align + 15) div 16 * 16 + 2 * unat rz"
proof -
  from assms(1) obtain a u where a: "checked_add len align = Some a" and u: "checked_align_up a = Some u"
    and sz: "checked_add u (rz * 2) = Some sz"
    by (auto simp: allocated_size_def bind_eq_Some_conv)
  have "unat (rz * 2) = unat rz * 2"
    using assms(2) by (simp add: unat_word_ariths)
  then show ?thesis
    using unat_checked_add [OF sz] checked_align_up_Some [OF u] unat_checked_add [OF a] by simp
qed

text \<open>The place of the object: past the red zone, aligned, with room for its length and a red zone.\<close>

lemma round_up_16_add: "a mod 16 = 0 \<Longrightarrow> (n + a + 15) div 16 * 16 = (n + 15) div 16 * 16 + a" for a n :: nat
proof -
  assume "a mod 16 = 0"
  then obtain q where "a = 16 * q" by auto
  then have "n + a + 15 = (n + 15) + q * 16" by simp
  then show ?thesis by (simp only: div_mult_self1) (simp add: \<open>a = 16 * q\<close>)
qed

lemma place_ok:
  assumes al: "unat align mod 16 = 0" and rz: "unat rz mod 16 = 0" and og: "unat orig mod 16 = 0"
    and fits: "unat orig + unat rz + unat align < 2 ^ 64"
  shows "unat orig + unat rz \<le> unat (place rz orig align)"
    and "unat (place rz orig align) \<le> unat orig + unat rz + unat align"
    and "unat (place rz orig align) mod 16 = 0"
    and "align \<noteq> 0 \<Longrightarrow> place rz orig align mod align = 0"
proof -
  let ?p = "unat (place rz orig align)" and ?s = "unat orig + unat rz"
  have s: "unat (orig + rz) = ?s" using fits by (intro unat_add_64) simp
  have s16: "?s mod 16 = 0" using og rz by (metis add_0 mod_add_eq mod_0)
  have "?s \<le> ?p \<and> ?p \<le> ?s + unat align \<and> ?p mod 16 = 0 \<and> (align \<noteq> 0 \<longrightarrow> ?p mod unat align = 0)"
  proof (cases "align = 0")
    case True
    then show ?thesis using s s16 by (simp add: place_def)
  next
    case False
    then have pos: "0 < unat align" by (simp add: unat_gt_0)
    then have m: "?s mod unat align < unat align" by simp
    have sum: "unat (orig + rz + align) = ?s + unat align"
      using fits s by (subst unat_add_64) simp_all
    have "(orig + rz) mod align \<le> orig + rz + align"
      using m s sum by (simp add: word_le_nat_alt unat_mod_distrib)
    then have p: "?p = ?s + unat align - ?s mod unat align"
      using False by (simp add: place_def Let_def unat_sub sum unat_mod_distrib s)
    have eq: "?p = ?s div unat align * unat align + unat align"
      unfolding p using div_mult_mod_eq [of ?s "unat align"] m by linarith
    have "?p mod unat align = 0" unfolding eq by simp
    moreover have "?p mod 16 = 0" unfolding eq using al
      by (metis mod_mult_right_eq mult_0_right mod_0 mod_add_eq add_0)
    ultimately show ?thesis using p m by linarith
  qed
  then show "?s \<le> ?p" "?p \<le> ?s + unat align" "?p mod 16 = 0"
    and "align \<noteq> 0 \<Longrightarrow> place rz orig align mod align = 0"
    by (simp_all add: unat_mod_distrib flip: unat_eq_0)
qed

section \<open>The heap invariant\<close>

text \<open>The block of an allocation, as start and length, and its object.\<close>

abbreviation blk_start :: "allocation \<Rightarrow> nat" where "blk_start al \<equiv> unat (al_backend_addr al)"
abbreviation blk_len :: "allocation \<Rightarrow> nat" where "blk_len al \<equiv> unat (al_backend_len al)"

definition live :: "(u64 \<Rightarrow> allocation option) \<Rightarrow> u64 \<Rightarrow> u64 option" where
  "live allocs a = (case allocs a of None \<Rightarrow> None
     | Some al \<Rightarrow> if al_freed al then None else Some (al_frontend_len al))"

definition block_ok :: "u64 \<Rightarrow> u64 \<Rightarrow> allocation \<Rightarrow> bool" where
  "block_ok rz a al \<longleftrightarrow> in_memory (blk_start al) (blk_len al) \<and> blk_start al mod 8 = 0 \<and>
     blk_len al mod 8 = 0 \<and> layout_ok (al_backend_len al) (al_backend_align al) \<and>
     unat a mod 8 = 0 \<and> 0 < unat (al_frontend_len al) \<and> blk_start al + unat rz \<le> unat a \<and>
     unat a + unat (al_frontend_len al) + unat rz \<le> blk_start al + blk_len al"

text \<open>What the shadow says of the bytes of a block: the object and the red zones, or all of it.\<close>

definition block_shadow :: "(nat \<Rightarrow> bool) \<Rightarrow> u64 \<Rightarrow> u64 \<Rightarrow> allocation \<Rightarrow> bool" where
  "block_shadow bad rz a al \<longleftrightarrow>
     (if al_freed al then \<forall>b\<in>{blk_start al..<blk_start al + blk_len al}. bad b
      else (\<forall>b\<in>{blk_start al..<unat a}. bad b) \<and>
        (\<forall>b\<in>{unat a..<unat a + unat (al_frontend_len al)}. \<not> bad b) \<and>
        (\<forall>b\<in>{unat a + unat (al_frontend_len al)..<unat a + unat (al_frontend_len al) + unat rz}. bad b))"

definition blocks_apart :: "(u64 \<Rightarrow> allocation option) \<Rightarrow> bool" where
  "blocks_apart allocs \<longleftrightarrow> (\<forall>a al a' al'. allocs a = Some al \<longrightarrow> allocs a' = Some al' \<longrightarrow> a \<noteq> a' \<longrightarrow>
     apart (al_backend_addr al) (al_backend_len al) (al_backend_addr al') (al_backend_len al'))"

definition quarantine_ok :: "(u64 \<Rightarrow> allocation option) \<Rightarrow> u64 list \<Rightarrow> u64 \<Rightarrow> bool" where
  "quarantine_ok allocs q used \<longleftrightarrow> distinct q \<and> set q = {a. \<exists>al. allocs a = Some al \<and> al_freed al} \<and>
     unat used = (\<Sum>a\<leftarrow>q. blk_len (the (allocs a)))"

locale asan_heap = sh: asan_shadow inv poisoned sops + tk: asan_tracking tracks tops
  for inv :: "'s \<Rightarrow> bool" and poisoned :: "'s \<Rightarrow> nat \<Rightarrow> bool" and sops :: "'s shadow_ops"
    and tracks :: "'t \<Rightarrow> (u64 \<Rightarrow> u64 option) \<Rightarrow> bool" and tops :: "'t tracking_ops"
begin

definition heap_inv :: "('b, 's, 't) frontend \<Rightarrow> bool" where
  "heap_inv fe \<longleftrightarrow> inv (fe_shadow fe) \<and> tracks (fe_tracking fe) (live (fe_allocations fe)) \<and>
     fe_red_zone_size fe \<noteq> 0 \<and> unat (fe_red_zone_size fe) mod 16 = 0 \<and> unat (fe_red_zone_size fe) * 2 < 2 ^ 64 \<and>
     (\<forall>a al. fe_allocations fe a = Some al \<longrightarrow> block_ok (fe_red_zone_size fe) a al \<and>
        block_shadow (poisoned (fe_shadow fe)) (fe_red_zone_size fe) a al) \<and>
     blocks_apart (fe_allocations fe) \<and>
     quarantine_ok (fe_allocations fe) (fe_quarantine fe) (fe_quarantine_used fe)"

end

text \<open>Changing the shadow inside one block leaves what it says of the other blocks.\<close>

lemma block_shadow_frame:
  assumes "block_shadow bad rz a al" "block_ok rz a al" "apart p n (al_backend_addr al) (al_backend_len al)"
    "\<And>b. b \<in> {blk_start al..<blk_start al + blk_len al} \<Longrightarrow> \<not> (unat p \<le> b \<and> b < unat p + unat n) \<Longrightarrow> bad' b = bad b"
  shows "block_shadow bad' rz a al"
proof -
  have same: "bad' b = bad b" if "b \<in> {blk_start al..<blk_start al + blk_len al}" for b
    using that assms(3) by (intro assms(4)) (auto simp: apart_def)
  show ?thesis
    using assms(1,2) by (auto simp: block_shadow_def block_ok_def same split: if_splits)
qed

text \<open>What the backend promises of a block it hands out.\<close>

definition block_fits :: "(u64 \<Rightarrow> allocation option) \<Rightarrow> u64 \<Rightarrow> u64 \<Rightarrow> bool" where
  "block_fits allocs orig sz \<longleftrightarrow> unat orig mod 16 = 0 \<and> in_memory (unat orig) (unat sz) \<and>
     (\<forall>a al. allocs a = Some al \<longrightarrow> apart orig sz (al_backend_addr al) (al_backend_len al))"

lemma in_memory_within: "in_memory a n \<Longrightarrow> a \<le> b \<Longrightarrow> b + m \<le> a + n \<Longrightarrow> 0 < m \<Longrightarrow> in_memory b m"
  by (auto simp: in_memory_def)

lemma in_memory_prefix: "in_memory a n \<Longrightarrow> m \<le> n \<Longrightarrow> in_memory a m"
  by (auto simp: in_memory_def)

lemma round_up_16: "n \<le> (n + 15) div 16 * 16" "(n + 15) div 16 * 16 mod 8 = 0" for n :: nat
  using mod_less_divisor [of 16 "n + 15"] div_mult_mod_eq [of "n + 15" 16]
  by linarith (simp add: mod_mult_right_eq [symmetric, of _ "(16 :: nat)"])

lemma mod_16_mod_8: "n mod 16 = 0 \<Longrightarrow> n mod 8 = 0" for n :: nat
  by presburger

lemma round_up_8_16: "(n + 7) div 8 * 8 \<le> (n + 15) div 16 * 16" for n :: nat
  by presburger

context asan_heap
begin

lemma protect_shadow:
  fixes orig data len rz sz pl :: u64
  assumes s: "inv s" and m: "in_memory (unat orig) (unat sz)" and o8: "unat orig mod 8 = 0"
    and d: "unat orig \<le> unat data" "unat data mod 8 = 0" and l: "0 < unat len"
    and up: "up = (unat len + 15) div 16 * 16" and fits: "unat data + up + unat rz \<le> unat orig + unat sz"
    and rz: "0 < unat rz" "unat rz mod 8 = 0" and pl: "unat pl = up - unat len + unat rz"
  obtains s1 s2 s3 where "sh_poison sops orig (data - orig) AsanHeapLeftRz s = Inr s1"
    "sh_unpoison sops data len s1 = Inr s2" "sh_poison sops (data + len) pl AsanStackRightRz s2 = Inr s3"
    "inv s3" "\<And>b. in_memory b 1 \<Longrightarrow> poisoned s3 b =
      (if unat orig \<le> b \<and> b < unat data then True
       else if unat data \<le> b \<and> b < unat data + unat len then False
       else if unat data + unat len \<le> b \<and> b < unat data + up + unat rz then True
       else poisoned s b)"
proof -
  let ?O = "unat orig" and ?D = "unat data" and ?L = "unat len"
  have lu: "?L \<le> up" and u8: "up mod 8 = 0" using round_up_16 up by simp_all
  have dl: "unat (data - orig) = ?D - ?O" using d(1) by (simp add: unat_sub word_le_nat_alt)
  have m1: "in_memory ?O (?D - ?O)" using fits d(1) by (intro in_memory_prefix [OF m]) linarith
  have "(?O + (?D - ?O)) mod 8 = 0" using d by simp
  with sh.poison [OF s, of orig "data - orig" AsanHeapLeftRz] m1 dl
  obtain s1 where s1: "sh_poison sops orig (data - orig) AsanHeapLeftRz s = Inr s1" "inv s1"
    "\<And>b. in_memory b 1 \<Longrightarrow> poisoned s1 b = (if ?O \<le> b \<and> b < ?D then True
       else if data - orig \<noteq> 0 \<and> ?O - ?O mod 8 \<le> b \<and> b < ?O then False else poisoned s b)"
    using d(1) by auto
  have m2: "in_memory ?D ?L" using fits lu d(1) by (intro in_memory_within [OF m _ _ l]) linarith+
  from sh.unpoison [OF s1(2) m2 d(2)]
  obtain s2 where s2: "sh_unpoison sops data len s1 = Inr s2" "inv s2"
    "\<And>b. in_memory b 1 \<Longrightarrow> poisoned s2 b = (if ?D \<le> b \<and> b < ?D + ?L then False
       else if ?D + ?L \<le> b \<and> b < ?D + (?L + 7) div 8 * 8 then True else poisoned s1 b)"
    by auto
  have e: "unat (data + len) = ?D + ?L" using m2 by (intro unat_end)
  have tail: "?D + ?L + unat pl = ?D + up + unat rz" using pl lu by linarith
  have t8: "(?D + up + unat rz) mod 8 = 0" using d(2) u8 rz(2) by (metis add_0 mod_add_eq mod_0)
  have m3: "in_memory (?D + ?L) (unat pl)"
    using fits d(1) tail rz(1) pl by (intro in_memory_within [OF m]) linarith+
  have "(unat (data + len) + unat pl) mod 8 = 0" using t8 by (simp only: e tail)
  with sh.poison [OF s2(2), of "data + len" pl AsanStackRightRz] m3 e
  obtain s3 where s3: "sh_poison sops (data + len) pl AsanStackRightRz s2 = Inr s3" "inv s3"
    "\<And>b. in_memory b 1 \<Longrightarrow> poisoned s3 b =
      (if ?D + ?L \<le> b \<and> b < ?D + ?L + unat pl then True
       else if pl \<noteq> 0 \<and> ?D + ?L - (?D + ?L) mod 8 \<le> b \<and> b < ?D + ?L then False else poisoned s2 b)"
    by auto
  have head: "?D \<le> ?D + ?L - (?D + ?L) mod 8"
  proof -
    have "(?D + ?L) mod 8 = ?L mod 8" using d(2) by (metis add_0 mod_add_left_eq)
    then show ?thesis by simp
  qed
  have u7: "(?L + 7) div 8 * 8 \<le> up" unfolding up by (rule round_up_8_16)
  show thesis
  proof (rule that [OF s1(1) s2(1) s3(1,2)])
    fix b :: nat assume b: "in_memory b 1"
    show "poisoned s3 b = (if ?O \<le> b \<and> b < ?D then True else if ?D \<le> b \<and> b < ?D + ?L then False
       else if ?D + ?L \<le> b \<and> b < ?D + up + unat rz then True else poisoned s b)"
      using s1(3) [OF b] s2(3) [OF b] s3(3) [OF b] head u7 tail d(1) o8 by auto
  qed
qed

text \<open>\<open>alloc\<close> on a block that fits: the object is tracked, and its block is guarded.\<close>

lemma block_shadow_apart:
  assumes "block_shadow (poisoned s) rz a al" "block_ok rz a al"
    "apart p n (al_backend_addr al) (al_backend_len al)"
    "\<And>b. in_memory b 1 \<Longrightarrow> \<not> (unat p \<le> b \<and> b < unat p + unat n) \<Longrightarrow> poisoned s' b = poisoned s b"
  shows "block_shadow (poisoned s') rz a al"
proof (rule block_shadow_frame [OF assms(1-3)])
  fix b assume b: "b \<in> {blk_start al..<blk_start al + blk_len al}" "\<not> (unat p \<le> b \<and> b < unat p + unat n)"
  have m: "in_memory (blk_start al) (blk_len al)" using assms(2) by (simp add: block_ok_def)
  have "in_memory b 1" by (rule in_memory_within [OF m]) (use b(1) in auto)
  with assms(4) b(2) show "poisoned s' b = poisoned s b" by simp
qed

lemma fresh_address:
  assumes "\<forall>a al. allocs a = Some al \<longrightarrow> block_ok rz a al" "block_fits allocs orig sz"
    "unat orig \<le> unat data" "unat data < unat orig + unat sz"
  shows "allocs data = None"
proof (rule ccontr)
  assume "allocs data \<noteq> None"
  then obtain al where al: "allocs data = Some al" by blast
  then have "block_ok rz data al" "apart orig sz (al_backend_addr al) (al_backend_len al)"
    using assms(1,2) by (simp_all add: block_fits_def)
  with assms(3,4) show False by (auto simp: block_ok_def apart_def)
qed

lemma live_apart:
  assumes "\<forall>a al. allocs a = Some al \<longrightarrow> block_ok rz a al" "block_fits allocs orig sz"
    "unat orig \<le> unat data" "unat data + unat len \<le> unat orig + unat sz" "live allocs a = Some l"
  shows "apart data len a l"
proof -
  obtain al where al: "allocs a = Some al" "l = al_frontend_len al"
    using assms(5) by (auto simp: live_def split: option.splits if_splits)
  then have "block_ok rz a al" "apart orig sz (al_backend_addr al) (al_backend_len al)"
    using assms(1,2) by (simp_all add: block_fits_def)
  with assms(3,4) al(2) show ?thesis by (auto simp: block_ok_def apart_def)
qed

end

lemma live_insert: "live (allocs(a \<mapsto> al)) = (live allocs)(a := if al_freed al then None else Some (al_frontend_len al))"
  by (auto simp: live_def)

lemma blocks_apart_insert:
  assumes "blocks_apart allocs"
    "\<forall>b bl. allocs b = Some bl \<longrightarrow> apart (al_backend_addr al) (al_backend_len al) (al_backend_addr bl) (al_backend_len bl)"
  shows "blocks_apart (allocs(a \<mapsto> al))"
  unfolding blocks_apart_def
proof (intro allI impI)
  fix b bl c cl
  assume "(allocs(a \<mapsto> al)) b = Some bl" "(allocs(a \<mapsto> al)) c = Some cl" "b \<noteq> c"
  then show "apart (al_backend_addr bl) (al_backend_len bl) (al_backend_addr cl) (al_backend_len cl)"
    using assms by (auto simp: blocks_apart_def apart_def split: if_splits)
qed

lemma quarantine_ok_insert:
  assumes "quarantine_ok allocs q used" "allocs a = None" "\<not> al_freed al"
  shows "quarantine_ok (allocs(a \<mapsto> al)) q used"
proof -
  have "a \<notin> set q" using assms(1,2) by (auto simp: quarantine_ok_def)
  then have "map (\<lambda>b. blk_len (the ((allocs(a \<mapsto> al)) b))) q = map (\<lambda>b. blk_len (the (allocs b))) q" by simp
  moreover have "{b. \<exists>bl. (allocs(a \<mapsto> al)) b = Some bl \<and> al_freed bl} = {b. \<exists>bl. allocs b = Some bl \<and> al_freed bl}"
    using assms(2,3) by auto
  ultimately show ?thesis using assms(1) unfolding quarantine_ok_def by (simp only:)
qed

text \<open>The arithmetic of \<open>alloc\<close> on a block that fits.\<close>

lemma alloc_numbers:
  fixes rz orig len align sz :: u64
  assumes "allocated_size rz len align = Some sz" "unat align mod 16 = 0" "unat rz mod 16 = 0"
    "unat rz * 2 < 2 ^ 64" "unat orig mod 16 = 0" "in_memory (unat orig) (unat sz)"
  defines "data \<equiv> place rz orig align" and "up \<equiv> (unat len + 15) div 16 * 16"
  shows "unat sz mod 16 = 0" "unat orig + unat rz \<le> unat data" "unat data mod 16 = 0"
    "unat data + up + unat rz \<le> unat orig + unat sz" "align \<noteq> 0 \<Longrightarrow> data mod align = 0"
    "\<not> orig + sz < data + len"
proof -
  have sz: "unat sz = up + unat align + 2 * unat rz"
    using allocated_size_Some [OF assms(1,4)] round_up_16_add [OF assms(2)] by (simp add: up_def)
  have "up mod 16 = 0" by (simp add: up_def)
  then show "unat sz mod 16 = 0" using assms(2,3) by (auto simp: sz)
  have top: "unat orig + unat sz < 2 ^ 64" using assms(6) by (auto simp: in_memory_def)
  then have "unat orig + unat rz + unat align < 2 ^ 64" by (simp add: sz)
  note p = place_ok [OF assms(2,3,5) this, folded data_def]
  show "unat orig + unat rz \<le> unat data" "unat data mod 16 = 0" "align \<noteq> 0 \<Longrightarrow> data mod align = 0"
    using p by simp_all
  show fits: "unat data + up + unat rz \<le> unat orig + unat sz" using p(2) sz by linarith
  have "unat (orig + sz) = unat orig + unat sz" using top by (intro unat_add_64) simp
  moreover have "unat (data + len) = unat data + unat len"
    using fits top round_up_16(1) [of "unat len"] by (intro unat_add_64) (simp add: up_def)
  ultimately show "\<not> orig + sz < data + len"
    using fits round_up_16(1) [of "unat len"] by (simp add: word_less_nat_alt up_def)
qed

context asan_heap
begin

lemma protect_ok:
  fixes orig data len sz :: u64
  assumes s: "inv (fe_shadow fe)" and t: "tracks (fe_tracking fe) lv" and m: "in_memory (unat orig) (unat sz)"
    and o8: "unat orig mod 8 = 0" and d: "unat orig \<le> unat data" "unat data mod 8 = 0" and l: "len \<noteq> 0"
    and fits: "unat data + (unat len + 15) div 16 * 16 + unat rz \<le> unat orig + unat sz"
    and rz: "rz = fe_red_zone_size fe" "rz \<noteq> 0" "unat rz mod 8 = 0"
    and free: "\<forall>a n. lv a = Some n \<longrightarrow> apart data len a n"
  obtains t' s' where "protect sops tops orig data len fe = (Inr data, fe\<lparr>fe_tracking := t', fe_shadow := s'\<rparr>)"
    "tracks t' (lv(data \<mapsto> len))" "inv s'"
    "\<And>b. in_memory b 1 \<Longrightarrow> poisoned s' b =
      (if unat orig \<le> b \<and> b < unat data then True
       else if unat data \<le> b \<and> b < unat data + unat len then False
       else if unat data + unat len \<le> b \<and> b < unat data + (unat len + 15) div 16 * 16 + unat rz then True
       else poisoned (fe_shadow fe) b)"
proof -
  let ?up = "(unat len + 15) div 16 * 16"
  have l0: "0 < unat len" using l by (simp add: unat_gt_0)
  have lu: "unat len \<le> ?up" by (rule round_up_16)
  have top: "unat orig + unat sz \<le> 2 ^ 48" using m by (auto simp: in_memory_def)
  have "unat data + unat len \<le> 2 ^ 64" using fits lu top by simp
  then obtain t' where t': "tk_track tops data len (fe_tracking fe) = (Inr (), t')" "tracks t' (lv(data \<mapsto> len))"
    using tk.track [OF t l] free by blast
  have "?up \<le> unat len + 15" using div_times_less_eq_dividend by blast
  moreover have "unat len \<le> 2 ^ 48" using fits lu d(1) top by linarith
  ultimately have up64: "unat len + 15 < 2 ^ 64" by simp
  then obtain up where up: "checked_align_up len = Some up" by (rule checked_align_up_fits)
  note u = checked_align_up_Some [OF up]
  have lup: "len \<le> up" using u lu by (simp add: word_le_nat_alt)
  have "?up + unat rz < 2 ^ 64" using fits top by simp
  then have pl: "unat (up - len + rz) = ?up - unat len + unat rz"
    using lup by (subst unat_add_64) (auto simp: unat_sub u word_le_nat_alt)
  have "0 < unat rz" using rz(2) by (simp add: unat_gt_0)
  from protect_shadow [OF s m o8 d l0 refl fits this rz(3) pl]
  obtain s1 s2 s3 where s3: "sh_poison sops orig (data - orig) AsanHeapLeftRz (fe_shadow fe) = Inr s1"
    "sh_unpoison sops data len s1 = Inr s2"
    "sh_poison sops (data + len) (up - len + rz) AsanStackRightRz s2 = Inr s3" "inv s3"
    "\<And>b. in_memory b 1 \<Longrightarrow> poisoned s3 b =
      (if unat orig \<le> b \<and> b < unat data then True
       else if unat data \<le> b \<and> b < unat data + unat len then False
       else if unat data + unat len \<le> b \<and> b < unat data + ?up + unat rz then True
       else poisoned (fe_shadow fe) b)" by blast
  have "protect sops tops orig data len fe = (Inr data, fe\<lparr>fe_tracking := t', fe_shadow := s3\<rparr>)"
    using s3(1-3) t'(1) up rz(1) by (simp add: protect_def Let_def)
  from that [OF this t'(2) s3(4,5)] show thesis .
qed

lemma alloc_ok:
  fixes orig sz len align :: u64
  assumes h: "heap_inv fe" and align: "unat align mod 16 = 0" and l: "len \<noteq> 0"
    and sz: "allocated_size (fe_red_zone_size fe) len align = Some sz" "layout_ok sz 16"
    and orig: "ba_alloc bops sz 16 (fe_backend fe) = (orig, b)" "orig \<noteq> 0"
    and fit: "block_fits (fe_allocations fe) orig sz"
  defines "data \<equiv> place (fe_red_zone_size fe) orig align"
  obtains t s where "frontend_alloc bops sops tops len align fe = (Inr data,
      fe\<lparr>fe_backend := b, fe_allocations := (fe_allocations fe)(data \<mapsto>
          \<lparr>al_frontend_len = len, al_backend_addr = orig, al_backend_len = sz,
           al_backend_align = 16, al_freed = False\<rparr>), fe_tracking := t, fe_shadow := s\<rparr>)"
    "heap_inv (fe\<lparr>fe_backend := b, fe_allocations := (fe_allocations fe)(data \<mapsto>
          \<lparr>al_frontend_len = len, al_backend_addr = orig, al_backend_len = sz,
           al_backend_align = 16, al_freed = False\<rparr>), fe_tracking := t, fe_shadow := s\<rparr>)"
    "fe_allocations fe data = None"
proof -
  let ?rz = "fe_red_zone_size fe" and ?allocs = "fe_allocations fe"
  let ?al = "\<lparr>al_frontend_len = len, al_backend_addr = orig, al_backend_len = sz,
    al_backend_align = 16, al_freed = False\<rparr>"
  let ?mid = "fe\<lparr>fe_backend := b, fe_allocations := ?allocs(data \<mapsto> ?al)\<rparr>"
  have rz: "?rz \<noteq> 0" "unat ?rz mod 16 = 0" "unat ?rz * 2 < 2 ^ 64"
    and inv: "inv (fe_shadow fe)" and tr: "tracks (fe_tracking fe) (live ?allocs)"
    and blocks: "\<forall>a al. ?allocs a = Some al \<longrightarrow> block_ok ?rz a al"
    and shadows: "\<forall>a al. ?allocs a = Some al \<longrightarrow> block_shadow (poisoned (fe_shadow fe)) ?rz a al"
    and ap: "blocks_apart ?allocs" and q: "quarantine_ok ?allocs (fe_quarantine fe) (fe_quarantine_used fe)"
    using h by (simp_all add: heap_inv_def)
  have o16: "unat orig mod 16 = 0" and m: "in_memory (unat orig) (unat sz)"
    using fit by (simp_all add: block_fits_def)
  note n = alloc_numbers [OF sz(1) align rz(2,3) o16 m, folded data_def]
  have up: "unat len \<le> (unat len + 15) div 16 * 16" by (rule round_up_16)
  have mods: "unat orig mod 8 = 0" "unat data mod 8 = 0" "unat ?rz mod 8 = 0" "unat sz mod 8 = 0"
    using o16 n(3) rz(2) n(1) by (simp_all add: mod_16_mod_8)
  have od: "unat orig \<le> unat data" using n(2) by simp
  have l0: "0 < unat len" using l by (simp add: unat_gt_0)
  have room: "unat data + unat len \<le> unat orig + unat sz" using n(4) up by linarith
  have free: "\<forall>a l. live ?allocs a = Some l \<longrightarrow> apart data len a l"
    using live_apart [OF blocks fit od room] by blast
  have new: "?allocs data = None"
    using fresh_address [OF blocks fit od] room l0 by simp
  have mid: "inv (fe_shadow ?mid)" "tracks (fe_tracking ?mid) (live ?allocs)" "?rz = fe_red_zone_size ?mid"
    using inv tr by simp_all
  obtain t s where p: "protect sops tops orig data len ?mid = (Inr data, ?mid\<lparr>fe_tracking := t, fe_shadow := s\<rparr>)"
    "tracks t ((live ?allocs)(data \<mapsto> len))" "inv s"
    "\<And>b. in_memory b 1 \<Longrightarrow> poisoned s b =
      (if unat orig \<le> b \<and> b < unat data then True
       else if unat data \<le> b \<and> b < unat data + unat len then False
       else if unat data + unat len \<le> b \<and> b < unat data + (unat len + 15) div 16 * 16 + unat ?rz then True
       else poisoned (fe_shadow ?mid) b)"
    by (rule protect_ok [OF mid(1,2) m mods(1) od mods(2) l n(4) mid(3) rz(1) mods(3) free]) (rule that, assumption+)
  have run: "frontend_alloc bops sops tops len align fe = (Inr data, ?mid\<lparr>fe_tracking := t, fe_shadow := s\<rparr>)"
  proof -
    have "align mod 8 = 0" using mod_16_mod_8 [OF align] by (simp only: word_mod_8_eq_0)
    moreover have "sz mod 16 = 0" using n(1) by (simp add: unat_mod_distrib flip: unat_eq_0)
    moreover have "align = 0 \<or> data mod align = 0" using n(5) by blast
    ultimately show ?thesis
      using sz orig p(1) n(6) by (simp add: frontend_alloc_def FRONTEND_ALIGN_def Let_def flip: data_def)
  qed
  have "heap_inv (?mid\<lparr>fe_tracking := t, fe_shadow := s\<rparr>)"
  proof -
    have other: "block_shadow (poisoned s) ?rz a al" if al: "?allocs a = Some al" for a al
    proof (rule block_shadow_apart)
      show "block_shadow (poisoned (fe_shadow fe)) ?rz a al" "block_ok ?rz a al"
        "apart orig sz (al_backend_addr al) (al_backend_len al)"
        using al shadows blocks fit by (simp_all add: block_fits_def)
      show "poisoned s b = poisoned (fe_shadow fe) b"
        if "in_memory b 1" "\<not> (unat orig \<le> b \<and> b < unat orig + unat sz)" for b
        using p(4) [OF that(1)] that(2) n(4) od room by auto
    qed
    have ok: "block_ok ?rz data ?al"
      using m mods sz(2) n(2,4) up l0 by (simp add: block_ok_def)
    have inside: "in_memory b 1" if "unat orig \<le> b" "b < unat orig + unat sz" for b
      using that by (intro in_memory_within [OF m]) simp_all
    have sh: "block_shadow (poisoned s) ?rz data ?al"
      unfolding block_shadow_def using p(4) [OF inside] n(4) od room up by simp
    have "blocks_apart (?allocs(data \<mapsto> ?al))"
      using fit by (intro blocks_apart_insert [OF ap]) (simp add: block_fits_def)
    moreover have "quarantine_ok (?allocs(data \<mapsto> ?al)) (fe_quarantine fe) (fe_quarantine_used fe)"
      by (rule quarantine_ok_insert [OF q new]) simp
    moreover have "block_ok ?rz a al \<and> block_shadow (poisoned s) ?rz a al"
      if "(?allocs(data \<mapsto> ?al)) a = Some al" for a al
      using that ok sh other [of a al] blocks by (cases "a = data") simp_all
    ultimately show ?thesis
      using p(2,3) rz by (simp add: heap_inv_def live_insert)
  qed
  from that [of s t] run this new show thesis by simp
qed

end

section \<open>Freeing\<close>

text \<open>Blocks that do not meet fit in the address space together, so the quarantine cannot overflow.\<close>

lemma blocks_total:
  assumes ap: "blocks_apart allocs" and ok: "\<forall>a al. allocs a = Some al \<longrightarrow> block_ok rz a al"
    and xs: "distinct xs" "set xs \<subseteq> dom allocs"
  shows "(\<Sum>a\<leftarrow>xs. blk_len (the (allocs a))) \<le> 0x800000000000"
proof -
  let ?blk = "\<lambda>a. {blk_start (the (allocs a))..<blk_start (the (allocs a)) + blk_len (the (allocs a))}"
  have "?blk a \<inter> ?blk b = {}" if "a \<in> set xs" "b \<in> set xs" "a \<noteq> b" for a b
  proof -
    obtain al bl where "allocs a = Some al" "allocs b = Some bl" using \<open>a \<in> set xs\<close> \<open>b \<in> set xs\<close> xs(2) by blast
    with ap \<open>a \<noteq> b\<close> show ?thesis by (fastforce simp: blocks_apart_def apart_def)
  qed
  then have "card (\<Union>a\<in>set xs. ?blk a) = (\<Sum>a\<in>set xs. card (?blk a))"
    by (intro card_UN_disjoint) auto
  moreover have "(\<Union>a\<in>set xs. ?blk a) \<subseteq> {0..<0x800000000000}"
  proof (rule UN_least)
    fix a assume "a \<in> set xs"
    then obtain al where al: "allocs a = Some al" using xs(2) by blast
    then have "in_memory (blk_start al) (blk_len al)" using ok by (simp add: block_ok_def)
    with al show "?blk a \<subseteq> {0..<0x800000000000}" by (auto simp: in_memory_def)
  qed
  then have "card (\<Union>a\<in>set xs. ?blk a) \<le> 0x800000000000"
    using card_mono [of "{0..<0x800000000000::nat}"] by fastforce
  ultimately show ?thesis using xs(1) by (simp add: sum_list_distinct_conv_sum_set)
qed

lemma map_le_upd_None: "m \<subseteq>\<^sub>m (\<lambda>b. if b = a then None else f b) \<Longrightarrow> m \<subseteq>\<^sub>m f"
  by (fastforce simp: map_le_def split: if_splits)

lemma live_freed: "allocs a = Some al \<Longrightarrow> al_freed al \<Longrightarrow> live (allocs(a := None)) = live allocs"
  by (auto simp: live_def)

lemma quarantine_ok_push:
  assumes "quarantine_ok allocs q used" "allocs a = Some al" "\<not> al_freed al"
    "unat used + unat (al_backend_len al) < 2 ^ 64"
  shows "quarantine_ok (allocs(a \<mapsto> al\<lparr>al_freed := True\<rparr>)) (q @ [a]) (used + al_backend_len al)"
proof -
  have a: "a \<notin> set q" using assms(1-3) by (auto simp: quarantine_ok_def)
  then have "map (\<lambda>b. blk_len (the ((allocs(a \<mapsto> al\<lparr>al_freed := True\<rparr>)) b))) q = map (\<lambda>b. blk_len (the (allocs b))) q"
    by simp
  moreover have "unat (used + al_backend_len al) = unat used + unat (al_backend_len al)"
    using assms(4) by (intro unat_add_64) simp
  ultimately show ?thesis
    using assms(1-3) a unfolding quarantine_ok_def
    by (simp only: map_append sum_list_append distinct_append) auto
qed

lemma quarantine_ok_pop:
  assumes "quarantine_ok allocs (a # q) used"
  obtains al where "allocs a = Some al" "al_freed al"
    "quarantine_ok (allocs(a := None)) q (used - al_backend_len al)"
proof -
  from assms obtain al where al: "allocs a = Some al" "al_freed al" by (auto simp: quarantine_ok_def)
  have "map (\<lambda>b. blk_len (the ((allocs(a := None)) b))) q = map (\<lambda>b. blk_len (the (allocs b))) q"
    using assms by (auto simp: quarantine_ok_def)
  moreover have "al_backend_len al \<le> used" using assms al by (simp add: quarantine_ok_def word_le_nat_alt)
  then have "unat (used - al_backend_len al) = unat used - unat (al_backend_len al)" by (simp add: unat_sub)
  moreover have "set q = set (a # q) - {a}" using assms by (auto simp: quarantine_ok_def)
  ultimately have "quarantine_ok (allocs(a := None)) q (used - al_backend_len al)"
    using assms al unfolding quarantine_ok_def by (simp only:) auto
  with al show thesis by (rule that)
qed

context asan_heap
begin

lemma heap_inv_pop:
  assumes h: "heap_inv fe" and q: "fe_quarantine fe = a # q"
  obtains al where "fe_allocations fe a = Some al" "layout_ok (al_backend_len al) (al_backend_align al)"
    "\<And>b. heap_inv (fe\<lparr>fe_quarantine := q, fe_allocations := (fe_allocations fe)(a := None), fe_backend := b,
       fe_quarantine_used := fe_quarantine_used fe - al_backend_len al\<rparr>)"
proof -
  have "quarantine_ok (fe_allocations fe) (a # q) (fe_quarantine_used fe)"
    using h q by (simp add: heap_inv_def)
  then obtain al where al: "fe_allocations fe a = Some al" "al_freed al"
    "quarantine_ok ((fe_allocations fe)(a := None)) q (fe_quarantine_used fe - al_backend_len al)"
    by (rule quarantine_ok_pop)
  have "blocks_apart ((fe_allocations fe)(a := None))"
    using h by (auto simp: heap_inv_def blocks_apart_def)
  with h al have inv: "heap_inv (fe\<lparr>fe_quarantine := q, fe_allocations := (fe_allocations fe)(a := None), fe_backend := b,
       fe_quarantine_used := fe_quarantine_used fe - al_backend_len al\<rparr>)" for b
    by (simp add: heap_inv_def live_freed)
  have "layout_ok (al_backend_len al) (al_backend_align al)"
    using h al(1) by (simp add: heap_inv_def block_ok_def)
  from al(1) this inv show thesis by (rule that)
qed

lemma purge_ok:
  assumes "heap_inv fe"
  shows "fst (purge_quarantine bops fe) = Inr () \<and> heap_inv (snd (purge_quarantine bops fe)) \<and>
    fe_quarantine_used (snd (purge_quarantine bops fe)) \<le> fe_quarantine_size fe"
  using assms
proof (induction bops fe rule: purge_quarantine.induct)
  case (1 bops fe)
  show ?case
  proof (cases "fe_quarantine_size fe < fe_quarantine_used fe")
    case False
    with "1.prems" show ?thesis by (simp add: purge_quarantine.simps [of bops fe])
  next
    case True
    then have used: "0 < unat (fe_quarantine_used fe)"
      by (simp add: word_less_nat_alt)
    obtain a q where q: "fe_quarantine fe = a # q"
      using used "1.prems" by (cases "fe_quarantine fe") (auto simp: heap_inv_def quarantine_ok_def)
    obtain al where al: "fe_allocations fe a = Some al" "layout_ok (al_backend_len al) (al_backend_align al)"
      "heap_inv (fe\<lparr>fe_quarantine := q, fe_allocations := (fe_allocations fe)(a := None),
         fe_backend := ba_dealloc bops (al_backend_addr al) (al_backend_len al) (al_backend_align al) (fe_backend fe),
         fe_quarantine_used := fe_quarantine_used fe - al_backend_len al\<rparr>)"
      by (rule heap_inv_pop [OF "1.prems" q]) (rule that, assumption+)
    from "1.IH" [OF _ q refl] True al q show ?thesis
      by (simp add: purge_quarantine.simps [of bops fe])
  qed
qed

lemma purge_keeps:
  "fe_quarantine_size (snd (purge_quarantine bops fe)) = fe_quarantine_size fe \<and>
    fe_red_zone_size (snd (purge_quarantine bops fe)) = fe_red_zone_size fe \<and>
    fe_shadow (snd (purge_quarantine bops fe)) = fe_shadow fe \<and>
    fe_tracking (snd (purge_quarantine bops fe)) = fe_tracking fe \<and>
    fe_allocations (snd (purge_quarantine bops fe)) \<subseteq>\<^sub>m fe_allocations fe"
proof (induction bops fe rule: purge_quarantine.induct)
  case (1 bops fe)
  note step = purge_quarantine.simps [of bops fe]
  show ?case
  proof (cases "fe_quarantine_size fe < fe_quarantine_used fe")
    case False
    then show ?thesis by (simp add: step)
  next
    case used: True
    show ?thesis
    proof (cases "fe_quarantine fe")
      case Nil
      with used show ?thesis by (simp add: step)
    next
      case (Cons a q)
      show ?thesis
      proof (cases "fe_allocations fe a")
        case None
        with used Cons show ?thesis by (simp add: step)
      next
        case (Some al)
        show ?thesis
        proof (cases "layout_ok (al_backend_len al) (al_backend_align al)")
          case False
          with used Cons Some show ?thesis by (auto simp: step map_le_def split: if_splits)
        next
          case True
          let ?fe = "fe\<lparr>fe_quarantine := q, fe_allocations := (fe_allocations fe)(a := None),
            fe_backend := ba_dealloc bops (al_backend_addr al) (al_backend_len al) (al_backend_align al) (fe_backend fe),
            fe_quarantine_used := fe_quarantine_used fe - al_backend_len al\<rparr>"
          have run: "purge_quarantine bops fe = purge_quarantine bops ?fe"
            using used Cons Some True by (simp add: step)
          have IH: "fe_quarantine_size (snd (purge_quarantine bops ?fe)) = fe_quarantine_size fe"
            "fe_red_zone_size (snd (purge_quarantine bops ?fe)) = fe_red_zone_size fe"
            "fe_shadow (snd (purge_quarantine bops ?fe)) = fe_shadow fe"
            "fe_tracking (snd (purge_quarantine bops ?fe)) = fe_tracking fe"
            "fe_allocations (snd (purge_quarantine bops ?fe)) \<subseteq>\<^sub>m
              (\<lambda>b. if b = a then None else fe_allocations fe b)"
            using used Some True "1.IH" [OF _ Cons refl _ refl] by simp_all
          show ?thesis unfolding run by (intro conjI IH(1-4) map_le_upd_None [OF IH(5)])
        qed
      qed
    qed
  qed
qed

text \<open>The purge drops freed objects only, so the live ones stay.\<close>

lemma purge_live:
  "heap_inv fe \<Longrightarrow> live (fe_allocations (snd (purge_quarantine bops fe))) = live (fe_allocations fe)"
proof (induction bops fe rule: purge_quarantine.induct)
  case (1 bops fe)
  show ?case
  proof (cases "fe_quarantine_size fe < fe_quarantine_used fe")
    case False
    then show ?thesis by (simp add: purge_quarantine.simps [of bops fe])
  next
    case True
    then have "0 < unat (fe_quarantine_used fe)" by (simp add: word_less_nat_alt)
    then obtain a q where q: "fe_quarantine fe = a # q"
      using "1.prems" by (cases "fe_quarantine fe") (auto simp: heap_inv_def quarantine_ok_def)
    have "quarantine_ok (fe_allocations fe) (a # q) (fe_quarantine_used fe)"
      using "1.prems" q by (simp add: heap_inv_def)
    then obtain bl where bl: "fe_allocations fe a = Some bl" "al_freed bl" by (rule quarantine_ok_pop)
    obtain al where al: "fe_allocations fe a = Some al" "layout_ok (al_backend_len al) (al_backend_align al)"
      "heap_inv (fe\<lparr>fe_quarantine := q, fe_allocations := (fe_allocations fe)(a := None),
         fe_backend := ba_dealloc bops (al_backend_addr al) (al_backend_len al) (al_backend_align al) (fe_backend fe),
         fe_quarantine_used := fe_quarantine_used fe - al_backend_len al\<rparr>)"
      by (rule heap_inv_pop [OF "1.prems" q]) (rule that, assumption+)
    have "live (\<lambda>b. if b = a then None else fe_allocations fe b) = live (fe_allocations fe)"
      using bl by (auto simp: live_def)
    with "1.IH" [OF _ q refl] True al q show ?thesis
      by (simp add: purge_quarantine.simps [of bops fe])
  qed
qed

text \<open>The state before the quarantine is purged.\<close>

lemma freed_inv:
  assumes h: "heap_inv fe" and al: "fe_allocations fe addr = Some al" "\<not> al_freed al"
  obtains s t where
    "sh_poison sops (al_backend_addr al) (al_backend_len al) AsanHeapFreed (fe_shadow fe) = Inr s"
    "tk_untrack tops addr (fe_tracking fe) = (Inr (), t)"
    "heap_inv (fe\<lparr>fe_allocations := (fe_allocations fe)(addr \<mapsto> al\<lparr>al_freed := True\<rparr>),
       fe_shadow := s, fe_tracking := t, fe_quarantine_used := fe_quarantine_used fe + al_backend_len al,
       fe_quarantine := fe_quarantine fe @ [addr]\<rparr>)"
proof -
  let ?rz = "fe_red_zone_size fe" and ?allocs = "fe_allocations fe"
  have inv: "inv (fe_shadow fe)" and tr: "tracks (fe_tracking fe) (live ?allocs)"
    and rz: "?rz \<noteq> 0" "unat ?rz mod 16 = 0" "unat ?rz * 2 < 2 ^ 64"
    and blocks: "\<forall>a al. ?allocs a = Some al \<longrightarrow> block_ok ?rz a al"
    and shadows: "\<forall>a al. ?allocs a = Some al \<longrightarrow> block_shadow (poisoned (fe_shadow fe)) ?rz a al"
    and ap: "blocks_apart ?allocs" and q: "quarantine_ok ?allocs (fe_quarantine fe) (fe_quarantine_used fe)"
    using h by (simp_all add: heap_inv_def)
  have ok: "block_ok ?rz addr al" using blocks al(1) by blast
  then have m: "in_memory (blk_start al) (blk_len al)" and b8: "blk_start al mod 8 = 0" "blk_len al mod 8 = 0"
    by (simp_all add: block_ok_def)
  have e8: "(blk_start al + blk_len al) mod 8 = 0" using b8 by (metis add_0 mod_add_eq mod_0)
  have neg: "sint (poison_value AsanHeapFreed) < 0" by simp
  obtain s where s: "sh_poison sops (al_backend_addr al) (al_backend_len al) AsanHeapFreed (fe_shadow fe) = Inr s"
    "inv s" "\<forall>b. in_memory b 1 \<longrightarrow> poisoned s b =
      (if blk_start al \<le> b \<and> b < blk_start al + blk_len al then True
       else if al_backend_len al \<noteq> 0 \<and> blk_start al - blk_start al mod 8 \<le> b \<and> b < blk_start al then False
       else poisoned (fe_shadow fe) b)"
    using sh.poison [OF inv m e8 neg] by blast
  have sb: "poisoned s b = (blk_start al \<le> b \<and> b < blk_start al + blk_len al \<or> poisoned (fe_shadow fe) b)"
    if "in_memory b 1" for b
    using s(3) that b8 by auto
  have "live ?allocs addr = Some (al_frontend_len al)" using al by (simp add: live_def)
  with tk.untrack [OF tr] obtain t where t: "tk_untrack tops addr (fe_tracking fe) = (Inr (), t)"
    "tracks t ((live ?allocs)(addr := None))" by blast
  let ?new = "?allocs(addr \<mapsto> al\<lparr>al_freed := True\<rparr>)"
  have "block_ok ?rz a bl \<and> block_shadow (poisoned s) ?rz a bl" if a: "?new a = Some bl" for a bl
  proof (cases "a = addr")
    case True
    have "poisoned s b" if "b \<in> {blk_start al..<blk_start al + blk_len al}" for b
    proof -
      have "in_memory b 1" by (rule in_memory_within [OF m]) (use that in auto)
      with sb that show ?thesis by simp
    qed
    with True a ok show ?thesis by (auto simp: block_ok_def block_shadow_def)
  next
    case False
    then have "?allocs a = Some bl" using a by simp
    moreover have "apart (al_backend_addr al) (al_backend_len al) (al_backend_addr bl) (al_backend_len bl)"
      using ap al(1) \<open>?allocs a = Some bl\<close> False unfolding blocks_apart_def by metis
    ultimately show ?thesis
      using blocks shadows block_shadow_apart [of "fe_shadow fe" ?rz a bl "al_backend_addr al" "al_backend_len al" s] sb
      by blast
  qed
  moreover have "blocks_apart ?new"
    using ap al(1) by (auto simp: blocks_apart_def)
  moreover have "quarantine_ok ?new (fe_quarantine fe @ [addr]) (fe_quarantine_used fe + al_backend_len al)"
  proof (rule quarantine_ok_push [OF q al])
    have "addr \<notin> set (fe_quarantine fe)" using q al by (auto simp: quarantine_ok_def)
    then have "(\<Sum>a\<leftarrow>fe_quarantine fe @ [addr]. blk_len (the (?allocs a))) \<le> 0x800000000000"
      using q al(1) by (intro blocks_total [OF ap blocks]) (auto simp: quarantine_ok_def)
    then show "unat (fe_quarantine_used fe) + blk_len al < 2 ^ 64"
      using q al(1) by (simp add: quarantine_ok_def)
  qed
  ultimately have "heap_inv (fe\<lparr>fe_allocations := ?new, fe_shadow := s, fe_tracking := t,
       fe_quarantine_used := fe_quarantine_used fe + al_backend_len al,
       fe_quarantine := fe_quarantine fe @ [addr]\<rparr>)"
    using s(2) t(2) rz by (simp add: heap_inv_def live_insert)
  with s(1) t(1) show thesis by (rule that)
qed

lemma live_address: "heap_inv fe \<Longrightarrow> fe_allocations fe addr = Some al \<Longrightarrow> addr \<noteq> 0"
proof
  assume h: "heap_inv fe" and al: "fe_allocations fe addr = Some al" and "addr = 0"
  then have "block_ok (fe_red_zone_size fe) addr al" "fe_red_zone_size fe \<noteq> 0"
    by (simp_all add: heap_inv_def)
  then have "blk_start al + unat (fe_red_zone_size fe) \<le> 0" "fe_red_zone_size fe \<noteq> 0"
    using \<open>addr = 0\<close> by (simp_all add: block_ok_def)
  then show False by (simp add: unat_eq_0)
qed

text \<open>What \<open>dealloc\<close> answers depends on the table alone.\<close>

lemma dealloc_answer:
  assumes h: "heap_inv fe"
  shows "fst (frontend_dealloc bops sops tops addr fe) =
      (if addr = 0 then Inr ()
       else case fe_allocations fe addr of None \<Rightarrow> Inl (InvalidAddress addr)
       | Some al \<Rightarrow> if al_freed al then Inl (DoubleFree addr) else Inr ()) \<and>
    heap_inv (snd (frontend_dealloc bops sops tops addr fe)) \<and>
    (\<forall>al. fe_allocations fe addr = Some al \<longrightarrow> \<not> al_freed al \<longrightarrow>
       fe_quarantine_used (snd (frontend_dealloc bops sops tops addr fe)) \<le> fe_quarantine_size fe \<and>
       fe_allocations (snd (frontend_dealloc bops sops tops addr fe)) \<subseteq>\<^sub>m
         (fe_allocations fe)(addr \<mapsto> al\<lparr>al_freed := True\<rparr>))"
proof (cases "fe_allocations fe addr")
  case None
  with h show ?thesis by (simp add: frontend_dealloc_def)
next
  case al: (Some al)
  have a: "addr \<noteq> 0" using live_address [OF h al] .
  show ?thesis
  proof (cases "al_freed al")
    case True
    with a al h show ?thesis by (simp add: frontend_dealloc_def)
  next
    case False
    obtain s t where st: "sh_poison sops (al_backend_addr al) (al_backend_len al) AsanHeapFreed (fe_shadow fe) = Inr s"
      "tk_untrack tops addr (fe_tracking fe) = (Inr (), t)"
      "heap_inv (fe\<lparr>fe_allocations := (fe_allocations fe)(addr \<mapsto> al\<lparr>al_freed := True\<rparr>),
         fe_shadow := s, fe_tracking := t, fe_quarantine_used := fe_quarantine_used fe + al_backend_len al,
         fe_quarantine := fe_quarantine fe @ [addr]\<rparr>)" (is "heap_inv ?fe")
      by (rule freed_inv [OF h al False])
    have "frontend_dealloc bops sops tops addr fe = purge_quarantine bops ?fe"
      using a al False st(1,2) by (simp add: frontend_dealloc_def Let_def)
    with purge_ok [OF st(3), of bops] purge_keeps [of bops ?fe] a al False show ?thesis by simp
  qed
qed

text \<open>A successful free takes the object from the live ones and poisons its block.\<close>

lemma dealloc_effect:
  assumes h: "heap_inv fe" and al: "fe_allocations fe addr = Some al" "\<not> al_freed al"
  obtains fe' where "frontend_dealloc bops sops tops addr fe = (Inr (), fe')" "heap_inv fe'"
    "live (fe_allocations fe') = (live (fe_allocations fe))(addr := None)"
    "\<And>b. blk_start al \<le> b \<Longrightarrow> b < blk_start al + blk_len al \<Longrightarrow> poisoned (fe_shadow fe') b"
proof -
  obtain s t where st: "sh_poison sops (al_backend_addr al) (al_backend_len al) AsanHeapFreed (fe_shadow fe) = Inr s"
    "tk_untrack tops addr (fe_tracking fe) = (Inr (), t)"
    "heap_inv (fe\<lparr>fe_allocations := (fe_allocations fe)(addr \<mapsto> al\<lparr>al_freed := True\<rparr>),
       fe_shadow := s, fe_tracking := t, fe_quarantine_used := fe_quarantine_used fe + al_backend_len al,
       fe_quarantine := fe_quarantine fe @ [addr]\<rparr>)" (is "heap_inv ?fe")
    by (rule freed_inv [OF h al])
  have run: "frontend_dealloc bops sops tops addr fe = purge_quarantine bops ?fe"
    using live_address [OF h al(1)] al st(1,2) by (simp add: frontend_dealloc_def Let_def)
  let ?r = "purge_quarantine bops ?fe"
  have ok: "fst ?r = Inr ()" "heap_inv (snd ?r)" using purge_ok [OF st(3), of bops] by simp_all
  have sh: "fe_shadow (snd ?r) = s" using purge_keeps [of bops ?fe] by simp
  have "fe_allocations ?fe addr = Some (al\<lparr>al_freed := True\<rparr>)" by simp
  with st(3) have "block_shadow (poisoned s) (fe_red_zone_size fe) addr (al\<lparr>al_freed := True\<rparr>)"
    by (simp add: heap_inv_def)
  then have "poisoned (fe_shadow (snd ?r)) b" if "blk_start al \<le> b" "b < blk_start al + blk_len al" for b
    using that by (simp add: block_shadow_def sh)
  moreover have "live (fe_allocations (snd ?r)) = (live (fe_allocations fe))(addr := None)"
    using purge_live [OF st(3), of bops] by (simp add: live_insert)
  moreover have "frontend_dealloc bops sops tops addr fe = (Inr (), snd ?r)"
    using run ok(1) by (metis prod.collapse)
  ultimately show thesis using that [OF _ ok(2)] by blast
qed

text \<open>
  \<open>alloc\<close> of an object that is not empty: either an error of the table of sizes or of the backend,
  before anything is changed, or the object.
\<close>

lemma alloc_answer:
  assumes h: "heap_inv fe" and align: "unat align mod 16 = 0" and l: "len \<noteq> 0"
    and backend: "\<forall>sz orig b. ba_alloc bops sz 16 (fe_backend fe) = (orig, b) \<longrightarrow> orig \<noteq> 0 \<longrightarrow>
      block_fits (fe_allocations fe) orig sz"
  shows "heap_inv (snd (frontend_alloc bops sops tops len align fe)) \<and>
    (fst (frontend_alloc bops sops tops len align fe) \<in> {Inl (AllocationTooLarge len), Inl AllocatorError} \<and>
       fe_allocations (snd (frontend_alloc bops sops tops len align fe)) = fe_allocations fe \<or>
     (\<exists>data al. fst (frontend_alloc bops sops tops len align fe) = Inr data \<and> fe_allocations fe data = None \<and>
       fe_allocations (snd (frontend_alloc bops sops tops len align fe)) = (fe_allocations fe)(data \<mapsto> al) \<and>
       al_frontend_len al = len \<and> \<not> al_freed al \<and> (align \<noteq> 0 \<longrightarrow> data mod align = 0)))"
proof (cases "allocated_size (fe_red_zone_size fe) len align")
  case None
  then have "frontend_alloc bops sops tops len align fe = (Inl (AllocationTooLarge len), fe)"
    using mod_16_mod_8 [OF align] by (simp add: frontend_alloc_def word_mod_8_eq_0)
  with h show ?thesis by simp
next
  case sz: (Some sz)
  have a8: "align mod 8 = 0" using mod_16_mod_8 [OF align] by (simp add: word_mod_8_eq_0)
  have rz: "unat (fe_red_zone_size fe) mod 16 = 0" "unat (fe_red_zone_size fe) * 2 < 2 ^ 64"
    using h by (simp_all add: heap_inv_def)
  have s16: "sz mod 16 = 0"
  proof -
    have "unat sz = (unat len + unat align + 15) div 16 * 16 + 2 * unat (fe_red_zone_size fe)"
      by (rule allocated_size_Some [OF sz rz(2)])
    then have "unat sz mod 16 = 0" using rz(1) by auto
    then show ?thesis by (simp add: unat_mod_distrib flip: unat_eq_0)
  qed
  obtain orig b where ba: "ba_alloc bops sz 16 (fe_backend fe) = (orig, b)" by fastforce
  consider "\<not> layout_ok sz 16" | "layout_ok sz 16" "orig = 0" | (ok) "layout_ok sz 16" "orig \<noteq> 0" by blast
  then show ?thesis
  proof cases
    case 1
    with a8 s16 sz have "frontend_alloc bops sops tops len align fe = (Inl (AllocationTooLarge len), fe)"
      by (simp add: frontend_alloc_def FRONTEND_ALIGN_def)
    with h show ?thesis by simp
  next
    case 2
    with a8 s16 sz ba have "frontend_alloc bops sops tops len align fe = (Inl AllocatorError, fe\<lparr>fe_backend := b\<rparr>)"
      by (simp add: frontend_alloc_def FRONTEND_ALIGN_def Let_def)
    moreover have "heap_inv (fe\<lparr>fe_backend := b\<rparr>)" using h by (simp add: heap_inv_def)
    ultimately show ?thesis by simp
  next
    case ok
    let ?data = "place (fe_red_zone_size fe) orig align"
    let ?al = "\<lparr>al_frontend_len = len, al_backend_addr = orig, al_backend_len = sz,
      al_backend_align = 16, al_freed = False\<rparr>"
    have fit: "block_fits (fe_allocations fe) orig sz" using backend ba ok(2) by blast
    then have o16: "unat orig mod 16 = 0" "in_memory (unat orig) (unat sz)" by (simp_all add: block_fits_def)
    obtain t s where r: "frontend_alloc bops sops tops len align fe = (Inr ?data,
        fe\<lparr>fe_backend := b, fe_allocations := (fe_allocations fe)(?data \<mapsto> ?al), fe_tracking := t, fe_shadow := s\<rparr>)"
      "heap_inv (fe\<lparr>fe_backend := b, fe_allocations := (fe_allocations fe)(?data \<mapsto> ?al), fe_tracking := t, fe_shadow := s\<rparr>)"
      "fe_allocations fe ?data = None"
      by (rule alloc_ok [OF h align l sz ok(1) ba ok(2) fit])
    have "align \<noteq> 0 \<longrightarrow> ?data mod align = 0" using alloc_numbers(5) [OF sz align rz o16] by blast
    with r show ?thesis by (auto intro!: exI [of _ ?al])
  qed
qed

text \<open>A check of a range inside a block: it fails exactly outside the object, or when it is freed.\<close>

lemma block_check:
  assumes h: "heap_inv fe" and al: "fe_allocations fe a = Some al" and n: "n \<noteq> 0"
    and lo: "blk_start al \<le> unat p"
    and hi: "unat p + unat n \<le> (if al_freed al then blk_start al + blk_len al
      else unat a + unat (al_frontend_len al) + unat (fe_red_zone_size fe))"
  shows "sh_is_poison sops p n (fe_shadow fe) = Inr (al_freed al \<or>
    \<not> (unat a \<le> unat p \<and> unat p + unat n \<le> unat a + unat (al_frontend_len al)))"
proof -
  let ?rz = "fe_red_zone_size fe" and ?bad = "poisoned (fe_shadow fe)"
  have ok: "block_ok ?rz a al" and sh: "block_shadow ?bad ?rz a al" and inv: "inv (fe_shadow fe)"
    using h al by (simp_all add: heap_inv_def)
  have n0: "0 < unat n" using n by (simp add: unat_gt_0)
  have m: "in_memory (blk_start al) (blk_len al)" using ok by (simp add: block_ok_def)
  have "unat p + unat n \<le> blk_start al + blk_len al" using hi ok by (auto simp: block_ok_def split: if_splits)
  then have "in_memory (unat p) (unat n)" by (rule in_memory_within [OF m lo _ n0])
  then have "sh_is_poison sops p n (fe_shadow fe) = Inr (\<exists>b\<in>{unat p..<unat p + unat n}. ?bad b)"
    by (rule sh.is_poison [OF inv])
  moreover have "(\<exists>b\<in>{unat p..<unat p + unat n}. ?bad b) \<longleftrightarrow>
    al_freed al \<or> \<not> (unat a \<le> unat p \<and> unat p + unat n \<le> unat a + unat (al_frontend_len al))"
  proof (cases "al_freed al")
    case True
    then have "?bad (unat p)" using sh lo hi n0 by (simp add: block_shadow_def)
    with True n0 show ?thesis by auto
  next
    case False
    let ?e = "unat a + unat (al_frontend_len al)"
    have left: "\<And>b. blk_start al \<le> b \<Longrightarrow> b < unat a \<Longrightarrow> ?bad b"
      and mid: "\<And>b. unat a \<le> b \<Longrightarrow> b < ?e \<Longrightarrow> \<not> ?bad b"
      and right: "\<And>b. ?e \<le> b \<Longrightarrow> b < ?e + unat ?rz \<Longrightarrow> ?bad b"
      using sh False by (simp_all add: block_shadow_def)
    have hi': "unat p + unat n \<le> ?e + unat ?rz" using hi False by simp
    consider "unat p < unat a" | "unat a \<le> unat p" "?e < unat p + unat n" | (inside) "unat a \<le> unat p" "unat p + unat n \<le> ?e"
      by linarith
    then show ?thesis
    proof cases
      case 1
      then have "?bad (unat p)" using left lo by simp
      with 1 False n0 show ?thesis by auto
    next
      case 2
      have "?bad (unat p + unat n - 1)" using 2 hi' n0 by (intro right) linarith+
      moreover have "unat p + unat n - 1 \<in> {unat p..<unat p + unat n}" using n0 by auto
      ultimately show ?thesis using 2 False by auto
    next
      case inside
      then show ?thesis using False mid by auto
    qed
  qed
  ultimately show ?thesis by simp
qed

end

section \<open>The states the allocator can reach\<close>

text \<open>
  The requests of a program, each with any answer of the backend that keeps the promise of
  \<^verbatim>\<open>GlobalAlloc\<close>. Objects have a positive size and an alignment that is a multiple of sixteen
  (or zero); what happens otherwise is stated at the end.
\<close>

definition backend_honest :: "'b backend_ops \<Rightarrow> ('b, 's, 't) frontend \<Rightarrow> bool" where
  "backend_honest bops fe \<longleftrightarrow> (\<forall>sz orig b. ba_alloc bops sz 16 (fe_backend fe) = (orig, b) \<longrightarrow> orig \<noteq> 0 \<longrightarrow>
     block_fits (fe_allocations fe) orig sz)"

inductive heap_reach ::
  "'b backend_ops \<Rightarrow> 's shadow_ops \<Rightarrow> 't tracking_ops \<Rightarrow> 's \<Rightarrow> 't \<Rightarrow> ('b, 's, 't) frontend \<Rightarrow> bool"
  for bops sops tops s0 t0 where
  start: "frontend_new backend s0 t0 rz qsize = Inr fe \<Longrightarrow> rz \<noteq> 0 \<Longrightarrow> heap_reach bops sops tops s0 t0 fe"
| alloc: "heap_reach bops sops tops s0 t0 fe \<Longrightarrow> len \<noteq> 0 \<Longrightarrow> unat align mod 16 = 0 \<Longrightarrow>
    backend_honest bops fe \<Longrightarrow> heap_reach bops sops tops s0 t0 (snd (frontend_alloc bops sops tops len align fe))"
| dealloc: "heap_reach bops sops tops s0 t0 fe \<Longrightarrow>
    heap_reach bops sops tops s0 t0 (snd (frontend_dealloc bops sops tops addr fe))"

context asan_heap
begin

lemma new_inv:
  assumes "frontend_new backend s0 t0 rz qsize = Inr fe" "rz \<noteq> 0" "inv s0" "tracks t0 Map.empty"
  shows "heap_inv fe"
proof -
  have "unat rz mod 16 = 0"
    using assms(1) by (simp add: frontend_new_def FRONTEND_ALIGN_def unat_mod_distrib flip: unat_eq_0 split: if_splits)
  moreover have "unat rz * 2 < 2 ^ 64" using assms(1) by (simp add: frontend_new_def split: if_splits)
  moreover have "live Map.empty = Map.empty" by (rule ext) (simp add: live_def)
  moreover have "blocks_apart Map.empty" "quarantine_ok Map.empty [] 0"
    by (simp_all add: blocks_apart_def quarantine_ok_def)
  ultimately show ?thesis
    using assms by (auto simp: frontend_new_def heap_inv_def split: if_splits)
qed

lemma reach_inv: "heap_reach bops sops tops s0 t0 fe \<Longrightarrow> inv s0 \<Longrightarrow> tracks t0 Map.empty \<Longrightarrow> heap_inv fe"
proof (induction rule: heap_reach.induct)
  case (start backend rz qsize fe)
  then show ?case by (rule new_inv)
next
  case (alloc fe len align)
  then show ?case
    using alloc_answer [THEN conjunct1, OF _ alloc.hyps(3,2)] by (simp add: backend_honest_def)
next
  case (dealloc fe addr)
  then show ?case using dealloc_answer [of fe bops addr] by blast
qed

end

text \<open>Both trackers make a heap with the guest shadow; the runtime in the guest uses the fast one.\<close>

interpretation precise_heap: asan_heap shadow_wf byte_poisoned guest_shadow_ops guest_tracks guest_tracking_ops
  ..

interpretation guest_heap: asan_heap shadow_wf byte_poisoned guest_shadow_ops
  "\<lambda>t live. t = dom live \<and> (\<forall>s l. live s = Some l \<longrightarrow> l \<noteq> 0)" fast_tracking_ops
  ..

type_synonym 'b guest_frontend = "('b, guest_shadow, u64 set) frontend"

abbreviation guest_reach :: "'b backend_ops \<Rightarrow> 'b guest_frontend \<Rightarrow> bool" where
  "guest_reach bops \<equiv> heap_reach bops guest_shadow_ops fast_tracking_ops fresh_shadow fast_tracking_new"

lemma guest_reach_inv: "guest_reach bops fe \<Longrightarrow> guest_heap.heap_inv fe"
  by (erule guest_heap.reach_inv) (simp_all add: fresh_shadow_wf fast_tracking_new_def)

lemma precise_reach_inv:
  "heap_reach bops guest_shadow_ops guest_tracking_ops fresh_shadow guest_tracking_new fe \<Longrightarrow> precise_heap.heap_inv fe"
  by (erule precise_heap.reach_inv)
    (simp_all add: fresh_shadow_wf guest_tracking_new_def guest_tracks_def ranges_wf_def)

text \<open>A backend that hands out one block after the other, for the witnesses.\<close>

definition bump :: "u64 backend_ops" where
  "bump = \<lparr>ba_alloc = (\<lambda>sz _ next. if unat next + unat sz \<le> 0x70000000 then (next, next + sz) else (0, next)),
     ba_dealloc = (\<lambda>_ _ _ next. next)\<rparr>"

definition bump_start :: "u64 guest_frontend" where
  "bump_start = \<lparr>fe_backend = 0x10000, fe_shadow = fresh_shadow,
     fe_tracking = fast_tracking_new, fe_red_zone_size = 128, fe_allocations = Map.empty,
     fe_quarantine = [], fe_quarantine_size = 1024, fe_quarantine_used = 0\<rparr>"

lemma bump_start_reached: "guest_reach bump bump_start"
  by (rule heap_reach.start [of "0x10000" _ _ 128 1024]) (simp_all add: frontend_new_def FRONTEND_ALIGN_def bump_start_def)

lemma bump_start_honest: "backend_honest bump bump_start"
  by (auto simp: backend_honest_def bump_def bump_start_def block_fits_def in_memory_def)

lemma bump_once:
  obtains fe where "guest_reach bump fe" "fe_red_zone_size fe = 128" "fe_backend fe = 0x10120"
    "fe_allocations fe = [0x10080 \<mapsto> \<lparr>al_frontend_len = 24, al_backend_addr = 0x10000, al_backend_len = 288,
       al_backend_align = 16, al_freed = False\<rparr>]"
proof -
  have sz: "allocated_size (fe_red_zone_size bump_start) 24 0 = Some 288" "layout_ok 288 16"
    by (simp_all add: allocated_size_def checked_add_def checked_align_up_def FRONTEND_ALIGN_def
        bump_start_def layout_ok_def)
  have ba: "ba_alloc bump 288 16 (fe_backend bump_start) = (0x10000, 0x10120)"
    by (simp add: bump_def bump_start_def)
  then have fit: "block_fits (fe_allocations bump_start) 0x10000 288"
    using bump_start_honest by (auto simp: backend_honest_def)
  have al: "unat (0 :: u64) mod 16 = 0" and ne: "(24 :: u64) \<noteq> 0" "(0x10000 :: u64) \<noteq> 0" by simp_all
  obtain t s where "frontend_alloc bump guest_shadow_ops fast_tracking_ops 24 0 bump_start =
      (Inr (place (fe_red_zone_size bump_start) 0x10000 0), bump_start\<lparr>fe_backend := 0x10120,
        fe_allocations := (fe_allocations bump_start)(place (fe_red_zone_size bump_start) 0x10000 0 \<mapsto>
        \<lparr>al_frontend_len = 24, al_backend_addr = 0x10000, al_backend_len = 288,
         al_backend_align = 16, al_freed = False\<rparr>), fe_tracking := t, fe_shadow := s\<rparr>)"
    by (rule guest_heap.alloc_ok [OF guest_reach_inv [OF bump_start_reached] al ne(1) sz ba ne(2) fit]) (rule that)
  moreover have "place (fe_red_zone_size bump_start) 0x10000 0 = 0x10080" by (simp add: place_def bump_start_def)
  ultimately have "frontend_alloc bump guest_shadow_ops fast_tracking_ops 24 0 bump_start =
      (Inr 0x10080, bump_start\<lparr>fe_backend := 0x10120, fe_allocations := (fe_allocations bump_start)(0x10080 \<mapsto>
        \<lparr>al_frontend_len = 24, al_backend_addr = 0x10000, al_backend_len = 288,
         al_backend_align = 16, al_freed = False\<rparr>), fe_tracking := t, fe_shadow := s\<rparr>)"
    by (simp only:)
  with heap_reach.alloc [OF bump_start_reached _ _ bump_start_honest, of 24 0] that
  show thesis by (auto simp: bump_start_def)
qed

section \<open>Properties\<close>







text \<open>
  A request for an object of size zero is refused with a tracking error, but only after its block
  was taken from the backend and entered into the table: the address can be freed although it was
  never returned, and until then the block is lost.
\<close>

theorem empty_allocation_leaks:
  assumes "guest_reach bops fe" "unat align mod 16 = 0"
    and "allocated_size (fe_red_zone_size fe) 0 align = Some sz" "layout_ok sz 16"
    and "ba_alloc bops sz 16 (fe_backend fe) = (orig, b)" "orig \<noteq> 0" "block_fits (fe_allocations fe) orig sz"
  shows "case frontend_alloc bops guest_shadow_ops fast_tracking_ops 0 align fe of (r, fe') \<Rightarrow>
    r = Inl (TrackingError (ZeroLength (place (fe_red_zone_size fe) orig align))) \<and>
    frontend_get_size fe' (place (fe_red_zone_size fe) orig align) = Inr 0 \<and> fe_backend fe' = b"
proof -
  let ?data = "place (fe_red_zone_size fe) orig align"
  note h = guest_reach_inv [OF assms(1)]
  have rz: "unat (fe_red_zone_size fe) mod 16 = 0" "unat (fe_red_zone_size fe) * 2 < 2 ^ 64"
    and tr: "fe_tracking fe = dom (live (fe_allocations fe)) \<and> (\<forall>s l. live (fe_allocations fe) s = Some l \<longrightarrow> l \<noteq> 0)"
    using h by (simp_all add: guest_heap.heap_inv_def)
  have o16: "unat orig mod 16 = 0" "in_memory (unat orig) (unat sz)" using assms(7) by (simp_all add: block_fits_def)
  note n = alloc_numbers [OF assms(3,2) rz o16]
  have "align mod 8 = 0" using mod_16_mod_8 [OF assms(2)] by (simp only: word_mod_8_eq_0)
  moreover have "sz mod 16 = 0" using n(1) by (simp add: unat_mod_distrib flip: unat_eq_0)
  moreover have "align = 0 \<or> ?data mod align = 0" using n(5) by blast
  moreover have "tk_track fast_tracking_ops ?data 0 (fe_tracking fe) = (Inl (ZeroLength ?data), fe_tracking fe)"
    by (rule fast_tracking.track_zero [OF tr])
  ultimately show ?thesis
    using assms(3-6) n(6) by (simp add: frontend_alloc_def FRONTEND_ALIGN_def Let_def protect_def frontend_get_size_def)
qed

theorem empty_allocation_leaks_witness:
  "\<exists>fe'. frontend_alloc bump guest_shadow_ops fast_tracking_ops 0 0 bump_start
      = (Inl (TrackingError (ZeroLength 0x10080)), fe') \<and> frontend_get_size fe' 0x10080 = Inr 0"
proof -
  have a: "unat (0 :: u64) mod 16 = 0" and n: "(0x10000 :: u64) \<noteq> 0" by simp_all
  have sz: "allocated_size (fe_red_zone_size bump_start) 0 0 = Some 256" "layout_ok 256 16"
    by (simp_all add: allocated_size_def checked_add_def checked_align_up_def FRONTEND_ALIGN_def
        bump_start_def layout_ok_def)
  have ba: "ba_alloc bump 256 16 (fe_backend bump_start) = (0x10000, 0x10100)"
    by (simp add: bump_def bump_start_def)
  then have fit: "block_fits (fe_allocations bump_start) 0x10000 256"
    using bump_start_honest by (auto simp: backend_honest_def)
  have "place (fe_red_zone_size bump_start) 0x10000 0 = 0x10080" by (simp add: place_def bump_start_def)
  with empty_allocation_leaks [OF bump_start_reached a sz ba n fit] show ?thesis by auto
qed

text \<open>
  An alignment of eight is accepted, but the object may then start in the middle of sixteen bytes,
  and its right red zone, which is rounded up to sixteen, ends eight bytes past the block.
\<close>

lemma right_zone_overruns:
  "allocated_size 128 8 8 = Some 272 \<and> place 128 0x10000 8 = 0x10088 \<and> checked_align_up 8 = Some 16 \<and>
    place 128 0x10000 8 + 16 + 128 = 0x10000 + 272 + (8 :: u64)"
  by (simp add: allocated_size_def checked_add_def checked_align_up_def FRONTEND_ALIGN_def place_def)

end
