(* ===== verification/AsanRuntime.thy ===== *)
theory AsanRuntime
  imports AsanFrontend
begin

text \<open>
  The runtime of the sanitizer in the guest,
  \<^verbatim>\<open>libaflmm_qemu_asan_guest/src/lib.rs\<close>: the functions \<open>asan_*\<close> that the hooks call, over
  the global allocator frontend, and the memory the hooks read and write.

  A machine is the memory, a partial function from addresses to bytes whose domain is what is
  mapped, and the frontend. A call that reports an error or panics ends the process: it is an
  \<open>Inl\<close> and there is no state after it. Reading or writing an unmapped byte, or running past the
  end of the address space, is the error \<open>Segfault\<close>. Lengths found by scanning memory are natural
  numbers; they are below the size of the address space because every byte scanned has an address.
\<close>

section \<open>The machine\<close>

datatype hook_error =
    AsanPanic string
  | BadRead u64 u64
  | BadWrite u64 u64
  | ShadowFault shadow_error
  | TrackingFault tracking_error
  | FrontendFault frontend_error
  | Segfault u64
  | IndexPanic
  | AssertPanic

record 'b machine =
  m_mem :: "u64 \<Rightarrow> u8 option"
  m_frontend :: "'b guest_frontend"

section \<open>The functions of the runtime\<close>

definition asan_load :: "u64 \<Rightarrow> nat \<Rightarrow> 'b machine \<Rightarrow> hook_error + unit" where
  "asan_load addr sz m =
     (case is_poison addr (of_nat sz) (fe_shadow (m_frontend m)) of
        Inl e \<Rightarrow> Inl (ShadowFault e)
      | Inr b \<Rightarrow> if b then Inl (BadRead addr (of_nat sz)) else Inr ())"

definition asan_store :: "u64 \<Rightarrow> nat \<Rightarrow> 'b machine \<Rightarrow> hook_error + unit" where
  "asan_store addr sz m =
     (case is_poison addr (of_nat sz) (fe_shadow (m_frontend m)) of
        Inl e \<Rightarrow> Inl (ShadowFault e)
      | Inr b \<Rightarrow> if b then Inl (BadWrite addr (of_nat sz)) else Inr ())"

text \<open>A request that cannot be served is answered with a null pointer, as the target expects.\<close>

definition asan_alloc ::
  "'b backend_ops \<Rightarrow> u64 \<Rightarrow> u64 \<Rightarrow> 'b machine \<Rightarrow> hook_error + u64 \<times> 'b machine" where
  "asan_alloc bops len align m =
     (case frontend_alloc bops guest_shadow_ops fast_tracking_ops len align (m_frontend m) of
        (Inr addr, fe) \<Rightarrow> Inr (addr, m\<lparr>m_frontend := fe\<rparr>)
      | (Inl (AllocationTooLarge _), fe) \<Rightarrow> Inr (0, m\<lparr>m_frontend := fe\<rparr>)
      | (Inl AllocatorError, fe) \<Rightarrow> Inr (0, m\<lparr>m_frontend := fe\<rparr>)
      | (Inl e, fe) \<Rightarrow> Inl (FrontendFault e))"

definition asan_dealloc :: "'b backend_ops \<Rightarrow> u64 \<Rightarrow> 'b machine \<Rightarrow> hook_error + 'b machine" where
  "asan_dealloc bops addr m =
     (case frontend_dealloc bops guest_shadow_ops fast_tracking_ops addr (m_frontend m) of
        (Inl e, fe) \<Rightarrow> Inl (FrontendFault e)
      | (Inr _, fe) \<Rightarrow> Inr (m\<lparr>m_frontend := fe\<rparr>))"

definition asan_get_size :: "u64 \<Rightarrow> 'b machine \<Rightarrow> hook_error + u64" where
  "asan_get_size addr m =
     (case frontend_get_size (m_frontend m) addr of Inl e \<Rightarrow> Inl (FrontendFault e) | Inr n \<Rightarrow> Inr n)"

definition asan_page_size :: u64 where
  "asan_page_size = 4096"

definition asan_unpoison :: "u64 \<Rightarrow> u64 \<Rightarrow> 'b machine \<Rightarrow> hook_error + 'b machine" where
  "asan_unpoison addr len m =
     (case unpoison addr len (fe_shadow (m_frontend m)) of
        Inl e \<Rightarrow> Inl (ShadowFault e)
      | Inr s \<Rightarrow> Inr (m\<lparr>m_frontend := (m_frontend m)\<lparr>fe_shadow := s\<rparr>\<rparr>))"

definition asan_track :: "u64 \<Rightarrow> u64 \<Rightarrow> 'b machine \<Rightarrow> hook_error + 'b machine" where
  "asan_track addr len m =
     (case fast_track addr len (fe_tracking (m_frontend m)) of
        (Inl e, t) \<Rightarrow> Inl (TrackingFault e)
      | (Inr _, t) \<Rightarrow> Inr (m\<lparr>m_frontend := (m_frontend m)\<lparr>fe_tracking := t\<rparr>\<rparr>))"

definition asan_untrack :: "u64 \<Rightarrow> 'b machine \<Rightarrow> hook_error + 'b machine" where
  "asan_untrack addr m =
     (case fast_untrack addr (fe_tracking (m_frontend m)) of
        (Inl e, t) \<Rightarrow> Inl (TrackingFault e)
      | (Inr _, t) \<Rightarrow> Inr (m\<lparr>m_frontend := (m_frontend m)\<lparr>fe_tracking := t\<rparr>\<rparr>))"

definition panic_if :: "bool \<Rightarrow> string \<Rightarrow> hook_error + unit" where
  "panic_if b msg = (if b then Inl (AsanPanic msg) else Inr ())"

section \<open>Memory\<close>

text \<open>\<open>*p.add(i)\<close> for bytes.\<close>

definition peek :: "'b machine \<Rightarrow> u64 \<Rightarrow> nat \<Rightarrow> hook_error + u8" where
  "peek m p i =
     (if unat p + i < 2 ^ 64
      then case m_mem m (p + of_nat i) of None \<Rightarrow> Inl (Segfault (p + of_nat i)) | Some b \<Rightarrow> Inr b
      else Inl (Segfault p))"

definition poke :: "u64 \<Rightarrow> nat \<Rightarrow> u8 \<Rightarrow> 'b machine \<Rightarrow> hook_error + 'b machine" where
  "poke p i b m =
     rbind (peek m p i) (\<lambda>_. Inr (m\<lparr>m_mem := (m_mem m)(p + of_nat i \<mapsto> b)\<rparr>))"

text \<open>The slice of \<open>n\<close> bytes at \<open>p\<close>, and the copy of bytes to \<open>p\<close>.\<close>

fun read_bytes :: "'b machine \<Rightarrow> u64 \<Rightarrow> nat \<Rightarrow> nat \<Rightarrow> hook_error + bytes" where
  "read_bytes m p i 0 = Inr []"
| "read_bytes m p i (Suc n) =
     rbind (peek m p i) (\<lambda>b. rbind (read_bytes m p (Suc i) n) (\<lambda>bs. Inr (b # bs)))"

fun write_bytes :: "u64 \<Rightarrow> nat \<Rightarrow> bytes \<Rightarrow> 'b machine \<Rightarrow> hook_error + 'b machine" where
  "write_bytes p i [] m = Inr m"
| "write_bytes p i (b # bs) m = rbind (poke p i b m) (write_bytes p (Suc i) bs)"

definition slice_at :: "'b machine \<Rightarrow> u64 \<Rightarrow> nat \<Rightarrow> hook_error + bytes" where
  "slice_at m p n = read_bytes m p 0 n"

definition copy_bytes :: "u64 \<Rightarrow> u64 \<Rightarrow> nat \<Rightarrow> 'b machine \<Rightarrow> hook_error + 'b machine" where
  "copy_bytes src dst n m = rbind (slice_at m src n) (\<lambda>bs. write_bytes dst 0 bs m)"

definition fill_bytes :: "u64 \<Rightarrow> u8 \<Rightarrow> nat \<Rightarrow> 'b machine \<Rightarrow> hook_error + 'b machine" where
  "fill_bytes dst b n m = write_bytes dst 0 (replicate n b) m"

text \<open>The scan for the terminator, without and with a limit.\<close>

function c_len :: "'b machine \<Rightarrow> u64 \<Rightarrow> nat \<Rightarrow> hook_error + nat" where
  "c_len m p len =
     (case peek m p len of Inl e \<Rightarrow> Inl e | Inr b \<Rightarrow> if b \<noteq> 0 then c_len m p (len + 1) else Inr len)"
  by pat_completeness auto

termination
  by (relation "measure (\<lambda>(_, p, len). 2 ^ 64 - (unat p + len))") (auto simp: peek_def split: if_splits)

declare c_len.simps [simp del]

function c_len_max :: "'b machine \<Rightarrow> u64 \<Rightarrow> nat \<Rightarrow> nat \<Rightarrow> hook_error + nat" where
  "c_len_max m p n len =
     (if len < n
      then case peek m p len of Inl e \<Rightarrow> Inl e
           | Inr b \<Rightarrow> if b \<noteq> 0 then c_len_max m p n (len + 1) else Inr len
      else Inr len)"
  by pat_completeness auto

termination
  by (relation "measure (\<lambda>(_, _, n, len). n - len)") auto

declare c_len_max.simps [simp del]

text \<open>Wide characters, four bytes each, the least significant first.\<close>

definition peek_wide :: "'b machine \<Rightarrow> u64 \<Rightarrow> nat \<Rightarrow> hook_error + u32" where
  "peek_wide m p i =
     rbind (read_bytes m p (4 * i) 4) (\<lambda>bs. Inr (\<Sum>k<4. push_bit (8 * k) (ucast (bs ! k))))"

fun read_wides :: "'b machine \<Rightarrow> u64 \<Rightarrow> nat \<Rightarrow> nat \<Rightarrow> hook_error + u32 list" where
  "read_wides m p i 0 = Inr []"
| "read_wides m p i (Suc n) =
     rbind (peek_wide m p i) (\<lambda>w. rbind (read_wides m p (Suc i) n) (\<lambda>ws. Inr (w # ws)))"

definition wide_slice_at :: "'b machine \<Rightarrow> u64 \<Rightarrow> nat \<Rightarrow> hook_error + u32 list" where
  "wide_slice_at m p n = read_wides m p 0 n"

lemma peek_bound: "peek m p i = Inr b \<Longrightarrow> unat p + i < 2 ^ 64"
  by (simp add: peek_def split: if_splits)

lemma read_bytes_bound: "read_bytes m p i n = Inr bs \<Longrightarrow> 0 < n \<Longrightarrow> unat p + i < 2 ^ 64"
  by (cases n) (auto simp: rbind_Inr_iff dest: peek_bound)

lemma peek_wide_bound: "peek_wide m p i = Inr w \<Longrightarrow> unat p + 4 * i < 2 ^ 64"
  unfolding peek_wide_def rbind_Inr_iff by (elim exE conjE) (rule read_bytes_bound [of m _ _ 4], simp_all)

function w_len :: "'b machine \<Rightarrow> u64 \<Rightarrow> nat \<Rightarrow> hook_error + nat" where
  "w_len m p len =
     (case peek_wide m p len of Inl e \<Rightarrow> Inl e | Inr w \<Rightarrow> if w \<noteq> 0 then w_len m p (len + 1) else Inr len)"
  by pat_completeness auto

termination
  by (relation "measure (\<lambda>(_, p, len). 2 ^ 64 - (unat p + 4 * len))") (auto dest: peek_wide_bound)

declare w_len.simps [simp del]

function w_len_max :: "'b machine \<Rightarrow> u64 \<Rightarrow> nat \<Rightarrow> nat \<Rightarrow> hook_error + nat" where
  "w_len_max m p n len =
     (if len < n
      then case peek_wide m p len of Inl e \<Rightarrow> Inl e
           | Inr w \<Rightarrow> if w \<noteq> 0 then w_len_max m p n (len + 1) else Inr len
      else Inr len)"
  by pat_completeness auto

termination
  by (relation "measure (\<lambda>(_, _, n, len). n - len)") auto

declare w_len_max.simps [simp del]

section \<open>What is at an address\<close>

text \<open>The bytes \<open>bs\<close> are at \<open>p\<close>; a string without its terminator is at \<open>p\<close>.\<close>

definition bytes_at :: "'b machine \<Rightarrow> u64 \<Rightarrow> bytes \<Rightarrow> bool" where
  "bytes_at m p bs \<longleftrightarrow> unat p + length bs \<le> 2 ^ 64 \<and> (\<forall>i<length bs. m_mem m (p + of_nat i) = Some (bs ! i))"

definition string_at :: "'b machine \<Rightarrow> u64 \<Rightarrow> bytes \<Rightarrow> bool" where
  "string_at m p s \<longleftrightarrow> bytes_at m p (s @ [0]) \<and> 0 \<notin> set s"

text \<open>The shadow lets the \<open>n\<close> bytes at \<open>p\<close> be accessed.\<close>

definition accessible :: "'b machine \<Rightarrow> u64 \<Rightarrow> nat \<Rightarrow> bool" where
  "accessible m p n \<longleftrightarrow> is_poison p (of_nat n) (fe_shadow (m_frontend m)) = Inr False"

text \<open>The memory after the bytes \<open>bs\<close> were written to \<open>p\<close>.\<close>

definition written :: "(u64 \<Rightarrow> u8 option) \<Rightarrow> u64 \<Rightarrow> bytes \<Rightarrow> u64 \<Rightarrow> u8 option" where
  "written mem p bs a =
     (if unat p \<le> unat a \<and> unat a < unat p + length bs then Some (bs ! (unat a - unat p)) else mem a)"

named_theorems hook_simps \<open>running a hook on memory whose contents are known\<close>

lemma asan_load_ok [hook_simps]: "asan_load p n m = Inr () \<longleftrightarrow> accessible m p n"
  by (auto simp: asan_load_def accessible_def split: sum.splits if_splits)

lemma asan_store_ok [hook_simps]: "asan_store p n m = Inr () \<longleftrightarrow> accessible m p n"
  by (auto simp: asan_store_def accessible_def split: sum.splits if_splits)

lemma accessible_load [hook_simps]: "accessible m p n \<Longrightarrow> asan_load p n m = Inr ()"
  by (simp add: asan_load_ok)

lemma accessible_store [hook_simps]: "accessible m p n \<Longrightarrow> asan_store p n m = Inr ()"
  by (simp add: asan_store_ok)

lemma panic_if_False [simp]: "panic_if False msg = Inr ()" and panic_if_True [simp]: "panic_if True msg = Inl (AsanPanic msg)"
  by (simp_all add: panic_if_def)

lemma panic_if_Inr [simp]: "panic_if b msg = Inr u \<longleftrightarrow> \<not> b"
  by (simp add: panic_if_def)

lemma peek_at: "bytes_at m p bs \<Longrightarrow> i < length bs \<Longrightarrow> peek m p i = Inr (bs ! i)"
  by (auto simp: bytes_at_def peek_def)

lemma bytes_at_take: "bytes_at m p bs \<Longrightarrow> bytes_at m p (take n bs)"
  by (auto simp: bytes_at_def)

lemma bytes_at_append_left: "bytes_at m p (bs @ cs) \<Longrightarrow> bytes_at m p bs"
  by (auto simp: bytes_at_def nth_append dest: spec [where x = "_ :: nat"])

lemma read_bytes_at:
  "bytes_at m p bs \<Longrightarrow> i + n \<le> length bs \<Longrightarrow> read_bytes m p i n = Inr (take n (drop i bs))"
proof (induction n arbitrary: i)
  case (Suc n)
  then have "read_bytes m p (Suc i) n = Inr (take n (drop (Suc i) bs))" "i < length bs" by simp_all
  with Suc.prems(1) show ?case by (simp add: peek_at Cons_nth_drop_Suc [symmetric])
qed simp

lemma slice_at_bytes: "bytes_at m p bs \<Longrightarrow> n \<le> length bs \<Longrightarrow> slice_at m p n = Inr (take n bs)"
  using read_bytes_at [of m p bs 0 n] by (simp add: slice_at_def)

lemma slice_at_all [hook_simps]: "bytes_at m p bs \<Longrightarrow> slice_at m p (length bs) = Inr bs"
  by (simp add: slice_at_bytes)

lemma c_len_from:
  assumes "bytes_at m p (s @ [0])" "0 \<notin> set s" "i \<le> length s"
  shows "c_len m p i = Inr (length s)"
  using assms(3)
proof (induction "length s - i" arbitrary: i)
  case 0
  then have i: "i = length s" by simp
  have "peek m p (length s) = Inr 0" using peek_at [OF assms(1), of "length s"] by simp
  then show ?case unfolding i by (simp add: c_len.simps [of m p "length s"])
next
  case (Suc k)
  then have i: "i < length s" by simp
  then have "peek m p i = Inr (s ! i)" using peek_at [OF assms(1), of i] by (simp add: nth_append)
  moreover have "s ! i \<noteq> 0" using assms(2) i by (metis nth_mem)
  moreover have "c_len m p (i + 1) = Inr (length s)" using Suc i by simp
  ultimately show ?case by (simp add: c_len.simps [of m p i])
qed

lemma c_len_string [hook_simps]: "string_at m p s \<Longrightarrow> c_len m p 0 = Inr (length s)"
  using c_len_from [of m p s 0] by (simp add: string_at_def)

lemma slice_at_string [hook_simps]: "string_at m p s \<Longrightarrow> slice_at m p (length s) = Inr s"
  using slice_at_bytes [of m p "s @ [0]" "length s"] by (simp add: string_at_def)

lemma slice_at_string_all [hook_simps]: "string_at m p s \<Longrightarrow> slice_at m p (Suc (length s)) = Inr (s @ [0])"
  using slice_at_bytes [of m p "s @ [0]" "Suc (length s)"] by (simp add: string_at_def)

text \<open>The scan with a limit stops at the terminator, at the limit, whichever comes first.\<close>

lemma c_len_max_from:
  assumes "bytes_at m p bs" "n \<le> length bs \<or> 0 \<in> set (drop i bs)" "i \<le> n"
  shows "c_len_max m p n i = Inr (i + length (takeWhile (\<lambda>b. b \<noteq> 0) (take (n - i) (drop i bs))))"
  using assms(2,3)
proof (induction "n - i" arbitrary: i)
  case 0
  then have i: "i = n" by simp
  show ?case unfolding i by (simp add: c_len_max.simps [of m p n n])
next
  case (Suc k)
  then have i: "i < n" by simp
  have il: "i < length bs"
  proof (rule ccontr)
    assume "\<not> i < length bs"
    then show False using Suc.prems(1) i by simp
  qed
  then have d: "drop i bs = bs ! i # drop (Suc i) bs" by (simp add: Cons_nth_drop_Suc)
  have pk: "peek m p i = Inr (bs ! i)" by (rule peek_at [OF assms(1) il])
  have ni: "n - i = Suc (n - Suc i)" using i by simp
  show ?case
  proof (cases "bs ! i = 0")
    case True
    then show ?thesis using i pk d ni by (simp add: c_len_max.simps [of m p n i])
  next
    case False
    then have "c_len_max m p n (Suc i)
        = Inr (Suc i + length (takeWhile (\<lambda>b. b \<noteq> 0) (take (n - Suc i) (drop (Suc i) bs))))"
      using Suc.hyps(1) [of "Suc i"] Suc.hyps(2) Suc.prems d i by simp
    with False i pk d ni show ?thesis by (simp add: c_len_max.simps [of m p n i])
  qed
qed

lemma takeWhile_string: "0 \<notin> set s \<Longrightarrow> takeWhile (\<lambda>b. b \<noteq> 0) (take n (s @ [0])) = take n s" for s :: bytes
proof (induction s arbitrary: n)
  case Nil
  then show ?case by (cases n) simp_all
next
  case (Cons b s)
  then show ?case by (cases n) auto
qed

lemma c_len_max_string [hook_simps]:
  assumes "string_at m p s" shows "c_len_max m p n 0 = Inr (min n (length s))"
proof -
  have b: "bytes_at m p (s @ [0])" and z: "0 \<notin> set s" using assms by (simp_all add: string_at_def)
  have "takeWhile (\<lambda>b. b \<noteq> 0) (take n (s @ [0])) = take n s" by (rule takeWhile_string [OF z])
  then show ?thesis using c_len_max_from [OF b, of n 0] by (simp add: min.commute)
qed

section \<open>Writing\<close>

lemma poke_ok: "bytes_at m p bs \<Longrightarrow> i < length bs \<Longrightarrow>
  poke p i b m = Inr (m\<lparr>m_mem := (m_mem m)(p + of_nat i \<mapsto> b)\<rparr>)"
  by (simp add: poke_def peek_at)

lemma unat_at: "unat p + i < 2 ^ 64 \<Longrightarrow> unat (p + of_nat i :: u64) = unat p + i"
proof -
  assume a: "unat p + i < 2 ^ 64"
  then have "unat (of_nat i :: u64) = i" by (intro unat_of_nat_small) simp
  with a show ?thesis by (subst unat_add_64) simp_all
qed

lemma written_Nil [simp]: "written mem p [] = mem"
  by (rule ext) (auto simp: written_def)

lemma written_snoc:
  assumes "unat p + length bs < 2 ^ 64"
  shows "(written mem p bs)(p + of_nat (length bs) \<mapsto> b) = written mem p (bs @ [b])"
proof
  fix a :: u64
  have e: "unat (p + of_nat (length bs)) = unat p + length bs" by (rule unat_at [OF assms])
  show "((written mem p bs)(p + of_nat (length bs) \<mapsto> b)) a = written mem p (bs @ [b]) a"
  proof (cases "a = p + of_nat (length bs)")
    case True
    then show ?thesis using e by (simp add: written_def)
  next
    case False
    then have "unat a \<noteq> unat p + length bs" using e by (metis unsigned_word_eqI)
    with False show ?thesis by (auto simp: written_def nth_append)
  qed
qed

lemma bytes_at_written: "unat p + length bs \<le> 2 ^ 64 \<Longrightarrow> bytes_at (m\<lparr>m_mem := written mem p bs\<rparr>) p bs"
  by (auto simp: bytes_at_def written_def unat_at)

lemma write_bytes_from:
  assumes "unat p + length old \<le> 2 ^ 64" "\<forall>i<length old. m_mem m (p + of_nat i) \<noteq> None"
    "length done + length bs \<le> length old"
  shows "write_bytes p (length done) bs (m\<lparr>m_mem := written (m_mem m) p done\<rparr>)
    = Inr (m\<lparr>m_mem := written (m_mem m) p (done @ bs)\<rparr>)"
  using assms(3)
proof (induction bs arbitrary: "done")
  case (Cons b bs)
  have lt: "unat p + length done < 2 ^ 64" using assms(1) Cons.prems by simp
  have "written (m_mem m) p done (p + of_nat (length done)) = m_mem m (p + of_nat (length done))"
    by (simp add: written_def unat_at [OF lt])
  then have "\<exists>c. written (m_mem m) p done (p + of_nat (length done)) = Some c"
    using assms(2) Cons.prems by auto
  then have "poke p (length done) b (m\<lparr>m_mem := written (m_mem m) p done\<rparr>)
      = Inr (m\<lparr>m_mem := written (m_mem m) p (done @ [b])\<rparr>)"
    using lt by (auto simp: poke_def peek_def written_snoc [OF lt])
  with Cons.IH [of "done @ [b]"] Cons.prems show ?case by simp
qed simp

lemma write_bytes_ok:
  assumes "bytes_at m p old" "length bs \<le> length old"
  shows "write_bytes p 0 bs m = Inr (m\<lparr>m_mem := written (m_mem m) p bs\<rparr>)"
  using write_bytes_from [of p old m "[]" bs] assms by (simp add: bytes_at_def)

lemma copy_bytes_ok [hook_simps]:
  assumes "bytes_at m src bs" "bytes_at m dst old" "length old = length bs"
  shows "copy_bytes src dst (length bs) m = Inr (m\<lparr>m_mem := written (m_mem m) dst bs\<rparr>)"
  using assms by (simp add: copy_bytes_def slice_at_all write_bytes_ok)

lemma fill_bytes_ok [hook_simps]:
  assumes "bytes_at m dst old" "length old = n"
  shows "fill_bytes dst b n m = Inr (m\<lparr>m_mem := written (m_mem m) dst (replicate n b)\<rparr>)"
  using assms by (simp add: fill_bytes_def write_bytes_ok)

lemma accessible_mem [simp]: "accessible (m\<lparr>m_mem := mem\<rparr>) p n = accessible m p n"
  by (simp add: accessible_def)

text \<open>What can be accessed lies in the application's memory.\<close>

lemma accessible_in_memory:
  assumes "accessible m p n" "n < 2 ^ 64" shows "in_memory (unat p) n"
proof -
  have "is_memory p (of_nat n)" using assms(1) by (auto simp: accessible_def is_poison_def split: if_splits)
  moreover have "unat (of_nat n :: u64) = n" using assms(2) by (intro unat_of_nat_small) simp
  ultimately show ?thesis by (simp add: is_memory_unat)
qed

text \<open>Writing changes only the bytes written to, and never the frontend.\<close>

definition changes_only :: "'b machine \<Rightarrow> 'b machine \<Rightarrow> nat \<Rightarrow> nat \<Rightarrow> bool" where
  "changes_only m m' p n \<longleftrightarrow> m_frontend m' = m_frontend m \<and>
     (\<forall>a. \<not> (p \<le> unat a \<and> unat a < p + n) \<longrightarrow> m_mem m' a = m_mem m a)"

lemma changes_only_mono: "changes_only m m' p n \<Longrightarrow> q \<le> p \<Longrightarrow> p + n \<le> q + k \<Longrightarrow> changes_only m m' q k"
  by (auto simp: changes_only_def)

lemma changes_only_trans: "changes_only m m' p n \<Longrightarrow> changes_only m' m'' p n \<Longrightarrow> changes_only m m'' p n"
  by (auto simp: changes_only_def)

lemma poke_changes:
  assumes "poke p i b m = Inr m'" shows "changes_only m m' (unat p + i) 1"
proof -
  from assms obtain c where c: "peek m p i = Inr c" "m' = m\<lparr>m_mem := (m_mem m)(p + of_nat i \<mapsto> b)\<rparr>"
    by (auto simp: poke_def rbind_Inr_iff)
  then have "unat (p + of_nat i) = unat p + i" by (intro unat_at peek_bound)
  with c(2) show ?thesis by (auto simp: changes_only_def)
qed

lemma write_bytes_changes: "write_bytes p i bs m = Inr m' \<Longrightarrow> changes_only m m' (unat p + i) (length bs)"
proof (induction bs arbitrary: i m)
  case (Cons b bs)
  then obtain m1 where m1: "poke p i b m = Inr m1" "write_bytes p (Suc i) bs m1 = Inr m'"
    by (auto simp: rbind_Inr_iff)
  from poke_changes [OF m1(1)] Cons.IH [OF m1(2)] show ?case
    by (auto simp: changes_only_def)
qed (simp add: changes_only_def)

lemma read_bytes_length: "read_bytes m p i n = Inr bs \<Longrightarrow> length bs = n"
  by (induction n arbitrary: i bs) (auto simp: rbind_Inr_iff)

lemma copy_bytes_changes: "copy_bytes src dst n m = Inr m' \<Longrightarrow> changes_only m m' (unat dst) n"
  by (auto simp: copy_bytes_def slice_at_def rbind_Inr_iff dest!: write_bytes_changes dest: read_bytes_length)

lemma fill_bytes_changes: "fill_bytes dst b n m = Inr m' \<Longrightarrow> changes_only m m' (unat dst) n"
  by (auto simp: fill_bytes_def dest!: write_bytes_changes)

text \<open>A machine whose memory counts its addresses, with nothing poisoned, for the witnesses.\<close>

definition plain_machine :: "u64 machine" where
  "plain_machine = \<lparr>m_mem = (\<lambda>a. Some (ucast a)), m_frontend = bump_start\<rparr>"

lemma plain_accessible: "in_memory (unat p) n \<Longrightarrow> accessible (plain_machine\<lparr>m_mem := mem\<rparr>) p n"
proof -
  assume m: "in_memory (unat p) n"
  then have n: "unat (of_nat n :: u64) = n" by (intro unat_of_nat_small) (auto simp: in_memory_def)
  show ?thesis
    using guest_shadow.is_poison [of fresh_shadow p "of_nat n"] m
    by (simp add: accessible_def plain_machine_def bump_start_def guest_shadow_ops_def n)
qed

lemma plain_accessible_self: "in_memory (unat p) n \<Longrightarrow> accessible plain_machine p n"
  using plain_accessible [of p n] by simp

lemma plain_bytes: "unat p + length bs \<le> 2 ^ 64 \<Longrightarrow> \<forall>i<length bs. bs ! i = ucast (p + of_nat i) \<Longrightarrow>
  bytes_at plain_machine p bs"
  by (auto simp: bytes_at_def plain_machine_def)

end
