(* ===== verification/AsanMemHooks.thy ===== *)
theory AsanMemHooks
  imports AsanRuntime
begin

text \<open>
  The hooks for the memory functions of the C library, one file each under
  \<^verbatim>\<open>libaflmm_asan/src/hooks/\<close>: copies, fills, searches and comparisons of \<open>n\<close> bytes. Sizes are
  64-bit words and pointers are addresses, 0 being null. A comparison returns its sign as an integer.
\<close>

section \<open>Loops over slices\<close>

text \<open>\<open>iter().position\<close>; the search for a slice in another; the comparison element by element.\<close>

fun position :: "('a \<Rightarrow> bool) \<Rightarrow> 'a list \<Rightarrow> nat option" where
  "position P [] = None"
| "position P (x # xs) = (if P x then Some 0 else map_option Suc (position P xs))"

fun find_slice :: "'a list \<Rightarrow> 'a list \<Rightarrow> nat \<Rightarrow> nat \<Rightarrow> nat option" where
  "find_slice haystack needle i 0 = None"
| "find_slice haystack needle i (Suc k) =
     (if take (length needle) (drop i haystack) = needle then Some i
      else find_slice haystack needle (Suc i) k)"

fun cmp_slices :: "('a \<Rightarrow> 'a \<Rightarrow> bool) \<Rightarrow> 'a list \<Rightarrow> 'a list \<Rightarrow> int" where
  "cmp_slices lt [] [] = 0"
| "cmp_slices lt [] (y # ys) = -1"
| "cmp_slices lt (x # xs) [] = 1"
| "cmp_slices lt (x # xs) (y # ys) =
     (if lt x y then -1 else if lt y x then 1 else cmp_slices lt xs ys)"

section \<open>The hooks\<close>

definition memcpy :: "u64 \<Rightarrow> u64 \<Rightarrow> u64 \<Rightarrow> 'b machine \<Rightarrow> hook_error + u64 \<times> 'b machine" where
  "memcpy dest src n m =
     (if n = 0 then Inr (dest, m)
      else rbind (panic_if (dest = 0) ''memcpy - dest is null'') (\<lambda>_.
           rbind (panic_if (src = 0) ''memcpy - src is null'') (\<lambda>_.
           let src_end = src + n; dest_end = dest + n
           in rbind (panic_if (dest < src_end \<and> src < dest_end) ''memcpy - overlap'') (\<lambda>_.
              rbind (asan_load src (unat n) m) (\<lambda>_.
              rbind (asan_store dest (unat n) m) (\<lambda>_.
              rbind (copy_bytes src dest (unat n) m) (\<lambda>m. Inr (dest, m))))))))"

definition mempcpy :: "u64 \<Rightarrow> u64 \<Rightarrow> u64 \<Rightarrow> 'b machine \<Rightarrow> hook_error + u64 \<times> 'b machine" where
  "mempcpy dest src n m =
     (if n = 0 then Inr (dest, m)
      else rbind (panic_if (dest = 0) ''mempcpy - dest is null'') (\<lambda>_.
           rbind (panic_if (src = 0) ''mempcpy - src is null'') (\<lambda>_.
           let src_end = src + n; dest_end = dest + n
           in rbind (panic_if (dest < src_end \<and> src < dest_end) ''memcpy - overlap'') (\<lambda>_.
              rbind (asan_load src (unat n) m) (\<lambda>_.
              rbind (asan_store dest (unat n) m) (\<lambda>_.
              rbind (copy_bytes src dest (unat n) m) (\<lambda>m. Inr (dest + n, m))))))))"

definition memmove :: "u64 \<Rightarrow> u64 \<Rightarrow> u64 \<Rightarrow> 'b machine \<Rightarrow> hook_error + u64 \<times> 'b machine" where
  "memmove dest src n m =
     (if n = 0 then Inr (dest, m)
      else rbind (panic_if (dest = 0) ''memmove - dest is null'') (\<lambda>_.
           rbind (panic_if (src = 0) ''memmove - src is null'') (\<lambda>_.
           rbind (asan_load src (unat n) m) (\<lambda>_.
           rbind (asan_store dest (unat n) m) (\<lambda>_.
           rbind (copy_bytes src dest (unat n) m) (\<lambda>m. Inr (dest, m)))))))"

definition memset :: "u64 \<Rightarrow> u32 \<Rightarrow> u64 \<Rightarrow> 'b machine \<Rightarrow> hook_error + u64 \<times> 'b machine" where
  "memset dest c n m =
     (if n = 0 then Inr (dest, m)
      else rbind (panic_if (dest = 0) ''memset - dest is null'') (\<lambda>_.
           rbind (asan_store dest (unat n) m) (\<lambda>_.
           rbind (fill_bytes dest (ucast c) (unat n) m) (\<lambda>m. Inr (dest, m)))))"

definition bzero :: "u64 \<Rightarrow> u64 \<Rightarrow> 'b machine \<Rightarrow> hook_error + 'b machine" where
  "bzero s len m =
     (if len = 0 then Inr m
      else rbind (panic_if (s = 0) ''bzero - s is null'') (\<lambda>_.
           rbind (asan_store s (unat len) m) (\<lambda>_. fill_bytes s 0 (unat len) m)))"

definition explicit_bzero :: "u64 \<Rightarrow> u64 \<Rightarrow> 'b machine \<Rightarrow> hook_error + 'b machine" where
  "explicit_bzero s len m =
     (if len = 0 then Inr m
      else rbind (panic_if (s = 0) ''explicit_bzero - s is null'') (\<lambda>_.
           rbind (asan_store s (unat len) m) (\<lambda>_. fill_bytes s 0 (unat len) m)))"

definition memchr :: "u64 \<Rightarrow> u32 \<Rightarrow> u64 \<Rightarrow> 'b machine \<Rightarrow> hook_error + u64" where
  "memchr cx c n m =
     (if n = 0 then Inr 0
      else rbind (panic_if (cx = 0 \<and> n \<noteq> 0) ''memchr - cx is null'') (\<lambda>_.
           rbind (asan_load cx (unat n) m) (\<lambda>_.
           rbind (slice_at m cx (unat n)) (\<lambda>bs.
           case position (\<lambda>x. ucast x = c) bs of
             Some pos \<Rightarrow> Inr (cx + of_nat pos)
           | None \<Rightarrow> Inr 0))))"

definition memrchr :: "u64 \<Rightarrow> u32 \<Rightarrow> u64 \<Rightarrow> 'b machine \<Rightarrow> hook_error + u64" where
  "memrchr cx c n m =
     (if n = 0 then Inr 0
      else rbind (panic_if (cx = 0) ''memrchr - cx is null'') (\<lambda>_.
           rbind (asan_load cx (unat n) m) (\<lambda>_.
           rbind (slice_at m cx (unat n)) (\<lambda>bs.
           case position (\<lambda>x. ucast x = c) (rev bs) of
             Some pos \<Rightarrow> Inr (cx + (n - of_nat pos - 1))
           | None \<Rightarrow> Inr 0))))"

function scan_for :: "'b machine \<Rightarrow> u64 \<Rightarrow> u8 \<Rightarrow> nat \<Rightarrow> hook_error + nat" where
  "scan_for m s c len =
     (case peek m s len of Inl e \<Rightarrow> Inl e | Inr b \<Rightarrow> if b \<noteq> c then scan_for m s c (len + 1) else Inr len)"
  by pat_completeness auto

termination
  by (relation "measure (\<lambda>(_, s, _, len). 2 ^ 64 - (unat s + len))") (auto simp: peek_def split: if_splits)

declare scan_for.simps [simp del]

definition rawmemchr :: "u64 \<Rightarrow> u32 \<Rightarrow> 'b machine \<Rightarrow> hook_error + u64" where
  "rawmemchr s c m =
     rbind (panic_if (s = 0) ''rawmemchr - s is null'') (\<lambda>_.
     rbind (scan_for m s (ucast c) 0) (\<lambda>len.
     rbind (asan_load s len m) (\<lambda>_. Inr (s + of_nat len))))"

definition memcmp :: "u64 \<Rightarrow> u64 \<Rightarrow> u64 \<Rightarrow> 'b machine \<Rightarrow> hook_error + int" where
  "memcmp cx ct n m =
     (if n = 0 then Inr 0
      else rbind (panic_if (cx = 0) ''memcmp - cx is null'') (\<lambda>_.
           rbind (panic_if (ct = 0) ''memcmp - ct is null'') (\<lambda>_.
           rbind (asan_load cx (unat n) m) (\<lambda>_.
           rbind (asan_load ct (unat n) m) (\<lambda>_.
           rbind (slice_at m cx (unat n)) (\<lambda>slice1.
           rbind (slice_at m ct (unat n)) (\<lambda>slice2.
           Inr (cmp_slices (<) slice1 slice2))))))))"

definition bcmp :: "u64 \<Rightarrow> u64 \<Rightarrow> u64 \<Rightarrow> 'b machine \<Rightarrow> hook_error + int" where
  "bcmp cx ct n m =
     (if n = 0 then Inr 0
      else rbind (panic_if (cx = 0) ''bcmp - cx is null'') (\<lambda>_.
           rbind (panic_if (ct = 0) ''bcmp - ct is null'') (\<lambda>_.
           rbind (asan_load cx (unat n) m) (\<lambda>_.
           rbind (asan_load ct (unat n) m) (\<lambda>_.
           rbind (slice_at m cx (unat n)) (\<lambda>slice1.
           rbind (slice_at m ct (unat n)) (\<lambda>slice2.
           Inr (cmp_slices (<) slice1 slice2))))))))"

definition memmem :: "u64 \<Rightarrow> u64 \<Rightarrow> u64 \<Rightarrow> u64 \<Rightarrow> 'b machine \<Rightarrow> hook_error + u64" where
  "memmem haystack haystacklen needle needlelen m =
     (if needlelen = 0 then Inr haystack
      else if haystacklen < needlelen then Inr 0
      else rbind (panic_if (haystack = 0) ''memmem - haystack is null'') (\<lambda>_.
           rbind (panic_if (needle = 0) ''memmem - needle is null'') (\<lambda>_.
           rbind (asan_load haystack (unat haystacklen) m) (\<lambda>_.
           rbind (asan_load needle (unat needlelen) m) (\<lambda>_.
           rbind (slice_at m haystack (unat haystacklen)) (\<lambda>hs.
           rbind (slice_at m needle (unat needlelen)) (\<lambda>nd.
           case find_slice hs nd 0 (unat (haystacklen - needlelen + 1)) of
             Some i \<Rightarrow> Inr (haystack + of_nat i)
           | None \<Rightarrow> Inr 0)))))))"

section \<open>The loops against their specifications\<close>

definition occurs_at :: "'a list \<Rightarrow> 'a list \<Rightarrow> nat \<Rightarrow> bool" where
  "occurs_at needle hs i \<longleftrightarrow> (\<exists>u v. hs = u @ needle @ v \<and> length u = i)"

lemma occurs_at_take:
  "occurs_at needle hs i \<longleftrightarrow> take (length needle) (drop i hs) = needle \<and> i + length needle \<le> length hs"
proof
  assume r: "take (length needle) (drop i hs) = needle \<and> i + length needle \<le> length hs"
  then have "hs = take i hs @ needle @ drop (length needle) (drop i hs)"
    by (metis append_take_drop_id)
  moreover have "length (take i hs) = i" using r by simp
  ultimately show "occurs_at needle hs i" unfolding occurs_at_def by blast
qed (auto simp: occurs_at_def)

lemma find_slice_spec:
  "case find_slice hs needle i k of
      Some j \<Rightarrow> i \<le> j \<and> j < i + k \<and> take (length needle) (drop j hs) = needle \<and>
        (\<forall>l. i \<le> l \<longrightarrow> l < j \<longrightarrow> take (length needle) (drop l hs) \<noteq> needle)
    | None \<Rightarrow> \<forall>l. i \<le> l \<longrightarrow> l < i + k \<longrightarrow> take (length needle) (drop l hs) \<noteq> needle"
proof (induction k arbitrary: i)
  case (Suc k)
  show ?case
  proof (cases "take (length needle) (drop i hs) = needle")
    case False
    have "i \<le> l \<Longrightarrow> l \<noteq> i \<Longrightarrow> Suc i \<le> l" for l by simp
    with False Suc [of "Suc i"] show ?thesis
      by (auto split: option.splits simp: le_less_Suc_eq) (metis Suc_leI le_neq_implies_less)+
  qed simp
qed simp

text \<open>The search over all places finds the first occurrence.\<close>

lemma find_slice_first:
  assumes "length needle \<le> length hs"
  shows "find_slice hs needle 0 (length hs - length needle + 1) =
    (if \<exists>i. occurs_at needle hs i then Some (LEAST i. occurs_at needle hs i) else None)"
proof (cases "find_slice hs needle 0 (length hs - length needle + 1)")
  case None
  have "\<not> occurs_at needle hs i" for i
    using find_slice_spec [where hs = hs and needle = needle and i = 0 and k = "length hs - length needle + 1"] None assms
    by (auto simp: occurs_at_take)
  with None show ?thesis by simp
next
  case (Some j)
  with find_slice_spec [where hs = hs and needle = needle and i = 0 and k = "length hs - length needle + 1"]
  have j: "j < length hs - length needle + 1" "take (length needle) (drop j hs) = needle"
    "\<forall>l<j. take (length needle) (drop l hs) \<noteq> needle" by auto
  have "occurs_at needle hs j" using j assms by (simp add: occurs_at_take)
  moreover have "(LEAST i. occurs_at needle hs i) = j"
  proof (rule Least_equality)
    fix y assume "occurs_at needle hs y"
    with j(3) show "j \<le> y" by (metis occurs_at_take not_le)
  qed fact
  ultimately show ?thesis using Some by auto
qed

lemma position_spec:
  "position P xs = (if \<exists>x\<in>set xs. P x then Some (LEAST i. i < length xs \<and> P (xs ! i)) else None)"
proof (induction xs)
  case (Cons x xs)
  show ?case
  proof (cases "P x")
    case True
    have "(LEAST i. i < length (x # xs) \<and> P ((x # xs) ! i)) = 0"
      by (rule Least_equality) (use True in simp_all)
    with True show ?thesis by simp
  next
    case False
    show ?thesis
    proof (cases "\<exists>y\<in>set xs. P y")
      case True
      then obtain i where i: "i < length xs" "P (xs ! i)" by (metis in_set_conv_nth)
      have "(LEAST i. i < length (x # xs) \<and> P ((x # xs) ! i))
          = Suc (LEAST i. Suc i < length (x # xs) \<and> P ((x # xs) ! Suc i))"
        by (rule Least_Suc [of _ "Suc i"]) (use i False in simp_all)
      with True False Cons.IH show ?thesis by simp
    next
      case no: False
      with False Cons.IH show ?thesis by simp
    qed
  qed
qed simp

lemma cmp_slices_lex:
  "cmp_slices (<) xs ys = (if xs = ys then 0 else if ord_class.lexordp xs ys then -1 else 1)"
  for xs ys :: "'a::linorder list"
  by (induction "(<) :: 'a \<Rightarrow> 'a \<Rightarrow> bool" xs ys rule: cmp_slices.induct) auto

lemma cmp_slices_map: "cmp_slices (\<lambda>x y. f x < f y) xs ys = cmp_slices (<) (map f xs) (map f ys)"
  by (induction "\<lambda>x y. f x < f y" xs ys rule: cmp_slices.induct) simp_all

section \<open>Properties\<close>

lemma no_overlap:
  assumes "accessible m src (unat n)" "accessible m dest (unat n)"
  shows "dest < src + n \<and> src < dest + n \<longleftrightarrow> unat dest < unat src + unat n \<and> unat src < unat dest + unat n"
proof -
  have "in_memory (unat src) (unat n)" "in_memory (unat dest) (unat n)"
    using assms unat_lt_64 [of n] by (auto intro!: accessible_in_memory simp: unat_lt_64)
  then have "unat (src + n) = unat src + unat n" "unat (dest + n) = unat dest + unat n"
    by (simp_all add: unat_end)
  then show ?thesis by (simp add: word_less_nat_alt)
qed

text \<open>
  The copies: when the source and the destination are mapped and the shadow lets both be
  accessed, \<open>memmove\<close> leaves the source's bytes at the destination whether or not the two overlap,
  and changes nothing else; \<open>memcpy\<close> and \<open>mempcpy\<close> do the same when they do not overlap and
  otherwise report the overlap.
\<close>

theorem memory_copies:
  assumes "unat n = length bs" "n \<noteq> 0" "dest \<noteq> 0" "src \<noteq> 0"
    and "bytes_at m src bs" "bytes_at m dest old" "length old = length bs"
    and "accessible m src (length bs)" "accessible m dest (length bs)"
  shows "memmove dest src n m = Inr (dest, m\<lparr>m_mem := written (m_mem m) dest bs\<rparr>) \<and>
    memcpy dest src n m = (if unat dest < unat src + unat n \<and> unat src < unat dest + unat n
      then Inl (AsanPanic ''memcpy - overlap'') else Inr (dest, m\<lparr>m_mem := written (m_mem m) dest bs\<rparr>)) \<and>
    mempcpy dest src n m = (if unat dest < unat src + unat n \<and> unat src < unat dest + unat n
      then Inl (AsanPanic ''memcpy - overlap'') else Inr (dest + n, m\<lparr>m_mem := written (m_mem m) dest bs\<rparr>))"
proof -
  have c: "copy_bytes src dest (unat n) m = Inr (m\<lparr>m_mem := written (m_mem m) dest bs\<rparr>)"
    using copy_bytes_ok [OF assms(5,6,7)] assms(1) by simp
  have a: "asan_load src (unat n) m = Inr ()" "asan_store dest (unat n) m = Inr ()"
    using assms(1,8,9) by (simp_all add: asan_load_ok asan_store_ok)
  have "dest < src + n \<and> src < dest + n \<longleftrightarrow> unat dest < unat src + unat n \<and> unat src < unat dest + unat n"
    using assms(1,8,9) by (intro no_overlap [of m]) simp_all
  with assms(2-4) c a show ?thesis
    by (simp add: memmove_def memcpy_def mempcpy_def Let_def panic_if_def)
qed

theorem memory_copies_witness:
  "\<exists>m. memmove 0x20001 0x20000 2 plain_machine = Inr (0x20001, m) \<and>
    memcpy 0x20001 0x20000 2 plain_machine = Inl (AsanPanic ''memcpy - overlap'') \<and>
    m_mem m 0x20001 = Some 0 \<and> m_mem m 0x20002 = Some 1"
proof -
  have s: "bytes_at plain_machine 0x20000 [0, 1]" "bytes_at plain_machine 0x20001 [1, 2]"
    by (rule plain_bytes; simp add: less_Suc_eq all_conj_distrib imp_disjL)+
  have a: "accessible plain_machine 0x20000 2" "accessible plain_machine 0x20001 2"
    by (rule plain_accessible_self; simp add: in_memory_def)+
  have n: "unat (2 :: u64) = length [0 :: u8, 1]" "(2 :: u64) \<noteq> 0" "(0x20001 :: u64) \<noteq> 0" "(0x20000 :: u64) \<noteq> 0"
    by simp_all
  from memory_copies [OF n s] a show ?thesis by (simp add: written_def flip: numeral_2_eq_2)
qed

text \<open>
  \<open>memmem\<close> finds the first occurrence: on mapped buffers that may be read it returns the address
  of the first place where the needle occurs in the haystack, and null when it does not occur.
\<close>

theorem memmem_finds_first:
  assumes "bytes_at m haystack hs" "bytes_at m needle nd" "unat hl = length hs" "unat nl = length nd"
    and "haystack \<noteq> 0" "needle \<noteq> 0" "accessible m haystack (length hs)" "accessible m needle (length nd)"
  shows "memmem haystack hl needle nl m =
    Inr (if \<exists>i. occurs_at nd hs i then haystack + of_nat (LEAST i. occurs_at nd hs i) else 0)"
proof (cases "nd = []")
  case True
  then have "nl = 0" using assms(4) by (simp add: unat_eq_0)
  moreover have occ: "occurs_at nd hs 0" using True by (simp add: occurs_at_def)
  then have "(LEAST i. occurs_at nd hs i) = 0" by (intro Least_equality) simp_all
  ultimately show ?thesis using occ by (auto simp: memmem_def)
next
  case False
  then have nl: "nl \<noteq> 0" using assms(4) by auto
  show ?thesis
  proof (cases "length nd \<le> length hs")
    case True
    then have le: "\<not> hl < nl" using assms(3,4) by (simp add: word_less_nat_alt)
    then have "unat (hl - nl) = length hs - length nd" using assms(3,4) by (simp add: unat_sub)
    moreover have "unat (hl - nl) < unat hl" using False assms(3,4) True calculation by (cases nd) auto
    then have "unat (hl - nl) + 1 < 2 ^ 64" using unat_lt_64 [of hl] by simp
    then have "unat (hl - nl + 1) = unat (hl - nl) + 1" by (subst unat_add_64) simp_all
    ultimately have k: "unat (hl - nl + 1) = length hs - length nd + 1" by simp
    have s: "slice_at m haystack (unat hl) = Inr hs" "slice_at m needle (unat nl) = Inr nd"
      using assms(1-4) by (simp_all add: slice_at_all)
    have a: "asan_load haystack (unat hl) m = Inr ()" "asan_load needle (unat nl) m = Inr ()"
      using assms(3,4,7,8) by (simp_all add: asan_load_ok)
    have f: "find_slice hs nd 0 (unat (hl - nl + 1)) =
        (if Ex (occurs_at nd hs) then Some (LEAST i. occurs_at nd hs i) else None)"
      unfolding k by (rule find_slice_first [OF True])
    show ?thesis
      using nl le assms(5,6) s a by (auto simp: memmem_def f)
  next
    case no: False
    then have "hl < nl" using assms(3,4) by (simp add: word_less_nat_alt)
    moreover have "\<not> occurs_at nd hs i" for i using no by (simp add: occurs_at_take)
    ultimately show ?thesis using nl by (simp add: memmem_def)
  qed
qed

theorem memmem_finds_first_witness:
  "memmem 0x20000 2 0x20101 1 plain_machine = Inr 0x20001"
proof -
  have s: "bytes_at plain_machine 0x20000 [0, 1]" "bytes_at plain_machine 0x20101 [1]"
    by (rule plain_bytes; simp add: less_Suc_eq all_conj_distrib imp_disjL)+
  have a: "accessible plain_machine 0x20000 (length [0 :: u8, 1])" "accessible plain_machine 0x20101 (length [1 :: u8])"
    by (rule plain_accessible_self; simp add: in_memory_def)+
  have l: "unat (2 :: u64) = length [0 :: u8, 1]" "unat (1 :: u64) = length [1 :: u8]"
    "(0x20000 :: u64) \<noteq> 0" "(0x20101 :: u64) \<noteq> 0" by simp_all
  have occ: "occurs_at [1] [0, 1 :: u8] i \<longleftrightarrow> i = 1" for i
    by (auto simp: occurs_at_take Cons_eq_append_conv take_Cons' drop_Cons' split: if_splits)
  then have "(LEAST i. occurs_at [1] [0, 1 :: u8] i) = 1" "\<exists>i. occurs_at [1] [0, 1 :: u8] i"
    by (auto intro: Least_equality)
  with memmem_finds_first [OF s l a] show ?thesis by simp
qed

text \<open>
  \<open>memcmp\<close> and \<open>bcmp\<close> give the sign of the lexicographic comparison of the two buffers as
  sequences of unsigned bytes.
\<close>

theorem memcmp_is_lexicographic:
  assumes "bytes_at m cx xs" "bytes_at m ct ys" "unat n = length xs" "length ys = length xs"
    and "cx \<noteq> 0" "ct \<noteq> 0" "accessible m cx (length xs)" "accessible m ct (length ys)"
  shows "memcmp cx ct n m = Inr (if xs = ys then 0 else if ord_class.lexordp xs ys then -1 else 1) \<and>
    bcmp cx ct n m = memcmp cx ct n m"
proof (cases "n = 0")
  case True
  then have "xs = []" "ys = []" using assms(3,4) by simp_all
  with True show ?thesis by (simp add: memcmp_def bcmp_def)
next
  case False
  have s: "slice_at m cx (unat n) = Inr xs" "slice_at m ct (unat n) = Inr ys"
    using assms(1-4) slice_at_all [of m cx xs] slice_at_all [of m ct ys] by simp_all
  have a: "asan_load cx (unat n) m = Inr ()" "asan_load ct (unat n) m = Inr ()"
    using assms(3,4,7,8) by (simp_all add: asan_load_ok)
  show ?thesis using False assms(5,6) s a by (simp add: memcmp_def bcmp_def cmp_slices_lex)
qed

theorem memcmp_is_lexicographic_witness: "memcmp 0x20000 0x20001 2 plain_machine = Inr (-1)"
proof -
  have s: "bytes_at plain_machine 0x20000 [0, 1]" "bytes_at plain_machine 0x20001 [1, 2]"
    by (rule plain_bytes; simp add: less_Suc_eq all_conj_distrib imp_disjL)+
  have a: "accessible plain_machine 0x20000 (length [0 :: u8, 1])" "accessible plain_machine 0x20001 (length [1 :: u8, 2])"
    by (rule plain_accessible_self; simp add: in_memory_def)+
  have l: "unat (2 :: u64) = length [0 :: u8, 1]" "length [1 :: u8, 2] = length [0 :: u8, 1]"
    "(0x20000 :: u64) \<noteq> 0" "(0x20001 :: u64) \<noteq> 0" by simp_all
  from memcmp_is_lexicographic [OF s l a] show ?thesis by simp
qed

end
