(* ===== verification/AsanStrHooks.thy ===== *)
theory AsanStrHooks
  imports AsanMemHooks
begin

text \<open>
  The hooks for the string functions of the C library, one file each under
  \<^verbatim>\<open>libaflmm_asan/src/hooks/\<close>. A \<open>c_char\<close> is a signed byte, as on
  x86: it is sign-extended where the code casts it to \<open>c_int\<close> and compared with its sign where
  the code does not cast it to \<open>u8\<close>.
\<close>

section \<open>Lengths and searches\<close>

definition strlen :: "u64 \<Rightarrow> 'b machine \<Rightarrow> hook_error + nat" where
  "strlen cs m =
     rbind (panic_if (cs = 0) ''strlen - cs is null'') (\<lambda>_.
     rbind (c_len m cs 0) (\<lambda>len.
     rbind (asan_load cs (len + 1) m) (\<lambda>_. Inr len)))"

definition strnlen :: "u64 \<Rightarrow> u64 \<Rightarrow> 'b machine \<Rightarrow> hook_error + nat" where
  "strnlen cs maxlen m =
     (if maxlen = 0 then Inr 0
      else rbind (panic_if (cs = 0) ''strnlen - cs is null'') (\<lambda>_.
           rbind (c_len m cs 0) (\<lambda>len.
           if len < unat maxlen then rbind (asan_load cs (len + 1) m) (\<lambda>_. Inr len)
           else rbind (asan_load cs (unat maxlen) m) (\<lambda>_. Inr (unat maxlen)))))"

definition strchr :: "u64 \<Rightarrow> u32 \<Rightarrow> 'b machine \<Rightarrow> hook_error + u64" where
  "strchr cs c m =
     rbind (panic_if (cs = 0) ''strchr - cs is null'') (\<lambda>_.
     rbind (c_len m cs 0) (\<lambda>len.
     rbind (asan_load cs (len + 1) m) (\<lambda>_.
     rbind (slice_at m cs len) (\<lambda>cs_slice.
     case position (\<lambda>x. scast x = c) cs_slice of
       Some pos \<Rightarrow> Inr (cs + of_nat pos)
     | None \<Rightarrow> Inr 0))))"

definition strchrnul :: "u64 \<Rightarrow> u32 \<Rightarrow> 'b machine \<Rightarrow> hook_error + u64" where
  "strchrnul cs c m =
     rbind (panic_if (cs = 0) ''strchrnul - cs is null'') (\<lambda>_.
     rbind (c_len m cs 0) (\<lambda>len.
     rbind (asan_load cs (len + 1) m) (\<lambda>_.
     rbind (slice_at m cs len) (\<lambda>cs_slice.
     case position (\<lambda>x. scast x = c) cs_slice of
       Some pos \<Rightarrow> Inr (cs + of_nat pos)
     | None \<Rightarrow> Inr (cs + of_nat len)))))"

definition strrchr :: "u64 \<Rightarrow> u32 \<Rightarrow> 'b machine \<Rightarrow> hook_error + u64" where
  "strrchr cs c m =
     rbind (panic_if (cs = 0) ''strrchr - cs is null'') (\<lambda>_.
     rbind (c_len m cs 0) (\<lambda>len.
     rbind (asan_load cs (len + 1) m) (\<lambda>_.
     rbind (slice_at m cs len) (\<lambda>cs_slice.
     case position (\<lambda>x. scast x = c) (rev cs_slice) of
       Some pos \<Rightarrow> Inr (cs + of_nat (len - pos - 1))
     | None \<Rightarrow> Inr 0))))"

definition strstr :: "u64 \<Rightarrow> u64 \<Rightarrow> 'b machine \<Rightarrow> hook_error + u64" where
  "strstr cs ct m =
     rbind (panic_if (cs = 0) ''strstr - cs is null'') (\<lambda>_.
     rbind (panic_if (ct = 0) ''strstr - ct is null'') (\<lambda>_.
     rbind (c_len m cs 0) (\<lambda>cs_len.
     rbind (c_len m ct 0) (\<lambda>ct_len.
     rbind (asan_load cs (cs_len + 1) m) (\<lambda>_.
     rbind (asan_load ct (ct_len + 1) m) (\<lambda>_.
     if ct_len = 0 then Inr cs
     else if cs_len < ct_len then Inr 0
     else rbind (slice_at m cs cs_len) (\<lambda>cs_slice.
          rbind (slice_at m ct ct_len) (\<lambda>ct_slice.
          case find_slice cs_slice ct_slice 0 (cs_len - ct_len + 1) of
            Some i \<Rightarrow> Inr (cs + of_nat i)
          | None \<Rightarrow> Inr 0))))))))"

definition to_upper :: "u8 \<Rightarrow> u8" where
  "to_upper c = (if 0x61 \<le>s c \<and> c \<le>s 0x7a then c - 0x61 + 0x41 else c)"

definition strcasestr :: "u64 \<Rightarrow> u64 \<Rightarrow> 'b machine \<Rightarrow> hook_error + u64" where
  "strcasestr cs ct m =
     rbind (panic_if (cs = 0) ''strcasestr - cs is null'') (\<lambda>_.
     rbind (panic_if (ct = 0) ''strcasestr - ct is null'') (\<lambda>_.
     rbind (c_len m cs 0) (\<lambda>cs_len.
     rbind (c_len m ct 0) (\<lambda>ct_len.
     rbind (asan_load cs (cs_len + 1) m) (\<lambda>_.
     rbind (asan_load ct (ct_len + 1) m) (\<lambda>_.
     if ct_len = 0 then Inr cs
     else if cs_len < ct_len then Inr 0
     else rbind (slice_at m cs cs_len) (\<lambda>cs_slice.
          rbind (slice_at m ct ct_len) (\<lambda>ct_slice.
          case find_slice (map to_upper cs_slice) (map to_upper ct_slice) 0 (cs_len - ct_len + 1) of
            Some i \<Rightarrow> Inr (cs + of_nat i)
          | None \<Rightarrow> Inr 0))))))))"

section \<open>Comparisons\<close>

definition strcmp :: "u64 \<Rightarrow> u64 \<Rightarrow> 'b machine \<Rightarrow> hook_error + int" where
  "strcmp cs ct m =
     rbind (panic_if (cs = 0) ''strcmp - cs is null'') (\<lambda>_.
     rbind (panic_if (ct = 0) ''strcmp - ct is null'') (\<lambda>_.
     rbind (c_len m cs 0) (\<lambda>cs_len.
     rbind (c_len m ct 0) (\<lambda>ct_len.
     rbind (asan_load cs (cs_len + 1) m) (\<lambda>_.
     rbind (asan_load ct (ct_len + 1) m) (\<lambda>_.
     rbind (slice_at m cs cs_len) (\<lambda>slice1.
     rbind (slice_at m ct ct_len) (\<lambda>slice2.
     Inr (cmp_slices (<) slice1 slice2)))))))))"

definition strncmp :: "u64 \<Rightarrow> u64 \<Rightarrow> u64 \<Rightarrow> 'b machine \<Rightarrow> hook_error + int" where
  "strncmp cs ct n m =
     (if n = 0 then Inr 0
      else rbind (panic_if (cs = 0) ''strncmp - cs is null'') (\<lambda>_.
           rbind (panic_if (ct = 0) ''strncmp - ct is null'') (\<lambda>_.
           rbind (c_len_max m cs (unat n) 0) (\<lambda>cs_len.
           rbind (c_len_max m ct (unat n) 0) (\<lambda>ct_len.
           rbind (asan_load cs (cs_len + 1) m) (\<lambda>_.
           rbind (asan_load ct (ct_len + 1) m) (\<lambda>_.
           rbind (slice_at m cs cs_len) (\<lambda>slice1.
           rbind (slice_at m ct ct_len) (\<lambda>slice2.
           Inr (cmp_slices (<) slice1 slice2))))))))))"

definition strcasecmp :: "u64 \<Rightarrow> u64 \<Rightarrow> 'b machine \<Rightarrow> hook_error + int" where
  "strcasecmp s1 s2 m =
     rbind (panic_if (s1 = 0) ''strcasecmp - s1 is null'') (\<lambda>_.
     rbind (panic_if (s2 = 0) ''strcasecmp - s2 is null'') (\<lambda>_.
     rbind (c_len m s1 0) (\<lambda>s1_len.
     rbind (c_len m s2 0) (\<lambda>s2_len.
     rbind (asan_load s1 (s1_len + 1) m) (\<lambda>_.
     rbind (asan_load s2 (s2_len + 1) m) (\<lambda>_.
     rbind (slice_at m s1 s1_len) (\<lambda>s1_slice.
     rbind (slice_at m s2 s2_len) (\<lambda>s2_slice.
     Inr (cmp_slices (\<lambda>x y. x <s y) (map to_upper s1_slice) (map to_upper s2_slice))))))))))"

definition strncasecmp :: "u64 \<Rightarrow> u64 \<Rightarrow> u64 \<Rightarrow> 'b machine \<Rightarrow> hook_error + int" where
  "strncasecmp s1 s2 n m =
     (if n = 0 then Inr 0
      else rbind (panic_if (s1 = 0) ''strncasecmp - s1 is null'') (\<lambda>_.
           rbind (panic_if (s2 = 0) ''strncasecmp - s2 is null'') (\<lambda>_.
           rbind (c_len_max m s1 (unat n) 0) (\<lambda>s1_len.
           rbind (c_len_max m s2 (unat n) 0) (\<lambda>s2_len.
           rbind (asan_load s1 (s1_len + 1) m) (\<lambda>_.
           rbind (asan_load s2 (s2_len + 1) m) (\<lambda>_.
           rbind (slice_at m s1 s1_len) (\<lambda>s1_slice.
           rbind (slice_at m s2 s2_len) (\<lambda>s2_slice.
           Inr (cmp_slices (\<lambda>x y. x <s y) (map to_upper s1_slice) (map to_upper s2_slice)))))))))))"

section \<open>Copies\<close>

definition strcpy :: "u64 \<Rightarrow> u64 \<Rightarrow> 'b machine \<Rightarrow> hook_error + u64 \<times> 'b machine" where
  "strcpy dst src m =
     rbind (panic_if (dst = 0) ''strcpy - dst is null'') (\<lambda>_.
     rbind (panic_if (src = 0) ''strcpy - src is null'') (\<lambda>_.
     rbind (c_len m src 0) (\<lambda>len.
     rbind (asan_load src (len + 1) m) (\<lambda>_.
     rbind (asan_store dst (len + 1) m) (\<lambda>_.
     rbind (copy_bytes src dst (len + 1) m) (\<lambda>m. Inr (dst, m)))))))"

definition stpcpy :: "u64 \<Rightarrow> u64 \<Rightarrow> 'b machine \<Rightarrow> hook_error + u64 \<times> 'b machine" where
  "stpcpy dst src m =
     rbind (panic_if (dst = 0) ''stpcpy - dst is null'') (\<lambda>_.
     rbind (panic_if (src = 0) ''stpcpy - src is null'') (\<lambda>_.
     rbind (c_len m src 0) (\<lambda>len.
     rbind (asan_load src (len + 1) m) (\<lambda>_.
     rbind (asan_store dst (len + 1) m) (\<lambda>_.
     rbind (copy_bytes src dst (len + 1) m) (\<lambda>m. Inr (dst + of_nat len, m)))))))"

definition strncpy :: "u64 \<Rightarrow> u64 \<Rightarrow> u64 \<Rightarrow> 'b machine \<Rightarrow> hook_error + u64 \<times> 'b machine" where
  "strncpy dst src n m =
     (if n = 0 then Inr (dst, m)
      else rbind (panic_if (dst = 0) ''strncpy - dst is null'') (\<lambda>_.
           rbind (panic_if (src = 0) ''strncpy - src is null'') (\<lambda>_.
           rbind (c_len_max m src (unat n) 0) (\<lambda>len.
           rbind (asan_store dst len m) (\<lambda>_.
           rbind (asan_load src len m) (\<lambda>_.
           rbind (copy_bytes src dst len m) (\<lambda>m. Inr (dst, m))))))))"

definition stpncpy :: "u64 \<Rightarrow> u64 \<Rightarrow> u64 \<Rightarrow> 'b machine \<Rightarrow> hook_error + u64 \<times> 'b machine" where
  "stpncpy dst src dsize m =
     (if dsize = 0 then Inr (dst, m)
      else rbind (panic_if (dst = 0) ''stpncpy - dst is null'') (\<lambda>_.
           rbind (panic_if (src = 0) ''stpncpy - src is null'') (\<lambda>_.
           rbind (c_len m src 0) (\<lambda>len.
           rbind (asan_load src (len + 1) m) (\<lambda>_.
           rbind (asan_store dst (unat dsize) m) (\<lambda>_.
           let dlen = min (len + 1) (unat dsize)
           in rbind (copy_bytes src dst dlen m) (\<lambda>m.
              rbind (fill_bytes (dst + of_nat dlen) 0 (unat dsize - dlen) m) (\<lambda>m.
              Inr (dst + dsize, m)))))))))"

definition strcat :: "u64 \<Rightarrow> u64 \<Rightarrow> 'b machine \<Rightarrow> hook_error + u64 \<times> 'b machine" where
  "strcat s ct m =
     rbind (panic_if (s = 0) ''strcat - s is null'') (\<lambda>_.
     rbind (panic_if (ct = 0) ''strcat - ct is null'') (\<lambda>_.
     rbind (c_len m s 0) (\<lambda>s_len.
     rbind (c_len m ct 0) (\<lambda>ct_len.
     rbind (asan_store (s + of_nat s_len) (ct_len + 1) m) (\<lambda>_.
     rbind (asan_load ct (ct_len + 1) m) (\<lambda>_.
     rbind (copy_bytes ct (s + of_nat s_len) (ct_len + 1) m) (\<lambda>m. Inr (s, m))))))))"

definition strncat :: "u64 \<Rightarrow> u64 \<Rightarrow> u64 \<Rightarrow> 'b machine \<Rightarrow> hook_error + u64 \<times> 'b machine" where
  "strncat s ct n m =
     (if n = 0 then Inr (s, m)
      else rbind (panic_if (s = 0) ''strncat - s is null'') (\<lambda>_.
           rbind (panic_if (ct = 0) ''strncat - ct is null'') (\<lambda>_.
           rbind (c_len m s 0) (\<lambda>s_len.
           rbind (c_len m ct 0) (\<lambda>ct_len.
           let c_len = min ct_len (unat n)
           in rbind (asan_store (s + of_nat s_len) (c_len + 1) m) (\<lambda>_.
              rbind (asan_load ct c_len m) (\<lambda>_.
              rbind (copy_bytes ct (s + of_nat s_len) c_len m) (\<lambda>m.
              rbind (poke s (s_len + c_len + 1) 0 m) (\<lambda>m. Inr (s, m))))))))))"

definition strdup :: "'b backend_ops \<Rightarrow> u64 \<Rightarrow> 'b machine \<Rightarrow> hook_error + u64 \<times> 'b machine" where
  "strdup bops cs m =
     rbind (panic_if (cs = 0) ''strdup - cs is null'') (\<lambda>_.
     rbind (c_len m cs 0) (\<lambda>len.
     rbind (asan_load cs (len + 1) m) (\<lambda>_.
     rbind (asan_alloc bops (of_nat (len + 1)) 0 m) (\<lambda>(dest, m).
     rbind (copy_bytes cs dest (len + 1) m) (\<lambda>m. Inr (dest, m))))))"

definition strndup :: "'b backend_ops \<Rightarrow> u64 \<Rightarrow> u64 \<Rightarrow> 'b machine \<Rightarrow> hook_error + u64 \<times> 'b machine" where
  "strndup bops cs n m =
     (if cs = 0 \<and> n = 0
      then rbind (asan_alloc bops 1 0 m) (\<lambda>(dest, m). rbind (poke dest 0 0 m) (\<lambda>m. Inr (dest, m)))
      else rbind (panic_if (cs = 0) ''strndup - cs is null'') (\<lambda>_.
           rbind (c_len_max m cs (unat n) 0) (\<lambda>len.
           rbind (asan_load cs (len + 1) m) (\<lambda>_.
           rbind (asan_alloc bops (of_nat (len + 1)) 0 m) (\<lambda>(dest, m).
           rbind (copy_bytes cs dest (len + 1) m) (\<lambda>m.
           rbind (poke dest len 0 m) (\<lambda>m. Inr (dest, m))))))))"

section \<open>Every write is checked\<close>

text \<open>When the hook returns, it changed only bytes of a range that the shadow let it access.\<close>

definition writes_checked :: "('b machine \<Rightarrow> hook_error + 'r \<times> 'b machine) \<Rightarrow> bool" where
  "writes_checked f \<longleftrightarrow> (\<forall>m r m'. f m = Inr (r, m') \<longrightarrow>
     m' = m \<or> (\<exists>p n. accessible m p n \<and> changes_only m m' (unat p) n))"

lemma writes_checkedI:
  "(\<And>m r m'. f m = Inr (r, m') \<Longrightarrow> m' = m \<or> (\<exists>p n. accessible m p n \<and> changes_only m m' (unat p) n)) \<Longrightarrow>
    writes_checked f"
  by (simp add: writes_checked_def)

lemmas run_hook = rbind_Inr_iff asan_load_ok asan_store_ok Let_def

lemma stpncpy_checked: "writes_checked (stpncpy dst src dsize)"
proof (rule writes_checkedI)
  fix m m' :: "'b machine" and r
  assume run: "stpncpy dst src dsize m = Inr (r, m')"
  show "m' = m \<or> (\<exists>p n. accessible m p n \<and> changes_only m m' (unat p) n)"
  proof (cases "dsize = 0")
    case False
    with run obtain len m1 where a: "accessible m dst (unat dsize)"
      and m1: "copy_bytes src dst (min (len + 1) (unat dsize)) m = Inr m1"
      and m2: "fill_bytes (dst + of_nat (min (len + 1) (unat dsize))) 0
        (unat dsize - min (len + 1) (unat dsize)) m1 = Inr m'"
      by (auto simp: stpncpy_def run_hook)
    let ?d = "min (len + 1) (unat dsize)"
    have "in_memory (unat dst) (unat dsize)" using a unat_lt_64 [of dsize] by (intro accessible_in_memory) simp_all
    then have "unat dst + ?d < 2 ^ 64" by (auto simp: in_memory_def)
    then have "unat (dst + of_nat ?d) = unat dst + ?d" by (rule unat_at)
    with fill_bytes_changes [OF m2] have "changes_only m1 m' (unat dst + ?d) (unat dsize - ?d)" by simp
    then have "changes_only m1 m' (unat dst) (unat dsize)" by (rule changes_only_mono) simp_all
    moreover have "changes_only m m1 (unat dst) (unat dsize)"
      using copy_bytes_changes [OF m1] by (rule changes_only_mono) simp_all
    ultimately show ?thesis using a by (blast intro: changes_only_trans)
  qed (use run in \<open>simp add: stpncpy_def\<close>)
qed


section \<open>Searches in strings\<close>

lemma unat_byte_64: "unat (ucast (b :: u8) :: u64) = unat b"
proof -
  have "unat b < 256" using unsigned_less [of b] by simp
  then have "unat b < 2 ^ 64" by simp
  then show ?thesis by (simp add: unsigned_ucast_eq take_bit_nat_eq_self_iff)
qed

lemma sint_small: "unat b < 128 \<Longrightarrow> sint b = int (unat b)" for b :: u8
proof -
  assume b: "unat b < 128"
  have "sint (ucast (ucast b :: u64) :: u8) = int (unat (ucast b :: u64))"
    by (rule sint_ucast_small) (simp only: unat_byte_64 b)
  moreover have "(ucast (ucast b :: u64) :: u8) = b" by (rule ucast_up_ucast_id) (simp add: is_up)
  ultimately show ?thesis by (simp only: unat_byte_64)
qed

lemma scast_eq_ucast: "(scast x :: u32) = ucast b \<longleftrightarrow> x = b \<and> unat b < 128" for x b :: u8
proof
  assume eq: "(scast x :: u32) = ucast b"
  have rng: "- 128 \<le> sint x" "sint x < 128" "0 \<le> uint b" "uint b < 256"
    using sint_greater_eq [of x] sint_less [of x] unsigned_less [of b, where 'a = int] by simp_all
  have "uint (word_of_int (sint x) :: u32) = uint (word_of_int (uint b) :: u32)"
    using eq by (simp only: scast_eq ucast_eq)
  then have eq: "sint x mod 4294967296 = uint b mod 4294967296"
    by (simp only: uint_word_of_int len_num1 len_bit0) simp
  moreover have "uint b mod 4294967296 = uint b" using rng by (intro mod_pos_pos_trivial) simp_all
  ultimately have m: "sint x mod 4294967296 = uint b" by simp
  have "0 \<le> sint x"
  proof (rule ccontr)
    assume "\<not> 0 \<le> sint x"
    then have "(sint x + 4294967296) mod 4294967296 = sint x + 4294967296"
      using rng by (intro mod_pos_pos_trivial) simp_all
    then have "uint b = sint x + 4294967296" using m by simp
    with rng show False by linarith
  qed
  then have "sint x mod 4294967296 = sint x" using rng by (intro mod_pos_pos_trivial) simp_all
  with m have s: "sint x = uint b" by simp
  then have "(word_of_int (sint x) :: u8) = word_of_int (uint b)" by (rule arg_cong)
  then have "x = b" by simp
  moreover have "int (unat b) < 128" using s rng by (simp only: flip: uint_nat)
  ultimately show "x = b \<and> unat b < 128" by linarith
next
  assume x: "x = b \<and> unat b < 128"
  then have "sint b = uint b" by (simp add: sint_small)
  with x show "(scast x :: u32) = ucast b" by (simp only: scast_eq ucast_eq)
qed

lemma least_pos:
  "(\<exists>x\<in>set s. P x) \<Longrightarrow> (LEAST i. i < length s \<and> P (s ! i)) < length s"
  by (metis (mono_tags, lifting) LeastI_ex in_set_conv_nth)

text \<open>
  \<open>strchr\<close> for a character code from 0 to 255, exactly: it finds the first occurrence of an
  ASCII character. It does not find the terminator, and not a byte of 128 or more given as its
  unsigned code, where the C standard says both are found.
\<close>

theorem strchr_finds_ascii:
  assumes "string_at m cs s" "cs \<noteq> 0" "accessible m cs (length s + 1)"
  shows "strchr cs (ucast b) m = Inr (if unat b < 128 \<and> b \<in> set s
      then cs + of_nat (LEAST i. i < length s \<and> s ! i = b) else 0) \<and>
    strchr cs 0 m = Inr 0"
proof -
  have run: "strchr cs (ucast c) m = Inr (if unat c < 128 \<and> c \<in> set s
      then cs + of_nat (LEAST i. i < length s \<and> s ! i = c) else 0)" for c
    using assms by (auto simp: strchr_def hook_simps scast_eq_ucast position_spec)
  moreover have "(0 :: u8) \<notin> set s" using assms(1) by (simp add: string_at_def)
  ultimately show ?thesis using run [of 0] by simp
qed

text \<open>Strings in the memory of the witnesses.\<close>

abbreviation with_bytes :: "u64 \<Rightarrow> bytes \<Rightarrow> u64 machine" where
  "with_bytes p bs \<equiv> plain_machine\<lparr>m_mem := written (m_mem plain_machine) p bs\<rparr>"

lemma string_at_with:
  assumes "0 \<notin> set s" "unat p + length s + 1 \<le> 2 ^ 64"
  shows "string_at (with_bytes p (s @ [0])) p s"
  using bytes_at_written [where p = p and bs = "s @ [0]" and m = plain_machine and mem = "m_mem plain_machine"] assms by (simp add: string_at_def)

lemma bytes_at_drop:
  assumes "bytes_at m p (xs @ ys)" "unat p + length xs < 2 ^ 64" shows "bytes_at m (p + of_nat (length xs)) ys"
proof -
  have "unat (p + of_nat (length xs)) = unat p + length xs" by (rule unat_at [OF assms(2)])
  moreover have "m_mem m (p + of_nat (length xs) + of_nat i) = Some (ys ! i)" if "i < length ys" for i
  proof -
    have "m_mem m (p + of_nat (length xs + i)) = Some ((xs @ ys) ! (length xs + i))"
      using conjunct2 [OF assms(1) [unfolded bytes_at_def], THEN spec, of "length xs + i"] that by simp
    then show ?thesis by (simp add: add.assoc)
  qed
  ultimately show ?thesis using assms(1) by (simp add: bytes_at_def)
qed

lemma strings_at_with:
  assumes "0 \<notin> set s" "0 \<notin> set t" "unat p + length s + 1 + length t + 1 \<le> 2 ^ 64"
  shows "string_at (with_bytes p (s @ [0] @ t @ [0])) p s"
    and "string_at (with_bytes p (s @ [0] @ t @ [0])) (p + of_nat (length s + 1)) t"
proof -
  let ?m = "with_bytes p (s @ [0] @ t @ [0])"
  have b: "bytes_at ?m p ((s @ [0]) @ (t @ [0]))"
    using bytes_at_written [where p = p and bs = "s @ [0] @ t @ [0]" and m = plain_machine and mem = "m_mem plain_machine"] assms(3) by simp
  from bytes_at_append_left [OF this] show "string_at ?m p s" using assms(1) by (simp add: string_at_def)
  from bytes_at_drop [OF b] show "string_at ?m (p + of_nat (length s + 1)) t"
    using assms(2,3) by (simp add: string_at_def)
qed

theorem strchr_finds_ascii_witness:
  "strchr 0x20000 0x62 (with_bytes 0x20000 ([0x61, 0x62, 0xe9] @ [0])) = Inr 0x20001 \<and>
    strchr 0x20000 0xe9 (with_bytes 0x20000 ([0x61, 0x62, 0xe9] @ [0])) = Inr 0"
proof -
  let ?m = "with_bytes 0x20000 ([0x61, 0x62, 0xe9] @ [0])"
  have s: "string_at ?m 0x20000 [0x61, 0x62, 0xe9]" by (rule string_at_with) simp_all
  have a: "accessible ?m 0x20000 (length [0x61 :: u8, 0x62, 0xe9] + 1)"
    by (rule plain_accessible) (simp add: in_memory_def)
  have n: "(0x20000 :: u64) \<noteq> 0" by simp
  have "(LEAST i. i < length [0x61 :: u8, 0x62, 0xe9] \<and> [0x61 :: u8, 0x62, 0xe9] ! i = 0x62) = 1"
    by (rule Least_equality) (auto simp: not_less_eq_eq [symmetric] less_Suc_eq)
  with strchr_finds_ascii [OF s n a, of "0x62"] strchr_finds_ascii [OF s n a, of "0xe9"]
  show ?thesis by simp
qed

text \<open>
  \<open>strstr\<close> finds the first occurrence of one string in another, and \<open>strcasestr\<close> does so after
  both are mapped to upper case.
\<close>

theorem strstr_finds_first:
  assumes "string_at m cs s" "string_at m ct t" "cs \<noteq> 0" "ct \<noteq> 0"
    and "accessible m cs (length s + 1)" "accessible m ct (length t + 1)"
  shows "strstr cs ct m = Inr (if \<exists>i. occurs_at t s i then cs + of_nat (LEAST i. occurs_at t s i) else 0) \<and>
    strcasestr cs ct m = Inr (if \<exists>i. occurs_at (map to_upper t) (map to_upper s) i
      then cs + of_nat (LEAST i. occurs_at (map to_upper t) (map to_upper s) i) else 0)"
proof (cases "t = []")
  case True
  have occ: "occurs_at [] xs 0" for xs :: bytes by (simp add: occurs_at_def)
  then have "(LEAST i. occurs_at [] xs i) = 0" for xs :: bytes by (intro Least_equality) simp_all
  with occ True assms show ?thesis by (auto simp: strstr_def strcasestr_def hook_simps)
next
  case False
  show ?thesis
  proof (cases "length t \<le> length s")
    case True
    have "length (map to_upper t) \<le> length (map to_upper s)" using True by simp
    note f = find_slice_first [OF True] find_slice_first [OF this, unfolded length_map]
    show ?thesis
      using True False assms
      by (auto simp: strstr_def strcasestr_def hook_simps f [unfolded Suc_eq_plus1 [symmetric]] simp del: find_slice.simps)
  next
    case no: False
    then have "\<not> occurs_at t s i" "\<not> occurs_at (map to_upper t) (map to_upper s) i" for i
      by (simp_all add: occurs_at_take)
    with no False assms show ?thesis by (auto simp: strstr_def strcasestr_def hook_simps)
  qed
qed

theorem strstr_finds_first_witness:
  "strstr 0x20000 0x20003 (with_bytes 0x20000 ([1, 2] @ [0] @ [2] @ [0])) = Inr 0x20001"
proof -
  let ?m = "with_bytes 0x20000 ([1, 2] @ [0] @ [2] @ [0])"
  have s: "string_at ?m 0x20000 [1, 2]" "string_at ?m 0x20003 [2]"
    using strings_at_with [of "[1, 2]" "[2]" "0x20000"] by simp_all
  have a: "accessible ?m 0x20000 (length [1 :: u8, 2] + 1)" "accessible ?m 0x20003 (length [2 :: u8] + 1)"
    by (rule plain_accessible; simp add: in_memory_def)+
  have n: "(0x20000 :: u64) \<noteq> 0" "(0x20003 :: u64) \<noteq> 0" by simp_all
  have occ: "occurs_at [2] [1, 2 :: u8] i \<longleftrightarrow> i = 1" for i
    by (auto simp: occurs_at_take Cons_eq_append_conv take_Cons' drop_Cons' split: if_splits)
  then have "(LEAST i. occurs_at [2] [1, 2 :: u8] i) = 1" "\<exists>i. occurs_at [2] [1, 2 :: u8] i"
    by (auto intro: Least_equality)
  with strstr_finds_first [OF s n a] show ?thesis by simp
qed

section \<open>Comparisons of strings\<close>

text \<open>The key by which \<open>strcasecmp\<close> orders characters.\<close>

definition fold_case :: "u8 \<Rightarrow> int" where
  "fold_case c = sint (to_upper c)"

lemma cmp_upper:
  "cmp_slices (\<lambda>x y. x <s y) (map to_upper s) (map to_upper t) =
    (if map fold_case s = map fold_case t then 0
     else if ord_class.lexordp (map fold_case s) (map fold_case t) then -1 else 1)"
  using cmp_slices_map [of sint "map to_upper s" "map to_upper t"]
  by (simp add: word_sless_alt cmp_slices_lex comp_def flip: fold_case_def)

text \<open>
  \<open>strcmp\<close> gives the sign of the lexicographic comparison of the two strings as unsigned bytes,
  and \<open>strcasecmp\<close> the sign of the comparison of their upper-case forms, as signed characters.
  \<open>strncmp\<close> and \<open>strncasecmp\<close> compare the first \<open>n\<close> characters.
\<close>

theorem strcmp_is_lexicographic:
  assumes "string_at m cs s" "string_at m ct t" "cs \<noteq> 0" "ct \<noteq> 0" "n \<noteq> 0"
    and "accessible m cs (length s + 1)" "accessible m ct (length t + 1)"
    and "accessible m cs (min (unat n) (length s) + 1)" "accessible m ct (min (unat n) (length t) + 1)"
  shows "strcmp cs ct m = Inr (if s = t then 0 else if ord_class.lexordp s t then -1 else 1) \<and>
    strncmp cs ct n m = Inr (let s = take (unat n) s; t = take (unat n) t
      in if s = t then 0 else if ord_class.lexordp s t then -1 else 1) \<and>
    strcasecmp cs ct m = Inr (if map fold_case s = map fold_case t then 0
      else if ord_class.lexordp (map fold_case s) (map fold_case t) then -1 else 1) \<and>
    strncasecmp cs ct n m = Inr (let s = map fold_case (take (unat n) s); t = map fold_case (take (unat n) t)
      in if s = t then 0 else if ord_class.lexordp s t then -1 else 1)"
proof -
  have sl: "slice_at m p (min (unat n) (length u)) = Inr (take (unat n) u)" if "string_at m p u" for p u
    using slice_at_bytes [of m p "u @ [0]" "min (unat n) (length u)"] that
    by (auto simp: string_at_def min_def split: if_splits)
  have "strcmp cs ct m = Inr (if s = t then 0 else if ord_class.lexordp s t then -1 else 1)"
    using assms by (simp add: strcmp_def hook_simps cmp_slices_lex)
  moreover have "strncmp cs ct n m = Inr (let s = take (unat n) s; t = take (unat n) t
      in if s = t then 0 else if ord_class.lexordp s t then -1 else 1)"
    using assms by (simp add: strncmp_def hook_simps cmp_slices_lex sl Let_def)
  moreover have "strcasecmp cs ct m = Inr (if map fold_case s = map fold_case t then 0
      else if ord_class.lexordp (map fold_case s) (map fold_case t) then -1 else 1)"
    using assms by (simp add: strcasecmp_def hook_simps cmp_upper)
  moreover have "strncasecmp cs ct n m = Inr (let s = map fold_case (take (unat n) s); t = map fold_case (take (unat n) t)
      in if s = t then 0 else if ord_class.lexordp s t then -1 else 1)"
    using assms by (simp add: strncasecmp_def hook_simps cmp_upper sl Let_def)
  ultimately show ?thesis by blast
qed

theorem strcmp_is_lexicographic_witness:
  "strcmp 0x20000 0x20003 (with_bytes 0x20000 ([0x61, 0x62] @ [0] @ [0x61, 0xe9] @ [0])) = Inr (-1) \<and>
    strncmp 0x20000 0x20003 1 (with_bytes 0x20000 ([0x61, 0x62] @ [0] @ [0x61, 0xe9] @ [0])) = Inr 0"
proof -
  let ?m = "with_bytes 0x20000 ([0x61, 0x62] @ [0] @ [0x61, 0xe9] @ [0])"
  have s: "string_at ?m 0x20000 [0x61, 0x62]" "string_at ?m 0x20003 [0x61, 0xe9]"
    using strings_at_with [of "[0x61, 0x62]" "[0x61, 0xe9]" "0x20000"] by simp_all
  have a: "accessible ?m 0x20000 (length [0x61 :: u8, 0x62] + 1)" "accessible ?m 0x20003 (length [0x61 :: u8, 0xe9] + 1)"
    "accessible ?m 0x20000 (min (unat (1 :: u64)) (length [0x61 :: u8, 0x62]) + 1)"
    "accessible ?m 0x20003 (min (unat (1 :: u64)) (length [0x61 :: u8, 0xe9]) + 1)"
    by (rule plain_accessible; simp add: in_memory_def)+
  have n: "(0x20000 :: u64) \<noteq> 0" "(0x20003 :: u64) \<noteq> 0" "(1 :: u64) \<noteq> 0" by simp_all
  from strcmp_is_lexicographic [OF s n a] show ?thesis by (simp add: Let_def)
qed

text \<open>
  \<open>strncmp\<close> asks the shadow for one byte more than it compares: on a buffer of exactly \<open>n\<close>
  characters without a terminator, all of which may be read, it reports an error when the byte behind
  the buffer may not be.
\<close>

theorem strncmp_checks_one_more:
  assumes "bytes_at m cs bs" "0 \<notin> set bs" "unat n = length bs" "n \<noteq> 0" "cs \<noteq> 0" "ct \<noteq> 0"
    and "string_at m ct t" "asan_load cs (length bs + 1) m = Inl e"
  shows "strncmp cs ct n m = Inl e"
proof -
  have t: "takeWhile (\<lambda>b. b \<noteq> 0) bs = bs" using assms(2) by (simp add: takeWhile_eq_all_conv) metis
  have "c_len_max m cs (unat n) 0 = Inr (length bs)"
    using c_len_max_from [OF assms(1), of "unat n" 0] assms(3) by (simp add: t)
  with assms show ?thesis by (simp add: strncmp_def hook_simps)
qed

theorem strncmp_checks_one_more_witness:
  "\<exists>m :: u64 machine. accessible m 0x10080 24 \<and> strncmp 0x10080 0x200fe 24 m = Inl (BadRead 0x10080 25)"
proof -
  obtain fe where fe: "guest_reach bump fe" "fe_red_zone_size fe = 128" "fe_allocations fe =
      [0x10080 \<mapsto> \<lparr>al_frontend_len = 24, al_backend_addr = 0x10000, al_backend_len = 288,
       al_backend_align = 16, al_freed = False\<rparr>]" using bump_once by metis
  let ?bs = "replicate 24 (1 :: u8)"
  let ?m = "\<lparr>m_mem = written (m_mem plain_machine) 0x10080 ?bs, m_frontend = fe\<rparr>"
  have "fe_allocations fe 0x10080 = Some \<lparr>al_frontend_len = 24, al_backend_addr = 0x10000,
      al_backend_len = 288, al_backend_align = 16, al_freed = False\<rparr>" by (simp add: fe(3))
  note check = guest_heap.block_check [OF guest_reach_inv [OF fe(1)] this]
  have "sh_is_poison guest_shadow_ops 0x10080 24 (fe_shadow fe) = Inr False"
    "sh_is_poison guest_shadow_ops 0x10080 25 (fe_shadow fe) = Inr True"
    by (subst check; simp add: fe(2))+
  then have a: "accessible ?m 0x10080 24" and l: "asan_load 0x10080 (length ?bs + 1) ?m = Inl (BadRead 0x10080 25)"
    by (simp_all add: accessible_def asan_load_def guest_shadow_ops_def)
  have b: "bytes_at ?m 0x10080 ?bs"
    using bytes_at_written [where p = "0x10080" and bs = ?bs and m = ?m and mem = "m_mem plain_machine"] by simp
  have "bytes_at ?m 0x200fe [0xfe, 0xff, 0]"
    by (auto simp: bytes_at_def written_def plain_machine_def less_Suc_eq)
  then have t: "string_at ?m 0x200fe [0xfe, 0xff]" by (simp add: string_at_def)
  have n: "0 \<notin> set ?bs" "unat (24 :: u64) = length ?bs" "(24 :: u64) \<noteq> 0" "(0x10080 :: u64) \<noteq> 0" "(0x200fe :: u64) \<noteq> 0"
    by simp_all
  show ?thesis using strncmp_checks_one_more [OF b n t l] a by blast
qed

section \<open>Copies of strings\<close>

lemma copy_string_ok [hook_simps]:
  assumes "string_at m src s" "bytes_at m dst old" "length old = length s + 1"
  shows "copy_bytes src dst (Suc (length s)) m = Inr (m\<lparr>m_mem := written (m_mem m) dst (s @ [0])\<rparr>)"
  using copy_bytes_ok [of m src "s @ [0]" dst old] assms by (simp add: string_at_def)

lemma string_extends:
  assumes "string_at m s u" "bytes_at m (s + of_nat (length u)) old" "length old = length t + 1" "0 \<notin> set t"
  shows "string_at (m\<lparr>m_mem := written (m_mem m) (s + of_nat (length u)) (t @ [0])\<rparr>) s (u @ t)"
proof -
  let ?dst = "s + of_nat (length u)"
  have lt: "unat s + length u < 2 ^ 64" using assms(1) by (auto simp: string_at_def bytes_at_def)
  then have d: "unat ?dst = unat s + length u" by (rule unat_at)
  have room: "unat s + length u + length t < 2 ^ 64" using assms(2,3) d by (simp add: bytes_at_def)
  have "written (m_mem m) ?dst (t @ [0]) (s + of_nat i) = Some ((u @ t @ [0]) ! i)"
    if i: "i < length u + length t + 1" for i
  proof -
    have si: "unat (s + of_nat i) = unat s + i" using i room by (intro unat_at) simp
    show ?thesis
    proof (cases "i < length u")
      case True
      have "\<forall>j<length (u @ [0]). m_mem m (s + of_nat j) = Some ((u @ [0]) ! j)"
        using assms(1) by (simp add: string_at_def bytes_at_def)
      then have "m_mem m (s + of_nat i) = Some (u ! i)" using True by (simp add: nth_append)
      with True si d show ?thesis by (simp add: written_def nth_append)
    next
      case False
      with i si d show ?thesis by (simp add: written_def nth_append)
    qed
  qed
  moreover have "0 \<notin> set u" using assms(1) by (simp add: string_at_def)
  ultimately show ?thesis using room assms(4) by (simp add: string_at_def bytes_at_def)
qed

text \<open>
  \<open>strcpy\<close> and \<open>stpcpy\<close> leave a copy of the string, with its terminator, at the destination, and
  return the destination or the address of the new terminator. \<open>strcat\<close>, when the destination is the
  terminator of a string, leaves the concatenation of the two. Nothing else changes.
\<close>

theorem string_copies:
  assumes "string_at m src t" "src \<noteq> 0" "accessible m src (length t + 1)" "length old = length t + 1"
    and "bytes_at m dst old" "dst \<noteq> 0" "accessible m dst (length t + 1)"
  shows "strcpy dst src m = Inr (dst, m\<lparr>m_mem := written (m_mem m) dst (t @ [0])\<rparr>) \<and>
    stpcpy dst src m = Inr (dst + of_nat (length t), m\<lparr>m_mem := written (m_mem m) dst (t @ [0])\<rparr>) \<and>
    string_at (m\<lparr>m_mem := written (m_mem m) dst (t @ [0])\<rparr>) dst t \<and>
    (\<forall>s u. string_at m s u \<and> s \<noteq> 0 \<and> dst = s + of_nat (length u) \<longrightarrow>
       strcat s src m = Inr (s, m\<lparr>m_mem := written (m_mem m) dst (t @ [0])\<rparr>) \<and>
       string_at (m\<lparr>m_mem := written (m_mem m) dst (t @ [0])\<rparr>) s (u @ t))"
proof -
  have z: "0 \<notin> set t" using assms(1) by (simp add: string_at_def)
  have "strcpy dst src m = Inr (dst, m\<lparr>m_mem := written (m_mem m) dst (t @ [0])\<rparr>)"
    "stpcpy dst src m = Inr (dst + of_nat (length t), m\<lparr>m_mem := written (m_mem m) dst (t @ [0])\<rparr>)"
    using assms by (simp_all add: strcpy_def stpcpy_def hook_simps)
  moreover have "string_at (m\<lparr>m_mem := written (m_mem m) dst (t @ [0])\<rparr>) dst t"
    using bytes_at_written [where p = dst and bs = "t @ [0]" and m = m and mem = "m_mem m"] assms(4,5) z
    by (simp add: string_at_def bytes_at_def)
  moreover have "strcat s src m = Inr (s, m\<lparr>m_mem := written (m_mem m) dst (t @ [0])\<rparr>) \<and>
       string_at (m\<lparr>m_mem := written (m_mem m) dst (t @ [0])\<rparr>) s (u @ t)"
    if su: "string_at m s u" "s \<noteq> 0" "dst = s + of_nat (length u)" for s u
    using su assms string_extends [OF su(1) _ assms(4) z] by (simp add: strcat_def hook_simps)
  ultimately show ?thesis by blast
qed

theorem string_copies_witness:
  "\<exists>m. strcat 0x20000 0x200fe (with_bytes 0x20000 ([1, 2] @ [0])) = Inr (0x20000, m) \<and>
    string_at m 0x20000 [1, 2, 0xfe, 0xff]"
proof -
  let ?m = "with_bytes 0x20000 ([1, 2] @ [0])"
  have s: "string_at ?m 0x20000 [1, 2]" by (rule string_at_with) simp_all
  have t: "string_at ?m 0x200fe [0xfe, 0xff]" and b: "bytes_at ?m 0x20002 [0, 3, 4]"
    by (auto simp: string_at_def bytes_at_def written_def plain_machine_def less_Suc_eq)
  have a: "accessible ?m 0x200fe (length [0xfe :: u8, 0xff] + 1)" "accessible ?m 0x20002 (length [0xfe :: u8, 0xff] + 1)"
    by (rule plain_accessible; simp add: in_memory_def)+
  have n: "(0x200fe :: u64) \<noteq> 0" "(0x20002 :: u64) \<noteq> 0" "length [0 :: u8, 3, 4] = length [0xfe :: u8, 0xff] + 1" by simp_all
  from string_copies [OF t n(1) a(1) n(3) b n(2) a(2)] s show ?thesis by fastforce
qed

text \<open>
  \<open>strncpy\<close> copies the characters and nothing else: when the source is shorter than \<open>n\<close> it leaves
  the byte behind the copy as it was, so the result need not be terminated; the C standard asks for
  the rest to be filled with zeros. Only the copied bytes are checked.
\<close>

theorem strncpy_does_not_terminate:
  assumes "string_at m src s" "length s < unat n" "src \<noteq> 0" "dst \<noteq> 0"
    and "bytes_at m dst old" "length old = length s" "accessible m dst (length s)" "accessible m src (length s)"
  shows "strncpy dst src n m = Inr (dst, m\<lparr>m_mem := written (m_mem m) dst s\<rparr>) \<and>
    written (m_mem m) dst s (dst + of_nat (length s)) = m_mem m (dst + of_nat (length s))"
proof -
  have b: "bytes_at m src s" using assms(1) bytes_at_append_left by (auto simp: string_at_def)
  have "n \<noteq> 0" using assms(2) by auto
  then have "strncpy dst src n m = Inr (dst, m\<lparr>m_mem := written (m_mem m) dst s\<rparr>)"
    using assms copy_bytes_ok [OF b assms(5,6)] by (simp add: strncpy_def hook_simps)
  moreover have "in_memory (unat dst) (length s)"
    using assms(7) order_less_trans [OF assms(2) unat_lt_64] by (intro accessible_in_memory) simp_all
  then have "unat (dst + of_nat (length s)) = unat dst + length s"
    by (intro unat_at) (auto simp: in_memory_def)
  ultimately show ?thesis by (simp add: written_def)
qed

theorem strncpy_does_not_terminate_witness:
  "\<exists>m. strncpy 0x20001 0x200fe 8 plain_machine = Inr (0x20001, m) \<and> m_mem m 0x20003 = Some 3"
proof -
  have s: "string_at plain_machine 0x200fe [0xfe, 0xff]" and b: "bytes_at plain_machine 0x20001 [1, 2]"
    by (auto simp: string_at_def bytes_at_def plain_machine_def less_Suc_eq)
  have a: "accessible plain_machine 0x20001 (length [0xfe :: u8, 0xff])"
    "accessible plain_machine 0x200fe (length [0xfe :: u8, 0xff])"
    by (rule plain_accessible_self; simp add: in_memory_def)+
  have n: "length [0xfe :: u8, 0xff] < unat (8 :: u64)" "(0x200fe :: u64) \<noteq> 0" "(0x20001 :: u64) \<noteq> 0"
    "length [1 :: u8, 2] = length [0xfe :: u8, 0xff]" by simp_all
  from strncpy_does_not_terminate [OF s n(1-3) b n(4) a] show ?thesis
    by (simp add: plain_machine_def written_def)
qed

text \<open>
  \<open>strncat\<close> appends the characters but puts the terminator one byte too far: the byte right behind
  the copied characters keeps its value, and the zero is written behind it, one byte past the range
  that was checked.
\<close>

theorem strncat_terminates_late:
  assumes "string_at m s u" "string_at m ct t" "s \<noteq> 0" "ct \<noteq> 0" "n \<noteq> 0" "k = min (length t) (unat n)"
    and "bytes_at m (s + of_nat (length u)) (old @ [x, y])" "length old = k"
    and "accessible m (s + of_nat (length u)) (k + 1)" "accessible m ct k"
  shows "case strncat s ct n m of Inl e \<Rightarrow> False
    | Inr (r, m') \<Rightarrow> r = s \<and> m_mem m' (s + of_nat (length u + k)) = Some x \<and>
        m_mem m' (s + of_nat (length u + k + 1)) = Some 0 \<and> bytes_at m' (s + of_nat (length u)) (take k t)"
proof -
  let ?d = "s + of_nat (length u)"
  have "unat s + length u < 2 ^ 64" using assms(1) by (auto simp: string_at_def bytes_at_def)
  then have d: "unat ?d = unat s + length u" by (rule unat_at)
  have room: "unat s + length u + k + 2 \<le> 2 ^ 64" using assms(7,8) d by (simp add: bytes_at_def)
  have lt: "length (take k t) = k" using assms(6) by simp
  have bt: "bytes_at m ct (take k t)" and bo: "bytes_at m ?d old"
    using bytes_at_take [of m ct "t @ [0]" k] assms(2,6) bytes_at_append_left [OF assms(7)]
    by (simp_all add: string_at_def)
  have copy: "copy_bytes ct ?d k m = Inr (m\<lparr>m_mem := written (m_mem m) ?d (take k t)\<rparr>)"
    using copy_bytes_ok [OF bt bo] assms(8) lt by simp
  have u1: "unat (s + of_nat (length u + k)) = unat s + length u + k"
    and u2: "unat (s + of_nat (length u + k + 1)) = unat s + length u + k + 1"
    using room by (subst unat_at; simp)+
  have at: "m_mem m (?d + of_nat i) = Some ((old @ [x, y]) ! i)" if "i < k + 2" for i
    using assms(7,8) that by (simp add: bytes_at_def)
  have x: "m_mem m (s + of_nat (length u + k)) = Some x" and y: "m_mem m (s + of_nat (length u + k + 1)) = Some y"
    using at [of k] at [of "k + 1"] assms(8) by (simp_all add: nth_append ac_simps)
  let ?m1 = "m\<lparr>m_mem := written (m_mem m) ?d (take k t)\<rparr>"
  have "peek ?m1 s (length u + k + 1) = Inr y"
    using room y u2 d lt by (simp add: peek_def written_def)
  then have pk: "poke s (length u + k + 1) 0 ?m1
      = Inr (?m1\<lparr>m_mem := (m_mem ?m1)(s + of_nat (length u + k + 1) \<mapsto> 0)\<rparr>)" by (simp add: poke_def)
  have run: "strncat s ct n m = Inr (s, ?m1\<lparr>m_mem := (m_mem ?m1)(s + of_nat (length u + k + 1) \<mapsto> 0)\<rparr>)"
    using assms(1-5,9,10) copy pk by (simp add: strncat_def hook_simps Let_def flip: assms(6))
  have "s + of_nat (length u + k) \<noteq> s + of_nat (length u + k + 1)" using u1 u2 by (metis n_not_Suc_n add.commute plus_1_eq_Suc)
  moreover have "written (m_mem m) ?d (take k t) (s + of_nat (length u + k)) = Some x"
    using x u1 d lt by (simp add: written_def)
  moreover have "bytes_at (?m1\<lparr>m_mem := (m_mem ?m1)(s + of_nat (length u + k + 1) \<mapsto> 0)\<rparr>) ?d (take k t)"
    (is "bytes_at ?m2 ?d (take k t)")
  proof -
    have "m_mem ?m2 (?d + of_nat i) = Some (take k t ! i)" if i: "i < k" for i
    proof -
      have ui: "unat (?d + of_nat i) = unat ?d + i" using room d i by (intro unat_at) simp
      then have "?d + of_nat i \<noteq> s + of_nat (length u + k + 1)" using u2 d i by (metis add_left_imp_eq add.assoc less_irrefl trans_less_add1)
      then show ?thesis using ui i lt by (simp add: written_def)
    qed
    then show ?thesis using room d lt by (simp add: bytes_at_def)
  qed
  ultimately show ?thesis unfolding run by simp
qed

theorem strncat_terminates_late_witness:
  "\<exists>m. strncat 0x200fe 0x200fe 1 plain_machine = Inr (0x200fe, m) \<and>
    m_mem m 0x20101 = Some 1 \<and> m_mem m 0x20102 = Some 0"
proof -
  have s: "string_at plain_machine 0x200fe [0xfe, 0xff]"
    and b: "bytes_at plain_machine (0x200fe + of_nat (length [0xfe :: u8, 0xff])) ([0] @ [1, 2])"
    by (auto simp: string_at_def bytes_at_def plain_machine_def less_Suc_eq)
  have a: "accessible plain_machine (0x200fe + of_nat (length [0xfe :: u8, 0xff])) (1 + 1)"
    "accessible plain_machine 0x200fe 1"
    by (rule plain_accessible_self; simp add: in_memory_def)+
  have n: "(0x200fe :: u64) \<noteq> 0" "(1 :: u64) \<noteq> 0" "1 = min (length [0xfe :: u8, 0xff]) (unat (1 :: u64))" "length [0 :: u8] = 1"
    by simp_all
  from strncat_terminates_late [OF s s n(1,1,2,3) b n(4) a] show ?thesis
    by (auto split: sum.splits)
qed

end
