(* ===== verification/AsanNumbers.thy ===== *)
theory AsanNumbers
  imports AsanStrHooks
begin

text \<open>
  The hooks \<open>atoi\<close>, \<open>atol\<close> and \<open>atoll\<close> under \<^verbatim>\<open>libaflmm_asan/src/hooks/\<close>, which differ in the width
  of the result only: the machine word is the type parameter.
\<close>

section \<open>Numbers\<close>

definition white_space :: "u8 set" where
  "white_space = {0x20, 0xc, 0xa, 0xd, 0x9, 0xb}"

function skip_space :: "bytes \<Rightarrow> nat \<Rightarrow> hook_error + nat" where
  "skip_space bs i =
     (if i < length bs then if bs ! i \<in> white_space then skip_space bs (i + 1) else Inr i
      else Inl IndexPanic)"
  by pat_completeness auto

termination by (relation "measure (\<lambda>(bs, i). length bs - i)") auto

declare skip_space.simps [simp del]

text \<open>The digits, with the checked operations at the width of the result.\<close>

fun digits_loop :: "bytes \<Rightarrow> 'a::len word \<Rightarrow> hook_error + 'a word" where
  "digits_loop [] val = Inr val"
| "digits_loop (c # cs) val =
     (if 0x30 \<le>s c \<and> c \<le>s 0x39
      then if 2 ^ LENGTH('a) \<le> unat val * 10 then Inl (AsanPanic (''atoi - overflow #1''))
           else let val = val * 10; digit = ucast (c - 0x30)
                in if 2 ^ LENGTH('a) \<le> unat val + unat digit then Inl (AsanPanic (''atoi - overflow #2''))
                   else digits_loop cs (val + digit)
      else Inr val)"

definition finish_number :: "bool \<Rightarrow> 'a::len word \<Rightarrow> hook_error + 'a word" where
  "finish_number negative val =
     (if val = 0 then Inr 0
      else if negative
      then if 2 ^ (LENGTH('a) - 1) < unat val then Inl (AsanPanic (''atoi - overflow #3''))
           else Inr (- (val - 1) - 1)
      else if 2 ^ (LENGTH('a) - 1) - 1 < unat val then Inl (AsanPanic (''atoi - overflow #4''))
      else Inr val)"

definition parse_number :: "string \<Rightarrow> u64 \<Rightarrow> 'b machine \<Rightarrow> hook_error + 'a::len word" where
  "parse_number msg s m =
     rbind (panic_if (s = 0) msg) (\<lambda>_.
     rbind (c_len m s 0) (\<lambda>len.
     rbind (asan_load s (len + 1) m) (\<lambda>_.
     rbind (slice_at m s len) (\<lambda>bs.
     rbind (skip_space bs 0) (\<lambda>i.
     let negative = (bs ! i = 0x2d);
         i = (if bs ! i = 0x2d \<or> bs ! i = 0x2b then i + 1 else i)
     in rbind (digits_loop (drop i bs) 0) (finish_number negative))))))"

definition atoi :: "u64 \<Rightarrow> 'b machine \<Rightarrow> hook_error + 32 word" where
  "atoi = parse_number ''atoi - s is null''"

definition atol :: "u64 \<Rightarrow> 'b machine \<Rightarrow> hook_error + 64 word" where
  "atol = parse_number ''atol - s is null''"

definition atoll :: "u64 \<Rightarrow> 'b machine \<Rightarrow> hook_error + 64 word" where
  "atoll = parse_number ''atol - s is null''"

section \<open>Decimal values\<close>

definition digit :: "u8 \<Rightarrow> bool" where
  "digit c \<longleftrightarrow> 0x30 \<le>s c \<and> c \<le>s 0x39"

definition decimal :: "nat \<Rightarrow> bytes \<Rightarrow> nat" where
  "decimal = foldl (\<lambda>v c. v * 10 + unat (c - 0x30))"

lemma decimal_simps [simp]: "decimal v [] = v" "decimal v (c # cs) = decimal (v * 10 + unat (c - 0x30)) cs"
  by (simp_all add: decimal_def)

lemma decimal_ge: "v \<le> decimal v cs"
proof (induction cs arbitrary: v)
  case (Cons c cs)
  have "v \<le> v * 10 + unat (c - 0x30)" by simp
  with Cons [of "v * 10 + unat (c - 0x30)"] show ?case by simp
qed simp

lemma unat_ucast_wide:
  assumes "8 \<le> LENGTH('a::len)" shows "unat (ucast (c :: u8) :: 'a word) = unat c"
proof -
  have "unat c < 2 ^ 8" using unsigned_less [of c] by simp
  also have "(2 :: nat) ^ 8 \<le> 2 ^ LENGTH('a)" using assms by (rule power_increasing) simp
  finally have "unat c < 2 ^ LENGTH('a)" .
  then show ?thesis by (simp add: unsigned_ucast_eq take_bit_nat_eq_self_iff)
qed

lemma digits_loop_spec:
  fixes val :: "'a::len word"
  assumes "8 \<le> LENGTH('a)" "\<forall>c\<in>set ds. digit c" "rest = [] \<or> \<not> digit (hd rest)"
  shows "if decimal (unat val) ds < 2 ^ LENGTH('a)
    then digits_loop (ds @ rest) val = Inr (of_nat (decimal (unat val) ds))
    else \<exists>msg. digits_loop (ds @ rest) val = Inl (AsanPanic msg)"
  using assms(2)
proof (induction ds arbitrary: val)
  case Nil
  have "digits_loop rest val = Inr val" using assms(3) by (cases rest) (auto simp: digit_def)
  moreover have "unat val < 2 ^ LENGTH('a)" by (rule unsigned_less)
  ultimately show ?case by simp
next
  case (Cons c cs)
  let ?v1 = "unat val * 10 + unat (c - 0x30)"
  have dc: "0x30 \<le>s c" "c \<le>s 0x39" using Cons.prems by (simp_all add: digit_def)
  have ten: "(10 :: nat) < 2 ^ LENGTH('a)"
  proof -
    have "(10 :: nat) < 2 ^ 8" by simp
    also have "\<dots> \<le> 2 ^ LENGTH('a)" using assms(1) by (rule power_increasing) simp
    finally show ?thesis .
  qed
  then have tb: "take_bit LENGTH('a) (10 :: nat) = 10" by (simp add: take_bit_nat_eq_self_iff)
  show ?case
  proof (cases "2 ^ LENGTH('a) \<le> unat val * 10")
    case True
    moreover have "unat val * 10 \<le> decimal ?v1 cs" using decimal_ge [of ?v1 cs] by simp
    ultimately show ?thesis using dc by (auto simp: not_less [symmetric])
  next
    case False
    then have m: "unat (val * 10) = unat val * 10"
      using False by (simp add: unat_word_ariths tb)
    have d: "unat (ucast (c - 0x30) :: 'a word) = unat (c - 0x30)" by (rule unat_ucast_wide [OF assms(1)])
    show ?thesis
    proof (cases "2 ^ LENGTH('a) \<le> ?v1")
      case True
      with decimal_ge [of ?v1 cs] have "\<not> decimal ?v1 cs < 2 ^ LENGTH('a)" by simp
      with True False dc m d show ?thesis by (simp add: Let_def)
    next
      case no: False
      then have "unat (val * 10 + ucast (c - 0x30)) = ?v1"
        by (subst unat_add_lem [THEN iffD1]) (simp_all add: m d)
      with Cons.IH [of "val * 10 + ucast (c - 0x30)"] Cons.prems False no dc m d
      show ?thesis by (simp add: Let_def)
    qed
  qed
qed

lemma skip_space_spec:
  assumes "set ws \<subseteq> white_space" "c \<notin> white_space" "i \<le> length ws"
  shows "skip_space (ws @ c # cs) i = Inr (length ws)"
  using assms(3)
proof (induction "length ws - i" arbitrary: i)
  case 0
  then have "i = length ws" by simp
  with assms(2) show ?case by (simp add: skip_space.simps)
next
  case (Suc k)
  then have i: "i < length ws" by simp
  then have "(ws @ c # cs) ! i \<in> white_space" using assms(1) by (metis nth_append nth_mem subsetD)
  moreover have "skip_space (ws @ c # cs) (i + 1) = Inr (length ws)" using Suc i by simp
  ultimately show ?case using i by (simp add: skip_space.simps [of _ i])
qed

definition number_sign :: "bytes \<Rightarrow> bool \<Rightarrow> bool" where
  "number_sign sg negative \<longleftrightarrow> (if negative then sg = [0x2d] else sg = [] \<or> sg = [0x2b])"

lemma digit_not_special: "digit c \<Longrightarrow> c \<notin> white_space \<and> c \<noteq> 0x2d \<and> c \<noteq> 0x2b"
  by (auto simp: digit_def white_space_def)

lemma parse_number_spec:
  fixes p :: u64
  assumes "8 \<le> LENGTH('a::len)" "string_at m p (ws @ sg @ ds @ rest)" "p \<noteq> 0"
    and "accessible m p (length (ws @ sg @ ds @ rest) + 1)" "set ws \<subseteq> white_space" "number_sign sg negative"
    and "ds \<noteq> []" "\<forall>c\<in>set ds. digit c" "rest = [] \<or> \<not> digit (hd rest)"
  shows "let v = decimal 0 ds; limit = (if negative then 2 ^ (LENGTH('a) - 1) else 2 ^ (LENGTH('a) - 1) - 1)
    in if v \<le> limit then (parse_number msg p m :: hook_error + 'a word) = Inr (if negative then - of_nat v else of_nat v)
       else \<exists>msg'. (parse_number msg p m :: hook_error + 'a word) = Inl (AsanPanic msg')"
proof -
  let ?s = "ws @ sg @ ds @ rest" and ?i = "length ws + length sg" and ?v = "decimal 0 ds"
  obtain d ds' where ds: "ds = d # ds'" using assms(7) by (cases ds) auto
  have d: "d \<notin> white_space" "d \<noteq> 0x2d" "d \<noteq> 0x2b" using digit_not_special [of d] assms(8) ds by auto
  obtain c cs where c: "sg @ ds @ rest = c # cs" "c \<notin> white_space"
    using assms(6) ds d by (auto simp: number_sign_def white_space_def split: if_splits)
  have skip: "skip_space ?s 0 = Inr (length ws)"
    unfolding c(1) by (rule skip_space_spec [OF assms(5) c(2)]) simp
  have at: "?s ! length ws = c" by (simp add: c(1))
  have neg: "c = 0x2d \<longleftrightarrow> negative" and start: "(if negative \<or> c = 0x2b then length ws + 1 else length ws) = ?i"
    using assms(6) c(1) ds d by (auto simp: number_sign_def split: if_splits)
  have dr: "drop ?i ?s = ds @ rest" by simp
  have "(parse_number msg p m :: hook_error + 'a word) =
      rbind (digits_loop (drop (if c = 0x2d \<or> c = 0x2b then length ws + 1 else length ws) ?s) 0)
        (finish_number (c = 0x2d))"
    using assms(2-4) skip
    by (simp add: parse_number_def hook_simps Let_def at del: drop_append length_append split del: if_split)
  then have run: "(parse_number msg p m :: hook_error + 'a word)
      = rbind (digits_loop (ds @ rest) 0) (finish_number negative)"
    unfolding neg start dr .
  define limit :: nat where "limit = (if negative then 2 ^ (LENGTH('a) - 1) else 2 ^ (LENGTH('a) - 1) - 1)"
  have "(2 :: nat) ^ (LENGTH('a) - 1) < 2 ^ LENGTH('a)" using assms(1) by (intro power_strict_increasing) simp_all
  moreover have "limit \<le> 2 ^ (LENGTH('a) - 1)" by (simp add: limit_def)
  ultimately have lim: "limit < 2 ^ LENGTH('a)" by (rule le_less_trans [rotated])
  have loop: "if ?v < 2 ^ LENGTH('a)
      then digits_loop (ds @ rest) 0 = (Inr (of_nat ?v) :: hook_error + 'a word)
      else \<exists>msg. digits_loop (ds @ rest) 0 = (Inl (AsanPanic msg) :: hook_error + 'a word)"
    using digits_loop_spec [where val = "0 :: 'a word", OF assms(1,8,9)] by simp
  show ?thesis
  proof (cases "?v < 2 ^ LENGTH('a)")
    case True
    then have u: "unat (of_nat ?v :: 'a word) = ?v" by (simp add: unsigned_of_nat take_bit_nat_eq_self_iff)
    then have "of_nat ?v = (0 :: 'a word) \<longleftrightarrow> ?v = 0" by (metis unat_eq_0)
    moreover have "(parse_number msg p m :: hook_error + 'a word) = finish_number negative (of_nat ?v)"
      using loop True by (simp add: run)
    ultimately show ?thesis using u unfolding limit_def [symmetric] Let_def
      by (cases negative) (auto simp: finish_number_def limit_def)
  next
    case False
    then have "\<not> ?v \<le> limit" using lim by simp
    with loop False show ?thesis by (auto simp: run limit_def Let_def)
  qed
qed

text \<open>
  \<open>atoi\<close>, \<open>atol\<close> and \<open>atoll\<close>: for white space, an optional sign, at least one digit and any rest
  that does not start with a digit, the result is the decimal value with its sign whenever it fits in
  the type, 32 or 64 bits, and a report otherwise; the value never wraps around.
\<close>

theorem numbers_are_parsed:
  assumes "string_at m p (ws @ sg @ ds @ rest)" "p \<noteq> 0"
    and "accessible m p (length (ws @ sg @ ds @ rest) + 1)" "set ws \<subseteq> white_space" "number_sign sg negative"
    and "ds \<noteq> []" "\<forall>c\<in>set ds. digit c" "rest = [] \<or> \<not> digit (hd rest)"
  shows "let v = decimal 0 ds; in_range = (\<lambda>w. v \<le> (if negative then 2 ^ (w - 1) else 2 ^ (w - 1) - 1))
    in (if in_range (32 :: nat) then atoi p m = Inr (if negative then - of_nat v else of_nat v)
        else \<exists>msg. atoi p m = Inl (AsanPanic msg)) \<and>
       (if in_range 64 then atol p m = Inr (if negative then - of_nat v else of_nat v)
        else \<exists>msg. atol p m = Inl (AsanPanic msg)) \<and> atoll p m = atol p m"
proof -
  have "8 \<le> LENGTH(32)" "8 \<le> LENGTH(64)" by simp_all
  from parse_number_spec [OF this(1) assms, of "''atoi - s is null''"]
    parse_number_spec [OF this(2) assms, of "''atol - s is null''"]
  show ?thesis by (simp only: atoi_def atol_def atoll_def Let_def len_num1 len_bit0 mult_1_right mult_2_right numeral_plus_numeral add_num_simps simp_thms) simp
qed

theorem numbers_are_parsed_witness:
  "atoi 0x20000 (with_bytes 0x20000 (([0x20] @ [0x2d] @ [0x34, 0x32] @ [0x78]) @ [0])) = Inr (- 42)"
proof -
  let ?s = "[0x20] @ [0x2d] @ [0x34, 0x32] @ [0x78 :: u8]"
  let ?m = "with_bytes 0x20000 (?s @ [0])"
  have s: "string_at ?m 0x20000 ?s" by (rule string_at_with) simp_all
  have a: "accessible ?m 0x20000 (length ?s + 1)" by (rule plain_accessible) (simp add: in_memory_def)
  have n: "(0x20000 :: u64) \<noteq> 0" "set [0x20 :: u8] \<subseteq> white_space" "number_sign [0x2d] True"
    "[0x34 :: u8, 0x32] \<noteq> []" "\<forall>c\<in>set [0x34 :: u8, 0x32]. digit c" "[0x78 :: u8] = [] \<or> \<not> digit (hd [0x78])"
    by (simp_all add: white_space_def number_sign_def digit_def word_sle_eq)
  from numbers_are_parsed [OF s n(1) a n(2-6)] show ?thesis by (simp add: Let_def)
qed

text \<open>
  A string of white space, or an empty one, makes the code index past the end of its slice: it panics
  where the C standard gives zero.
\<close>

lemma empty_number_panics:
  assumes "string_at m p ws" "set ws \<subseteq> white_space" "p \<noteq> 0" "accessible m p (length ws + 1)"
  shows "atoi p m = Inl IndexPanic"
proof -
  have "i \<le> length ws \<Longrightarrow> skip_space ws i = Inl IndexPanic" for i
  proof (induction "length ws - i" arbitrary: i)
    case 0
    then show ?case by (simp add: skip_space.simps [of ws i])
  next
    case (Suc k)
    then have "ws ! i \<in> white_space" using assms(2) by (metis nth_mem subsetD zero_less_diff zero_less_Suc)
    with Suc show ?case by (simp add: skip_space.simps [of ws i])
  qed
  with assms show ?thesis by (simp add: atoi_def parse_number_def hook_simps)
qed

end
