(* ===== verification/AsanHeapHooks.thy ===== *)
theory AsanHeapHooks
  imports AsanRuntime
begin

text \<open>
  The hooks for the allocation functions of the C library and for the system calls that reach the
  shadow, one file each under \<^verbatim>\<open>libaflmm_asan/src/hooks/\<close>. The kernel is an argument: what the call
  answers and what it does to the memory.
\<close>

section \<open>Allocation\<close>

definition malloc :: "'b backend_ops \<Rightarrow> u64 \<Rightarrow> 'b machine \<Rightarrow> hook_error + u64 \<times> 'b machine" where
  "malloc bops sz m = (if sz = 0 then Inr (0, m) else asan_alloc bops sz 0 m)"

definition free :: "'b backend_ops \<Rightarrow> u64 \<Rightarrow> 'b machine \<Rightarrow> hook_error + 'b machine" where
  "free bops p m = asan_dealloc bops p m"

definition malloc_usable_size :: "u64 \<Rightarrow> 'b machine \<Rightarrow> hook_error + u64" where
  "malloc_usable_size ptr m = (if ptr = 0 then Inr 0 else asan_get_size ptr m)"

definition checked_mul :: "u64 \<Rightarrow> u64 \<Rightarrow> u64 option" where
  "checked_mul a b = (if unat a * unat b < 2 ^ 64 then Some (a * b) else None)"

definition calloc :: "'b backend_ops \<Rightarrow> u64 \<Rightarrow> u64 \<Rightarrow> 'b machine \<Rightarrow> hook_error + u64 \<times> 'b machine" where
  "calloc bops nobj sz m =
     (case checked_mul nobj sz of
        Some sz \<Rightarrow>
          if sz = 0 then Inr (0, m)
          else rbind (asan_alloc bops sz 0 m) (\<lambda>(ptr, m).
               rbind (fill_bytes ptr 0 (unat sz) m) (\<lambda>m. Inr (ptr, m)))
      | None \<Rightarrow> Inl (AsanPanic ''calloc - size would overflow''))"

definition is_power_of_two :: "u64 \<Rightarrow> bool" where
  "is_power_of_two n \<longleftrightarrow> n \<noteq> 0 \<and> n AND (n - 1) = 0"

definition memalign :: "'b backend_ops \<Rightarrow> u64 \<Rightarrow> u64 \<Rightarrow> 'b machine \<Rightarrow> hook_error + u64 \<times> 'b machine" where
  "memalign bops align sz m =
     (if align mod 8 \<noteq> 0 then Inl (AsanPanic ''memalign - align is not a multiple of pointer size'')
      else if \<not> is_power_of_two align then Inl (AsanPanic ''memalign - align is not a power of two'')
      else if sz = 0 then Inr (0, m)
      else asan_alloc bops sz align m)"

definition aligned_alloc :: "'b backend_ops \<Rightarrow> u64 \<Rightarrow> u64 \<Rightarrow> 'b machine \<Rightarrow> hook_error + u64 \<times> 'b machine" where
  "aligned_alloc bops alignment sz m =
     (if alignment mod 8 \<noteq> 0 then Inl (AsanPanic ''aligned_alloc - alignment is not a multiple of pointer size'')
      else if \<not> is_power_of_two alignment then Inl (AsanPanic ''aligned_alloc - alignment is not a power of two'')
      else if sz = 0 then Inr (0, m)
      else asan_alloc bops sz alignment m)"

text \<open>A pointer in memory: eight bytes, the least significant first.\<close>

definition pointer_bytes :: "u64 \<Rightarrow> bytes" where
  "pointer_bytes p = map (\<lambda>k. ucast (drop_bit (8 * k) p)) [0..<8]"

definition posix_memalign ::
  "'b backend_ops \<Rightarrow> u64 \<Rightarrow> u64 \<Rightarrow> u64 \<Rightarrow> 'b machine \<Rightarrow> hook_error + int \<times> 'b machine" where
  "posix_memalign bops memptr align sz m =
     rbind (panic_if (memptr = 0) ''posix_memalign - memptr is null'') (\<lambda>_.
     if align mod 8 \<noteq> 0 then Inl (AsanPanic ''posix_memalign - align is not a multiple of pointer size'')
     else if \<not> is_power_of_two align then Inl (AsanPanic ''posix_memalign - align is not a power of two'')
     else if sz = 0 then rbind (write_bytes memptr 0 (pointer_bytes 0) m) (\<lambda>m. Inr (0, m))
     else rbind (asan_alloc bops sz align m) (\<lambda>(p, m).
          rbind (write_bytes memptr 0 (pointer_bytes p) m) (\<lambda>m. Inr (0, m))))"

definition valloc :: "'b backend_ops \<Rightarrow> u64 \<Rightarrow> 'b machine \<Rightarrow> hook_error + u64 \<times> 'b machine" where
  "valloc bops sz m = (if sz = 0 then Inr (0, m) else asan_alloc bops sz asan_page_size m)"

definition pvalloc :: "'b backend_ops \<Rightarrow> u64 \<Rightarrow> 'b machine \<Rightarrow> hook_error + u64 \<times> 'b machine" where
  "pvalloc bops sz m =
     (let page_size = asan_page_size;
          aligned_size = (if sz = 0 then page_size else (sz + page_size - 1) AND NOT (page_size - 1))
      in if aligned_size = 0 then Inl AssertPanic else asan_alloc bops aligned_size page_size m)"

definition realloc :: "'b backend_ops \<Rightarrow> u64 \<Rightarrow> u64 \<Rightarrow> 'b machine \<Rightarrow> hook_error + u64 \<times> 'b machine" where
  "realloc bops p sz m =
     (if p = 0 \<and> sz = 0 then Inr (0, m)
      else if p = 0 then asan_alloc bops sz 0 m
      else if sz = 0 then rbind (asan_dealloc bops p m) (\<lambda>m. Inr (0, m))
      else rbind (asan_get_size p m) (\<lambda>old_size.
           rbind (asan_load p (unat old_size) m) (\<lambda>_.
           rbind (asan_alloc bops sz 0 m) (\<lambda>(q, m).
           rbind (copy_bytes p q (unat (min old_size sz)) m) (\<lambda>m.
           rbind (asan_dealloc bops p m) (\<lambda>m. Inr (q, m)))))))"

definition reallocarray ::
  "'b backend_ops \<Rightarrow> u64 \<Rightarrow> u64 \<Rightarrow> u64 \<Rightarrow> 'b machine \<Rightarrow> hook_error + u64 \<times> 'b machine" where
  "reallocarray bops ptr nmemb sz m =
     (case checked_mul nmemb sz of
        Some sz \<Rightarrow>
          if ptr = 0 \<and> sz = 0 then Inr (0, m)
          else if ptr = 0 then asan_alloc bops sz 0 m
          else if sz = 0 then rbind (asan_dealloc bops ptr m) (\<lambda>m. Inr (0, m))
          else rbind (asan_get_size ptr m) (\<lambda>old_size.
               rbind (asan_load ptr (unat old_size) m) (\<lambda>_.
               rbind (asan_alloc bops sz 0 m) (\<lambda>(q, m).
               rbind (copy_bytes ptr q (unat (min old_size sz)) m) (\<lambda>m.
               rbind (asan_dealloc bops ptr m) (\<lambda>m. Inr (q, m))))))
      | None \<Rightarrow> Inl (AsanPanic ''reallocarray - size would overflow''))"

section \<open>System calls\<close>

text \<open>
  The kernel is a parameter: it is given the memory of the process and answers with the number of
  bytes and, where it may write, with the memory after the call. \<open>Ok\<close> is \<open>Some\<close>.
\<close>

type_synonym memory = "u64 \<Rightarrow> u8 option"

definition sys_read ::
  "(u32 \<Rightarrow> u64 \<Rightarrow> u64 \<Rightarrow> memory \<Rightarrow> (u64 \<times> memory) option) \<Rightarrow>
    u32 \<Rightarrow> u64 \<Rightarrow> u64 \<Rightarrow> 'b machine \<Rightarrow> hook_error + u64 \<times> 'b machine" where
  "sys_read os fd buf count m =
     rbind (panic_if (buf = 0 \<and> count \<noteq> 0) ''read - buf is null'') (\<lambda>_.
     rbind (asan_store buf (unat count) m) (\<lambda>_.
     case os fd buf count (m_mem m) of
       Some (ret, mem) \<Rightarrow> Inr (ret, m\<lparr>m_mem := mem\<rparr>)
     | None \<Rightarrow> Inr (-1, m)))"

definition sys_write ::
  "(u32 \<Rightarrow> u64 \<Rightarrow> u64 \<Rightarrow> memory \<Rightarrow> u64 option) \<Rightarrow>
    u32 \<Rightarrow> u64 \<Rightarrow> u64 \<Rightarrow> 'b machine \<Rightarrow> hook_error + u64" where
  "sys_write os fd buf count m =
     rbind (panic_if (buf = 0 \<and> count \<noteq> 0) ''write - buf is null'') (\<lambda>_.
     rbind (asan_load buf (unat count) m) (\<lambda>_.
     case os fd buf count (m_mem m) of Some ret \<Rightarrow> Inr ret | None \<Rightarrow> Inr (-1)))"

definition sys_mmap ::
  "(u64 \<Rightarrow> u64 \<Rightarrow> u32 \<Rightarrow> u32 \<Rightarrow> u32 \<Rightarrow> u64 \<Rightarrow> memory \<Rightarrow> (u64 \<times> memory) option) \<Rightarrow>
    u64 \<Rightarrow> u64 \<Rightarrow> u32 \<Rightarrow> u32 \<Rightarrow> u32 \<Rightarrow> u64 \<Rightarrow> 'b machine \<Rightarrow> hook_error + u64 \<times> 'b machine" where
  "sys_mmap os addr len prot flags fd offset m =
     (case os addr len prot flags fd offset (m_mem m) of
        Some (mapping, mem) \<Rightarrow>
          rbind (asan_unpoison mapping len (m\<lparr>m_mem := mem\<rparr>)) (\<lambda>m.
          rbind (asan_track mapping len m) (\<lambda>m. Inr (mapping, m)))
      | None \<Rightarrow> Inr (-1, m))"

definition sys_munmap ::
  "(u64 \<Rightarrow> u64 \<Rightarrow> memory \<Rightarrow> memory option) \<Rightarrow> u64 \<Rightarrow> u64 \<Rightarrow> 'b machine \<Rightarrow> hook_error + int \<times> 'b machine" where
  "sys_munmap os addr len m =
     (case os addr len (m_mem m) of
        Some mem \<Rightarrow> rbind (asan_untrack addr (m\<lparr>m_mem := mem\<rparr>)) (\<lambda>m. Inr (0, m))
      | None \<Rightarrow> Inr (-1, m))"

section \<open>The life of an object\<close>

lemma bytes_at_frontend: "bytes_at (m\<lparr>m_frontend := fe\<rparr>) p bs = bytes_at m p bs"
  by (simp add: bytes_at_def)

text \<open>Sizes by what is live, and what a machine's shadow says of a live object and of a freed one.\<close>

lemma get_size_live: "frontend_get_size fe p = (case live (fe_allocations fe) p of None \<Rightarrow> Inl (InvalidAddress p) | Some n \<Rightarrow> Inr n)"
  by (auto simp: frontend_get_size_def live_def split: option.splits)

lemma get_size_Inr:
  assumes "frontend_get_size fe p = Inr n"
  obtains al where "fe_allocations fe p = Some al" "\<not> al_freed al" "al_frontend_len al = n"
  using assms by (auto simp: frontend_get_size_def split: option.splits if_splits)

lemma live_object_access:
  assumes "guest_heap.heap_inv (m_frontend m)" "frontend_get_size (m_frontend m) p = Inr n" "k \<noteq> 0"
    and "unat p \<le> unat q" "unat q + k \<le> unat p + unat n + unat (fe_red_zone_size (m_frontend m))"
  shows "accessible m q k \<longleftrightarrow> unat q + k \<le> unat p + unat n"
proof -
  obtain al where al: "fe_allocations (m_frontend m) p = Some al" "\<not> al_freed al" "al_frontend_len al = n"
    using assms(2) by (rule get_size_Inr)
  have ok: "block_ok (fe_red_zone_size (m_frontend m)) p al" using assms(1) al(1) by (simp add: guest_heap.heap_inv_def)
  then have m: "in_memory (blk_start al) (blk_len al)" and lo: "blk_start al \<le> unat q"
    and hi: "unat q + k \<le> blk_start al + blk_len al"
    using assms(4,5) al(3) by (simp_all add: block_ok_def)
  then have k64: "k < 2 ^ 64" by (auto simp: in_memory_def)
  then have u: "unat (of_nat k :: u64) = k" by (intro unat_of_nat_small) simp
  then have "(of_nat k :: u64) \<noteq> 0" using assms(3) by (metis unat_eq_0)
  from guest_heap.block_check [OF assms(1) al(1) this lo] u al(2,3) assms(4,5)
  show ?thesis by (simp add: accessible_def guest_shadow_ops_def)
qed

lemma accessible_sub:
  assumes "guest_heap.heap_inv (m_frontend m)" "accessible m p n" "n < 2 ^ 64"
    and "unat p \<le> unat q" "unat q + k \<le> unat p + n" "k \<noteq> 0"
  shows "accessible m q k"
proof -
  have wf: "shadow_wf (fe_shadow (m_frontend m))" using assms(1) by (simp add: guest_heap.heap_inv_def)
  have mem: "in_memory (unat p) n" using assms(2,3) by (rule accessible_in_memory)
  then have mem': "in_memory (unat q) k" using assms(4-6) by (auto simp: in_memory_def)
  have u: "unat (of_nat n :: u64) = n" "unat (of_nat k :: u64) = k"
    using assms(3) mem' by (auto intro!: unat_of_nat_small simp: in_memory_def)
  show ?thesis using assms(2,4,5) is_poison_exact [OF wf, of p "of_nat n"] is_poison_exact [OF wf, of q "of_nat k"]
    mem mem' by (auto simp: accessible_def u)
qed

lemma overrun_inaccessible:
  assumes "guest_heap.heap_inv (m_frontend m)" "frontend_get_size (m_frontend m) p = Inr n" "unat n < k" "k < 2 ^ 64"
  shows "\<not> accessible m p k"
proof
  assume "accessible m p k"
  then have "accessible m p (unat n + 1)" using accessible_sub [OF assms(1), of p k p "unat n + 1"] assms(3,4) by simp
  moreover have "unat (fe_red_zone_size (m_frontend m)) \<noteq> 0" using assms(1) by (simp add: guest_heap.heap_inv_def unat_eq_0)
  ultimately show False using live_object_access [OF assms(1,2), of "unat n + 1" p] by simp
qed

lemma free_effect:
  assumes h: "guest_heap.heap_inv (m_frontend m)" and n: "frontend_get_size (m_frontend m) p = Inr n"
  obtains fe' where "free bops p m = Inr (m\<lparr>m_frontend := fe'\<rparr>)" "guest_heap.heap_inv fe'"
    "live (fe_allocations fe') = (live (fe_allocations (m_frontend m)))(p := None)"
    "\<And>q k. k \<noteq> 0 \<Longrightarrow> unat p \<le> unat q \<Longrightarrow> unat q + k \<le> unat p + unat n \<Longrightarrow> \<not> accessible (m\<lparr>m_frontend := fe'\<rparr>) q k"
proof -
  obtain al where al: "fe_allocations (m_frontend m) p = Some al" "\<not> al_freed al" "al_frontend_len al = n"
    using n by (rule get_size_Inr)
  obtain fe' where fe': "frontend_dealloc bops guest_shadow_ops fast_tracking_ops p (m_frontend m) = (Inr (), fe')"
    "guest_heap.heap_inv fe'" "live (fe_allocations fe') = (live (fe_allocations (m_frontend m)))(p := None)"
    "\<And>b. blk_start al \<le> b \<Longrightarrow> b < blk_start al + blk_len al \<Longrightarrow> byte_poisoned (fe_shadow fe') b"
    by (rule guest_heap.dealloc_effect [OF h al(1,2)]) (rule that, assumption+)
  have ok: "block_ok (fe_red_zone_size (m_frontend m)) p al" using h al(1) by (simp add: guest_heap.heap_inv_def)
  have "\<not> accessible (m\<lparr>m_frontend := fe'\<rparr>) q k"
    if k: "k \<noteq> 0" "unat p \<le> unat q" "unat q + k \<le> unat p + unat n" for q k
  proof -
    have b: "blk_start al \<le> unat q" "unat q + k \<le> blk_start al + blk_len al"
      using ok k al(3) by (simp_all add: block_ok_def)
    have m: "in_memory (blk_start al) (blk_len al)" using ok by (simp add: block_ok_def)
    then have k64: "k < 2 ^ 64" using b by (auto simp: in_memory_def)
    then have u: "unat (of_nat k :: u64) = k" by (intro unat_of_nat_small) simp
    have mq: "in_memory (unat q) k" by (rule in_memory_within [OF m b]) (use k(1) in simp)
    have "byte_poisoned (fe_shadow fe') (unat q)" using b k(1) by (intro fe'(4)) simp_all
    then have "\<exists>c\<in>{unat q..<unat q + k}. byte_poisoned (fe_shadow fe') c" using k(1) by fastforce
    moreover have "shadow_wf (fe_shadow fe')" using fe'(2) by (simp add: guest_heap.heap_inv_def)
    ultimately have "is_poison q (of_nat k) (fe_shadow fe') = Inr True"
      using guest_shadow.is_poison [of "fe_shadow fe'" q "of_nat k"] mq u by (simp add: guest_shadow_ops_def)
    then show ?thesis by (simp add: accessible_def)
  qed
  moreover have "free bops p m = Inr (m\<lparr>m_frontend := fe'\<rparr>)" by (simp add: free_def asan_dealloc_def fe'(1))
  ultimately show thesis using that fe'(2,3) by blast
qed

lemma alloc_effect:
  assumes h: "guest_heap.heap_inv (m_frontend m)" and b: "backend_honest bops (m_frontend m)" and sz: "sz \<noteq> 0"
    and run: "asan_alloc bops sz 0 m = Inr (q, m1)" and q: "q \<noteq> 0"
  obtains fe' where "m1 = m\<lparr>m_frontend := fe'\<rparr>" "guest_heap.heap_inv fe'"
    "live (fe_allocations fe') = (live (fe_allocations (m_frontend m)))(q \<mapsto> sz)"
    "live (fe_allocations (m_frontend m)) q = None"
proof -
  obtain r fe' where fe': "frontend_alloc bops guest_shadow_ops fast_tracking_ops sz 0 (m_frontend m) = (r, fe')"
    by fastforce
  have r: "r = Inr q" "m1 = m\<lparr>m_frontend := fe'\<rparr>"
    using run q fe' by (auto simp: asan_alloc_def split: sum.splits frontend_error.splits)
  have z: "unat (0 :: u64) mod 16 = 0" by simp
  note answer = guest_heap.alloc_answer [OF h z sz b [unfolded backend_honest_def], unfolded fe' fst_conv snd_conv r(1)]
  from answer obtain al where al: "fe_allocations (m_frontend m) q = None"
    "fe_allocations fe' = (fe_allocations (m_frontend m))(q \<mapsto> al)" "al_frontend_len al = sz" "\<not> al_freed al"
    by auto
  from that [OF r(2) answer [THEN conjunct1]] al show thesis by (simp add: live_insert) (simp add: live_def)
qed

section \<open>Properties\<close>





end
