(* ===== verification/AsanWideHooks.thy ===== *)
theory AsanWideHooks
  imports AsanMemHooks
begin

text \<open>
  The hooks for the wide string functions of the C library, one file each under
  \<^verbatim>\<open>libaflmm_asan/src/hooks/\<close>. A \<open>wchar_t\<close> is four bytes, signed; \<open>wcsncmp\<close> compares them
  without their sign, \<open>wcscmp\<close> with it.
\<close>

definition wcslen :: "u64 \<Rightarrow> 'b machine \<Rightarrow> hook_error + nat" where
  "wcslen buf m =
     rbind (panic_if (buf = 0) ''wcslen - buf is null'') (\<lambda>_.
     rbind (w_len m buf 0) (\<lambda>len.
     rbind (asan_load buf (4 * (len + 1)) m) (\<lambda>_. Inr len)))"

definition wcsnlen :: "u64 \<Rightarrow> u64 \<Rightarrow> 'b machine \<Rightarrow> hook_error + nat" where
  "wcsnlen cs maxlen m =
     (if maxlen = 0 then Inr 0
      else rbind (panic_if (cs = 0) ''wcsnlen - cs is null'') (\<lambda>_.
           rbind (w_len m cs 0) (\<lambda>len.
           if len < unat maxlen then rbind (asan_load cs ((len + 1) * 4) m) (\<lambda>_. Inr len)
           else rbind (asan_load cs (unat maxlen * 4) m) (\<lambda>_. Inr (unat maxlen)))))"

definition wcschr :: "u64 \<Rightarrow> u32 \<Rightarrow> 'b machine \<Rightarrow> hook_error + u64" where
  "wcschr cs c m =
     rbind (panic_if (cs = 0) ''wcschr - cs is null'') (\<lambda>_.
     rbind (w_len m cs 0) (\<lambda>len.
     rbind (asan_load cs ((len + 1) * 4) m) (\<lambda>_.
     rbind (wide_slice_at m cs len) (\<lambda>cs_slice.
     case position (\<lambda>x. x = c) cs_slice of
       Some pos \<Rightarrow> Inr (cs + of_nat (4 * pos))
     | None \<Rightarrow> Inr 0))))"

definition wcsrchr :: "u64 \<Rightarrow> u32 \<Rightarrow> 'b machine \<Rightarrow> hook_error + u64" where
  "wcsrchr cs c m =
     rbind (panic_if (cs = 0) ''wcsrchr - cs is null'') (\<lambda>_.
     rbind (w_len m cs 0) (\<lambda>len.
     rbind (asan_load cs ((len + 1) * 4) m) (\<lambda>_.
     rbind (wide_slice_at m cs len) (\<lambda>cs_slice.
     case position (\<lambda>x. x = c) (rev cs_slice) of
       Some pos \<Rightarrow> Inr (cs + of_nat (4 * (len - pos - 1)))
     | None \<Rightarrow> Inr 0))))"

definition wmemchr :: "u64 \<Rightarrow> u32 \<Rightarrow> u64 \<Rightarrow> 'b machine \<Rightarrow> hook_error + u64" where
  "wmemchr cx c n m =
     (if n = 0 then Inr 0
      else rbind (panic_if (cx = 0 \<and> n \<noteq> 0) ''wmemchr - cx is null'') (\<lambda>_.
           rbind (asan_load cx (unat (n * 4)) m) (\<lambda>_.
           rbind (wide_slice_at m cx (unat n)) (\<lambda>ws.
           case position (\<lambda>x. x = c) ws of
             Some pos \<Rightarrow> Inr (cx + of_nat (4 * pos))
           | None \<Rightarrow> Inr 0))))"

definition wcscmp :: "u64 \<Rightarrow> u64 \<Rightarrow> 'b machine \<Rightarrow> hook_error + int" where
  "wcscmp cs ct m =
     rbind (panic_if (cs = 0) ''wcscmp - cs is null'') (\<lambda>_.
     rbind (panic_if (ct = 0) ''wcscmp - ct is null'') (\<lambda>_.
     rbind (w_len m cs 0) (\<lambda>cs_len.
     rbind (w_len m ct 0) (\<lambda>ct_len.
     rbind (asan_load cs (4 * (cs_len + 1)) m) (\<lambda>_.
     rbind (asan_load ct (4 * (ct_len + 1)) m) (\<lambda>_.
     rbind (wide_slice_at m cs cs_len) (\<lambda>slice1.
     rbind (wide_slice_at m ct ct_len) (\<lambda>slice2.
     Inr (cmp_slices (\<lambda>x y. x <s y) slice1 slice2)))))))))"

definition wcsncmp :: "u64 \<Rightarrow> u64 \<Rightarrow> u64 \<Rightarrow> 'b machine \<Rightarrow> hook_error + int" where
  "wcsncmp cs ct n m =
     (if n = 0 then Inr 0
      else rbind (panic_if (cs = 0) ''wcsncmp - cs is null'') (\<lambda>_.
           rbind (panic_if (ct = 0) ''wcsncmp - ct is null'') (\<lambda>_.
           rbind (w_len_max m cs (unat n) 0) (\<lambda>cs_len.
           rbind (w_len_max m ct (unat n) 0) (\<lambda>ct_len.
           rbind (asan_load cs ((cs_len + 1) * 4) m) (\<lambda>_.
           rbind (asan_load ct ((ct_len + 1) * 4) m) (\<lambda>_.
           rbind (wide_slice_at m cs cs_len) (\<lambda>slice1.
           rbind (wide_slice_at m ct ct_len) (\<lambda>slice2.
           Inr (cmp_slices (<) slice1 slice2))))))))))"

definition wcscpy :: "u64 \<Rightarrow> u64 \<Rightarrow> 'b machine \<Rightarrow> hook_error + u64 \<times> 'b machine" where
  "wcscpy dst src m =
     rbind (panic_if (dst = 0) ''wcscpy - dst is null'') (\<lambda>_.
     rbind (panic_if (src = 0) ''wcscpy - src is null'') (\<lambda>_.
     rbind (w_len m src 0) (\<lambda>len.
     rbind (asan_load src (4 * (len + 1)) m) (\<lambda>_.
     rbind (asan_store dst (4 * (len + 1)) m) (\<lambda>_.
     rbind (copy_bytes src dst (4 * (len + 1)) m) (\<lambda>m. Inr (dst, m)))))))"

section \<open>Wide strings\<close>

definition wides_at :: "'b machine \<Rightarrow> u64 \<Rightarrow> u32 list \<Rightarrow> bool" where
  "wides_at m p ws \<longleftrightarrow> (\<forall>i<length ws. peek_wide m p i = Inr (ws ! i))"

definition wide_string_at :: "'b machine \<Rightarrow> u64 \<Rightarrow> u32 list \<Rightarrow> bool" where
  "wide_string_at m p s \<longleftrightarrow> wides_at m p (s @ [0]) \<and> 0 \<notin> set s"

lemma read_wides_at:
  "wides_at m p ws \<Longrightarrow> i + n \<le> length ws \<Longrightarrow> read_wides m p i n = Inr (take n (drop i ws))"
proof (induction n arbitrary: i)
  case (Suc n)
  then have "read_wides m p (Suc i) n = Inr (take n (drop (Suc i) ws))" "i < length ws" by simp_all
  with Suc.prems(1) show ?case by (simp add: wides_at_def Cons_nth_drop_Suc [symmetric])
qed simp

lemma wide_slice_string: "wide_string_at m p s \<Longrightarrow> n \<le> length s \<Longrightarrow> wide_slice_at m p n = Inr (take n s)"
  using read_wides_at [of m p "s @ [0]" 0 n] by (simp add: wide_slice_at_def wide_string_at_def)

lemma peek_wide_string:
  assumes "wide_string_at m p s" "i \<le> length s" shows "peek_wide m p i = Inr (if i < length s then s ! i else 0)"
  using assms by (auto simp: wide_string_at_def wides_at_def nth_append)

lemma w_len_from:
  assumes "wide_string_at m p s" "i \<le> length s" shows "w_len m p i = Inr (length s)"
  using assms(2)
proof (induction "length s - i" arbitrary: i)
  case 0
  then have i: "i = length s" by simp
  show ?case using peek_wide_string [OF assms(1), of "length s"] unfolding i
    by (simp add: w_len.simps [of m p "length s"])
next
  case (Suc k)
  then have i: "i < length s" by simp
  then have "s ! i \<noteq> 0" using assms(1) by (metis nth_mem wide_string_at_def)
  moreover have "w_len m p (i + 1) = Inr (length s)" using Suc i by simp
  ultimately show ?case using peek_wide_string [OF assms(1), of i] i by (simp add: w_len.simps [of m p i])
qed

lemma w_len_string [hook_simps]: "wide_string_at m p s \<Longrightarrow> w_len m p 0 = Inr (length s)"
  by (simp add: w_len_from)

lemma w_len_max_from:
  assumes "wide_string_at m p s" "i \<le> min n (length s)" shows "w_len_max m p n i = Inr (min n (length s))"
  using assms(2)
proof (induction "min n (length s) - i" arbitrary: i)
  case 0
  then have i: "i = min n (length s)" by simp
  show ?case using peek_wide_string [OF assms(1), of i] i
    by (cases "n \<le> length s")
      (auto simp: w_len_max.simps [of m p n n] w_len_max.simps [of m p n "length s"] min_def)
next
  case (Suc k)
  then have i: "i < n" "i < length s" by simp_all
  then have "s ! i \<noteq> 0" using assms(1) by (metis nth_mem wide_string_at_def)
  moreover have "w_len_max m p n (i + 1) = Inr (min n (length s))" using Suc i by simp
  ultimately show ?case using peek_wide_string [OF assms(1), of i] i by (simp add: w_len_max.simps [of m p n i])
qed

lemma w_len_max_string [hook_simps]: "wide_string_at m p s \<Longrightarrow> w_len_max m p n 0 = Inr (min n (length s))"
  by (simp add: w_len_max_from)

lemma wide_slice_all [hook_simps]: "wide_string_at m p s \<Longrightarrow> wide_slice_at m p (length s) = Inr s"
  using wide_slice_string [of m p s "length s"] by simp

text \<open>
  The wide comparisons are lexicographic, but not in the same order: \<open>wcscmp\<close> compares characters
  as signed numbers and \<open>wcsncmp\<close>, which stops after \<open>n\<close> of them, as unsigned ones. \<open>wcslen\<close> is the
  length without the terminator.
\<close>

theorem wide_strings_are_compared:
  assumes "wide_string_at m cs s" "wide_string_at m ct t" "cs \<noteq> 0" "ct \<noteq> 0" "n \<noteq> 0"
    and "accessible m cs (4 * (length s + 1))" "accessible m ct (4 * (length t + 1))"
    and "accessible m cs (4 * (min (unat n) (length s) + 1))" "accessible m ct (4 * (min (unat n) (length t) + 1))"
  shows "wcslen cs m = Inr (length s) \<and>
    wcscmp cs ct m = Inr (if s = t then 0 else if ord_class.lexordp (map sint s) (map sint t) then -1 else 1) \<and>
    wcsncmp cs ct n m = Inr (let s = take (unat n) s; t = take (unat n) t
      in if s = t then 0 else if ord_class.lexordp s t then -1 else 1)"
proof -
  have inj: "map sint s = map sint t \<longleftrightarrow> s = t" by (rule inj_map_eq_map) (simp add: inj_def signed_word_eqI)
  have c: "cmp_slices (\<lambda>x y. x <s y) s t = (if s = t then 0 else if ord_class.lexordp (map sint s) (map sint t) then -1 else 1)"
    using cmp_slices_map [of sint s t] by (simp add: word_sless_alt cmp_slices_lex inj)
  have sl: "wide_slice_at m p (min (unat n) (length u)) = Inr (take (unat n) u)" if "wide_string_at m p u" for p u
    using wide_slice_string [OF that, of "min (unat n) (length u)"] by (auto simp: min_def split: if_splits)
  have "wcslen cs m = Inr (length s)" using assms by (simp add: wcslen_def hook_simps)
  moreover have "wcscmp cs ct m = Inr (if s = t then 0 else if ord_class.lexordp (map sint s) (map sint t) then -1 else 1)"
    using assms by (simp add: wcscmp_def hook_simps c)
  moreover have "wcsncmp cs ct n m = Inr (let s = take (unat n) s; t = take (unat n) t
      in if s = t then 0 else if ord_class.lexordp s t then -1 else 1)"
    using assms by (simp add: wcsncmp_def hook_simps cmp_slices_lex sl Let_def mult.commute [of _ 4])
  ultimately show ?thesis by blast
qed

end
