(* ===== verification/Effects.thy ===== *)
theory Effects
  imports Prelude
begin

text \<open>
  Fallible operations on a state, as the fuzzer composes them: a step takes the state and returns
  its result, a value or the reason why it stopped, together with the new state. What a step had
  done to the state before it failed stays done, as with \<^verbatim>\<open>&mut\<close> references and the
  operator \<^verbatim>\<open>?\<close>. Control may also leave the process, when a signal handler ends it;
  this is a value of its own.
\<close>

datatype stop = Fails error | Exits

type_synonym ('w, 'a) step = "'w \<Rightarrow> (stop + 'a) \<times> 'w"

definition sret :: "'a \<Rightarrow> ('w, 'a) step" where
  "sret a = (\<lambda>w. (Inr a, w))"

definition sfail :: "error \<Rightarrow> ('w, 'a) step" where
  "sfail e = (\<lambda>w. (Inl (Fails e), w))"

definition sbind :: "('w, 'a) step \<Rightarrow> ('a \<Rightarrow> ('w, 'b) step) \<Rightarrow> ('w, 'b) step" where
  "sbind m f = (\<lambda>w. case m w of (Inl s, w') \<Rightarrow> (Inl s, w') | (Inr a, w') \<Rightarrow> f a w')"

definition sseq :: "('w, unit) step \<Rightarrow> ('w, 'b) step \<Rightarrow> ('w, 'b) step" where
  "sseq m k = sbind m (\<lambda>_. k)"

definition sget :: "('w \<Rightarrow> 'a) \<Rightarrow> ('w, 'a) step" where
  "sget f = (\<lambda>w. (Inr (f w), w))"

definition smod :: "('w \<Rightarrow> 'w) \<Rightarrow> ('w, unit) step" where
  "smod f = (\<lambda>w. (Inr (), f w))"

definition slift :: "error + 'a \<Rightarrow> ('w, 'a) step" where
  "slift r = (\<lambda>w. (map_sum Fails id r, w))"

text \<open>A step on a part of the state: \<open>get\<close> reads the part, \<open>put\<close> writes it back.\<close>

definition spart :: "('w \<Rightarrow> 's) \<Rightarrow> ('s \<Rightarrow> 'w \<Rightarrow> 'w) \<Rightarrow> ('s \<Rightarrow> (error + 'a) \<times> 's) \<Rightarrow> ('w, 'a) step" where
  "spart get put m = (\<lambda>w. case m (get w) of (r, s) \<Rightarrow> (map_sum Fails id r, put s w))"

text \<open>Running the steps of a list one after the other.\<close>

fun sforeach :: "('a \<Rightarrow> ('w, unit) step) \<Rightarrow> 'a list \<Rightarrow> ('w, unit) step" where
  "sforeach f [] = sret ()"
| "sforeach f (x # xs) = sseq (f x) (sforeach f xs)"

section \<open>What a step does\<close>

named_theorems step_simps \<open>how composed steps act on a state\<close>

lemma map_sum_eq_iff [simp]:
  "map_sum f id x = Inr y \<longleftrightarrow> x = Inr y" "map_sum f id x = Inl e \<longleftrightarrow> (\<exists>d. x = Inl d \<and> e = f d)"
  by (cases x; auto)+

lemma sret_app [step_simps]: "sret a w = (Inr a, w)"
  by (simp add: sret_def)

lemma sfail_app [step_simps]: "sfail e w = (Inl (Fails e), w)"
  by (simp add: sfail_def)

lemma sget_app [step_simps]: "sget f w = (Inr (f w), w)"
  by (simp add: sget_def)

lemma smod_app [step_simps]: "smod f w = (Inr (), f w)"
  by (simp add: smod_def)

lemma slift_app [step_simps]: "slift (Inr a) w = (Inr a, w)" "slift (Inl e) w = (Inl (Fails e), w)"
  by (simp_all add: slift_def)

lemma sbind_app: "sbind m f w = (case m w of (Inl s, w') \<Rightarrow> (Inl s, w') | (Inr a, w') \<Rightarrow> f a w')"
  by (simp add: sbind_def)

lemma sseq_app: "sseq m k w = (case m w of (Inl s, w') \<Rightarrow> (Inl s, w') | (Inr a, w') \<Rightarrow> k w')"
  by (simp add: sseq_def sbind_def)

lemma sbind_Inr: "m w = (Inr a, w') \<Longrightarrow> sbind m f w = f a w'"
  by (simp add: sbind_def)

lemma sseq_Inr: "m w = (Inr a, w') \<Longrightarrow> sseq m k w = k w'"
  by (simp add: sseq_app)

lemma spart_app: "spart get put m w = (case m (get w) of (r, s) \<Rightarrow> (map_sum Fails id r, put s w))"
  by (simp add: spart_def)

lemma spart_Inr: "m (get w) = (Inr a, s) \<Longrightarrow> spart get put m w = (Inr a, put s w)"
  by (simp add: spart_def)

lemma sbind_simps [step_simps]:
  "sbind (sret a) f = f a" "sbind (sget g) h w = h (g w) w" "sseq (smod u) k w = k (u w)"
  "sbind (sfail e) fa = sfail e" "sbind (slift (Inr b)) fb = fb b" "sbind (slift (Inl d)) fc = sfail d"
  "sseq (sret v) kb = kb"
  by (auto simp: sbind_def sseq_def sret_def sget_def smod_def sfail_def slift_def fun_eq_iff)

lemma sbind_assoc: "sbind (sbind m f) g = sbind m (\<lambda>a. sbind (f a) g)"
  by (auto simp: sbind_def fun_eq_iff split: prod.splits sum.splits)

lemma sbind_cases:
  assumes "sbind m f w = (r, w'')"
  obtains (stop) s where "m w = (Inl s, w'')" "r = Inl s"
    | (cont) a w' where "m w = (Inr a, w')" "f a w' = (r, w'')"
  using assms by (auto simp: sbind_def split: prod.splits sum.splits)

lemma sseq_cases:
  assumes "sseq m k w = (r, w'')"
  obtains (stop) s where "m w = (Inl s, w'')" "r = Inl s"
    | (cont) w' where "m w = (Inr (), w')" "k w' = (r, w'')"
  using assms by (auto simp: sseq_app split: prod.splits sum.splits)

section \<open>Steps that leave a part of the state alone\<close>

definition preserves :: "('w \<Rightarrow> 'p) \<Rightarrow> ('w, 'a) step \<Rightarrow> bool" where
  "preserves part m \<longleftrightarrow> (\<forall>w. part (snd (m w)) = part w)"

named_theorems frames \<open>which steps leave which parts of the state alone\<close>

lemma preservesD: "preserves part m \<Longrightarrow> m w = (r, w') \<Longrightarrow> part w' = part w"
  unfolding preserves_def by (metis snd_conv)

lemma preservesI: "(\<And>w r w'. m w = (r, w') \<Longrightarrow> part w' = part w) \<Longrightarrow> preserves part m"
  unfolding preserves_def by (metis prod.collapse)

lemma preserves_basic [frames]:
  "preserves part (sret a)" "preserves part (sfail e)" "preserves part (sget f)" "preserves part (slift r)"
  by (simp_all add: preserves_def sret_def sfail_def sget_def slift_def)

lemma preserves_smod [frames]: "(\<And>w. part (f w) = part w) \<Longrightarrow> preserves part (smod f)"
  by (simp add: preserves_def smod_def)

lemma preserves_sbind [frames]:
  "preserves part m \<Longrightarrow> (\<And>a. preserves part (f a)) \<Longrightarrow> preserves part (sbind m f)"
  by (auto simp: preserves_def sbind_def split: prod.splits sum.splits) (metis snd_conv)+

lemma preserves_sseq [frames]: "preserves part m \<Longrightarrow> preserves part k \<Longrightarrow> preserves part (sseq m k)"
  unfolding sseq_def by (rule preserves_sbind)

lemma preserves_spart [frames]: "(\<And>s w. part (put s w) = part w) \<Longrightarrow> preserves part (spart get put m)"
  by (auto simp: preserves_def spart_def split: prod.splits)

lemma preserves_if [frames]: "(b \<Longrightarrow> preserves part m) \<Longrightarrow> (\<not> b \<Longrightarrow> preserves part k) \<Longrightarrow> preserves part (if b then m else k)"
  by simp

lemma preserves_sforeach [frames]: "(\<And>x. x \<in> set xs \<Longrightarrow> preserves part (f x)) \<Longrightarrow> preserves part (sforeach f xs)"
  by (induction xs) (auto intro!: frames)

section \<open>Steps that do not fail\<close>

text \<open>
  \<open>safe P m Q\<close>: from a state with \<open>P\<close> the step \<open>m\<close> ends with a value, and \<open>Q\<close> holds of it and the
  new state, or the process exits; it does not end with an error.
\<close>

definition safe :: "('w \<Rightarrow> bool) \<Rightarrow> ('w, 'a) step \<Rightarrow> ('a \<Rightarrow> 'w \<Rightarrow> bool) \<Rightarrow> bool" where
  "safe P m Q \<longleftrightarrow> (\<forall>w. P w \<longrightarrow> (case m w of (Inr a, w') \<Rightarrow> Q a w' | (Inl s, w') \<Rightarrow> s = Exits))"

named_theorems safe_intros \<open>how steps that do not fail compose\<close>

lemma safeI: "(\<And>w. P w \<Longrightarrow> \<exists>a w'. m w = (Inr a, w') \<and> Q a w') \<Longrightarrow> safe P m Q"
  unfolding safe_def by fastforce

lemma safeD: "safe P m Q \<Longrightarrow> P w \<Longrightarrow> m w = (r, w') \<Longrightarrow> (\<exists>a. r = Inr a \<and> Q a w') \<or> r = Inl Exits"
  unfolding safe_def by (fastforce split: prod.splits sum.splits)

lemma safe_sret [safe_intros]: "(\<And>w. P w \<Longrightarrow> Q a w) \<Longrightarrow> safe P (sret a) Q"
  by (simp add: safe_def step_simps)

lemma safe_sget [safe_intros]: "(\<And>w. P w \<Longrightarrow> Q (f w) w) \<Longrightarrow> safe P (sget f) Q"
  by (simp add: safe_def step_simps)

lemma safe_smod [safe_intros]: "(\<And>w. P w \<Longrightarrow> Q () (f w)) \<Longrightarrow> safe P (smod f) Q"
  by (simp add: safe_def step_simps)

lemma safe_sbind: "safe P m R \<Longrightarrow> (\<And>a. safe (R a) (f a) Q) \<Longrightarrow> safe P (sbind m f) Q"
  unfolding safe_def by (fastforce simp: sbind_app split: prod.splits sum.splits)

lemma safe_sseq: "safe P m (\<lambda>_. R) \<Longrightarrow> safe R k Q \<Longrightarrow> safe P (sseq m k) Q"
  unfolding sseq_def by (rule safe_sbind)

lemma safe_weaken: "safe P m Q \<Longrightarrow> (\<And>w. P' w \<Longrightarrow> P w) \<Longrightarrow> (\<And>a w. Q a w \<Longrightarrow> Q' a w) \<Longrightarrow> safe P' m Q'"
  unfolding safe_def by (fastforce split: prod.splits sum.splits)

lemma safe_if: "(b \<Longrightarrow> safe P m Q) \<Longrightarrow> (\<not> b \<Longrightarrow> safe P k Q) \<Longrightarrow> safe P (if b then m else k) Q"
  by simp

lemma safe_sforeach:
  "(\<And>x. x \<in> set xs \<Longrightarrow> safe P (f x) (\<lambda>_. P)) \<Longrightarrow> safe P (sforeach f xs) (\<lambda>_. P)"
  by (induction xs) (auto intro!: safe_sseq safe_intros)

end
