(* ===== verification/MapFeedbacks.thy ===== *)
theory MapFeedbacks
  imports Prelude
begin

text \<open>
  Coverage maps and what the fuzzer learns from them: the bucketing of hit counts
  (\<^verbatim>\<open>libaflmm/src/observers/map/hitcount_map.rs\<close>), the reducers and the scans over maps,
  plain and in vectors (\<^verbatim>\<open>libaflmm_bolts/src/simd.rs\<close>), and the map feedback with its
  history (\<^verbatim>\<open>libaflmm/src/feedbacks/map.rs\<close>, \<^verbatim>\<open>simd.rs\<close>).

  A map is a list. The abstract view of the AFL feedback is the set of pairs of an index and a
  bucket seen by the executions that were recorded.
\<close>

section \<open>Hit counts\<close>

definition COUNT_CLASS_LOOKUP :: bytes where
  "COUNT_CLASS_LOOKUP =
     [0, 1, 2, 4] @ replicate 4 8 @ replicate 8 16 @ replicate 16 32 @ replicate 96 64 @ replicate 128 128"

text \<open>
  The table for two bytes at once is filled by two nested loops, the lower byte outside. An index
  is \<open>hi << 8 | lo\<close>.
\<close>

definition class_16 :: "nat \<Rightarrow> nat \<Rightarrow> u16" where
  "class_16 hi lo = push_bit 8 (ucast (COUNT_CLASS_LOOKUP ! hi)) OR ucast (COUNT_CLASS_LOOKUP ! lo)"

definition COUNT_CLASS_LOOKUP_16 :: "u16 list" where
  "COUNT_CLASS_LOOKUP_16 =
     fold (\<lambda>lo. fold (\<lambda>hi seq. seq[push_bit 8 hi OR lo := class_16 hi lo]) [0..<256]) [0..<256]
       (replicate (256 * 256) 0)"

text \<open>
  \<open>align_to_mut::<u16>\<close> cuts the map into a prefix, aligned pairs of bytes and a suffix; where, is up
  to the standard library, so the length of the prefix and the number of pairs are arguments. A pair
  is read and written with the least significant byte first.
\<close>

fun classify_pairs :: "bytes \<Rightarrow> bytes" where
  "classify_pairs (a # b # bs) =
     (let item = push_bit 8 (ucast b) OR ucast a :: u16; item = COUNT_CLASS_LOOKUP_16 ! unat item
      in ucast item # ucast (drop_bit 8 item) # classify_pairs bs)"
| "classify_pairs bs = bs"

definition classify_counts :: "nat \<Rightarrow> nat \<Rightarrow> bytes \<Rightarrow> bytes" where
  "classify_counts pre pairs xs =
     (let prefix = take pre xs; map16 = take (2 * pairs) (drop pre xs); suffix = drop (pre + 2 * pairs) xs
      in map (\<lambda>item. COUNT_CLASS_LOOKUP ! unat item) prefix @ classify_pairs map16 @
         map (\<lambda>item. COUNT_CLASS_LOOKUP ! unat item) suffix)"

section \<open>Reducers and novelty\<close>

definition max_reduce :: "'a::linorder \<Rightarrow> 'a \<Rightarrow> 'a" where
  "max_reduce first second = (if first > second then first else second)"

definition min_reduce :: "'a::linorder \<Rightarrow> 'a \<Rightarrow> 'a" where
  "min_reduce first second = (if first < second then first else second)"

definition nop_reduce :: "'a \<Rightarrow> 'a \<Rightarrow> 'a" where
  "nop_reduce history new = new"

definition or_reduce :: "'a::len word \<Rightarrow> 'a word \<Rightarrow> 'a word" where
  "or_reduce history new = history OR new"

definition and_reduce :: "'a::len word \<Rightarrow> 'a word \<Rightarrow> 'a word" where
  "and_reduce history new = history AND new"

definition all_is_novel :: "'a \<Rightarrow> 'a \<Rightarrow> bool" where
  "all_is_novel old new = True"

definition different_is_novel :: "'a \<Rightarrow> 'a \<Rightarrow> bool" where
  "different_is_novel old new = (old \<noteq> new)"

definition saturating_add :: "'a::len word \<Rightarrow> 'a word \<Rightarrow> 'a word" where
  "saturating_add a b = (if unat a + unat b < 2 ^ LENGTH('a) then a + b else - 1)"

definition leading_zeros :: "'a::len word \<Rightarrow> nat" where
  "leading_zeros n = length (takeWhile Not (rev (map (bit n) [0..<LENGTH('a)])))"

definition saturating_next_power_of_two :: "'a::len word \<Rightarrow> 'a word" where
  "saturating_next_power_of_two n =
     (if n \<le> 1 then 1 else saturating_add (drop_bit (leading_zeros (n - 1)) (- 1)) 1)"

definition next_pow2_is_novel :: "'a::len word \<Rightarrow> 'a word \<Rightarrow> bool" where
  "next_pow2_is_novel old new =
     (if new \<le> old then False
      else let pow2 = saturating_next_power_of_two (saturating_add old 1) in new \<ge> pow2)"

definition one_or_filled_is_novel :: "'a::len word \<Rightarrow> 'a word \<Rightarrow> bool" where
  "one_or_filled_is_novel old new = ((new = 1 \<or> new = - 1) \<and> new > old)"

section \<open>Scanning a map\<close>

text \<open>
  The loop over the entries that are not initial. The history is read without a check of the index:
  the callers make it at least as long as the map.
\<close>

fun novelty_loop :: "('a \<Rightarrow> 'a \<Rightarrow> 'a) \<Rightarrow> ('a \<Rightarrow> 'a \<Rightarrow> bool) \<Rightarrow> 'a \<Rightarrow> 'a list \<Rightarrow> nat \<Rightarrow> 'a list \<Rightarrow> bool" where
  "novelty_loop reduce is_novel initial hist i [] = False"
| "novelty_loop reduce is_novel initial hist i (item # items) =
     (if item = initial then novelty_loop reduce is_novel initial hist (Suc i) items
      else let existing = hist ! i; reduced = reduce existing item
           in if is_novel existing reduced then True
              else novelty_loop reduce is_novel initial hist (Suc i) items)"

definition covmap_is_interesting_naive :: "(u8 \<Rightarrow> u8 \<Rightarrow> u8) \<Rightarrow> bytes \<Rightarrow> bytes \<Rightarrow> bool" where
  "covmap_is_interesting_naive reduce hist xs = novelty_loop reduce (\<lambda>existing reduced. existing \<noteq> reduced) 0 hist 0 xs"

text \<open>
  A vector is the list of its lanes; what the vector library does to two vectors is an argument.
  The last lanes are compared one by one, with the arguments of the reducer the other way round.
\<close>

definition from_slice :: "nat \<Rightarrow> bytes \<Rightarrow> error + bytes" where
  "from_slice lanes arr = (if length arr < lanes then Inl Panic else Inr (take lanes arr))"

fun simd_loop :: "(bytes \<Rightarrow> bytes \<Rightarrow> bytes) \<Rightarrow> nat \<Rightarrow> bytes \<Rightarrow> bytes \<Rightarrow> nat \<Rightarrow> nat \<Rightarrow> error + bool" where
  "simd_loop reduce lanes hist xs step 0 = Inr False"
| "simd_loop reduce lanes hist xs step (Suc k) =
     (let i = step * lanes
      in rbind (from_slice lanes (drop i hist)) (\<lambda>history.
         rbind (from_slice lanes (drop i xs)) (\<lambda>items.
         let out = reduce history items
         in if out \<noteq> history then Inr True else simd_loop reduce lanes hist xs (Suc step) k)))"

fun tail_loop :: "(u8 \<Rightarrow> u8 \<Rightarrow> u8) \<Rightarrow> bytes \<Rightarrow> bytes \<Rightarrow> nat \<Rightarrow> nat \<Rightarrow> bool" where
  "tail_loop reduce hist xs j 0 = False"
| "tail_loop reduce hist xs j (Suc k) =
     (let item = xs ! j; history = hist ! j; out = reduce item history
      in if out \<noteq> history then True else tail_loop reduce hist xs (Suc j) k)"

definition covmap_is_interesting_simd ::
  "(bytes \<Rightarrow> bytes \<Rightarrow> bytes) \<Rightarrow> (u8 \<Rightarrow> u8 \<Rightarrow> u8) \<Rightarrow> nat \<Rightarrow> bytes \<Rightarrow> bytes \<Rightarrow> error + bool" where
  "covmap_is_interesting_simd vreduce reduce lanes hist xs =
     (let sz = length xs; steps = sz div lanes; left = sz mod lanes
      in rbind (simd_loop vreduce lanes hist xs 0 steps) (\<lambda>interesting.
         if \<not> interesting then Inr (tail_loop reduce hist xs (sz - left) left) else Inr True))"

definition simplify_map_naive :: "bytes \<Rightarrow> bytes" where
  "simplify_map_naive xs = map (\<lambda>it. if it = 0 then 0x1 else 0x80) xs"

text \<open>The vector operations of \<open>simplify_map_simd\<close>: lanewise comparison and selection are arguments.\<close>

fun simplify_steps :: "(bytes \<Rightarrow> bytes) \<Rightarrow> nat \<Rightarrow> nat \<Rightarrow> nat \<Rightarrow> bytes \<Rightarrow> error + bytes" where
  "simplify_steps pick lanes step 0 xs = Inr xs"
| "simplify_steps pick lanes step (Suc k) xs =
     (let i = step * lanes
      in rbind (from_slice lanes (drop i xs)) (\<lambda>mp.
         simplify_steps pick lanes (Suc step) k (take i xs @ pick mp @ drop (i + lanes) xs)))"

definition simplify_map_simd ::
  "(bytes \<Rightarrow> bytes \<Rightarrow> bytes) \<Rightarrow> (bytes \<Rightarrow> bytes \<Rightarrow> bytes \<Rightarrow> bytes) \<Rightarrow> nat \<Rightarrow> bytes \<Rightarrow> error + bytes" where
  "simplify_map_simd simd_eq select lanes xs =
     (let sz = length xs; steps = sz div lanes; left = sz mod lanes;
          lhs = replicate lanes 0x1; rhs = replicate lanes 0x80
      in rbind (simplify_steps (\<lambda>mp. select (simd_eq mp (replicate lanes 0)) lhs rhs) lanes 0 steps xs) (\<lambda>xs.
         Inr (take (sz - left) xs @ map (\<lambda>it. if it = 0 then 0x1 else 0x80) (drop (sz - left) xs))))"

section \<open>The map feedback\<close>

record 'a map_feedback_md =
  history_map :: "'a list"
  num_covered :: nat

definition map_md_new :: "'a \<Rightarrow> nat \<Rightarrow> 'a map_feedback_md" where
  "map_md_new default_elem map_size = \<lparr>history_map = replicate map_size default_elem, num_covered = 0\<rparr>"

definition map_md_with_history :: "'a list \<Rightarrow> 'a \<Rightarrow> 'a map_feedback_md" where
  "map_md_with_history history initial =
     \<lparr>history_map = history, num_covered = fold (\<lambda>x acc. acc + of_bool (x \<noteq> initial)) history 0\<rparr>"

definition map_md_reset_with_value :: "'a \<Rightarrow> 'a map_feedback_md \<Rightarrow> 'a map_feedback_md" where
  "map_md_reset_with_value v md =
     \<lparr>history_map = fold (\<lambda>i h. h[i := v]) [0..<length (history_map md)] (history_map md), num_covered = 0\<rparr>"

text \<open>Both functions of the feedback first make the history as long as the map.\<close>

definition grow_history :: "'a \<Rightarrow> nat \<Rightarrow> 'a list \<Rightarrow> 'a list" where
  "grow_history v len hist = (if length hist < len then hist @ replicate (len - length hist) v else hist)"

definition map_is_interesting ::
  "('a \<Rightarrow> 'a \<Rightarrow> 'a) \<Rightarrow> ('a \<Rightarrow> 'a \<Rightarrow> bool) \<Rightarrow> 'a \<Rightarrow> 'a list \<Rightarrow> 'a map_feedback_md \<Rightarrow> bool \<times> 'a map_feedback_md" where
  "map_is_interesting reduce is_novel initial observed md =
     (let hist = grow_history initial (length observed) (history_map md)
      in (novelty_loop reduce is_novel initial hist 0 observed, md\<lparr>history_map := hist\<rparr>))"

fun record_loop ::
  "('a \<Rightarrow> 'a \<Rightarrow> 'a) \<Rightarrow> 'a \<Rightarrow> nat \<Rightarrow> 'a list \<Rightarrow> 'a map_feedback_md \<Rightarrow> 'a map_feedback_md" where
  "record_loop reduce initial i [] md = md"
| "record_loop reduce initial i (v # vs) md =
     (if v = initial then record_loop reduce initial (Suc i) vs md
      else let val = reduce (history_map md ! i) v;
               covered = (if history_map md ! i = initial \<and> val \<noteq> initial then num_covered md + 1
                          else num_covered md)
           in record_loop reduce initial (Suc i) vs
                \<lparr>history_map = (history_map md)[i := val], num_covered = covered\<rparr>)"

text \<open>The second component is what goes to the statistics: the entries covered and the length of the map.\<close>

definition map_append_metadata ::
  "('a \<Rightarrow> 'a \<Rightarrow> 'a) \<Rightarrow> 'a \<Rightarrow> 'a list \<Rightarrow> 'a map_feedback_md \<Rightarrow> 'a map_feedback_md \<times> nat \<times> nat" where
  "map_append_metadata reduce initial observed md =
     (let md = md\<lparr>history_map := grow_history initial (length observed) (history_map md)\<rparr>;
          map_len = length (history_map md);
          md = record_loop reduce initial 0 observed md
      in (md, num_covered md, map_len))"

text \<open>The vector feedback scans the chunks of the observer; its history grows with zeros.\<close>

fun chunks_loop ::
  "(bytes \<Rightarrow> bytes \<Rightarrow> error + bool) \<Rightarrow> bytes \<Rightarrow> nat \<Rightarrow> bytes list \<Rightarrow> error + bool" where
  "chunks_loop interesting hist offset [] = Inr False"
| "chunks_loop interesting hist offset (chunk # chunks) =
     (if length hist < offset + length chunk then Inl Panic
      else rbind (interesting (take (length chunk) (drop offset hist)) chunk) (\<lambda>b.
        if b then Inr True else chunks_loop interesting hist (offset + length chunk) chunks))"

definition simd_map_is_interesting ::
  "(bytes \<Rightarrow> bytes \<Rightarrow> bytes) \<Rightarrow> (u8 \<Rightarrow> u8 \<Rightarrow> u8) \<Rightarrow> nat \<Rightarrow> bytes list \<Rightarrow> u8 map_feedback_md \<Rightarrow>
    error + bool \<times> u8 map_feedback_md" where
  "simd_map_is_interesting vreduce reduce lanes chunks md =
     (let hist = grow_history 0 (length (concat chunks)) (history_map md)
      in rbind (chunks_loop (covmap_is_interesting_simd vreduce reduce lanes) hist 0 chunks) (\<lambda>b.
         Inr (b, md\<lparr>history_map := hist\<rparr>)))"


section \<open>The bucket of a hit count\<close>

definition bucket :: "u8 \<Rightarrow> u8" where
  "bucket c = (let n = unat c in if n < 3 then of_nat n else if n < 4 then 4 else if n < 8 then 8
     else if n < 16 then 16 else if n < 32 then 32 else if n < 128 then 64 else 128)"

lemma length_lookup [simp]: "length COUNT_CLASS_LOOKUP = 256"
  by (simp add: COUNT_CLASS_LOOKUP_def)

lemma lookup_bucket: "COUNT_CLASS_LOOKUP ! unat c = bucket c"
proof -
  have "unat c < 256" using unsigned_less [of c] by simp
  then consider "unat c = 0" | "unat c = 1" | "unat c = 2" | "unat c = 3" | "4 \<le> unat c" by linarith
  then show ?thesis
  proof cases
    case 5
    then show ?thesis using \<open>unat c < 256\<close>
      by (auto simp: COUNT_CLASS_LOOKUP_def bucket_def nth_append nth_Cons' Let_def)
  qed (simp_all add: COUNT_CLASS_LOOKUP_def bucket_def)
qed

lemma fold_nested: "fold (\<lambda>x. fold (F x) ys) xs s = fold (\<lambda>(x, y). F x y) (List.product xs ys) s"
  by (induction xs arbitrary: s) (simp_all add: fold_map comp_def)

lemma nth_fold_update_other:
  "j \<notin> f ` set ks \<Longrightarrow> fold (\<lambda>k xs. xs[f k := g k]) ks xs ! j = xs ! j"
  by (induction ks arbitrary: xs) (auto simp: nth_list_update_neq)

lemma nth_fold_update:
  "distinct (map f ks) \<Longrightarrow> k \<in> set ks \<Longrightarrow> f k < length xs \<Longrightarrow> fold (\<lambda>k xs. xs[f k := g k]) ks xs ! f k = g k"
proof (induction ks arbitrary: xs)
  case (Cons l ks)
  show ?case
  proof (cases "k = l")
    case True
    with Cons.prems show ?thesis by (simp add: nth_fold_update_other)
  qed (use Cons in auto)
qed simp

lemma pair_index:
  fixes lo hi :: nat
  assumes "lo < 256"
  shows "push_bit 8 hi OR lo = hi * 256 + lo"
proof -
  have "\<not> bit lo n" if "8 \<le> n" for n
  proof -
    have "(2 :: nat) ^ 8 \<le> 2 ^ n" using that by (rule power_increasing) simp
    with assms show ?thesis by (simp add: bit_iff_odd)
  qed
  then have "push_bit 8 hi + lo = push_bit 8 hi OR lo"
    by (intro disjunctive_add) (auto simp: bit_push_bit_iff)
  then show ?thesis by (simp add: push_bit_eq_mult)
qed

lemma lookup_16:
  assumes "lo < 256" "hi < 256" shows "COUNT_CLASS_LOOKUP_16 ! (hi * 256 + lo) = class_16 hi lo"
proof -
  let ?f = "\<lambda>(lo, hi). push_bit 8 hi OR lo :: nat" and ?g = "\<lambda>(lo, hi). class_16 hi lo"
  let ?ks = "List.product [0..<256] [0..<256] :: (nat \<times> nat) list"
  have "inj_on ?f (set ?ks)"
  proof (rule inj_onI)
    fix x y assume "x \<in> set ?ks" "y \<in> set ?ks" "?f x = ?f y"
    then have e: "snd x * 256 + fst x = snd y * 256 + fst y" and b: "fst x < 256" "fst y < 256"
      by (auto simp: pair_index)
    from e b have "snd x = snd y" by linarith
    with e show "x = y" by (simp add: prod_eq_iff)
  qed
  then have d: "distinct (map ?f ?ks)" by (simp add: distinct_map distinct_product)
  have "fold (\<lambda>k xs. xs[?f k := ?g k]) ?ks (replicate (256 * 256) 0) ! ?f (lo, hi) = ?g (lo, hi)"
    by (rule nth_fold_update [OF d]) (use assms in \<open>auto simp: pair_index\<close>)
  moreover have "COUNT_CLASS_LOOKUP_16 = fold (\<lambda>k xs. xs[?f k := ?g k]) ?ks (replicate (256 * 256) 0)"
    unfolding COUNT_CLASS_LOOKUP_16_def fold_nested by (rule fold_cong) auto
  ultimately show ?thesis using assms by (simp add: pair_index)
qed

lemma unat_pair: "unat (push_bit 8 (ucast (b :: u8)) OR ucast (a :: u8) :: u16) = unat b * 256 + unat a"
proof -
  have a: "unat a < 256" and b: "unat b < 256" using unsigned_less [of a] unsigned_less [of b] by simp_all
  have u: "unat (ucast c :: u16) = unat c" for c :: u8
  proof -
    have "unat c < 2 ^ 8" using unsigned_less [of c] by simp
    also have "(2 :: nat) ^ 8 \<le> 2 ^ 16" by simp
    finally show ?thesis by (simp add: unsigned_ucast_eq take_bit_nat_eq_self)
  qed
  have "push_bit 8 (unat b) < 2 ^ 16" using b by (simp add: push_bit_eq_mult)
  then have "unat (push_bit 8 (ucast b :: u16)) = push_bit 8 (unat b)"
    by (simp add: unsigned_push_bit_eq u take_bit_nat_eq_self)
  then have "unat (push_bit 8 (ucast b) OR ucast a :: u16) = push_bit 8 (unat b) OR unat a"
    by (simp add: unsigned_or_eq u)
  then show ?thesis using a by (simp add: pair_index)
qed

lemma class_16_bytes:
  "ucast (class_16 hi lo) = COUNT_CLASS_LOOKUP ! lo" "ucast (drop_bit 8 (class_16 hi lo)) = COUNT_CLASS_LOOKUP ! hi"
proof -
  have "\<not> bit (x :: u8) (8 + n)" for x n using bit_imp_le_length [of x "8 + n"] by auto
  then show "ucast (class_16 hi lo) = COUNT_CLASS_LOOKUP ! lo" "ucast (drop_bit 8 (class_16 hi lo)) = COUNT_CLASS_LOOKUP ! hi"
    by (auto intro!: bit_eqI simp: class_16_def bit_simps)
qed

lemma classify_pairs_bucket: "even (length xs) \<Longrightarrow> classify_pairs xs = map bucket xs"
proof (induction xs rule: classify_pairs.induct)
  case (1 a b bs)
  have "unat a < 256" "unat b < 256" using unsigned_less [of a] unsigned_less [of b] by simp_all
  then have "COUNT_CLASS_LOOKUP_16 ! unat (push_bit 8 (ucast b) OR ucast a :: u16) = class_16 (unat b) (unat a)"
    unfolding unat_pair by (rule lookup_16)
  with 1 show ?case by (simp add: class_16_bytes lookup_bucket)
qed simp_all


lemma classify_counts_eq:
  assumes "pre + 2 * pairs \<le> length xs"
  shows "classify_counts pre pairs xs = map bucket xs"
proof -
  have "length (take (2 * pairs) (drop pre xs)) = 2 * pairs" using assms by simp
  then have "even (length (take (2 * pairs) (drop pre xs)))" by (simp only: even_mult_iff even_numeral simp_thms)
  moreover have "xs = take pre xs @ take (2 * pairs) (drop pre xs) @ drop (pre + 2 * pairs) xs"
    by (metis append_take_drop_id add.commute drop_drop)
  then have "map bucket xs = map bucket (take pre xs) @ map bucket (take (2 * pairs) (drop pre xs)) @
    map bucket (drop (pre + 2 * pairs) xs)" by (metis map_append)
  ultimately show ?thesis by (simp add: classify_counts_def classify_pairs_bucket lookup_bucket)
qed

text \<open>
  However the standard library cuts the map into single bytes and pairs, the classification
  replaces every count by its bucket.
\<close>

theorem counts_are_bucketed:
  assumes "pre + 2 * pairs \<le> length xs"
  shows "classify_counts pre pairs xs = map bucket xs"
  using assms by (rule classify_counts_eq)

theorem counts_are_bucketed_witness: "classify_counts 1 2 [0, 3, 4, 200, 17, 9] = [0, 4, 8, 128, 32, 16]"
  using counts_are_bucketed [of 1 2 "[0, 3, 4, 200, 17, 9]"] by (simp add: bucket_def)

section \<open>Scans\<close>

lemma novelty_loop_iff:
  "novelty_loop reduce is_novel initial hist i items \<longleftrightarrow>
    (\<exists>k<length items. items ! k \<noteq> initial \<and> is_novel (hist ! (i + k)) (reduce (hist ! (i + k)) (items ! k)))"
  by (induction reduce is_novel initial hist i items rule: novelty_loop.induct)
    (auto simp: Let_def less_Suc_eq_0_disj)

lemma tail_loop_iff:
  "tail_loop reduce hist xs j k \<longleftrightarrow> (\<exists>l<k. reduce (xs ! (j + l)) (hist ! (j + l)) \<noteq> hist ! (j + l))"
  by (induction reduce hist xs j k rule: tail_loop.induct) (auto simp: Let_def less_Suc_eq_0_disj)

text \<open>The vector library works lane by lane.\<close>

definition lanewise :: "nat \<Rightarrow> (bytes \<Rightarrow> bytes \<Rightarrow> bytes) \<Rightarrow> (u8 \<Rightarrow> u8 \<Rightarrow> u8) \<Rightarrow> bool" where
  "lanewise lanes vreduce reduce \<longleftrightarrow>
     (\<forall>xs ys. length xs = lanes \<and> length ys = lanes \<longrightarrow> vreduce xs ys = map2 reduce xs ys)"

lemma map2_eq_left: "length xs = length ys \<Longrightarrow> map2 f xs ys \<noteq> xs \<longleftrightarrow> (\<exists>k<length xs. f (xs ! k) (ys ! k) \<noteq> xs ! k)"
  by (auto simp: list_eq_iff_nth_eq)

lemma ex_range_split:
  fixes a b c :: nat
  assumes "a \<le> b" "b \<le> c"
  shows "(\<exists>j. a \<le> j \<and> j < b \<and> P j) \<or> (\<exists>j. b \<le> j \<and> j < c \<and> P j) \<longleftrightarrow> (\<exists>j. a \<le> j \<and> j < c \<and> P j)"
  using assms by (metis le_trans less_le_trans not_less)

lemma simd_loop_eq:
  assumes "lanewise lanes vreduce reduce" "length xs \<le> length hist" "(step + k) * lanes \<le> length xs"
  shows "simd_loop vreduce lanes hist xs step k =
    Inr (\<exists>j. step * lanes \<le> j \<and> j < (step + k) * lanes \<and> reduce (hist ! j) (xs ! j) \<noteq> hist ! j)"
  using assms(3)
proof (induction k arbitrary: step)
  case (Suc k)
  let ?h = "take lanes (drop (step * lanes) hist)" and ?x = "take lanes (drop (step * lanes) xs)"
  have len: "step * lanes + lanes \<le> length xs" using Suc.prems by (simp add: algebra_simps)
  then have len': "\<not> length xs - step * lanes < lanes" "\<not> length hist - step * lanes < lanes"
    using assms(2) by arith+
  then have l: "length ?h = lanes" "length ?x = lanes" by simp_all
  have "vreduce ?h ?x \<noteq> ?h \<longleftrightarrow> (\<exists>l<lanes. reduce (?h ! l) (?x ! l) \<noteq> ?h ! l)"
    using assms(1) l map2_eq_left [of ?h ?x reduce] by (simp add: lanewise_def)
  also have "\<dots> \<longleftrightarrow> (\<exists>j. step * lanes \<le> j \<and> j < step * lanes + lanes \<and> reduce (hist ! j) (xs ! j) \<noteq> hist ! j)"
    using len assms(2) by (auto simp: le_iff_add)
  finally have head: "vreduce ?h ?x \<noteq> ?h \<longleftrightarrow>
    (\<exists>j. step * lanes \<le> j \<and> j < step * lanes + lanes \<and> reduce (hist ! j) (xs ! j) \<noteq> hist ! j)" .
  have "simd_loop vreduce lanes hist xs (Suc step) k =
    Inr (\<exists>j. Suc step * lanes \<le> j \<and> j < (Suc step + k) * lanes \<and> reduce (hist ! j) (xs ! j) \<noteq> hist ! j)"
    using Suc by (simp add: algebra_simps)
  then have "simd_loop vreduce lanes hist xs step (Suc k) = Inr (vreduce ?h ?x \<noteq> ?h \<or>
    (\<exists>j. Suc step * lanes \<le> j \<and> j < (Suc step + k) * lanes \<and> reduce (hist ! j) (xs ! j) \<noteq> hist ! j))"
    using len' by (simp add: from_slice_def Let_def)
  moreover have "step * lanes + lanes \<le> (step + Suc k) * lanes" "Suc step * lanes = step * lanes + lanes"
    "(Suc step + k) * lanes = (step + Suc k) * lanes" by (simp_all add: algebra_simps)
  ultimately show ?case
    using ex_range_split [of "step * lanes" "step * lanes + lanes" "(step + Suc k) * lanes"
      "\<lambda>j. reduce (hist ! j) (xs ! j) \<noteq> hist ! j"] by (simp only: head le_add1 simp_thms)
qed simp


lemma covmap_simd_iff:
  assumes "0 < lanes" "lanewise lanes vreduce reduce" "length xs \<le> length hist" "\<forall>x y. reduce x y = reduce y x"
  shows "covmap_is_interesting_simd vreduce reduce lanes hist xs =
    Inr (\<exists>j<length xs. reduce (hist ! j) (xs ! j) \<noteq> hist ! j)"
proof -
  let ?P = "\<lambda>j. reduce (hist ! j) (xs ! j) \<noteq> hist ! j"
  let ?b = "length xs div lanes * lanes"
  have b: "?b \<le> length xs" by simp
  have left: "length xs - length xs mod lanes = ?b" by (simp add: minus_mod_eq_div_mult)
  have "tail_loop reduce hist xs ?b (length xs mod lanes) \<longleftrightarrow> (\<exists>l<length xs mod lanes. ?P (?b + l))"
    unfolding tail_loop_iff using assms(4) by metis
  also have "\<dots> \<longleftrightarrow> (\<exists>j. ?b \<le> j \<and> j < length xs \<and> ?P j)"
  proof
    assume "\<exists>l<length xs mod lanes. ?P (?b + l)"
    then obtain l where "l < length xs mod lanes" "?P (?b + l)" by blast
    moreover from this(1) have "?b + l < length xs" using div_mult_mod_eq [of "length xs" lanes] by linarith
    ultimately show "\<exists>j. ?b \<le> j \<and> j < length xs \<and> ?P j" by (metis le_add1)
  next
    assume "\<exists>j. ?b \<le> j \<and> j < length xs \<and> ?P j"
    then obtain j where "?b \<le> j" "j < length xs" "?P j" by blast
    moreover from this(1,2) have "j - ?b < length xs mod lanes"
      using div_mult_mod_eq [of "length xs" lanes] by linarith
    ultimately show "\<exists>l<length xs mod lanes. ?P (?b + l)" by (metis le_add_diff_inverse)
  qed
  finally have tail: "tail_loop reduce hist xs ?b (length xs mod lanes) \<longleftrightarrow> (\<exists>j. ?b \<le> j \<and> j < length xs \<and> ?P j)" .
  have loop: "simd_loop vreduce lanes hist xs 0 (length xs div lanes) = Inr (\<exists>j. 0 \<le> j \<and> j < ?b \<and> ?P j)"
    using simd_loop_eq [OF assms(2,3), of 0 "length xs div lanes"] by simp
  have "covmap_is_interesting_simd vreduce reduce lanes hist xs =
    Inr ((\<exists>j. 0 \<le> j \<and> j < ?b \<and> ?P j) \<or> (\<exists>j. ?b \<le> j \<and> j < length xs \<and> ?P j))"
    using loop tail unfolding covmap_is_interesting_simd_def left Let_def by auto
  then show ?thesis using ex_range_split [of 0 ?b "length xs" ?P] b by simp
qed

lemma covmap_naive_iff:
  assumes "\<forall>h. reduce h 0 = h"
  shows "covmap_is_interesting_naive reduce hist xs \<longleftrightarrow> (\<exists>j<length xs. reduce (hist ! j) (xs ! j) \<noteq> hist ! j)"
  unfolding covmap_is_interesting_naive_def novelty_loop_iff using assms by (metis add_0)

lemma reducers_neutral: "max_reduce (h :: u8) 0 = h" "or_reduce (h :: u8) 0 = h"
  by (auto simp: max_reduce_def or_reduce_def not_less)

lemma reducers_commute: "max_reduce (x :: u8) y = max_reduce y x" "or_reduce (x :: u8) y = or_reduce y x"
  by (auto simp: max_reduce_def or_reduce_def or.commute)

text \<open>
  C23. For the maximum and for the bitwise or, the scan in vectors of any width answers as the plain
  loop over the entries that are not zero.
\<close>

theorem vector_scan_is_plain_scan:
  assumes "0 < lanes" "lanewise lanes vmax max_reduce" "lanewise lanes vor or_reduce" "length xs \<le> length hist"
  shows "covmap_is_interesting_simd vmax max_reduce lanes hist xs = Inr (covmap_is_interesting_naive max_reduce hist xs) \<and>
    covmap_is_interesting_simd vor or_reduce lanes hist xs = Inr (covmap_is_interesting_naive or_reduce hist xs)"
  using covmap_simd_iff [OF assms(1,2,4)] covmap_simd_iff [OF assms(1,3,4)]
  by (simp add: covmap_naive_iff reducers_neutral reducers_commute)

theorem vector_scan_is_plain_scan_witness:
  "covmap_is_interesting_simd (map2 max_reduce) max_reduce 2 [1, 5, 3] [0, 4, 7] = Inr True \<and>
    covmap_is_interesting_simd (map2 or_reduce) or_reduce 2 [1, 5, 3] [0, 4, 1] = Inr False"
  using vector_scan_is_plain_scan [of 2 "map2 max_reduce" "map2 or_reduce" "[0, 4, 7]" "[1, 5, 3]"]
    vector_scan_is_plain_scan [of 2 "map2 max_reduce" "map2 or_reduce" "[0, 4, 1]" "[1, 5, 3]"]
  by (simp add: lanewise_def covmap_is_interesting_naive_def max_reduce_def or_reduce_def)

text \<open>
  The other reducers differ: the vectors also reduce entries that are zero, so a minimum of a
  history above zero is always a change, and the last lanes hand the history to the reducer that
  returns its second argument.
\<close>

lemma vector_scan_differs:
  "covmap_is_interesting_simd (map2 min_reduce) min_reduce 2 [5, 5] [0, 7] = Inr True"
  "\<not> covmap_is_interesting_naive min_reduce [5, 5] [0, 7]"
  "covmap_is_interesting_simd (map2 nop_reduce) nop_reduce 2 [0] [1] = Inr False"
  "covmap_is_interesting_naive nop_reduce [0] [1]"
  by (simp_all add: covmap_is_interesting_simd_def covmap_is_interesting_naive_def from_slice_def
    min_reduce_def nop_reduce_def Let_def)

section \<open>The history\<close>

definition covered_count :: "'a \<Rightarrow> 'a list \<Rightarrow> nat" where
  "covered_count initial hist = length (filter (\<lambda>x. x \<noteq> initial) hist)"

definition md_ok :: "'a \<Rightarrow> 'a map_feedback_md \<Rightarrow> bool" where
  "md_ok initial md \<longleftrightarrow> num_covered md = covered_count initial (history_map md)"

lemma covered_update:
  "i < length h \<Longrightarrow> covered_count v0 (h[i := v]) + of_bool (h ! i \<noteq> v0) = covered_count v0 h + of_bool (v \<noteq> v0)"
proof (induction h arbitrary: i)
  case (Cons a h)
  show ?case
  proof (cases i)
    case (Suc k)
    with Cons.prems have "covered_count v0 (h[k := v]) + of_bool (h ! k \<noteq> v0) = covered_count v0 h + of_bool (v \<noteq> v0)"
      by (intro Cons.IH) simp
    with Suc show ?thesis by (simp add: covered_count_def)
  qed (simp add: covered_count_def)
qed simp

lemma covered_grow [simp]: "covered_count v (grow_history v n h) = covered_count v h"
  by (simp add: covered_count_def grow_history_def)

lemma length_grow [simp]: "length (grow_history v n h) = max n (length h)"
  by (simp add: grow_history_def)

lemma nth_grow: "i < max n (length h) \<Longrightarrow> grow_history v n h ! i = (if i < length h then h ! i else v)"
  by (auto simp: grow_history_def nth_append)

lemma record_loop_length [simp]: "length (history_map (record_loop reduce v0 i vs md)) = length (history_map md)"
  by (induction reduce v0 i vs md rule: record_loop.induct) (simp_all add: Let_def)

lemma record_loop_nth:
  "j < length (history_map md) \<Longrightarrow> history_map (record_loop reduce v0 i vs md) ! j =
    (if i \<le> j \<and> j < i + length vs \<and> vs ! (j - i) \<noteq> v0
     then reduce (history_map md ! j) (vs ! (j - i)) else history_map md ! j)"
proof (induction vs arbitrary: i md)
  case (Cons v vs)
  show ?case
  proof (cases "j = i")
    case False
    then show ?thesis using Cons by (cases "i < j") (auto simp: Let_def nth_Cons' not_less)
  qed (use Cons in \<open>simp add: Let_def\<close>)
qed auto

lemma record_loop_ok:
  assumes "\<forall>h v. v \<noteq> v0 \<and> reduce h v = v0 \<longrightarrow> h = v0"
  shows "md_ok v0 md \<Longrightarrow> i + length vs \<le> length (history_map md) \<Longrightarrow> md_ok v0 (record_loop reduce v0 i vs md)"
proof (induction vs arbitrary: i md)
  case (Cons v vs)
  show ?case
  proof (cases "v = v0")
    case False
    let ?h = "history_map md" let ?val = "reduce (?h ! i) v"
    have i: "i < length ?h" using Cons.prems by simp
    have "?val = v0 \<Longrightarrow> ?h ! i = v0" using assms False by blast
    with covered_update [OF i, of v0 ?val] Cons.prems(1)
    have "md_ok v0 \<lparr>history_map = ?h[i := ?val],
        num_covered = (if ?h ! i = v0 \<and> ?val \<noteq> v0 then num_covered md + 1 else num_covered md)\<rparr>"
      by (cases "?h ! i = v0"; cases "?val = v0") (auto simp: md_ok_def)
    with Cons.IH [of _ "Suc i"] Cons.prems(2) False show ?thesis by (simp add: Let_def)
  qed (use Cons in simp)
qed simp


lemma append_history:
  "history_map (fst (map_append_metadata reduce v0 obs md)) ! j =
    (let h = grow_history v0 (length obs) (history_map md) ! j
     in if j < length obs \<and> obs ! j \<noteq> v0 then reduce h (obs ! j) else h)"
  if "j < max (length obs) (length (history_map md))"
  using that by (simp add: map_append_metadata_def Let_def record_loop_nth)

lemma append_length [simp]:
  "length (history_map (fst (map_append_metadata reduce v0 obs md))) = max (length obs) (length (history_map md))"
  by (simp add: map_append_metadata_def Let_def)

lemma interesting_iff:
  "fst (map_is_interesting reduce is_novel v0 obs md) \<longleftrightarrow>
    (\<exists>j<length obs. obs ! j \<noteq> v0 \<and> (let h = grow_history v0 (length obs) (history_map md) ! j
      in is_novel h (reduce h (obs ! j))))"
  by (auto simp: map_is_interesting_def novelty_loop_iff Let_def)



section \<open>What the AFL feedback learns\<close>

text \<open>
  The recorded executions, as the hit counts of each, and what the feedback is shown of one of them;
  the abstract view is the set of pairs of an index and a bucket.
\<close>

definition afl_observe :: "bytes \<Rightarrow> bytes" where
  "afl_observe counts = classify_counts 0 (length counts div 2) counts"

definition afl_history :: "bytes list \<Rightarrow> u8 map_feedback_md" where
  "afl_history runs = fold (\<lambda>r md. fst (map_append_metadata or_reduce 0 (afl_observe r) md)) runs (map_md_new 0 0)"

definition seen_buckets :: "bytes list \<Rightarrow> (nat \<times> u8) set" where
  "seen_buckets runs = {(i, bucket (r ! i)) | r i. r \<in> set runs \<and> i < length r}"

lemma afl_observe: "afl_observe counts = map bucket counts"
  unfolding afl_observe_def by (rule classify_counts_eq) simp

lemma bucket_zero [simp]: "bucket c = 0 \<longleftrightarrow> c = 0"
  by (auto simp: bucket_def Let_def)

lemma bucket_power:
  assumes "c \<noteq> 0" obtains m where "bucket c = 2 ^ m" "m < 8"
proof -
  have "unat c \<noteq> 0" using assms by (simp add: unat_eq_0)
  then consider "unat c = 1" | "unat c = 2" | "unat c \<ge> 3" by linarith
  then have "\<exists>m<8. bucket c = 2 ^ m"
  proof cases
    case 1 then show ?thesis by (intro exI [of _ 0]) (simp add: bucket_def)
  next
    case 2 then show ?thesis by (intro exI [of _ 1]) (simp add: bucket_def)
  next
    case 3
    then have "bucket c = 2 ^ 2 \<or> bucket c = 2 ^ 3 \<or> bucket c = 2 ^ 4 \<or> bucket c = 2 ^ 5 \<or> bucket c = 2 ^ 6 \<or> bucket c = 2 ^ 7"
      by (simp add: bucket_def Let_def)
    moreover have "2 < (8 :: nat)" "3 < (8 :: nat)" "4 < (8 :: nat)" "5 < (8 :: nat)" "6 < (8 :: nat)" "7 < (8 :: nat)"
      by simp_all
    ultimately show ?thesis by blast
  qed
  with that show thesis by blast
qed

lemma bucket_bit: "bit (bucket c) m \<longleftrightarrow> m < 8 \<and> bucket c = 2 ^ m"
proof (cases "c = 0")
  case True
  then have "bucket c = 0" by (simp only: bucket_zero)
  moreover have "(2 :: u8) ^ m \<noteq> 0" if "m < 8" using that by simp
  ultimately show ?thesis by (metis bit_0_eq bot_apply bot_bool_def)
next
  case False
  then obtain k where k: "bucket c = 2 ^ k" "k < 8" by (rule bucket_power)
  have b: "bit (2 ^ j :: u8) n \<longleftrightarrow> n = j" if "j < 8" for j n using that by (auto simp: bit_simps)
  show ?thesis using k b [OF k(2), of m] b [of m m] by metis
qed

lemma append_or_bit:
  "j < max (length obs) (length (history_map md)) \<Longrightarrow>
    bit (history_map (fst (map_append_metadata or_reduce 0 obs md)) ! j) m \<longleftrightarrow>
      (j < length (history_map md) \<and> bit (history_map md ! j) m) \<or> (j < length obs \<and> bit (obs ! j) m)"
  by (auto simp: append_history nth_grow or_reduce_def bit_or_iff Let_def)

lemma afl_history_snoc:
  "afl_history (runs @ [r]) = fst (map_append_metadata or_reduce 0 (map bucket r) (afl_history runs))"
  by (simp add: afl_history_def afl_observe)

lemma afl_history_length: "r \<in> set runs \<Longrightarrow> length r \<le> length (history_map (afl_history runs))"
  by (induction runs rule: rev_induct) (auto simp: afl_history_snoc)

lemma afl_history_bit:
  "i < length (history_map (afl_history runs)) \<Longrightarrow>
    bit (history_map (afl_history runs) ! i) m \<longleftrightarrow> (\<exists>r\<in>set runs. i < length r \<and> bit (bucket (r ! i)) m)"
proof (induction runs rule: rev_induct)
  case Nil
  then show ?case by (simp add: afl_history_def map_md_new_def)
next
  case (snoc r runs)
  then have i: "i < max (length (map bucket r)) (length (history_map (afl_history runs)))"
    by (simp add: afl_history_snoc)
  show ?case
  proof (cases "i < length (history_map (afl_history runs))")
    case True
    then show ?thesis using append_or_bit [OF i] snoc.IH by (auto simp: afl_history_snoc)
  next
    case False
    then have "\<not> i < length r'" if "r' \<in> set runs" for r' using afl_history_length [OF that] by linarith
    then show ?thesis using append_or_bit [OF i] False by (auto simp: afl_history_snoc)
  qed
qed



text \<open>The feedback that maximises has seen, at each entry, the largest value recorded.\<close>

definition max_history :: "'a::{linorder, zero} list list \<Rightarrow> 'a map_feedback_md" where
  "max_history runs = fold (\<lambda>r md. fst (map_append_metadata max_reduce 0 r md)) runs (map_md_new 0 0)"

lemma max_history_snoc: "max_history (runs @ [r]) = fst (map_append_metadata max_reduce 0 r (max_history runs))"
  by (simp add: max_history_def)

lemma max_history_length: "r \<in> set runs \<Longrightarrow> length r \<le> length (history_map (max_history runs))"
  by (induction runs rule: rev_induct) (auto simp: max_history_snoc)

lemma max_history_less:
  assumes "\<forall>x :: 'a::{linorder, zero}. 0 \<le> x" "(0 :: 'a) < v"
  shows "i < length (history_map (max_history runs)) \<Longrightarrow>
    history_map (max_history runs) ! i < v \<longleftrightarrow> (\<forall>r\<in>set runs. i < length r \<longrightarrow> r ! i < v)"
proof (induction runs rule: rev_induct)
  case Nil
  then show ?case by (simp add: max_history_def map_md_new_def)
next
  case (snoc r runs)
  let ?h = "history_map (max_history runs)"
  have i: "i < max (length r) (length ?h)" using snoc.prems by (simp add: max_history_snoc)
  have old: "grow_history 0 (length r) ?h ! i < v \<longleftrightarrow> (\<forall>r\<in>set runs. i < length r \<longrightarrow> r ! i < v)"
  proof (cases "i < length ?h")
    case True
    then show ?thesis using snoc.IH i by (simp add: nth_grow)
  next
    case False
    then have "\<forall>r\<in>set runs. \<not> i < length r" using max_history_length by (meson less_le_trans)
    then show ?thesis using False i assms(2) by (simp add: nth_grow)
  qed
  have "history_map (max_history (runs @ [r])) ! i < v \<longleftrightarrow>
    grow_history 0 (length r) ?h ! i < v \<and> (i < length r \<longrightarrow> r ! i < v)"
    using append_history [OF i] assms by (auto simp: max_history_snoc Let_def max_reduce_def not_less)
  then show ?case using old by auto
qed

text \<open>
  The feedback that maximises, after any sequence of recorded executions: an execution is
  interesting exactly when at some entry it exceeds all of them.
\<close>

theorem max_feedback_sees_new_maxima:
  assumes "\<forall>x :: 'a::{linorder, zero}. 0 \<le> x"
  shows "fst (map_is_interesting max_reduce different_is_novel 0 obs (max_history runs)) \<longleftrightarrow>
    (\<exists>i<length obs. 0 < obs ! i \<and> (\<forall>r\<in>set runs. i < length r \<longrightarrow> r ! i < (obs ! i :: 'a)))"
proof -
  let ?hist = "history_map (max_history runs)"
  have "max_reduce h v \<noteq> h \<longleftrightarrow> (\<forall>r\<in>set runs. i < length r \<longrightarrow> r ! i < v)"
    if i: "i < length obs" and v: "0 < v" and h: "h = grow_history 0 (length obs) ?hist ! i" for i h and v :: 'a
  proof -
    have "max_reduce h v \<noteq> h \<longleftrightarrow> h < v" by (auto simp: max_reduce_def)
    also have "\<dots> \<longleftrightarrow> (\<forall>r\<in>set runs. i < length r \<longrightarrow> r ! i < v)"
    proof (cases "i < length ?hist")
      case True
      then show ?thesis using max_history_less [OF assms v True] i by (simp add: h nth_grow)
    next
      case False
      then have "\<forall>r\<in>set runs. \<not> i < length r" using max_history_length by (meson less_le_trans)
      then show ?thesis using False i v by (simp add: h nth_grow)
    qed
    finally show ?thesis .
  qed
  moreover have "0 < x \<longleftrightarrow> x \<noteq> 0" for x :: 'a using assms by (metis order.not_eq_order_implies_strict order_less_irrefl)
  ultimately show ?thesis
    by (auto simp: interesting_iff different_is_novel_def Let_def) metis+
qed

theorem max_feedback_sees_new_maxima_witness:
  "\<not> fst (map_is_interesting max_reduce different_is_novel 0 [3, 0, 7 :: u8] (max_history [[5, 1], [2, 0, 9]])) \<and>
    fst (map_is_interesting max_reduce different_is_novel 0 [3, 2, 7 :: u8] (max_history [[5, 1], [2, 0, 9]]))"
proof -
  have "\<forall>x :: u8. 0 \<le> x" by simp
  note max = max_feedback_sees_new_maxima [OF this, where runs = "[[5, 1], [2, 0, 9]]"]
  have "\<not> fst (map_is_interesting max_reduce different_is_novel 0 [3, 0, 7 :: u8] (max_history [[5, 1], [2, 0, 9]]))"
    unfolding max by (auto simp: nth_Cons' split: if_splits)
  moreover have "fst (map_is_interesting max_reduce different_is_novel 0 [3, 2, 7 :: u8] (max_history [[5, 1], [2, 0, 9]]))"
    unfolding max by (intro exI [of _ 1]) auto
  ultimately show ?thesis by blast
qed

section \<open>Novelty by powers of two\<close>

lemma unat_max: "unat (- 1 :: 'a::len word) = 2 ^ LENGTH('a) - 1"
  by (simp add: unsigned_minus_1_eq_mask mask_eq_exp_minus_1)

lemma unat_two_power: "k < LENGTH('a) \<Longrightarrow> unat (2 ^ k :: 'a::len word) = 2 ^ k"
  by (auto intro!: bit_eqI simp: bit_simps bit_unsigned_iff)

lemma unat_mask_nat: "k \<le> LENGTH('a) \<Longrightarrow> unat (mask k :: 'a::len word) = mask k"
  by (auto intro!: bit_eqI simp: bit_simps bit_unsigned_iff)

lemma leading_zeros_bound:
  fixes n :: "'a::len word"
  assumes "n \<noteq> 0"
  shows "leading_zeros n < LENGTH('a)" "bit n (LENGTH('a) - 1 - leading_zeros n)"
    "\<And>k. LENGTH('a) - 1 - leading_zeros n < k \<Longrightarrow> \<not> bit n k"
proof -
  let ?bs = "rev (map (bit n) [0..<LENGTH('a)])"
  have len: "length ?bs = LENGTH('a)" by simp
  have at: "?bs ! i = bit n (LENGTH('a) - 1 - i)" if "i < LENGTH('a)" for i
    using that by (simp add: rev_nth)
  have ex: "\<exists>b\<in>set ?bs. \<not> Not b" using assms by (auto simp: bit_eq_iff dest: bit_imp_le_length)
  then show lt: "leading_zeros n < LENGTH('a)"
    unfolding leading_zeros_def
    by (metis ex takeWhile_eq_all_conv takeWhile_eq_take take_all order_refl length_takeWhile_le le_neq_implies_less len)
  have "\<not> Not (?bs ! leading_zeros n)"
    using nth_length_takeWhile [of Not ?bs] lt len unfolding leading_zeros_def by simp
  then show "bit n (LENGTH('a) - 1 - leading_zeros n)" using at [OF lt] by simp
  show "\<not> bit n k" if "LENGTH('a) - 1 - leading_zeros n < k" for k
  proof (cases "k < LENGTH('a)")
    case True
    then have i: "LENGTH('a) - 1 - k < leading_zeros n" using that lt by linarith
    then have "Not (?bs ! (LENGTH('a) - 1 - k))"
      unfolding leading_zeros_def by (metis nth_mem set_takeWhileD takeWhile_nth)
    then show ?thesis using at [of "LENGTH('a) - 1 - k"] True by simp
  qed (use bit_imp_le_length in blast)
qed


lemma leading_zeros_log:
  fixes n :: "'a::len word"
  assumes "n \<noteq> 0" defines "h \<equiv> LENGTH('a) - 1 - leading_zeros n"
  shows "h < LENGTH('a)" "2 ^ h \<le> unat n" "unat n < 2 ^ (h + 1)" "leading_zeros n = LENGTH('a) - 1 - h"
proof -
  note lz = leading_zeros_bound [OF assms(1)]
  show "h < LENGTH('a)" "leading_zeros n = LENGTH('a) - 1 - h" using lz(1) by (auto simp: h_def)
  have "bit (unat n) h" using lz(2) by (simp add: h_def bit_unsigned_iff)
  then have "unat n div 2 ^ h \<noteq> 0" by (metis bit_iff_odd even_zero)
  then show "2 ^ h \<le> unat n" by (metis div_less not_less)
  have "take_bit (h + 1) (unat n) = unat n"
  proof -
    have "k < h + 1" if "bit n k" for k using lz(3) [folded h_def, of k] that by (cases "h < k") auto
    then show ?thesis by (intro bit_eqI) (auto simp: bit_take_bit_iff bit_unsigned_iff)
  qed
  then show "unat n < 2 ^ (h + 1)" by (metis take_bit_nat_less_exp)
qed

lemma next_power_of_two:
  fixes old :: "'a::len word"
  assumes "old \<noteq> 0" "old \<noteq> - 1" defines "h \<equiv> LENGTH('a) - 1 - leading_zeros old"
  shows "saturating_next_power_of_two (saturating_add old 1) =
    (if h + 1 < LENGTH('a) then 2 ^ (h + 1) else - 1)"
proof -
  note log = leading_zeros_log [OF assms(1), folded h_def]
  have "unat old \<noteq> 2 ^ LENGTH('a) - 1" using assms(2) by (metis unat_max word_unat_eq_iff)
  then have lt: "unat old + 1 < 2 ^ LENGTH('a)"
    using unsigned_less [of old, where ?'a = nat] by linarith
  then have sum: "saturating_add old 1 = old + 1" by (auto simp: saturating_add_def)
  have "unat (old + 1) = unat old + 1" using lt unat_add_lem [of old 1] by simp
  moreover have "unat old \<noteq> 0" using assms(1) by (simp add: unat_eq_0)
  ultimately have "\<not> old + 1 \<le> 1" by (simp add: word_le_nat_alt)
  moreover have "drop_bit (leading_zeros old) (- 1 :: 'a word) = mask (h + 1)"
    using log(1,4) by (auto intro!: bit_eqI simp: bit_drop_bit_eq bit_mask_iff bit_simps)
  ultimately have np: "saturating_next_power_of_two (saturating_add old 1) = saturating_add (mask (h + 1)) 1"
    by (simp add: saturating_next_power_of_two_def sum)
  show ?thesis
  proof (cases "h + 1 < LENGTH('a)")
    case True
    then have "unat (mask (h + 1) :: 'a word) = 2 ^ (h + 1) - 1" 
      by (subst unat_mask_nat) (simp_all add: mask_eq_exp_minus_1)
    moreover have "(2 :: nat) ^ (h + 1) < 2 ^ LENGTH('a)" using True by (intro power_strict_increasing) simp_all
    moreover have "(1 :: nat) \<le> 2 ^ (h + 1)" by (rule one_le_power) simp
    ultimately have "unat (mask (h + 1) :: 'a word) + unat (1 :: 'a word) < 2 ^ LENGTH('a)" by simp
    then have "saturating_add (mask (h + 1)) 1 = (mask (h + 1) + 1 :: 'a word)" by (simp only: saturating_add_def if_True)
    with np True show ?thesis by (simp add: mask_eq_exp_minus_1)
  next
    case False
    then have "h + 1 = LENGTH('a)" using log(1) by linarith
    then have "mask (h + 1) = (- 1 :: 'a word)" by (metis mask_eq_take_bit_minus_one take_bit_length_eq)
    moreover have "\<not> unat (- 1 :: 'a word) + unat (1 :: 'a word) < 2 ^ LENGTH('a)" by (simp add: unat_max)
    ultimately have "saturating_add (mask (h + 1)) 1 = (- 1 :: 'a word)" by (simp only: saturating_add_def if_False)
    with np False show ?thesis by simp
  qed
qed

text \<open>
  The novelty by powers of two: the new value has to reach a power of two that the old one is
  below; where there is none left, the largest value of the type does.
\<close>

theorem next_pow2_novelty:
  "next_pow2_is_novel (old :: 'a::len word) new \<longleftrightarrow>
    old < new \<and> ((\<exists>k. unat old < 2 ^ k \<and> 2 ^ k \<le> unat new) \<or> new = - 1)"
proof (cases "old < new")
  case True
  then have top: "old \<noteq> - 1" by (metis word_order.extremum_strict)
  show ?thesis
  proof (cases "old = 0")
    case True
    then have "saturating_add old 1 = (1 :: 'a word)"
      using one_less_power [of "2 :: nat" "LENGTH('a)"] by (simp add: saturating_add_def)
    then show ?thesis using \<open>old < new\<close> True
      by (auto simp: next_pow2_is_novel_def saturating_next_power_of_two_def Let_def not_le word_le_nat_alt
        word_less_nat_alt Suc_le_eq intro!: exI [of _ 0])
  next
    case False
    define h where "h = LENGTH('a) - 1 - leading_zeros old"
    note log = leading_zeros_log [OF False, folded h_def]
    have "(\<exists>k. unat old < 2 ^ k \<and> 2 ^ k \<le> unat new) \<longleftrightarrow> 2 ^ (h + 1) \<le> unat new"
    proof
      assume "\<exists>k. unat old < 2 ^ k \<and> 2 ^ k \<le> unat new"
      then obtain k where k: "unat old < 2 ^ k" "2 ^ k \<le> unat new" by blast
      then have "(2 :: nat) ^ h < 2 ^ k" using log(2) by linarith
      then have "(2 :: nat) ^ (h + 1) \<le> 2 ^ k" by (simp add: Suc_leI power_increasing del: power_Suc)
      with k(2) show "2 ^ (h + 1) \<le> unat new" by linarith
    qed (use log(3) in blast)
    moreover have "next_pow2_is_novel old new \<longleftrightarrow> (if h + 1 < LENGTH('a) then 2 ^ (h + 1) else - 1) \<le> new"
      using True [folded not_le] next_power_of_two [OF False top] by (simp add: next_pow2_is_novel_def Let_def h_def)
    moreover have "(2 :: 'a word) ^ (h + 1) \<le> new \<longleftrightarrow> 2 ^ (h + 1) \<le> unat new" if "h + 1 < LENGTH('a)"
       proof -
      have "unat (2 ^ (h + 1) :: 'a word) = 2 ^ (h + 1)"
        using that by (rule unat_two_power)
      then show ?thesis by (simp only: word_le_nat_alt)
    qed
    moreover have "- 1 \<le> new \<longleftrightarrow> new = - 1" by (simp add: word_order.extremum_unique)
    moreover have "\<not> 2 ^ (h + 1) \<le> unat new" if "\<not> h + 1 < LENGTH('a)"
    proof -
      have "h + 1 = LENGTH('a)" using that log(1) by linarith
      moreover have "\<not> 2 ^ LENGTH('a) \<le> unat new" using unsigned_less [of new] by (simp add: not_le)
      ultimately show ?thesis by simp
    qed
    moreover have "new = - 1 \<Longrightarrow> h + 1 < LENGTH('a) \<Longrightarrow> 2 ^ (h + 1) \<le> unat new"
      using power_strict_increasing [of "h + 1" "LENGTH('a)" "2 :: nat"] by (simp add: unat_max)
    ultimately show ?thesis using True by (cases "h + 1 < LENGTH('a)"; simp; metis)
  qed
qed (auto simp: next_pow2_is_novel_def not_less)

end
