(* ===== verification/States.thy ===== *)
theory States
  imports Effects Corpora MapFeedbacks
begin

text \<open>
  The state of a fuzzing campaign (\<^verbatim>\<open>libaflmm/src/states/mod.rs\<close>), the results of an
  evaluation (\<^verbatim>\<open>fuzzers/mod.rs\<close>) and the records of the loader
  (\<^verbatim>\<open>fuzzers/standard.rs\<close>), which live in the state.

  The state keeps a map from a type and a name to a value of that type; the model has one partial
  function from names for each type the library stores there. Durations are natural numbers.
  Counters that grow by one per execution are natural numbers too.
\<close>

section \<open>Results of an evaluation\<close>

datatype exit_kind = ExitOk | ExitCrash | ExitOom | ExitTimeout

datatype interest = IUninteresting | ICorpus | IObjective

datatype verdict = VUninteresting | VCorpus u64 | VObjective u64

record evaluation_result =
  exit_kind :: exit_kind
  verdict :: verdict

definition evaluation_new :: "exit_kind \<Rightarrow> verdict \<Rightarrow> evaluation_result" where
  "evaluation_new k v = \<lparr>exit_kind = k, verdict = v\<rparr>"

definition not_interesting :: evaluation_result where
  "not_interesting = \<lparr>exit_kind = ExitOk, verdict = VUninteresting\<rparr>"

definition is_objective_worthy :: "evaluation_result \<Rightarrow> bool" where
  "is_objective_worthy r = (case verdict r of VObjective _ \<Rightarrow> True | _ \<Rightarrow> False)"

definition is_corpus_worthy :: "evaluation_result \<Rightarrow> bool" where
  "is_corpus_worthy r = (case verdict r of VCorpus _ \<Rightarrow> True | _ \<Rightarrow> False)"

definition result_testcase_id :: "evaluation_result \<Rightarrow> u64 option" where
  "result_testcase_id r =
     (case verdict r of VCorpus tid \<Rightarrow> Some tid | VObjective tid \<Rightarrow> Some tid | VUninteresting \<Rightarrow> None)"

section \<open>What is known of a test case\<close>

record testcase_md =
  md_exec_time :: "nat option"
  md_scheduled_count :: nat
  md_executions :: nat
  md_disabled :: bool
  md_objectives_found :: nat

definition testcase_md_default :: testcase_md where
  "testcase_md_default = \<lparr>md_exec_time = None, md_scheduled_count = 0, md_executions = 0,
     md_disabled = False, md_objectives_found = 0\<rparr>"

definition set_executions :: "nat \<Rightarrow> testcase_md \<Rightarrow> testcase_md" where
  "set_executions executions md = md\<lparr>md_executions := executions\<rparr>"

definition increase_scheduled_count :: "testcase_md \<Rightarrow> testcase_md" where
  "increase_scheduled_count md = md\<lparr>md_scheduled_count := md_scheduled_count md + 1\<rparr>"

definition found_objective :: "testcase_md \<Rightarrow> testcase_md" where
  "found_objective md = md\<lparr>md_objectives_found := min usize_max (md_objectives_found md + 1)\<rparr>"

section \<open>Statistics\<close>

text \<open>
  The values reported by name: what a map feedback covers, and the stability found by a
  calibration, the unstable and all entries, or none when nothing was unstable (reported as 100).
\<close>

datatype user_stat = Coverage nat nat | Stability "(nat \<times> nat) option"

record stats =
  s_executions :: nat
  s_corpus :: nat
  s_objective :: nat
  s_last_found :: nat
  s_user_map :: "string \<Rightarrow> user_stat option"

section \<open>Records of the loader\<close>

text \<open>The inputs of a load are kept serialised; a running input is tagged with its load.\<close>

record 'b loading =
  inputs_to_run :: "'b list"
  ran_inputs :: "('b \<times> evaluation_result) list"

record 'b loader_md =
  loads :: "nat \<Rightarrow> 'b loading option"
  running_input :: "(nat \<times> 'b) option"

definition loader_md_default :: "'b loader_md" where
  "loader_md_default = \<lparr>loads = (\<lambda>_. None), running_input = None\<rparr>"

section \<open>Metadata\<close>

record unstable_md =
  unstable_entries :: "nat set"
  filled_entries_count :: nat

definition unstable_md_default :: unstable_md where
  "unstable_md_default = \<lparr>unstable_entries = {}, filled_entries_count = 0\<rparr>"

record testcase_power =
  tp_exec_time :: nat
  tp_bitmap_size :: nat
  tp_handicap :: nat
  tp_depth :: nat
  tp_cycle_and_time :: "nat \<times> nat"

definition testcase_power_new :: "nat \<Rightarrow> testcase_power" where
  "testcase_power_new depth = \<lparr>tp_exec_time = 0, tp_bitmap_size = 0, tp_handicap = 0,
     tp_depth = depth, tp_cycle_and_time = (0, 0)\<rparr>"

record power_md =
  pw_exec_time :: nat
  pw_cycles :: nat
  pw_bitmap_size :: nat
  pw_bitmap_entries :: nat
  pw_queue_cycles :: nat
  pw_per_testcase :: "u64 \<Rightarrow> testcase_power option"

definition power_md_new :: power_md where
  "power_md_new = \<lparr>pw_exec_time = 0, pw_cycles = 0, pw_bitmap_size = 0, pw_bitmap_entries = 0,
     pw_queue_cycles = 0, pw_per_testcase = (\<lambda>_. None)\<rparr>"

record 'b metadata =
  md_maps :: "string \<Rightarrow> u8 map_feedback_md option"
  md_lists :: "string \<Rightarrow> u64 set option"
  md_stdout :: "string \<Rightarrow> (u64 \<Rightarrow> bytes option) option"
  md_stderr :: "string \<Rightarrow> (u64 \<Rightarrow> bytes option) option"
  md_unstable :: "string \<Rightarrow> unstable_md option"
  md_power :: "power_md option"
  md_tokens :: "bytes list option"
  md_cmplog :: "cmp_values list option"
  md_loader :: "'b loader_md option"

definition metadata_empty :: "'b metadata" where
  "metadata_empty = \<lparr>md_maps = (\<lambda>_. None), md_lists = (\<lambda>_. None), md_stdout = (\<lambda>_. None),
     md_stderr = (\<lambda>_. None), md_unstable = (\<lambda>_. None), md_power = None, md_tokens = None,
     md_cmplog = None, md_loader = None\<rparr>"

section \<open>The state\<close>

record ('i, 'c, 'k, 'b) std_state =
  corpus :: 'c
  objective_corpus :: 'k
  metadata :: "'b metadata"
  testcase_mds :: "u64 \<Rightarrow> testcase_md option"
  max_size_limit :: nat
  metadata_initialized :: bool
  state_stats :: stats
  pending_testcases :: "'i testcase list"

definition DEFAULT_MAX_SIZE :: nat where
  "DEFAULT_MAX_SIZE = 1048576"

definition std_state_new :: "nat \<Rightarrow> 'c \<Rightarrow> 'k \<Rightarrow> ('i, 'c, 'k, 'b) std_state" where
  "std_state_new now c k =
     \<lparr>corpus = c, objective_corpus = k, metadata = metadata_empty, testcase_mds = (\<lambda>_. None),
      max_size_limit = DEFAULT_MAX_SIZE, metadata_initialized = False,
      state_stats = \<lparr>s_executions = 0, s_corpus = 0, s_objective = 0, s_last_found = now,
        s_user_map = (\<lambda>_. None)\<rparr>,
      pending_testcases = []\<rparr>"

definition executions :: "('i, 'c, 'k, 'b) std_state \<Rightarrow> nat" where
  "executions st = s_executions (state_stats st)"

definition increment_execs :: "('i, 'c, 'k, 'b) std_state \<Rightarrow> ('i, 'c, 'k, 'b) std_state" where
  "increment_execs st = st\<lparr>state_stats := (state_stats st)\<lparr>s_executions := executions st + 1\<rparr>\<rparr>"

text \<open>\<open>testcase_md_mut_from_id\<close>: the entry is created when it is not there.\<close>

definition testcase_md_or_default :: "u64 \<Rightarrow> ('i, 'c, 'k, 'b) std_state \<Rightarrow> testcase_md" where
  "testcase_md_or_default tid st = (case testcase_mds st tid of None \<Rightarrow> testcase_md_default | Some md \<Rightarrow> md)"

definition update_testcase_md ::
  "u64 \<Rightarrow> (testcase_md \<Rightarrow> testcase_md) \<Rightarrow> ('i, 'c, 'k, 'b) std_state \<Rightarrow> ('i, 'c, 'k, 'b) std_state" where
  "update_testcase_md tid f st =
     st\<lparr>testcase_mds := (testcase_mds st)(tid \<mapsto> f (testcase_md_or_default tid st))\<rparr>"

definition should_initialize_metadata :: "('i, 'c, 'k, 'b) std_state \<Rightarrow> bool \<times> ('i, 'c, 'k, 'b) std_state" where
  "should_initialize_metadata st =
     (if metadata_initialized st then (False, st) else (True, st\<lparr>metadata_initialized := True\<rparr>))"

definition add_pending_testcases ::
  "'i testcase list \<Rightarrow> ('i, 'c, 'k, 'b) std_state \<Rightarrow> ('i, 'c, 'k, 'b) std_state" where
  "add_pending_testcases tcs st = st\<lparr>pending_testcases := pending_testcases st @ tcs\<rparr>"

definition next_pending_testcase ::
  "('i, 'c, 'k, 'b) std_state \<Rightarrow> 'i testcase option \<times> ('i, 'c, 'k, 'b) std_state" where
  "next_pending_testcase st =
     (case pending_testcases st of
        [] \<Rightarrow> (None, st)
      | tc # tcs \<Rightarrow> (Some tc, st\<lparr>pending_testcases := tcs\<rparr>))"

definition report_stat :: "string \<Rightarrow> user_stat \<Rightarrow> ('i, 'c, 'k, 'b) std_state \<Rightarrow> ('i, 'c, 'k, 'b) std_state" where
  "report_stat name v st =
     st\<lparr>state_stats := (state_stats st)\<lparr>s_user_map := (s_user_map (state_stats st))(name \<mapsto> v)\<rparr>\<rparr>"

text \<open>The operations a fuzzer calls on the two corpora.\<close>

record ('c, 'k, 'i) corpus_ops =
  co_add :: "'i testcase \<Rightarrow> 'c \<Rightarrow> (error + u64) \<times> 'c"
  co_get :: "u64 \<Rightarrow> 'c \<Rightarrow> (error + 'i testcase) \<times> 'c"
  co_get_all :: "u64 \<Rightarrow> 'c \<Rightarrow> (error + 'i testcase) \<times> 'c"
  co_next :: "'c \<Rightarrow> (error + u64 option) \<times> 'c"
  co_current :: "'c \<Rightarrow> error + u64 option"
  co_ids :: "'c \<Rightarrow> u64 list"
  co_add_objective :: "'i testcase \<Rightarrow> 'k \<Rightarrow> (error + u64) \<times> 'k"

text \<open>The corpus with one store and a scheduler, and the objective corpus, which schedules nothing.\<close>

definition single_next ::
  "'q scheduler_ops \<Rightarrow> ('s, 'q) single_corpus \<Rightarrow> (error + u64 option) \<times> ('s, 'q) single_corpus" where
  "single_next qops c = (case sd_next qops (sc_scheduler c) of (r, q) \<Rightarrow> (r, c\<lparr>sc_scheduler := q\<rparr>))"

definition single_ops ::
  "('s, 'i) store_ops \<Rightarrow> 'q scheduler_ops \<Rightarrow> ('o, 'i) store_ops
    \<Rightarrow> (('s, 'q) single_corpus, ('o, unit) single_corpus, 'i) corpus_ops" where
  "single_ops sops qops kops =
     \<lparr>co_add = single_add_shared sops qops True,
      co_get = (\<lambda>tid c. (single_get_from sops True c tid, c)),
      co_get_all = (\<lambda>tid c. (store_get_from_all sops (sc_store c) tid, c)),
      co_next = single_next qops,
      co_current = (\<lambda>c. sd_current qops (sc_scheduler c)),
      co_ids = (\<lambda>c. sd_ids qops (sc_scheduler c)),
      co_add_objective = single_add_inner kops True\<rparr>"

end
