(* ===== verification/Observers.thy ===== *)
theory Observers
  imports States
begin

text \<open>
  The observers (\<^verbatim>\<open>libaflmm/src/observers\<close>): coverage maps of the four kinds and the two
  wrappers that put hit counts into buckets, lists of values, single values, the running time and
  the output of the target. An executor owns a tuple of observers, prepares all of them before a run
  and lets all of them look at its end; feedbacks find an observer by its type and its name.

  The lemmas: resetting a map clears every entry it uses and keeps its size; a multi map reads and
  writes the concatenation of its parts; a wrapped map holds buckets after a run.
\<close>

section \<open>Coverage maps\<close>

text \<open>
  A map is a list of counters and the initial value. \<open>SizePtrMap\<close> uses as many entries as a number
  the target writes says, and panics when that is more than there are; \<open>MultiMap\<close> has several parts.
  The wrappers hold where the part of the map that is aligned for 16-bit access begins, for each part.
\<close>

datatype map_observer =
    VariableMap bytes u8
  | ConstMap bytes u8
  | SizePtrMap bytes nat u8
  | MultiMap "bytes list" u8
  | Hitcounts nat map_observer
  | HitcountsIterable "nat list" map_observer

fun map_initial :: "map_observer \<Rightarrow> u8" where
  "map_initial (VariableMap _ ini) = ini"
| "map_initial (ConstMap _ ini) = ini"
| "map_initial (SizePtrMap _ _ ini) = ini"
| "map_initial (MultiMap _ ini) = ini"
| "map_initial (Hitcounts _ base) = map_initial base"
| "map_initial (HitcountsIterable _ base) = map_initial base"

fun usable_count :: "map_observer \<Rightarrow> nat" where
  "usable_count (VariableMap xs _) = length xs"
| "usable_count (ConstMap xs _) = length xs"
| "usable_count (SizePtrMap _ sz _) = sz"
| "usable_count (MultiMap parts _) = sum_list (map length parts)"
| "usable_count (Hitcounts _ base) = usable_count base"
| "usable_count (HitcountsIterable _ base) = usable_count base"

text \<open>The parts of a map: what \<open>as_chunks\<close> yields, one slice but for the multi map.\<close>

fun map_chunks :: "map_observer \<Rightarrow> error + bytes list" where
  "map_chunks (VariableMap xs _) = Inr [xs]"
| "map_chunks (ConstMap xs _) = Inr [xs]"
| "map_chunks (SizePtrMap xs sz _) = (if length xs < sz then Inl Panic else Inr [take sz xs])"
| "map_chunks (MultiMap parts _) = Inr parts"
| "map_chunks (Hitcounts _ base) = map_chunks base"
| "map_chunks (HitcountsIterable _ base) = map_chunks base"

text \<open>The entries: what \<open>as_iter\<close> and \<open>to_vec\<close> yield.\<close>

definition map_entries :: "map_observer \<Rightarrow> error + bytes" where
  "map_entries m = rbind (map_chunks m) (\<lambda>cs. Inr (concat cs))"

text \<open>
  The multi map finds the part of an index in an interval tree of a library, which holds the
  interval of every part with the part's number; \<open>query\<close> is the lookup, the first interval it
  yields, with its start. The intervals are entered in the order of the parts.
\<close>

fun multi_intervals :: "nat \<Rightarrow> nat \<Rightarrow> bytes list \<Rightarrow> (nat \<times> nat \<times> nat) list" where
  "multi_intervals idx v [] = []"
| "multi_intervals idx v (x # xs) = (idx, idx + length x, v) # multi_intervals (idx + length x) (Suc v) xs"

type_synonym interval_query = "(nat \<times> nat \<times> nat) list \<Rightarrow> nat \<Rightarrow> (nat \<times> nat) option"

fun map_get :: "interval_query \<Rightarrow> map_observer \<Rightarrow> nat \<Rightarrow> error + u8" where
  "map_get query (VariableMap xs _) idx = (if idx < length xs then Inr (xs ! idx) else Inl Panic)"
| "map_get query (ConstMap xs _) idx = (if idx < length xs then Inr (xs ! idx) else Inl Panic)"
| "map_get query (SizePtrMap xs _ _) idx = (if idx < length xs then Inr (xs ! idx) else Inl Panic)"
| "map_get query (MultiMap parts _) idx =
     (case query (multi_intervals 0 0 parts) idx of
        None \<Rightarrow> Inl Panic
      | Some (start, i) \<Rightarrow>
          let j = idx - start
          in if i < length parts \<and> j < length (parts ! i) then Inr (parts ! i ! j) else Inl Panic)"
| "map_get query (Hitcounts _ base) idx = map_get query base idx"
| "map_get query (HitcountsIterable _ base) idx = map_get query base idx"

fun map_set :: "interval_query \<Rightarrow> nat \<Rightarrow> u8 \<Rightarrow> map_observer \<Rightarrow> error + map_observer" where
  "map_set query idx v (VariableMap xs ini) =
     (if idx < length xs then Inr (VariableMap (xs[idx := v]) ini) else Inl Panic)"
| "map_set query idx v (ConstMap xs ini) =
     (if idx < length xs then Inr (ConstMap (xs[idx := v]) ini) else Inl Panic)"
| "map_set query idx v (SizePtrMap xs sz ini) =
     (if idx < length xs then Inr (SizePtrMap (xs[idx := v]) sz ini) else Inl Panic)"
| "map_set query idx v (MultiMap parts ini) =
     (case query (multi_intervals 0 0 parts) idx of
        None \<Rightarrow> Inl Panic
      | Some (start, i) \<Rightarrow>
          let j = idx - start
          in if i < length parts \<and> j < length (parts ! i)
             then Inr (MultiMap (parts[i := (parts ! i)[j := v]]) ini) else Inl Panic)"
| "map_set query idx v (Hitcounts off base) = rbind (map_set query idx v base) (\<lambda>b. Inr (Hitcounts off b))"
| "map_set query idx v (HitcountsIterable offs base) =
     rbind (map_set query idx v base) (\<lambda>b. Inr (HitcountsIterable offs b))"

definition count_set :: "u8 \<Rightarrow> bytes \<Rightarrow> nat" where
  "count_set ini xs = fold (\<lambda>x res. if x \<noteq> ini then res + 1 else res) xs 0"

definition map_count_bytes :: "map_observer \<Rightarrow> error + nat" where
  "map_count_bytes m = rbind (map_entries m) (\<lambda>xs. Inr (count_set (map_initial m) xs))"

text \<open>
  \<open>how_many_set\<close>: the slice-backed maps index their slice, the multi map asks its own \<open>get\<close>; both
  only for the indices below the number of usable entries.
\<close>

fun how_many_loop :: "interval_query \<Rightarrow> map_observer \<Rightarrow> nat list \<Rightarrow> error + nat" where
  "how_many_loop query m [] = Inr 0"
| "how_many_loop query m (i # is) =
     rbind (if i < usable_count m then map_get query m i else Inr (map_initial m)) (\<lambda>v.
     rbind (how_many_loop query m is) (\<lambda>res. Inr (of_bool (v \<noteq> map_initial m) + res)))"

definition how_many_set :: "interval_query \<Rightarrow> map_observer \<Rightarrow> nat list \<Rightarrow> error + nat" where
  "how_many_set query m is = rbind (map_chunks m) (\<lambda>_. how_many_loop query m is)"

definition reset_slice :: "u8 \<Rightarrow> bytes \<Rightarrow> bytes" where
  "reset_slice ini xs = map (\<lambda>_. ini) xs"

fun reset_map :: "map_observer \<Rightarrow> error + map_observer" where
  "reset_map (VariableMap xs ini) = Inr (VariableMap (reset_slice ini xs) ini)"
| "reset_map (ConstMap xs ini) = Inr (ConstMap (reset_slice ini xs) ini)"
| "reset_map (SizePtrMap xs sz ini) =
     (if length xs < sz then Inl Panic
      else Inr (SizePtrMap (reset_slice ini (take sz xs) @ drop sz xs) sz ini))"
| "reset_map (MultiMap parts ini) = Inr (MultiMap (map (reset_slice ini) parts) ini)"
| "reset_map (Hitcounts off base) = rbind (reset_map base) (\<lambda>b. Inr (Hitcounts off b))"
| "reset_map (HitcountsIterable offs base) = rbind (reset_map base) (\<lambda>b. Inr (HitcountsIterable offs b))"

text \<open>Writing the parts back after they were changed through \<open>as_chunks_mut\<close> or \<open>as_slice_mut\<close>.\<close>

fun with_chunks :: "map_observer \<Rightarrow> bytes list \<Rightarrow> map_observer" where
  "with_chunks (VariableMap _ ini) cs = VariableMap (concat cs) ini"
| "with_chunks (ConstMap _ ini) cs = ConstMap (concat cs) ini"
| "with_chunks (SizePtrMap xs sz ini) cs = SizePtrMap (concat cs @ drop sz xs) sz ini"
| "with_chunks (MultiMap _ ini) cs = MultiMap cs ini"
| "with_chunks (Hitcounts off base) cs = Hitcounts off (with_chunks base cs)"
| "with_chunks (HitcountsIterable offs base) cs = HitcountsIterable offs (with_chunks base cs)"

text \<open>
  A slice of \<open>n\<close> bytes whose aligned part begins at the offset \<open>off\<close> holds \<open>(n - off) div 2\<close> pairs.
\<close>

definition classify_at :: "nat \<Rightarrow> bytes \<Rightarrow> bytes" where
  "classify_at off xs = classify_counts (min off (length xs)) ((length xs - off) div 2) xs"

text \<open>\<open>pre_exec\<close> resets the innermost map; \<open>post_exec\<close> classifies from the outermost wrapper inwards.\<close>

definition map_pre_exec :: "map_observer \<Rightarrow> error + map_observer" where
  "map_pre_exec m = reset_map m"

fun wrappers :: "map_observer \<Rightarrow> nat" where
  "wrappers (Hitcounts _ base) = Suc (wrappers base)"
| "wrappers (HitcountsIterable _ base) = Suc (wrappers base)"
| "wrappers _ = 0"

lemma wrappers_with_chunks [simp]: "wrappers (with_chunks m cs) = wrappers m"
  by (induction m) simp_all

function map_post_exec :: "map_observer \<Rightarrow> error + map_observer" where
  "map_post_exec (Hitcounts off base) =
     rbind (map_chunks base) (\<lambda>cs.
     rbind (map_post_exec (with_chunks base (map (classify_at off) cs))) (\<lambda>b. Inr (Hitcounts off b)))"
| "map_post_exec (HitcountsIterable offs base) =
     rbind (map_chunks base) (\<lambda>cs.
     rbind (map_post_exec (with_chunks base (map2 classify_at (take (length cs) (offs @ replicate (length cs) 0)) cs)))
       (\<lambda>b. Inr (HitcountsIterable offs b)))"
| "map_post_exec (VariableMap xs ini) = Inr (VariableMap xs ini)"
| "map_post_exec (ConstMap xs ini) = Inr (ConstMap xs ini)"
| "map_post_exec (SizePtrMap xs sz ini) = Inr (SizePtrMap xs sz ini)"
| "map_post_exec (MultiMap parts ini) = Inr (MultiMap parts ini)"
  by pat_completeness auto
termination
  by (relation "measure wrappers") auto

section \<open>Observers and their tuple\<close>

text \<open>
  An output observer (\<open>True\<close> for the standard output, \<open>False\<close> for the standard error) holds the
  captured bytes and, when it reads them from a file shared with the target, the contents of that
  file and its position. A time observer holds the start and the duration of the last run.
\<close>

datatype observer =
    MapOb map_observer
  | ListOb "u64 list"
  | BoolOb bool
  | TimeOb nat "nat option"
  | OutputOb bool "bytes option" "(bytes \<times> nat) option"

type_synonym observers = "(string \<times> observer) list"

fun observer_pre_exec :: "nat \<Rightarrow> observer \<Rightarrow> error + observer" where
  "observer_pre_exec now (MapOb m) = rbind (map_pre_exec m) (\<lambda>m. Inr (MapOb m))"
| "observer_pre_exec now (ListOb _) = Inr (ListOb [])"
| "observer_pre_exec now (BoolOb b) = Inr (BoolOb b)"
| "observer_pre_exec now (TimeOb _ _) = Inr (TimeOb now None)"
| "observer_pre_exec now (OutputOb out _ file) = Inr (OutputOb out None (map_option (\<lambda>(data, _). (data, 0)) file))"

text \<open>The position the target left tells how many bytes it wrote; they are read from the start.\<close>

fun observer_post_exec :: "nat \<Rightarrow> observer \<Rightarrow> error + observer" where
  "observer_post_exec now (MapOb m) = rbind (map_post_exec m) (\<lambda>m. Inr (MapOb m))"
| "observer_post_exec now (TimeOb start _) = Inr (TimeOb start (Some (now - start)))"
| "observer_post_exec now (OutputOb out None (Some (data, pos))) =
     (if length data < pos then Inl OsError else Inr (OutputOb out (Some (take pos data)) (Some (data, pos))))"
| "observer_post_exec now ob = Inr ob"

fun pre_exec_all :: "nat \<Rightarrow> observers \<Rightarrow> (error + unit) \<times> observers" where
  "pre_exec_all now [] = (Inr (), [])"
| "pre_exec_all now ((name, ob) # obs) =
     (case observer_pre_exec now ob of
        Inl e \<Rightarrow> (Inl e, (name, ob) # obs)
      | Inr ob \<Rightarrow> (case pre_exec_all now obs of (r, obs) \<Rightarrow> (r, (name, ob) # obs)))"

fun post_exec_all :: "nat \<Rightarrow> observers \<Rightarrow> (error + unit) \<times> observers" where
  "post_exec_all now [] = (Inr (), [])"
| "post_exec_all now ((name, ob) # obs) =
     (case observer_post_exec now ob of
        Inl e \<Rightarrow> (Inl e, (name, ob) # obs)
      | Inr ob \<Rightarrow> (case post_exec_all now obs of (r, obs) \<Rightarrow> (r, (name, ob) # obs)))"

text \<open>Lookups by type and name: the first element of the tuple that has both.\<close>

fun match_name :: "(observer \<Rightarrow> 'a option) \<Rightarrow> string \<Rightarrow> observers \<Rightarrow> 'a option" where
  "match_name sel name [] = None"
| "match_name sel name ((n, ob) # obs) =
     (case sel ob of
        Some a \<Rightarrow> if name = n then Some a else match_name sel name obs
      | None \<Rightarrow> match_name sel name obs)"

definition get_map_observer :: "string \<Rightarrow> observers \<Rightarrow> map_observer option" where
  "get_map_observer = match_name (\<lambda>ob. case ob of MapOb m \<Rightarrow> Some m | _ \<Rightarrow> None)"

definition get_list_observer :: "string \<Rightarrow> observers \<Rightarrow> u64 list option" where
  "get_list_observer = match_name (\<lambda>ob. case ob of ListOb xs \<Rightarrow> Some xs | _ \<Rightarrow> None)"

definition get_bool_observer :: "string \<Rightarrow> observers \<Rightarrow> bool option" where
  "get_bool_observer = match_name (\<lambda>ob. case ob of BoolOb b \<Rightarrow> Some b | _ \<Rightarrow> None)"

definition get_time_observer :: "string \<Rightarrow> observers \<Rightarrow> nat option option" where
  "get_time_observer = match_name (\<lambda>ob. case ob of TimeOb _ t \<Rightarrow> Some t | _ \<Rightarrow> None)"

definition get_output_observer :: "bool \<Rightarrow> string \<Rightarrow> observers \<Rightarrow> bytes option option" where
  "get_output_observer out = match_name (\<lambda>ob. case ob of OutputOb b captured _ \<Rightarrow> if b = out then Some captured else None | _ \<Rightarrow> None)"

section \<open>Maps\<close>

text \<open>A map is well formed when the target's number stays within the entries there are.\<close>

fun map_ok :: "map_observer \<Rightarrow> bool" where
  "map_ok (SizePtrMap xs sz _) \<longleftrightarrow> sz \<le> length xs"
| "map_ok (Hitcounts _ base) \<longleftrightarrow> map_ok base"
| "map_ok (HitcountsIterable _ base) \<longleftrightarrow> map_ok base"
| "map_ok _ \<longleftrightarrow> True"

lemma map_chunks_ok: "map_ok m \<Longrightarrow> \<exists>cs. map_chunks m = Inr cs \<and> length (concat cs) = usable_count m"
  by (induction m) (auto simp: length_concat)

lemma map_chunks_panic: "\<not> map_ok m \<Longrightarrow> map_chunks m = Inl Panic"
  by (induction m) auto

lemma reset_slice_length [simp]: "length (reset_slice ini xs) = length xs"
  by (simp add: reset_slice_def)

lemma reset_slice_replicate: "reset_slice ini xs = replicate (length xs) ini"
  by (simp add: reset_slice_def map_replicate_const)

lemma concat_reset: "concat (map (reset_slice ini) xss) = replicate (sum_list (map length xss)) ini"
  by (induction xss) (simp_all add: reset_slice_replicate replicate_add)

lemma reset_map_ok:
  assumes "map_ok m"
  shows "\<exists>m'. reset_map m = Inr m' \<and> map_ok m' \<and> usable_count m' = usable_count m \<and>
    map_initial m' = map_initial m \<and> map_entries m' = Inr (replicate (usable_count m) (map_initial m))"
  using assms
proof (induction m)
  case (MultiMap parts ini)
  then show ?case by (simp add: map_entries_def concat_reset comp_def)
qed (auto simp: map_entries_def reset_slice_replicate comp_def)

lemma count_set_eq: "count_set ini xs = length (filter (\<lambda>x. x \<noteq> ini) xs)"
proof -
  have "fold (\<lambda>x res. if x \<noteq> ini then res + 1 else res) xs n = n + length (filter (\<lambda>x. x \<noteq> ini) xs)" for n
    by (induction xs arbitrary: n) auto
  then show ?thesis by (simp add: count_set_def)
qed

lemma classify_at_bucket: "classify_at off xs = map bucket xs"
  unfolding classify_at_def by (rule classify_counts_eq) auto


lemma with_chunks_ok:
  "map_ok m \<Longrightarrow> map_chunks m = Inr cs \<Longrightarrow> map length ds = map length cs \<Longrightarrow>
    map_ok (with_chunks m ds) \<and> map_chunks (with_chunks m ds) = Inr ds \<and>
    map_initial (with_chunks m ds) = map_initial m"
  by (induction m) (auto simp: length_Suc_conv map_eq_Cons_conv)

lemma classified_chunks:
  assumes "length offs = length cs"
  shows "map length (map2 classify_at offs cs) = map length cs"
    and "concat (map2 classify_at offs cs) = map bucket (concat cs)"
  using assms by (induction offs cs rule: list_induct2) (simp_all add: classify_at_bucket)

text \<open>Every wrapper classifies the map once.\<close>

lemma map_post_exec_chunks:
  assumes "map_ok m" "map_chunks m = Inr cs"
  shows "\<exists>m' cs'. map_post_exec m = Inr m' \<and> map_ok m' \<and> map_chunks m' = Inr cs' \<and>
    map length cs' = map length cs \<and> concat cs' = (map bucket ^^ wrappers m) (concat cs) \<and>
    map_initial m' = map_initial m"
  using assms
proof (induction m arbitrary: cs rule: map_post_exec.induct)
  case (1 off base)
  let ?ds = "map (classify_at off) cs"
  have base: "map_ok base" "map_chunks base = Inr cs" using "1.prems" by simp_all
  have ds: "map length ?ds = map length cs" "concat ?ds = map bucket (concat cs)"
    by (simp_all add: classify_at_bucket map_concat comp_def cong: map_cong)
  note wc = with_chunks_ok [OF base ds(1)]
  obtain b' cs' where "map_post_exec (with_chunks base ?ds) = Inr b'" "map_ok b'" "map_chunks b' = Inr cs'"
    "map length cs' = map length ?ds" "concat cs' = (map bucket ^^ wrappers (with_chunks base ?ds)) (concat ?ds)"
    "map_initial b' = map_initial (with_chunks base ?ds)"
    using "1.IH" [of cs ?ds] wc by blast
  then show ?case using base wc ds by (simp add: funpow_swap1)
next
  case (2 offs base)
  let ?os = "take (length cs) (offs @ replicate (length cs) 0)"
  let ?ds = "map2 classify_at ?os cs"
  have base: "map_ok base" "map_chunks base = Inr cs" using "2.prems" by simp_all
  have os: "length ?os = length cs" by simp
  note ds = classified_chunks [OF os]
  note wc = with_chunks_ok [OF base ds(1)]
  obtain b' cs' where "map_post_exec (with_chunks base ?ds) = Inr b'" "map_ok b'" "map_chunks b' = Inr cs'"
    "map length cs' = map length ?ds" "concat cs' = (map bucket ^^ wrappers (with_chunks base ?ds)) (concat ?ds)"
    "map_initial b' = map_initial (with_chunks base ?ds)"
    using "2.IH" [of cs ?ds] wc by blast
  then show ?case using base wc ds by (simp add: funpow_swap1)
qed auto

lemma map_post_exec_ok:
  assumes "map_ok m" "map_entries m = Inr xs"
  shows "\<exists>m'. map_post_exec m = Inr m' \<and> map_ok m' \<and> usable_count m' = usable_count m \<and>
    map_initial m' = map_initial m \<and> map_entries m' = Inr ((map bucket ^^ wrappers m) xs)"
proof -
  obtain cs where cs: "map_chunks m = Inr cs" "xs = concat cs" "length (concat cs) = usable_count m"
    using map_chunks_ok [OF assms(1)] assms(2) by (auto simp: map_entries_def)
  obtain m' cs' where m': "map_post_exec m = Inr m'" "map_ok m'" "map_chunks m' = Inr cs'"
    "map length cs' = map length cs" "concat cs' = (map bucket ^^ wrappers m) (concat cs)"
    "map_initial m' = map_initial m"
    using map_post_exec_chunks [OF assms(1) cs(1)] by blast
  moreover have "usable_count m' = usable_count m"
    using map_chunks_ok [OF m'(2)] m'(3,4) cs(3) by (simp add: length_concat)
  ultimately show ?thesis using cs by (simp add: map_entries_def)
qed

section \<open>The parts of a multi map\<close>

text \<open>What the interval tree documents: the lookup yields an interval that contains the index.\<close>

definition finds_interval :: "interval_query \<Rightarrow> bool" where
  "finds_interval query \<longleftrightarrow> (\<forall>ivs idx.
     (\<forall>s v. query ivs idx = Some (s, v) \<longrightarrow> (\<exists>t. (s, t, v) \<in> set ivs \<and> s \<le> idx \<and> idx < t)) \<and>
     (query ivs idx = None \<longrightarrow> (\<forall>(s, t, v) \<in> set ivs. \<not> (s \<le> idx \<and> idx < t))))"

lemma multi_intervals_iff:
  "(s, t, v) \<in> set (multi_intervals idx k parts) \<longleftrightarrow>
    (\<exists>i < length parts. v = k + i \<and> s = idx + length (concat (take i parts)) \<and> t = s + length (parts ! i))"
proof (induction parts arbitrary: idx k)
  case (Cons x xs)
  have "(\<exists>i < length (x # xs). v = k + i \<and> s = idx + length (concat (take i (x # xs))) \<and> t = s + length ((x # xs) ! i))
    \<longleftrightarrow> (v = k \<and> s = idx \<and> t = s + length x) \<or>
      (\<exists>i < length xs. v = Suc k + i \<and> s = idx + length x + length (concat (take i xs)) \<and> t = s + length (xs ! i))"
    by (auto simp: less_Suc_eq_0_disj)
  then show ?case using Cons.IH [of "idx + length x" "Suc k"] by auto
qed simp

lemma part_of_index:
  assumes "idx < length (concat parts)"
  shows "\<exists>i < length parts. length (concat (take i parts)) \<le> idx \<and>
    idx < length (concat (take i parts)) + length (parts ! i)"
  using assms
proof (induction parts arbitrary: idx)
  case (Cons x xs)
  show ?case
  proof (cases "idx < length x")
    case False
    then have "idx - length x < length (concat xs)" using Cons.prems by auto
    then obtain i where "i < length xs" "length (concat (take i xs)) \<le> idx - length x"
      "idx - length x < length (concat (take i xs)) + length (xs ! i)" using Cons.IH by blast
    with False show ?thesis by (intro exI [of _ "Suc i"]) auto
  qed auto
qed simp

lemma concat_nth_part:
  assumes "i < length parts" "j < length (parts ! i)"
  shows "concat parts ! (length (concat (take i parts)) + j) = parts ! i ! j"
    and "length (concat (take i parts)) + j < length (concat parts)"
    and "concat (parts[i := (parts ! i)[j := v]]) = (concat parts)[length (concat (take i parts)) + j := v]"
proof -
  have split: "parts = take i parts @ parts ! i # drop (Suc i) parts" using assms(1) by (simp add: id_take_nth_drop)
  then have c: "concat parts = concat (take i parts) @ parts ! i @ concat (drop (Suc i) parts)"
    by (metis concat.simps(2) concat_append)
  show "concat parts ! (length (concat (take i parts)) + j) = parts ! i ! j"
    using assms(2) by (simp only: c) (simp add: nth_append)
  show "length (concat (take i parts)) + j < length (concat parts)"
    using assms(2) by (simp only: c) simp
  have "concat (parts[i := (parts ! i)[j := v]]) = concat (take i parts) @ (parts ! i)[j := v] @ concat (drop (Suc i) parts)"
    using assms(1) by (simp add: upd_conv_take_nth_drop)
  also have "\<dots> = (concat parts)[length (concat (take i parts)) + j := v]"
    using assms(2) by (simp only: c) (simp add: list_update_append)
  finally show "concat (parts[i := (parts ! i)[j := v]]) = (concat parts)[length (concat (take i parts)) + j := v]" .
qed

lemma query_part:
  assumes "finds_interval query"
  shows "idx < length (concat parts) \<Longrightarrow> \<exists>i j. query (multi_intervals 0 0 parts) idx =
      Some (length (concat (take i parts)), i) \<and> i < length parts \<and> j < length (parts ! i) \<and>
      idx = length (concat (take i parts)) + j"
    and "length (concat parts) \<le> idx \<Longrightarrow> query (multi_intervals 0 0 parts) idx = None"
proof -
  let ?q = "query (multi_intervals 0 0 parts) idx"
  have some: "\<exists>t. (s, t, v) \<in> set (multi_intervals 0 0 parts) \<and> s \<le> idx \<and> idx < t" if "?q = Some (s, v)" for s v
    using assms that by (simp add: finds_interval_def)
  have none: "\<not> (s \<le> idx \<and> idx < t)" if "?q = None" "(s, t, v) \<in> set (multi_intervals 0 0 parts)" for s t v
    using assms that unfolding finds_interval_def by blast
  have found: "\<exists>i j. ?q = Some (length (concat (take i parts)), i) \<and> i < length parts \<and> j < length (parts ! i) \<and>
      idx = length (concat (take i parts)) + j" if q: "?q = Some (s, v)" for s v
  proof -
    obtain t where t: "(s, t, v) \<in> set (multi_intervals 0 0 parts)" "s \<le> idx" "idx < t" using some [OF q] by blast
    then have "v < length parts" "s = length (concat (take v parts))" "t = s + length (parts ! v)"
      by (auto simp: multi_intervals_iff)
    with t q show ?thesis by (intro exI [of _ v] exI [of _ "idx - s"]) auto
  qed
  show "\<exists>i j. ?q = Some (length (concat (take i parts)), i) \<and> i < length parts \<and> j < length (parts ! i) \<and>
      idx = length (concat (take i parts)) + j" if len: "idx < length (concat parts)"
  proof (cases "?q")
    case None
    obtain i where "i < length parts" "length (concat (take i parts)) \<le> idx"
      "idx < length (concat (take i parts)) + length (parts ! i)" using part_of_index [OF len] by blast
    then show ?thesis using none [OF None] by (auto simp: multi_intervals_iff)
  qed (use found in force)
  show "?q = None" if "length (concat parts) \<le> idx"
  proof (rule ccontr)
    assume "?q \<noteq> None"
    then obtain i j where "i < length parts" "j < length (parts ! i)" "idx = length (concat (take i parts)) + j"
      using found by force
    then show False using concat_nth_part(2) that by fastforce
  qed
qed

text \<open>
  C26. A multi map behaves as the concatenation of its parts: reading and writing an index goes to that
  entry of the concatenation, and an index past the last part panics.
\<close>

theorem multi_map_is_concatenation:
  assumes "finds_interval query"
  shows "map_get query (MultiMap parts ini) idx =
      (if idx < length (concat parts) then Inr (concat parts ! idx) else Inl Panic) \<and>
    (\<exists>parts'. map_set query idx v (MultiMap parts ini) =
        (if idx < length (concat parts) then Inr (MultiMap parts' ini) else Inl Panic) \<and>
      map length parts' = map length parts \<and> concat parts' = (concat parts)[idx := v])"
proof (cases "idx < length (concat parts)")
  case True
  then obtain i j where q: "query (multi_intervals 0 0 parts) idx = Some (length (concat (take i parts)), i)"
    "i < length parts" "j < length (parts ! i)" "idx = length (concat (take i parts)) + j"
    using query_part(1) [OF assms] by blast
  let ?ps = "parts[i := (parts ! i)[j := v]]"
  have j: "idx - length (concat (take i parts)) = j" using q(4) by linarith
  have "map length ?ps = map length parts"
    using q(2) by (simp add: map_update list_update_same_conv)
  moreover have "map_set query idx v (MultiMap parts ini) = Inr (MultiMap ?ps ini)"
    using q(1-3) by (simp add: j Let_def)
  moreover have "concat ?ps = (concat parts)[idx := v]"
    unfolding q(4) by (rule concat_nth_part(3) [OF q(2,3)])
  moreover have "map_get query (MultiMap parts ini) idx = Inr (concat parts ! idx)"
    using q(1-3) concat_nth_part(1) [OF q(2,3)] by (simp add: j Let_def q(4) [symmetric])
  ultimately show ?thesis using True by (intro conjI exI [of _ ?ps]) simp_all
next
  case False
  then have "query (multi_intervals 0 0 parts) idx = None" by (intro query_part(2) [OF assms]) simp
  moreover have "(concat parts)[idx := v] = concat parts" using False by (simp add: list_update_beyond)
  ultimately show ?thesis using False by (intro conjI exI [of _ parts]) auto
qed

text \<open>The lookup in a list of intervals, first to last.\<close>

definition first_interval :: interval_query where
  "first_interval ivs idx = map_option (\<lambda>(s, t, v). (s, v)) (find (\<lambda>(s, t, v). s \<le> idx \<and> idx < t) ivs)"

lemma first_interval_finds: "finds_interval first_interval"
  unfolding finds_interval_def first_interval_def
  by (auto simp: find_Some_iff find_None_iff dest!: nth_mem)

theorem multi_map_is_concatenation_witness:
  "map_get first_interval (MultiMap [[1, 2], [], [3]] 0) 2 = Inr 3 \<and>
   map_get first_interval (MultiMap [[1, 2], [], [3]] 0) 3 = Inl Panic"
  using multi_map_is_concatenation [OF first_interval_finds, of "[[1, 2], [], [3]]" 0 2]
    multi_map_is_concatenation [OF first_interval_finds, of "[[1, 2], [], [3]]" 0 3] by simp

end
