(* ===== verification/Feedbacks.thy ===== *)
theory Feedbacks
  imports Observers
begin

text \<open>
  The feedbacks (\<^verbatim>\<open>libaflmm/src/feedbacks\<close>): after a run they say whether the input is
  interesting, and when it was added to a corpus they record what it covers. A feedback may have a
  state of its own and has metadata in the state of the fuzzer, found by its name; the metadata is
  registered before the first run.

  The lemmas: after a registration no feedback misses its metadata; the verdict of a combination
  is the formula over the verdicts of its parts, whichever parts the fast combinations skip; and
  what was recorded once does not make the same observation interesting again.
\<close>

section \<open>The feedbacks of the library\<close>

datatype reducer = MaxReducer | MinReducer | NopReducer | OrReducer | AndReducer

fun reduce :: "reducer \<Rightarrow> u8 \<Rightarrow> u8 \<Rightarrow> u8" where
  "reduce MaxReducer = max_reduce"
| "reduce MinReducer = min_reduce"
| "reduce NopReducer = nop_reduce"
| "reduce OrReducer = or_reduce"
| "reduce AndReducer = and_reduce"

datatype novelty = AllIsNovel | DifferentIsNovel | NextPow2IsNovel | OneOrFilledIsNovel

fun is_novel :: "novelty \<Rightarrow> u8 \<Rightarrow> u8 \<Rightarrow> bool" where
  "is_novel AllIsNovel = all_is_novel"
| "is_novel DifferentIsNovel = different_is_novel"
| "is_novel NextPow2IsNovel = next_pow2_is_novel"
| "is_novel OneOrFilledIsNovel = one_or_filled_is_novel"

datatype logic = EagerOr | FastOr | EagerAnd | FastAnd

text \<open>
  A map feedback has its own name, the name of its observer, a reducer and a novelty; a list
  feedback, a time feedback and the output feedbacks are named as their observers. The set in a list
  feedback are the novelties of the last run. \<open>OutputFb True\<close> is for the standard output.
\<close>

datatype feedback =
    MapFb string string reducer novelty
  | ListFb string "u64 set"
  | ExitKindFb exit_kind
  | TimeFb string
  | BoolFb string
  | OutputFb bool string
  | ConstFb bool
  | NotFb feedback
  | CombinedFb logic feedback feedback

definition crash_feedback :: feedback where "crash_feedback = ExitKindFb ExitCrash"

definition timeout_feedback :: feedback where "timeout_feedback = ExitKindFb ExitTimeout"

definition std_objective_feedback :: feedback where
  "std_objective_feedback = CombinedFb FastOr crash_feedback timeout_feedback"

definition afl_map_feedback :: "string \<Rightarrow> feedback" where
  "afl_map_feedback ob = MapFb ob ob OrReducer DifferentIsNovel"

definition check_exit_kind :: "exit_kind \<Rightarrow> exit_kind \<Rightarrow> bool" where
  "check_exit_kind watched kind \<longleftrightarrow> kind = watched"

section \<open>Registration\<close>

definition register_map_md :: "string \<Rightarrow> 'b metadata \<Rightarrow> error + 'b metadata" where
  "register_map_md name md =
     (if md_maps md name \<noteq> None then Inl Panic
      else Inr (md\<lparr>md_maps := (md_maps md)(name \<mapsto> \<lparr>history_map = [], num_covered = 0\<rparr>)\<rparr>))"

definition register_list_md :: "string \<Rightarrow> 'b metadata \<Rightarrow> error + 'b metadata" where
  "register_list_md name md =
     (if md_lists md name \<noteq> None then Inl Panic
      else Inr (md\<lparr>md_lists := (md_lists md)(name \<mapsto> {})\<rparr>))"

fun fb_register :: "feedback \<Rightarrow> 'b metadata \<Rightarrow> error + 'b metadata" where
  "fb_register (MapFb name _ _ _) md = register_map_md name md"
| "fb_register (ListFb name _) md = register_list_md name md"
| "fb_register (NotFb fb) md = fb_register fb md"
| "fb_register (CombinedFb _ fb1 fb2) md = rbind (fb_register fb1 md) (fb_register fb2)"
| "fb_register _ md = Inr md"

section \<open>Verdicts\<close>

text \<open>\<open>is_pair_interesting\<close>, over the two feedbacks as steps.\<close>

fun pair_interesting ::
  "logic \<Rightarrow> ('s \<Rightarrow> (error + bool) \<times> 'f \<times> 's) \<Rightarrow> ('s \<Rightarrow> (error + bool) \<times> 'g \<times> 's) \<Rightarrow> 'g \<Rightarrow> 's
    \<Rightarrow> (error + bool) \<times> ('f \<times> 'g) \<times> 's" where
  "pair_interesting l first second g st =
     (case first st of
        (Inl e, f, st) \<Rightarrow> (Inl e, (f, g), st)
      | (Inr a, f, st) \<Rightarrow>
          if l = FastOr \<and> a then (Inr True, (f, g), st)
          else if l = FastAnd \<and> \<not> a then (Inr False, (f, g), st)
          else (case second st of
              (Inl e, g, st) \<Rightarrow> (Inl e, (f, g), st)
            | (Inr b, g, st) \<Rightarrow>
                (Inr (case l of EagerOr \<Rightarrow> a \<or> b | EagerAnd \<Rightarrow> a \<and> b | _ \<Rightarrow> b), (f, g), st)))"

definition put_map_md :: "string \<Rightarrow> u8 map_feedback_md \<Rightarrow> ('i, 'c, 'k, 'b) std_state \<Rightarrow> ('i, 'c, 'k, 'b) std_state" where
  "put_map_md name md st =
     st\<lparr>metadata := (metadata st)\<lparr>md_maps := (md_maps (metadata st))(name \<mapsto> md)\<rparr>\<rparr>"

definition map_fb_interesting ::
  "string \<Rightarrow> string \<Rightarrow> reducer \<Rightarrow> novelty \<Rightarrow> observers \<Rightarrow> ('i, 'c, 'k, 'b) std_state
    \<Rightarrow> (error + bool) \<times> ('i, 'c, 'k, 'b) std_state" where
  "map_fb_interesting name ob red nov obs st =
     (case get_map_observer ob obs of
        None \<Rightarrow> (Inl Panic, st)
      | Some m \<Rightarrow>
          (case md_maps (metadata st) name of
             None \<Rightarrow> (Inl Panic, st)
           | Some md \<Rightarrow>
               (case map_entries m of
                  Inl e \<Rightarrow> (Inl e, st)
                | Inr xs \<Rightarrow>
                    (case map_is_interesting (reduce red) (is_novel nov) (map_initial m) xs md of
                       (b, md) \<Rightarrow> (Inr b, put_map_md name md st)))))"

definition list_fb_interesting ::
  "string \<Rightarrow> u64 set \<Rightarrow> observers \<Rightarrow> ('i, 'c, 'k, 'b) std_state \<Rightarrow> (error + bool) \<times> u64 set" where
  "list_fb_interesting name old obs st =
     (case get_list_observer name obs of
        None \<Rightarrow> (Inl Panic, old)
      | Some vs \<Rightarrow>
          (case md_lists (metadata st) name of
             None \<Rightarrow> (Inl Panic, {})
           | Some history \<Rightarrow>
               let nov = fold (\<lambda>v nov. if v \<notin> history then insert v nov else nov) vs {}
               in (Inr (nov \<noteq> {}), nov)))"

fun fb_is_interesting ::
  "feedback \<Rightarrow> observers \<Rightarrow> exit_kind \<Rightarrow> ('i, 'c, 'k, 'b) std_state
    \<Rightarrow> (error + bool) \<times> feedback \<times> ('i, 'c, 'k, 'b) std_state" where
  "fb_is_interesting (MapFb name ob red nov) obs kind st =
     (case map_fb_interesting name ob red nov obs st of (r, st) \<Rightarrow> (r, MapFb name ob red nov, st))"
| "fb_is_interesting (ListFb name old) obs kind st =
     (case list_fb_interesting name old obs st of (r, nov) \<Rightarrow> (r, ListFb name nov, st))"
| "fb_is_interesting (ExitKindFb watched) obs kind st = (Inr (check_exit_kind watched kind), ExitKindFb watched, st)"
| "fb_is_interesting (BoolFb ob) obs kind st =
     ((case get_bool_observer ob obs of None \<Rightarrow> Inl IllegalState | Some v \<Rightarrow> Inr v), BoolFb ob, st)"
| "fb_is_interesting (TimeFb ob) obs kind st = (Inr False, TimeFb ob, st)"
| "fb_is_interesting (OutputFb out ob) obs kind st = (Inr False, OutputFb out ob, st)"
| "fb_is_interesting (ConstFb b) obs kind st = (Inr b, ConstFb b, st)"
| "fb_is_interesting (NotFb fb) obs kind st =
     (case fb_is_interesting fb obs kind st of (r, fb, st) \<Rightarrow> (map_sum id Not r, NotFb fb, st))"
| "fb_is_interesting (CombinedFb l fb1 fb2) obs kind st =
     (case pair_interesting l (fb_is_interesting fb1 obs kind) (fb_is_interesting fb2 obs kind) fb2 st of
        (r, (fb1, fb2), st) \<Rightarrow> (r, CombinedFb l fb1 fb2, st))"

section \<open>Recording\<close>

definition map_fb_append ::
  "string \<Rightarrow> string \<Rightarrow> reducer \<Rightarrow> observers \<Rightarrow> ('i, 'c, 'k, 'b) std_state
    \<Rightarrow> (error + unit) \<times> ('i, 'c, 'k, 'b) std_state" where
  "map_fb_append name ob red obs st =
     (case get_map_observer ob obs of
        None \<Rightarrow> (Inl Panic, st)
      | Some m \<Rightarrow>
          (case md_maps (metadata st) name of
             None \<Rightarrow> (Inl Panic, st)
           | Some md \<Rightarrow>
               (case map_entries m of
                  Inl e \<Rightarrow> (Inl e, st)
                | Inr xs \<Rightarrow>
                    (case map_append_metadata (reduce red) (map_initial m) xs md of
                       (md, covered, len) \<Rightarrow>
                         (Inr (), report_stat (''coverage-'' @ name) (Coverage covered len) (put_map_md name md st))))))"

definition list_fb_append ::
  "string \<Rightarrow> u64 set \<Rightarrow> ('i, 'c, 'k, 'b) std_state \<Rightarrow> (error + unit) \<times> ('i, 'c, 'k, 'b) std_state" where
  "list_fb_append name nov st =
     (case md_lists (metadata st) name of
        None \<Rightarrow> (Inl Panic, st)
      | Some history \<Rightarrow>
          (Inr (), st\<lparr>metadata := (metadata st)\<lparr>md_lists := (md_lists (metadata st))(name \<mapsto> history \<union> nov)\<rparr>\<rparr>))"

definition output_fb_append ::
  "bool \<Rightarrow> string \<Rightarrow> observers \<Rightarrow> u64 \<Rightarrow> ('i, 'c, 'k, 'b) std_state
    \<Rightarrow> (error + unit) \<times> ('i, 'c, 'k, 'b) std_state" where
  "output_fb_append out ob obs tid st =
     (case get_output_observer out ob obs of
        Some (Some buffer) \<Rightarrow>
          let md = metadata st; texts = (if out then md_stdout md else md_stderr md)
          in (case texts ob of
                None \<Rightarrow> (Inl Panic, st)
              | Some m \<Rightarrow>
                  let texts = texts(ob \<mapsto> m(tid \<mapsto> buffer))
                  in (Inr (), st\<lparr>metadata := (if out then md\<lparr>md_stdout := texts\<rparr> else md\<lparr>md_stderr := texts\<rparr>)\<rparr>))
      | _ \<Rightarrow> (Inl IllegalState, st))"

fun fb_append_metadata ::
  "feedback \<Rightarrow> observers \<Rightarrow> u64 \<Rightarrow> ('i, 'c, 'k, 'b) std_state
    \<Rightarrow> (error + unit) \<times> ('i, 'c, 'k, 'b) std_state" where
  "fb_append_metadata (MapFb name ob red nov) obs tid st = map_fb_append name ob red obs st"
| "fb_append_metadata (ListFb name nov) obs tid st = list_fb_append name nov st"
| "fb_append_metadata (TimeFb ob) obs tid st =
     (case get_time_observer ob obs of
        None \<Rightarrow> (Inl IllegalState, st)
      | Some t \<Rightarrow> (Inr (), update_testcase_md tid (\<lambda>md. md\<lparr>md_exec_time := t\<rparr>) st))"
| "fb_append_metadata (OutputFb out ob) obs tid st = output_fb_append out ob obs tid st"
| "fb_append_metadata (NotFb fb) obs tid st = fb_append_metadata fb obs tid st"
| "fb_append_metadata (CombinedFb l fb1 fb2) obs tid st =
     (case fb_append_metadata fb1 obs tid st of
        (Inl e, st) \<Rightarrow> (Inl e, st)
      | (Inr _, st) \<Rightarrow> fb_append_metadata fb2 obs tid st)"
| "fb_append_metadata fb obs tid st = (Inr (), st)"

section \<open>The verdict as a formula\<close>

text \<open>
  What a feedback depends on in a state, and the verdict it should give there: the connectives of
  propositional logic over the verdicts of the single feedbacks, all in the state before the run
  was looked at.
\<close>

fun fb_map_names :: "feedback \<Rightarrow> string list" where
  "fb_map_names (MapFb name _ _ _) = [name]"
| "fb_map_names (NotFb fb) = fb_map_names fb"
| "fb_map_names (CombinedFb _ fb1 fb2) = fb_map_names fb1 @ fb_map_names fb2"
| "fb_map_names _ = []"

fun fb_list_names :: "feedback \<Rightarrow> string list" where
  "fb_list_names (ListFb name _) = [name]"
| "fb_list_names (NotFb fb) = fb_list_names fb"
| "fb_list_names (CombinedFb _ fb1 fb2) = fb_list_names fb1 @ fb_list_names fb2"
| "fb_list_names _ = []"

fun fb_verdict :: "feedback \<Rightarrow> observers \<Rightarrow> exit_kind \<Rightarrow> 'b metadata \<Rightarrow> bool" where
  "fb_verdict (MapFb name ob red nov) obs kind md =
     (case (get_map_observer ob obs, md_maps md name) of
        (Some m, Some h) \<Rightarrow>
          (case map_entries m of
             Inr xs \<Rightarrow> fst (map_is_interesting (reduce red) (is_novel nov) (map_initial m) xs h)
           | Inl _ \<Rightarrow> False)
      | _ \<Rightarrow> False)"
| "fb_verdict (ListFb name _) obs kind md =
     (case (get_list_observer name obs, md_lists md name) of
        (Some vs, Some history) \<Rightarrow> \<not> set vs \<subseteq> history
      | _ \<Rightarrow> False)"
| "fb_verdict (ExitKindFb watched) obs kind md = (kind = watched)"
| "fb_verdict (BoolFb ob) obs kind md = (get_bool_observer ob obs = Some True)"
| "fb_verdict (TimeFb ob) obs kind md = False"
| "fb_verdict (OutputFb out ob) obs kind md = False"
| "fb_verdict (ConstFb b) obs kind md = b"
| "fb_verdict (NotFb fb) obs kind md = (\<not> fb_verdict fb obs kind md)"
| "fb_verdict (CombinedFb l fb1 fb2) obs kind md =
     (if l = EagerOr \<or> l = FastOr then fb_verdict fb1 obs kind md \<or> fb_verdict fb2 obs kind md
      else fb_verdict fb1 obs kind md \<and> fb_verdict fb2 obs kind md)"

lemma fold_novelty:
  "fold (\<lambda>v nov. if v \<notin> history then insert v nov else nov) vs acc = acc \<union> (set vs - history)"
  by (induction vs arbitrary: acc) auto

lemma fb_verdict_frame:
  assumes "\<forall>n \<in> set (fb_map_names fb). md_maps md' n = md_maps md n"
    and "\<forall>n \<in> set (fb_list_names fb). md_lists md' n = md_lists md n"
  shows "fb_verdict fb obs kind md' = fb_verdict fb obs kind md"
  using assms by (induction fb) simp_all

text \<open>Looking at a run changes the state only in the histories of the feedback's own maps.\<close>

definition only_maps :: "string set \<Rightarrow> ('i, 'c, 'k, 'b) std_state \<Rightarrow> ('i, 'c, 'k, 'b) std_state \<Rightarrow> bool" where
  "only_maps ns st st' \<longleftrightarrow> (\<exists>maps. st' = st\<lparr>metadata := (metadata st)\<lparr>md_maps := maps\<rparr>\<rparr> \<and>
     (\<forall>n. n \<notin> ns \<longrightarrow> maps n = md_maps (metadata st) n) \<and>
     (\<forall>n. (maps n = None) = (md_maps (metadata st) n = None)))"

lemma only_maps_refl: "only_maps ns st st"
  by (auto simp: only_maps_def intro!: exI [of _ "md_maps (metadata st)"])

lemma only_maps_trans: "only_maps ns st st' \<Longrightarrow> only_maps ns' st' st'' \<Longrightarrow> only_maps (ns \<union> ns') st st''"
  by (auto simp: only_maps_def)

lemma only_maps_mono: "only_maps ns st st' \<Longrightarrow> ns \<subseteq> ns' \<Longrightarrow> only_maps ns' st st'"
  by (auto simp: only_maps_def)

lemma only_mapsD:
  assumes "only_maps ns st st'"
  shows "md_lists (metadata st') = md_lists (metadata st)" "n \<notin> ns \<Longrightarrow> md_maps (metadata st') n = md_maps (metadata st) n"
    "(md_maps (metadata st') n = None) = (md_maps (metadata st) n = None)"
  using assms by (auto simp: only_maps_def)

lemma only_maps_put: "md_maps (metadata st) name \<noteq> None \<Longrightarrow> only_maps {name} st (put_map_md name md st)"
  unfolding only_maps_def put_map_md_def
  by (rule exI [of _ "(md_maps (metadata st))(name \<mapsto> md)"]) simp

lemma map_fb_interesting_ok:
  assumes "map_fb_interesting name ob red nov obs st = (r, st')"
  shows "only_maps {name} st st' \<and>
    (\<forall>b. r = Inr b \<longrightarrow> b = fb_verdict (MapFb name ob red nov) obs kind (metadata st))"
  using assms
  by (auto simp: map_fb_interesting_def only_maps_refl only_maps_put split: option.splits sum.splits prod.splits)

lemma same_names:
  "fb_is_interesting fb obs kind st = (r, fb', st') \<Longrightarrow>
    fb_map_names fb' = fb_map_names fb \<and> fb_list_names fb' = fb_list_names fb"
proof (induction fb arbitrary: st r fb' st')
  case (CombinedFb l fb1 fb2)
  show ?case using CombinedFb.prems
    by (auto split: prod.splits sum.splits if_splits dest!: CombinedFb.IH)
qed (auto split: prod.splits)

lemma fb_is_interesting_ok:
  "distinct (fb_map_names fb) \<Longrightarrow> fb_is_interesting fb obs kind st = (r, fb', st') \<Longrightarrow>
    only_maps (set (fb_map_names fb)) st st' \<and>
    (\<forall>b. r = Inr b \<longrightarrow> b = fb_verdict fb obs kind (metadata st))"
proof (induction fb arbitrary: st r fb' st')
  case (MapFb name ob red nov)
  then show ?case using map_fb_interesting_ok [of name ob red nov obs st _ _ kind] by (auto split: prod.splits)
next
  case (ListFb name old)
  then show ?case
    by (auto simp: list_fb_interesting_def only_maps_refl fold_novelty Let_def split: option.splits)
next
  case (NotFb fb)
  obtain r1 f1 st1 where "fb_is_interesting fb obs kind st = (r1, f1, st1)" by (metis prod_cases3)
  with NotFb show ?case by (cases r1) auto
next
  case (CombinedFb l fb1 fb2)
  obtain r1 f1 st1 where one: "fb_is_interesting fb1 obs kind st = (r1, f1, st1)" by (metis prod_cases3)
  obtain r2 f2 st2 where two: "fb_is_interesting fb2 obs kind st1 = (r2, f2, st2)" by (metis prod_cases3)
  let ?N1 = "set (fb_map_names fb1)" let ?N2 = "set (fb_map_names fb2)"
  have d: "distinct (fb_map_names fb1)" "distinct (fb_map_names fb2)" "?N1 \<inter> ?N2 = {}"
    using CombinedFb.prems(1) by auto
  note ok1 = CombinedFb.IH(1) [OF d(1) one] and ok2 = CombinedFb.IH(2) [OF d(2) two]
  have only1: "only_maps ?N1 st st1" and only2: "only_maps ?N2 st1 st2" using ok1 ok2 by simp_all
  have frame: "fb_verdict fb2 obs kind (metadata st1) = fb_verdict fb2 obs kind (metadata st)"
    using only_mapsD [OF only1] d(3) by (intro fb_verdict_frame) auto
  have mono1: "only_maps (?N1 \<union> ?N2) st st1" using only1 by (rule only_maps_mono) simp
  have both: "only_maps (?N1 \<union> ?N2) st st2" using only1 only2 by (rule only_maps_trans)
  show ?case
  proof (cases r1)
    case (Inl e)
    with one CombinedFb.prems(2) mono1 show ?thesis by auto
  next
    case (Inr a)
    then have a: "a = fb_verdict fb1 obs kind (metadata st)" using ok1 by simp
    have b: "b = fb_verdict fb2 obs kind (metadata st)" if "r2 = Inr b" for b using ok2 that frame by simp
    show ?thesis
      using CombinedFb.prems(2) one two Inr a b mono1 both
      by (cases l) (auto split: if_splits sum.splits)
  qed
qed (auto simp: only_maps_refl check_exit_kind_def split: option.splits)


text \<open>
  C13. The verdict of any tree of feedbacks on a run is the formula over the verdicts of its leaves in
  the state before; looking at the run changes nothing of the state but the length of its own maps'
  histories.
\<close>

theorem combinations_are_formulas:
  assumes "distinct (fb_map_names fb)" "fb_is_interesting fb obs kind st = (Inr b, fb', st')"
  shows "b = fb_verdict fb obs kind (metadata st) \<and> only_maps (set (fb_map_names fb)) st st'"
  using fb_is_interesting_ok [OF assms] by simp

section \<open>Registered feedbacks\<close>

text \<open>The output feedbacks do not register their metadata.\<close>

fun fb_registered :: "feedback \<Rightarrow> 'b metadata \<Rightarrow> bool" where
  "fb_registered (MapFb name _ _ _) md \<longleftrightarrow> md_maps md name \<noteq> None"
| "fb_registered (ListFb name _) md \<longleftrightarrow> md_lists md name \<noteq> None"
| "fb_registered (OutputFb out ob) md \<longleftrightarrow> (if out then md_stdout md ob \<noteq> None else md_stderr md ob \<noteq> None)"
| "fb_registered (NotFb fb) md \<longleftrightarrow> fb_registered fb md"
| "fb_registered (CombinedFb _ fb1 fb2) md \<longleftrightarrow> fb_registered fb1 md \<and> fb_registered fb2 md"
| "fb_registered _ md \<longleftrightarrow> True"

fun fb_outputs :: "feedback \<Rightarrow> bool" where
  "fb_outputs (OutputFb _ _) \<longleftrightarrow> True"
| "fb_outputs (NotFb fb) \<longleftrightarrow> fb_outputs fb"
| "fb_outputs (CombinedFb _ fb1 fb2) \<longleftrightarrow> fb_outputs fb1 \<or> fb_outputs fb2"
| "fb_outputs _ \<longleftrightarrow> False"

text \<open>The observers a feedback reads are in the tuple, and the maps are within their bounds.\<close>

fun fb_observed :: "feedback \<Rightarrow> observers \<Rightarrow> bool" where
  "fb_observed (MapFb _ ob _ _) obs \<longleftrightarrow> (\<exists>m. get_map_observer ob obs = Some m \<and> map_ok m)"
| "fb_observed (ListFb name _) obs \<longleftrightarrow> get_list_observer name obs \<noteq> None"
| "fb_observed (BoolFb ob) obs \<longleftrightarrow> get_bool_observer ob obs \<noteq> None"
| "fb_observed (TimeFb ob) obs \<longleftrightarrow> get_time_observer ob obs \<noteq> None"
| "fb_observed (OutputFb out ob) obs \<longleftrightarrow> (\<exists>buf. get_output_observer out ob obs = Some (Some buf))"
| "fb_observed (NotFb fb) obs \<longleftrightarrow> fb_observed fb obs"
| "fb_observed (CombinedFb _ fb1 fb2) obs \<longleftrightarrow> fb_observed fb1 obs \<and> fb_observed fb2 obs"
| "fb_observed _ obs \<longleftrightarrow> True"

text \<open>No metadata is ever taken away.\<close>

definition md_grows :: "'b metadata \<Rightarrow> 'b metadata \<Rightarrow> bool" where
  "md_grows md md' \<longleftrightarrow> (\<forall>n. (md_maps md n \<noteq> None \<longrightarrow> md_maps md' n \<noteq> None) \<and>
     (md_lists md n \<noteq> None \<longrightarrow> md_lists md' n \<noteq> None) \<and>
     (md_stdout md n \<noteq> None \<longrightarrow> md_stdout md' n \<noteq> None) \<and> (md_stderr md n \<noteq> None \<longrightarrow> md_stderr md' n \<noteq> None))"

lemma md_grows_refl [simp]: "md_grows md md"
  by (simp add: md_grows_def)

lemma md_grows_trans: "md_grows md md' \<Longrightarrow> md_grows md' md'' \<Longrightarrow> md_grows md md''"
  by (simp add: md_grows_def)

lemma fb_registered_grows: "fb_registered fb md \<Longrightarrow> md_grows md md' \<Longrightarrow> fb_registered fb md'"
  by (induction fb) (auto simp: md_grows_def split: if_splits)

lemma only_maps_grows: "only_maps ns st st' \<Longrightarrow> md_grows (metadata st) (metadata st')"
  by (clarsimp simp: only_maps_def md_grows_def) (metis not_None_eq)

lemma fb_register_grows: "fb_register fb md = Inr md' \<Longrightarrow> md_grows md md'"
proof (induction fb arbitrary: md md')
  case (CombinedFb l fb1 fb2)
  then obtain md1 where "fb_register fb1 md = Inr md1" "fb_register fb2 md1 = Inr md'" by (auto simp: rbind_Inr_iff)
  then show ?case by (blast intro: md_grows_trans CombinedFb.IH)
qed (auto simp: register_map_md_def register_list_md_def md_grows_def split: if_splits)

lemma fb_register_registers: "fb_register fb md = Inr md' \<Longrightarrow> \<not> fb_outputs fb \<Longrightarrow> fb_registered fb md'"
proof (induction fb arbitrary: md md')
  case (CombinedFb l fb1 fb2)
  then show ?case by (auto simp: rbind_Inr_iff intro: fb_registered_grows fb_register_grows)
qed (auto simp: register_map_md_def register_list_md_def split: if_splits)

lemma fb_register_succeeds:
  assumes "distinct (fb_map_names fb)" "distinct (fb_list_names fb)"
    and "\<forall>n \<in> set (fb_map_names fb). md_maps md n = None" "\<forall>n \<in> set (fb_list_names fb). md_lists md n = None"
  shows "\<exists>md'. fb_register fb md = Inr md' \<and> (\<forall>n. n \<notin> set (fb_map_names fb) \<longrightarrow> md_maps md' n = md_maps md n) \<and>
    (\<forall>n. n \<notin> set (fb_list_names fb) \<longrightarrow> md_lists md' n = md_lists md n)"
  using assms
proof (induction fb arbitrary: md)
  case (CombinedFb l fb1 fb2)
  obtain md1 where md1: "fb_register fb1 md = Inr md1"
    "\<forall>n. n \<notin> set (fb_map_names fb1) \<longrightarrow> md_maps md1 n = md_maps md n"
    "\<forall>n. n \<notin> set (fb_list_names fb1) \<longrightarrow> md_lists md1 n = md_lists md n"
    using CombinedFb.IH(1) [of md] CombinedFb.prems by auto
  have "\<forall>n \<in> set (fb_map_names fb2). md_maps md1 n = None" "\<forall>n \<in> set (fb_list_names fb2). md_lists md1 n = None"
    using md1(2,3) CombinedFb.prems by auto
  then obtain md2 where "fb_register fb2 md1 = Inr md2"
    "\<forall>n. n \<notin> set (fb_map_names fb2) \<longrightarrow> md_maps md2 n = md_maps md1 n"
    "\<forall>n. n \<notin> set (fb_list_names fb2) \<longrightarrow> md_lists md2 n = md_lists md1 n"
    using CombinedFb.IH(2) [of md1] CombinedFb.prems by auto
  with md1 show ?case by auto
qed (auto simp: register_map_md_def register_list_md_def)

text \<open>A name used twice for the metadata of one type is refused.\<close>

lemma map_entries_ok: "map_ok m \<Longrightarrow> \<exists>xs. map_entries m = Inr xs"
  using map_chunks_ok [of m] by (auto simp: map_entries_def)

lemma fb_is_interesting_total:
  fixes st :: "('i, 'c, 'k, 'b) std_state"
  shows "fb_registered fb (metadata st) \<Longrightarrow> fb_observed fb obs \<Longrightarrow>
    \<exists>b fb' st'. fb_is_interesting fb obs kind st = (Inr b, fb', st') \<and> md_grows (metadata st) (metadata st') \<and>
      fb_observed fb' obs \<and> (\<forall>md :: 'b metadata. fb_registered fb' md = fb_registered fb md)"
proof (induction fb arbitrary: st)
  case (MapFb name ob red nov)
  then obtain m md where m: "get_map_observer ob obs = Some m" "map_ok m" "md_maps (metadata st) name = Some md" by auto
  moreover obtain xs where "map_entries m = Inr xs" using map_entries_ok [OF m(2)] by blast
  ultimately show ?case
    by (auto simp: map_fb_interesting_def put_map_md_def md_grows_def split: prod.splits)
next
  case (ListFb name old)
  then show ?case by (auto simp: list_fb_interesting_def Let_def)
next
  case (NotFb fb)
  have "fb_registered fb (metadata st)" "fb_observed fb obs" using NotFb.prems by simp_all
  from NotFb.IH [OF this] obtain b fb' st' where "fb_is_interesting fb obs kind st = (Inr b, fb', st')"
    "md_grows (metadata st) (metadata st')" "fb_observed fb' obs" "\<forall>md :: 'b metadata. fb_registered fb' md = fb_registered fb md"
    by (elim exE conjE)
  then show ?case by simp
next
  case (CombinedFb l fb1 fb2)
  obtain a f1 st1 where one: "fb_is_interesting fb1 obs kind st = (Inr a, f1, st1)"
    "md_grows (metadata st) (metadata st1)" "fb_observed f1 obs" "\<forall>md :: 'b metadata. fb_registered f1 md = fb_registered fb1 md"
    using CombinedFb.IH(1) [of st] CombinedFb.prems by auto
  have "fb_registered fb2 (metadata st1)" using CombinedFb.prems one(2) by (auto intro: fb_registered_grows)
  then obtain b f2 st2 where two: "fb_is_interesting fb2 obs kind st1 = (Inr b, f2, st2)"
    "md_grows (metadata st1) (metadata st2)" "fb_observed f2 obs" "\<forall>md :: 'b metadata. fb_registered f2 md = fb_registered fb2 md"
    using CombinedFb.IH(2) [of st1] CombinedFb.prems by auto
  have "md_grows (metadata st) (metadata st2)" using one(2) two(2) by (rule md_grows_trans)
  with one two CombinedFb.prems show ?case by (cases l) auto
qed auto

lemma fb_append_total:
  "fb_registered fb (metadata st) \<Longrightarrow> fb_observed fb obs \<Longrightarrow>
    \<exists>st'. fb_append_metadata fb obs tid st = (Inr (), st') \<and> md_grows (metadata st) (metadata st')"
proof (induction fb arbitrary: st)
  case (MapFb name ob red nov)
  then obtain m md where m: "get_map_observer ob obs = Some m" "map_ok m" "md_maps (metadata st) name = Some md" by auto
  moreover obtain xs where "map_entries m = Inr xs" using map_entries_ok [OF m(2)] by blast
  ultimately show ?case
    by (auto simp: map_fb_append_def put_map_md_def report_stat_def md_grows_def split: prod.splits)
next
  case (ListFb name old)
  then show ?case by (auto simp: list_fb_append_def md_grows_def)
next
  case (TimeFb ob)
  then show ?case by (auto simp: update_testcase_md_def)
next
  case (OutputFb out ob)
  then show ?case by (cases out) (auto simp: output_fb_append_def md_grows_def Let_def)
next
  case (CombinedFb l fb1 fb2)
  obtain st1 where one: "fb_append_metadata fb1 obs tid st = (Inr (), st1)" "md_grows (metadata st) (metadata st1)"
    using CombinedFb.IH(1) [of st] CombinedFb.prems by auto
  have "fb_registered fb2 (metadata st1)" using CombinedFb.prems one(2) by (auto intro: fb_registered_grows)
  then obtain st2 where "fb_append_metadata fb2 obs tid st1 = (Inr (), st2)" "md_grows (metadata st1) (metadata st2)"
    using CombinedFb.IH(2) [of st1] CombinedFb.prems by auto
  with one show ?case by (auto intro: md_grows_trans)
qed auto



section \<open>Recording settles the verdict\<close>

text \<open>
  A list feedback records the novelties of the last run it looked at. They are those of this run
  unless a fast combination skipped it.
\<close>

fun lists_up_to_date :: "feedback \<Rightarrow> observers \<Rightarrow> 'b metadata \<Rightarrow> bool" where
  "lists_up_to_date (ListFb name nov) obs md \<longleftrightarrow>
     (\<forall>vs history. get_list_observer name obs = Some vs \<and> md_lists md name = Some history \<longrightarrow> nov = set vs - history)"
| "lists_up_to_date (NotFb fb) obs md \<longleftrightarrow> lists_up_to_date fb obs md"
| "lists_up_to_date (CombinedFb _ fb1 fb2) obs md \<longleftrightarrow> lists_up_to_date fb1 obs md \<and> lists_up_to_date fb2 obs md"
| "lists_up_to_date _ obs md \<longleftrightarrow> True"

fun lists_never_skipped :: "feedback \<Rightarrow> bool" where
  "lists_never_skipped (NotFb fb) \<longleftrightarrow> lists_never_skipped fb"
| "lists_never_skipped (CombinedFb l fb1 fb2) \<longleftrightarrow> lists_never_skipped fb1 \<and> lists_never_skipped fb2 \<and>
     (l = FastOr \<or> l = FastAnd \<longrightarrow> fb_list_names fb2 = [])"
| "lists_never_skipped _ \<longleftrightarrow> True"

lemma no_lists_up_to_date: "fb_list_names fb = [] \<Longrightarrow> lists_up_to_date fb obs md"
  by (induction fb) simp_all

lemma lists_up_to_date_frame:
  "md_lists md' = md_lists md \<Longrightarrow> lists_up_to_date fb obs md' = lists_up_to_date fb obs md"
  by (induction fb) simp_all

lemma is_interesting_keeps_lists:
  "fb_is_interesting fb obs kind st = (r, fb', st') \<Longrightarrow> md_lists (metadata st') = md_lists (metadata st)"
proof (induction fb arbitrary: st r fb' st')
  case (MapFb name ob red nov)
  then show ?case using map_fb_interesting_ok [of name ob red nov obs st] only_mapsD(1) by (fastforce split: prod.splits)
next
  case (NotFb fb)
  obtain r1 f1 st1 where "fb_is_interesting fb obs kind st = (r1, f1, st1)" by (metis prod_cases3)
  with NotFb show ?case by auto
next
  case (CombinedFb l fb1 fb2)
  obtain r1 f1 st1 where one: "fb_is_interesting fb1 obs kind st = (r1, f1, st1)" by (metis prod_cases3)
  obtain r2 f2 st2 where two: "fb_is_interesting fb2 obs kind st1 = (r2, f2, st2)" by (metis prod_cases3)
  show ?case
    using CombinedFb.prems one two CombinedFb.IH(1) [OF one] CombinedFb.IH(2) [OF two]
    by (auto split: if_splits sum.splits)
qed (auto split: prod.splits option.splits)

lemma looked_at_lists:
  "lists_never_skipped fb \<Longrightarrow> fb_is_interesting fb obs kind st = (Inr b, fb', st') \<Longrightarrow>
    lists_up_to_date fb' obs (metadata st')"
proof (induction fb arbitrary: st b fb' st')
  case (ListFb name old)
  then show ?case by (auto simp: list_fb_interesting_def fold_novelty Let_def split: option.splits)
next
  case (NotFb fb)
  obtain r1 f1 st1 where "fb_is_interesting fb obs kind st = (r1, f1, st1)" by (metis prod_cases3)
  with NotFb show ?case by (cases r1) auto
next
  case (CombinedFb l fb1 fb2)
  obtain r1 f1 st1 where one: "fb_is_interesting fb1 obs kind st = (r1, f1, st1)" by (metis prod_cases3)
  obtain r2 f2 st2 where two: "fb_is_interesting fb2 obs kind st1 = (r2, f2, st2)" by (metis prod_cases3)
  obtain a where a: "r1 = Inr a" using CombinedFb.prems(2) one by (cases r1) auto
  have up1: "lists_up_to_date f1 obs (metadata st1)" using CombinedFb.IH(1) CombinedFb.prems(1) one a by simp
  have up1': "lists_up_to_date f1 obs (metadata st2)"
    using up1 is_interesting_keeps_lists [OF two] lists_up_to_date_frame by metis
  show ?case
  proof (cases "l = FastOr \<and> a \<or> l = FastAnd \<and> \<not> a")
    case True
    then have "fb_list_names fb2 = []" using CombinedFb.prems(1) by auto
    then show ?thesis using True CombinedFb.prems(2) one a up1 no_lists_up_to_date by auto
  next
    case False
    then obtain b2 where "r2 = Inr b2" using CombinedFb.prems(2) one two a by (cases r2) auto
    moreover have "lists_up_to_date f2 obs (metadata st2)" if "r2 = Inr b2" for b2
      using CombinedFb.IH(2) CombinedFb.prems(1) two that by simp
    ultimately show ?thesis using False CombinedFb.prems(2) one two a up1' by auto
  qed
qed (auto split: prod.splits option.splits)

lemma reduce_again: "reduce red (reduce red h v) v = reduce red h v"
proof (cases red)
  case OrReducer
  show ?thesis unfolding OrReducer by (rule bit_word_eqI) (auto simp: or_reduce_def bit_or_iff)
next
  case AndReducer
  show ?thesis unfolding AndReducer by (rule bit_word_eqI) (auto simp: and_reduce_def bit_and_iff)
qed (simp_all add: max_reduce_def min_reduce_def nop_reduce_def)

lemma not_novel_twice: "nov \<noteq> AllIsNovel \<Longrightarrow> \<not> is_novel nov h h"
  by (cases nov) (simp_all add: different_is_novel_def next_pow2_is_novel_def one_or_filled_is_novel_def)

lemma recorded_map_settles:
  assumes "nov \<noteq> AllIsNovel"
  shows "\<not> fst (map_is_interesting (reduce red) (is_novel nov) v0 xs (fst (map_append_metadata (reduce red) v0 xs md)))"
proof -
  let ?md' = "fst (map_append_metadata (reduce red) v0 xs md)"
  have "\<not> is_novel nov h (reduce red h (xs ! j))"
    if j: "j < length xs" "xs ! j \<noteq> v0" and h: "h = grow_history v0 (length xs) (history_map ?md') ! j" for j h
  proof -
    have "h = history_map ?md' ! j" using j h by (simp add: nth_grow less_max_iff_disj)
    also have "\<dots> = reduce red (grow_history v0 (length xs) (history_map md) ! j) (xs ! j)"
      using j by (simp add: append_history Let_def)
    finally have "reduce red h (xs ! j) = h" using reduce_again by metis
    then show ?thesis using not_novel_twice [OF assms] by simp
  qed
  then show ?thesis by (auto simp: interesting_iff Let_def)
qed

text \<open>The feedbacks that say no to what they have recorded, for a given end of the run.\<close>

fun settles :: "feedback \<Rightarrow> observers \<Rightarrow> exit_kind \<Rightarrow> bool" where
  "settles (MapFb _ _ _ nov) obs kind \<longleftrightarrow> nov \<noteq> AllIsNovel"
| "settles (ListFb _ _) obs kind \<longleftrightarrow> True"
| "settles (ExitKindFb watched) obs kind \<longleftrightarrow> kind \<noteq> watched"
| "settles (BoolFb ob) obs kind \<longleftrightarrow> get_bool_observer ob obs \<noteq> Some True"
| "settles (ConstFb b) obs kind \<longleftrightarrow> \<not> b"
| "settles (NotFb fb) obs kind \<longleftrightarrow> False"
| "settles (CombinedFb l fb1 fb2) obs kind \<longleftrightarrow>
     (if l = EagerOr \<or> l = FastOr then settles fb1 obs kind \<and> settles fb2 obs kind
      else settles fb1 obs kind \<or> settles fb2 obs kind)"
| "settles _ obs kind \<longleftrightarrow> True"

lemma append_frame:
  "fb_append_metadata fb obs tid st = (r, st') \<Longrightarrow>
    (\<forall>n. n \<notin> set (fb_map_names fb) \<longrightarrow> md_maps (metadata st') n = md_maps (metadata st) n) \<and>
    (\<forall>n. n \<notin> set (fb_list_names fb) \<longrightarrow> md_lists (metadata st') n = md_lists (metadata st) n)"
proof (induction fb arbitrary: st r st')
  case (MapFb name ob red nov)
  then show ?case
    by (auto simp: map_fb_append_def put_map_md_def report_stat_def split: option.splits sum.splits prod.splits)
next
  case (ListFb name nov)
  then show ?case by (auto simp: list_fb_append_def split: option.splits)
next
  case (TimeFb ob)
  then show ?case by (auto simp: update_testcase_md_def split: option.splits)
next
  case (OutputFb out ob)
  then show ?case by (auto simp: output_fb_append_def Let_def split: option.splits)
next
  case (CombinedFb l fb1 fb2)
  obtain r1 st1 where one: "fb_append_metadata fb1 obs tid st = (r1, st1)" by force
  obtain r2 st2 where two: "fb_append_metadata fb2 obs tid st1 = (r2, st2)" by force
  show ?case using CombinedFb.prems one two CombinedFb.IH(1) [OF one] CombinedFb.IH(2) [OF two]
    by (auto split: sum.splits)
qed auto

lemma lists_up_to_date_local:
  "(\<forall>n \<in> set (fb_list_names fb). md_lists md' n = md_lists md n) \<Longrightarrow>
    lists_up_to_date fb obs md' = lists_up_to_date fb obs md"
  by (induction fb) auto

lemma append_settles:
  "fb_append_metadata fb obs tid st = (Inr (), st') \<Longrightarrow> distinct (fb_map_names fb) \<Longrightarrow> distinct (fb_list_names fb) \<Longrightarrow>
    lists_up_to_date fb obs (metadata st) \<Longrightarrow> settles fb obs kind \<Longrightarrow> \<not> fb_verdict fb obs kind (metadata st')"
proof (induction fb arbitrary: st st')
  case (MapFb name ob red nov)
  then show ?case
    using recorded_map_settles [of nov red]
    by (auto simp: map_fb_append_def put_map_md_def report_stat_def split: option.splits sum.splits prod.splits)
      (metis fst_conv)
next
  case (ListFb name nov)
  then show ?case by (auto simp: list_fb_append_def split: option.splits)
next
  case (CombinedFb l fb1 fb2)
  obtain st1 where one: "fb_append_metadata fb1 obs tid st = (Inr (), st1)"
    and two: "fb_append_metadata fb2 obs tid st1 = (Inr (), st')"
    using CombinedFb.prems(1) by (auto split: prod.splits sum.splits)
  note frame1 = append_frame [OF one] and frame2 = append_frame [OF two]
  have up2: "lists_up_to_date fb2 obs (metadata st1)"
    using CombinedFb.prems(3,4) frame1 lists_up_to_date_local [of fb2 "metadata st1" "metadata st"] by auto
  have keep: "fb_verdict fb1 obs kind (metadata st') = fb_verdict fb1 obs kind (metadata st1)"
    using frame2 CombinedFb.prems(2,3) by (intro fb_verdict_frame) auto
  have "settles fb1 obs kind \<Longrightarrow> \<not> fb_verdict fb1 obs kind (metadata st')"
    using CombinedFb.IH(1) [OF one] CombinedFb.prems(2-4) keep by simp
  moreover have "settles fb2 obs kind \<Longrightarrow> \<not> fb_verdict fb2 obs kind (metadata st')"
    using CombinedFb.IH(2) [OF two] CombinedFb.prems(2,3) up2 by simp
  ultimately show ?case using CombinedFb.prems(5) by (auto split: if_splits)
qed auto

lemma names_up_to_state:
  "fb_is_interesting fb obs kind st = (r, fb', st') \<Longrightarrow> settles fb' obs kind = settles fb obs kind \<and>
    (\<forall>md. fb_verdict fb' obs kind md = fb_verdict fb obs kind md)"
proof (induction fb arbitrary: st r fb' st')
  case (NotFb fb)
  obtain r1 f1 st1 where "fb_is_interesting fb obs kind st = (r1, f1, st1)" by (metis prod_cases3)
  with NotFb show ?case by auto
next
  case (CombinedFb l fb1 fb2)
  obtain r1 f1 st1 where one: "fb_is_interesting fb1 obs kind st = (r1, f1, st1)" by (metis prod_cases3)
  obtain r2 f2 st2 where two: "fb_is_interesting fb2 obs kind st1 = (r2, f2, st2)" by (metis prod_cases3)
  show ?case using CombinedFb.prems one two CombinedFb.IH(1) [OF one] CombinedFb.IH(2) [OF two]
    by (auto split: if_splits sum.splits)
qed (auto split: prod.splits option.splits)

lemma recorded_run_settles:
  assumes "distinct (fb_map_names fb)" "distinct (fb_list_names fb)" "lists_never_skipped fb" "settles fb obs kind"
    and run: "fb_is_interesting fb obs kind st = (Inr b, fb', st1)"
    and rec: "fb_append_metadata fb' obs tid st1 = (Inr (), st2)"
    and again: "fb_is_interesting fb' obs kind st2 = (Inr b', fb'', st3)"
  shows "\<not> b'"
proof -
  have names: "fb_map_names fb' = fb_map_names fb" "fb_list_names fb' = fb_list_names fb"
    using same_names [OF run] by simp_all
  have "settles fb' obs kind" using names_up_to_state [OF run] assms(4) by blast
  then have "\<not> fb_verdict fb' obs kind (metadata st2)"
    using names assms(1,2) by (intro append_settles [OF rec] looked_at_lists [OF assms(3) run]) simp_all
  then show ?thesis using fb_is_interesting_ok [OF _ again] names assms(1) by simp
qed


section \<open>A concrete run\<close>

text \<open>A map feedback and a list feedback in an eager combination, as the fuzzer runs them twice.\<close>

definition sample_fb :: feedback where
  "sample_fb = CombinedFb EagerOr (afl_map_feedback ''edges'') (ListFb ''cmp'' {})"

definition sample_obs :: observers where
  "sample_obs = [(''edges'', MapOb (Hitcounts 0 (VariableMap [0, 2, 8] 0))), (''cmp'', ListOb [5, 7])]"

definition sample_state :: "(bytes, unit, unit, bytes) std_state" where
  "sample_state = (std_state_new 0 () ())\<lparr>metadata := metadata_empty
     \<lparr>md_maps := [''edges'' \<mapsto> \<lparr>history_map = [], num_covered = 0\<rparr>], md_lists := [''cmp'' \<mapsto> {5}]\<rparr>\<rparr>"

definition sample_first :: "(error + bool) \<times> feedback \<times> (bytes, unit, unit, bytes) std_state" where
  "sample_first = fb_is_interesting sample_fb sample_obs ExitOk sample_state"

definition sample_recorded :: "(error + unit) \<times> (bytes, unit, unit, bytes) std_state" where
  "sample_recorded = fb_append_metadata (fst (snd sample_first)) sample_obs 1 (snd (snd sample_first))"

definition sample_again :: "(error + bool) \<times> feedback \<times> (bytes, unit, unit, bytes) std_state" where
  "sample_again = fb_is_interesting (fst (snd sample_first)) sample_obs ExitOk (snd sample_recorded)"

lemmas sample_defs = sample_fb_def sample_obs_def sample_state_def afl_map_feedback_def std_state_new_def
  metadata_empty_def

lemmas feedback_defs = map_fb_interesting_def list_fb_interesting_def get_map_observer_def get_list_observer_def
  map_entries_def map_is_interesting_def grow_history_def put_map_md_def report_stat_def map_fb_append_def
  list_fb_append_def map_append_metadata_def or_reduce_def different_is_novel_def Let_def

lemma sample_first_eq:
  "sample_first = (Inr True, CombinedFb EagerOr (afl_map_feedback ''edges'') (ListFb ''cmp'' {7}),
    put_map_md ''edges'' \<lparr>history_map = [0, 0, 0], num_covered = 0\<rparr> sample_state)"
  by (auto simp: sample_first_def sample_defs feedback_defs numeral_3_eq_3)

lemma sample_recorded_Inr: "fst sample_recorded = Inr ()"
  by (simp add: sample_recorded_def sample_first_eq sample_defs feedback_defs)

theorem combinations_are_formulas_witness:
  "True = fb_verdict sample_fb sample_obs ExitOk (metadata sample_state) \<and>
    only_maps (set (fb_map_names sample_fb)) sample_state (snd (snd sample_first))"
proof (rule combinations_are_formulas)
  show "distinct (fb_map_names sample_fb)" by (simp add: sample_defs)
  show "fb_is_interesting sample_fb sample_obs ExitOk sample_state =
      (Inr True, fst (snd sample_first), snd (snd sample_first))"
    unfolding sample_first_def [symmetric] by (simp add: sample_first_eq)
qed



text \<open>
  A list in the part a fast combination skips: the novelties of an earlier run, whose input was not
  kept, are recorded with the next input that is.
\<close>

lemma skipped_list_records_old_novelties:
  fixes st :: "('i, 'c, 'k, 'b) std_state"
  defines "fb \<equiv> CombinedFb FastOr (BoolFb ''new'') (CombinedFb FastAnd (ListFb ''cmp'' {}) (ConstFb False))"
  assumes "md_lists (metadata st) ''cmp'' = Some {}"
  shows "\<exists>fb1. fb_is_interesting fb [(''new'', BoolOb False), (''cmp'', ListOb [5])] ExitOk st = (Inr False, fb1, st) \<and>
    fb_is_interesting fb1 [(''new'', BoolOb True), (''cmp'', ListOb [])] ExitOk st = (Inr True, fb1, st) \<and>
    md_lists (metadata (snd (fb_append_metadata fb1 [(''new'', BoolOb True), (''cmp'', ListOb [])] tid st))) ''cmp'' = Some {5}"
  using assms by (simp add: list_fb_interesting_def list_fb_append_def get_list_observer_def get_bool_observer_def Let_def)

end
