(* ===== verification/Fuzzers.thy ===== *)
theory Fuzzers
  imports Feedbacks
begin

text \<open>
  The standard fuzzer (\<^verbatim>\<open>libaflmm/src/fuzzers/standard.rs\<close>, \<^verbatim>\<open>fuzzers/mod.rs\<close>
  and \<^verbatim>\<open>fuzzers/hooks/mod.rs\<close>) and the executor's frame around a run of the target
  (\<^verbatim>\<open>executors/mod.rs\<close>): an input is run, looked at by the objective and the feedback,
  and kept in one of the two corpora or dropped. A run the target does not survive ends the process
  after the signal handler has looked at it.

  What is outside of the library, the target, the clock, the runtime's timer and the worker that
  talks to other processes, is a state of its own with the operations of the environment.
\<close>

section \<open>The world of a fuzzer\<close>

record ('i, 'c, 'k, 'b, 'r, 'x) world =
  w_state :: "('i, 'c, 'k, 'b) std_state"
  w_observers :: observers
  w_feedback :: feedback
  w_objective :: feedback
  w_loading_stage :: nat
  w_running :: "'i option"
  w_rand :: 'r
  w_outside :: 'x

text \<open>
  How a run of the target ends: it returns, the executor fails, or a signal kills the process.
  The handler of crashes may find that the crash is not the target's (\<open>False\<close>).
\<close>

datatype target_end = Returns exit_kind | Refuses error | Killed exit_kind

record ('i, 'w) fuzzer_hook =
  fh_pre_step :: "('w, unit) step"
  fh_pre_add :: "'i testcase \<Rightarrow> interest \<Rightarrow> ('w, 'i testcase) step"
  fh_post_add :: "verdict \<Rightarrow> ('w, unit) step"
  fh_pre_perform :: "u64 \<Rightarrow> ('w, unit) step"
  fh_post_step :: "('w, unit) step"

record ('i, 'c, 'k, 'b, 'r, 'x) env =
  e_hash :: "'i \<Rightarrow> u64"
  e_corpora :: "('c, 'k, 'i) corpus_ops"
  e_now :: "'x \<Rightarrow> nat"
  e_arm_timeout :: "'x \<Rightarrow> (error + unit) \<times> 'x"
  e_disarm_timeout :: "'x \<Rightarrow> (error + unit) \<times> 'x"
  e_target :: "'i \<Rightarrow> observers \<Rightarrow> 'x \<Rightarrow> target_end \<times> observers \<times> 'x"
  e_handle_crash :: "'i option \<Rightarrow> 'x \<Rightarrow> (error + bool) \<times> 'x"
  e_handle_timeout :: "'i option \<Rightarrow> 'x \<Rightarrow> (error + unit) \<times> 'x"
  e_send_testcase :: "'i testcase \<Rightarrow> 'x \<Rightarrow> (error + unit) \<times> 'x"
  e_report_stats :: "stats \<Rightarrow> 'x \<Rightarrow> (error + unit) \<times> 'x"
  e_poll :: "'x \<Rightarrow> (error + bool) \<times> 'x"
  e_should_shutdown :: "'x \<Rightarrow> bool \<times> 'x"
  e_recv_testcases :: "'x \<Rightarrow> (error + 'i testcase list) \<times> 'x"
  e_encode :: "'i \<Rightarrow> error + 'b"
  e_decode :: "'b \<Rightarrow> error + 'i"
  e_hooks :: "('i, ('i, 'c, 'k, 'b, 'r, 'x) world) fuzzer_hook list"

abbreviation on_state ::
  "(('i, 'c, 'k, 'b) std_state \<Rightarrow> ('i, 'c, 'k, 'b) std_state) \<Rightarrow> (('i, 'c, 'k, 'b, 'r, 'x) world, unit) step" where
  "on_state f \<equiv> smod (\<lambda>w. w\<lparr>w_state := f (w_state w)\<rparr>)"

text \<open>A call to the outside, and calls to the two corpora.\<close>

definition outside :: "('x \<Rightarrow> (error + 'a) \<times> 'x) \<Rightarrow> (('i, 'c, 'k, 'b, 'r, 'x) world, 'a) step" where
  "outside = spart w_outside (\<lambda>x w. w\<lparr>w_outside := x\<rparr>)"

definition on_corpus :: "('c \<Rightarrow> (error + 'a) \<times> 'c) \<Rightarrow> (('i, 'c, 'k, 'b, 'r, 'x) world, 'a) step" where
  "on_corpus = spart (corpus \<circ> w_state) (\<lambda>c w. w\<lparr>w_state := (w_state w)\<lparr>corpus := c\<rparr>\<rparr>)"

definition on_objectives :: "('k \<Rightarrow> (error + 'a) \<times> 'k) \<Rightarrow> (('i, 'c, 'k, 'b, 'r, 'x) world, 'a) step" where
  "on_objectives = spart (objective_corpus \<circ> w_state) (\<lambda>k w. w\<lparr>w_state := (w_state w)\<lparr>objective_corpus := k\<rparr>\<rparr>)"

definition on_observers :: "(nat \<Rightarrow> observers \<Rightarrow> (error + 'a) \<times> observers) \<Rightarrow> ('i, 'c, 'k, 'b, 'r, 'x) env
    \<Rightarrow> (('i, 'c, 'k, 'b, 'r, 'x) world, 'a) step" where
  "on_observers f env = (\<lambda>w. spart w_observers (\<lambda>ob w. w\<lparr>w_observers := ob\<rparr>) (f (e_now env (w_outside w))) w)"

section \<open>Hooks\<close>

fun pre_add_all :: "('i, 'w) fuzzer_hook list \<Rightarrow> 'i testcase \<Rightarrow> interest \<Rightarrow> ('w, 'i testcase) step" where
  "pre_add_all [] tc interest = sret tc"
| "pre_add_all (h # hs) tc interest = sbind (fh_pre_add h tc interest) (\<lambda>tc. pre_add_all hs tc interest)"

definition post_add_all :: "('i, 'w) fuzzer_hook list \<Rightarrow> verdict \<Rightarrow> ('w, unit) step" where
  "post_add_all hs v = sforeach (\<lambda>h. fh_post_add h v) hs"

definition pre_perform_all :: "('i, 'w) fuzzer_hook list \<Rightarrow> u64 \<Rightarrow> ('w, unit) step" where
  "pre_perform_all hs tid = sforeach (\<lambda>h. fh_pre_perform h tid) hs"

definition pre_step_all :: "('i, 'w) fuzzer_hook list \<Rightarrow> ('w, unit) step" where
  "pre_step_all hs = sforeach fh_pre_step hs"

definition post_step_all :: "('i, 'w) fuzzer_hook list \<Rightarrow> ('w, unit) step" where
  "post_step_all hs = sforeach fh_post_step hs"

section \<open>Looking at a run\<close>

definition ask_objective :: "exit_kind \<Rightarrow> (('i, 'c, 'k, 'b, 'r, 'x) world, bool) step" where
  "ask_objective kind = (\<lambda>w.
     case fb_is_interesting (w_objective w) (w_observers w) kind (w_state w) of
       (r, fb, st) \<Rightarrow> (map_sum Fails id r, w\<lparr>w_objective := fb, w_state := st\<rparr>))"

definition ask_feedback :: "exit_kind \<Rightarrow> (('i, 'c, 'k, 'b, 'r, 'x) world, bool) step" where
  "ask_feedback kind = (\<lambda>w.
     case fb_is_interesting (w_feedback w) (w_observers w) kind (w_state w) of
       (r, fb, st) \<Rightarrow> (map_sum Fails id r, w\<lparr>w_feedback := fb, w_state := st\<rparr>))"

definition evaluate_execution :: "exit_kind \<Rightarrow> (('i, 'c, 'k, 'b, 'r, 'x) world, interest) step" where
  "evaluate_execution kind =
     sbind (ask_objective kind) (\<lambda>is_solution.
     if is_solution then sret IObjective
     else sbind (ask_feedback kind) (\<lambda>corpus_worthy.
       sret (if corpus_worthy then ICorpus else IUninteresting)))"

definition append_with :: "(('i, 'c, 'k, 'b, 'r, 'x) world \<Rightarrow> feedback) \<Rightarrow> u64 \<Rightarrow> (('i, 'c, 'k, 'b, 'r, 'x) world, unit) step" where
  "append_with fb tid = (\<lambda>w.
     case fb_append_metadata (fb w) (w_observers w) tid (w_state w) of
       (r, st) \<Rightarrow> (map_sum Fails id r, w\<lparr>w_state := st\<rparr>))"

definition count_objective :: "nat \<Rightarrow> ('i, 'c, 'k, 'b) std_state \<Rightarrow> ('i, 'c, 'k, 'b) std_state" where
  "count_objective now st =
     st\<lparr>state_stats := (state_stats st)\<lparr>s_last_found := now, s_objective := s_objective (state_stats st) + 1\<rparr>\<rparr>"

definition count_corpus :: "nat \<Rightarrow> ('i, 'c, 'k, 'b) std_state \<Rightarrow> ('i, 'c, 'k, 'b) std_state" where
  "count_corpus now st =
     st\<lparr>state_stats := (state_stats st)\<lparr>s_last_found := now, s_corpus := s_corpus (state_stats st) + 1\<rparr>\<rparr>"

text \<open>The two branches of \<open>post_execution\<close> that keep the input.\<close>

definition keep_objective ::
  "('i, 'c, 'k, 'b, 'r, 'x) env \<Rightarrow> 'i \<Rightarrow> (('i, 'c, 'k, 'b, 'r, 'x) world, verdict) step" where
  "keep_objective env inp =
     sbind (sget (executions \<circ> w_state)) (\<lambda>execs.
     sbind (pre_add_all (e_hooks env) (testcase_new (e_hash env) inp) IObjective) (\<lambda>tc.
     sbind (on_objectives (co_add_objective (e_corpora env) tc)) (\<lambda>tid.
     sseq (on_state (update_testcase_md tid (found_objective \<circ> set_executions execs)))
     (sseq (append_with w_objective tid)
     (sseq (\<lambda>w. on_state (count_objective (e_now env (w_outside w))) w)
     (sseq (post_add_all (e_hooks env) (VObjective tid))
     (sret (VObjective tid))))))))"

definition keep_in_corpus ::
  "('i, 'c, 'k, 'b, 'r, 'x) env \<Rightarrow> 'i \<Rightarrow> (('i, 'c, 'k, 'b, 'r, 'x) world, verdict) step" where
  "keep_in_corpus env inp =
     sbind (sget (executions \<circ> w_state)) (\<lambda>execs.
     sbind (pre_add_all (e_hooks env) (testcase_new (e_hash env) inp) ICorpus) (\<lambda>tc.
     sseq (outside (e_send_testcase env tc))
     (sbind (on_corpus (co_add (e_corpora env) tc)) (\<lambda>tid.
     sseq (on_state (update_testcase_md tid (set_executions execs)))
     (sseq (append_with w_feedback tid)
     (sseq (\<lambda>w. on_state (count_corpus (e_now env (w_outside w))) w)
     (sseq (post_add_all (e_hooks env) (VCorpus tid))
     (sret (VCorpus tid)))))))))"

definition post_execution ::
  "('i, 'c, 'k, 'b, 'r, 'x) env \<Rightarrow> 'i \<Rightarrow> exit_kind \<Rightarrow> (('i, 'c, 'k, 'b, 'r, 'x) world, evaluation_result) step" where
  "post_execution env inp kind =
     sbind (evaluate_execution kind) (\<lambda>interest.
     sbind (case interest of
         IObjective \<Rightarrow> keep_objective env inp
       | ICorpus \<Rightarrow> keep_in_corpus env inp
       | IUninteresting \<Rightarrow> sret VUninteresting) (\<lambda>v.
     sret (evaluation_new kind v)))"

section \<open>Records of a load\<close>

definition next_input :: "nat \<Rightarrow> 'b loader_md \<Rightarrow> (error + 'b option) \<times> 'b loader_md" where
  "next_input load_id md =
     (let md = md\<lparr>running_input := None\<rparr>
      in case loads md load_id of
           None \<Rightarrow> (Inl IllegalState, md)
         | Some l \<Rightarrow>
             (case inputs_to_run l of
                [] \<Rightarrow> (Inr None, md)
              | inp # rest \<Rightarrow>
                  (Inr (Some inp), md\<lparr>loads := (loads md)(load_id \<mapsto> l\<lparr>inputs_to_run := rest\<rparr>),
                    running_input := Some (load_id, inp)\<rparr>)))"

definition record_result :: "evaluation_result \<Rightarrow> 'b loader_md \<Rightarrow> (error + unit) \<times> 'b loader_md" where
  "record_result result md =
     (case running_input md of
        None \<Rightarrow> (Inr (), md)
      | Some (load_id, inp) \<Rightarrow>
          let md = md\<lparr>running_input := None\<rparr>
          in (case loads md load_id of
                None \<Rightarrow> (Inl IllegalState, md)
              | Some l \<Rightarrow>
                  (Inr (), md\<lparr>loads := (loads md)(load_id \<mapsto> l\<lparr>ran_inputs := ran_inputs l @ [(inp, result)]\<rparr>)\<rparr>)))"

definition take_ran_inputs ::
  "nat \<Rightarrow> 'b loader_md \<Rightarrow> (error + ('b \<times> evaluation_result) list) \<times> 'b loader_md" where
  "take_ran_inputs load_id md =
     (case loads md load_id of
        None \<Rightarrow> (Inl IllegalState, md)
      | Some l \<Rightarrow> (Inr (ran_inputs l), md\<lparr>loads := (loads md)(load_id \<mapsto> l\<lparr>ran_inputs := []\<rparr>)\<rparr>))"

text \<open>A call on the loader's record; without one \<open>get_md_mut\<close> fails.\<close>

definition on_loader ::
  "('b loader_md \<Rightarrow> (error + 'a) \<times> 'b loader_md) \<Rightarrow> (('i, 'c, 'k, 'b, 'r, 'x) world, 'a) step" where
  "on_loader f = (\<lambda>w.
     case md_loader (metadata (w_state w)) of
       None \<Rightarrow> (Inl (Fails KeyNotFound), w)
     | Some md \<Rightarrow>
         (case f md of (r, md) \<Rightarrow>
            (map_sum Fails id r, w\<lparr>w_state := (w_state w)\<lparr>metadata := (metadata (w_state w))\<lparr>md_loader := Some md\<rparr>\<rparr>\<rparr>)))"

section \<open>When the process is killed\<close>

definition handle_objective_in_termination_handler ::
  "('i, 'c, 'k, 'b, 'r, 'x) env \<Rightarrow> 'i \<Rightarrow> exit_kind \<Rightarrow> (('i, 'c, 'k, 'b, 'r, 'x) world, evaluation_result) step" where
  "handle_objective_in_termination_handler env inp kind =
     sseq (on_observers post_exec_all env)
     (sbind (post_execution env inp kind) (\<lambda>result.
     sbind (sget (\<lambda>w. md_loader (metadata (w_state w)))) (\<lambda>loader.
     sseq (if loader = None then sret () else on_loader (record_result result))
     (sret result))))"

text \<open>The handlers take the running input, so that a second signal is not taken for the target's.\<close>

definition std_on_crash :: "('i, 'c, 'k, 'b, 'r, 'x) env \<Rightarrow> (('i, 'c, 'k, 'b, 'r, 'x) world, unit) step" where
  "std_on_crash env =
     sbind (sget w_running) (\<lambda>running.
     if running = None then sfail Panic
     else sseq (smod (\<lambda>w. w\<lparr>w_running := None\<rparr>))
       (sbind (outside (e_handle_crash env running)) (\<lambda>target_crash.
        if target_crash
        then sbind (handle_objective_in_termination_handler env (the running) ExitCrash) (\<lambda>_. sret ())
        else sret ())))"

definition std_on_timeout :: "('i, 'c, 'k, 'b, 'r, 'x) env \<Rightarrow> (('i, 'c, 'k, 'b, 'r, 'x) world, unit) step" where
  "std_on_timeout env =
     sbind (sget w_running) (\<lambda>running.
     if running = None then sfail Panic
     else sseq (smod (\<lambda>w. w\<lparr>w_running := None\<rparr>))
       (sseq (outside (e_handle_timeout env running))
       (sbind (handle_objective_in_termination_handler env (the running) ExitTimeout) (\<lambda>_. sret ()))))"

section \<open>Running an input\<close>

definition run_target ::
  "('i, 'c, 'k, 'b, 'r, 'x) env \<Rightarrow> 'i \<Rightarrow> (('i, 'c, 'k, 'b, 'r, 'x) world, exit_kind) step" where
  "run_target env inp = (\<lambda>w.
     case e_target env inp (w_observers w) (w_outside w) of
       (how, obs, x) \<Rightarrow>
         let w = w\<lparr>w_observers := obs, w_outside := x\<rparr>
         in (case how of
               Returns kind \<Rightarrow> (Inr kind, w)
             | Refuses e \<Rightarrow> (Inl (Fails e), w)
             | Killed kind \<Rightarrow>
                 (Inl Exits, snd ((if kind = ExitTimeout then std_on_timeout env else std_on_crash env) w))))"

definition execute ::
  "('i, 'c, 'k, 'b, 'r, 'x) env \<Rightarrow> 'i \<Rightarrow> (('i, 'c, 'k, 'b, 'r, 'x) world, exit_kind) step" where
  "execute env inp =
     sseq (on_state increment_execs)
     (sseq (on_observers pre_exec_all env)
     (sseq (outside (e_arm_timeout env))
     (sseq (smod (\<lambda>w. w\<lparr>w_running := Some inp\<rparr>))
     (sbind (run_target env inp) (\<lambda>kind.
     sseq (smod (\<lambda>w. w\<lparr>w_running := None\<rparr>))
     (sseq (outside (e_disarm_timeout env))
     (sseq (on_observers post_exec_all env)
     (sret kind))))))))"

definition report_stats :: "('i, 'c, 'k, 'b, 'r, 'x) env \<Rightarrow> (('i, 'c, 'k, 'b, 'r, 'x) world, unit) step" where
  "report_stats env = (\<lambda>w. outside (e_report_stats env (state_stats (w_state w))) w)"

definition evaluate_input ::
  "('i, 'c, 'k, 'b, 'r, 'x) env \<Rightarrow> 'i \<Rightarrow> (('i, 'c, 'k, 'b, 'r, 'x) world, evaluation_result) step" where
  "evaluate_input env inp =
     sbind (execute env inp) (\<lambda>kind.
     sbind (post_execution env inp kind) (\<lambda>res.
     sseq (report_stats env) (sret res)))"

section \<open>Loops\<close>

text \<open>
  A loop may run forever: its result is \<open>None\<close> then. Steps that always return are lifted.
\<close>

type_synonym ('w, 'a) ostep = "'w \<Rightarrow> ((stop + 'a) \<times> 'w) option"

definition olift :: "('w, 'a) step \<Rightarrow> ('w, 'a) ostep" where
  "olift m = (\<lambda>w. Some (m w))"

definition obind :: "('w, 'a) ostep \<Rightarrow> ('a \<Rightarrow> ('w, 'b) ostep) \<Rightarrow> ('w, 'b) ostep" where
  "obind m f = (\<lambda>w. case m w of
       None \<Rightarrow> None
     | Some (Inl s, w) \<Rightarrow> Some (Inl s, w)
     | Some (Inr a, w) \<Rightarrow> f a w)"

text \<open>The inputs of a load, one after the other; the results are recorded as they come.\<close>

definition run_loaded ::
  "('i, 'c, 'k, 'b, 'r, 'x) env \<Rightarrow> 'b \<Rightarrow> (('i, 'c, 'k, 'b, 'r, 'x) world, unit) step" where
  "run_loaded env bs =
     sbind (slift (e_decode env bs)) (\<lambda>inp.
     sbind (evaluate_input env inp) (\<lambda>res. on_loader (record_result res)))"

partial_function (option) load_loop ::
  "('i, 'c, 'k, 'b, 'r, 'x) env \<Rightarrow> nat \<Rightarrow> (('i, 'c, 'k, 'b, 'r, 'x) world, unit) ostep" where
  "load_loop env stage w =
     (case on_loader (next_input stage) w of
        (Inl s, w) \<Rightarrow> Some (Inl s, w)
      | (Inr None, w) \<Rightarrow> Some (Inr (), w)
      | (Inr (Some bs), w) \<Rightarrow>
          (case run_loaded env bs w of
             (Inl s, w) \<Rightarrow> Some (Inl s, w)
           | (Inr _, w) \<Rightarrow> load_loop env stage w))"

fun traverse :: "('a \<Rightarrow> error + 'b) \<Rightarrow> 'a list \<Rightarrow> error + 'b list" where
  "traverse f [] = Inr []"
| "traverse f (x # xs) = rbind (f x) (\<lambda>y. rbind (traverse f xs) (\<lambda>ys. Inr (y # ys)))"

definition begin_load ::
  "('i, 'c, 'k, 'b, 'r, 'x) env \<Rightarrow> (('i, 'c, 'k, 'b) std_state \<Rightarrow> (error + 'i list) \<times> ('i, 'c, 'k, 'b) std_state)
    \<Rightarrow> nat \<Rightarrow> (('i, 'c, 'k, 'b, 'r, 'x) world, unit) step" where
  "begin_load env inputs_fn stage =
     sseq (on_state (\<lambda>st. if md_loader (metadata st) = None
         then st\<lparr>metadata := (metadata st)\<lparr>md_loader := Some loader_md_default\<rparr>\<rparr> else st))
     (sbind (sget (\<lambda>w. loads (the (md_loader (metadata (w_state w)))) stage)) (\<lambda>known.
      if known \<noteq> None then sret ()
      else sbind (spart w_state (\<lambda>st w. w\<lparr>w_state := st\<rparr>) inputs_fn) (\<lambda>inputs.
        sbind (slift (traverse (e_encode env) inputs)) (\<lambda>todo.
        on_loader (\<lambda>md. (Inr (), md\<lparr>loads := (loads md)(stage \<mapsto> \<lparr>inputs_to_run = todo, ran_inputs = []\<rparr>)\<rparr>))))))"

definition end_load ::
  "('i, 'c, 'k, 'b, 'r, 'x) env \<Rightarrow> nat
    \<Rightarrow> (('i, 'c, 'k, 'b, 'r, 'x) world, ('i \<times> evaluation_result) list) step" where
  "end_load env stage =
     sseq (smod (\<lambda>w. w\<lparr>w_loading_stage := w_loading_stage w + 1\<rparr>))
     (sbind (on_loader (take_ran_inputs stage)) (\<lambda>ran.
      slift (traverse (\<lambda>(bs, res). rbind (e_decode env bs) (\<lambda>inp. Inr (inp, res))) ran)))"

definition load ::
  "('i, 'c, 'k, 'b, 'r, 'x) env \<Rightarrow> (('i, 'c, 'k, 'b) std_state \<Rightarrow> (error + 'i list) \<times> ('i, 'c, 'k, 'b) std_state)
    \<Rightarrow> (('i, 'c, 'k, 'b, 'r, 'x) world, ('i \<times> evaluation_result) list) ostep" where
  "load env inputs_fn = (\<lambda>w.
     let stage = w_loading_stage w
     in obind (olift (begin_load env inputs_fn stage)) (\<lambda>_.
        obind (load_loop env stage) (\<lambda>_. olift (end_load env stage))) w)"

text \<open>\<open>load_inputs\<close> is a load of the given inputs.\<close>

definition load_inputs ::
  "('i, 'c, 'k, 'b, 'r, 'x) env \<Rightarrow> 'i list
    \<Rightarrow> (('i, 'c, 'k, 'b, 'r, 'x) world, ('i \<times> evaluation_result) list) ostep" where
  "load_inputs env inputs = load env (\<lambda>st. (Inr inputs, st))"

section \<open>The fuzzing loop\<close>

datatype fuzzer_outcome = Finished | Idle

definition poll_worker :: "('i, 'c, 'k, 'b, 'r, 'x) env \<Rightarrow> (('i, 'c, 'k, 'b, 'r, 'x) world, unit) step" where
  "poll_worker env =
     sbind (outside (e_poll env)) (\<lambda>woken.
     if woken
     then sbind (outside (\<lambda>x. case e_should_shutdown env x of (b, x) \<Rightarrow> (Inr b, x))) (\<lambda>shutdown.
       if shutdown then (\<lambda>w. (Inl Exits, w))
       else sbind (outside (e_recv_testcases env)) (\<lambda>tcs. on_state (add_pending_testcases tcs)))
     else sret ())"

partial_function (option) drain_pending ::
  "('i, 'c, 'k, 'b, 'r, 'x) env \<Rightarrow> (('i, 'c, 'k, 'b, 'r, 'x) world, unit) ostep" where
  "drain_pending env w =
     (case next_pending_testcase (w_state w) of
        (None, st) \<Rightarrow> Some (Inr (), w\<lparr>w_state := st\<rparr>)
      | (Some tc, st) \<Rightarrow>
          (case evaluate_input env (tc_input tc) (w\<lparr>w_state := st\<rparr>) of
             (Inl s, w) \<Rightarrow> Some (Inl s, w)
           | (Inr _, w) \<Rightarrow> drain_pending env w))"

definition post_fuzz_one :: "('i, 'c, 'k, 'b, 'r, 'x) env \<Rightarrow> (('i, 'c, 'k, 'b, 'r, 'x) world, unit) step" where
  "post_fuzz_one env = sseq (post_step_all (e_hooks env)) (report_stats env)"

type_synonym ('i, 'c, 'k, 'b, 'r, 'x) stages =
  "u64 \<Rightarrow> (('i, 'c, 'k, 'b, 'r, 'x) world, unit) ostep"

definition fuzz_one ::
  "('i, 'c, 'k, 'b, 'r, 'x) env \<Rightarrow> ('i, 'c, 'k, 'b, 'r, 'x) stages
    \<Rightarrow> (('i, 'c, 'k, 'b, 'r, 'x) world, fuzzer_outcome) ostep" where
  "fuzz_one env stages =
     obind (olift (poll_worker env)) (\<lambda>_.
     obind (drain_pending env) (\<lambda>_.
     obind (olift (pre_step_all (e_hooks env))) (\<lambda>_.
     obind (olift (on_corpus (co_next (e_corpora env)))) (\<lambda>scheduled.
     case scheduled of
       None \<Rightarrow> obind (olift (post_fuzz_one env)) (\<lambda>_. olift (sret Idle))
     | Some tid \<Rightarrow>
         obind (olift (pre_perform_all (e_hooks env) tid)) (\<lambda>_.
         obind (stages tid) (\<lambda>_.
         obind (olift (on_state (update_testcase_md tid increase_scheduled_count))) (\<lambda>_.
         obind (olift (post_fuzz_one env)) (\<lambda>_. olift (sret Finished)))))))))"

text \<open>\<open>fuzz_loop\<close> only returns with an error; \<open>fuzz_loop_until_idle\<close> returns when the scheduler is empty.\<close>

partial_function (option) fuzz_loop ::
  "('i, 'c, 'k, 'b, 'r, 'x) env \<Rightarrow> ('i, 'c, 'k, 'b, 'r, 'x) stages
    \<Rightarrow> (('i, 'c, 'k, 'b, 'r, 'x) world, unit) ostep" where
  "fuzz_loop env stages w =
     (case fuzz_one env stages w of
        None \<Rightarrow> None
      | Some (Inl s, w) \<Rightarrow> Some (Inl s, w)
      | Some (Inr Idle, w) \<Rightarrow> Some (Inl (Fails Empty), w)
      | Some (Inr Finished, w) \<Rightarrow> fuzz_loop env stages w)"

partial_function (option) fuzz_loop_until_idle ::
  "('i, 'c, 'k, 'b, 'r, 'x) env \<Rightarrow> ('i, 'c, 'k, 'b, 'r, 'x) stages
    \<Rightarrow> (('i, 'c, 'k, 'b, 'r, 'x) world, unit) ostep" where
  "fuzz_loop_until_idle env stages w =
     (case fuzz_one env stages w of
        None \<Rightarrow> None
      | Some (Inl s, w) \<Rightarrow> Some (Inl s, w)
      | Some (Inr Idle, w) \<Rightarrow> Some (Inr (), w)
      | Some (Inr Finished, w) \<Rightarrow> fuzz_loop_until_idle env stages w)"

fun fuzz_iterations ::
  "('i, 'c, 'k, 'b, 'r, 'x) env \<Rightarrow> ('i, 'c, 'k, 'b, 'r, 'x) stages \<Rightarrow> nat
    \<Rightarrow> (('i, 'c, 'k, 'b, 'r, 'x) world, fuzzer_outcome) ostep" where
  "fuzz_iterations env stages 0 = olift (sret Finished)"
| "fuzz_iterations env stages (Suc n) =
     obind (fuzz_one env stages) (\<lambda>res.
     if res = Idle then olift (sret Idle) else fuzz_iterations env stages n)"

definition fuzz_loop_for ::
  "('i, 'c, 'k, 'b, 'r, 'x) env \<Rightarrow> ('i, 'c, 'k, 'b, 'r, 'x) stages \<Rightarrow> nat
    \<Rightarrow> (('i, 'c, 'k, 'b, 'r, 'x) world, fuzzer_outcome) ostep" where
  "fuzz_loop_for env stages iters =
     (if iters = 0 then olift (sfail IllegalArgument) else fuzz_iterations env stages iters)"

end
