(* ===== verification/Evaluation.thy ===== *)
theory Evaluation
  imports Fuzzers
begin

text \<open>
  What an evaluation does to the books of a campaign: the two corpora, the counters, what is known
  of each test case, and the records of the loader.
\<close>

section \<open>Frames\<close>

text \<open>The parts of a state that only the fuzzer itself writes, and what is known of each test case.\<close>

definition books :: "('i, 'c, 'k, 'b) std_state \<Rightarrow> 'c \<times> 'k \<times> 'i testcase list \<times> nat \<times> nat \<times> nat \<times> 'b loader_md option \<times> nat" where
  "books st = (corpus st, objective_corpus st, pending_testcases st, s_executions (state_stats st),
     s_corpus (state_stats st), s_objective (state_stats st), md_loader (metadata st), max_size_limit st)"

definition known :: "('i, 'c, 'k, 'b) std_state \<Rightarrow> u64 \<Rightarrow> nat \<times> nat \<times> nat" where
  "known st tid = (let md = testcase_md_or_default tid st
     in (md_executions md, md_scheduled_count md, md_objectives_found md))"

lemma known_update:
  "known (update_testcase_md tid f st) = (known st)(tid :=
     (let md = f (testcase_md_or_default tid st) in (md_executions md, md_scheduled_count md, md_objectives_found md)))"
  by (auto simp: known_def update_testcase_md_def testcase_md_or_default_def fun_eq_iff Let_def)

lemma books_update [simp]: "books (update_testcase_md tid f st) = books st"
  by (simp add: books_def update_testcase_md_def)

lemma only_maps_books: "only_maps ns st st' \<Longrightarrow> books st' = books st \<and> known st' = known st"
  by (auto simp: only_maps_def books_def known_def testcase_md_or_default_def fun_eq_iff)

lemma put_map_books [simp]: "books (put_map_md name md st) = books st" "known (put_map_md name md st) = known st"
  by (auto simp: books_def known_def put_map_md_def testcase_md_or_default_def fun_eq_iff)

lemma report_stat_books [simp]: "books (report_stat name v st) = books st" "known (report_stat name v st) = known st"
  by (auto simp: books_def known_def report_stat_def testcase_md_or_default_def fun_eq_iff)

lemma is_interesting_books:
  "fb_is_interesting fb obs kind st = (r, fb', st') \<Longrightarrow> books st' = books st \<and> known st' = known st"
proof (induction fb arbitrary: st r fb' st')
  case (MapFb name ob red nov)
  then show ?case
    by (auto simp: map_fb_interesting_def split: prod.splits option.splits sum.splits)
next
  case (NotFb fb)
  obtain r1 f1 st1 where "fb_is_interesting fb obs kind st = (r1, f1, st1)" by (metis prod_cases3)
  with NotFb show ?case by auto
next
  case (CombinedFb l fb1 fb2)
  obtain r1 f1 st1 where one: "fb_is_interesting fb1 obs kind st = (r1, f1, st1)" by (metis prod_cases3)
  obtain r2 f2 st2 where two: "fb_is_interesting fb2 obs kind st1 = (r2, f2, st2)" by (metis prod_cases3)
  show ?case using CombinedFb.prems one two CombinedFb.IH(1) [OF one] CombinedFb.IH(2) [OF two]
    by (auto split: if_splits sum.splits)
qed (auto split: prod.splits)

lemma append_books:
  "fb_append_metadata fb obs tid st = (r, st') \<Longrightarrow> books st' = books st \<and> known st' = known st"
proof (induction fb arbitrary: st r st')
  case (MapFb name ob red nov)
  then show ?case by (auto simp: map_fb_append_def split: option.splits sum.splits prod.splits)
next
  case (ListFb name nov)
  then show ?case
    by (auto simp: list_fb_append_def books_def known_def testcase_md_or_default_def fun_eq_iff split: option.splits)
next
  case (TimeFb ob)
  then show ?case
    by (auto simp: known_update split: option.splits) (auto simp: known_def Let_def fun_eq_iff)
next
  case (OutputFb out ob)
  then show ?case
    by (auto simp: output_fb_append_def books_def known_def testcase_md_or_default_def fun_eq_iff Let_def split: option.splits)
next
  case (CombinedFb l fb1 fb2)
  obtain r1 st1 where one: "fb_append_metadata fb1 obs tid st = (r1, st1)" by force
  obtain r2 st2 where two: "fb_append_metadata fb2 obs tid st1 = (r2, st2)" by force
  show ?case using CombinedFb.prems one two CombinedFb.IH(1) [OF one] CombinedFb.IH(2) [OF two]
    by (auto split: sum.splits)
qed auto

section \<open>The verdict of a run\<close>

text \<open>What an execution should be: the objective is asked first.\<close>

definition deserved :: "('i, 'c, 'k, 'b, 'r, 'x) world \<Rightarrow> exit_kind \<Rightarrow> interest" where
  "deserved w kind =
     (if fb_verdict (w_objective w) (w_observers w) kind (metadata (w_state w)) then IObjective
      else if fb_verdict (w_feedback w) (w_observers w) kind (metadata (w_state w)) then ICorpus
      else IUninteresting)"

definition names_apart :: "('i, 'c, 'k, 'b, 'r, 'x) world \<Rightarrow> bool" where
  "names_apart w \<longleftrightarrow> distinct (fb_map_names (w_objective w) @ fb_map_names (w_feedback w)) \<and>
     distinct (fb_list_names (w_objective w) @ fb_list_names (w_feedback w))"

lemma evaluate_execution_spec:
  assumes "names_apart w" "evaluate_execution kind w = (Inr i, w')"
  shows "i = deserved w kind" "books (w_state w') = books (w_state w)" "known (w_state w') = known (w_state w)"
    "w_observers w' = w_observers w" "w_outside w' = w_outside w"
proof -
  obtain a fo st1 where one: "fb_is_interesting (w_objective w) (w_observers w) kind (w_state w) = (Inr a, fo, st1)"
    using assms(2) by (auto simp: evaluate_execution_def ask_objective_def sbind_app split: prod.splits sum.splits)
  note ok1 = fb_is_interesting_ok [OF _ one] and books1 = is_interesting_books [OF one]
  have a: "a = fb_verdict (w_objective w) (w_observers w) kind (metadata (w_state w))"
    and only: "only_maps (set (fb_map_names (w_objective w))) (w_state w) st1"
    using ok1 assms(1) by (auto simp: names_apart_def)
  have frame: "fb_verdict (w_feedback w) (w_observers w) kind (metadata st1) =
      fb_verdict (w_feedback w) (w_observers w) kind (metadata (w_state w))"
    using only_mapsD [OF only] assms(1) by (intro fb_verdict_frame) (auto simp: names_apart_def)
  have "i = deserved w kind \<and> books (w_state w') = books (w_state w) \<and> known (w_state w') = known (w_state w) \<and>
    w_observers w' = w_observers w \<and> w_outside w' = w_outside w"
  proof (cases a)
    case True
    then show ?thesis using assms(2) one a books1
      by (auto simp: evaluate_execution_def ask_objective_def sbind_app sret_app deserved_def)
  next
    case False
    obtain b ff st2 where two: "fb_is_interesting (w_feedback w) (w_observers w) kind st1 = (Inr b, ff, st2)"
      and i: "i = (if b then ICorpus else IUninteresting)" and w': "w_state w' = st2"
      "w_observers w' = w_observers w" "w_outside w' = w_outside w"
      using assms(2) one False
      by (auto simp: evaluate_execution_def ask_objective_def ask_feedback_def sbind_app sret_app split: prod.splits sum.splits)
    have "b = fb_verdict (w_feedback w) (w_observers w) kind (metadata (w_state w))"
      using fb_is_interesting_ok [OF _ two] assms(1) frame by (auto simp: names_apart_def)
    then show ?thesis using i w' False a books1 is_interesting_books [OF two] by (auto simp: deserved_def)
  qed
  then show "i = deserved w kind" "books (w_state w') = books (w_state w)" "known (w_state w') = known (w_state w)"
    "w_observers w' = w_observers w" "w_outside w' = w_outside w" by simp_all
qed

text \<open>The books after an input was kept as an objective, or in the corpus, under an identifier.\<close>

definition kept_objective :: "('i, 'c, 'k, 'b) std_state \<Rightarrow> u64 \<Rightarrow> 'k \<Rightarrow> ('i, 'c, 'k, 'b) std_state \<Rightarrow> bool" where
  "kept_objective st tid k st' \<longleftrightarrow>
     books st' = (corpus st, k, pending_testcases st, executions st, s_corpus (state_stats st),
       s_objective (state_stats st) + 1, md_loader (metadata st), max_size_limit st) \<and>
     known st' = (known st)(tid := (executions st, fst (snd (known st tid)), min usize_max (snd (snd (known st tid)) + 1)))"

definition kept_in_corpus :: "('i, 'c, 'k, 'b) std_state \<Rightarrow> u64 \<Rightarrow> 'c \<Rightarrow> ('i, 'c, 'k, 'b) std_state \<Rightarrow> bool" where
  "kept_in_corpus st tid c st' \<longleftrightarrow>
     books st' = (c, objective_corpus st, pending_testcases st, executions st, s_corpus (state_stats st) + 1,
       s_objective (state_stats st), md_loader (metadata st), max_size_limit st) \<and>
     known st' = (known st)(tid := (executions st, snd (known st tid)))"

lemma count_books:
  "books (count_objective now st) = (corpus st, objective_corpus st, pending_testcases st, s_executions (state_stats st),
     s_corpus (state_stats st), s_objective (state_stats st) + 1, md_loader (metadata st), max_size_limit st)"
  "books (count_corpus now st) = (corpus st, objective_corpus st, pending_testcases st, s_executions (state_stats st),
     s_corpus (state_stats st) + 1, s_objective (state_stats st), md_loader (metadata st), max_size_limit st)"
  "known (count_objective now st) = known st" "known (count_corpus now st) = known st"
  by (auto simp: books_def known_def count_objective_def count_corpus_def testcase_md_or_default_def fun_eq_iff)

lemma keep_objective_spec:
  assumes "e_hooks env = []" "keep_objective env inp w = (Inr v, w')"
  shows "\<exists>tid k. v = VObjective tid \<and>
    co_add_objective (e_corpora env) (testcase_new (e_hash env) inp) (objective_corpus (w_state w)) = (Inr tid, k) \<and>
    kept_objective (w_state w) tid k (w_state w')"
proof -
  let ?st = "w_state w"
  obtain tid k where add: "co_add_objective (e_corpora env) (testcase_new (e_hash env) inp) (objective_corpus ?st) = (Inr tid, k)"
    using assms by (auto simp: keep_objective_def step_simps sbind_app sseq_app on_objectives_def spart_def split: prod.splits sum.splits)
  let ?st1 = "update_testcase_md tid (found_objective \<circ> set_executions (executions ?st)) (?st\<lparr>objective_corpus := k\<rparr>)"
  obtain st2 where app: "fb_append_metadata (w_objective w) (w_observers w) tid ?st1 = (Inr (), st2)"
    and w': "w_state w' = count_objective (e_now env (w_outside w)) st2" and v: "v = VObjective tid"
    using assms add
    by (auto simp: keep_objective_def step_simps sbind_app sseq_app on_objectives_def spart_def append_with_def
        post_add_all_def split: prod.splits sum.splits)
  have "known ?st1 = (known ?st)(tid := (executions ?st, fst (snd (known ?st tid)), min usize_max (snd (snd (known ?st tid)) + 1)))"
    unfolding known_update
    by (auto simp: known_def Let_def found_objective_def set_executions_def testcase_md_or_default_def fun_eq_iff)
  moreover have "books st2 = books (?st\<lparr>objective_corpus := k\<rparr>)" "known st2 = known ?st1"
    using append_books [OF app] by simp_all
  ultimately have "kept_objective ?st tid k (w_state w')"
    unfolding kept_objective_def w' count_books by (simp add: books_def executions_def)
  with add v show ?thesis by blast
qed

lemma keep_in_corpus_spec:
  assumes "e_hooks env = []" "keep_in_corpus env inp w = (Inr v, w')"
  shows "\<exists>tid c. v = VCorpus tid \<and>
    co_add (e_corpora env) (testcase_new (e_hash env) inp) (corpus (w_state w)) = (Inr tid, c) \<and>
    kept_in_corpus (w_state w) tid c (w_state w')"
proof -
  let ?st = "w_state w"
  obtain x where send: "e_send_testcase env (testcase_new (e_hash env) inp) (w_outside w) = (Inr (), x)"
    using assms by (auto simp: keep_in_corpus_def step_simps sbind_app sseq_app outside_def spart_def split: prod.splits sum.splits)
  obtain tid c where add: "co_add (e_corpora env) (testcase_new (e_hash env) inp) (corpus ?st) = (Inr tid, c)"
    using assms send
    by (auto simp: keep_in_corpus_def step_simps sbind_app sseq_app outside_def on_corpus_def spart_def split: prod.splits sum.splits)
  let ?st1 = "update_testcase_md tid (set_executions (executions ?st)) (?st\<lparr>corpus := c\<rparr>)"
  obtain st2 where app: "fb_append_metadata (w_feedback w) (w_observers w) tid ?st1 = (Inr (), st2)"
    and w': "w_state w' = count_corpus (e_now env x) st2" and v: "v = VCorpus tid"
    using assms send add
    by (auto simp: keep_in_corpus_def step_simps sbind_app sseq_app outside_def on_corpus_def spart_def append_with_def
        post_add_all_def split: prod.splits sum.splits)
  have "known ?st1 = (known ?st)(tid := (executions ?st, snd (known ?st tid)))"
    unfolding known_update
    by (auto simp: known_def Let_def set_executions_def testcase_md_or_default_def fun_eq_iff)
  moreover have "books st2 = books (?st\<lparr>corpus := c\<rparr>)" "known st2 = known ?st1"
    using append_books [OF app] by simp_all
  ultimately have "kept_in_corpus ?st tid c (w_state w')"
    unfolding kept_in_corpus_def w' count_books by (simp add: books_def executions_def)
  with add v show ?thesis by blast
qed

section \<open>The evaluation of an input\<close>

text \<open>A run that returns changes the observers, the outside and one counter.\<close>

lemma execute_spec:
  assumes "execute env inp w = (Inr kind, w')"
  shows "w_state w' = increment_execs (w_state w)" "w_feedback w' = w_feedback w" "w_objective w' = w_objective w"
    "w_running w' = None" "w_rand w' = w_rand w" "w_loading_stage w' = w_loading_stage w"
  using assms
  by (auto simp: execute_def step_simps sbind_app sseq_app on_observers_def outside_def spart_def run_target_def Let_def
      split: prod.splits sum.splits target_end.splits)

lemma names_apart_cong:
  "w_objective w' = w_objective w \<Longrightarrow> w_feedback w' = w_feedback w \<Longrightarrow> names_apart w' = names_apart w"
  by (simp add: names_apart_def)

lemma report_stats_state: "report_stats env w = (r, w') \<Longrightarrow> w_state w' = w_state w"
  by (auto simp: report_stats_def outside_def spart_def split: prod.splits)

text \<open>
  C3. The booking of an evaluation that ends. The input was run once; the objective is asked first, then
  the feedback; an objective goes to the objective corpus only, a corpus entry to the corpus only,
  each exactly once and under the identifier of the verdict, with the number of executions so far and
  the counters one higher; an uninteresting input leaves both corpora and all counters but the
  number of executions alone.
\<close>

theorem verdicts_are_booked:
  assumes "e_hooks env = []" "names_apart w" "evaluate_input env inp w = (Inr res, w')"
  shows "\<exists>w1. execute env inp w = (Inr (exit_kind res), w1) \<and> w_state w1 = increment_execs (w_state w) \<and>
    (case deserved w1 (exit_kind res) of
       IObjective \<Rightarrow> \<exists>tid k. verdict res = VObjective tid \<and> kept_objective (w_state w1) tid k (w_state w') \<and>
         co_add_objective (e_corpora env) (testcase_new (e_hash env) inp) (objective_corpus (w_state w)) = (Inr tid, k)
     | ICorpus \<Rightarrow> \<exists>tid c. verdict res = VCorpus tid \<and> kept_in_corpus (w_state w1) tid c (w_state w') \<and>
         co_add (e_corpora env) (testcase_new (e_hash env) inp) (corpus (w_state w)) = (Inr tid, c)
     | IUninteresting \<Rightarrow> verdict res = VUninteresting \<and> books (w_state w') = books (w_state w1) \<and>
         known (w_state w') = known (w_state w))"
proof -
  obtain kind w1 where run: "execute env inp w = (Inr kind, w1)"
    using assms(3) by (auto simp: evaluate_input_def elim: sbind_cases)
  note ex = execute_spec [OF run]
  obtain w3 where post: "post_execution env inp kind w1 = (Inr res, w3)" and w3: "w_state w' = w_state w3"
    using assms(3) run report_stats_state
    by (fastforce simp: evaluate_input_def sbind_app sseq_app sret_app split: prod.splits sum.splits)
  obtain i w2 where ev: "evaluate_execution kind w1 = (Inr i, w2)"
    using post by (auto simp: post_execution_def elim: sbind_cases)
  have apart: "names_apart w1" using assms(2) names_apart_cong ex(2,3) by metis
  note spec = evaluate_execution_spec [OF apart ev]
  have w2: "corpus (w_state w2) = corpus (w_state w)" "objective_corpus (w_state w2) = objective_corpus (w_state w)"
    using spec(2) ex(1) by (simp_all add: books_def increment_execs_def)
  have known: "known (w_state w1) = known (w_state w)"
    using ex(1) by (simp add: increment_execs_def known_def testcase_md_or_default_def fun_eq_iff)
  have kept: "kept_objective (w_state w2) tid k st = kept_objective (w_state w1) tid k st"
    "kept_in_corpus (w_state w2) tid c st = kept_in_corpus (w_state w1) tid c st" for tid k c st
    using spec(2,3) by (auto simp: kept_objective_def kept_in_corpus_def books_def executions_def)
  have kind: "exit_kind res = kind"
    using post ev by (auto simp: post_execution_def sbind_app sret_app evaluation_new_def split: prod.splits sum.splits)
  show ?thesis
  proof (cases i)
    case IObjective
    then obtain v where v: "keep_objective env inp w2 = (Inr v, w3)" "verdict res = v"
      using post ev by (auto simp: post_execution_def sbind_app sret_app evaluation_new_def split: prod.splits sum.splits)
    obtain tid k where "v = VObjective tid" "kept_objective (w_state w2) tid k (w_state w3)"
      "co_add_objective (e_corpora env) (testcase_new (e_hash env) inp) (objective_corpus (w_state w2)) = (Inr tid, k)"
      using keep_objective_spec [OF assms(1) v(1)] by blast
    moreover have "deserved w1 (exit_kind res) = IObjective" using IObjective spec(1) kind by simp
    ultimately show ?thesis using run ex(1) w2 w3 v(2) kind by (intro exI [of _ w1]) (simp add: kept)
  next
    case ICorpus
    then obtain v where v: "keep_in_corpus env inp w2 = (Inr v, w3)" "verdict res = v"
      using post ev by (auto simp: post_execution_def sbind_app sret_app evaluation_new_def split: prod.splits sum.splits)
    obtain tid c where "v = VCorpus tid" "kept_in_corpus (w_state w2) tid c (w_state w3)"
      "co_add (e_corpora env) (testcase_new (e_hash env) inp) (corpus (w_state w2)) = (Inr tid, c)"
      using keep_in_corpus_spec [OF assms(1) v(1)] by blast
    moreover have "deserved w1 (exit_kind res) = ICorpus" using ICorpus spec(1) kind by simp
    ultimately show ?thesis using run ex(1) w2 w3 v(2) kind by (intro exI [of _ w1]) (simp add: kept)
  next
    case IUninteresting
    then have "verdict res = VUninteresting" "w3 = w2"
      using post ev by (auto simp: post_execution_def sbind_app sret_app evaluation_new_def split: prod.splits sum.splits)
    moreover have "deserved w1 (exit_kind res) = IUninteresting" using IUninteresting spec(1) kind by simp
    ultimately show ?thesis using spec(2,3) run ex(1) w3 known kind by (intro exI [of _ w1]) simp
  qed
qed

section \<open>A concrete fuzzer\<close>

text \<open>
  A target that marks one entry of its map by the first byte of the input, crashes on an input
  that begins with 255, and is killed on one that begins with 254.
\<close>

definition sample_target :: "bytes \<Rightarrow> observers \<Rightarrow> unit \<Rightarrow> target_end \<times> observers \<times> unit" where
  "sample_target inp obs x =
     (let b = (if inp = [] then 0 else hd inp);
          obs = map (\<lambda>(n, ob). (n, case ob of MapOb (VariableMap xs ini) \<Rightarrow>
              MapOb (VariableMap (xs[unat b mod length xs := 1]) ini) | _ \<Rightarrow> ob)) obs
      in ((if b = 255 then Returns ExitCrash else if b = 254 then Killed ExitCrash else Returns ExitOk), obs, x))"

type_synonym sample_corpus = "(bytes testcase hash_corpus_map in_memory_store, queue_scheduler) single_corpus"
type_synonym sample_objectives = "(bytes testcase hash_corpus_map in_memory_store, unit) single_corpus"
type_synonym 'r sample_world = "(bytes, sample_corpus, sample_objectives, bytes, 'r, unit) world"

definition sample_env :: "(bytes, sample_corpus, sample_objectives, bytes, 'r, unit) env" where
  "sample_env = \<lparr>e_hash = (\<lambda>inp. case inp of [] \<Rightarrow> 0 | b # _ \<Rightarrow> ucast b),
     e_corpora = single_ops (inmem_ops hash_ops) queue_ops (inmem_ops hash_ops),
     e_now = (\<lambda>_. 0), e_arm_timeout = Pair (Inr ()), e_disarm_timeout = Pair (Inr ()),
     e_target = sample_target, e_handle_crash = (\<lambda>_. Pair (Inr True)), e_handle_timeout = (\<lambda>_. Pair (Inr ())),
     e_send_testcase = (\<lambda>_. Pair (Inr ())), e_report_stats = (\<lambda>_. Pair (Inr ())),
     e_poll = Pair (Inr False), e_should_shutdown = Pair False, e_recv_testcases = Pair (Inr []),
     e_encode = Inr, e_decode = Inr, e_hooks = []\<rparr>"

definition sample_with :: "'r \<Rightarrow> 'r sample_world" where
  "sample_with rand = \<lparr>w_state = (std_state_new 0 (single_new (inmem_new hash_ops) queue_new) (single_new (inmem_new hash_ops) ()))
       \<lparr>metadata := metadata_empty\<lparr>md_maps := [''edges'' \<mapsto> \<lparr>history_map = [], num_covered = 0\<rparr>]\<rparr>\<rparr>,
     w_observers = [(''edges'', MapOb (VariableMap [0, 0, 0, 0] 0))],
     w_feedback = afl_map_feedback ''edges'', w_objective = std_objective_feedback, w_loading_stage = 0,
     w_running = None, w_rand = rand, w_outside = ()\<rparr>"

abbreviation sample_start :: "unit sample_world" where
  "sample_start \<equiv> sample_with ()"

lemmas sample_fuzzer_defs = sample_env_def sample_with_def sample_target_def afl_map_feedback_def
  std_objective_feedback_def crash_feedback_def timeout_feedback_def std_state_new_def metadata_empty_def

lemmas evaluation_defs = evaluate_input_def execute_def run_target_def post_execution_def evaluate_execution_def
  ask_objective_def ask_feedback_def keep_objective_def keep_in_corpus_def on_observers_def outside_def on_corpus_def
  on_objectives_def append_with_def report_stats_def post_add_all_def evaluation_new_def sbind_app sseq_app spart_def
  sret_app sget_app smod_app

lemma sample_evaluation:
  "fst (evaluate_input sample_env [1] sample_start) = Inr \<lparr>exit_kind = ExitOk, verdict = VCorpus 1\<rparr>"
  by (simp add: evaluation_defs sample_fuzzer_defs feedback_defs check_exit_kind_def map_pre_exec_def reset_slice_def
      increment_execs_def executions_def max_reduce_def update_testcase_md_def testcase_new_def single_ops_def
      single_new_def single_add_shared_def inmem_new_def inmem_ops_def inmem_add_shared_def hash_ops_def hash_empty_def
      hash_add_def hash_get_def queue_ops_def queue_new_def queue_on_add_def count_corpus_def)

lemma sample_apart: "names_apart sample_start"
  by (simp add: names_apart_def sample_fuzzer_defs)

theorem verdicts_are_booked_witness:
  "\<exists>w1 c st. execute sample_env [1] sample_start = (Inr ExitOk, w1) \<and> deserved w1 ExitOk = ICorpus \<and>
    kept_in_corpus (w_state w1) 1 c st"
proof -
  obtain w' where run: "evaluate_input sample_env [1] sample_start = (Inr \<lparr>exit_kind = ExitOk, verdict = VCorpus 1\<rparr>, w')"
    using sample_evaluation by (metis prod.collapse)
  have "e_hooks sample_env = []" by (simp add: sample_env_def)
  from verdicts_are_booked [OF this sample_apart run] show ?thesis
    by (elim exE conjE) (simp split: interest.split_asm, blast)
qed

end
