(* ===== verification/Loading.thy ===== *)
theory Loading
  imports Evaluation
begin

text \<open>
  The loader across crashes. A load keeps its inputs in the state, and the state survives the
  process: when an input kills the process, the signal handler records its result, and the next
  process goes on with the rest.
\<close>

section \<open>Who writes the loader's records\<close>

abbreviation loader_of :: "('i, 'c, 'k, 'b, 'r, 'x) world \<Rightarrow> 'b loader_md option" where
  "loader_of w \<equiv> md_loader (metadata (w_state w))"

text \<open>The hooks of an environment leave the loader's records alone.\<close>

definition quiet_hook :: "('i, ('i, 'c, 'k, 'b, 'r, 'x) world) fuzzer_hook \<Rightarrow> bool" where
  "quiet_hook h \<longleftrightarrow> preserves loader_of (fh_pre_step h) \<and> (\<forall>tc i. preserves loader_of (fh_pre_add h tc i)) \<and>
     (\<forall>v. preserves loader_of (fh_post_add h v)) \<and> (\<forall>tid. preserves loader_of (fh_pre_perform h tid)) \<and>
     preserves loader_of (fh_post_step h)"

definition quiet :: "('i, 'c, 'k, 'b, 'r, 'x) env \<Rightarrow> bool" where
  "quiet env \<longleftrightarrow> (\<forall>h \<in> set (e_hooks env). quiet_hook h)"

lemma books_loader: "books st' = books st \<Longrightarrow> md_loader (metadata st') = md_loader (metadata st)"
  by (simp add: books_def)

lemma loader_frames [frames]:
  "preserves loader_of (outside f)" "preserves loader_of (on_corpus g)" "preserves loader_of (on_objectives h)"
  "preserves loader_of (on_observers ob env)" "preserves loader_of (report_stats env)"
  by (rule preservesI; auto simp: outside_def on_corpus_def on_objectives_def on_observers_def report_stats_def spart_def
      split: prod.splits)+

lemma count_frames [frames]:
  "preserves loader_of (\<lambda>w. on_state (count_objective (g w)) w)"
  "preserves loader_of (\<lambda>w. on_state (count_corpus (g w)) w)"
  by (rule preservesI; auto simp: smod_app count_objective_def count_corpus_def)+

lemma ask_frames [frames]:
  "preserves loader_of (ask_objective kind)" "preserves loader_of (ask_feedback kind)"
  "preserves loader_of (append_with fb tid)"
  by (rule preservesI; auto simp: ask_objective_def ask_feedback_def append_with_def split: prod.splits
      dest!: is_interesting_books append_books intro: books_loader)+

lemma on_state_frame: "(\<And>st. md_loader (metadata (f st)) = md_loader (metadata st)) \<Longrightarrow> preserves loader_of (on_state f)"
  by (rule preserves_smod) simp

lemma hook_frames:
  assumes "\<forall>h \<in> set hs. quiet_hook h"
  shows "preserves loader_of (pre_add_all hs tc i)" "preserves loader_of (post_add_all hs v)"
    "preserves loader_of (pre_perform_all hs tid)" "preserves loader_of (pre_step_all hs)" "preserves loader_of (post_step_all hs)"
proof -
  show "preserves loader_of (pre_add_all hs tc i)" using assms
    by (induction hs arbitrary: tc) (auto simp: quiet_hook_def intro!: preserves_basic preserves_sbind)
  show "preserves loader_of (post_add_all hs v)" "preserves loader_of (pre_perform_all hs tid)"
    "preserves loader_of (pre_step_all hs)" "preserves loader_of (post_step_all hs)"
    unfolding post_add_all_def pre_perform_all_def pre_step_all_def post_step_all_def
    using assms by (auto simp: quiet_hook_def intro!: preserves_sforeach)
qed

lemma keep_frames:
  assumes "quiet env"
  shows "preserves loader_of (keep_objective env inp)" "preserves loader_of (keep_in_corpus env inp)"
proof -
  note hooks = hook_frames [OF assms [unfolded quiet_def]]
  show "preserves loader_of (keep_objective env inp)"
    unfolding keep_objective_def
    by (intro preserves_sbind preserves_sseq preserves_basic hooks loader_frames ask_frames count_frames on_state_frame)
      (simp add: update_testcase_md_def)
  show "preserves loader_of (keep_in_corpus env inp)"
    unfolding keep_in_corpus_def
    by (intro preserves_sbind preserves_sseq preserves_basic hooks loader_frames ask_frames count_frames on_state_frame)
      (simp add: update_testcase_md_def)
qed

lemma post_execution_frame:
  assumes "quiet env"
  shows "preserves loader_of (post_execution env inp kind)"
  unfolding post_execution_def evaluate_execution_def
  by (intro preserves_sbind preserves_basic)
    (auto intro!: preserves_sbind preserves_basic ask_frames keep_frames [OF assms] split: interest.splits)

section \<open>A result is recorded at most once\<close>

definition maybe_recorded :: "'b loader_md option \<Rightarrow> 'b loader_md option \<Rightarrow> bool" where
  "maybe_recorded old new \<longleftrightarrow> new = old \<or> (\<exists>md res. old = Some md \<and> new = Some (snd (record_result res md)))"

lemma maybe_recorded_refl [simp]: "maybe_recorded old old"
  by (simp add: maybe_recorded_def)

lemma on_loader_of: "on_loader f w = (r, w') \<Longrightarrow>
    (loader_of w = None \<and> loader_of w' = None \<and> r = Inl (Fails KeyNotFound)) \<or>
    (\<exists>md. loader_of w = Some md \<and> r = map_sum Fails id (fst (f md)) \<and> loader_of w' = Some (snd (f md)))"
  by (auto simp: on_loader_def split: option.splits prod.splits)

lemma on_loader_Some:
  "on_loader f w = (r, w') \<Longrightarrow> loader_of w = Some md \<Longrightarrow>
    r = map_sum Fails id (fst (f md)) \<and> loader_of w' = Some (snd (f md))"
  by (auto simp: on_loader_def split: prod.splits)

lemma handler_records:
  assumes "quiet env" "handle_objective_in_termination_handler env inp kind w = (r, w')"
  shows "maybe_recorded (loader_of w) (loader_of w')"
  using assms(2) unfolding handle_objective_in_termination_handler_def
proof (cases rule: sseq_cases)
  case (stop s)
  then show ?thesis using preservesD [OF loader_frames(4)] by fastforce
next
  case (cont w1)
  have 1: "loader_of w1 = loader_of w" using preservesD [OF loader_frames(4) cont(1)] .
  show ?thesis using cont(2)
  proof (cases rule: sbind_cases)
    case (stop s)
    then show ?thesis using preservesD [OF post_execution_frame [OF assms(1)]] 1 by fastforce
  next
    case (cont res w2)
    have 2: "loader_of w2 = loader_of w" using preservesD [OF post_execution_frame [OF assms(1)] cont(1)] 1 by simp
    show ?thesis
    proof (cases "loader_of w")
      case None
      then show ?thesis using cont(2) 2 by (simp add: step_simps)
    next
      case (Some md)
      then have "loader_of w' = Some (snd (record_result res md))"
        using cont(2) 2 by (auto simp: step_simps sseq_app on_loader_def split: prod.splits sum.splits)
      then show ?thesis using Some by (auto simp: maybe_recorded_def)
    qed
  qed
qed

lemma termination_records:
  assumes "quiet env"
  shows "maybe_recorded (loader_of w) (loader_of (snd (std_on_crash env w)))"
    "maybe_recorded (loader_of w) (loader_of (snd (std_on_timeout env w)))"
proof -
  have handled: "maybe_recorded (loader_of v) (loader_of (snd (sbind (handle_objective_in_termination_handler env inp kind) (\<lambda>_. sret ()) v)))"
    for inp kind v
  proof -
    obtain r v' where h: "handle_objective_in_termination_handler env inp kind v = (r, v')" by force
    then have "snd (sbind (handle_objective_in_termination_handler env inp kind) (\<lambda>_. sret ()) v) = v'"
      by (cases r) (simp_all add: sbind_app sret_app)
    with handler_records [OF assms h] show ?thesis by simp
  qed
  show "maybe_recorded (loader_of w) (loader_of (snd (std_on_crash env w)))"
  proof (cases "w_running w")
    case None
    then show ?thesis by (simp add: std_on_crash_def step_simps)
  next
    case (Some inp)
    obtain r x where x: "e_handle_crash env (Some inp) (w_outside w) = (r, x)" by force
    let ?v = "w\<lparr>w_running := None, w_outside := x\<rparr>"
    show ?thesis
    proof (cases "r = Inr True")
      case True
      then have "std_on_crash env w =
          sbind (handle_objective_in_termination_handler env inp ExitCrash) (\<lambda>_. sret ()) ?v"
        using Some x by (simp add: std_on_crash_def step_simps outside_def sbind_app [of "spart _ _ _"] spart_app)
      then show ?thesis using handled [of ?v inp ExitCrash] by simp
    next
      case False
      then have "snd (std_on_crash env w) = ?v"
        using Some x by (cases r) (auto simp: std_on_crash_def step_simps outside_def sbind_app [of "spart _ _ _"] spart_app)
      then show ?thesis by simp
    qed
  qed
  show "maybe_recorded (loader_of w) (loader_of (snd (std_on_timeout env w)))"
  proof (cases "w_running w")
    case None
    then show ?thesis by (simp add: std_on_timeout_def step_simps)
  next
    case (Some inp)
    obtain r x where x: "e_handle_timeout env (Some inp) (w_outside w) = (r, x)" by force
    let ?v = "w\<lparr>w_running := None, w_outside := x\<rparr>"
    show ?thesis
    proof (cases r)
      case (Inr u)
      then have "std_on_timeout env w =
          sbind (handle_objective_in_termination_handler env inp ExitTimeout) (\<lambda>_. sret ()) ?v"
        using Some x by (simp add: std_on_timeout_def step_simps outside_def sseq_app [of "spart _ _ _"] spart_app)
      then show ?thesis using handled [of ?v inp ExitTimeout] by simp
    next
      case (Inl e)
      then have "snd (std_on_timeout env w) = ?v"
        using Some x by (simp add: std_on_timeout_def step_simps outside_def sseq_app [of "spart _ _ _"] spart_app)
      then show ?thesis by simp
    qed
  qed
qed

lemma run_target_loader:
  assumes "quiet env" "run_target env inp w = (r, w')"
  shows "r \<noteq> Inl Exits \<Longrightarrow> loader_of w' = loader_of w" "maybe_recorded (loader_of w) (loader_of w')"
proof -
  obtain how obs x where run: "e_target env inp (w_observers w) (w_outside w) = (how, obs, x)" by (metis prod_cases3)
  let ?v = "w\<lparr>w_observers := obs, w_outside := x\<rparr>"
  have v: "loader_of ?v = loader_of w" by simp
  have "(r \<noteq> Inl Exits \<longrightarrow> loader_of w' = loader_of w) \<and> maybe_recorded (loader_of w) (loader_of w')"
  proof (cases how)
    case (Killed kind)
    then have "w' = snd ((if kind = ExitTimeout then std_on_timeout env else std_on_crash env) ?v)" "r = Inl Exits"
      using assms(2) run by (simp_all add: run_target_def Let_def)
    then show ?thesis using termination_records [OF assms(1), of ?v] by (auto split: if_splits)
  qed (use assms(2) run in \<open>auto simp: run_target_def Let_def\<close>)
  then show "r \<noteq> Inl Exits \<Longrightarrow> loader_of w' = loader_of w" "maybe_recorded (loader_of w) (loader_of w')" by simp_all
qed

lemma slift_world: "slift m w = (r, w') \<Longrightarrow> w' = w"
  by (simp add: slift_def)

lemma execute_loader:
  assumes "quiet env" "execute env inp w = (r, w')"
  shows "r \<noteq> Inl Exits \<Longrightarrow> loader_of w' = loader_of w" "maybe_recorded (loader_of w) (loader_of w')"
proof -
  let ?rest = "\<lambda>kind. sseq (smod (\<lambda>w. w\<lparr>w_running := None\<rparr>))
     (sseq (outside (e_disarm_timeout env)) (sseq (on_observers post_exec_all env) (sret kind)))"
  let ?pre = "sseq (on_state increment_execs) (sseq (on_observers pre_exec_all env)
     (sseq (outside (e_arm_timeout env)) (smod (\<lambda>w. w\<lparr>w_running := Some inp\<rparr>))))"
  have rest: "preserves loader_of (?rest kind)" for kind by (intro frames) simp
  have pre: "preserves loader_of ?pre"
    by (intro preserves_sseq loader_frames on_state_frame preserves_smod) (simp_all add: increment_execs_def)
  have whole: "execute env inp = sseq ?pre (sbind (run_target env inp) ?rest)"
    by (simp add: execute_def sseq_def sbind_assoc)
  have "(r \<noteq> Inl Exits \<longrightarrow> loader_of w' = loader_of w) \<and> maybe_recorded (loader_of w) (loader_of w')"
    using assms(2) unfolding whole
  proof (cases rule: sseq_cases)
    case (stop s)
    then show ?thesis using preservesD [OF pre] by fastforce
  next
    case (cont w1)
    have 1: "loader_of w1 = loader_of w" using preservesD [OF pre cont(1)] .
    show ?thesis using cont(2)
    proof (cases rule: sbind_cases)
      case (stop s)
      then show ?thesis using run_target_loader [OF assms(1) stop(1)] 1 by auto
    next
      case (cont kind w2)
      then show ?thesis using run_target_loader [OF assms(1) cont(1)] preservesD [OF rest cont(2)] 1 by auto
    qed
  qed
  then show "r \<noteq> Inl Exits \<Longrightarrow> loader_of w' = loader_of w" "maybe_recorded (loader_of w) (loader_of w')" by simp_all
qed

lemma evaluate_input_loader:
  assumes "quiet env" "evaluate_input env inp w = (r, w')"
  shows "r \<noteq> Inl Exits \<Longrightarrow> loader_of w' = loader_of w" "maybe_recorded (loader_of w) (loader_of w')"
proof -
  have rest: "preserves loader_of (sbind (post_execution env inp kind) (\<lambda>res. sseq (report_stats env) (sret res)))" for kind
    by (intro frames post_execution_frame [OF assms(1)])
  have "(r \<noteq> Inl Exits \<longrightarrow> loader_of w' = loader_of w) \<and> maybe_recorded (loader_of w) (loader_of w')"
    using assms(2) unfolding evaluate_input_def
  proof (cases rule: sbind_cases)
    case (stop s)
    then show ?thesis using execute_loader [OF assms(1) stop(1)] by auto
  next
    case (cont kind w1)
    then show ?thesis using execute_loader [OF assms(1) cont(1)] preservesD [OF rest cont(2)] by auto
  qed
  then show "r \<noteq> Inl Exits \<Longrightarrow> loader_of w' = loader_of w" "maybe_recorded (loader_of w) (loader_of w')" by simp_all
qed

section \<open>No input of a load is lost or run twice\<close>

text \<open>
  At any time the inputs of a load are those that ran, then the running one, then those to run;
  \<open>left\<close> counts those whose result is not there yet.
\<close>

definition load_inv :: "nat \<Rightarrow> 'b list \<Rightarrow> 'b loader_md option \<Rightarrow> bool" where
  "load_inv stage inputs loader \<longleftrightarrow> (\<exists>md l. loader = Some md \<and> loads md stage = Some l \<and>
     (case running_input md of
        None \<Rightarrow> map fst (ran_inputs l) @ inputs_to_run l = inputs
      | Some (s, b) \<Rightarrow> s = stage \<and> map fst (ran_inputs l) @ b # inputs_to_run l = inputs))"

definition no_running :: "'b loader_md option \<Rightarrow> bool" where
  "no_running loader \<longleftrightarrow> (\<forall>md. loader = Some md \<longrightarrow> running_input md = None)"

definition to_run :: "nat \<Rightarrow> 'b loader_md option \<Rightarrow> nat" where
  "to_run stage loader = (case loader of None \<Rightarrow> 0
     | Some md \<Rightarrow> (case loads md stage of None \<Rightarrow> 0 | Some l \<Rightarrow> length (inputs_to_run l)))"

definition results :: "nat \<Rightarrow> 'b loader_md option \<Rightarrow> ('b \<times> evaluation_result) list" where
  "results stage loader = (case loader of None \<Rightarrow> []
     | Some md \<Rightarrow> (case loads md stage of None \<Rightarrow> [] | Some l \<Rightarrow> ran_inputs l))"

lemma maybe_recorded_inv:
  assumes "load_inv stage inputs old" "maybe_recorded old new"
  shows "load_inv stage inputs new" "to_run stage new = to_run stage old"
proof -
  have "load_inv stage inputs new \<and> to_run stage new = to_run stage old"
  proof (cases "new = old")
    case False
    then obtain md res where md: "old = Some md" "new = Some (snd (record_result res md))"
      using assms(2) by (auto simp: maybe_recorded_def)
    obtain l where l: "loads md stage = Some l"
      "case running_input md of None \<Rightarrow> map fst (ran_inputs l) @ inputs_to_run l = inputs
       | Some (s, b) \<Rightarrow> s = stage \<and> map fst (ran_inputs l) @ b # inputs_to_run l = inputs"
      using assms(1) md(1) by (auto simp: load_inv_def)
    show ?thesis
    proof (cases "running_input md")
      case None
      then show ?thesis using md l by (simp add: record_result_def load_inv_def to_run_def)
    next
      case (Some sb)
      then show ?thesis using md l
        by (cases sb) (simp add: record_result_def load_inv_def to_run_def Let_def)
    qed
  qed (use assms in simp)
  then show "load_inv stage inputs new" "to_run stage new = to_run stage old" by simp_all
qed

lemma record_running:
  assumes "load_inv stage inputs (Some md)" "running_input md = Some (s, b)"
  shows "fst (record_result res md) = Inr ()" "load_inv stage inputs (Some (snd (record_result res md)))"
    "no_running (Some (snd (record_result res md)))" "to_run stage (Some (snd (record_result res md))) = to_run stage (Some md)"
  using assms by (auto simp: load_inv_def record_result_def Let_def no_running_def to_run_def)

lemma next_input_inv:
  assumes "load_inv stage inputs (Some md)" "no_running (Some md)"
  shows "(fst (next_input stage md) = Inr None \<and> snd (next_input stage md) = md \<and> to_run stage (Some md) = 0) \<or>
    (\<exists>b. fst (next_input stage md) = Inr (Some b) \<and> load_inv stage inputs (Some (snd (next_input stage md))) \<and>
      running_input (snd (next_input stage md)) = Some (stage, b) \<and>
      Suc (to_run stage (Some (snd (next_input stage md)))) = to_run stage (Some md))"
proof -
  obtain l where l: "loads md stage = Some l" "map fst (ran_inputs l) @ inputs_to_run l = inputs" "running_input md = None"
    using assms by (auto simp: load_inv_def no_running_def)
  then have md: "md\<lparr>running_input := None\<rparr> = md" by simp
  show ?thesis
    using l md by (cases "inputs_to_run l") (auto simp: next_input_def load_inv_def to_run_def Let_def)
qed

text \<open>One process: the loop returns, whatever happens nothing is lost, and when it is done all inputs have run.\<close>

lemma load_loop_once:
  assumes "quiet env" "load_inv stage inputs (loader_of w)" "no_running (loader_of w)"
  shows "\<exists>r w'. load_loop env stage w = Some (r, w') \<and> load_inv stage inputs (loader_of w') \<and>
    (case r of Inr _ \<Rightarrow> no_running (loader_of w') \<and> to_run stage (loader_of w') = 0
     | Inl _ \<Rightarrow> to_run stage (loader_of w') < to_run stage (loader_of w))"
  using assms(2,3)
proof (induction "to_run stage (loader_of w)" arbitrary: w rule: less_induct)
  case less
  obtain md where md: "loader_of w = Some md" using less.prems(1) by (auto simp: load_inv_def)
  obtain r1 w1 where step: "on_loader (next_input stage) w = (r1, w1)" by force
  have w1: "loader_of w1 = Some (snd (next_input stage md))" "r1 = map_sum Fails id (fst (next_input stage md))"
    using on_loader_of [OF step] md by auto
  from next_input_inv [of stage inputs md] less.prems md consider
      (finished) "r1 = Inr None" "loader_of w1 = Some md" "to_run stage (Some md) = 0"
    | (more) b where "r1 = Inr (Some b)" "load_inv stage inputs (loader_of w1)"
        "running_input (the (loader_of w1)) = Some (stage, b)"
        "Suc (to_run stage (loader_of w1)) = to_run stage (Some md)"
    using w1 by auto
  then show ?case
  proof cases
    case finished
    then have "load_loop env stage w = Some (Inr (), w1)" using step by (subst load_loop.simps) simp
    then show ?thesis using finished less.prems md by auto
  next
    case (more b)
    obtain r2 w2 where run: "run_loaded env b w1 = (r2, w2)" by force
    have loop: "load_loop env stage w =
        (case (r2, w2) of (Inl s, w) \<Rightarrow> Some (Inl s, w) | (Inr _, w) \<Rightarrow> load_loop env stage w)"
      using step more(1) run by (subst load_loop.simps) simp
    have fewer: "to_run stage (loader_of w1) < to_run stage (loader_of w)" using more(4) md by simp
    show ?thesis
    proof (cases r2)
      case (Inl s)
      have "maybe_recorded (loader_of w1) (loader_of w2)"
        using run Inl unfolding run_loaded_def
      proof (cases rule: sbind_cases)
        case (stop s)
        then show ?thesis using slift_world [OF stop(1)] by simp
      next
        case (cont inp v)
        have v: "loader_of v = loader_of w1" using slift_world [OF cont(1)] by simp
        show ?thesis using cont(2)
        proof (cases rule: sbind_cases)
          case (stop s)
          then show ?thesis using evaluate_input_loader(2) [OF assms(1) stop(1)] v by simp
        next
          case (cont res u)
          have "loader_of u = loader_of w1" using evaluate_input_loader(1) [OF assms(1) cont(1)] v by simp
          moreover obtain md1 where "loader_of w1 = Some md1" using more(2) by (auto simp: load_inv_def)
          ultimately show ?thesis using on_loader_Some [OF cont(2)] unfolding maybe_recorded_def by metis
        qed
      qed
      note inv = maybe_recorded_inv [OF more(2) this]
      show ?thesis using loop inv fewer by (intro exI [of _ "Inl s"] exI [of _ w2]) (simp add: Inl)
    next
      case (Inr u)
      obtain md1 where md1: "loader_of w1 = Some md1" using more(2) by (auto simp: load_inv_def)
      obtain res where "loader_of w2 = Some (snd (record_result res md1))"
      proof -
        have "\<exists>res. loader_of w2 = Some (snd (record_result res md1))"
          using run Inr unfolding run_loaded_def
        proof (cases rule: sbind_cases)
          case (cont inp v)
          have v: "loader_of v = loader_of w1" using slift_world [OF cont(1)] by simp
          show ?thesis using cont(2)
          proof (cases rule: sbind_cases)
            case (cont res u)
            have "loader_of u = Some md1" using evaluate_input_loader(1) [OF assms(1) cont(1)] v md1 by simp
            then show ?thesis using on_loader_Some [OF cont(2)] by blast
          qed (use Inr in simp)
        qed simp
        with that show thesis by blast
      qed
      then have w2: "load_inv stage inputs (loader_of w2)" "no_running (loader_of w2)"
        "to_run stage (loader_of w2) = to_run stage (loader_of w1)"
        using record_running [of stage inputs md1 stage b res] more md1 by simp_all
      then have less2: "to_run stage (loader_of w2) < to_run stage (loader_of w)" using fewer by simp
      obtain r w' where rec: "load_loop env stage w2 = Some (r, w')" "load_inv stage inputs (loader_of w')"
        "case r of Inr _ \<Rightarrow> no_running (loader_of w') \<and> to_run stage (loader_of w') = 0
         | Inl _ \<Rightarrow> to_run stage (loader_of w') < to_run stage (loader_of w2)"
        using less.hyps [OF less2 w2(1,2)] by blast
      have "load_loop env stage w = Some (r, w')" using loop rec(1) Inr by simp
      then show ?thesis using rec(2,3) less2 by (intro exI [of _ r] exI [of _ w']) (simp split: sum.splits)
    qed
  qed
qed

section \<open>Loads across processes\<close>

text \<open>
  A process loads until an input kills it; the handler gets to record the result, and the next
  process starts over with the state that was saved, its own observers, feedbacks and outside.
\<close>

inductive restarted ::
  "('i, 'c, 'k, 'b, 'r, 'x) env \<Rightarrow> nat \<Rightarrow> ('i, 'c, 'k, 'b, 'r, 'x) world \<Rightarrow> nat \<Rightarrow> ('i, 'c, 'k, 'b, 'r, 'x) world \<Rightarrow> bool"
  for env stage w where
  first: "restarted env stage w 0 w"
| killed: "restarted env stage w n w1 \<Longrightarrow> load_loop env stage w1 = Some (Inl Exits, w2) \<Longrightarrow> no_running (loader_of w2) \<Longrightarrow>
    w_state w3 = w_state w2 \<Longrightarrow> restarted env stage w (Suc n) w3"

inductive_cases restartedE: "restarted env stage w n w'"

lemma restarted_inv:
  assumes "restarted env stage w n w'" "quiet env" "load_inv stage inputs (loader_of w)" "no_running (loader_of w)"
  shows "load_inv stage inputs (loader_of w') \<and> no_running (loader_of w') \<and>
    n + to_run stage (loader_of w') \<le> to_run stage (loader_of w)"
  using assms(1)
proof (induction rule: restarted.induct)
  case first
  then show ?case using assms(3,4) by simp
next
  case (killed n w1 w2 w3)
  obtain r w' where once: "load_loop env stage w1 = Some (r, w')" "load_inv stage inputs (loader_of w')"
    "case r of Inr _ \<Rightarrow> no_running (loader_of w') \<and> to_run stage (loader_of w') = 0
     | Inl _ \<Rightarrow> to_run stage (loader_of w') < to_run stage (loader_of w1)"
    using load_loop_once [OF assms(2)] killed.IH by blast
  then have "r = Inl Exits" "w' = w2" using killed.hyps(2) by simp_all
  with once killed show ?case by simp
qed

definition fresh_load :: "nat \<Rightarrow> 'b list \<Rightarrow> 'b loader_md option \<Rightarrow> bool" where
  "fresh_load stage inputs loader \<longleftrightarrow> (\<exists>md. loader = Some md \<and> running_input md = None \<and>
     loads md stage = Some \<lparr>inputs_to_run = inputs, ran_inputs = []\<rparr>)"

lemma fresh_load_inv:
  "fresh_load stage inputs loader \<Longrightarrow> load_inv stage inputs loader \<and> no_running loader \<and> to_run stage loader = length inputs"
  by (auto simp: fresh_load_def load_inv_def no_running_def to_run_def)


text \<open>The sample fuzzer: the second of three inputs kills the process.\<close>

definition sample_loading :: "unit sample_world" where
  "sample_loading = sample_start\<lparr>w_state := (w_state sample_start)\<lparr>metadata :=
     (metadata (w_state sample_start))\<lparr>md_loader := Some \<lparr>loads = [0 \<mapsto> \<lparr>inputs_to_run = [[1], [254], [2]], ran_inputs = []\<rparr>],
       running_input = None\<rparr>\<rparr>\<rparr>\<rparr>"


end
