(* ===== verification/Stages.thy ===== *)
theory Stages
  imports Fuzzers Scheduled
begin

text \<open>
  The stages (\<^verbatim>\<open>libaflmm/src/stages\<close>): what is done with a test case the scheduler chose.
  A stage is a step of the fuzzer for the identifier of the test case; a tuple of stages performs
  them in order and stops at the first failure. The logic stages decide by a closure over the world;
  the mutational stages derive inputs from the test case and evaluate them.
\<close>

type_synonym ('i, 'c, 'k, 'b, 'r, 'x) closure = "(('i, 'c, 'k, 'b, 'r, 'x) world, bool) step"

text \<open>The unit tuple and the pair of a stage and a tuple; a vector of boxed stages behaves the same.\<close>

fun perform_all :: "('i, 'c, 'k, 'b, 'r, 'x) stages list \<Rightarrow> ('i, 'c, 'k, 'b, 'r, 'x) stages" where
  "perform_all [] tid = olift (sret ())"
| "perform_all (stage # rest) tid = obind (stage tid) (\<lambda>_. perform_all rest tid)"

definition nop_stage :: "('i, 'c, 'k, 'b, 'r, 'x) stages" where
  "nop_stage tid = olift (sret ())"

section \<open>Logic\<close>

partial_function (option) while_stage ::
  "('i, 'c, 'k, 'b, 'r, 'x) closure \<Rightarrow> ('i, 'c, 'k, 'b, 'r, 'x) stages \<Rightarrow> ('i, 'c, 'k, 'b, 'r, 'x) stages" where
  "while_stage closure stages tid w =
     (case closure w of
        (Inl s, w) \<Rightarrow> Some (Inl s, w)
      | (Inr b, w) \<Rightarrow>
          if b then (case stages tid w of
              None \<Rightarrow> None
            | Some (Inl s, w) \<Rightarrow> Some (Inl s, w)
            | Some (Inr _, w) \<Rightarrow> while_stage closure stages tid w)
          else Some (Inr (), w))"

definition if_stage ::
  "('i, 'c, 'k, 'b, 'r, 'x) closure \<Rightarrow> ('i, 'c, 'k, 'b, 'r, 'x) stages \<Rightarrow> ('i, 'c, 'k, 'b, 'r, 'x) stages" where
  "if_stage closure if_stages tid =
     obind (olift closure) (\<lambda>b. if b then if_stages tid else olift (sret ()))"

definition ifelse_stage ::
  "('i, 'c, 'k, 'b, 'r, 'x) closure \<Rightarrow> ('i, 'c, 'k, 'b, 'r, 'x) stages \<Rightarrow> ('i, 'c, 'k, 'b, 'r, 'x) stages
    \<Rightarrow> ('i, 'c, 'k, 'b, 'r, 'x) stages" where
  "ifelse_stage closure if_stages else_stages tid =
     obind (olift closure) (\<lambda>b. if b then if_stages tid else else_stages tid)"

datatype ('s1, 's2) dynamic = Stage1 's1 | Stage2 's2

fun dynamic_stage ::
  "(('i, 'c, 'k, 'b, 'r, 'x) stages, ('i, 'c, 'k, 'b, 'r, 'x) stages) dynamic \<Rightarrow> ('i, 'c, 'k, 'b, 'r, 'x) stages" where
  "dynamic_stage (Stage1 st1) tid = st1 tid"
| "dynamic_stage (Stage2 st2) tid = st2 tid"

section \<open>Running the test case itself\<close>

text \<open>A run with a hook before and after it; the hooks of \<open>cmplog\<close> switch the logging of comparisons.\<close>

definition single_run_stage ::
  "('i, 'c, 'k, 'b, 'r, 'x) env \<Rightarrow> (('i, 'c, 'k, 'b, 'r, 'x) world, unit) step
    \<Rightarrow> (('i, 'c, 'k, 'b, 'r, 'x) world, unit) step \<Rightarrow> ('i, 'c, 'k, 'b, 'r, 'x) stages" where
  "single_run_stage env pre post tid = olift
     (sseq pre
     (sbind (on_corpus (co_get (e_corpora env) tid)) (\<lambda>tc.
      sbind (evaluate_input env (tc_input tc)) (\<lambda>_. post))))"

text \<open>The executor of a tracer stage, with observers of its own.\<close>

record ('i, 'w) tracer =
  te_pre_exec_all :: "('w, unit) step"
  te_execute :: "'i \<Rightarrow> ('w, exit_kind) step"
  te_post_exec_all :: "exit_kind \<Rightarrow> ('w, unit) step"

definition tracer_stage ::
  "('i, 'c, 'k, 'b, 'r, 'x) env \<Rightarrow> ('i, ('i, 'c, 'k, 'b, 'r, 'x) world) tracer \<Rightarrow> ('i, 'c, 'k, 'b, 'r, 'x) stages" where
  "tracer_stage env te tid = olift
     (sbind (on_corpus (co_get (e_corpora env) tid)) (\<lambda>tc.
      sseq (te_pre_exec_all te)
      (sbind (te_execute te (tc_input tc)) (\<lambda>kind. te_post_exec_all te kind))))"

definition gen_stage ::
  "('i, 'c, 'k, 'b, 'r, 'x) env \<Rightarrow> (('i, 'c, 'k, 'b, 'r, 'x) world, 'i) step \<Rightarrow> ('i, 'c, 'k, 'b, 'r, 'x) stages" where
  "gen_stage env generate tid = olift
     (sbind generate (\<lambda>inp. sbind (evaluate_input env inp) (\<lambda>_. sret ())))"

section \<open>Mutational stages\<close>

text \<open>
  What a mutator reads of the state, and a mutator as a step of the fuzzer: the generator, with what
  the mutator keeps between calls, is part of the world.
\<close>

definition mutator_state :: "('i, 'c, 'k, 'b, 'r, 'x) env \<Rightarrow> ('i, 'c, 'k, 'b, 'r, 'x) world \<Rightarrow> 'i mstate" where
  "mutator_state env w =
     (let st = w_state w; co = e_corpora env; c = corpus st
      in \<lparr>max_size = max_size_limit st, sched_ids = co_ids co c,
          sched_current = (case co_current co c of Inr t \<Rightarrow> t | Inl _ \<Rightarrow> None),
          corpus_get = (\<lambda>tid. map_sum id tc_input (fst (co_get co tid c))),
          corpus_get_all = (\<lambda>tid. map_sum id tc_input (fst (co_get_all co tid c))),
          tokens_md = md_tokens (metadata st), cmplog_md = md_cmplog (metadata st)\<rparr>)"

definition mutate_step ::
  "('i, 'c, 'k, 'b, 'r, 'x) env \<Rightarrow> ('i mstate \<Rightarrow> 'i \<Rightarrow> 'r \<Rightarrow> error + mres \<times> 'i \<times> 'r) \<Rightarrow> 'i
    \<Rightarrow> (('i, 'c, 'k, 'b, 'r, 'x) world, mres \<times> 'i) step" where
  "mutate_step env mutate inp = (\<lambda>w.
     case mutate (mutator_state env w) inp (w_rand w) of
       Inl e \<Rightarrow> (Inl (Fails e), w)
     | Inr (m, out, r) \<Rightarrow> (Inr (m, out), w\<lparr>w_rand := r\<rparr>))"

definition DEFAULT_MUTATIONAL_MAX_ITERATIONS :: nat where
  "DEFAULT_MUTATIONAL_MAX_ITERATIONS = 128"

definition std_iterations :: "('r \<Rightarrow> u64 \<times> 'r) \<Rightarrow> nat \<Rightarrow> (('i, 'c, 'k, 'b, 'r, 'x) world, nat) step" where
  "std_iterations nxt max_iterations =
     spart w_rand (\<lambda>r w. w\<lparr>w_rand := r\<rparr>) (\<lambda>r. case below nxt r max_iterations of (n, r) \<Rightarrow> (Inr (1 + n), r))"

text \<open>The loop both mutational stages share: each round starts from the test case again.\<close>

definition mutational_round ::
  "('i, 'c, 'k, 'b, 'r, 'x) env \<Rightarrow> ('i mstate \<Rightarrow> 'i \<Rightarrow> 'r \<Rightarrow> error + mres \<times> 'i \<times> 'r)
    \<Rightarrow> (evaluation_result \<Rightarrow> (('i, 'c, 'k, 'b, 'r, 'x) world, unit) step) \<Rightarrow> 'i testcase
    \<Rightarrow> (('i, 'c, 'k, 'b, 'r, 'x) world, unit) step" where
  "mutational_round env mutate post_exec tc =
     sbind (mutate_step env mutate (tc_input tc)) (\<lambda>(mutated, inp).
     if mutated = Skipped then sret ()
     else sbind (evaluate_input env inp) post_exec)"

definition perform_mutational ::
  "('i, 'c, 'k, 'b, 'r, 'x) env \<Rightarrow> ('i mstate \<Rightarrow> 'i \<Rightarrow> 'r \<Rightarrow> error + mres \<times> 'i \<times> 'r)
    \<Rightarrow> (evaluation_result \<Rightarrow> (('i, 'c, 'k, 'b, 'r, 'x) world, unit) step)
    \<Rightarrow> (('i, 'c, 'k, 'b, 'r, 'x) world, nat) step \<Rightarrow> ('i, 'c, 'k, 'b, 'r, 'x) stages" where
  "perform_mutational env mutate post_exec iterations tid = olift
     (sbind iterations (\<lambda>num.
      sbind (on_corpus (co_get (e_corpora env) tid)) (\<lambda>tc.
      sforeach (\<lambda>_. mutational_round env mutate post_exec tc) [0..<num])))"

definition std_mutational_stage ::
  "('i, 'c, 'k, 'b, 'r, 'x) env \<Rightarrow> ('r \<Rightarrow> u64 \<times> 'r) \<Rightarrow> ('i mstate \<Rightarrow> 'i \<Rightarrow> 'r \<Rightarrow> error + mres \<times> 'i \<times> 'r)
    \<Rightarrow> nat \<Rightarrow> ('i, 'c, 'k, 'b, 'r, 'x) stages" where
  "std_mutational_stage env nxt mutate max_iterations =
     perform_mutational env mutate (\<lambda>_. sret ()) (std_iterations nxt max_iterations)"

text \<open>The power schedule stage asks a score how often to mutate; a score may fail.\<close>

definition power_stage ::
  "('i, 'c, 'k, 'b, 'r, 'x) env \<Rightarrow> ('i mstate \<Rightarrow> 'i \<Rightarrow> 'r \<Rightarrow> error + mres \<times> 'i \<times> 'r)
    \<Rightarrow> (u64 \<Rightarrow> (('i, 'c, 'k, 'b, 'r, 'x) world, nat) step) \<Rightarrow> ('i, 'c, 'k, 'b, 'r, 'x) stages" where
  "power_stage env mutate score tid = perform_mutational env mutate (\<lambda>_. sret ()) (score tid) tid"

text \<open>
  \<open>StdStage\<close>: the standard mutator in a stage of up to 128 rounds, on byte inputs. Its generator is the
  one the mutator's own state holds.
\<close>

definition std_stage ::
  "(bytes, 'c, 'k, 'b, 'r havoc_state, 'x) env \<Rightarrow> ('r \<Rightarrow> u64 \<times> 'r) \<Rightarrow> (bytes, 'c, 'k, 'b, 'r havoc_state, 'x) stages" where
  "std_stage env nxt =
     std_mutational_stage env (h_next nxt) (std_mutator nxt) DEFAULT_MUTATIONAL_MAX_ITERATIONS"

end
