(* ===== verification/Campaign.thy ===== *)
theory Campaign
  imports Loading Stages
begin

text \<open>
  A campaign that goes on: with corpora that keep their contract, registered feedbacks over observers
  that are there, and an environment whose calls succeed, no step of the fuzzing loop fails. The
  invariant holds everything an evaluation relies on; stages are judged by a contract of their own,
  which the stages of the library keep. The theory ends with what the loop promises: which test
  case is scheduled when, that all inputs stay within the size limit, and that a step always ends.
\<close>

section \<open>The corpora of a campaign\<close>

locale campaign_corpora =
  fixes ops :: "('c, 'k, 'i) corpus_ops" and cinv :: "'c \<Rightarrow> bool" and kinv :: "'k \<Rightarrow> bool"
    and entry :: "'c \<Rightarrow> u64 \<Rightarrow> 'i testcase option"
  assumes add: "cinv c \<Longrightarrow> \<exists>c'. co_add ops tc c = (Inr (tc_id tc), c') \<and> cinv c' \<and>
      entry c' = (entry c)(tc_id tc \<mapsto> tc)"
    and get: "cinv c \<Longrightarrow> entry c tid = Some tc \<Longrightarrow> co_get ops tid c = (Inr tc, c) \<and> co_get_all ops tid c = (Inr tc, c)"
    and tracked: "cinv c \<Longrightarrow> set (co_ids ops c) = dom (entry c)"
    and schedule: "cinv c \<Longrightarrow> \<exists>r c'. co_next ops c = (Inr r, c') \<and> cinv c' \<and> entry c' = entry c \<and>
      (r = None \<longleftrightarrow> co_ids ops c = []) \<and> set_option r \<subseteq> set (co_ids ops c)"
    and keep: "kinv k \<Longrightarrow> \<exists>k'. co_add_objective ops tc k = (Inr (tc_id tc), k') \<and> kinv k'"

text \<open>The corpora with one store, over a scheduler that keeps its contract.\<close>

context scheduled_store
begin

lemma single_corpora:
  assumes "\<And>s tc. storable s tc" "append_store kwf kenabled kdisabled (\<lambda>_ _. True) (kops :: ('o, 'i) store_ops)"
  shows "campaign_corpora (single_ops ops qops kops) corpus_inv (\<lambda>k. kwf (sc_store k)) (\<lambda>c. enabled (sc_store c))"
proof
  fix c :: "('s, 'q) single_corpus" and tc :: "'i testcase" and tid
  assume c: "corpus_inv c"
  show "\<exists>c'. co_add (single_ops ops qops kops) tc c = (Inr (tc_id tc), c') \<and> corpus_inv c' \<and>
      enabled (sc_store c') = (enabled (sc_store c))(tc_id tc \<mapsto> tc)"
  proof -
    obtain c' where "single_add_shared ops qops True tc c = (Inr (tc_id tc), c')" "corpus_inv c'"
      "enabled (sc_store c') = (enabled (sc_store c))(tc_id tc \<mapsto> tc)" by (rule add_inv [OF c assms(1)])
    then show ?thesis by (simp add: single_ops_def)
  qed
  show "set (co_ids (single_ops ops qops kops) c) = dom (enabled (sc_store c))"
    using c by (simp add: single_ops_def corpus_inv_def)
  show "co_get (single_ops ops qops kops) tid c = (Inr tc, c) \<and> co_get_all (single_ops ops qops kops) tid c = (Inr tc, c)"
    if "enabled (sc_store c) tid = Some tc"
    using that c get_enabled get_all
    by (simp add: single_ops_def single_get_from_def store_get_from_all_def corpus_inv_def found_def)
  have inv: "inv (sc_scheduler c)" using c by (simp add: corpus_inv_def)
  show "\<exists>r c'. co_next (single_ops ops qops kops) c = (Inr r, c') \<and> corpus_inv c' \<and>
      enabled (sc_store c') = enabled (sc_store c) \<and> (r = None \<longleftrightarrow> co_ids (single_ops ops qops kops) c = []) \<and>
      set_option r \<subseteq> set (co_ids (single_ops ops qops kops) c)"
  proof (cases "sd_ids qops (sc_scheduler c) = []")
    case True
    then show ?thesis using next_none [OF inv] c by (simp add: single_ops_def single_next_def)
  next
    case False
    then show ?thesis using next_some [OF inv] c by (auto simp: single_ops_def single_next_def corpus_inv_def)
  qed
next
  fix k :: "('o, unit) single_corpus" and tc :: "'i testcase"
  assume k: "kwf (sc_store k)"
  obtain s' res where "st_add_shared kops True tc (sc_store k) = (Inr res, s')" "kwf s'" "into_testcase_id res = tc_id tc"
    using append_store.add_enabled [OF assms(2) k TrueI, of tc] by auto
  then show "\<exists>k'. co_add_objective (single_ops ops qops kops) tc k = (Inr (tc_id tc), k') \<and> kwf (sc_store k')"
    by (simp add: single_ops_def single_add_inner_def)
qed

end

text \<open>The standard corpus, in memory over the hash map, with a queue or at random.\<close>

interpretation queue_campaign: campaign_corpora "single_ops (inmem_ops hash_ops) queue_ops (inmem_ops hash_ops)"
  inmem_queue.corpus_inv "\<lambda>k. inmem_wf hash_wf hash_entries (sc_store k)"
  "\<lambda>c. hash_entries (im_enabled_map (sc_store c))"
  by (rule inmem_queue.single_corpora [OF _ inmem_hash.append_store_axioms]) simp

interpretation rand_campaign: campaign_corpora "single_ops (inmem_ops hash_ops) (rand_sched_ops nxt) (inmem_ops hash_ops)"
  "inmem_rand.corpus_inv nxt" "\<lambda>k. inmem_wf hash_wf hash_entries (sc_store k)"
  "\<lambda>c. hash_entries (im_enabled_map (sc_store c))" for nxt
  by (rule inmem_rand.single_corpora [OF _ inmem_hash.append_store_axioms]) simp

section \<open>Observers\<close>

text \<open>What a tuple of observers is made of, and its well-formedness.\<close>

fun observer_kind :: "observer \<Rightarrow> nat" where
  "observer_kind (MapOb _) = 0"
| "observer_kind (ListOb _) = 1"
| "observer_kind (BoolOb _) = 2"
| "observer_kind (TimeOb _ _) = 3"
| "observer_kind (OutputOb out _ _) = (if out then 4 else 5)"

fun observer_ok :: "observer \<Rightarrow> bool" where
  "observer_ok (MapOb m) \<longleftrightarrow> map_ok m"
| "observer_ok (OutputOb _ _ (Some (data, pos))) \<longleftrightarrow> pos \<le> length data"
| "observer_ok _ \<longleftrightarrow> True"

definition shape :: "observers \<Rightarrow> (string \<times> nat) list" where
  "shape obs = map (\<lambda>(n, ob). (n, observer_kind ob)) obs"

definition observers_ok :: "observers \<Rightarrow> bool" where
  "observers_ok obs \<longleftrightarrow> list_all (\<lambda>(n, ob). observer_ok ob) obs"

lemma observer_pre_exec_ok:
  "observer_ok ob \<Longrightarrow> \<exists>ob'. observer_pre_exec now ob = Inr ob' \<and> observer_ok ob' \<and> observer_kind ob' = observer_kind ob"
proof (cases ob)
  case (MapOb m)
  moreover assume "observer_ok ob"
  ultimately show ?thesis using reset_map_ok [of m] by (auto simp: map_pre_exec_def)
next
  case (OutputOb out buf fl)
  then show ?thesis by (cases fl) auto
qed auto

lemma observer_post_exec_ok:
  "observer_ok ob \<Longrightarrow> \<exists>ob'. observer_post_exec now ob = Inr ob' \<and> observer_ok ob' \<and> observer_kind ob' = observer_kind ob"
proof (cases ob)
  case (MapOb m)
  moreover assume "observer_ok ob"
  ultimately show ?thesis using map_entries_ok [of m] map_post_exec_ok [of m] by fastforce
next
  case (OutputOb out buf fl)
  moreover assume "observer_ok ob"
  ultimately show ?thesis by (cases buf; cases fl) auto
qed auto

lemma pre_exec_all_ok:
  "observers_ok obs \<Longrightarrow> \<exists>obs'. pre_exec_all now obs = (Inr (), obs') \<and> observers_ok obs' \<and> shape obs' = shape obs"
proof (induction obs)
  case (Cons a obs)
  obtain n ob where a: "a = (n, ob)" by force
  from Cons.prems a obtain ob' where "observer_pre_exec now ob = Inr ob'" "observer_ok ob'" "observer_kind ob' = observer_kind ob"
    using observer_pre_exec_ok [of ob now] by (auto simp: observers_ok_def)
  with Cons a show ?case by (auto simp: observers_ok_def shape_def)
qed (simp add: observers_ok_def)

lemma post_exec_all_ok:
  "observers_ok obs \<Longrightarrow> \<exists>obs'. post_exec_all now obs = (Inr (), obs') \<and> observers_ok obs' \<and> shape obs' = shape obs"
proof (induction obs)
  case (Cons a obs)
  obtain n ob where a: "a = (n, ob)" by force
  from Cons.prems a obtain ob' where "observer_post_exec now ob = Inr ob'" "observer_ok ob'" "observer_kind ob' = observer_kind ob"
    using observer_post_exec_ok [of ob now] by (auto simp: observers_ok_def)
  with Cons a show ?case by (auto simp: observers_ok_def shape_def)
qed (simp add: observers_ok_def)

text \<open>A lookup that only tells kinds apart finds something in every tuple of the same shape.\<close>

lemma match_name_shape:
  assumes "\<And>ob ob'. observer_kind ob = observer_kind ob' \<Longrightarrow> sel ob \<noteq> None \<Longrightarrow> sel ob' \<noteq> None"
  shows "shape obs' = shape obs \<Longrightarrow> match_name sel name obs \<noteq> None \<Longrightarrow> match_name sel name obs' \<noteq> None"
proof (induction obs arbitrary: obs')
  case (Cons a obs)
  obtain n ob where a: "a = (n, ob)" by force
  obtain ob' obs1 where o: "obs' = (n, ob') # obs1" "observer_kind ob' = observer_kind ob" "shape obs1 = shape obs"
    using Cons.prems(1) a by (auto simp: shape_def)
  have "sel ob \<noteq> None \<longleftrightarrow> sel ob' \<noteq> None" using assms [of ob ob'] assms [of ob' ob] o(2) by auto
  then show ?case using Cons.prems(2) Cons.IH [OF o(3)] a o(1) by (auto split: option.splits if_splits)
qed simp

lemma match_name_in: "match_name sel name obs = Some a \<Longrightarrow> \<exists>n ob. (n, ob) \<in> set obs \<and> sel ob = Some a"
  by (induction obs) (force split: option.splits if_splits)+

lemma observed_shape:
  assumes "shape obs' = shape obs" "observers_ok obs'" "\<not> fb_outputs fb" "fb_observed fb obs"
  shows "fb_observed fb obs'"
  using assms(3,4)
proof (induction fb)
  case (MapFb name ob red nov)
  then have "get_map_observer ob obs' \<noteq> None"
    unfolding get_map_observer_def
    by (intro match_name_shape [OF _ assms(1)]) (auto simp: get_map_observer_def split: observer.splits if_splits)
  then obtain m where m: "get_map_observer ob obs' = Some m" by blast
  then have "map_ok m"
    using assms(2) match_name_in [OF m [unfolded get_map_observer_def]]
    by (fastforce simp: observers_ok_def list_all_iff split: observer.splits)
  with m show ?case by simp
next
  case (ListFb name old)
  then show ?case unfolding fb_observed.simps get_list_observer_def
    by (intro match_name_shape [OF _ assms(1)]) (auto split: observer.splits if_splits)
next
  case (BoolFb ob)
  then show ?case unfolding fb_observed.simps get_bool_observer_def
    by (intro match_name_shape [OF _ assms(1)]) (auto split: observer.splits if_splits)
next
  case (TimeFb ob)
  then show ?case unfolding fb_observed.simps get_time_observer_def
    by (intro match_name_shape [OF _ assms(1)]) (auto split: observer.splits if_splits)
qed auto

text \<open>A verdict changes nothing of a feedback that its registration or its observers depend on.\<close>

lemma is_interesting_alike:
  fixes st :: "('i, 'c, 'k, 'b) std_state"
  shows "fb_is_interesting fb obs kind st = (r, fb', st') \<Longrightarrow>
    (\<forall>obs. fb_observed fb' obs = fb_observed fb obs) \<and> fb_outputs fb' = fb_outputs fb"
proof (induction fb arbitrary: st r fb' st')
  case (NotFb fb)
  obtain r1 f1 st1 where "fb_is_interesting fb obs kind st = (r1, f1, st1)" by (metis prod_cases3)
  with NotFb show ?case by auto
next
  case (CombinedFb l fb1 fb2)
  obtain r1 f1 st1 where one: "fb_is_interesting fb1 obs kind st = (r1, f1, st1)" by (metis prod_cases3)
  obtain r2 f2 st2 where two: "fb_is_interesting fb2 obs kind st1 = (r2, f2, st2)" by (metis prod_cases3)
  show ?case using CombinedFb.prems one two CombinedFb.IH(1) [OF one] CombinedFb.IH(2) [OF two]
    by (auto split: if_splits sum.splits)
qed (auto split: prod.splits)

section \<open>The invariant of a campaign\<close>

text \<open>What a verdict and its records never touch.\<close>

definition scheduled_counts :: "('i, 'c, 'k, 'b) std_state \<Rightarrow> u64 \<Rightarrow> nat" where
  "scheduled_counts st tid = md_scheduled_count (testcase_md_or_default tid st)"

definition kept :: "('i, 'c, 'k, 'b) std_state \<Rightarrow>
    'c \<times> 'k \<times> 'i testcase list \<times> nat \<times> bytes list option \<times> cmp_values list option \<times> (u64 \<Rightarrow> nat)" where
  "kept st = (corpus st, objective_corpus st, pending_testcases st, max_size_limit st, md_tokens (metadata st),
     md_cmplog (metadata st), scheduled_counts st)"

lemma scheduled_counts_update:
  "scheduled_counts (update_testcase_md tid f st) =
    (scheduled_counts st)(tid := md_scheduled_count (f (testcase_md_or_default tid st)))"
  by (auto simp: scheduled_counts_def update_testcase_md_def testcase_md_or_default_def)

lemma kept_update:
  "(\<And>md. md_scheduled_count (f md) = md_scheduled_count md) \<Longrightarrow> kept (update_testcase_md tid f st) = kept st"
  by (auto simp: kept_def scheduled_counts_update) (auto simp: update_testcase_md_def scheduled_counts_def)

lemma kept_put_map [simp]: "kept (put_map_md name md st) = kept st"
  by (simp add: kept_def put_map_md_def scheduled_counts_def testcase_md_or_default_def fun_eq_iff)

lemma kept_report_stat [simp]: "kept (report_stat name v st) = kept st"
  by (simp add: kept_def report_stat_def scheduled_counts_def testcase_md_or_default_def fun_eq_iff)

lemma kept_stats [simp]:
  "kept (increment_execs st) = kept st" "kept (count_objective now st) = kept st" "kept (count_corpus now st) = kept st"
  by (simp_all add: kept_def increment_execs_def count_objective_def count_corpus_def scheduled_counts_def
      testcase_md_or_default_def fun_eq_iff)

lemma is_interesting_kept: "fb_is_interesting fb obs kind st = (r, fb', st') \<Longrightarrow> kept st' = kept st"
proof (induction fb arbitrary: st r fb' st')
  case (MapFb name ob red nov)
  then show ?case by (auto simp: map_fb_interesting_def split: prod.splits option.splits sum.splits)
next
  case (NotFb fb)
  obtain r1 f1 st1 where "fb_is_interesting fb obs kind st = (r1, f1, st1)" by (metis prod_cases3)
  with NotFb show ?case by auto
next
  case (CombinedFb l fb1 fb2)
  obtain r1 f1 st1 where one: "fb_is_interesting fb1 obs kind st = (r1, f1, st1)" by (metis prod_cases3)
  obtain r2 f2 st2 where two: "fb_is_interesting fb2 obs kind st1 = (r2, f2, st2)" by (metis prod_cases3)
  show ?case using CombinedFb.prems one two CombinedFb.IH(1) [OF one] CombinedFb.IH(2) [OF two]
    by (auto split: if_splits sum.splits)
qed (auto split: prod.splits)

lemma append_kept: "fb_append_metadata fb obs tid st = (r, st') \<Longrightarrow> kept st' = kept st"
proof (induction fb arbitrary: st r st')
  case (MapFb name ob red nov)
  then show ?case by (auto simp: map_fb_append_def split: option.splits sum.splits prod.splits)
next
  case (ListFb name nov)
  then show ?case
    by (auto simp: list_fb_append_def kept_def scheduled_counts_def testcase_md_or_default_def fun_eq_iff split: option.splits)
next
  case (TimeFb ob)
  then show ?case by (auto intro!: kept_update split: option.splits)
next
  case (OutputFb out ob)
  then show ?case
    by (auto simp: output_fb_append_def kept_def scheduled_counts_def testcase_md_or_default_def fun_eq_iff Let_def split: option.splits)
next
  case (CombinedFb l fb1 fb2)
  obtain r1 st1 where one: "fb_append_metadata fb1 obs tid st = (r1, st1)" by force
  obtain r2 st2 where two: "fb_append_metadata fb2 obs tid st1 = (r2, st2)" by force
  show ?case using CombinedFb.prems one two CombinedFb.IH(1) [OF one] CombinedFb.IH(2) [OF two]
    by (auto split: sum.splits)
qed auto

text \<open>
  Everything an evaluation and a mutation rely on: the corpora keep their contract, all inputs are
  within the limit \<open>L\<close>, the feedbacks are registered and read observers that are there.
\<close>

definition fb_ready :: "('i, 'c, 'k, 'b, 'r, 'x) world \<Rightarrow> feedback \<Rightarrow> bool" where
  "fb_ready w fb \<longleftrightarrow> \<not> fb_outputs fb \<and> fb_registered fb (metadata (w_state w)) \<and> fb_observed fb (w_observers w)"

definition mutation_data_ok :: "bytes list option \<Rightarrow> cmp_values list option \<Rightarrow> bool" where
  "mutation_data_ok tokens cmplog \<longleftrightarrow>
     (case tokens of None \<Rightarrow> True | Some ts \<Rightarrow> [] \<notin> set ts) \<and>
     (case cmplog of None \<Rightarrow> True | Some cmps \<Rightarrow> (\<forall>a b. CmpBytes a b \<in> set cmps \<longrightarrow> length a = length b))"

definition campaign_inv :: "('c \<Rightarrow> bool) \<Rightarrow> ('c \<Rightarrow> u64 \<Rightarrow> bytes testcase option) \<Rightarrow> ('k \<Rightarrow> bool) \<Rightarrow> nat
    \<Rightarrow> (bytes, 'c, 'k, 'b, 'r, 'x) world \<Rightarrow> bool" where
  "campaign_inv cinv entry kinv L w \<longleftrightarrow>
     cinv (corpus (w_state w)) \<and> kinv (objective_corpus (w_state w)) \<and> max_size_limit (w_state w) \<le> L \<and>
     (\<forall>tid tc. entry (corpus (w_state w)) tid = Some tc \<longrightarrow> length (tc_input tc) \<le> L) \<and>
     (\<forall>tc \<in> set (pending_testcases (w_state w)). length (tc_input tc) \<le> L) \<and>
     mutation_data_ok (md_tokens (metadata (w_state w))) (md_cmplog (metadata (w_state w))) \<and>
     observers_ok (w_observers w) \<and> fb_ready w (w_feedback w) \<and> fb_ready w (w_objective w)"

text \<open>
  The environment: the runtime and the worker do not fail, test cases of other instances are within
  the limit, and the executor runs the target and leaves the observers in place.
\<close>

definition tame :: "nat \<Rightarrow> (bytes, 'c, 'k, 'b, 'r, 'x) env \<Rightarrow> bool" where
  "tame L env \<longleftrightarrow> e_hooks env = [] \<and>
     (\<forall>x. fst (e_arm_timeout env x) = Inr () \<and> fst (e_disarm_timeout env x) = Inr ()) \<and>
     (\<forall>tc x. fst (e_send_testcase env tc x) = Inr ()) \<and> (\<forall>st x. fst (e_report_stats env st x) = Inr ()) \<and>
     (\<forall>x. \<exists>b. fst (e_poll env x) = Inr b) \<and>
     (\<forall>x. \<exists>tcs. fst (e_recv_testcases env x) = Inr tcs \<and> (\<forall>tc \<in> set tcs. length (tc_input tc) \<le> L)) \<and>
     (\<forall>inp obs x. case e_target env inp obs x of (how, obs', x') \<Rightarrow>
        (\<forall>e. how \<noteq> Refuses e) \<and> (observers_ok obs \<longrightarrow> observers_ok obs' \<and> shape obs' = shape obs))"

lemma fb_ready_mono:
  assumes "fb_ready w fb" "md_grows (metadata (w_state w)) (metadata (w_state w'))"
    "shape (w_observers w') = shape (w_observers w)" "observers_ok (w_observers w')"
  shows "fb_ready w' fb"
  using assms observed_shape [OF assms(3,4)] by (auto simp: fb_ready_def intro: fb_registered_grows)

section \<open>Loops that end without an error\<close>

lemma safe_and: "(b \<Longrightarrow> safe P m Q) \<Longrightarrow> safe (\<lambda>w. P w \<and> b) m Q"
  by (auto simp: safe_def)

text \<open>
  \<open>osafe P m Q\<close>: from a state with \<open>P\<close> the loop \<open>m\<close> ends, with a value and \<open>Q\<close> or in the exit of the
  process; it neither fails nor runs forever.
\<close>

definition osafe :: "('w \<Rightarrow> bool) \<Rightarrow> ('w, 'a) ostep \<Rightarrow> ('a \<Rightarrow> 'w \<Rightarrow> bool) \<Rightarrow> bool" where
  "osafe P m Q \<longleftrightarrow> (\<forall>w. P w \<longrightarrow> (\<exists>r w'. m w = Some (r, w') \<and> (case r of Inr a \<Rightarrow> Q a w' | Inl s \<Rightarrow> s = Exits)))"

lemma osafe_olift: "safe P m Q \<Longrightarrow> osafe P (olift m) Q"
  unfolding safe_def osafe_def olift_def by (auto split: prod.splits) (metis prod.collapse)

lemma osafe_obind:
  assumes m: "osafe P m R" and f: "\<And>a. osafe (R a) (f a) Q"
  shows "osafe P (obind m f) Q"
  unfolding osafe_def
proof (intro allI impI)
  fix w assume "P w"
  then obtain r w1 where w1: "m w = Some (r, w1)" "case r of Inr a \<Rightarrow> R a w1 | Inl s \<Rightarrow> s = Exits"
    using m unfolding osafe_def by blast
  show "\<exists>r w'. obind m f w = Some (r, w') \<and> (case r of Inr a \<Rightarrow> Q a w' | Inl s \<Rightarrow> s = Exits)"
  proof (cases r)
    case (Inl s)
    with w1 show ?thesis by (simp add: obind_def)
  next
    case (Inr a)
    with w1 f [of a] show ?thesis by (simp add: obind_def osafe_def)
  qed
qed

lemma osafe_weaken:
  "osafe P m Q \<Longrightarrow> (\<And>w. P' w \<Longrightarrow> P w) \<Longrightarrow> (\<And>a w. Q a w \<Longrightarrow> Q' a w) \<Longrightarrow> osafe P' m Q'"
  unfolding osafe_def by (metis (mono_tags, lifting) sum.case_eq_if)

lemma osafe_sret: "(\<And>w. P w \<Longrightarrow> Q a w) \<Longrightarrow> osafe P (olift (sret a)) Q"
  by (intro osafe_olift safe_sret)

section \<open>Evaluations\<close>

lemma safe_keep: "(\<And>w. I w \<Longrightarrow> I (f w)) \<Longrightarrow> safe I (smod f) (\<lambda>_. I)"
  by (rule safe_smod)

lemma safe_read: "(\<And>v. safe P (f v) Q) \<Longrightarrow> safe P (\<lambda>w. f (g w) w) Q"
  by (simp add: safe_def)

locale byte_campaign = campaign_corpora ops cinv kinv entry
  for ops :: "('c, 'k, bytes) corpus_ops" and cinv kinv entry
begin

text \<open>
  The invariant together with what an evaluation leaves alone: the pending test cases, how often each
  test case was scheduled, and what additions do not change of the corpus.
\<close>

definition stable :: "('c \<Rightarrow> bool) \<Rightarrow> bool" where
  "stable S \<longleftrightarrow> (\<forall>c tc. cinv c \<longrightarrow> S c \<longrightarrow> S (snd (co_add ops tc c)))"

definition going :: "nat \<Rightarrow> bytes testcase list \<Rightarrow> ('c \<Rightarrow> bool) \<Rightarrow> (u64 \<Rightarrow> nat) \<Rightarrow>
    (bytes, 'c, 'k, 'b, 'r, 'x) world \<Rightarrow> bool" where
  "going L p S cnt w \<longleftrightarrow> campaign_inv cinv entry kinv L w \<and> pending_testcases (w_state w) = p \<and>
     S (corpus (w_state w)) \<and> scheduled_counts (w_state w) = cnt"

lemma world_commute:
  "w\<lparr>w_objective := fb, w_state := st\<rparr> = w\<lparr>w_state := st, w_objective := fb\<rparr>"
  "w\<lparr>w_feedback := fb, w_state := st\<rparr> = w\<lparr>w_state := st, w_feedback := fb\<rparr>"
  by (cases w; simp)+

lemma going_other [simp]:
  "going L p S cnt (w\<lparr>w_outside := x\<rparr>) = going L p S cnt w"
  "going L p S cnt (w\<lparr>w_running := ru\<rparr>) = going L p S cnt w"
  "going L p S cnt (w\<lparr>w_rand := rn\<rparr>) = going L p S cnt w"
  by (simp_all add: going_def campaign_inv_def fb_ready_def)

lemma going_state:
  assumes "going L p S cnt w" "kept st = kept (w_state w)" "md_grows (metadata (w_state w)) (metadata st)"
  shows "going L p S cnt (w\<lparr>w_state := st\<rparr>)"
  using assms fb_ready_mono [of w _ "w\<lparr>w_state := st\<rparr>"]
  by (simp add: going_def campaign_inv_def kept_def)

lemma going_corpus:
  assumes "going L p S cnt w" "cinv c" "entry c = entry (corpus (w_state w))" "S' c"
  shows "going L p S' cnt (w\<lparr>w_state := (w_state w)\<lparr>corpus := c\<rparr>\<rparr>)"
  using assms
  by (simp add: going_def campaign_inv_def fb_ready_def scheduled_counts_def testcase_md_or_default_def fun_eq_iff)

lemma going_observers:
  assumes "going L p S cnt w" "observers_ok obs" "shape obs = shape (w_observers w)"
  shows "going L p S cnt (w\<lparr>w_observers := obs\<rparr>)"
  using assms fb_ready_mono [of w _ "w\<lparr>w_observers := obs\<rparr>"]
  by (simp add: going_def campaign_inv_def)

lemma going_feedbacks:
  assumes "going L p S cnt w" "fb_ready w fb"
  shows "going L p S cnt (w\<lparr>w_feedback := fb\<rparr>)" "going L p S cnt (w\<lparr>w_objective := fb\<rparr>)"
  using assms by (simp_all add: going_def campaign_inv_def fb_ready_def)

lemma safe_outside:
  fixes f :: "'x \<Rightarrow> (error + 'a) \<times> 'x"
  assumes "\<And>x. \<exists>a. fst (f x) = Inr a \<and> R a"
  shows "safe (going L p S cnt) (outside f) (\<lambda>a (w :: (bytes, 'c, 'k, 'b, 'r, 'x) world). going L p S cnt w \<and> R a)"
proof (rule safeI)
  fix w :: "(bytes, 'c, 'k, 'b, 'r, 'x) world"
  assume w: "going L p S cnt w"
  obtain a where "fst (f (w_outside w)) = Inr a" "R a" using assms by blast
  then obtain x' where f: "f (w_outside w) = (Inr a, x')" by (metis prod.collapse)
  then have "outside f w = (Inr a, w\<lparr>w_outside := x'\<rparr>)" by (simp add: outside_def spart_def)
  with w \<open>R a\<close> show "\<exists>a w'. outside f w = (Inr a, w') \<and> going L p S cnt w' \<and> R a" by auto
qed

lemma safe_call:
  assumes "\<And>x. fst (f x) = Inr ()"
  shows "safe (going L p S cnt) (outside f) (\<lambda>_. going L p S cnt)"
  by (rule safe_weaken [OF safe_outside [where R = "\<lambda>_. True"]]) (use assms in auto)

lemma safe_observers:
  fixes env :: "(bytes, 'c, 'k, 'b, 'r, 'x) env"
  assumes "\<And>now obs. observers_ok obs \<Longrightarrow> \<exists>obs'. f now obs = (Inr (), obs') \<and> observers_ok obs' \<and> shape obs' = shape obs"
  shows "safe (going L p S cnt) (on_observers f env) (\<lambda>_. going L p S cnt)"
proof (rule safeI)
  fix w :: "(bytes, 'c, 'k, 'b, 'r, 'x) world"
  assume w: "going L p S cnt w"
  then have "observers_ok (w_observers w)" by (simp add: going_def campaign_inv_def)
  from assms [OF this] obtain obs' where "f (e_now env (w_outside w)) (w_observers w) = (Inr (), obs')" "observers_ok obs'"
    "shape obs' = shape (w_observers w)" by blast
  with w going_observers [OF w] show "\<exists>a w'. on_observers f env w = (Inr a, w') \<and> going L p S cnt w'"
    by (simp add: on_observers_def spart_def)
qed

lemma safe_on_state:
  assumes "\<And>st. kept (f st) = kept st" "\<And>st. md_grows (metadata st) (metadata (f st))"
  shows "safe (going L p S cnt) (on_state f) (\<lambda>_. going L p S cnt)"
  by (intro safe_smod going_state assms)

lemma safe_run_target:
  fixes env :: "(bytes, 'c, 'k, 'b, 'r, 'x) env"
  assumes "tame L env"
  shows "safe (going L p S cnt) (run_target env inp) (\<lambda>_. going L p S cnt)"
proof -
  have "case run_target env inp w of (Inr a, w') \<Rightarrow> going L p S cnt w' | (Inl s, w') \<Rightarrow> s = Exits"
    if w: "going L p S cnt w" for w :: "(bytes, 'c, 'k, 'b, 'r, 'x) world"
  proof -
    obtain how obs x where t: "e_target env inp (w_observers w) (w_outside w) = (how, obs, x)" by (metis prod_cases3)
    have "observers_ok (w_observers w)" using w by (simp add: going_def campaign_inv_def)
    then have ok: "\<forall>e. how \<noteq> Refuses e" "observers_ok obs" "shape obs = shape (w_observers w)"
      using assms t unfolding tame_def by (metis (mono_tags, lifting) case_prod_conv)+
    have "going L p S cnt (w\<lparr>w_observers := obs, w_outside := x\<rparr>)"
      using going_observers [OF w ok(2,3)] by simp
    then show ?thesis using t ok(1) by (cases how) (auto simp: run_target_def Let_def)
  qed
  then show ?thesis unfolding safe_def by blast
qed

lemma safe_execute:
  assumes "tame L env"
  shows "safe (going L p S cnt) (execute env inp) (\<lambda>_. going L p S cnt)"
proof -
  have calls: "fst (e_arm_timeout env x) = Inr ()" "fst (e_disarm_timeout env x) = Inr ()" for x
    using assms by (simp_all add: tame_def)
  have incr: "safe (going L p S cnt) (on_state increment_execs) (\<lambda>_. going L p S cnt)"
    by (rule safe_on_state) (simp, simp add: increment_execs_def)
  show ?thesis unfolding execute_def
    by (intro safe_sseq [OF incr] safe_sseq [OF safe_observers [OF pre_exec_all_ok]] safe_sseq [OF safe_call [OF calls(1)]]
        safe_sseq [OF safe_keep] safe_sbind [OF safe_run_target [OF assms]]
        safe_sseq [OF safe_call [OF calls(2)]] safe_sseq [OF safe_observers [OF post_exec_all_ok]] safe_sret) simp_all
qed

lemma safe_ask:
  "safe (going L p S cnt) (ask_objective kind) (\<lambda>_. going L p S cnt :: (bytes, 'c, 'k, 'b, 'r, 'x) world \<Rightarrow> bool)"
  "safe (going L p S cnt) (ask_feedback kind) (\<lambda>_. going L p S cnt :: (bytes, 'c, 'k, 'b, 'r, 'x) world \<Rightarrow> bool)"
proof -
  have *: "\<exists>b fb' st'. fb_is_interesting fb (w_observers w) kind (w_state w) = (Inr b, fb', st') \<and>
      going L p S cnt (w\<lparr>w_state := st'\<rparr>) \<and> fb_ready (w\<lparr>w_state := st'\<rparr>) fb'"
    if w: "going L p S cnt w" "fb_ready w fb" for w :: "(bytes, 'c, 'k, 'b, 'r, 'x) world" and fb
  proof -
    obtain b fb' st' where i: "fb_is_interesting fb (w_observers w) kind (w_state w) = (Inr b, fb', st')"
      and g: "md_grows (metadata (w_state w)) (metadata st')" and r: "\<forall>md :: 'b metadata. fb_registered fb' md = fb_registered fb md"
      using fb_is_interesting_total [of fb "w_state w" "w_observers w" kind] w(2) unfolding fb_ready_def by blast
    have ok: "observers_ok (w_observers w)" using w(1) by (simp add: going_def campaign_inv_def)
    have "fb_ready (w\<lparr>w_state := st'\<rparr>) fb" by (rule fb_ready_mono [OF w(2)]) (use g ok in simp_all)
    then have "fb_ready (w\<lparr>w_state := st'\<rparr>) fb'" using is_interesting_alike [OF i] r by (simp add: fb_ready_def)
    moreover have "going L p S cnt (w\<lparr>w_state := st'\<rparr>)" by (rule going_state [OF w(1) is_interesting_kept [OF i] g])
    ultimately show ?thesis using i by blast
  qed
  show "safe (going L p S cnt) (ask_objective kind) (\<lambda>_. going L p S cnt :: (bytes, 'c, 'k, 'b, 'r, 'x) world \<Rightarrow> bool)"
  proof (rule safeI)
    fix w :: "(bytes, 'c, 'k, 'b, 'r, 'x) world"
    assume w: "going L p S cnt w"
    then have "fb_ready w (w_objective w)" by (simp add: going_def campaign_inv_def)
    from * [OF w this] obtain b fb' st' where "fb_is_interesting (w_objective w) (w_observers w) kind (w_state w) = (Inr b, fb', st')"
      "going L p S cnt (w\<lparr>w_state := st'\<rparr>)" "fb_ready (w\<lparr>w_state := st'\<rparr>) fb'" by blast
    with going_feedbacks(2) [OF this(2,3)] show "\<exists>a w'. ask_objective kind w = (Inr a, w') \<and> going L p S cnt w'"
      by (simp add: ask_objective_def world_commute)
  qed
  show "safe (going L p S cnt) (ask_feedback kind) (\<lambda>_. going L p S cnt :: (bytes, 'c, 'k, 'b, 'r, 'x) world \<Rightarrow> bool)"
  proof (rule safeI)
    fix w :: "(bytes, 'c, 'k, 'b, 'r, 'x) world"
    assume w: "going L p S cnt w"
    then have "fb_ready w (w_feedback w)" by (simp add: going_def campaign_inv_def)
    from * [OF w this] obtain b fb' st' where "fb_is_interesting (w_feedback w) (w_observers w) kind (w_state w) = (Inr b, fb', st')"
      "going L p S cnt (w\<lparr>w_state := st'\<rparr>)" "fb_ready (w\<lparr>w_state := st'\<rparr>) fb'" by blast
    with going_feedbacks(1) [OF this(2,3)] show "\<exists>a w'. ask_feedback kind w = (Inr a, w') \<and> going L p S cnt w'"
      by (simp add: ask_feedback_def world_commute)
  qed
qed

lemma safe_evaluate_execution: "safe (going L p S cnt) (evaluate_execution kind) (\<lambda>_. going L p S cnt)"
  unfolding evaluate_execution_def
  by (intro safe_sbind [OF safe_ask(1)] safe_if safe_sbind [OF safe_ask(2)] safe_sret)

lemma safe_append:
  fixes fb :: "(bytes, 'c, 'k, 'b, 'r, 'x) world \<Rightarrow> feedback"
  assumes "\<And>w. going L p S cnt w \<Longrightarrow> fb_ready w (fb w)"
  shows "safe (going L p S cnt) (append_with fb tid) (\<lambda>_. going L p S cnt)"
proof (rule safeI)
  fix w :: "(bytes, 'c, 'k, 'b, 'r, 'x) world"
  assume w: "going L p S cnt w"
  note r = assms [OF w, unfolded fb_ready_def]
  obtain st' where a: "fb_append_metadata (fb w) (w_observers w) tid (w_state w) = (Inr (), st')"
    "md_grows (metadata (w_state w)) (metadata st')"
    using fb_append_total [of "fb w" "w_state w" "w_observers w" tid] r by blast
  with going_state [OF w append_kept [OF a(1)] a(2)]
  show "\<exists>a w'. append_with fb tid w = (Inr a, w') \<and> going L p S cnt w'"
    by (simp add: append_with_def)
qed

lemma ready: "going L p S cnt w \<Longrightarrow> fb_ready w (w_feedback w)" "going L p S cnt w \<Longrightarrow> fb_ready w (w_objective w)"
  by (simp_all add: going_def campaign_inv_def)

lemma safe_update:
  "(\<And>md. md_scheduled_count (f md) = md_scheduled_count md) \<Longrightarrow>
    safe (going L p S cnt) (on_state (update_testcase_md tid f)) (\<lambda>_. going L p S cnt)"
  by (intro safe_on_state kept_update) (simp_all add: update_testcase_md_def)

lemma safe_keep_objective:
  fixes env :: "(bytes, 'c, 'k, 'b, 'r, 'x) env"
  assumes "tame L env" "e_corpora env = ops"
  shows "safe (going L p S cnt) (keep_objective env inp) (\<lambda>_. going L p S cnt)"
proof -
  have hooks: "e_hooks env = []" using assms(1) by (simp add: tame_def)
  have add: "safe (going L p S cnt) (on_objectives (co_add_objective (e_corpora env) tc))
    (\<lambda>_. going L p S cnt :: (bytes, 'c, 'k, 'b, 'r, 'x) world \<Rightarrow> bool)" for tc
  proof (rule safeI)
    fix w :: "(bytes, 'c, 'k, 'b, 'r, 'x) world"
    assume w: "going L p S cnt w"
    then have "kinv (objective_corpus (w_state w))" by (simp add: going_def campaign_inv_def)
    from keep [OF this, of tc] obtain k' where
      "co_add_objective ops tc (objective_corpus (w_state w)) = (Inr (tc_id tc), k')" "kinv k'" by blast
    with w show "\<exists>a w'. on_objectives (co_add_objective (e_corpora env) tc) w = (Inr a, w') \<and> going L p S cnt w'"
      by (simp add: on_objectives_def spart_def assms(2) going_def campaign_inv_def fb_ready_def scheduled_counts_def
          testcase_md_or_default_def fun_eq_iff)
  qed
  have count: "safe (going L p S cnt) (\<lambda>w. on_state (count_objective (e_now env (w_outside w))) w) (\<lambda>_. going L p S cnt)"
    by (rule safeI) (auto simp: smod_def intro!: going_state, simp add: count_objective_def)
  show ?thesis unfolding keep_objective_def hooks pre_add_all.simps post_add_all_def sforeach.simps
    by (intro safe_sbind [OF safe_sget [where Q = "\<lambda>_. going L p S cnt"]] safe_sbind [OF safe_sret [where Q = "\<lambda>_. going L p S cnt"]]
        safe_sbind [OF add] safe_sseq [OF safe_update] safe_sseq [OF safe_append] safe_sseq [OF count]
        safe_sseq [OF safe_sret] safe_sret)
      (simp_all add: found_objective_def set_executions_def ready)
qed

lemma safe_add:
  assumes "stable S" "e_corpora env = ops" "length (tc_input tc) \<le> L"
  shows "safe (going L p S cnt) (on_corpus (co_add (e_corpora env) tc))
    (\<lambda>_. going L p S cnt :: (bytes, 'c, 'k, 'b, 'r, 'x) world \<Rightarrow> bool)"
proof (rule safeI)
  fix w :: "(bytes, 'c, 'k, 'b, 'r, 'x) world"
  assume w: "going L p S cnt w"
  then have c: "cinv (corpus (w_state w))" "S (corpus (w_state w))" by (simp_all add: going_def campaign_inv_def)
  from add [OF c(1), of tc] obtain c' where c': "co_add ops tc (corpus (w_state w)) = (Inr (tc_id tc), c')" "cinv c'"
    "entry c' = (entry (corpus (w_state w)))(tc_id tc \<mapsto> tc)" by blast
  moreover have "S c'" using assms(1) c c'(1) unfolding stable_def by (metis snd_conv)
  ultimately show "\<exists>a w'. on_corpus (co_add (e_corpora env) tc) w = (Inr a, w') \<and> going L p S cnt w'"
    using w assms(3)
    by (simp add: on_corpus_def spart_def assms(2) going_def campaign_inv_def fb_ready_def scheduled_counts_def
        testcase_md_or_default_def fun_eq_iff)
qed

lemma safe_keep_in_corpus:
  fixes env :: "(bytes, 'c, 'k, 'b, 'r, 'x) env"
  assumes "tame L env" "e_corpora env = ops" "stable S" "length inp \<le> L"
  shows "safe (going L p S cnt) (keep_in_corpus env inp) (\<lambda>_. going L p S cnt)"
proof -
  have hooks: "e_hooks env = []" and send: "fst (e_send_testcase env tc x) = Inr ()" for tc x
    using assms(1) by (simp_all add: tame_def)
  have count: "safe (going L p S cnt) (\<lambda>w. on_state (count_corpus (e_now env (w_outside w))) w) (\<lambda>_. going L p S cnt)"
    by (rule safeI) (auto simp: smod_def intro!: going_state, simp add: count_corpus_def)
  have new: "length (tc_input (testcase_new (e_hash env) inp)) \<le> L" using assms(4) by (simp add: testcase_new_def)
  show ?thesis unfolding keep_in_corpus_def hooks pre_add_all.simps post_add_all_def sforeach.simps sbind_simps(1)
    by (intro safe_sbind [OF safe_sget [where Q = "\<lambda>_. going L p S cnt"]] safe_sseq [OF safe_call [OF send]]
        safe_sbind [OF safe_add [OF assms(3,2) new]] safe_sseq [OF safe_update] safe_sseq [OF safe_append] safe_sseq [OF count]
        safe_sseq [OF safe_sret] safe_sret)
      (simp_all add: set_executions_def ready)
qed

lemma safe_evaluate_input:
  fixes env :: "(bytes, 'c, 'k, 'b, 'r, 'x) env"
  assumes "tame L env" "e_corpora env = ops" "stable S" "length inp \<le> L"
  shows "safe (going L p S cnt) (evaluate_input env inp) (\<lambda>_. going L p S cnt)"
proof -
  have report: "safe (going L p S cnt) (report_stats env) (\<lambda>_. going L p S cnt)"
    unfolding report_stats_def by (rule safe_read, rule safe_call) (use assms(1) in \<open>simp add: tame_def\<close>)
  have post: "safe (going L p S cnt) (post_execution env inp kind) (\<lambda>_. going L p S cnt)" for kind
    unfolding post_execution_def
    by (intro safe_sbind [OF safe_evaluate_execution] safe_sbind [where R = "\<lambda>_. going L p S cnt"] safe_sret)
      (auto split: interest.split intro: safe_keep_objective safe_keep_in_corpus safe_sret assms)
  show ?thesis unfolding evaluate_input_def
    by (intro safe_sbind [OF safe_execute [OF assms(1)]] safe_sbind [OF post] safe_sseq [OF report] safe_sret)
qed

text \<open>A mutator that keeps its contract finds a state it can work on.\<close>

lemma mutator_state_ok:
  assumes "going L p S cnt w" "e_corpora env = ops"
  shows "mst_ok L (mutator_state env w)"
proof -
  let ?c = "corpus (w_state w)"
  have w: "cinv ?c" "max_size_limit (w_state w) \<le> L" "\<forall>tid tc. entry ?c tid = Some tc \<longrightarrow> length (tc_input tc) \<le> L"
    "mutation_data_ok (md_tokens (metadata (w_state w))) (md_cmplog (metadata (w_state w)))"
    using assms(1) by (simp_all add: going_def campaign_inv_def)
  have "\<exists>other. map_sum id tc_input (fst (co_get ops tid ?c)) = Inr other \<and>
      map_sum id tc_input (fst (co_get_all ops tid ?c)) = Inr other \<and> length other \<le> L" if "tid \<in> set (co_ids ops ?c)" for tid
  proof -
    have "tid \<in> dom (entry ?c)" using that tracked [OF w(1)] by simp
    then obtain tc where "entry ?c tid = Some tc" by blast
    with get [OF w(1) this] w(3) show ?thesis by simp
  qed
  then show ?thesis using w(2,4)
    by (simp add: mst_ok_def mutator_state_def Let_def assms(2) mutation_data_ok_def)
qed

lemma safe_mutate_step:
  fixes env :: "(bytes, 'c, 'k, 'b, 'r, 'x) env"
  assumes "byte_mutator mutate" "e_corpora env = ops" "length inp \<le> L"
  shows "safe (going L p S cnt) (mutate_step env mutate inp) (\<lambda>(m, out) w. going L p S cnt w \<and> length out \<le> L)"
proof (rule safeI)
  fix w :: "(bytes, 'c, 'k, 'b, 'r, 'x) world"
  assume w: "going L p S cnt w"
  obtain m out r' where "mutate (mutator_state env w) inp (w_rand w) = Inr (m, out, r')" "length out \<le> L"
    by (rule byte_mutator.total [OF assms(1) mutator_state_ok [OF w assms(2)] assms(3)])
  with w show "\<exists>a w'. mutate_step env mutate inp w = (Inr a, w') \<and> (case a of (m, out) \<Rightarrow> \<lambda>w. going L p S cnt w \<and> length out \<le> L) w'"
    by (simp add: mutate_step_def)
qed

section \<open>Stages\<close>

text \<open>What the fuzzer relies on in its stages.\<close>

definition stage_ok :: "nat \<Rightarrow> (bytes, 'c, 'k, 'b, 'r, 'x) stages \<Rightarrow> bool" where
  "stage_ok L stage \<longleftrightarrow> (\<forall>tid p S cnt. stable S \<longrightarrow> (\<forall>c. S c \<longrightarrow> tid \<in> set (co_ids ops c)) \<longrightarrow>
     osafe (going L p S cnt) (stage tid) (\<lambda>_. going L p S cnt))"

lemma stage_okD:
  "stage_ok L stage \<Longrightarrow> stable S \<Longrightarrow> (\<And>c. S c \<Longrightarrow> tid \<in> set (co_ids ops c)) \<Longrightarrow>
    osafe (going L p S cnt) (stage tid) (\<lambda>_. going L p S cnt)"
  by (simp add: stage_ok_def)

lemma nop_stage_ok: "stage_ok L nop_stage"
  by (auto simp: stage_ok_def nop_stage_def intro: osafe_sret)

lemma perform_all_ok: "\<forall>stage \<in> set stages. stage_ok L stage \<Longrightarrow> stage_ok L (perform_all stages)"
proof (induction stages)
  case Nil
  show ?case by (auto simp: stage_ok_def intro: osafe_sret)
next
  case (Cons stage stages)
  then have "stage_ok L stage" "stage_ok L (perform_all stages)" by simp_all
  then show ?case unfolding stage_ok_def perform_all.simps by (blast intro: osafe_obind)
qed

lemma logic_stages_ok:
  assumes "stage_ok L st1" "stage_ok L st2" "\<And>p S cnt. stable S \<Longrightarrow> safe (going L p S cnt) closure (\<lambda>_. going L p S cnt)"
  shows "stage_ok L (if_stage closure st1)" "stage_ok L (ifelse_stage closure st1 st2)"
proof -
  have "osafe (going L p S cnt) (obind (olift closure) (\<lambda>b. if b then st1 tid else k)) (\<lambda>_. going L p S cnt)"
    if S: "stable S" "\<And>c. S c \<Longrightarrow> tid \<in> set (co_ids ops c)" and k: "osafe (going L p S cnt) k (\<lambda>_. going L p S cnt)"
    for tid p S cnt k
    by (rule osafe_obind [OF osafe_olift [OF assms(3) [OF S(1)]]]) (use k stage_okD [OF assms(1) S] in simp)
  then show "stage_ok L (if_stage closure st1)" "stage_ok L (ifelse_stage closure st1 st2)"
    using assms(2) unfolding stage_ok_def if_stage_def ifelse_stage_def by (blast intro: osafe_sret)+
qed

lemma safe_get:
  assumes "e_corpora env = ops" "\<And>c. S c \<Longrightarrow> tid \<in> set (co_ids ops c)"
  shows "safe (going L p S cnt) (on_corpus (co_get (e_corpora env) tid))
    (\<lambda>tc w. going L p S cnt (w :: (bytes, 'c, 'k, 'b, 'r, 'x) world) \<and> length (tc_input tc) \<le> L)"
proof (rule safeI)
  fix w :: "(bytes, 'c, 'k, 'b, 'r, 'x) world"
  assume w: "going L p S cnt w"
  let ?c = "corpus (w_state w)"
  have c: "cinv ?c" "S ?c" "\<forall>tid tc. entry ?c tid = Some tc \<longrightarrow> length (tc_input tc) \<le> L"
    using w by (simp_all add: going_def campaign_inv_def)
  have "tid \<in> dom (entry ?c)" using assms(2) [OF c(2)] tracked [OF c(1)] by simp
  then obtain tc where tc: "entry ?c tid = Some tc" by blast
  with get [OF c(1) tc] c(3) w
  show "\<exists>a w'. on_corpus (co_get (e_corpora env) tid) w = (Inr a, w') \<and> going L p S cnt w' \<and> length (tc_input a) \<le> L"
    by (simp add: on_corpus_def spart_def assms(1))
qed

lemma safe_sforeach_going:
  assumes "\<And>x. safe (going L p S cnt) (f x) (\<lambda>_. going L p S cnt)"
  shows "safe (going L p S cnt) (sforeach f xs) (\<lambda>_. going L p S cnt)"
  by (rule safe_sforeach) (rule assms)

lemma mutational_stage_ok:
  fixes env :: "(bytes, 'c, 'k, 'b, 'r, 'x) env"
  assumes "tame L env" "e_corpora env = ops" "byte_mutator mutate"
    and "\<And>p S cnt. safe (going L p S cnt) iterations (\<lambda>_. going L p S cnt)"
  shows "stage_ok L (perform_mutational env mutate (\<lambda>_. sret ()) iterations)"
  unfolding stage_ok_def
proof (intro allI impI)
  fix tid p S cnt
  assume S: "stable S" and t: "\<forall>c. S c \<longrightarrow> tid \<in> set (co_ids ops c)"
  have round: "safe (going L p S cnt) (mutational_round env mutate (\<lambda>_. sret ()) tc) (\<lambda>_. going L p S cnt)"
    if "length (tc_input tc) \<le> L" for tc
  proof -
    have "safe (case a of (m, out) \<Rightarrow> \<lambda>w. going L p S cnt w \<and> length out \<le> L)
        (case a of (mutated, inp) \<Rightarrow> if mutated = Skipped then sret () else sbind (evaluate_input env inp) (\<lambda>_. sret ()))
        (\<lambda>_. going L p S cnt)" for a
    proof (cases a)
      case (Pair m out)
      have "safe (\<lambda>w. going L p S cnt w \<and> length out \<le> L) (sbind (evaluate_input env out) (\<lambda>_. sret ())) (\<lambda>_. going L p S cnt)"
        by (intro safe_and safe_sbind [OF safe_evaluate_input [OF assms(1,2) S]] safe_sret)
      with Pair show ?thesis by (auto intro: safe_sret)
    qed
    from safe_sbind [OF safe_mutate_step [OF assms(3,2) that] this] show ?thesis
      unfolding mutational_round_def .
  qed
  have "safe (\<lambda>w. going L p S cnt w \<and> length (tc_input tc) \<le> L)
      (sforeach (\<lambda>_. mutational_round env mutate (\<lambda>_. sret ()) tc) [0..<num]) (\<lambda>_. going L p S cnt)" for tc num
    by (intro safe_and safe_sforeach_going round)
  then show "osafe (going L p S cnt) (perform_mutational env mutate (\<lambda>_. sret ()) iterations tid) (\<lambda>_. going L p S cnt)"
    unfolding perform_mutational_def
    by (intro osafe_olift safe_sbind [OF assms(4)] safe_sbind [OF safe_get [OF assms(2)]]) (use t in auto)
qed

lemma std_mutational_stage_ok:
  fixes env :: "(bytes, 'c, 'k, 'b, 'r, 'x) env"
  assumes "tame L env" "e_corpora env = ops" "byte_mutator mutate"
  shows "stage_ok L (std_mutational_stage env nxt mutate n)"
  unfolding std_mutational_stage_def
proof (rule mutational_stage_ok [OF assms])
  fix p S cnt
  have "\<exists>a w'. std_iterations nxt n w = (Inr a, w') \<and> going L p S cnt w'"
    if "going L p S cnt w" for w :: "(bytes, 'c, 'k, 'b, 'r, 'x) world"
    using that by (simp add: std_iterations_def spart_def split: prod.split)
  then show "safe (going L p S cnt) (std_iterations nxt n) (\<lambda>_. going L p S cnt :: (bytes, 'c, 'k, 'b, 'r, 'x) world \<Rightarrow> bool)"
    by (rule safeI)
qed

section \<open>The fuzzing loop\<close>

lemma going_empty: "going L p S cnt w \<Longrightarrow> campaign_inv cinv entry kinv L w"
  by (simp add: going_def)

lemma safe_poll_worker:
  fixes env :: "(bytes, 'c, 'k, 'b, 'r, 'x) env"
  assumes "tame L env"
  shows "safe (going L p S cnt) (poll_worker env) (\<lambda>_ w. \<exists>p. going L p S cnt w)"
proof -
  have poll: "\<exists>b. fst (e_poll env x) = Inr b \<and> True" for x using assms by (simp add: tame_def)
  have recv: "\<exists>tcs. fst (e_recv_testcases env x) = Inr tcs \<and> (\<forall>tc \<in> set tcs. length (tc_input tc) \<le> L)" for x
    using assms by (simp add: tame_def)
  have shut: "safe (going L p S cnt)
      (outside (\<lambda>x. case e_should_shutdown env x of (b, x) \<Rightarrow> (Inr b, x))) (\<lambda>_. going L p S cnt :: (bytes, 'c, 'k, 'b, 'r, 'x) world \<Rightarrow> bool)"
    by (rule safe_weaken [OF safe_outside [where R = "\<lambda>_. True"]]) (auto split: prod.split)
  have exits: "safe (going L p S cnt) (\<lambda>w. (Inl Exits, w)) (\<lambda>_ (w :: (bytes, 'c, 'k, 'b, 'r, 'x) world). \<exists>p. going L p S cnt w)" by (simp add: safe_def)
  have put: "safe (\<lambda>w. going L p S cnt (w :: (bytes, 'c, 'k, 'b, 'r, 'x) world) \<and> (\<forall>tc \<in> set tcs. length (tc_input tc) \<le> L))
      (on_state (add_pending_testcases tcs)) (\<lambda>_ w. \<exists>p. going L p S cnt w)" for tcs
    by (rule safe_smod)
      (auto simp: going_def campaign_inv_def add_pending_testcases_def fb_ready_def scheduled_counts_def testcase_md_or_default_def fun_eq_iff)
  have recvd: "safe (going L p S cnt) (sbind (outside (e_recv_testcases env)) (\<lambda>tcs. on_state (add_pending_testcases tcs)))
      (\<lambda>_ (w :: (bytes, 'c, 'k, 'b, 'r, 'x) world). \<exists>p. going L p S cnt w)"
    by (rule safe_sbind [OF safe_outside [OF recv] put])
  have idle: "safe (going L p S cnt) (sret ()) (\<lambda>_ (w :: (bytes, 'c, 'k, 'b, 'r, 'x) world). \<exists>p. going L p S cnt w)"
    by (auto intro: safe_sret)
  show ?thesis unfolding poll_worker_def
    by (rule safe_sbind [OF safe_outside [OF poll]], rule safe_and, rule safe_if, rule safe_sbind [OF shut],
        rule safe_if, rule exits, rule recvd, rule idle)
qed

text \<open>The pending test cases run out.\<close>

lemma drain_pending_ok:
  fixes env :: "(bytes, 'c, 'k, 'b, 'r, 'x) env"
  assumes "tame L env" "e_corpora env = ops" "stable S"
  shows "osafe (going L p S cnt) (drain_pending env) (\<lambda>_. going L [] S cnt)"
proof (induction p)
  case Nil
  have "drain_pending env w = Some (Inr (), w)" if "going L [] S cnt w" for w :: "(bytes, 'c, 'k, 'b, 'r, 'x) world"
    using that by (subst drain_pending.simps) (simp add: next_pending_testcase_def going_def)
  then show ?case by (simp add: osafe_def)
next
  case (Cons tc p)
  show ?case unfolding osafe_def
  proof (intro allI impI)
    fix w :: "(bytes, 'c, 'k, 'b, 'r, 'x) world"
    assume w: "going L (tc # p) S cnt w"
    let ?w = "w\<lparr>w_state := (w_state w)\<lparr>pending_testcases := p\<rparr>\<rparr>"
    have tc: "next_pending_testcase (w_state w) = (Some tc, (w_state w)\<lparr>pending_testcases := p\<rparr>)" "length (tc_input tc) \<le> L"
      using w by (auto simp: next_pending_testcase_def going_def campaign_inv_def)
    have go: "going L p S cnt ?w" using w
      by (auto simp: going_def campaign_inv_def fb_ready_def scheduled_counts_def testcase_md_or_default_def fun_eq_iff)
    obtain r w1 where run: "evaluate_input env (tc_input tc) ?w = (r, w1)" by force
    then consider "r = Inl Exits" | res where "r = Inr res" "going L p S cnt w1"
      using safeD [OF safe_evaluate_input [OF assms tc(2)] go] by blast
    then show "\<exists>r w'. drain_pending env w = Some (r, w') \<and> (case r of Inr a \<Rightarrow> going L [] S cnt w' | Inl s \<Rightarrow> s = Exits)"
    proof cases
      case 1
      then show ?thesis using run tc(1) by (subst drain_pending.simps) simp
    next
      case (2 res)
      then show ?thesis using run tc(1) Cons.IH by (subst drain_pending.simps) (simp add: osafe_def)
    qed
  qed
qed

lemma safe_post_fuzz_one:
  fixes env :: "(bytes, 'c, 'k, 'b, 'r, 'x) env"
  assumes "tame L env"
  shows "safe (going L p S cnt) (post_fuzz_one env) (\<lambda>_. going L p S cnt)"
proof -
  have report: "safe (going L p S cnt) (report_stats env) (\<lambda>_. going L p S cnt)"
    unfolding report_stats_def by (rule safe_read, rule safe_call) (use assms in \<open>simp add: tame_def\<close>)
  have hooks: "e_hooks env = []" using assms by (simp add: tame_def)
  show ?thesis unfolding post_fuzz_one_def post_step_all_def hooks sforeach.simps sbind_simps(7)
    by (rule report)
qed

text \<open>
  One turn of the loop. \<open>S\<close> is what is known of the corpus before it, \<open>T\<close> what the choice of the
  scheduler makes of it.
\<close>

lemma fuzz_one_ok:
  fixes env :: "(bytes, 'c, 'k, 'b, 'r, 'x) env"
  assumes env: "tame L env" "e_corpora env = ops" and stages: "stage_ok L stages"
    and S: "stable S" and T: "\<And>tid. stable (T (Some tid))"
    and choice: "\<And>c r c'. cinv c \<Longrightarrow> S c \<Longrightarrow> co_next ops c = (Inr r, c') \<Longrightarrow> T r c'"
  shows "osafe (going L p S cnt) (fuzz_one env stages) (\<lambda>out w. case out of
      Idle \<Rightarrow> going L [] (\<lambda>c. T None c \<and> co_ids ops c = []) cnt w
    | Finished \<Rightarrow> \<exists>tid. going L [] (\<lambda>c. T (Some tid) c \<and> tid \<in> set (co_ids ops c)) (cnt(tid := cnt tid + 1)) w)"
proof -
  let ?U = "\<lambda>r c. T r c \<and> (case r of None \<Rightarrow> co_ids ops c = [] | Some tid \<Rightarrow> tid \<in> set (co_ids ops c))"
  let ?Q = "\<lambda>out w. case out of Idle \<Rightarrow> going L [] (\<lambda>c. T None c \<and> co_ids ops c = []) cnt w
    | Finished \<Rightarrow> \<exists>tid. going L [] (\<lambda>c. T (Some tid) c \<and> tid \<in> set (co_ids ops c)) (cnt(tid := cnt tid + 1)) w"
  have hooks: "e_hooks env = []" using env(1) by (simp add: tame_def)
  have U: "stable (?U (Some tid))" for tid
    unfolding stable_def
  proof (intro allI impI)
    fix c tc assume c: "cinv c" "?U (Some tid) c"
    obtain c' where c': "co_add ops tc c = (Inr (tc_id tc), c')" "cinv c'" "entry c' = (entry c)(tc_id tc \<mapsto> tc)"
      using add [OF c(1), of tc] by blast
    then show "?U (Some tid) (snd (co_add ops tc c))"
      using T [unfolded stable_def, rule_format, OF c(1), of tid tc] c tracked [OF c(1)] tracked [OF c'(2)] by simp
  qed
  have poll: "osafe (going L p S cnt) (olift (poll_worker env)) (\<lambda>_ w. \<exists>p. going L p S cnt w)"
    by (rule osafe_olift [OF safe_poll_worker [OF env(1)]])
  have drain: "osafe (\<lambda>w. \<exists>p. going L p S cnt w) (drain_pending env) (\<lambda>_. going L [] S cnt)"
    using drain_pending_ok [OF env S] unfolding osafe_def by blast
  have pre: "osafe (going L [] S cnt) (olift (pre_step_all (e_hooks env))) (\<lambda>_. going L [] S cnt)"
    unfolding pre_step_all_def hooks sforeach.simps by (rule osafe_sret)
  have sched: "osafe (going L [] S cnt) (olift (on_corpus (co_next (e_corpora env))))
      (\<lambda>r (w :: (bytes, 'c, 'k, 'b, 'r, 'x) world). going L [] (?U r) cnt w)"
  proof (intro osafe_olift safeI)
    fix w :: "(bytes, 'c, 'k, 'b, 'r, 'x) world"
    assume w: "going L [] S cnt w"
    then have c: "cinv (corpus (w_state w))" "S (corpus (w_state w))" by (simp_all add: going_def campaign_inv_def)
    obtain r c' where n: "co_next ops (corpus (w_state w)) = (Inr r, c')" "cinv c'" "entry c' = entry (corpus (w_state w))"
      "r = None \<longleftrightarrow> co_ids ops (corpus (w_state w)) = []" "set_option r \<subseteq> set (co_ids ops (corpus (w_state w)))"
      using schedule [OF c(1)] by blast
    have "set (co_ids ops c') = set (co_ids ops (corpus (w_state w)))" using tracked [OF c(1)] tracked [OF n(2)] n(3) by simp
    then have "?U r c'" using choice [OF c n(1)] n(4,5) by (cases r) auto
    then show "\<exists>r w'. on_corpus (co_next (e_corpora env)) w = (Inr r, w') \<and> going L [] (?U r) cnt w'"
      using going_corpus [OF w n(2,3)] n(1) by (simp add: on_corpus_def spart_def env(2))
  qed
  have idle: "osafe (going L [] (?U None) cnt) (obind (olift (post_fuzz_one env)) (\<lambda>_. olift (sret Idle))) ?Q"
    by (rule osafe_obind [OF osafe_olift [OF safe_post_fuzz_one [OF env(1)]]]) (rule osafe_sret, simp)
  have perform: "osafe (going L [] (?U (Some tid)) cnt)
      (obind (olift (pre_perform_all (e_hooks env) tid)) (\<lambda>_. obind (stages tid) (\<lambda>_.
        obind (olift (on_state (update_testcase_md tid increase_scheduled_count))) (\<lambda>_.
        obind (olift (post_fuzz_one env)) (\<lambda>_. olift (sret Finished)))))) ?Q" for tid
  proof -
    have "osafe (going L [] (?U (Some tid)) cnt) (olift (pre_perform_all (e_hooks env) tid)) (\<lambda>_. going L [] (?U (Some tid)) cnt)"
      unfolding pre_perform_all_def hooks sforeach.simps by (rule osafe_sret)
    moreover have "osafe (going L [] (?U (Some tid)) cnt) (stages tid) (\<lambda>_. going L [] (?U (Some tid)) cnt)"
      by (rule stage_okD [OF stages U]) simp
    moreover have "osafe (going L [] (?U (Some tid)) cnt) (olift (on_state (update_testcase_md tid increase_scheduled_count)))
        (\<lambda>_. going L [] (?U (Some tid)) (cnt(tid := cnt tid + 1)) :: (bytes, 'c, 'k, 'b, 'r, 'x) world \<Rightarrow> bool)"
      by (intro osafe_olift safe_smod)
        (auto simp: going_def campaign_inv_def fb_ready_def scheduled_counts_update increase_scheduled_count_def,
         simp_all add: update_testcase_md_def scheduled_counts_def)
    moreover have "osafe (going L [] (?U (Some tid)) (cnt(tid := cnt tid + 1))) (obind (olift (post_fuzz_one env)) (\<lambda>_. olift (sret Finished))) ?Q"
      by (rule osafe_obind [OF osafe_olift [OF safe_post_fuzz_one [OF env(1)]]]) (rule osafe_sret, auto)
    ultimately show ?thesis by (blast intro: osafe_obind)
  qed
  have rest: "osafe (going L [] (?U r) cnt) (case r of
        None \<Rightarrow> obind (olift (post_fuzz_one env)) (\<lambda>_. olift (sret Idle))
      | Some tid \<Rightarrow> obind (olift (pre_perform_all (e_hooks env) tid)) (\<lambda>_. obind (stages tid) (\<lambda>_.
          obind (olift (on_state (update_testcase_md tid increase_scheduled_count))) (\<lambda>_.
          obind (olift (post_fuzz_one env)) (\<lambda>_. olift (sret Finished)))))) ?Q" for r
    using idle perform by (cases r) simp_all
  show ?thesis unfolding fuzz_one_def
    by (rule osafe_obind [OF poll], rule osafe_obind [OF drain], rule osafe_obind [OF pre], rule osafe_obind [OF sched]) (rule rest)
qed

text \<open>Any number of turns; a corpus that has a test case never runs empty.\<close>

lemma fuzz_iterations_ok:
  fixes env :: "(bytes, 'c, 'k, 'b, 'r, 'x) env"
  assumes env: "tame L env" "e_corpora env = ops" and stages: "stage_ok L stages"
  shows "osafe (campaign_inv cinv entry kinv L) (fuzz_iterations env stages n)
    (\<lambda>out w. campaign_inv cinv entry kinv L w \<and> (out = Idle \<longrightarrow> co_ids ops (corpus (w_state w)) = []))"
proof (induction n)
  case 0
  show ?case by (auto intro: osafe_sret)
next
  case (Suc n)
  have one: "osafe (campaign_inv cinv entry kinv L) (fuzz_one env stages)
    (\<lambda>out w. campaign_inv cinv entry kinv L w \<and> (out = Idle \<longrightarrow> co_ids ops (corpus (w_state w)) = []))"
    unfolding osafe_def
  proof (intro allI impI)
    fix w :: "(bytes, 'c, 'k, 'b, 'r, 'x) world"
    assume w: "campaign_inv cinv entry kinv L w"
    have "osafe (going L (pending_testcases (w_state w)) (\<lambda>_. True) (scheduled_counts (w_state w))) (fuzz_one env stages) (\<lambda>out w'. case out of
        Idle \<Rightarrow> going L [] (\<lambda>c. True \<and> co_ids ops c = []) (scheduled_counts (w_state w)) w'
      | Finished \<Rightarrow> \<exists>tid. going L [] (\<lambda>c. True \<and> tid \<in> set (co_ids ops c))
          ((scheduled_counts (w_state w))(tid := scheduled_counts (w_state w) tid + 1)) w')"
      by (rule fuzz_one_ok [OF env stages, where T = "\<lambda>_ _. True"]) (simp_all add: stable_def)
    moreover have "going L (pending_testcases (w_state w)) (\<lambda>_. True) (scheduled_counts (w_state w)) w"
      using w by (simp add: going_def)
    ultimately obtain r w' where "fuzz_one env stages w = Some (r, w')" and r: "case r of Inr a \<Rightarrow> (case a of
        Idle \<Rightarrow> going L [] (\<lambda>c. True \<and> co_ids ops c = []) (scheduled_counts (w_state w)) w'
      | Finished \<Rightarrow> \<exists>tid. going L [] (\<lambda>c. True \<and> tid \<in> set (co_ids ops c))
          ((scheduled_counts (w_state w))(tid := scheduled_counts (w_state w) tid + 1)) w') | Inl s \<Rightarrow> s = Exits"
      unfolding osafe_def by blast
    then show "\<exists>r w'. fuzz_one env stages w = Some (r, w') \<and> (case r of Inr out \<Rightarrow> campaign_inv cinv entry kinv L w' \<and>
        (out = Idle \<longrightarrow> co_ids ops (corpus (w_state w')) = []) | Inl s \<Rightarrow> s = Exits)"
      by (auto simp: going_def split: sum.splits fuzzer_outcome.splits)
  qed
  show ?case unfolding fuzz_iterations.simps
    by (rule osafe_obind [OF one]) (auto intro: osafe_sret osafe_weaken [OF Suc.IH])
qed

end

section \<open>The campaign with the standard corpus\<close>

text \<open>The corpus in memory over the hash map with a queue, byte inputs and objectives in memory.\<close>

abbreviation "std_corpora \<equiv> single_ops (inmem_ops hash_ops) queue_ops (inmem_ops hash_ops)"

interpretation queue_bytes: byte_campaign std_corpora inmem_queue.corpus_inv
  "\<lambda>k. inmem_wf hash_wf hash_entries (sc_store k)" "\<lambda>c. hash_entries (im_enabled_map (sc_store c))" ..

definition std_campaign_inv :: "nat \<Rightarrow> (bytes, (bytes testcase hash_corpus_map in_memory_store, queue_scheduler) single_corpus,
    (bytes testcase hash_corpus_map in_memory_store, unit) single_corpus, 'b, 'r, 'x) world \<Rightarrow> bool" where
  "std_campaign_inv = campaign_inv inmem_queue.corpus_inv (\<lambda>c. hash_entries (im_enabled_map (sc_store c)))
     (\<lambda>k. inmem_wf hash_wf hash_entries (sc_store k))"

lemma std_stage_ok:
  assumes "tame L env" "e_corpora env = std_corpora"
  shows "queue_bytes.stage_ok L (std_stage env nxt)"
  unfolding std_stage_def by (rule queue_bytes.std_mutational_stage_ok [OF assms std.byte_mutator_axioms])

text \<open>The queue before its \<open>n\<close>-th entry, when \<open>ids\<close> are the first it holds.\<close>

definition before_entry :: "u64 list \<Rightarrow> nat \<Rightarrow> ('s, queue_scheduler) single_corpus \<Rightarrow> bool" where
  "before_entry ids n c \<longleftrightarrow> take (length ids) (q_queue (sc_scheduler c)) = ids \<and>
     (case q_current (sc_scheduler c) of None \<Rightarrow> 0 | Some idx \<Rightarrow> idx + 1) = n"

lemma take_still: "take (length ids) q = ids \<Longrightarrow> take (length ids) (q @ xs) = ids"
  by (metis append.assoc append_eq_conv_conj append_take_drop_id)

lemma before_entry_stable: "queue_bytes.stable (before_entry ids n)"
  unfolding queue_bytes.stable_def unfolding before_entry_def single_ops_def
  by (auto simp: single_add_shared_def queue_ops_def queue_on_add_def simp del: take_append intro: take_still
      split: prod.splits sum.splits storage_result.splits)

lemma before_entry_next:
  assumes "before_entry ids n c" "n < length ids" "co_next std_corpora c = (Inr r, c')"
  shows "r = Some (ids ! n)" "before_entry ids (n + 1) c'"
proof -
  let ?q = "q_queue (sc_scheduler c)"
  have t: "take (length ids) ?q = ids" "(case q_current (sc_scheduler c) of None \<Rightarrow> 0 | Some idx \<Rightarrow> idx + 1) = n"
    using assms(1) by (simp_all add: before_entry_def)
  then have len: "length ids \<le> length ?q" by (metis linorder_le_cases take_all)
  have "?q ! n = ids ! n" using t(1) assms(2) by (metis nth_take)
  moreover have "?q \<noteq> []" using len assms(2) by auto
  ultimately show "r = Some (ids ! n)" "before_entry ids (n + 1) c'" using assms t len
    by (auto simp: single_ops_def single_next_def queue_ops_def queue_next_def Let_def before_entry_def
        split: option.splits prod.splits)
qed

lemma queue_turns:
  fixes env :: "(bytes, (bytes testcase hash_corpus_map in_memory_store, queue_scheduler) single_corpus,
    (bytes testcase hash_corpus_map in_memory_store, unit) single_corpus, 'b, 'r, 'x) env"
  assumes env: "tame L env" "e_corpora env = std_corpora" and stages: "queue_bytes.stage_ok L stages"
  shows "n + k \<le> length ids \<Longrightarrow> distinct ids \<Longrightarrow>
    osafe (queue_bytes.going L p (before_entry ids n) cnt) (fuzz_iterations env stages k) (\<lambda>out w. out = Finished \<and>
      (\<exists>p. queue_bytes.going L p (before_entry ids (n + k))
        (\<lambda>tid. cnt tid + (if tid \<in> set (take k (drop n ids)) then 1 else 0)) w))"
proof (induction k arbitrary: n p cnt)
  case 0
  show ?case by (auto intro!: osafe_sret)
next
  case (Suc k)
  let ?T = "\<lambda>r c. r = Some (ids ! n) \<and> before_entry ids (n + 1) c"
  let ?cnt = "cnt(ids ! n := cnt (ids ! n) + 1)"
  have n: "n < length ids" using Suc.prems(1) by simp
  have T: "queue_bytes.stable (?T (Some tid))" for tid
    using before_entry_stable [of ids "n + 1"] by (simp add: queue_bytes.stable_def)
  have one: "osafe (queue_bytes.going L p (before_entry ids n) cnt) (fuzz_one env stages)
      (\<lambda>out w. out = Finished \<and> queue_bytes.going L [] (before_entry ids (n + 1)) ?cnt w)"
    by (rule osafe_weaken [OF queue_bytes.fuzz_one_ok [where T = ?T and p = p and cnt = cnt, OF env stages before_entry_stable T]])
      (use before_entry_next [OF _ n] in \<open>auto simp: queue_bytes.going_def split: fuzzer_outcome.splits\<close>)
  have split: "set (take (Suc k) (drop n ids)) = insert (ids ! n) (set (take k (drop (n + 1) ids)))"
    using n by (simp add: Cons_nth_drop_Suc [symmetric])
  have "ids ! n \<notin> set (take k (drop (n + 1) ids))"
    using Suc.prems(2) n by (metis Cons_nth_drop_Suc Suc_eq_plus1 distinct.simps(2) distinct_drop in_set_takeD)
  then have cnt: "(\<lambda>tid. ?cnt tid + (if tid \<in> set (take k (drop (n + 1) ids)) then 1 else 0)) =
      (\<lambda>tid. cnt tid + (if tid \<in> set (take (Suc k) (drop n ids)) then 1 else 0))"
    unfolding split by (auto simp: fun_eq_iff)
  have "osafe (queue_bytes.going L [] (before_entry ids (n + 1)) ?cnt) (fuzz_iterations env stages k) (\<lambda>out w. out = Finished \<and>
      (\<exists>p. queue_bytes.going L p (before_entry ids (n + Suc k))
        (\<lambda>tid. cnt tid + (if tid \<in> set (take (Suc k) (drop n ids)) then 1 else 0)) w))"
    using Suc.IH [of "n + 1" "[]" ?cnt] Suc.prems unfolding cnt by (simp add: fun_upd_def)
  then show ?case unfolding fuzz_iterations.simps
    by (intro osafe_obind [OF one]) (auto simp: osafe_def)
qed

lemma std_loop:
  assumes "tame L env" "e_corpora env = std_corpora" "std_campaign_inv L w" "0 < n"
  shows "\<exists>r w'. fuzz_loop_for env (std_stage env nxt) n w = Some (r, w') \<and>
    (case r of Inl s \<Rightarrow> s = Exits
     | Inr out \<Rightarrow> std_campaign_inv L w' \<and> (out = Idle \<longrightarrow> queue_ids (sc_scheduler (corpus (w_state w'))) = []))"
proof -
  have "osafe (std_campaign_inv L) (fuzz_iterations env (std_stage env nxt) n)
    (\<lambda>out w. std_campaign_inv L w \<and> (out = Idle \<longrightarrow> co_ids std_corpora (corpus (w_state w)) = []))"
    unfolding std_campaign_inv_def
    by (rule queue_bytes.fuzz_iterations_ok [OF assms(1,2) std_stage_ok [OF assms(1,2)]])
  then show ?thesis using assms(3,4)
    by (simp add: osafe_def fuzz_loop_for_def single_ops_def queue_ops_def)
qed

section \<open>The properties\<close>

text \<open>
  C1. The fuzzing loop with the standard stage over the standard corpus does not fail and does not hang:
  from a state with the invariant of a campaign, in an environment whose calls succeed, any number of
  turns ends, with the invariant or in the exit of the process; it ends early only when the corpus
  has no test case.
\<close>

theorem campaign_never_fails:
  assumes "tame L env" "e_corpora env = std_corpora" "std_campaign_inv L w" "0 < n"
  shows "\<exists>r w'. fuzz_loop_for env (std_stage env nxt) n w = Some (r, w') \<and>
    (case r of Inl s \<Rightarrow> s = Exits
     | Inr out \<Rightarrow> std_campaign_inv L w' \<and> (out = Idle \<longrightarrow> queue_ids (sc_scheduler (corpus (w_state w'))) = []))"
  by (rule std_loop [OF assms])

text \<open>
  C2. Every test case gets its turn: when the queue is about to choose its \<open>n\<close>-th entry, the next \<open>k\<close>
  turns of the loop schedule the entries from the \<open>n\<close>-th on, each exactly once and nothing else,
  whatever is added to the corpus meanwhile.
\<close>

theorem every_test_case_gets_its_turn:
  assumes "tame L env" "e_corpora env = std_corpora" "std_campaign_inv L w"
    and "n = (case q_current (sc_scheduler (corpus (w_state w))) of None \<Rightarrow> 0 | Some idx \<Rightarrow> idx + 1)"
    and "ids = queue_ids (sc_scheduler (corpus (w_state w)))" "n + k \<le> length ids" "0 < k"
  shows "\<exists>r w'. fuzz_loop_for env (std_stage env nxt) k w = Some (r, w') \<and>
    (r = Inl Exits \<or> r = Inr Finished \<and> queue_current (sc_scheduler (corpus (w_state w'))) = Inr (Some (ids ! (n + k - 1))) \<and>
       (\<forall>tid. scheduled_counts (w_state w') tid =
          scheduled_counts (w_state w) tid + (if tid \<in> set (take k (drop n ids)) then 1 else 0)))"
proof -
  let ?q = "sc_scheduler (corpus (w_state w))"
  have q: "q_queue ?q = ids" using assms(5) by (simp add: queue_ids_def)
  have "inmem_queue.corpus_inv (corpus (w_state w))" using assms(3) by (simp add: std_campaign_inv_def campaign_inv_def)
  then have "distinct (sd_ids queue_ops ?q)" by (simp add: inmem_queue.corpus_inv_def)
  then have "distinct ids" using q by (simp add: queue_ops_def queue_ids_def)
  moreover have "queue_bytes.going L (pending_testcases (w_state w)) (before_entry ids n) (scheduled_counts (w_state w)) w"
    using assms(3) assms(4) q by (simp add: queue_bytes.going_def std_campaign_inv_def before_entry_def)
  ultimately obtain r w' where run: "fuzz_iterations env (std_stage env nxt) k w = Some (r, w')"
    and r: "case r of Inl s \<Rightarrow> s = Exits | Inr out \<Rightarrow> out = Finished \<and> (\<exists>p. queue_bytes.going L p (before_entry ids (n + k))
      (\<lambda>tid. scheduled_counts (w_state w) tid + (if tid \<in> set (take k (drop n ids)) then 1 else 0)) w')"
    using queue_turns [OF assms(1,2) std_stage_ok [OF assms(1,2)] assms(6)] unfolding osafe_def by blast
  have "queue_current (sc_scheduler (corpus (w_state w'))) = Inr (Some (ids ! (n + k - 1)))"
    if "before_entry ids (n + k) (corpus (w_state w'))"
  proof -
    let ?q' = "sc_scheduler (corpus (w_state w'))"
    have t: "take (length ids) (q_queue ?q') = ids" "q_current ?q' = Some (n + k - 1)"
      using that assms(7) by (auto simp: before_entry_def split: option.splits)
    then have "length ids \<le> length (q_queue ?q')" by (metis linorder_le_cases take_all)
    moreover have "n + k - 1 < length ids" using assms(6,7) by linarith
    then have "q_queue ?q' ! (n + k - 1) = ids ! (n + k - 1)" using nth_take [of "n + k - 1" "length ids" "q_queue ?q'"] t(1) by simp
    ultimately show ?thesis using t(2) assms(6,7) by (simp add: queue_current_def)
  qed
  note position = this
  show ?thesis
  proof (cases r)
    case (Inl s)
    then show ?thesis using run r assms(7) by (simp add: fuzz_loop_for_def)
  next
    case (Inr out)
    then obtain p where fin: "out = Finished" and go: "queue_bytes.going L p (before_entry ids (n + k))
      (\<lambda>tid. scheduled_counts (w_state w) tid + (if tid \<in> set (take k (drop n ids)) then 1 else 0)) w'" using r by auto
    have "before_entry ids (n + k) (corpus (w_state w'))" "scheduled_counts (w_state w') =
      (\<lambda>tid. scheduled_counts (w_state w) tid + (if tid \<in> set (take k (drop n ids)) then 1 else 0))"
      using go unfolding queue_bytes.going_def by blast+
    with position Inr fin run assms(7) show ?thesis by (simp add: fuzz_loop_for_def)
  qed
qed

text \<open>
  C7. No input grows past the limit: after any number of turns every test case that a lookup in the corpus
  finds is at most as long as the maximal size of the state, if the seeds and the test cases of other
  instances are.
\<close>

theorem inputs_stay_within_the_limit:
  assumes "tame L env" "e_corpora env = std_corpora" "std_campaign_inv L w" "0 < n"
  shows "\<exists>r w'. fuzz_loop_for env (std_stage env nxt) n w = Some (r, w') \<and>
    (r = Inl Exits \<or> (\<forall>tid tc. single_get_from (inmem_ops hash_ops) True (corpus (w_state w')) tid = Inr tc \<longrightarrow>
       length (tc_input tc) \<le> L))"
proof -
  from std_loop [OF assms, of nxt] obtain r w' where run: "fuzz_loop_for env (std_stage env nxt) n w = Some (r, w')"
    and c: "case r of Inl s \<Rightarrow> s = Exits
      | Inr out \<Rightarrow> std_campaign_inv L w' \<and> (out = Idle \<longrightarrow> queue_ids (sc_scheduler (corpus (w_state w'))) = [])"
    by (elim exE conjE)
  have r: "r = Inl Exits \<or> std_campaign_inv L w'" using c by (cases r) auto
  have "length (tc_input tc) \<le> L" if inv: "std_campaign_inv L w'"
    and found: "single_get_from (inmem_ops hash_ops) True (corpus (w_state w')) tid = Inr tc" for tid tc
  proof -
    have "inmem_queue.corpus_inv (corpus (w_state w'))" using inv by (simp add: std_campaign_inv_def campaign_inv_def)
    then have "inmem_wf hash_wf hash_entries (sc_store (corpus (w_state w')))" by (simp add: inmem_queue.corpus_inv_def)
    from inmem_hash.get_enabled [OF this, of tid] found
    have "hash_entries (im_enabled_map (sc_store (corpus (w_state w')))) tid = Some tc"
      by (simp add: single_get_from_def found_def split: option.splits)
    then show ?thesis using inv by (simp add: std_campaign_inv_def campaign_inv_def)
  qed
  with run r show ?thesis by blast
qed

section \<open>A concrete campaign\<close>

definition sample_seeds :: sample_corpus where
  "sample_seeds = snd (single_add_shared (inmem_ops hash_ops) queue_ops True
     (testcase_new (\<lambda>_. 1) [1]) (single_new (inmem_new hash_ops) queue_new))"

definition sample_campaign :: "u64 havoc_state sample_world" where
  "sample_campaign = (let w = sample_with \<lparr>h_rng = 5, h_copy_buf = [], h_swap_buf = []\<rparr>
     in w\<lparr>w_state := (w_state w)\<lparr>corpus := sample_seeds\<rparr>\<rparr>)"

lemma sample_corpus_inv:
  "inmem_queue.corpus_inv sample_seeds"
  "hash_entries (im_enabled_map (sc_store sample_seeds)) tid = Some tc \<Longrightarrow> tc_input tc = [1]"
  "sc_scheduler sample_seeds = \<lparr>q_queue = [1], q_current = None\<rparr>"
proof -
  let ?new = "inmem_corpus_new hash_ops queue_new :: sample_corpus"
  obtain c' where c': "single_add_shared (inmem_ops hash_ops) queue_ops True (testcase_new (\<lambda>_. 1) [1]) ?new = (Inr 1, c')"
    "inmem_queue.corpus_inv c'"
    "hash_entries (im_enabled_map (sc_store c')) = (hash_entries (im_enabled_map (sc_store ?new)))(1 \<mapsto> testcase_new (\<lambda>_. 1) [1])"
    using inmem_queue.add_inv [OF inmem_queue_new, of "testcase_new (\<lambda>_. 1) [1]"] by (auto simp: testcase_new_def)
  have s: "sample_seeds = c'" using c'(1) by (simp add: sample_seeds_def inmem_corpus_new_def)
  show "inmem_queue.corpus_inv sample_seeds" using s c'(2) by simp
  have "inmem_queue.corpus_inv ?new" by (rule inmem_queue_new)
  then have "set (sd_ids queue_ops queue_new) = dom (hash_entries (im_enabled_map (sc_store ?new)))"
    by (simp add: inmem_queue.corpus_inv_def inmem_corpus_new_def single_new_def)
  then have "dom (hash_entries (im_enabled_map (sc_store ?new))) = {}"
    by (simp add: queue_ops_def queue_ids_def queue_new_def)
  then have "hash_entries (im_enabled_map (sc_store ?new)) = Map.empty" by simp
  then show "tc_input tc = [1]" if "hash_entries (im_enabled_map (sc_store sample_seeds)) tid = Some tc"
    using that s c'(3) by (auto simp: testcase_new_def split: if_splits)
  show "sc_scheduler sample_seeds = \<lparr>q_queue = [1], q_current = None\<rparr>"
    by (simp add: sample_seeds_def testcase_new_def single_new_def single_add_shared_def inmem_new_def inmem_ops_def
        inmem_add_shared_def hash_ops_def hash_empty_def hash_add_def hash_get_def queue_ops_def queue_new_def queue_on_add_def)
qed

lemma sample_campaign_inv: "std_campaign_inv 1048576 sample_campaign"
proof -
  have "inmem_queue.corpus_inv (inmem_corpus_new hash_ops queue_new :: sample_corpus)" by (rule inmem_queue_new)
  then have "inmem_wf hash_wf hash_entries (inmem_new hash_ops :: bytes testcase hash_corpus_map in_memory_store)"
    by (simp add: inmem_queue.corpus_inv_def inmem_corpus_new_def single_new_def)
  then show ?thesis using sample_corpus_inv(1,2)
    by (auto simp: std_campaign_inv_def campaign_inv_def sample_campaign_def sample_with_def Let_def std_state_new_def
        DEFAULT_MAX_SIZE_def metadata_empty_def mutation_data_ok_def observers_ok_def fb_ready_def afl_map_feedback_def
        std_objective_feedback_def crash_feedback_def timeout_feedback_def get_map_observer_def single_new_def)
qed

lemma sample_env_tame: "tame 1048576 sample_env" "e_corpora sample_env = std_corpora"
proof -
  have "observers_ok obs \<longrightarrow> observers_ok (fst (snd (sample_target inp obs x))) \<and>
      shape (fst (snd (sample_target inp obs x))) = shape obs" for inp obs x
    by (induction obs)
      (auto simp: sample_target_def Let_def observers_ok_def shape_def split: observer.splits map_observer.splits if_splits)
  moreover have "fst (sample_target inp obs x) \<noteq> Refuses e" for inp obs x e by (simp add: sample_target_def Let_def)
  ultimately show "tame 1048576 sample_env"
    by (simp add: tame_def sample_env_def case_prod_beta ex_bool_eq)
  show "e_corpora sample_env = std_corpora" by (simp add: sample_env_def)
qed

theorem campaign_never_fails_witness:
  "\<exists>r w'. fuzz_loop_for sample_env (std_stage sample_env xorshift64_next) 3 sample_campaign = Some (r, w') \<and> (\<forall>e. r \<noteq> Inl (Fails e))"
proof -
  have "(0::nat) < 3" by simp
  from campaign_never_fails [OF sample_env_tame sample_campaign_inv this, of xorshift64_next] obtain r w'
    where run: "fuzz_loop_for sample_env (std_stage sample_env xorshift64_next) 3 sample_campaign = Some (r, w')"
      and r: "case r of Inl s \<Rightarrow> s = Exits
        | Inr out \<Rightarrow> std_campaign_inv 1048576 w' \<and> (out = Idle \<longrightarrow> queue_ids (sc_scheduler (corpus (w_state w'))) = [])"
    by (elim exE conjE)
  have "\<forall>e. r \<noteq> Inl (Fails e)" using r by (cases r) auto
  with run show ?thesis by blast
qed

theorem every_test_case_gets_its_turn_witness:
  "\<exists>r w'. fuzz_loop_for sample_env (std_stage sample_env xorshift64_next) 1 sample_campaign = Some (r, w') \<and>
    (r = Inl Exits \<or> r = Inr Finished \<and> queue_current (sc_scheduler (corpus (w_state w'))) = Inr (Some 1))"
proof -
  have s: "sc_scheduler (corpus (w_state sample_campaign)) = \<lparr>q_queue = [1], q_current = None\<rparr>"
    by (simp add: sample_campaign_def Let_def sample_corpus_inv)
  have "(0::nat) = (case q_current (sc_scheduler (corpus (w_state sample_campaign))) of None \<Rightarrow> 0 | Some idx \<Rightarrow> idx + 1)"
    "[1] = queue_ids (sc_scheduler (corpus (w_state sample_campaign)))" "0 + 1 \<le> length [1 :: u64]" "(0::nat) < 1"
    by (simp_all add: s queue_ids_def)
  from every_test_case_gets_its_turn [OF sample_env_tame sample_campaign_inv this, of xorshift64_next]
  show ?thesis by (simp only: nth_Cons_0 add_0 diff_self_eq_0) blast
qed

theorem inputs_stay_within_the_limit_witness:
  "\<exists>r w'. fuzz_loop_for sample_env (std_stage sample_env xorshift64_next) 2 sample_campaign = Some (r, w') \<and>
    (r = Inl Exits \<or> (case single_get_from (inmem_ops hash_ops) True (corpus (w_state w')) 1 of
       Inl e \<Rightarrow> True | Inr tc \<Rightarrow> length (tc_input tc) \<le> 1048576))"
proof -
  have "(0::nat) < 2" by simp
  from inputs_stay_within_the_limit [OF sample_env_tame sample_campaign_inv this, of xorshift64_next] obtain r w'
    where "fuzz_loop_for sample_env (std_stage sample_env xorshift64_next) 2 sample_campaign = Some (r, w')"
      "r = Inl Exits \<or> (\<forall>tid tc. single_get_from (inmem_ops hash_ops) True (corpus (w_state w')) tid = Inr tc \<longrightarrow>
       length (tc_input tc) \<le> 1048576)" by (elim exE conjE)
  then show ?thesis by (intro exI [of _ r] exI [of _ w']) (auto split: sum.split)
qed

end
