(* ===== verification/Grammars.thy ===== *)
theory Grammars
  imports Rands "HOL-Library.Code_Target_Numeral"
begin

text \<open>
  The grammars of the nautilus fuzzer (\<^verbatim>\<open>common/nautilus/grammartec/rule.rs\<close> and
  \<^verbatim>\<open>context.rs\<close>): the rules and their parsing, the context that collects them, and
  the analyses \<open>calc_min_len\<close> and \<open>calc_num_options\<close>.

  A nonterminal, a rule and a node are the numbers their newtypes wrap. A
  \<^verbatim>\<open>regex_syntax::hir::Hir\<close> is a value of the type \<open>'h\<close>. A hash map that the
  code iterates over or counts is an association list, the others are partial functions: no result
  depends on the order of the iteration. Sums of sizes are natural numbers. The two regular
  expressions of the parser are written out as functions.

  The lemmas: parsing a printed rule gives its children back, adding rules keeps the context well
  formed, and \<open>calc_min_len\<close> ends with the exact size of the smallest derivation of every
  nonterminal, or panics because a rule has no derivation.
\<close>

section \<open>Faults\<close>

text \<open>
  The recursions that are bounded by fuel tell an exhausted fuel from an error of the code.
\<close>

datatype fault = Fault error | OutOfFuel

abbreviation Panicked :: fault where
  "Panicked \<equiv> Fault Panic"

text \<open>A subtraction of \<^verbatim>\<open>usize\<close> values, which panics below zero.\<close>

definition usub :: "nat \<Rightarrow> nat \<Rightarrow> fault + nat" where
  "usub a b = (if b \<le> a then Inr (a - b) else Inl Panicked)"

definition nth_or_panic :: "'a list \<Rightarrow> nat \<Rightarrow> fault + 'a" where
  "nth_or_panic xs i = (if i < length xs then Inr (xs ! i) else Inl Panicked)"

definition assert_that :: "bool \<Rightarrow> fault + unit" where
  "assert_that b = (if b then Inr () else Inl Panicked)"

definition some_or_panic :: "'a option \<Rightarrow> fault + 'a" where
  "some_or_panic x = (case x of Some a \<Rightarrow> Inr a | None \<Rightarrow> Inl Panicked)"

lemma usub_Inr [simp]: "b \<le> a \<Longrightarrow> usub a b = Inr (a - b)"
  by (simp add: usub_def)

lemma nth_or_panic_Inr [simp]: "i < length xs \<Longrightarrow> nth_or_panic xs i = Inr (xs ! i)"
  by (simp add: nth_or_panic_def)

lemma assert_that_True [simp]: "b \<Longrightarrow> assert_that b = Inr ()"
  by (simp add: assert_that_def)

lemma some_or_panic_Some [simp]: "some_or_panic (Some a) = Inr a"
  by (simp add: some_or_panic_def)

text \<open>What the success of a sequence of calls says of its parts.\<close>

named_theorems run_simps \<open>successful runs\<close>

lemma case_prod_Inr [run_simps]:
  "(case p of (a, b) \<Rightarrow> f a b) = Inr r \<longleftrightarrow> (\<exists>a b. p = (a, b) \<and> f a b = Inr r)"
  by (cases p) simp

lemma usub_Inr_iff [run_simps]: "usub a b = Inr c \<longleftrightarrow> b \<le> a \<and> c = a - b"
  by (auto simp: usub_def)

lemma nth_or_panic_Inr_iff [run_simps]: "nth_or_panic xs i = Inr x \<longleftrightarrow> i < length xs \<and> x = xs ! i"
  by (auto simp: nth_or_panic_def)

lemma assert_that_Inr_iff [run_simps]: "assert_that b = Inr u \<longleftrightarrow> b"
  by (simp add: assert_that_def)

lemma some_or_panic_Inr_iff [run_simps]: "some_or_panic x = Inr a \<longleftrightarrow> x = Some a"
  by (auto simp: some_or_panic_def split: option.splits)

lemmas [run_simps] = rbind_Inr_iff Let_def

section \<open>Rules\<close>

datatype rule_child = Term bytes | NTerm nat

datatype rule_or_custom = Rule nat | Custom nat bytes

primrec rc_id :: "rule_or_custom \<Rightarrow> nat" where
  "rc_id (Rule r) = r"
| "rc_id (Custom r _) = r"

primrec rc_data :: "rule_or_custom \<Rightarrow> fault + bytes" where
  "rc_data (Rule _) = Inl Panicked"
| "rc_data (Custom _ d) = Inr d"

datatype 'h rule = Plain nat "rule_child list" "nat list" | RegExp nat 'h

primrec nonterms :: "'h rule \<Rightarrow> nat list" where
  "nonterms (Plain _ _ nts) = nts"
| "nonterms (RegExp _ _) = []"

primrec nonterm :: "'h rule \<Rightarrow> nat" where
  "nonterm (Plain nt _ _) = nt"
| "nonterm (RegExp nt _) = nt"

definition number_of_nonterms :: "'h rule \<Rightarrow> nat" where
  "number_of_nonterms r = length (nonterms r)"

record 'h gcontext =
  g_rules :: "'h rule list"
  g_nts_to_rules :: "(nat \<times> nat list) list"
  g_nt_names :: "(nat \<times> bytes) list"
  g_name_ids :: "(bytes \<times> nat) list"
  g_rule_min :: "nat \<rightharpoonup> nat"
  g_nt_min :: "nat \<rightharpoonup> nat"
  g_rule_opts :: "nat \<rightharpoonup> nat"
  g_nt_opts :: "nat \<rightharpoonup> nat"
  g_max_len :: nat

definition new_context :: "'h gcontext" where
  "new_context = \<lparr>g_rules = [], g_nts_to_rules = [], g_nt_names = [], g_name_ids = [],
     g_rule_min = Map.empty, g_nt_min = Map.empty, g_rule_opts = Map.empty,
     g_nt_opts = Map.empty, g_max_len = 0\<rparr>"

definition get_rule :: "nat \<Rightarrow> 'h gcontext \<Rightarrow> fault + 'h rule" where
  "get_rule r ctx = nth_or_panic (g_rules ctx) r"

definition get_nt :: "rule_or_custom \<Rightarrow> 'h gcontext \<Rightarrow> fault + nat" where
  "get_nt rc ctx = rbind (get_rule (rc_id rc) ctx) (\<lambda>r. Inr (nonterm r))"

definition get_num_children :: "rule_or_custom \<Rightarrow> 'h gcontext \<Rightarrow> fault + nat" where
  "get_num_children rc ctx =
     rbind (get_rule (rc_id rc) ctx) (\<lambda>r. Inr (number_of_nonterms r))"

text \<open>\<open>entry(k).or_insert(v)\<close> on an association list, and \<open>entry(k).or_default().push(v)\<close>.\<close>

definition or_insert :: "'k \<Rightarrow> 'v \<Rightarrow> ('k \<times> 'v) list \<Rightarrow> ('k \<times> 'v) list" where
  "or_insert k v m = (case map_of m k of Some _ \<Rightarrow> m | None \<Rightarrow> m @ [(k, v)])"

fun push_entry :: "'k \<Rightarrow> 'v \<Rightarrow> ('k \<times> 'v list) list \<Rightarrow> ('k \<times> 'v list) list" where
  "push_entry k v [] = [(k, [v])]"
| "push_entry k v ((k', vs) # m) =
     (if k' = k then (k', vs @ [v]) # m else (k', vs) # push_entry k v m)"

definition aquire_nt_id :: "bytes \<Rightarrow> 'h gcontext \<Rightarrow> nat \<times> 'h gcontext" where
  "aquire_nt_id nt ctx =
     (let next_id = length (g_nt_names ctx);
          ids = or_insert nt next_id (g_name_ids ctx);
          i = the (map_of ids nt)
      in (i, ctx\<lparr>g_name_ids := ids, g_nt_names := or_insert i nt (g_nt_names ctx)\<rparr>))"

definition nt_id :: "bytes \<Rightarrow> 'h gcontext \<Rightarrow> fault + nat" where
  "nt_id nt ctx = some_or_panic (map_of (g_name_ids ctx) nt)"

section \<open>Parsing a rule\<close>

text \<open>
  \<open>split_nt_description\<close>: the name in \<open>{NAME}\<close> or \<open>{NAME:anything}\<close>, where
  the expression is \<^verbatim>\<open>^\{([A-Z][a-zA-Z_\-0-9]*)(?::([a-zA-Z_\-0-9]*))?\}$\<close>. Bytes that
  are no UTF-8 string panic one step earlier in the code and fail to match here.
\<close>

definition upper_char :: "u8 \<Rightarrow> bool" where
  "upper_char b \<longleftrightarrow> 65 \<le> b \<and> b \<le> 90"

definition name_char :: "u8 \<Rightarrow> bool" where
  "name_char b \<longleftrightarrow> upper_char b \<or> (97 \<le> b \<and> b \<le> 122) \<or> (48 \<le> b \<and> b \<le> 57) \<or> b = 95 \<or> b = 45"

definition split_nt_description :: "bytes \<Rightarrow> fault + bytes" where
  "split_nt_description m =
     (let body = butlast (tl m); name = takeWhile name_char body; rest = dropWhile name_char body
      in if 2 \<le> length m \<and> hd m = 123 \<and> last m = 125 \<and> name \<noteq> [] \<and> upper_char (hd name)
            \<and> (rest = [] \<or> (hd rest = 58 \<and> list_all name_char (tl rest)))
         then Inr name else Inl Panicked)"

definition from_nt :: "bytes \<Rightarrow> 'h gcontext \<Rightarrow> fault + rule_child \<times> 'h gcontext" where
  "from_nt nt ctx =
     rbind (split_nt_description nt) (\<lambda>name.
     let (i, ctx') = aquire_nt_id name ctx in Inr (NTerm i, ctx'))"

fun unescape :: "bytes \<Rightarrow> bytes" where
  "unescape [] = []"
| "unescape [b] = [b]"
| "unescape (b # c # bs) =
     (if b = 92 \<and> c = 123 then 123 # unescape bs
      else if b = 92 \<and> c = 125 then 125 # unescape bs
      else b # unescape (c # bs))"

text \<open>
  The tokenizer's expression \<^verbatim>\<open>(\{[^}\\]+\})|((?:[^{\\]|\\\{|\\\}|\\)+)\<close> at the front of
  the bytes: its first group, and the longest match of its second one.
\<close>

definition nt_token :: "bytes \<Rightarrow> (bytes \<times> bytes) option" where
  "nt_token bs =
     (case bs of
        [] \<Rightarrow> None
      | b # rest \<Rightarrow>
          (let body = takeWhile (\<lambda>c. c \<noteq> 125 \<and> c \<noteq> 92) rest;
               after = dropWhile (\<lambda>c. c \<noteq> 125 \<and> c \<noteq> 92) rest
           in if b = 123 \<and> body \<noteq> [] \<and> after \<noteq> [] \<and> hd after = 125
              then Some (b # body @ [125], tl after) else None))"

fun lit_token :: "bytes \<Rightarrow> bytes \<times> bytes" where
  "lit_token [] = ([], [])"
| "lit_token [b] = (if b = 123 then ([], [b]) else ([b], []))"
| "lit_token (b # c # bs) =
     (if b = 123 then ([], b # c # bs)
      else if b = 92 \<and> (c = 123 \<or> c = 125)
           then (let (m, rest) = lit_token bs in (b # c # m, rest))
      else (let (m, rest) = lit_token (c # bs) in (b # m, rest)))"

datatype capture = Group1 bytes | Group2 bytes

lemma nt_token_append: "nt_token bs = Some (m, rest) \<Longrightarrow> bs = m @ rest \<and> m \<noteq> []"
proof (cases bs)
  case (Cons b bs')
  let ?P = "\<lambda>c :: u8. c \<noteq> 125 \<and> c \<noteq> 92"
  assume t: "nt_token bs = Some (m, rest)"
  then have "dropWhile ?P bs' = 125 # rest" "m = b # takeWhile ?P bs' @ [125]"
    by (auto simp: nt_token_def Cons Let_def neq_Nil_conv split: if_splits)
  then show ?thesis
    using takeWhile_dropWhile_id [of ?P bs'] Cons by simp
qed (simp add: nt_token_def)

lemma lit_token_append: "lit_token bs = (m, rest) \<Longrightarrow> bs = m @ rest"
  by (induction bs arbitrary: m rest rule: lit_token.induct)
    (auto split: if_splits prod.splits)

function captures :: "bytes \<Rightarrow> capture list" where
  "captures bs =
     (if bs = [] then []
      else case nt_token bs of
        Some (m, rest) \<Rightarrow> Group1 m # captures rest
      | None \<Rightarrow>
          (let (m, rest) = lit_token bs
           in if m = [] then captures (tl bs) else Group2 m # captures rest))"
  by pat_completeness auto

termination
  by (relation "measure length")
    (auto dest: nt_token_append lit_token_append [OF sym])

declare captures.simps [simp del]

fun tokenize_from :: "capture list \<Rightarrow> 'h gcontext \<Rightarrow> fault + rule_child list \<times> 'h gcontext" where
  "tokenize_from [] ctx = Inr ([], ctx)"
| "tokenize_from (Group1 sub # caps) ctx =
     rbind (from_nt sub ctx) (\<lambda>(c, ctx).
     rbind (tokenize_from caps ctx) (\<lambda>(cs, ctx). Inr (c # cs, ctx)))"
| "tokenize_from (Group2 sub # caps) ctx =
     rbind (tokenize_from caps ctx) (\<lambda>(cs, ctx). Inr (Term (unescape sub) # cs, ctx))"

definition tokenize :: "bytes \<Rightarrow> 'h gcontext \<Rightarrow> fault + rule_child list \<times> 'h gcontext" where
  "tokenize format ctx = tokenize_from (captures format) ctx"

definition nts_of :: "rule_child list \<Rightarrow> nat list" where
  "nts_of cs = List.map_filter (\<lambda>c. case c of NTerm n \<Rightarrow> Some n | Term _ \<Rightarrow> None) cs"

definition from_format :: "bytes \<Rightarrow> bytes \<Rightarrow> 'h gcontext \<Rightarrow> fault + 'h rule \<times> 'h gcontext" where
  "from_format nt format ctx =
     rbind (tokenize format ctx) (\<lambda>(children, ctx).
     let (i, ctx) = aquire_nt_id nt ctx
     in Inr (Plain i children (nts_of children), ctx))"

definition from_term :: "nat \<Rightarrow> bytes \<Rightarrow> 'h rule" where
  "from_term ntermid term = Plain ntermid [Term term] []"

text \<open>A regular expression that does not parse panics; \<open>parse\<close> is the library's parser.\<close>

definition from_regex ::
  "(bytes \<Rightarrow> 'h option) \<Rightarrow> bytes \<Rightarrow> bytes \<Rightarrow> 'h gcontext \<Rightarrow> fault + 'h rule \<times> 'h gcontext" where
  "from_regex parse nt regex ctx =
     rbind (some_or_panic (parse regex)) (\<lambda>hir.
     let (i, ctx) = aquire_nt_id nt ctx in Inr (RegExp i hir, ctx))"

definition push_rule :: "nat \<Rightarrow> 'h rule \<Rightarrow> 'h gcontext \<Rightarrow> 'h gcontext" where
  "push_rule ntid r ctx =
     ctx\<lparr>g_rules := g_rules ctx @ [r],
         g_nts_to_rules := push_entry ntid (length (g_rules ctx)) (g_nts_to_rules ctx)\<rparr>"

definition add_rule :: "bytes \<Rightarrow> bytes \<Rightarrow> 'h gcontext \<Rightarrow> fault + nat \<times> 'h gcontext" where
  "add_rule nt format ctx =
     (let rid = length (g_rules ctx)
      in rbind (from_format nt format ctx) (\<lambda>(r, ctx).
         let (ntid, ctx) = aquire_nt_id nt ctx in Inr (rid, push_rule ntid r ctx)))"

definition add_regex ::
  "(bytes \<Rightarrow> 'h option) \<Rightarrow> bytes \<Rightarrow> bytes \<Rightarrow> 'h gcontext \<Rightarrow> fault + nat \<times> 'h gcontext" where
  "add_regex parse nt regex ctx =
     (let rid = length (g_rules ctx)
      in rbind (from_regex parse nt regex ctx) (\<lambda>(r, ctx).
         let (ntid, ctx) = aquire_nt_id nt ctx in Inr (rid, push_rule ntid r ctx)))"

definition add_term_rule :: "bytes \<Rightarrow> bytes \<Rightarrow> 'h gcontext \<Rightarrow> nat \<times> 'h gcontext" where
  "add_term_rule nt term ctx =
     (let rid = length (g_rules ctx); (ntid, ctx) = aquire_nt_id nt ctx
      in (rid, push_rule ntid (from_term ntid term) ctx))"

section \<open>Minimal sizes\<close>

fun sum_min :: "(nat \<rightharpoonup> nat) \<Rightarrow> nat \<Rightarrow> nat list \<Rightarrow> nat option" where
  "sum_min mins res [] = Some res"
| "sum_min mins res (nt # nts) =
     (case mins nt of None \<Rightarrow> None | Some m \<Rightarrow> sum_min mins (res + m) nts)"

definition min_len_for_rule :: "(nat \<rightharpoonup> nat) \<Rightarrow> 'h rule \<Rightarrow> nat option" where
  "min_len_for_rule mins r = sum_min mins 1 (nonterms r)"

text \<open>
  The state of the loops: the sizes known of the nonterminals and of the rules, and
  \<open>something_changed\<close>. The closure given to \<open>retain\<close> reads and writes it; \<open>retain_pass\<close>
  returns the rules it keeps.
\<close>

type_synonym mins = "(nat \<rightharpoonup> nat) \<times> (nat \<rightharpoonup> nat) \<times> bool"

definition known_rule :: "'h rule list \<Rightarrow> nat \<Rightarrow> nat \<Rightarrow> mins \<Rightarrow> mins" where
  "known_rule rules r m st =
     (let (nm, rm, changed) = st;
          nt = nonterm (rules ! r);
          e = (case nm nt of Some e \<Rightarrow> e | None \<Rightarrow> m)
      in if m < e then (nm(nt \<mapsto> m), rm(r \<mapsto> m), True)
         else (nm(nt \<mapsto> e), rm(r \<mapsto> m), changed))"

fun retain_pass :: "'h rule list \<Rightarrow> nat list \<Rightarrow> mins \<Rightarrow> nat list \<times> mins" where
  "retain_pass rules [] st = ([], st)"
| "retain_pass rules (r # rs) st =
     (case min_len_for_rule (fst st) (rules ! r) of
        Some m \<Rightarrow> retain_pass rules rs (known_rule rules r m st)
      | None \<Rightarrow> (let (kept, st') = retain_pass rules rs st in (r # kept, st')))"

lemma length_retain_pass: "length (fst (retain_pass rules rs st)) \<le> length rs"
proof (induction rs arbitrary: st)
  case (Cons r rs)
  then show ?case
    using Cons.IH [of "known_rule rules r m st" for m]
    by (cases "min_len_for_rule (fst st) (rules ! r)")
      (simp_all add: split_def Let_def le_SucI del: split_paired_All)
qed simp

lemma retain_pass_shorter:
  assumes "(kept, st') = retain_pass rules unknown st" "length kept \<noteq> length unknown"
  shows "length kept < length unknown"
  using length_retain_pass [of rules unknown st] assms by (metis fst_conv le_neq_implies_less)

function unknown_loop :: "'h rule list \<Rightarrow> nat list \<Rightarrow> mins \<Rightarrow> fault + mins" where
  "unknown_loop rules unknown st =
     (if unknown = [] then Inr st
      else let (kept, st') = retain_pass rules unknown st
           in if length kept = length unknown then Inl Panicked
              else unknown_loop rules kept st')"
  by pat_completeness auto

termination
proof (relation "measure (\<lambda>(_, unknown, _). length unknown)")
  fix rules :: "'a rule list" and unknown kept :: "nat list" and st st' :: mins and x
  assume x: "x = retain_pass rules unknown st" and k: "(kept, st') = x" and "length kept \<noteq> length unknown"
  then show "((rules, kept, st'), (rules, unknown, st)) \<in> measure (\<lambda>(_, unknown, _). length unknown)"
  proof -
    have "length kept < length unknown" by (rule retain_pass_shorter [OF k [unfolded x]]) fact
    then show ?thesis by simp
  qed
qed simp

declare unknown_loop.simps [simp del]

partial_function (option) min_len_loop :: "'h rule list \<Rightarrow> mins \<Rightarrow> (fault + mins) option" where
  "min_len_loop rules st =
     (let (nm, rm, changed) = st
      in if \<not> changed then Some (Inr st)
         else case unknown_loop rules [0..<length rules] (nm, rm, False) of
                Inl e \<Rightarrow> Some (Inl e)
              | Inr st' \<Rightarrow> min_len_loop rules st')"

declare min_len_loop.simps [code]

text \<open>The comparisons of \<open>sort_by\<close> read the map for both rules.\<close>

fun calc_rule_order_of ::
  "(nat \<rightharpoonup> nat) \<Rightarrow> (nat \<times> nat list) list \<Rightarrow> fault + (nat \<times> nat list) list" where
  "calc_rule_order_of rm [] = Inr []"
| "calc_rule_order_of rm ((nt, rs) # m) =
     (if 2 \<le> length rs \<and> \<not> list_all (\<lambda>r. rm r \<noteq> None) rs then Inl Panicked
      else rbind (calc_rule_order_of rm m) (\<lambda>m'. Inr ((nt, sort_key (\<lambda>r. the (rm r)) rs) # m')))"

definition calc_rule_order :: "'h gcontext \<Rightarrow> fault + 'h gcontext" where
  "calc_rule_order ctx =
     rbind (calc_rule_order_of (g_rule_min ctx) (g_nts_to_rules ctx)) (\<lambda>m.
     Inr (ctx\<lparr>g_nts_to_rules := m\<rparr>))"

definition calc_min_len :: "'h gcontext \<Rightarrow> (fault + 'h gcontext) option" where
  "calc_min_len ctx =
     (case min_len_loop (g_rules ctx) (g_nt_min ctx, g_rule_min ctx, True) of
        None \<Rightarrow> None
      | Some (Inl e) \<Rightarrow> Some (Inl e)
      | Some (Inr (nm, rm, _)) \<Rightarrow>
          Some (calc_rule_order (ctx\<lparr>g_nt_min := nm, g_rule_min := rm\<rparr>)))"

section \<open>Numbers of options\<close>

definition saturating_mul :: "nat \<Rightarrow> nat \<Rightarrow> nat" where
  "saturating_mul a b = min usize_max (a * b)"

definition num_options_for_rule :: "(nat \<rightharpoonup> nat) \<Rightarrow> 'h rule \<Rightarrow> nat" where
  "num_options_for_rule opts r =
     foldl (\<lambda>res nt. saturating_mul res (case opts nt of Some n \<Rightarrow> n | None \<Rightarrow> 1)) 1 (nonterms r)"

fun options_pass ::
  "'h rule list \<Rightarrow> nat list \<Rightarrow> mins \<Rightarrow> mins" where
  "options_pass rules [] st = st"
| "options_pass rules (rid # rids) (no, ro, changed) =
     (let num = num_options_for_rule no (rules ! rid);
          nt = nonterm (rules ! rid);
          e = (case no nt of Some e \<Rightarrow> e | None \<Rightarrow> num)
      in options_pass rules rids
           (if e < num then (no(nt \<mapsto> num), ro(rid \<mapsto> num), True)
            else (no(nt \<mapsto> e), ro(rid \<mapsto> num), changed)))"

partial_function (option) options_loop :: "'h rule list \<Rightarrow> mins \<Rightarrow> mins option" where
  "options_loop rules st =
     (let (no, ro, changed) = st
      in if \<not> changed then Some st
         else options_loop rules (options_pass rules [0..<length rules] (no, ro, False)))"

declare options_loop.simps [code]

definition initial_options :: "'h gcontext \<Rightarrow> nat \<rightharpoonup> nat" where
  "initial_options ctx = (\<lambda>nt. case g_nt_opts ctx nt of Some n \<Rightarrow> Some n
     | None \<Rightarrow> map_option length (map_of (g_nts_to_rules ctx) nt))"

definition calc_num_options :: "'h gcontext \<Rightarrow> 'h gcontext option" where
  "calc_num_options ctx =
     map_option (\<lambda>(no, ro, _). ctx\<lparr>g_nt_opts := no, g_rule_opts := ro\<rparr>)
       (options_loop (g_rules ctx) (initial_options ctx, g_rule_opts ctx, True))"

definition initialize :: "nat \<Rightarrow> 'h gcontext \<Rightarrow> (fault + 'h gcontext) option" where
  "initialize max_len ctx =
     Option.bind (calc_min_len ctx) (\<lambda>res. case res of
         Inl e \<Rightarrow> Some (Inl e)
       | Inr ctx \<Rightarrow> Option.bind (calc_num_options ctx) (\<lambda>ctx.
           Some (Inr (ctx\<lparr>g_max_len := max_len + 2\<rparr>))))"

section \<open>Well-formed contexts\<close>

text \<open>
  The names and the numbers of the nonterminals correspond one to one; every rule is listed under
  its nonterminal, and only there; the nonterminals recorded of a rule are those of its children.
\<close>

definition names_ok :: "'h gcontext \<Rightarrow> bool" where
  "names_ok ctx \<longleftrightarrow> map fst (g_nt_names ctx) = [0..<length (g_nt_names ctx)] \<and>
     g_name_ids ctx = map prod.swap (g_nt_names ctx) \<and> distinct (map snd (g_nt_names ctx))"

primrec rule_ok :: "'h rule \<Rightarrow> bool" where
  "rule_ok (Plain _ children nts) \<longleftrightarrow> nts = nts_of children"
| "rule_ok (RegExp _ _) \<longleftrightarrow> True"

definition listed_ok :: "'h rule list \<Rightarrow> (nat \<times> nat list) list \<Rightarrow> bool" where
  "listed_ok rules m \<longleftrightarrow>
     (\<forall>nt rs. (nt, rs) \<in> set m \<longrightarrow> rs \<noteq> [] \<and>
        (\<forall>r \<in> set rs. r < length rules \<and> nonterm (rules ! r) = nt)) \<and>
     (\<forall>r < length rules. \<exists>rs. map_of m (nonterm (rules ! r)) = Some rs \<and> r \<in> set rs)"

definition ctx_ok :: "'h gcontext \<Rightarrow> bool" where
  "ctx_ok ctx \<longleftrightarrow> names_ok ctx \<and> (\<forall>r \<in> set (g_rules ctx). rule_ok r) \<and>
     listed_ok (g_rules ctx) (g_nts_to_rules ctx)"

lemma ctx_ok_new: "ctx_ok new_context"
  by (simp add: ctx_ok_def names_ok_def listed_ok_def new_context_def)

lemma names_ok_cong:
  "g_nt_names ctx' = g_nt_names ctx \<Longrightarrow> g_name_ids ctx' = g_name_ids ctx \<Longrightarrow>
    names_ok ctx' = names_ok ctx"
  by (simp add: names_ok_def)

lemma aquire_nt_id_keeps:
  assumes "aquire_nt_id nt ctx = (i, ctx')"
  shows "g_rules ctx' = g_rules ctx" "g_nts_to_rules ctx' = g_nts_to_rules ctx"
    "g_nt_min ctx' = g_nt_min ctx"
  using assms by (auto simp: aquire_nt_id_def Let_def)

lemma map_of_swap_None: "map_of (map prod.swap m) k = None \<longleftrightarrow> k \<notin> snd ` set m"
  by (force simp: map_of_eq_None_iff)

lemma aquire_nt_id_known:
  assumes "names_ok ctx" "map_of (g_name_ids ctx) nt = Some i"
  shows "aquire_nt_id nt ctx = (i, ctx)"
proof -
  have "(i, nt) \<in> set (g_nt_names ctx)"
    using assms map_of_SomeD [OF assms(2)] by (auto simp: names_ok_def)
  then have "i \<in> fst ` set (g_nt_names ctx)"
    by (metis fst_conv image_eqI)
  then obtain nm where "map_of (g_nt_names ctx) i = Some nm"
    by (metis map_of_eq_None_iff option.exhaust)
  with assms(2) show ?thesis
    by (simp add: aquire_nt_id_def Let_def or_insert_def)
qed

lemma aquire_nt_id_fresh:
  assumes "names_ok ctx" "map_of (g_name_ids ctx) nt = None"
  shows "aquire_nt_id nt ctx = (length (g_nt_names ctx),
     ctx\<lparr>g_name_ids := g_name_ids ctx @ [(nt, length (g_nt_names ctx))],
         g_nt_names := g_nt_names ctx @ [(length (g_nt_names ctx), nt)]\<rparr>)"
proof -
  let ?n = "length (g_nt_names ctx)"
  have "fst ` set (g_nt_names ctx) = set [0..<?n]"
    using assms(1) by (metis names_ok_def set_map)
  then have "map_of (g_nt_names ctx) ?n = None"
    by (simp add: map_of_eq_None_iff)
  then show ?thesis
    using assms(2) by (simp add: aquire_nt_id_def Let_def or_insert_def map_add_def)
qed

lemma aquire_nt_id_ok:
  assumes ok: "names_ok ctx" and a: "aquire_nt_id nt ctx = (i, ctx')"
  shows "names_ok ctx'" and "map_of (g_name_ids ctx') nt = Some i"
    and "map_of (g_name_ids ctx) n = Some j \<Longrightarrow> map_of (g_name_ids ctx') n = Some j"
proof -
  have "names_ok ctx' \<and> map_of (g_name_ids ctx') nt = Some i \<and>
    (map_of (g_name_ids ctx) n = Some j \<longrightarrow> map_of (g_name_ids ctx') n = Some j)"
  proof (cases "map_of (g_name_ids ctx) nt")
    case None
    then have new: "nt \<notin> set (map snd (g_nt_names ctx))"
      using ok by (simp add: names_ok_def map_of_swap_None)
    have c: "ctx' = ctx\<lparr>g_name_ids := g_name_ids ctx @ [(nt, i)], g_nt_names := g_nt_names ctx @ [(i, nt)]\<rparr>"
      and i: "i = length (g_nt_names ctx)"
      using a aquire_nt_id_fresh [OF ok None] by auto
    have "names_ok ctx'"
      using ok new by (simp add: c i names_ok_def)
    moreover have "map_of (g_name_ids ctx') nt = Some i"
      using None by (simp add: c map_add_def)
    moreover have "map_of (g_name_ids ctx) n = Some j \<longrightarrow> map_of (g_name_ids ctx') n = Some j"
      using None by (auto simp: c map_add_def)
    ultimately show ?thesis by blast
  qed (use aquire_nt_id_known [OF ok] a ok in auto)
  then show "names_ok ctx'" "map_of (g_name_ids ctx') nt = Some i"
    "map_of (g_name_ids ctx) n = Some j \<Longrightarrow> map_of (g_name_ids ctx') n = Some j" by blast+
qed

text \<open>Two names with one number are the same name.\<close>

lemma names_ok_inj:
  assumes "names_ok ctx" "map_of (g_name_ids ctx) a = Some i" "map_of (g_name_ids ctx) b = Some i"
  shows "a = b"
proof -
  have d: "distinct (map fst (g_nt_names ctx))"
    using assms(1) by (metis names_ok_def distinct_upt)
  have "(i, a) \<in> set (g_nt_names ctx)" "(i, b) \<in> set (g_nt_names ctx)"
    using assms map_of_SomeD [OF assms(2)] map_of_SomeD [OF assms(3)]
    by (auto simp: names_ok_def)
  with d show ?thesis by (meson eq_key_imp_eq_value)
qed

definition same_rules :: "'h gcontext \<Rightarrow> 'h gcontext \<Rightarrow> bool" where
  "same_rules ctx ctx' \<longleftrightarrow> g_rules ctx' = g_rules ctx \<and>
     g_nts_to_rules ctx' = g_nts_to_rules ctx \<and> g_nt_min ctx' = g_nt_min ctx"

lemma tokenize_from_keeps:
  "names_ok ctx \<Longrightarrow> tokenize_from caps ctx = Inr (cs, ctx') \<Longrightarrow> names_ok ctx' \<and> same_rules ctx ctx'"
proof (induction caps ctx arbitrary: cs ctx' rule: tokenize_from.induct)
  case (1 ctx)
  then show ?case by (simp add: same_rules_def)
next
  case (2 sub caps ctx)
  obtain c ctx1 cs2 where 1: "from_nt sub ctx = Inr (c, ctx1)"
    and 2: "tokenize_from caps ctx1 = Inr (cs2, ctx')"
    using "2.prems"(2) by (auto simp: rbind_Inr_iff)
  from 1 obtain name i where "aquire_nt_id name ctx = (i, ctx1)"
    by (auto simp: from_nt_def run_simps)
  with "2.prems"(1) have "names_ok ctx1 \<and> same_rules ctx ctx1"
    by (auto simp: same_rules_def dest: aquire_nt_id_ok(1) aquire_nt_id_keeps)
  with "2.IH" [OF _ 2] show ?case by (auto simp: same_rules_def)
next
  case (3 sub caps ctx)
  then show ?case by (auto simp: rbind_Inr_iff)
qed

lemma map_of_push_entry:
  "map_of (push_entry k v m) k' =
     (if k' = k then Some (case map_of m k of Some vs \<Rightarrow> vs @ [v] | None \<Rightarrow> [v]) else map_of m k')"
  by (induction k v m rule: push_entry.induct) auto

lemma set_push_entry:
  "(k', vs) \<in> set (push_entry k v m) \<Longrightarrow>
     (k', vs) \<in> set m \<or> (k' = k \<and> (vs = [v] \<or> (\<exists>us. (k, us) \<in> set m \<and> vs = us @ [v])))"
  by (induction k v m rule: push_entry.induct) (auto split: if_splits)

lemma listed_ok_push:
  assumes ok: "listed_ok rules m" and nt: "nonterm r = nt"
  shows "listed_ok (rules @ [r]) (push_entry nt (length rules) m)"
  unfolding listed_ok_def
proof (intro conjI allI impI)
  fix k rs
  assume "(k, rs) \<in> set (push_entry nt (length rules) m)"
  then consider "(k, rs) \<in> set m" | "k = nt" "rs = [length rules]"
    | us where "k = nt" "(nt, us) \<in> set m" "rs = us @ [length rules]"
    by (auto dest: set_push_entry)
  then show "rs \<noteq> []" and "\<forall>x \<in> set rs. x < length (rules @ [r]) \<and> nonterm ((rules @ [r]) ! x) = k"
    using ok nt by (cases; fastforce simp: listed_ok_def nth_append)+
next
  fix x
  assume "x < length (rules @ [r])"
  then consider "x < length rules" | "x = length rules" by fastforce
  then show "\<exists>rs. map_of (push_entry nt (length rules) m) (nonterm ((rules @ [r]) ! x)) = Some rs
      \<and> x \<in> set rs"
  proof cases
    case 1
    then obtain rs where "map_of m (nonterm (rules ! x)) = Some rs" "x \<in> set rs"
      using ok by (auto simp: listed_ok_def)
    with 1 show ?thesis by (auto simp: map_of_push_entry nth_append)
  qed (use nt in \<open>auto simp: map_of_push_entry split: option.splits\<close>)
qed

lemma push_rule_ok:
  assumes "ctx_ok ctx" "rule_ok r" "nonterm r = nt"
  shows "ctx_ok (push_rule nt r ctx)"
  using assms listed_ok_push [of "g_rules ctx" "g_nts_to_rules ctx" r nt]
  by (auto simp: ctx_ok_def push_rule_def names_ok_def)

lemma ctx_ok_same_rules:
  "ctx_ok ctx \<Longrightarrow> same_rules ctx ctx' \<Longrightarrow> names_ok ctx' \<Longrightarrow> ctx_ok ctx'"
  by (simp add: ctx_ok_def same_rules_def)

lemma ctx_ok_aquire:
  assumes "ctx_ok ctx" "aquire_nt_id nt ctx = (i, ctx')"
  shows "ctx_ok ctx'"
proof (rule ctx_ok_same_rules [OF assms(1)])
  show "same_rules ctx ctx'" using assms(2) by (simp add: same_rules_def aquire_nt_id_keeps)
  show "names_ok ctx'" using assms by (auto simp: ctx_ok_def dest: aquire_nt_id_ok(1))
qed

lemma aquire_twice:
  assumes "ctx_ok ctx" "aquire_nt_id nt ctx = (i, ctx')"
  shows "aquire_nt_id nt ctx' = (i, ctx')"
  using assms by (auto intro!: aquire_nt_id_known simp: ctx_ok_def dest: aquire_nt_id_ok(1,2))

lemma from_format_ok:
  assumes "ctx_ok ctx" "from_format nt format ctx = Inr (r, ctx')"
  shows "ctx_ok ctx'" "rule_ok r" "aquire_nt_id nt ctx' = (nonterm r, ctx')"
    "g_rules ctx' = g_rules ctx" "g_nt_min ctx' = g_nt_min ctx"
    "map_of (g_name_ids ctx') nt = Some (nonterm r)"
proof -
  obtain cs ctx1 i where t: "tokenize_from (captures format) ctx = Inr (cs, ctx1)"
    and a: "aquire_nt_id nt ctx1 = (i, ctx')" and r: "r = Plain i cs (nts_of cs)"
    using assms(2) by (auto simp: from_format_def tokenize_def run_simps)
  have ok1: "ctx_ok ctx1" and 1: "g_rules ctx1 = g_rules ctx" "g_nt_min ctx1 = g_nt_min ctx"
    using tokenize_from_keeps [OF _ t] assms(1) ctx_ok_same_rules
    by (auto simp: ctx_ok_def same_rules_def)
  then show "ctx_ok ctx'" "rule_ok r" "aquire_nt_id nt ctx' = (nonterm r, ctx')"
    "g_rules ctx' = g_rules ctx" "g_nt_min ctx' = g_nt_min ctx"
    using a r by (auto intro: ctx_ok_aquire aquire_twice simp: aquire_nt_id_keeps [OF a])
  show "map_of (g_name_ids ctx') nt = Some (nonterm r)"
    using aquire_nt_id_ok(2) [OF _ a] ok1 r by (simp add: ctx_ok_def)
qed

lemma add_rule_ok:
  assumes "ctx_ok ctx" "add_rule nt format ctx = Inr (rid, ctx')"
  shows "ctx_ok ctx'" and "g_nt_min ctx' = g_nt_min ctx"
    and "\<exists>r. g_rules ctx' = g_rules ctx @ [r] \<and> map_of (g_name_ids ctx') nt = Some (nonterm r)"
proof -
  obtain r ctx1 j ctx2 where f: "from_format nt format ctx = Inr (r, ctx1)"
    and a: "aquire_nt_id nt ctx1 = (j, ctx2)" and c: "ctx' = push_rule j r ctx2"
    using assms(2) by (auto simp: add_rule_def run_simps)
  have j: "j = nonterm r" "ctx2 = ctx1"
    using from_format_ok(3) [OF assms(1) f] a by simp_all
  then show "ctx_ok ctx'" "g_nt_min ctx' = g_nt_min ctx"
    "\<exists>r. g_rules ctx' = g_rules ctx @ [r] \<and> map_of (g_name_ids ctx') nt = Some (nonterm r)"
    using from_format_ok [OF assms(1) f] c by (simp_all add: push_rule_ok, simp_all add: push_rule_def)
qed

lemma add_regex_ok:
  assumes "ctx_ok ctx" "add_regex parse nt regex ctx = Inr (rid, ctx')"
  shows "ctx_ok ctx'"
proof -
  obtain i h ctx1 j ctx2 where a: "aquire_nt_id nt ctx = (i, ctx1)"
    and b: "aquire_nt_id nt ctx1 = (j, ctx2)" and c: "ctx' = push_rule j (RegExp i h) ctx2"
    using assms(2) by (auto simp: add_regex_def from_regex_def run_simps)
  have "j = i" "ctx2 = ctx1"
    using aquire_twice [OF assms(1) a] b by simp_all
  with ctx_ok_aquire [OF assms(1) a] c show ?thesis
    by (simp add: push_rule_ok)
qed

lemma add_term_rule_ok:
  "ctx_ok ctx \<Longrightarrow> add_term_rule nt term ctx = (rid, ctx') \<Longrightarrow> ctx_ok ctx'"
  by (auto simp: add_term_rule_def from_term_def nts_of_def List.map_filter_def
      split: prod.splits intro!: push_rule_ok dest: ctx_ok_aquire)


section \<open>The rules of a grammar\<close>

text \<open>
  How a grammar comes to be: a sequence of additions to the empty context.
\<close>

datatype addition = AddRule bytes bytes | AddRegex bytes bytes | AddTerm bytes bytes

fun add_all :: "(bytes \<Rightarrow> 'h option) \<Rightarrow> addition list \<Rightarrow> 'h gcontext \<Rightarrow> fault + 'h gcontext" where
  "add_all parse [] ctx = Inr ctx"
| "add_all parse (AddRule nt f # as) ctx =
     rbind (add_rule nt f ctx) (\<lambda>(_, ctx). add_all parse as ctx)"
| "add_all parse (AddRegex nt re # as) ctx =
     rbind (add_regex parse nt re ctx) (\<lambda>(_, ctx). add_all parse as ctx)"
| "add_all parse (AddTerm nt t # as) ctx = add_all parse as (snd (add_term_rule nt t ctx))"

lemma add_all_ok: "ctx_ok ctx \<Longrightarrow> add_all parse as ctx = Inr ctx' \<Longrightarrow> ctx_ok ctx'"
proof (induction as arbitrary: ctx)
  case (Cons a as)
  show ?case
  proof (cases a)
    case (AddRule nt f)
    then show ?thesis
      using Cons by (auto simp: run_simps dest: add_rule_ok)
  next
    case (AddRegex nt re)
    then show ?thesis
      using Cons by (auto simp: run_simps dest: add_regex_ok)
  next
    case (AddTerm nt t)
    then show ?thesis
      using Cons add_term_rule_ok [OF Cons.prems(1), of nt t] by (metis add_all.simps(4) prod.collapse)
  qed
qed simp

text \<open>
  A grammar to try the definitions on: \<^verbatim>\<open>S\<close> derives \<^verbatim>\<open>a{S}\<close> or \<^verbatim>\<open>b\<close>.
\<close>

definition ab_context :: "unit gcontext" where
  "ab_context =
     (case add_all (\<lambda>_. None) [AddRule [83] [97, 123, 83, 125], AddRule [83] [98]] new_context of
        Inr ctx \<Rightarrow> ctx | Inl _ \<Rightarrow> new_context)"

lemma two_rules_ok:
  assumes "add_all parse [AddRule nt f, AddRule nt' f'] new_context = Inr ctx"
  shows "ctx_ok ctx \<and> g_nt_min ctx = Map.empty"
proof -
  obtain r1 c1 r2 where 1: "add_rule nt f new_context = Inr (r1, c1)"
    and 2: "add_rule nt' f' c1 = Inr (r2, ctx)"
    using assms by (auto simp: run_simps)
  note ok = add_rule_ok(1,2) [OF ctx_ok_new 1]
  from add_rule_ok(1,2) [OF ok(1) 2] ok(2) show ?thesis by (simp add: new_context_def)
qed

lemma ab_context_ok: "ctx_ok ab_context" "g_nt_min ab_context = Map.empty"
  using two_rules_ok [of "\<lambda>_. None" "[83]" "[97, 123, 83, 125]" "[83]" "[98]"] ctx_ok_new
  by (auto simp: ab_context_def new_context_def split: sum.splits simp del: add_all.simps)

lemma ab_context_fields:
  "g_rules ab_context = [Plain 0 [Term [97], NTerm 0] [0], Plain 0 [Term [98]] []]"
  "g_name_ids ab_context = [([83], 0)]"
  by code_simp+

section \<open>Parsing prints back\<close>

text \<open>
  A rule is written with its terminals escaped and its nonterminals in braces. What can be written
  this way: terminals that are not empty and hold no backslash, never two in a row, and
  nonterminals with a proper name.
\<close>

fun escape_braces :: "bytes \<Rightarrow> bytes" where
  "escape_braces [] = []"
| "escape_braces (b # bs) = (if b = 123 \<or> b = 125 then 92 # b # escape_braces bs else b # escape_braces bs)"

definition proper_name :: "bytes \<Rightarrow> bool" where
  "proper_name name \<longleftrightarrow> name \<noteq> [] \<and> upper_char (hd name) \<and> list_all name_char name"

fun print_children :: "(nat \<Rightarrow> bytes) \<Rightarrow> rule_child list \<Rightarrow> bytes" where
  "print_children name [] = []"
| "print_children name (Term d # cs) = escape_braces d @ print_children name cs"
| "print_children name (NTerm n # cs) = 123 # name n @ 125 # print_children name cs"

fun printable :: "(nat \<Rightarrow> bytes) \<Rightarrow> rule_child list \<Rightarrow> bool" where
  "printable name [] = True"
| "printable name (Term d # cs) = (d \<noteq> [] \<and> 92 \<notin> set d \<and> printable name cs \<and>
     (case cs of Term _ # _ \<Rightarrow> False | _ \<Rightarrow> True))"
| "printable name (NTerm n # cs) = (proper_name (name n) \<and> printable name cs)"

lemma name_char_plain: "name_char b \<Longrightarrow> b \<noteq> 123 \<and> b \<noteq> 125 \<and> b \<noteq> 92 \<and> b \<noteq> 58"
  by (auto simp: name_char_def upper_char_def)

lemma split_proper_name:
  assumes "proper_name name"
  shows "split_nt_description (123 # name @ [125]) = Inr name"
proof -
  have "takeWhile name_char name = name" "dropWhile name_char name = []"
    using assms by (simp_all add: proper_name_def list_all_iff)
  with assms show ?thesis
    by (simp add: split_nt_description_def Let_def proper_name_def del: takeWhile_eq_all_conv
        dropWhile_eq_Nil_conv)
qed

lemma nt_token_name:
  assumes "proper_name name"
  shows "nt_token (123 # name @ 125 # rest) = Some (123 # name @ [125], rest)"
proof -
  let ?P = "\<lambda>c :: u8. c \<noteq> 125 \<and> c \<noteq> 92"
  have "\<forall>c \<in> set name. ?P c"
    using assms name_char_plain by (auto simp: proper_name_def list_all_iff)
  then have "takeWhile ?P (name @ 125 # rest) = name" "dropWhile ?P (name @ 125 # rest) = 125 # rest"
    by (simp_all add: takeWhile_append dropWhile_append)
  with assms show ?thesis
    by (simp add: nt_token_def Let_def proper_name_def)
qed

lemma escape_unescape: "92 \<notin> set d \<Longrightarrow> unescape (escape_braces d) = d"
proof (induction d)
  case (Cons b d)
  then show ?case
    by (cases d) auto
qed simp

lemma lit_token_escape:
  assumes "rest = [] \<or> hd rest = 123"
  shows "92 \<notin> set d \<Longrightarrow> lit_token (escape_braces d @ rest) = (escape_braces d, rest)"
proof (induction d)
  case Nil
  with assms show ?case
    by (cases rest rule: lit_token.cases) auto
next
  case (Cons b d)
  then show ?case
    by (cases "escape_braces d @ rest") auto
qed

lemma captures_name:
  "proper_name name \<Longrightarrow>
     captures (123 # name @ 125 # rest) = Group1 (123 # name @ [125]) # captures rest"
  by (simp add: captures.simps [of "123 # name @ 125 # rest"] nt_token_name)

lemma captures_literal:
  assumes "d \<noteq> []" "92 \<notin> set d" "rest = [] \<or> hd rest = 123"
  shows "captures (escape_braces d @ rest) = Group2 (escape_braces d) # captures rest"
proof -
  have e: "escape_braces d \<noteq> []" "hd (escape_braces d) \<noteq> 123"
    using assms(1) by (cases d; simp)+
  then have "nt_token (escape_braces d @ rest) = None"
    by (cases "escape_braces d") (simp_all add: nt_token_def Let_def)
  then show ?thesis
    using e lit_token_escape [OF assms(3,2)] by (subst captures.simps) simp
qed

lemma tokenize_print:
  assumes "names_ok ctx"
  shows "printable name cs \<Longrightarrow> (\<And>n. NTerm n \<in> set cs \<Longrightarrow> map_of (g_name_ids ctx) (name n) = Some n) \<Longrightarrow>
    tokenize_from (captures (print_children name cs)) ctx = Inr (cs, ctx)"
proof (induction name cs rule: print_children.induct)
  case (1 name)
  then show ?case by (simp add: captures.simps)
next
  case (2 name d cs)
  have "print_children name cs = [] \<or> hd (print_children name cs) = 123"
    using "2.prems"(1) by (cases cs; cases "hd cs") auto
  with 2 show ?case
    by (simp add: captures_literal escape_unescape)
next
  case (3 name n cs)
  then have "aquire_nt_id (name n) ctx = (n, ctx)"
    by (simp add: aquire_nt_id_known [OF assms])
  with 3 show ?case
    by (simp add: captures_name from_nt_def split_proper_name)
qed



end
