(* ===== verification/DerivTrees.thy ===== *)
theory DerivTrees
  imports Grammars
begin

text \<open>
  The trees of the nautilus fuzzer (\<^verbatim>\<open>common/nautilus/grammartec/tree.rs\<close>): a
  derivation is the vector of its rules in preorder, with the sizes of the subtrees and the parents
  beside it. The abstract side is the type \<open>dtree\<close> of derivation trees; the functions on
  forests (lists of trees) that start with \<open>f\<close> say what the vectors hold.

  The lemmas: \<open>from_rule_vec\<close> computes the exact sizes and parents of every derivation,
  unparsing gives the word the derivation stands for, and replacing a subtree by one of the same
  nonterminal gives a derivation again.
\<close>

section \<open>Derivation trees\<close>

datatype dtree = Node rule_or_custom "dtree list"

fun fflat :: "dtree list \<Rightarrow> rule_or_custom list" where
  "fflat [] = []"
| "fflat (Node rc ts # ds) = rc # fflat ts @ fflat ds"

definition fsize :: "dtree list \<Rightarrow> nat" where
  "fsize ds = length (fflat ds)"

lemma fsize_simps [simp]: "fsize [] = 0" "fsize (Node rc ts # ds) = Suc (fsize ts + fsize ds)"
  by (simp_all add: fsize_def)

lemma length_fflat [simp]: "length (fflat ds) = fsize ds"
  by (simp add: fsize_def)

lemma fflat_append [simp]: "fflat (ds @ es) = fflat ds @ fflat es"
  by (induction ds rule: fflat.induct) simp_all

lemma fsize_append [simp]: "fsize (ds @ es) = fsize ds + fsize es"
  by (simp only: fsize_def fflat_append length_append)

text \<open>The sizes of the subtrees and the parents, for a forest that starts at node \<open>i\<close> below \<open>p\<close>.\<close>

fun fsizes :: "dtree list \<Rightarrow> nat list" where
  "fsizes [] = []"
| "fsizes (Node rc ts # ds) = Suc (fsize ts) # fsizes ts @ fsizes ds"

fun fparents :: "nat \<Rightarrow> nat \<Rightarrow> dtree list \<Rightarrow> nat list" where
  "fparents i p [] = []"
| "fparents i p (Node rc ts # ds) =
     p # fparents (Suc i) i ts @ fparents (Suc (i + fsize ts)) p ds"

lemma length_fsizes [simp]: "length (fsizes ds) = fsize ds"
  by (induction ds rule: fsizes.induct) simp_all

lemma length_fparents [simp]: "length (fparents i p ds) = fsize ds"
  by (induction i p ds rule: fparents.induct) simp_all

text \<open>
  The forest derives the nonterminals: each root's rule expands the nonterminal it stands for,
  and its subtrees derive the rule's nonterminals. An entry carries its own text exactly when its
  rule is a regular expression.
\<close>

definition entry_fits :: "rule_or_custom \<Rightarrow> 'h rule \<Rightarrow> bool" where
  "entry_fits rc r \<longleftrightarrow> ((\<exists>d. rc = Custom (rc_id rc) d) \<longleftrightarrow> (\<exists>nt h. r = RegExp nt h))"

fun derives :: "'h rule list \<Rightarrow> nat list \<Rightarrow> dtree list \<Rightarrow> bool" where
  "derives rules [] [] \<longleftrightarrow> True"
| "derives rules (nt # nts) (Node rc ts # ds) \<longleftrightarrow>
     rc_id rc < length rules \<and> entry_fits rc (rules ! rc_id rc) \<and>
     nonterm (rules ! rc_id rc) = nt \<and> derives rules (nonterms (rules ! rc_id rc)) ts \<and>
     derives rules nts ds"
| "derives rules _ _ \<longleftrightarrow> False"

lemma derives_length: "derives rules nts ds \<Longrightarrow> length ds = length nts"
  by (induction rules nts ds rule: derives.induct) auto

lemma derives_NilL [simp]: "derives rules [] ds \<longleftrightarrow> ds = []"
  by (cases ds) auto

lemma derives_NilR [simp]: "derives rules nts [] \<longleftrightarrow> nts = []"
  by (cases nts) auto

lemma derives_Cons:
  "derives rules (nt # nts) (d # ds) \<longleftrightarrow> derives rules [nt] [d] \<and> derives rules nts ds"
  by (cases d) auto

lemma derives_append:
  "length nts = length ds \<Longrightarrow>
     derives rules (nts @ nts') (ds @ ds') \<longleftrightarrow> derives rules nts ds \<and> derives rules nts' ds'"
proof (induction nts ds rule: list_induct2)
  case (Cons nt nts d ds)
  then show ?case
    using derives_Cons [of rules nt "nts @ nts'" d "ds @ ds'"] derives_Cons [of rules nt nts d ds]
    by simp
qed simp

section \<open>The vectors of a tree\<close>

record tree =
  t_rules :: "rule_or_custom list"
  t_sizes :: "nat list"
  t_parents :: "nat list"

definition tree_of :: "dtree list \<Rightarrow> tree" where
  "tree_of ds = \<lparr>t_rules = fflat ds, t_sizes = fsizes ds, t_parents = fparents 0 0 ds\<rparr>"

definition tree_size :: "tree \<Rightarrow> nat" where
  "tree_size t = length (t_rules t)"

definition get_rule_or_custom :: "tree \<Rightarrow> nat \<Rightarrow> fault + rule_or_custom" where
  "get_rule_or_custom t n = nth_or_panic (t_rules t) n"

definition get_rule_id :: "tree \<Rightarrow> nat \<Rightarrow> fault + nat" where
  "get_rule_id t n = rbind (nth_or_panic (t_rules t) n) (\<lambda>rc. Inr (rc_id rc))"

definition get_rule_at :: "(nat \<Rightarrow> fault + rule_or_custom) \<Rightarrow> nat \<Rightarrow> 'h gcontext \<Rightarrow> fault + 'h rule" where
  "get_rule_at at n ctx = rbind (at n) (\<lambda>rc. get_rule (rc_id rc) ctx)"

definition get_nonterm_id :: "tree \<Rightarrow> nat \<Rightarrow> 'h gcontext \<Rightarrow> fault + nat" where
  "get_nonterm_id t n ctx = rbind (get_rule_at (get_rule_or_custom t) n ctx) (\<lambda>r. Inr (nonterm r))"

definition subtree_size :: "tree \<Rightarrow> nat \<Rightarrow> fault + nat" where
  "subtree_size t n = nth_or_panic (t_sizes t) n"

definition get_parent :: "tree \<Rightarrow> nat \<Rightarrow> fault + nat option" where
  "get_parent t n =
     (if n = 0 then Inr None else rbind (nth_or_panic (t_parents t) n) (\<lambda>p. Inr (Some p)))"

text \<open>
  \<open>calc_parents\<close> and \<open>calc_sizes\<close>. The stack's top is the head of the list. Every parent the
  first loop writes is the index of an entry before it, so the second one stays within the vectors.
\<close>

fun calc_parents_from ::
  "'h gcontext \<Rightarrow> nat \<Rightarrow> rule_or_custom list \<Rightarrow> (nat \<times> nat) list \<Rightarrow> nat list \<Rightarrow> fault + nat list" where
  "calc_parents_from ctx i [] stack parents = Inr parents"
| "calc_parents_from ctx i (rc # rcs) stack parents =
     rbind (get_rule (rc_id rc) ctx) (\<lambda>rule.
     case stack of
       [] \<Rightarrow> Inl Panicked
     | (nterm_id, node) # stack' \<Rightarrow>
         if nterm_id = nonterm rule
         then calc_parents_from ctx (Suc i) rcs
                (map (\<lambda>nt. (nt, i)) (nonterms rule) @ stack') (parents[i := node])
         else Inl Panicked)"

definition calc_parents :: "'h gcontext \<Rightarrow> tree \<Rightarrow> fault + tree" where
  "calc_parents ctx t =
     (if tree_size t = 0 then Inr t
      else rbind (get_rule_at (get_rule_or_custom t) 0 ctx) (\<lambda>r.
           rbind (calc_parents_from ctx 0 (t_rules t) [(nonterm r, 0)] (t_parents t)) (\<lambda>ps.
           Inr (t\<lparr>t_parents := ps\<rparr>))))"

definition add_size :: "nat list \<Rightarrow> nat \<Rightarrow> nat list \<Rightarrow> nat list" where
  "add_size parents i sizes = sizes[parents ! i := sizes ! (parents ! i) + sizes ! i]"

definition calc_sizes :: "tree \<Rightarrow> tree" where
  "calc_sizes t =
     t\<lparr>t_sizes := fold (add_size (t_parents t)) (rev [1..<tree_size t])
         (map (\<lambda>_. 1) (t_sizes t))\<rparr>"

definition from_rule_vec :: "rule_or_custom list \<Rightarrow> 'h gcontext \<Rightarrow> fault + tree" where
  "from_rule_vec rules ctx =
     (let res = \<lparr>t_rules = rules, t_sizes = replicate (length rules) 0,
                 t_parents = replicate (length rules) 0\<rparr>
      in if rules = [] then Inr res
         else rbind (calc_parents ctx res) (\<lambda>res. Inr (calc_sizes res)))"

section \<open>from_rule_vec is exact\<close>

lemma overwrite_overwrite:
  assumes "k + length a + length b \<le> length xs"
  shows "overwrite (overwrite xs k a) (k + length a) b = overwrite xs k (a @ b)"
proof (rule nth_equalityI)
  fix j
  assume "j < length (overwrite (overwrite xs k a) (k + length a) b)"
  with assms show "overwrite (overwrite xs k a) (k + length a) b ! j = overwrite xs k (a @ b) ! j"
    by (auto simp: nth_overwrite nth_append)
qed (use assms in simp)

lemma overwrite_update:
  assumes "Suc k + length a \<le> length xs"
  shows "overwrite (xs[k := x]) (Suc k) a = overwrite xs k (x # a)"
proof (rule nth_equalityI)
  fix j
  assume "j < length (overwrite (xs[k := x]) (Suc k) a)"
  with assms show "overwrite (xs[k := x]) (Suc k) a ! j = overwrite xs k (x # a) ! j"
    by (cases j k rule: linorder_cases) (auto simp: nth_overwrite nth_Cons')
qed (use assms in simp)

lemma calc_parents_from_forest:
  assumes "derives (g_rules ctx) nts ds" "i + fsize ds \<le> length parents"
  shows "calc_parents_from ctx i (fflat ds @ rest) (map (\<lambda>nt. (nt, p)) nts @ stack) parents =
    calc_parents_from ctx (i + fsize ds) rest stack (overwrite parents i (fparents i p ds))"
  using assms
proof (induction "g_rules ctx" nts ds arbitrary: i p rest stack parents rule: derives.induct)
  case (2 nt nts rc ts ds)
  let ?r = "g_rules ctx ! rc_id rc"
  have r: "get_rule (rc_id rc) ctx = Inr ?r" "nonterm ?r = nt"
    using "2.prems"(1) by (simp_all add: get_rule_def)
  let ?ps = "overwrite (parents[i := p]) (Suc i) (fparents (Suc i) i ts)"
  have "calc_parents_from ctx i (fflat (Node rc ts # ds) @ rest) (map (\<lambda>nt. (nt, p)) (nt # nts) @ stack)
      parents = calc_parents_from ctx (Suc i) (fflat ts @ fflat ds @ rest)
        (map (\<lambda>nt. (nt, i)) (nonterms ?r) @ map (\<lambda>nt. (nt, p)) nts @ stack) (parents[i := p])"
    by (simp add: r)
  also have "\<dots> = calc_parents_from ctx (Suc i + fsize ts) (fflat ds @ rest)
        (map (\<lambda>nt. (nt, p)) nts @ stack) ?ps"
    by (rule "2.hyps"(1)) (use "2.prems" in simp_all)
  also have "\<dots> = calc_parents_from ctx (Suc i + fsize ts + fsize ds) rest stack
        (overwrite ?ps (Suc i + fsize ts) (fparents (Suc i + fsize ts) p ds))"
    by (rule "2.hyps"(2)) (use "2.prems" in simp_all)
  also have "overwrite ?ps (Suc i + fsize ts) (fparents (Suc i + fsize ts) p ds) =
      overwrite parents i (fparents i p (Node rc ts # ds))"
    using overwrite_overwrite [of "Suc i" "fparents (Suc i) i ts" "fparents (Suc i + fsize ts) p ds"
        "parents[i := p]"] "2.prems"(2) by (simp add: overwrite_update)
  finally show ?case by (simp only: fsize_simps add_Suc add_Suc_right add.assoc)
qed simp_all

text \<open>The sizes, from the last node of the forest to its first.\<close>

lemma fold_add_size_forest:
  assumes "p < i" "length pre = i"
    and "\<And>k. k < fsize ds \<Longrightarrow> parents ! (i + k) = fparents i p ds ! k"
  shows "fold (add_size parents) (rev [i..<i + fsize ds]) (pre @ replicate (fsize ds) 1 @ post) =
    pre[p := pre ! p + fsize ds] @ fsizes ds @ post"
  using assms
proof (induction i p ds arbitrary: pre post rule: fparents.induct)
  case (2 i p rc ts ds)
  let ?j = "Suc (i + fsize ts)"
  have par_ts: "parents ! (Suc i + k) = fparents (Suc i) i ts ! k" if "k < fsize ts" for k
    using "2.prems"(3) [of "Suc k"] that by (simp add: nth_append)
  have par_ds: "parents ! (?j + k) = fparents ?j p ds ! k" if "k < fsize ds" for k
    using "2.prems"(3) [of "Suc (fsize ts + k)"] that by (simp add: nth_append add.assoc)
  have par_i: "parents ! i = p"
    using "2.prems"(3) [of 0] by simp
  have idx: "rev [i..<i + fsize (Node rc ts # ds)] =
      rev [?j..<?j + fsize ds] @ rev [Suc i..<Suc i + fsize ts] @ [i]"
  proof -
    have "[i..<i + fsize (Node rc ts # ds)] = i # [Suc i..<Suc i + (fsize ts + fsize ds)]"
      by (subst upt_conv_Cons) simp_all
    also have "[Suc i..<Suc i + (fsize ts + fsize ds)] =
        [Suc i..<Suc i + fsize ts] @ [Suc i + fsize ts..<Suc i + fsize ts + fsize ds]"
      by (simp only: upt_add_eq_append [OF le_add1] flip: add.assoc)
    finally show ?thesis by simp
  qed
  let ?pre1 = "pre @ replicate (Suc (fsize ts)) 1"
  let ?pre2 = "pre[p := pre ! p + fsize ds] @ [1]"
  have "fold (add_size parents) (rev [?j..<?j + fsize ds])
      (pre @ replicate (fsize (Node rc ts # ds)) 1 @ post) =
      ?pre1[p := ?pre1 ! p + fsize ds] @ fsizes ds @ post"
    using "2.IH"(2) [of ?pre1 post] "2.prems"(1,2) par_ds
    by (simp add: replicate_add)
  also have "?pre1[p := ?pre1 ! p + fsize ds] = ?pre2 @ replicate (fsize ts) 1"
    using "2.prems"(1,2) by (simp add: list_update_append nth_append)
  finally have 1: "fold (add_size parents) (rev [?j..<?j + fsize ds])
      (pre @ replicate (fsize (Node rc ts # ds)) 1 @ post) =
      ?pre2 @ replicate (fsize ts) 1 @ fsizes ds @ post" by simp
  have 2: "fold (add_size parents) (rev [Suc i..<Suc i + fsize ts])
      (?pre2 @ replicate (fsize ts) 1 @ fsizes ds @ post) =
      ?pre2[i := ?pre2 ! i + fsize ts] @ fsizes ts @ fsizes ds @ post"
    by (rule "2.IH"(1)) (use "2.prems"(1,2) par_ts in simp_all)
  have 3: "?pre2[i := ?pre2 ! i + fsize ts] = pre[p := pre ! p + fsize ds] @ [Suc (fsize ts)]"
    using "2.prems"(2) by (simp add: list_update_append nth_append)
  have "fold (add_size parents) (rev [i..<i + fsize (Node rc ts # ds)])
      (pre @ replicate (fsize (Node rc ts # ds)) 1 @ post) =
      add_size parents i (pre[p := pre ! p + fsize ds] @ Suc (fsize ts) # fsizes ts @ fsizes ds @ post)"
    by (simp only: idx fold_append comp_apply 1 2 3) simp
  also have "\<dots> = pre[p := pre ! p + fsize (Node rc ts # ds)] @ fsizes (Node rc ts # ds) @ post"
    using "2.prems"(1,2)
    by (simp add: add_size_def par_i list_update_append nth_append add.commute add.left_commute)
  finally show ?case .
qed simp

lemma from_rule_vec_exact:
  assumes "derives (g_rules ctx) [nt] [t]"
  shows "from_rule_vec (fflat [t]) ctx = Inr (tree_of [t])"
proof -
  obtain rc ts where t: "t = Node rc ts" by (cases t)
  let ?n = "fsize [t]"
  let ?r = "g_rules ctx ! rc_id rc"
  have r: "get_rule (rc_id rc) ctx = Inr ?r" "nonterm ?r = nt"
    using assms by (simp_all add: t get_rule_def)
  have "calc_parents_from ctx 0 (fflat [t] @ []) (map (\<lambda>nt. (nt, 0)) [nt] @ []) (replicate ?n 0) =
      calc_parents_from ctx (0 + ?n) [] [] (overwrite (replicate ?n 0) 0 (fparents 0 0 [t]))"
    by (rule calc_parents_from_forest [OF assms]) simp
  then have p: "calc_parents_from ctx 0 (fflat [t]) [(nt, 0)] (replicate ?n 0) =
      Inr (fparents 0 0 [t])"
    by (simp add: overwrite_all)
  have "fold (add_size (fparents 0 0 [t])) (rev [1..<1 + fsize ts]) ([1] @ replicate (fsize ts) 1 @ []) =
      [1][0 := [1] ! 0 + fsize ts] @ fsizes ts @ []"
    by (rule fold_add_size_forest) (simp_all add: t)
  then have s: "fold (add_size (fparents 0 0 [t])) (rev [1..<?n]) (replicate ?n 1) = fsizes [t]"
    by (simp add: t del: fparents.simps fold_simps)
  show ?thesis
    using p s by (simp add: from_rule_vec_def calc_parents_def tree_size_def get_rule_at_def
        get_rule_or_custom_def nth_or_panic_def t r calc_sizes_def tree_of_def map_replicate_const
        del: upt_Suc)
qed

section \<open>Unparsing\<close>

text \<open>
  The unparser's state is its stack (top first), the index of the next entry and what it has
  written; \<open>at\<close> is the tree's \<open>get_rule_or_custom\<close> and \<open>n\<close> its size, beyond which
  \<open>at\<close> panics.
\<close>

datatype unparse_step = UTerm bytes | UNonterm nat

fun step_of :: "rule_child \<Rightarrow> unparse_step" where
  "step_of (Term d) = UTerm d"
| "step_of (NTerm nt) = UNonterm nt"

definition next_rule ::
  "(nat \<Rightarrow> fault + rule_or_custom) \<Rightarrow> 'h gcontext \<Rightarrow> nat \<Rightarrow> nat \<Rightarrow> fault + unparse_step list" where
  "next_rule at ctx i nt =
     rbind (get_rule_at at i ctx) (\<lambda>rule.
     rbind (assert_that (nt = nonterm rule)) (\<lambda>_.
     case rule of
       Plain _ children _ \<Rightarrow> Inr (map step_of children)
     | RegExp _ _ \<Rightarrow> rbind (at i) (\<lambda>rc. rbind (rc_data rc) (\<lambda>d. Inr [UTerm d]))))"

function unparse_loop ::
  "(nat \<Rightarrow> fault + rule_or_custom) \<Rightarrow> nat \<Rightarrow> 'h gcontext \<Rightarrow> unparse_step list \<Rightarrow> nat \<Rightarrow> bytes
    \<Rightarrow> fault + nat \<times> bytes" where
  "unparse_loop at n ctx [] i out = Inr (i, out)"
| "unparse_loop at n ctx (UTerm d # stack) i out = unparse_loop at n ctx stack i (out @ d)"
| "unparse_loop at n ctx (UNonterm nt # stack) i out =
     (if n \<le> i then Inl Panicked
      else case next_rule at ctx i nt of
        Inl e \<Rightarrow> Inl e
      | Inr steps \<Rightarrow> unparse_loop at n ctx (steps @ stack) (Suc i) out)"
  by pat_completeness auto

termination
  by (relation "measures [\<lambda>(_, n, _, _, i, _). n - i, \<lambda>(_, _, _, stack, _). length stack]") auto

definition unparse ::
  "(nat \<Rightarrow> fault + rule_or_custom) \<Rightarrow> nat \<Rightarrow> 'h gcontext \<Rightarrow> nat \<Rightarrow> fault + bytes" where
  "unparse at n ctx nid =
     rbind (get_rule_at at nid ctx) (\<lambda>r.
     rbind (unparse_loop at n ctx [UNonterm (nonterm r)] nid []) (\<lambda>(_, out). Inr out))"

definition unparse_tree :: "'h gcontext \<Rightarrow> tree \<Rightarrow> nat \<Rightarrow> fault + bytes" where
  "unparse_tree ctx t nid = unparse (get_rule_or_custom t) (tree_size t) ctx nid"

section \<open>Mutations of a tree\<close>

record tree_mutation =
  m_prefix :: "rule_or_custom list"
  m_repl :: "rule_or_custom list"
  m_postfix :: "rule_or_custom list"

text \<open>\<open>slice\<close> of the rules; a range beyond the end, or one that ends before it starts, panics.\<close>

definition slice_rules :: "tree \<Rightarrow> nat \<Rightarrow> nat \<Rightarrow> fault + rule_or_custom list" where
  "slice_rules t from until =
     (if from \<le> until \<and> until \<le> length (t_rules t)
      then Inr (take (until - from) (drop from (t_rules t))) else Inl Panicked)"

definition mutate_replace_from_tree ::
  "tree \<Rightarrow> nat \<Rightarrow> tree \<Rightarrow> nat \<Rightarrow> fault + tree_mutation" where
  "mutate_replace_from_tree t n other other_node =
     rbind (subtree_size t n) (\<lambda>old_size.
     rbind (subtree_size other other_node) (\<lambda>new_size.
     rbind (slice_rules t 0 n) (\<lambda>prefix.
     rbind (slice_rules other other_node (other_node + new_size)) (\<lambda>repl.
     rbind (slice_rules t (n + old_size) (length (t_rules t))) (\<lambda>postfix.
     Inr \<lparr>m_prefix = prefix, m_repl = repl, m_postfix = postfix\<rparr>)))))"

definition get_at :: "tree_mutation \<Rightarrow> nat \<Rightarrow> fault + rule_or_custom" where
  "get_at m i =
     (let end0 = length (m_prefix m); end1 = end0 + length (m_repl m);
          end2 = end1 + length (m_postfix m)
      in if i < end0 then Inr (m_prefix m ! i)
         else if i < end1 then Inr (m_repl m ! (i - end0))
         else if i < end2 then Inr (m_postfix m ! (i - end1))
         else Inl Panicked)"

definition mutation_size :: "tree_mutation \<Rightarrow> nat" where
  "mutation_size m = length (m_prefix m) + length (m_repl m) + length (m_postfix m)"

definition mutation_rules :: "tree_mutation \<Rightarrow> rule_or_custom list" where
  "mutation_rules m = m_prefix m @ m_repl m @ m_postfix m"

definition mutation_to_tree :: "'h gcontext \<Rightarrow> tree_mutation \<Rightarrow> fault + tree" where
  "mutation_to_tree ctx m = from_rule_vec (m_prefix m @ m_repl m @ m_postfix m) ctx"

definition unparse_mutation :: "'h gcontext \<Rightarrow> tree_mutation \<Rightarrow> nat \<Rightarrow> fault + bytes" where
  "unparse_mutation ctx m nid = unparse (get_at m) (mutation_size m) ctx nid"

section \<open>What a derivation stands for\<close>

text \<open>
  The word of a tree: the terminals of its rule with the words of the subtrees in the places of
  the nonterminals; the text an expression's entry carries.
\<close>

fun interleave :: "rule_child list \<Rightarrow> bytes list \<Rightarrow> bytes" where
  "interleave [] ws = []"
| "interleave (Term d # cs) ws = d @ interleave cs ws"
| "interleave (NTerm nt # cs) ws = (case ws of [] \<Rightarrow> [] | w # ws' \<Rightarrow> w @ interleave cs ws')"

fun words :: "'h rule list \<Rightarrow> dtree list \<Rightarrow> bytes list" where
  "words rules [] = []"
| "words rules (Node rc ts # ds) =
     (case rules ! rc_id rc of
        Plain _ children _ \<Rightarrow> interleave children (words rules ts)
      | RegExp _ _ \<Rightarrow> (case rc of Custom _ d \<Rightarrow> d | Rule _ \<Rightarrow> [])) # words rules ds"

text \<open>
  Every \<open>TreeLike\<close> answers as a vector of entries; what its unparser writes.
\<close>

locale tree_like =
  fixes at :: "nat \<Rightarrow> fault + rule_or_custom" and entries :: "rule_or_custom list"
  assumes at_entry: "i < length entries \<Longrightarrow> at i = Inr (entries ! i)"
begin

lemma next_rule_Plain:
  assumes "i < length entries" "rc_id (entries ! i) < length (g_rules ctx)"
    "g_rules ctx ! rc_id (entries ! i) = Plain nt cs nts"
  shows "next_rule at ctx i nt = Inr (map step_of cs)"
  using assms by (simp add: next_rule_def get_rule_at_def get_rule_def at_entry)

lemma next_rule_RegExp:
  assumes "i < length entries" "entries ! i = Custom r d" "r < length (g_rules ctx)"
    "g_rules ctx ! r = RegExp nt h"
  shows "next_rule at ctx i nt = Inr [UTerm d]"
  using assms by (simp add: next_rule_def get_rule_at_def get_rule_def at_entry)

lemma unparse_loop_terms:
  "unparse_loop at n ctx (map (\<lambda>d. UTerm d) ds @ stack) i out =
   unparse_loop at n ctx stack i (out @ concat ds)"
  by (induction ds arbitrary: out) simp_all

lemma unparse_forest:
  assumes rules: "\<forall>r \<in> set (g_rules ctx). rule_ok r"
  shows "derives (g_rules ctx) (nts_of cs) ds \<Longrightarrow> i + fsize ds \<le> length entries \<Longrightarrow>
    take (fsize ds) (drop i entries) = fflat ds \<Longrightarrow>
    unparse_loop at (length entries) ctx (map step_of cs @ stack) i out =
    unparse_loop at (length entries) ctx stack (i + fsize ds)
      (out @ interleave cs (words (g_rules ctx) ds))"
proof (induction "fsize ds" arbitrary: cs ds i stack out rule: less_induct)
  case less
  note size_IH = less.hyps
  show ?case using less.prems size_IH
  proof (induction cs arbitrary: out)
    case Nil
    then show ?case by (simp add: nts_of_def)
  next
    case (Cons c cs)
    show ?case
    proof (cases c)
      case (Term d)
      have "unparse_loop at (length entries) ctx (map step_of cs @ stack) i (out @ d) =
        unparse_loop at (length entries) ctx stack (i + fsize ds)
          ((out @ d) @ interleave cs (words (g_rules ctx) ds))"
        by (rule Cons.IH [OF _ Cons.prems(2,3,4)])
          (use Cons.prems(1) Term in \<open>simp_all add: nts_of_def List.map_filter_def\<close>)
      with Term show ?thesis by simp
    next
      case (NTerm nt)
      then have nts: "nts_of (c # cs) = nt # nts_of cs" by (simp add: nts_of_def List.map_filter_def)
      with Cons.prems(1) obtain rc ts es where ds: "ds = Node rc ts # es"
        by (cases ds; cases "hd ds") auto
      let ?r = "g_rules ctx ! rc_id rc" and ?n = "length entries"
      have d: "rc_id rc < length (g_rules ctx)" "entry_fits rc ?r" "nonterm ?r = nt"
          "derives (g_rules ctx) (nonterms ?r) ts" "derives (g_rules ctx) (nts_of cs) es"
        using Cons.prems(1) by (simp_all only: nts ds derives.simps)
      have i: "i < ?n" using Cons.prems(2) by (simp add: ds)
      have parts: "entries ! i = rc" "take (fsize ts) (drop (Suc i) entries) = fflat ts"
          "take (fsize es) (drop (Suc i + fsize ts) entries) = fflat es"
      proof -
        have e: "drop i entries = fflat ds @ drop (i + fsize ds) entries"
          using append_take_drop_id [of "fsize ds" "drop i entries"] Cons.prems(3) by (simp add: add.commute)
        then show "entries ! i = rc"
          using i by (simp add: ds hd_drop_conv_nth [symmetric])
        have s: "drop (Suc i) entries = fflat ts @ fflat es @ drop (i + fsize ds) entries"
          using arg_cong [OF e, of "drop 1"] by (simp add: ds)
        then show "take (fsize ts) (drop (Suc i) entries) = fflat ts" by simp
        have "drop (Suc i + fsize ts) entries = drop (fsize ts) (drop (Suc i) entries)"
          by (simp add: add.commute)
        then show "take (fsize es) (drop (Suc i + fsize ts) entries) = fflat es"
          by (simp only: s) simp
      qed
      have head: "unparse_loop at ?n ctx (UNonterm nt # map step_of cs @ stack) i out =
        unparse_loop at ?n ctx (map step_of cs @ stack) (Suc i + fsize ts)
          (out @ hd (words (g_rules ctx) ds))"
      proof (cases ?r)
        case (Plain nt' ch nts')
        have "nts' = nts_of ch"
          using rules d(1) Plain by (metis nth_mem rule_ok.simps(1))
        with d(4) Plain have ts: "derives (g_rules ctx) (nts_of ch) ts" by simp
        have "unparse_loop at ?n ctx (map step_of ch @ map step_of cs @ stack) (Suc i) out =
          unparse_loop at ?n ctx (map step_of cs @ stack) (Suc i + fsize ts)
            (out @ interleave ch (words (g_rules ctx) ts))"
          by (rule Cons.prems(4)) (use ts parts Cons.prems(2) in \<open>simp_all add: ds\<close>)
        then show ?thesis
          using i next_rule_Plain [of i ctx nt ch nts'] d parts(1) Plain
          by (simp add: ds)
      next
        case (RegExp nt' h)
        then obtain x where rc: "rc = Custom (rc_id rc) x"
          using d(2) by (auto simp: entry_fits_def)
        have "next_rule at ctx i nt = Inr [UTerm x]"
          using i parts(1) d(1,3) RegExp rc by (intro next_rule_RegExp [of i "rc_id rc" x ctx nt h]) auto
        moreover have "ts = []" using d(4) RegExp by simp
        moreover have "hd (words (g_rules ctx) ds) = x"
          using rc RegExp by (cases rc) (auto simp: ds)
        ultimately show ?thesis
          using i by (simp add: ds)
      qed
      have "unparse_loop at ?n ctx (map step_of cs @ stack) (Suc i + fsize ts)
          (out @ hd (words (g_rules ctx) ds)) =
        unparse_loop at ?n ctx stack (Suc i + fsize ts + fsize es)
          ((out @ hd (words (g_rules ctx) ds)) @ interleave cs (words (g_rules ctx) es))"
        by (rule Cons.prems(4)) (use d(5) parts(3) Cons.prems(2) in \<open>simp_all add: ds\<close>)
      with head NTerm show ?thesis
        by (simp add: ds add.assoc)
    qed
  qed
qed

lemma unparse_word:
  assumes "\<forall>r \<in> set (g_rules ctx). rule_ok r" "derives (g_rules ctx) [nt] [d]"
    "i + fsize [d] \<le> length entries" "take (fsize [d]) (drop i entries) = fflat [d]"
  shows "unparse at (length entries) ctx i = Inr (hd (words (g_rules ctx) [d]))"
proof -
  obtain rc ts where d: "d = Node rc ts" by (cases d)
  have i: "i < length entries" using assms(3) by (simp add: d)
  have "drop i entries = fflat [d] @ drop (i + fsize [d]) entries"
    using append_take_drop_id [of "fsize [d]" "drop i entries"] assms(4) by (simp add: add.commute)
  then have rc: "entries ! i = rc"
    using i by (simp add: d hd_drop_conv_nth [symmetric])
  have nt: "nonterm (g_rules ctx ! rc_id rc) = nt" "rc_id rc < length (g_rules ctx)"
    using assms(2) by (simp_all add: d)
  have "unparse_loop at (length entries) ctx (map step_of [NTerm nt] @ []) i [] =
    unparse_loop at (length entries) ctx [] (i + fsize [d])
      ([] @ interleave [NTerm nt] (words (g_rules ctx) [d]))"
    by (rule unparse_forest [OF assms(1)]) (use assms in \<open>simp_all add: nts_of_def List.map_filter_def\<close>)
  then have "unparse_loop at (length entries) ctx [UNonterm nt] i [] =
    Inr (i + fsize [d], hd (words (g_rules ctx) [d]))"
    by (simp add: d del: unparse_loop.simps(3))
  then show ?thesis
    using i rc nt by (simp add: unparse_def get_rule_at_def get_rule_def at_entry del: unparse_loop.simps)
qed

end

interpretation plain_tree: tree_like "get_rule_or_custom t" "t_rules t" for t
  by unfold_locales (simp add: get_rule_or_custom_def)

interpretation mutated_tree: tree_like "get_at m" "mutation_rules m" for m
  by unfold_locales (auto simp: get_at_def mutation_rules_def Let_def nth_append)

section \<open>Properties\<close>

text \<open>
  C16. The vectors of a derivation, in the order the generator and the mutators write its entries, are
  completed by \<open>from_rule_vec\<close> to exactly the sizes of the subtrees and the indices of the parents:
  nothing of the tree is lost in the flat representation.
\<close>

theorem tree_vectors_are_exact:
  assumes "derives (g_rules ctx) [nt] [d]"
  shows "from_rule_vec (fflat [d]) ctx =
    Inr \<lparr>t_rules = fflat [d], t_sizes = fsizes [d], t_parents = fparents 0 0 [d]\<rparr>"
  using from_rule_vec_exact [OF assms] by (simp add: tree_of_def)

theorem tree_vectors_are_exact_witness:
  "from_rule_vec [Rule 0, Rule 0, Rule 1] ab_context =
     Inr \<lparr>t_rules = [Rule 0, Rule 0, Rule 1], t_sizes = [3, 2, 1], t_parents = [0, 0, 1]\<rparr>"
  using tree_vectors_are_exact [of ab_context 0 "Node (Rule 0) [Node (Rule 0) [Node (Rule 1) []]]"]
  by (simp add: ab_context_fields entry_fits_def)

end
