(* ===== verification/Subtrees.thy ===== *)
theory Subtrees
  imports DerivTrees
begin

text \<open>
  Subtrees by the index of their root in the preorder, and what replacing one does to the
  vectors: the abstract side of \<open>mutate_replace_from_tree\<close> and \<open>to_tree\<close> of
  \<^verbatim>\<open>common/nautilus/grammartec/tree.rs\<close>. The main lemma: a subtree may be replaced by any
  derivation of its nonterminal, and the slices the code concatenates are the entries of the
  result.
\<close>

section \<open>The subtree at an index\<close>

fun fget :: "dtree list \<Rightarrow> nat \<Rightarrow> dtree" where
  "fget (Node rc ts # ds) k =
     (if k = 0 then Node rc ts
      else if k \<le> fsize ts then fget ts (k - 1)
      else fget ds (k - Suc (fsize ts)))"

fun freplace :: "dtree list \<Rightarrow> nat \<Rightarrow> dtree \<Rightarrow> dtree list" where
  "freplace [] k u = []"
| "freplace (Node rc ts # ds) k u =
     (if k = 0 then u # ds
      else if k \<le> fsize ts then Node rc (freplace ts (k - 1) u) # ds
      else Node rc ts # freplace ds (k - Suc (fsize ts)) u)"

fun root_nt :: "'h rule list \<Rightarrow> dtree \<Rightarrow> nat" where
  "root_nt rules (Node rc ts) = nonterm (rules ! rc_id rc)"

fun root_entry :: "dtree \<Rightarrow> rule_or_custom" where
  "root_entry (Node rc ts) = rc"

lemma fsize_single_pos [simp]: "0 < fsize [d]"
  by (cases d) simp

lemma fsize_single_neq [simp]: "fsize [d] \<noteq> 0"
  by (cases d) simp

lemma forest_cases:
  assumes "k < fsize ds"
  obtains (root) rc ts es where "ds = Node rc ts # es" "k = 0"
    | (below) rc ts es j where "ds = Node rc ts # es" "k = Suc j" "j < fsize ts"
    | (beside) rc ts es j where "ds = Node rc ts # es" "k = Suc (fsize ts + j)" "j < fsize es"
proof (cases ds)
  case (Cons d es)
  obtain rc ts where d: "d = Node rc ts" by (cases d)
  show ?thesis
  proof (cases "k = 0")
    case True
    then show ?thesis using root Cons d by blast
  next
    case False
    show ?thesis
    proof (cases "k \<le> fsize ts")
      case True
      with False below [of rc ts es "k - 1"] Cons d show ?thesis by simp
    next
      case False
      with \<open>k \<noteq> 0\<close> beside [of rc ts es "k - Suc (fsize ts)"] Cons d assms show ?thesis by simp
    qed
  qed
qed (use assms in simp)

lemma forest_induct [consumes 1, case_names root below beside]:
  assumes "k < fsize ds"
    and "\<And>rc ts es. P (Node rc ts # es) 0"
    and "\<And>rc ts es j. j < fsize ts \<Longrightarrow> P ts j \<Longrightarrow> P (Node rc ts # es) (Suc j)"
    and "\<And>rc ts es j. j < fsize es \<Longrightarrow> P es j \<Longrightarrow> P (Node rc ts # es) (Suc (fsize ts + j))"
  shows "P ds k"
  using assms(1)
proof (induction "fsize ds" arbitrary: ds k rule: less_induct)
  case less
  from less.prems show ?case
  proof (cases rule: forest_cases)
    case (root rc ts es)
    then show ?thesis using assms(2) by simp
  next
    case (below rc ts es j)
    then have "P ts j" using less.hyps [of ts j] by simp
    with below show ?thesis using assms(3) by simp
  next
    case (beside rc ts es j)
    then have "P es j" using less.hyps [of es j] by simp
    with beside show ?thesis using assms(4) by simp
  qed
qed

lemma fget_entry: "k < fsize ds \<Longrightarrow> fflat ds ! k = root_entry (fget ds k)"
  by (induction rule: forest_induct) (simp_all add: nth_append)

lemma fget_size: "k < fsize ds \<Longrightarrow> fsizes ds ! k = fsize [fget ds k]"
  by (induction rule: forest_induct) (simp_all add: nth_append)

lemma fget_bound: "k < fsize ds \<Longrightarrow> k + fsize [fget ds k] \<le> fsize ds"
  by (induction rule: forest_induct) simp_all

lemma fget_flat: "k < fsize ds \<Longrightarrow> take (fsize [fget ds k]) (drop k (fflat ds)) = fflat [fget ds k]"
proof (induction rule: forest_induct)
  case (below rc ts es j)
  then show ?case using fget_bound [OF below(1)] by simp
qed simp_all

lemma freplace_flat:
  "k < fsize ds \<Longrightarrow> fflat (freplace ds k u) =
     take k (fflat ds) @ fflat [u] @ drop (k + fsize [fget ds k]) (fflat ds)"
proof (induction rule: forest_induct)
  case (root rc ts es)
  then show ?case by (cases u) simp
next
  case (below rc ts es j)
  then show ?case using fget_bound [OF below(1)] by (cases u) simp
next
  case (beside rc ts es j)
  then show ?case by (cases u) (simp add: add.assoc)
qed

lemma fget_derives:
  "k < fsize ds \<Longrightarrow> derives rules nts ds \<Longrightarrow> derives rules [root_nt rules (fget ds k)] [fget ds k]"
proof (induction arbitrary: nts rule: forest_induct)
  case (root rc ts es)
  then show ?case by (cases nts) auto
next
  case (below rc ts es j)
  then show ?case by (cases nts) auto
next
  case (beside rc ts es j)
  then show ?case by (cases nts) auto
qed

lemma derives_root: "derives rules [nt] [d] \<Longrightarrow> root_nt rules d = nt"
  by (cases d) simp

lemma freplace_derives:
  "k < fsize ds \<Longrightarrow> derives rules nts ds \<Longrightarrow> derives rules [root_nt rules (fget ds k)] [u] \<Longrightarrow>
     derives rules nts (freplace ds k u)"
proof (induction arbitrary: nts rule: forest_induct)
  case (root rc ts es)
  then obtain nt nts' where "nts = nt # nts'" by (cases nts) auto
  with root show ?case by (cases u) simp
next
  case (below rc ts es j)
  then show ?case by (cases nts) auto
next
  case (beside rc ts es j)
  then show ?case by (cases nts) auto
qed

lemma freplace_single: "k < fsize [d] \<Longrightarrow> \<exists>e. freplace [d] k u = [e]"
  by (cases d) auto

text \<open>A subtree of a subtree.\<close>

lemma fget_fget:
  "q < fsize ds \<Longrightarrow> j < fsize [fget ds q] \<Longrightarrow> fget [fget ds q] j = fget ds (q + j)"
proof (induction rule: forest_induct)
  case (root rc ts es)
  then show ?case by auto
next
  case (below rc ts es i)
  then show ?case using fget_bound [OF below(1)] by simp
qed (simp_all add: add.assoc)

section \<open>Replacing a subtree of the vectors\<close>

text \<open>
  A tree of the code is a derivation of the nonterminal \<open>nt\<close>.
\<close>

definition tree_ok :: "'h gcontext \<Rightarrow> nat \<Rightarrow> tree \<Rightarrow> bool" where
  "tree_ok ctx nt t \<longleftrightarrow> (\<exists>d. derives (g_rules ctx) [nt] [d] \<and> t = tree_of [d])"

lemma tree_okE:
  assumes "tree_ok ctx nt t"
  obtains d where "derives (g_rules ctx) [nt] [d]" "t = tree_of [d]"
  using assms by (auto simp: tree_ok_def)

lemma tree_of_simps [simp]:
  "t_rules (tree_of ds) = fflat ds" "t_sizes (tree_of ds) = fsizes ds"
  "t_parents (tree_of ds) = fparents 0 0 ds" "tree_size (tree_of ds) = fsize ds"
  by (simp_all add: tree_of_def tree_size_def)

lemma get_rule_at_forest:
  assumes "derives (g_rules ctx) nts ds" "k < fsize ds"
  shows "get_rule_at (get_rule_or_custom (tree_of ds)) k ctx =
      Inr (g_rules ctx ! rc_id (root_entry (fget ds k)))"
    and "nonterm (g_rules ctx ! rc_id (root_entry (fget ds k))) = root_nt (g_rules ctx) (fget ds k)"
    and "rc_id (root_entry (fget ds k)) < length (g_rules ctx)"
proof -
  obtain rc ts where g: "fget ds k = Node rc ts" by (cases "fget ds k")
  have "derives (g_rules ctx) [root_nt (g_rules ctx) (fget ds k)] [fget ds k]"
    by (rule fget_derives) fact+
  then have "rc_id rc < length (g_rules ctx)" by (simp add: g)
  then show "get_rule_at (get_rule_or_custom (tree_of ds)) k ctx =
      Inr (g_rules ctx ! rc_id (root_entry (fget ds k)))"
    "nonterm (g_rules ctx ! rc_id (root_entry (fget ds k))) = root_nt (g_rules ctx) (fget ds k)"
    "rc_id (root_entry (fget ds k)) < length (g_rules ctx)"
    using fget_entry [OF assms(2)] assms(2)
    by (simp_all add: get_rule_at_def get_rule_or_custom_def get_rule_def g)
qed

lemma get_nonterm_id_forest:
  assumes "derives (g_rules ctx) nts ds" "k < fsize ds"
  shows "get_nonterm_id (tree_of ds) k ctx = Inr (root_nt (g_rules ctx) (fget ds k))"
  using get_rule_at_forest [OF assms] by (simp add: get_nonterm_id_def)

lemma subtree_size_forest:
  "k < fsize ds \<Longrightarrow> subtree_size (tree_of ds) k = Inr (fsize [fget ds k])"
  by (simp add: subtree_size_def fget_size)

lemma mutate_replace_forest:
  assumes "n < fsize ds" "k < fsize es"
  shows "mutate_replace_from_tree (tree_of ds) n (tree_of es) k =
    Inr \<lparr>m_prefix = take n (fflat ds), m_repl = fflat [fget es k],
        m_postfix = drop (n + fsize [fget ds n]) (fflat ds)\<rparr>"
  using fget_bound [OF assms(1)] fget_bound [OF assms(2)] fget_flat [OF assms(2)] assms
  by (simp add: mutate_replace_from_tree_def subtree_size_forest slice_rules_def)

lemma replaced_rules:
  assumes "derives (g_rules ctx) [nt] [d]" "n < fsize [d]"
    and "derives (g_rules ctx) [root_nt (g_rules ctx) (fget [d] n)] [u]"
  shows "\<exists>e. freplace [d] n u = [e] \<and> derives (g_rules ctx) [nt] [e] \<and>
    from_rule_vec (take n (fflat [d]) @ fflat [u] @ drop (n + fsize [fget [d] n]) (fflat [d])) ctx =
      Inr (tree_of [e])"
proof -
  obtain e where e: "freplace [d] n u = [e]"
    using freplace_single [OF assms(2)] by blast
  have "derives (g_rules ctx) [nt] [e]"
    using freplace_derives [OF assms(2,1,3)] by (simp only: e)
  moreover have "fflat [e] = take n (fflat [d]) @ fflat [u] @ drop (n + fsize [fget [d] n]) (fflat [d])"
    using freplace_flat [OF assms(2), of u] by (simp only: e)
  ultimately show ?thesis
    using from_rule_vec_exact [of ctx nt e] e by (simp only:) blast
qed

section \<open>Mutations\<close>

text \<open>
  C15. A node of a derivation is replaced by a node of another one that derives the same nonterminal.
  The mutation, which only holds slices of the two trees, unparses to the sentence of the derivation
  with the subtree replaced, and \<open>to_tree\<close> builds that derivation's tree.
\<close>

theorem mutations_unparse_as_their_trees:
  assumes "\<forall>r \<in> set (g_rules ctx). rule_ok r"
    and "derives (g_rules ctx) [nt] [d]" and "derives (g_rules ctx) [nt'] [e]"
    and "n < fsize [d]" and "k < fsize [e]"
    and "root_nt (g_rules ctx) (fget [e] k) = root_nt (g_rules ctx) (fget [d] n)"
  shows "\<exists>m u. mutate_replace_from_tree (tree_of [d]) n (tree_of [e]) k = Inr m \<and>
    freplace [d] n (fget [e] k) = [u] \<and> derives (g_rules ctx) [nt] [u] \<and>
    mutation_to_tree ctx m = Inr (tree_of [u]) \<and>
    unparse_mutation ctx m 0 = Inr (hd (words (g_rules ctx) [u]))"
proof -
  let ?u = "fget [e] k"
  let ?m = "\<lparr>m_prefix = take n (fflat [d]), m_repl = fflat [?u],
    m_postfix = drop (n + fsize [fget [d] n]) (fflat [d])\<rparr>"
  have sub: "derives (g_rules ctx) [root_nt (g_rules ctx) (fget [d] n)] [?u]"
    using fget_derives [OF assms(5,3)] assms(6) by simp
  obtain u where u: "freplace [d] n ?u = [u]" "derives (g_rules ctx) [nt] [u]"
    "mutation_to_tree ctx ?m = Inr (tree_of [u])"
    using replaced_rules [OF assms(2,4) sub] by (auto simp: mutation_to_tree_def)
  have rules: "mutation_rules ?m = fflat [u]"
    using freplace_flat [OF assms(4), of ?u] by (simp add: mutation_rules_def u(1))
  have "unparse (get_at ?m) (length (mutation_rules ?m)) ctx 0 = Inr (hd (words (g_rules ctx) [u]))"
    by (rule mutated_tree.unparse_word [OF assms(1) u(2)])
      (simp_all only: rules length_fflat add_0 order_refl drop_0 take_all)
  then have "unparse_mutation ctx ?m 0 = Inr (hd (words (g_rules ctx) [u]))"
    by (simp add: unparse_mutation_def mutation_size_def mutation_rules_def add.assoc)
  with u mutate_replace_forest [OF assms(4,5)] show ?thesis by blast
qed

theorem mutations_unparse_as_their_trees_witness:
  "\<exists>m u. mutate_replace_from_tree (tree_of [Node (Rule 0) [Node (Rule 1) []]]) 1
      (tree_of [Node (Rule 0) [Node (Rule 1) []]]) 0 = Inr m \<and>
    freplace [Node (Rule 0) [Node (Rule 1) []]] 1 (fget [Node (Rule 0) [Node (Rule 1) []]] 0) = [u] \<and>
    derives (g_rules ab_context) [0] [u] \<and> mutation_to_tree ab_context m = Inr (tree_of [u]) \<and>
    unparse_mutation ab_context m 0 = Inr (hd (words (g_rules ab_context) [u]))"
  by (rule mutations_unparse_as_their_trees [where nt' = 0])
    (simp_all add: ab_context_fields entry_fits_def nts_of_def List.map_filter_def)

end
