(* ===== verification/GrammarSizes.thy ===== *)
theory GrammarSizes
  imports Subtrees
begin

text \<open>
  The analyses of a grammar (\<open>calc_min_len\<close>, \<open>calc_num_options\<close> and \<open>initialize\<close> of
  \<^verbatim>\<open>common/nautilus/grammartec/context.rs\<close>): both loops end; the first finds the size of
  the smallest derivation of every nonterminal, or panics because some rule has no derivation.
\<close>

section \<open>The size of a rule\<close>

definition min_sum :: "(nat \<rightharpoonup> nat) \<Rightarrow> nat list \<Rightarrow> nat" where
  "min_sum mins nts = (\<Sum>nt \<leftarrow> nts. the (mins nt))"

lemma min_sum_simps [simp]:
  "min_sum mins [] = 0" "min_sum mins (nt # nts) = the (mins nt) + min_sum mins nts"
  by (simp_all add: min_sum_def)

lemma min_sum_cong: "(\<And>nt. nt \<in> set nts \<Longrightarrow> mins nt = mins' nt) \<Longrightarrow> min_sum mins nts = min_sum mins' nts"
  by (induction nts) auto

lemma sum_min_iff:
  "sum_min mins res nts = Some c \<longleftrightarrow>
     (\<forall>nt \<in> set nts. mins nt \<noteq> None) \<and> c = res + min_sum mins nts"
  by (induction mins res nts rule: sum_min.induct) (auto split: option.splits)

lemma min_len_for_rule_iff:
  "min_len_for_rule mins r = Some c \<longleftrightarrow>
     (\<forall>nt \<in> set (nonterms r). mins nt \<noteq> None) \<and> c = Suc (min_sum mins (nonterms r))"
  by (simp add: min_len_for_rule_def sum_min_iff)

lemma min_len_for_rule_None:
  "min_len_for_rule mins r = None \<longleftrightarrow> (\<exists>nt \<in> set (nonterms r). mins nt = None)"
  using min_len_for_rule_iff [of mins r] by (cases "min_len_for_rule mins r") auto

lemma min_len_for_rule_mono:
  assumes "min_len_for_rule mins r = Some c" "mins \<subseteq>\<^sub>m mins'"
  shows "min_len_for_rule mins' r = Some c"
proof -
  have "mins' nt = mins nt" if "nt \<in> set (nonterms r)" for nt
    using assms that by (auto simp: min_len_for_rule_iff map_le_def dom_def)
  with assms(1) show ?thesis
    using min_sum_cong [of "nonterms r" mins' mins] by (simp add: min_len_for_rule_iff)
qed

section \<open>Sizes of derivations\<close>

definition derivable :: "'h rule list \<Rightarrow> nat \<Rightarrow> nat \<Rightarrow> bool" where
  "derivable rules nt m \<longleftrightarrow> (\<exists>d. derives rules [nt] [d] \<and> fsize [d] = m)"

definition productive :: "'h rule list \<Rightarrow> nat \<Rightarrow> bool" where
  "productive rules r \<longleftrightarrow> (\<exists>ts. derives rules (nonterms (rules ! r)) ts)"

definition entry_of :: "'h rule list \<Rightarrow> nat \<Rightarrow> rule_or_custom" where
  "entry_of rules r = (case rules ! r of Plain _ _ _ \<Rightarrow> Rule r | RegExp _ _ \<Rightarrow> Custom r [])"

lemma entry_of_fits [simp]: "rc_id (entry_of rules r) = r" "entry_fits (entry_of rules r) (rules ! r)"
  by (auto simp: entry_of_def entry_fits_def split: rule.splits)

lemma derivable_list:
  assumes "\<forall>nt \<in> set nts. derivable rules nt (the (mins nt))"
  shows "\<exists>ts. derives rules nts ts \<and> fsize ts = min_sum mins nts"
  using assms
proof (induction nts)
  case (Cons nt nts)
  then obtain ts where ts: "derives rules nts ts" "fsize ts = min_sum mins nts"
    by auto
  from Cons.prems obtain d where d: "derives rules [nt] [d]" "fsize [d] = the (mins nt)"
    by (auto simp: derivable_def)
  have "derives rules (nt # nts) (d # ts)"
    using d(1) ts(1) by (subst derives_Cons) simp
  moreover have "fsize (d # ts) = fsize [d] + fsize ts" by (cases d) simp
  ultimately show ?case using d(2) ts(2) by (intro exI [of _ "d # ts"]) simp
qed simp

lemma derivable_rule:
  assumes "r < length rules" "min_len_for_rule mins (rules ! r) = Some c"
    and "\<forall>nt m. mins nt = Some m \<longrightarrow> derivable rules nt m"
  shows "derivable rules (nonterm (rules ! r)) c"
proof -
  have "\<forall>nt \<in> set (nonterms (rules ! r)). derivable rules nt (the (mins nt))"
    using assms(2,3) by (auto simp: min_len_for_rule_iff)
  then obtain ts where "derives rules (nonterms (rules ! r)) ts"
    "fsize ts = min_sum mins (nonterms (rules ! r))"
    using derivable_list by blast
  then show ?thesis
    using assms(1,2) unfolding derivable_def
    by (intro exI [of _ "Node (entry_of rules r) ts"]) (simp add: min_len_for_rule_iff)
qed

text \<open>Sizes that no rule undercuts bound every derivation from below.\<close>

definition settled :: "'h rule list \<Rightarrow> (nat \<rightharpoonup> nat) \<Rightarrow> (nat \<rightharpoonup> nat) \<Rightarrow> nat \<Rightarrow> bool" where
  "settled rules nm rm r \<longleftrightarrow> (\<exists>c e. min_len_for_rule nm (rules ! r) = Some c \<and> rm r = Some c \<and>
     nm (nonterm (rules ! r)) = Some e \<and> e \<le> c)"

lemma settled_lower:
  "derives rules nts ds \<Longrightarrow> \<forall>r < length rules. settled rules nm rm r \<Longrightarrow>
    (\<forall>nt \<in> set nts. nm nt \<noteq> None) \<and> min_sum nm nts \<le> fsize ds"
proof (induction rules nts ds rule: derives.induct)
  case (2 rules nt nts rc ts ds)
  let ?r = "rules ! rc_id rc"
  have d: "rc_id rc < length rules" "nonterm ?r = nt" "derives rules (nonterms ?r) ts"
    "derives rules nts ds"
    using "2.prems" by simp_all
  obtain c e where c: "min_len_for_rule nm ?r = Some c" "nm nt = Some e" "e \<le> c"
    using "2.prems"(2) d(1,2) by (fastforce simp: settled_def)
  have "min_sum nm (nonterms ?r) \<le> fsize ts" "(\<forall>nt \<in> set nts. nm nt \<noteq> None) \<and> min_sum nm nts \<le> fsize ds"
    using "2.IH" d(3,4) "2.prems"(2) by simp_all
  with c show ?case by (auto simp: min_len_for_rule_iff)
qed simp_all

section \<open>The loop over the unknown rules\<close>

text \<open>
  What holds while the rules of \<open>U\<close> are unknown: every size is one of a derivation, the other
  rules have their sizes, and unless something changed these are settled.
\<close>

definition sizes_known :: "'h rule list \<Rightarrow> nat set \<Rightarrow> mins \<Rightarrow> bool" where
  "sizes_known rules U st \<longleftrightarrow> (case st of (nm, rm, changed) \<Rightarrow>
     (\<forall>nt m. nm nt = Some m \<longrightarrow> derivable rules nt m) \<and>
     (\<forall>r < length rules. r \<notin> U \<longrightarrow> nm (nonterm (rules ! r)) \<noteq> None) \<and>
     (\<not> changed \<longrightarrow> (\<forall>r < length rules. r \<notin> U \<longrightarrow> settled rules nm rm r)))"

lemma settled_mono:
  assumes "settled rules nm rm r" "nm \<subseteq>\<^sub>m nm'" "rm' r = rm r"
  shows "settled rules nm' rm' r"
proof -
  obtain c e where c: "min_len_for_rule nm (rules ! r) = Some c" "rm r = Some c"
    "nm (nonterm (rules ! r)) = Some e" "e \<le> c"
    using assms(1) by (auto simp: settled_def)
  have "nm' (nonterm (rules ! r)) = Some e"
    using c(3) assms(2) by (metis domI map_le_def)
  then show ?thesis
    using c min_len_for_rule_mono [OF c(1) assms(2)] assms(3) by (auto simp: settled_def)
qed

lemma known_rule_keeps:
  assumes k: "sizes_known rules (insert r U) st" and r: "r < length rules"
    and m: "min_len_for_rule (fst st) (rules ! r) = Some m"
  shows "sizes_known rules U (known_rule rules r m st)"
proof -
  obtain nm rm changed where st: "st = (nm, rm, changed)" by (cases st)
  let ?nt = "nonterm (rules ! r)"
  obtain nm' rm' changed' where kr: "known_rule rules r m st = (nm', rm', changed')"
    by (cases "known_rule rules r m st")
  then have st': "known_rule rules r m st = (nm', rm(r \<mapsto> m), changed')"
    by (auto simp: known_rule_def st Let_def split: if_splits option.splits)
  have ach: "derivable rules ?nt m"
    by (rule derivable_rule [OF r]) (use m k in \<open>auto simp: st sizes_known_def\<close>)
  have nm': "nm' = (case nm ?nt of None \<Rightarrow> nm(?nt \<mapsto> m) | Some e \<Rightarrow> nm(?nt \<mapsto> min m e))"
    using st' by (auto simp: known_rule_def st Let_def split: option.splits if_splits)
  have d: "\<forall>nt x. nm' nt = Some x \<longrightarrow> derivable rules nt x"
    using k ach by (auto simp: nm' sizes_known_def st min_def split: option.splits if_splits)
  have p: "\<forall>x < length rules. x \<notin> U \<longrightarrow> nm' (nonterm (rules ! x)) \<noteq> None"
    using k by (auto simp: nm' sizes_known_def st split: option.splits)
  have s: "settled rules nm' (rm(r \<mapsto> m)) x" if "\<not> changed'" "x < length rules" "x \<notin> U" for x
  proof -
    have nc: "\<not> changed" and keep: "\<And>e. nm ?nt = Some e \<Longrightarrow> e \<le> m"
      using st' that(1) by (auto simp: known_rule_def st Let_def split: option.splits if_splits)
    have le: "nm \<subseteq>\<^sub>m nm'"
      using keep by (auto simp: nm' map_le_def min_def dom_def split: option.splits)
    show ?thesis
    proof (cases "x = r")
      case True
      have "min_len_for_rule nm' (rules ! r) = Some m"
        using min_len_for_rule_mono [OF _ le] m by (simp add: st)
      then show ?thesis
        using True by (auto simp: settled_def nm' split: option.splits)
    next
      case False
      then have "settled rules nm rm x"
        using k nc that by (simp add: sizes_known_def st)
      then show ?thesis
        by (rule settled_mono [OF _ le]) (use False in simp)
    qed
  qed
  show ?thesis
    using d p s by (simp add: sizes_known_def st')
qed

lemma retain_pass_known:
  "sizes_known rules (K \<union> set rs) st \<Longrightarrow> \<forall>r \<in> set rs. r < length rules \<Longrightarrow>
   retain_pass rules rs st = (kept, st') \<Longrightarrow>
     sizes_known rules (K \<union> set kept) st' \<and> set kept \<subseteq> set rs"
proof (induction rs arbitrary: K st kept)
  case (Cons r rs)
  show ?case
  proof (cases "min_len_for_rule (fst st) (rules ! r)")
    case None
    then obtain kept' where k: "retain_pass rules rs st = (kept', st')" "kept = r # kept'"
      using Cons.prems(3) by (auto split: prod.splits)
    have "sizes_known rules (insert r K \<union> set kept') st' \<and> set kept' \<subseteq> set rs"
      by (rule Cons.IH [of "insert r K"]) (use Cons.prems k in simp_all)
    with k show ?thesis by auto
  next
    case (Some m)
    have "sizes_known rules (insert r (K \<union> set rs)) st" using Cons.prems(1) by simp
    then have "sizes_known rules (K \<union> set rs) (known_rule rules r m st)"
      by (rule known_rule_keeps) (use Cons.prems(2) Some in simp_all)
    moreover have "retain_pass rules rs (known_rule rules r m st) = (kept, st')"
      using Cons.prems(3) Some by simp
    ultimately have "sizes_known rules (K \<union> set kept) st' \<and> set kept \<subseteq> set rs"
      using Cons.IH Cons.prems(2) by (meson list.set_intros(2))
    then show ?thesis by auto
  qed
qed simp

lemma retain_pass_stuck:
  "retain_pass rules rs st = (kept, st') \<Longrightarrow> length kept = length rs \<Longrightarrow>
     st' = st \<and> (\<forall>r \<in> set rs. min_len_for_rule (fst st) (rules ! r) = None)"
proof (induction rs arbitrary: st kept)
  case (Cons r rs)
  show ?case
  proof (cases "min_len_for_rule (fst st) (rules ! r)")
    case None
    then obtain kept' where "retain_pass rules rs st = (kept', st')" "kept = r # kept'"
      using Cons.prems(1) by (auto split: prod.splits)
    with Cons.IH [of st kept'] Cons.prems(2) None show ?thesis by simp
  next
    case (Some m)
    then have "retain_pass rules rs (known_rule rules r m st) = (kept, st')"
      using Cons.prems(1) by simp
    then have "length kept \<le> length rs"
      using length_retain_pass [of rules rs "known_rule rules r m st"] by simp
    with Cons.prems(2) show ?thesis by simp
  qed
qed simp

text \<open>A rule that stays unknown has no derivation.\<close>

lemma known_derives:
  "derives rules nts ds \<Longrightarrow> sizes_known rules U st \<Longrightarrow>
     \<forall>r \<in> U. min_len_for_rule (fst st) (rules ! r) = None \<Longrightarrow> \<forall>nt \<in> set nts. fst st nt \<noteq> None"
proof (induction rules nts ds rule: derives.induct)
  case (2 rules nt nts rc ts ds)
  let ?r = "rules ! rc_id rc"
  have "\<forall>nt \<in> set (nonterms ?r). fst st nt \<noteq> None" "\<forall>nt \<in> set nts. fst st nt \<noteq> None"
    using 2 by simp_all
  moreover from this have "rc_id rc \<notin> U"
    using "2.prems"(3) min_len_for_rule_None [of "fst st" ?r] by auto
  then have "fst st nt \<noteq> None"
    using "2.prems"(1,2) by (auto simp: sizes_known_def split_def)
  ultimately show ?case by simp
qed simp_all

lemma unknown_loop_known:
  "sizes_known rules (set unknown) st \<Longrightarrow> \<forall>r \<in> set unknown. r < length rules \<Longrightarrow>
     (case unknown_loop rules unknown st of
        Inl e \<Rightarrow> e = Panicked \<and> (\<exists>r < length rules. \<not> productive rules r)
      | Inr st' \<Rightarrow> sizes_known rules {} st')"
proof (induction rules unknown st rule: unknown_loop.induct)
  case (1 rules unknown st)
  show ?case
  proof (cases "unknown = []")
    case True
    with "1.prems" show ?thesis by (simp add: unknown_loop.simps [of rules "[]"])
  next
    case False
    obtain kept st' where p: "retain_pass rules unknown st = (kept, st')"
      by (cases "retain_pass rules unknown st")
    have k: "sizes_known rules (set kept) st'" "set kept \<subseteq> set unknown"
      using retain_pass_known [of rules "{}" unknown st kept st'] "1.prems" p by auto
    show ?thesis
    proof (cases "length kept = length unknown")
      case True
      with retain_pass_stuck [OF p True]
      have none: "\<forall>r \<in> set unknown. min_len_for_rule (fst st) (rules ! r) = None" by simp
      obtain r where r: "r \<in> set unknown" using False by (cases unknown) auto
      have "\<not> productive rules r"
      proof
        assume "productive rules r"
        then obtain ts where "derives rules (nonterms (rules ! r)) ts" by (auto simp: productive_def)
        from known_derives [OF this "1.prems"(1) none] have "min_len_for_rule (fst st) (rules ! r) \<noteq> None"
          unfolding min_len_for_rule_None by blast
        with none r show False by simp
      qed
      with r "1.prems"(2) True p False show ?thesis
        by (auto simp: unknown_loop.simps [of rules unknown])
    next
      case False
      have "case unknown_loop rules kept st' of
          Inl e \<Rightarrow> e = Panicked \<and> (\<exists>r < length rules. \<not> productive rules r)
        | Inr st'' \<Rightarrow> sizes_known rules {} st''"
        by (rule "1.IH" [OF \<open>unknown \<noteq> []\<close> p [symmetric] refl False k(1)])
          (use k(2) "1.prems"(2) in blast)
      with p False \<open>unknown \<noteq> []\<close> show ?thesis
        by (simp add: unknown_loop.simps [of rules unknown])
    qed
  qed
qed

section \<open>The outer loop ends\<close>

text \<open>
  Once every nonterminal with a rule has a size, each round that changes something makes one of
  them smaller and none larger.
\<close>

definition rule_nts :: "'h rule list \<Rightarrow> nat set" where
  "rule_nts rules = (\<lambda>r. nonterm (rules ! r)) ` {..<length rules}"

definition lowered :: "'h rule list \<Rightarrow> (nat \<rightharpoonup> nat) \<Rightarrow> mins \<Rightarrow> bool" where
  "lowered rules nm0 st \<longleftrightarrow> (case st of (nm, rm, changed) \<Rightarrow>
     (\<forall>nt \<in> rule_nts rules. nm nt \<noteq> None \<and> the (nm nt) \<le> the (nm0 nt)) \<and>
     (changed \<longrightarrow> (\<exists>nt \<in> rule_nts rules. the (nm nt) < the (nm0 nt))))"

lemma known_rule_lowered:
  assumes "lowered rules nm0 st" "r < length rules"
  shows "lowered rules nm0 (known_rule rules r m st)"
proof -
  obtain nm rm changed where st: "st = (nm, rm, changed)" by (cases st)
  let ?nt = "nonterm (rules ! r)"
  have nt: "?nt \<in> rule_nts rules" using assms(2) by (auto simp: rule_nts_def)
  then obtain e where e: "nm ?nt = Some e" "e \<le> the (nm0 ?nt)"
    using assms(1) by (auto simp: lowered_def st)
  show ?thesis
  proof (cases "m < e")
    case True
    then have "known_rule rules r m st = (nm(?nt \<mapsto> m), rm(r \<mapsto> m), True)"
      by (simp add: known_rule_def st e)
    moreover have "the ((nm(?nt \<mapsto> m)) ?nt) < the (nm0 ?nt)" using True e by simp
    ultimately show ?thesis
      using assms(1) nt True e by (auto simp: lowered_def st intro!: bexI [of _ ?nt])
  next
    case False
    then have "known_rule rules r m st = (nm, rm(r \<mapsto> m), changed)"
      using e by (simp add: known_rule_def st fun_upd_idem)
    with assms(1) show ?thesis by (simp add: lowered_def st)
  qed
qed

lemma retain_pass_lowered:
  "lowered rules nm0 st \<Longrightarrow> \<forall>r \<in> set rs. r < length rules \<Longrightarrow>
   retain_pass rules rs st = (kept, st') \<Longrightarrow> lowered rules nm0 st'"
proof (induction rs arbitrary: st kept)
  case (Cons r rs)
  show ?case
  proof (cases "min_len_for_rule (fst st) (rules ! r)")
    case None
    then obtain kept' where "retain_pass rules rs st = (kept', st')"
      using Cons.prems(3) by (auto split: prod.splits)
    with Cons show ?thesis by simp
  next
    case (Some m)
    then have "retain_pass rules rs (known_rule rules r m st) = (kept, st')"
      using Cons.prems(3) by simp
    moreover have "lowered rules nm0 (known_rule rules r m st)"
      using Cons.prems(1,2) by (simp add: known_rule_lowered)
    ultimately show ?thesis
      using Cons.IH [of "known_rule rules r m st" kept] Cons.prems(2) by simp
  qed
qed simp

lemma set_kept: "retain_pass rules rs st = (kept, st') \<Longrightarrow> set kept \<subseteq> set rs"
proof (induction rs arbitrary: st kept)
  case (Cons r rs)
  show ?case
  proof (cases "min_len_for_rule (fst st) (rules ! r)")
    case None
    then obtain kept' where "retain_pass rules rs st = (kept', st')" "kept = r # kept'"
      using Cons.prems by (auto split: prod.splits)
    with Cons.IH [of st kept'] show ?thesis by auto
  next
    case (Some m)
    with Cons.prems Cons.IH [of "known_rule rules r m st" kept] show ?thesis by auto
  qed
qed simp

lemma unknown_loop_lowered:
  "lowered rules nm0 st \<Longrightarrow> \<forall>r \<in> set unknown. r < length rules \<Longrightarrow>
     unknown_loop rules unknown st = Inr st' \<Longrightarrow> lowered rules nm0 st'"
proof (induction rules unknown st rule: unknown_loop.induct)
  case (1 rules unknown st)
  obtain kept st1 where p: "retain_pass rules unknown st = (kept, st1)"
    by (cases "retain_pass rules unknown st")
  show ?case
  proof (cases "unknown = []")
    case True
    with "1.prems" show ?thesis by (simp add: unknown_loop.simps [of rules "[]"])
  next
    case False
    with "1.prems"(3) p have n: "length kept \<noteq> length unknown" and u: "unknown_loop rules kept st1 = Inr st'"
      by (auto simp: unknown_loop.simps [of rules unknown] split: if_splits)
    show ?thesis
      by (rule "1.IH" [OF False p [symmetric] refl n _ _ u])
        (use retain_pass_lowered [OF "1.prems"(1,2) p] set_kept [OF p] "1.prems"(2) in auto)
  qed
qed

definition size_sum :: "'h rule list \<Rightarrow> (nat \<rightharpoonup> nat) \<Rightarrow> nat" where
  "size_sum rules nm = (\<Sum>nt \<in> rule_nts rules. the (nm nt))"

lemma finite_rule_nts [simp]: "finite (rule_nts rules)"
  by (simp add: rule_nts_def)

lemma lowered_total:
  assumes "lowered rules nm0 (nm, rm, True)"
  shows "size_sum rules nm < size_sum rules nm0"
proof -
  obtain nt where "nt \<in> rule_nts rules" "the (nm nt) < the (nm0 nt)"
    using assms by (auto simp: lowered_def)
  moreover have "\<forall>nt \<in> rule_nts rules. the (nm nt) \<le> the (nm0 nt)"
    using assms by (simp add: lowered_def)
  ultimately show ?thesis
    unfolding size_sum_def by (intro sum_strict_mono_ex1) auto
qed

lemma known_start: "sizes_known rules {} (nm, rm, ch) \<Longrightarrow> sizes_known rules (set [0..<length rules]) (nm, rm, False)"
  by (auto simp: sizes_known_def)

lemma min_len_loop_ends:
  "sizes_known rules {} (nm, rm, changed) \<Longrightarrow>
   \<exists>res. min_len_loop rules (nm, rm, changed) = Some res \<and>
     (case res of Inl e \<Rightarrow> e = Panicked \<and> (\<exists>r < length rules. \<not> productive rules r)
      | Inr (nm', rm', changed') \<Rightarrow> sizes_known rules {} (nm', rm', False))"
proof (induction "size_sum rules nm" arbitrary: nm rm changed rule: less_induct)
  case less
  show ?case
  proof (cases changed)
    case False
    with less.prems show ?thesis by (subst min_len_loop.simps) auto
  next
    case True
    let ?loop = "unknown_loop rules [0..<length rules] (nm, rm, False)"
    have k: "case ?loop of
          Inl e \<Rightarrow> e = Panicked \<and> (\<exists>r < length rules. \<not> productive rules r)
        | Inr st' \<Rightarrow> sizes_known rules {} st'"
      by (rule unknown_loop_known [OF known_start [OF less.prems]]) simp
    show ?thesis
    proof (cases ?loop)
      case (Inl e)
      with k True show ?thesis by (subst min_len_loop.simps) simp
    next
      case (Inr st')
      obtain nm' rm' changed' where st': "st' = (nm', rm', changed')" by (cases st')
      have k': "sizes_known rules {} (nm', rm', changed')" using k Inr st' by simp
      have unf: "min_len_loop rules (nm, rm, changed) = min_len_loop rules (nm', rm', changed')"
        using True Inr st' by (subst min_len_loop.simps) simp
      show ?thesis
      proof (cases changed')
        case False
        with k' show ?thesis unfolding unf by (subst min_len_loop.simps) auto
      next
        case changed': True
        have "lowered rules nm (nm, rm, False)"
          using less.prems by (auto simp: lowered_def sizes_known_def rule_nts_def)
        then have "lowered rules nm st'"
          by (rule unknown_loop_lowered [OF _ _ Inr]) simp
        then have "size_sum rules nm' < size_sum rules nm"
          using lowered_total changed' st' by simp
        then show ?thesis unfolding unf by (rule less.hyps) (rule k')
      qed
    qed
  qed
qed

section \<open>Analysed grammars\<close>

text \<open>
  What the analysis leaves behind: all rules settled, all sizes sizes of derivations, the rules
  of each nonterminal in the order of their sizes.
\<close>

definition measured :: "'h gcontext \<Rightarrow> bool" where
  "measured ctx \<longleftrightarrow> ctx_ok ctx \<and>
     (\<forall>r < length (g_rules ctx). settled (g_rules ctx) (g_nt_min ctx) (g_rule_min ctx) r) \<and>
     (\<forall>nt m. g_nt_min ctx nt = Some m \<longrightarrow> derivable (g_rules ctx) nt m) \<and>
     (\<forall>nt rs. (nt, rs) \<in> set (g_nts_to_rules ctx) \<longrightarrow>
        sorted (map (\<lambda>r. the (g_rule_min ctx r)) rs))"

lemma calc_rule_order_of_ok:
  assumes "\<forall>nt rs. (nt, rs) \<in> set m \<longrightarrow> (\<forall>r \<in> set rs. rm r \<noteq> None)"
  shows "calc_rule_order_of rm m = Inr (map (\<lambda>(nt, rs). (nt, sort_key (\<lambda>r. the (rm r)) rs)) m)"
  using assms
proof (induction rm m rule: calc_rule_order_of.induct)
  case (2 rm nt rs m)
  then have "list_all (\<lambda>r. rm r \<noteq> None) rs" by (auto simp: list_all_iff)
  with 2 show ?case by simp
qed simp

lemma map_of_map_values: "map_of (map (\<lambda>(k, v). (k, f v)) m) k = map_option f (map_of m k)"
  by (induction m) auto

lemma sort_key_Nil_iff [simp]: "sort_key f xs = [] \<longleftrightarrow> xs = []"
  by (metis length_0_conv length_sort)

lemma listed_ok_sorted:
  assumes "listed_ok rules m"
  shows "listed_ok rules (map (\<lambda>(nt, rs). (nt, sort_key f rs)) m)"
  using assms unfolding listed_ok_def
  by (auto simp: map_of_map_values)

lemma calc_min_len_cases:
  assumes ok: "ctx_ok ctx" and fresh: "g_nt_min ctx = Map.empty"
  shows "case calc_min_len ctx of
      None \<Rightarrow> False
    | Some (Inl e) \<Rightarrow> e = Panicked \<and> (\<exists>r < length (g_rules ctx). \<not> productive (g_rules ctx) r)
    | Some (Inr ctx') \<Rightarrow> measured ctx' \<and> g_rules ctx' = g_rules ctx \<and> g_name_ids ctx' = g_name_ids ctx"
proof -
  let ?rules = "g_rules ctx"
  have loop1: "min_len_loop ?rules (Map.empty, rm, True) =
      (case unknown_loop ?rules [0..<length ?rules] (Map.empty, rm, False) of
         Inl e \<Rightarrow> Some (Inl e) | Inr st' \<Rightarrow> min_len_loop ?rules st')" for rm
    by (subst min_len_loop.simps) simp
  have k1: "case unknown_loop ?rules [0..<length ?rules] (Map.empty, g_rule_min ctx, False) of
        Inl e \<Rightarrow> e = Panicked \<and> (\<exists>r < length ?rules. \<not> productive ?rules r)
      | Inr st' \<Rightarrow> sizes_known ?rules {} st'"
    by (rule unknown_loop_known) (auto simp: sizes_known_def)
  show ?thesis
  proof (cases "unknown_loop ?rules [0..<length ?rules] (Map.empty, g_rule_min ctx, False)")
    case (Inl e)
    with k1 show ?thesis by (simp add: calc_min_len_def fresh loop1)
  next
    case (Inr st1)
    obtain nm1 rm1 ch1 where st1: "st1 = (nm1, rm1, ch1)" by (cases st1)
    have "sizes_known ?rules {} (nm1, rm1, ch1)" using k1 Inr st1 by simp
    from min_len_loop_ends [OF this] obtain res where
      res: "min_len_loop ?rules (nm1, rm1, ch1) = Some res" and
      post: "case res of Inl e \<Rightarrow> e = Panicked \<and> (\<exists>r < length ?rules. \<not> productive ?rules r)
        | Inr (nm', rm', changed') \<Rightarrow> sizes_known ?rules {} (nm', rm', False)" by blast
    have loop: "min_len_loop ?rules (Map.empty, g_rule_min ctx, True) = Some res"
      using Inr st1 res by (simp add: loop1)
    show ?thesis
    proof (cases res)
      case (Inl e)
      with post loop show ?thesis by (simp add: calc_min_len_def fresh)
    next
      case (Inr st2)
      obtain nm rm ch where st2: "st2 = (nm, rm, ch)" by (cases st2)
      have k: "sizes_known ?rules {} (nm, rm, False)" using post Inr st2 by simp
      then have set: "\<forall>r < length ?rules. settled ?rules nm rm r" by (simp add: sizes_known_def)
      let ?m = "map (\<lambda>(nt, rs). (nt, sort_key (\<lambda>r. the (rm r)) rs)) (g_nts_to_rules ctx)"
      let ?ctx = "ctx\<lparr>g_nt_min := nm, g_rule_min := rm, g_nts_to_rules := ?m\<rparr>"
      have listed: "listed_ok ?rules (g_nts_to_rules ctx)" using ok by (simp add: ctx_ok_def)
      have "\<forall>nt rs. (nt, rs) \<in> set (g_nts_to_rules ctx) \<longrightarrow> (\<forall>r \<in> set rs. rm r \<noteq> None)"
      proof (intro allI impI ballI)
        fix nt rs r
        assume "(nt, rs) \<in> set (g_nts_to_rules ctx)" "r \<in> set rs"
        then have "r < length ?rules" using listed by (simp add: listed_ok_def)
        then show "rm r \<noteq> None" using set by (auto simp: settled_def)
      qed
      then have "calc_min_len ctx = Some (Inr ?ctx)"
        using loop Inr st2 by (simp add: calc_min_len_def fresh calc_rule_order_def calc_rule_order_of_ok)
      moreover have "ctx_ok ?ctx"
        using ok listed_ok_sorted [OF listed] by (simp add: ctx_ok_def names_ok_def)
      then have "measured ?ctx"
        using set k by (auto simp: measured_def sizes_known_def)
      ultimately show ?thesis by simp
    qed
  qed
qed

lemma measured_exact:
  assumes "measured ctx"
  shows "derives (g_rules ctx) [nt] [d] \<Longrightarrow> \<exists>m. g_nt_min ctx nt = Some m \<and> m \<le> fsize [d]"
    and "g_nt_min ctx nt = Some m \<Longrightarrow> derivable (g_rules ctx) nt m"
proof -
  have s: "\<forall>r < length (g_rules ctx). settled (g_rules ctx) (g_nt_min ctx) (g_rule_min ctx) r"
    using assms by (simp add: measured_def)
  show "\<exists>m. g_nt_min ctx nt = Some m \<and> m \<le> fsize [d]" if "derives (g_rules ctx) [nt] [d]"
    using settled_lower [OF that s] by auto
  show "derivable (g_rules ctx) nt m" if "g_nt_min ctx nt = Some m"
    using assms that by (simp add: measured_def)
qed

section \<open>Numbers of options\<close>

lemma num_options_bound: "num_options_for_rule opts r \<le> usize_max"
proof -
  have "foldl (\<lambda>res nt. saturating_mul res (case opts nt of Some n \<Rightarrow> n | None \<Rightarrow> 1)) a nts \<le> usize_max"
    if "a \<le> usize_max" for a nts
    using that by (induction nts arbitrary: a) (simp_all add: saturating_mul_def)
  then show ?thesis by (simp add: num_options_for_rule_def usize_max_def)
qed

definition raised :: "'h rule list \<Rightarrow> (nat \<rightharpoonup> nat) \<Rightarrow> mins \<Rightarrow> bool" where
  "raised rules no0 st \<longleftrightarrow> (case st of (no, ro, changed) \<Rightarrow>
     (\<forall>nt \<in> rule_nts rules. no nt \<noteq> None \<and> the (no0 nt) \<le> the (no nt)) \<and>
     (changed \<longrightarrow> (\<exists>nt \<in> rule_nts rules. the (no0 nt) < the (no nt) \<and> the (no nt) \<le> usize_max)))"

lemma options_pass_raised:
  "raised rules no0 st \<Longrightarrow> \<forall>r \<in> set rids. r < length rules \<Longrightarrow>
     raised rules no0 (options_pass rules rids st) \<and>
     (\<forall>r. (fst (snd st)) r \<noteq> None \<or> r \<in> set rids \<longrightarrow> (fst (snd (options_pass rules rids st))) r \<noteq> None)"
proof (induction rules rids st rule: options_pass.induct)
  case (2 rules rid rids no ro changed)
  let ?nt = "nonterm (rules ! rid)" and ?num = "num_options_for_rule no (rules ! rid)"
  have nt: "?nt \<in> rule_nts rules" using "2.prems"(2) by (auto simp: rule_nts_def)
  then obtain e where e: "no ?nt = Some e" "the (no0 ?nt) \<le> e"
    using "2.prems"(1) by (auto simp: raised_def)
  let ?st = "if e < ?num then (no(?nt \<mapsto> ?num), ro(rid \<mapsto> ?num), True) else (no(?nt \<mapsto> e), ro(rid \<mapsto> ?num), changed)"
  have r: "raised rules no0 ?st"
  proof (cases "e < ?num")
    case True
    then show ?thesis
      using "2.prems"(1) e nt num_options_bound [of no "rules ! rid"]
      by (auto simp: raised_def intro!: bexI [of _ ?nt])
  next
    case False
    then show ?thesis using "2.prems"(1) e by (simp add: raised_def fun_upd_idem)
  qed
  obtain st1 where st1: "st1 = ?st" by simp
  have "options_pass rules (rid # rids) (no, ro, changed) = options_pass rules rids st1"
    by (simp add: Let_def e st1)
  moreover have "raised rules no0 (options_pass rules rids st1) \<and>
     (\<forall>r. fst (snd st1) r \<noteq> None \<or> r \<in> set rids \<longrightarrow> fst (snd (options_pass rules rids st1)) r \<noteq> None)"
    using "2.IH" [OF refl refl, of e] "2.prems"(2) r e by (simp add: st1)
  moreover have "ro r \<noteq> None \<or> r = rid \<Longrightarrow> fst (snd st1) r \<noteq> None" for r
    by (auto simp: st1)
  ultimately show ?case by simp
qed auto

definition room :: "'h rule list \<Rightarrow> (nat \<rightharpoonup> nat) \<Rightarrow> nat" where
  "room rules no = (\<Sum>nt \<in> rule_nts rules. usize_max - the (no nt))"

lemma raised_room:
  assumes "raised rules no0 (no, ro, True)"
  shows "room rules no < room rules no0"
proof -
  obtain nt where nt: "nt \<in> rule_nts rules" "the (no0 nt) < the (no nt)" "the (no nt) \<le> usize_max"
    using assms by (auto simp: raised_def)
  have "\<forall>nt \<in> rule_nts rules. usize_max - the (no nt) \<le> usize_max - the (no0 nt)"
    using assms by (simp add: raised_def diff_le_mono2)
  moreover have "usize_max - the (no nt) < usize_max - the (no0 nt)" using nt by simp
  ultimately show ?thesis
    unfolding room_def using nt(1) by (intro sum_strict_mono_ex1) auto
qed

lemma options_loop_ends:
  assumes "\<forall>nt \<in> rule_nts rules. no nt \<noteq> None"
    and "changed \<or> (\<forall>r < length rules. ro r \<noteq> None)"
  shows "\<exists>no' ro' c. options_loop rules (no, ro, changed) = Some (no', ro', c) \<and>
    (\<forall>r < length rules. ro' r \<noteq> None)"
  using assms
proof (induction "room rules no" arbitrary: no ro changed rule: less_induct)
  case less
  show ?case
  proof (cases changed)
    case False
    with less.prems show ?thesis by (subst options_loop.simps) auto
  next
    case True
    let ?st = "options_pass rules [0..<length rules] (no, ro, False)"
    obtain no1 ro1 c1 where st: "?st = (no1, ro1, c1)" by (cases ?st)
    have unf: "options_loop rules (no, ro, changed) = options_loop rules (no1, ro1, c1)"
      using True st by (subst options_loop.simps) simp
    have "raised rules no (no, ro, False)" using less.prems(1) by (simp add: raised_def)
    from options_pass_raised [OF this, of "[0..<length rules]"]
    have r: "raised rules no (no1, ro1, c1)" and all: "\<forall>r < length rules. ro1 r \<noteq> None"
      by (simp_all add: st)
    show ?thesis
    proof (cases c1)
      case False
      with all show ?thesis unfolding unf by (subst options_loop.simps) (simp add: exI [of _ False])
    next
      case True
      then have "room rules no1 < room rules no" using raised_room r by simp
      then show ?thesis
        unfolding unf using r all less.hyps [of no1 c1 ro1] by (simp add: raised_def)
    qed
  qed
qed

section \<open>initialize\<close>

definition initialized :: "'h gcontext \<Rightarrow> bool" where
  "initialized ctx \<longleftrightarrow> measured ctx \<and> (\<forall>r < length (g_rules ctx). g_rule_opts ctx r \<noteq> None)"

lemma initialize_cases:
  assumes ok: "ctx_ok ctx" and fresh: "g_nt_min ctx = Map.empty"
  shows "case initialize max_len ctx of
      None \<Rightarrow> False
    | Some (Inl e) \<Rightarrow> e = Panicked \<and> (\<exists>r < length (g_rules ctx). \<not> productive (g_rules ctx) r)
    | Some (Inr ctx') \<Rightarrow> initialized ctx' \<and> g_rules ctx' = g_rules ctx \<and>
        g_name_ids ctx' = g_name_ids ctx \<and> g_max_len ctx' = max_len + 2"
proof -
  note c = calc_min_len_cases [OF ok fresh]
  show ?thesis
  proof (cases "calc_min_len ctx")
    case None
    with c show ?thesis by simp
  next
    case (Some res)
    show ?thesis
    proof (cases res)
      case (Inl e)
      with c Some show ?thesis by (simp add: initialize_def)
    next
      case (Inr ctx1)
      have m: "measured ctx1" and rules: "g_rules ctx1 = g_rules ctx" "g_name_ids ctx1 = g_name_ids ctx"
        using c Some Inr by simp_all
      then have listed: "listed_ok (g_rules ctx1) (g_nts_to_rules ctx1)"
        by (simp add: measured_def ctx_ok_def)
      have "\<forall>nt \<in> rule_nts (g_rules ctx1). initial_options ctx1 nt \<noteq> None"
        using listed by (fastforce simp: rule_nts_def initial_options_def listed_ok_def split: option.splits)
      then obtain no ro ch where "options_loop (g_rules ctx1) (initial_options ctx1, g_rule_opts ctx1, True)
          = Some (no, ro, ch)" "\<forall>r < length (g_rules ctx1). ro r \<noteq> None"
        using options_loop_ends [of "g_rules ctx1" "initial_options ctx1" True "g_rule_opts ctx1"] by auto
      then show ?thesis
        using m rules Some Inr
        by (simp add: initialize_def calc_num_options_def initialized_def measured_def ctx_ok_def names_ok_def)
    qed
  qed
qed

lemma not_productive_no_measure:
  assumes "measured ctx" "r < length (g_rules ctx)"
  shows "productive (g_rules ctx) r"
proof -
  have "settled (g_rules ctx) (g_nt_min ctx) (g_rule_min ctx) r"
    using assms by (simp add: measured_def)
  then have "\<forall>nt \<in> set (nonterms (g_rules ctx ! r)). derivable (g_rules ctx) nt (the (g_nt_min ctx nt))"
    using assms(1) by (auto simp: settled_def min_len_for_rule_iff measured_def)
  then show ?thesis using derivable_list by (fastforce simp: productive_def)
qed


text \<open>The example grammar, initialised.\<close>

lemma ab_initialized:
  obtains ctx where "initialize 3 ab_context = Some (Inr ctx)" "initialized ctx"
    "g_rules ctx = g_rules ab_context" "g_nt_min ctx 0 = Some 1" "g_max_len ctx = 5"
proof -
  have "case initialize 3 ab_context of Some (Inr ctx) \<Rightarrow> g_nt_min ctx 0 = Some 1 | _ \<Rightarrow> False"
    by code_simp
  then obtain ctx where ctx: "initialize 3 ab_context = Some (Inr ctx)" "g_nt_min ctx 0 = Some 1"
    by (auto split: option.splits sum.splits)
  with initialize_cases [OF ab_context_ok, of 3] that show thesis by simp
qed


end
