(* ===== verification/Generation.thy ===== *)
theory Generation
  imports GrammarSizes
begin

text \<open>
  The generation of trees (\<open>generate\<close> of \<^verbatim>\<open>common/nautilus/grammartec/rule.rs\<close>,
  \<open>generate_from_nt\<close> and \<open>generate_from_rule\<close> of \<^verbatim>\<open>tree.rs\<close>, the random choices
  of \<^verbatim>\<open>context.rs\<close>). The generator of strings for a regular expression is the parameter
  \<open>regen\<close>. The recursion of \<open>generate\<close> takes fuel; one more than the length it is given
  is enough.

  The lemmas: from an initialised grammar a tree is generated exactly when the length allows the
  smallest derivation; it is a derivation of the nonterminal within the length, and all the
  assertions of the code hold on the way.
\<close>

section \<open>Choosing from an iterator of unknown length\<close>

text \<open>
  \<open>Rand::choose\<close> on an iterator whose hint has the lower bound 0, as filtered iterators have:
  each item in turn replaces the result with the probability 1 in its number.
\<close>

fun reservoir :: "('r \<Rightarrow> u64 \<times> 'r) \<Rightarrow> 'a list \<Rightarrow> nat \<Rightarrow> 'a option \<Rightarrow> 'r \<Rightarrow> 'a option \<times> 'r" where
  "reservoir nxt [] consumed result r = (result, r)"
| "reservoir nxt (e # items) consumed result r =
     (let (k, r) = below nxt r (consumed + 1)
      in reservoir nxt items (consumed + 1) (if k = 0 then Some e else result) r)"

lemma choose_loop_reservoir:
  assumes "\<And>xs. fst (hint xs) = 0"
  shows "choose_loop nxt hint items consumed 0 upper result r =
    Some (reservoir nxt items consumed result r)"
proof (induction items arbitrary: consumed upper result r)
  case Nil
  then show ?case by (subst choose_loop.simps) simp
next
  case (Cons e items)
  then show ?case
    by (subst choose_loop.simps) (simp add: assms split_def Let_def)
qed

lemma rand_choose_reservoir:
  assumes "hint_ok hint" "\<And>xs. fst (hint xs) = 0"
  shows "rand_choose nxt hint items r = Some (reservoir nxt items 0 None r)"
proof (cases "snd (hint items) = Some 0")
  case True
  then have "items = []" using hint_okD(2) [OF assms(1), of items 0] by simp
  with True assms(2) show ?thesis by (simp add: rand_choose_def split_def Let_def)
next
  case False
  with assms(2) choose_loop_reservoir [of hint, OF assms(2)] show ?thesis
    by (simp add: rand_choose_def split_def Let_def)
qed

lemma reservoir_member:
  "fst (reservoir nxt items consumed result r) = Some x \<Longrightarrow> x \<in> set items \<or> result = Some x"
  by (induction nxt items consumed result r rule: reservoir.induct)
    (auto simp: Let_def split: prod.splits if_splits)

lemma reservoir_first:
  assumes "items \<noteq> []"
  shows "\<exists>x r'. reservoir nxt items 0 None r = (Some x, r') \<and> x \<in> set items"
proof -
  have some: "fst (reservoir nxt xs c (Some y) r) \<noteq> None" for xs c y r
    by (induction xs arbitrary: c y r) (auto simp: Let_def split: prod.splits)
  obtain e es where items: "items = e # es" using assms by (cases items) auto
  obtain k r1 where b: "below nxt r 1 = (k, r1)" by force
  then have "k = 0" using rnd.below_eq_lt [OF b] by simp
  with b have "reservoir nxt items 0 None r = reservoir nxt es 1 (Some e) r1"
    by (simp add: items)
  then have "fst (reservoir nxt items 0 None r) \<noteq> None" using some by simp
  then obtain x where "fst (reservoir nxt items 0 None r) = Some x" by blast
  with reservoir_member [OF this] show ?thesis
    by (intro exI [of _ x] exI [of _ "snd (reservoir nxt items 0 None r)"]) (auto simp: prod_eq_iff)
qed

section \<open>The choices of the context\<close>

definition romu_duo_jr_with_seed :: "u64 \<Rightarrow> romu_duo_jr" where
  "romu_duo_jr_with_seed seed = romu_duo_jr_set_seed \<lparr>rd_x = 0, rd_y = 0\<rparr> seed"

definition get_min_len_for_nt :: "nat \<Rightarrow> 'h gcontext \<Rightarrow> fault + nat" where
  "get_min_len_for_nt nt ctx = some_or_panic (g_nt_min ctx nt)"

definition get_rules_for_nt :: "nat \<Rightarrow> 'h gcontext \<Rightarrow> fault + nat list" where
  "get_rules_for_nt nt ctx = some_or_panic (map_of (g_nts_to_rules ctx) nt)"

definition multiple_possibilities :: "nat \<Rightarrow> 'h gcontext \<Rightarrow> fault + bool" where
  "multiple_possibilities nt ctx =
     rbind (get_rules_for_nt nt ctx) (\<lambda>rules. Inr (1 < length rules))"

text \<open>\<open>get_applicable_rules\<close>: \<open>take_while\<close> on the sizes, then the filter, which samples.\<close>

fun applicable_rules ::
  "('r \<Rightarrow> u64 \<times> 'r) \<Rightarrow> 'h gcontext \<Rightarrow> nat \<Rightarrow> nat \<Rightarrow> nat list \<Rightarrow> 'r \<Rightarrow> fault + nat list \<times> 'r" where
  "applicable_rules nxt ctx max_len p [] r = Inr ([], r)"
| "applicable_rules nxt ctx max_len p (x # xs) r =
     rbind (some_or_panic (g_rule_min ctx x)) (\<lambda>m.
     if \<not> m \<le> max_len then Inr ([], r)
     else rbind (some_or_panic (g_rule_opts ctx x)) (\<lambda>opts.
          let (keep, r) = (if 1 < opts then (True, r)
                           else let (k, r) = below nxt r 100 in (k \<le> p, r))
          in rbind (applicable_rules nxt ctx max_len p xs r) (\<lambda>(ys, r).
             Inr (if keep then x # ys else ys, r))))"

definition choose_applicable_rule ::
  "('r \<Rightarrow> u64 \<times> 'r) \<Rightarrow> 'h gcontext \<Rightarrow> 'r \<Rightarrow> nat \<Rightarrow> nat \<Rightarrow> nat \<Rightarrow> fault + nat option \<times> 'r" where
  "choose_applicable_rule nxt ctx r max_len nt p =
     (let (seed, r) = nxt r; rand_cpy = romu_duo_jr_with_seed seed
      in rbind (get_rules_for_nt nt ctx) (\<lambda>rules.
         rbind (applicable_rules nxt ctx max_len p rules r) (\<lambda>(items, r).
         Inr (fst (reservoir romu_duo_jr_next items 0 None rand_cpy), r))))"

definition get_random_rule_for_nt ::
  "('r \<Rightarrow> u64 \<times> 'r) \<Rightarrow> 'h gcontext \<Rightarrow> 'r \<Rightarrow> nat \<Rightarrow> nat \<Rightarrow> fault + nat \<times> 'r" where
  "get_random_rule_for_nt nxt ctx r nt max_len =
     (let p_include_short_rules = 100
      in rbind (choose_applicable_rule nxt ctx r max_len nt p_include_short_rules) (\<lambda>(opt, r).
         case opt of
           Some rid \<Rightarrow> Inr (rid, r)
         | None \<Rightarrow> rbind (choose_applicable_rule nxt ctx r max_len nt 100) (\<lambda>(opt, r).
             case opt of Some rid \<Rightarrow> Inr (rid, r) | None \<Rightarrow> Inl Panicked)))"

fun random_len_loop :: "('r \<Rightarrow> u64 \<times> 'r) \<Rightarrow> nat \<Rightarrow> nat \<Rightarrow> nat \<Rightarrow> 'r \<Rightarrow> nat \<times> 'r" where
  "random_len_loop nxt whole 0 res r = (res, r)"
| "random_len_loop nxt whole (Suc iters) res r =
     (let (proposal, r) = between nxt r 0 whole
      in random_len_loop nxt whole iters (if proposal < res then proposal else res) r)"

text \<open>The number of children goes through an \<^verbatim>\<open>i32\<close>; with none, the loop does not run.\<close>

definition simple_get_random_len ::
  "('r \<Rightarrow> u64 \<times> 'r) \<Rightarrow> 'r \<Rightarrow> nat \<Rightarrow> nat \<Rightarrow> fault + nat \<times> 'r" where
  "simple_get_random_len nxt r number_of_children total_remaining_len =
     (if 2 ^ 31 \<le> number_of_children then Inl Panicked
      else Inr (random_len_loop nxt total_remaining_len (number_of_children - 1) total_remaining_len r))"

definition get_random_len ::
  "('r \<Rightarrow> u64 \<times> 'r) \<Rightarrow> 'r \<Rightarrow> nat \<Rightarrow> nat list \<Rightarrow> fault + nat \<times> 'r" where
  "get_random_len nxt r len rhs_of_rule = simple_get_random_len nxt r (length rhs_of_rule) len"

section \<open>generate\<close>

type_synonym ('h, 'r) regen = "'h \<Rightarrow> 'r \<Rightarrow> fault + bytes \<times> 'r"

definition push_node :: "rule_or_custom \<Rightarrow> tree \<Rightarrow> tree" where
  "push_node rc t = \<lparr>t_rules = t_rules t @ [rc], t_sizes = t_sizes t @ [0], t_parents = t_parents t @ [0]\<rparr>"

fun rule_entry :: "('h, 'r) regen \<Rightarrow> nat \<Rightarrow> 'h rule \<Rightarrow> 'r \<Rightarrow> fault + rule_or_custom \<times> 'r" where
  "rule_entry regen rid (Plain _ _ _) r = Inr (Rule rid, r)"
| "rule_entry regen rid (RegExp _ hir) r = rbind (regen hir r) (\<lambda>(d, r). Inr (Custom rid d, r))"

fun sum_min_lens :: "'h gcontext \<Rightarrow> nat list \<Rightarrow> fault + nat" where
  "sum_min_lens ctx [] = Inr 0"
| "sum_min_lens ctx (nt # nts) =
     rbind (get_min_len_for_nt nt ctx) (\<lambda>m. rbind (sum_min_lens ctx nts) (\<lambda>k. Inr (m + k)))"

text \<open>
  The loop over the children; \<open>gen\<close> is the call of \<open>generate\<close> for the child's rule.
\<close>

fun children_loop ::
  "('h rule \<Rightarrow> nat \<Rightarrow> tree \<Rightarrow> 'r \<Rightarrow> fault + nat \<times> tree \<times> 'r) \<Rightarrow> ('r \<Rightarrow> u64 \<times> 'r) \<Rightarrow> ('h, 'r) regen
    \<Rightarrow> 'h gcontext \<Rightarrow> nat \<Rightarrow> nat list \<Rightarrow> nat \<Rightarrow> nat \<Rightarrow> tree \<Rightarrow> 'r \<Rightarrow> fault + nat \<times> tree \<times> 'r" where
  "children_loop gen nxt regen ctx paren [] remaining_len total_size t r = Inr (total_size, t, r)"
| "children_loop gen nxt regen ctx paren (nt # nts) remaining_len total_size t r =
     rbind (get_random_len nxt r remaining_len (nt # nts)) (\<lambda>(l, r).
     rbind (get_min_len_for_nt nt ctx) (\<lambda>min_nt.
     let cur_child_max_len = l + min_nt
     in rbind (get_random_rule_for_nt nxt ctx r nt cur_child_max_len) (\<lambda>(rid, r).
        rbind (get_rule rid ctx) (\<lambda>rule.
        rbind (rule_entry regen rid rule r) (\<lambda>(rule_or_custom, r).
        rbind (assert_that (length (t_rules t) = length (t_sizes t))) (\<lambda>_.
        rbind (assert_that (length (t_sizes t) = length (t_parents t))) (\<lambda>_.
        let offset = length (t_rules t)
        in rbind (usub cur_child_max_len 1) (\<lambda>child_len.
           rbind (gen rule child_len (push_node rule_or_custom t) r) (\<lambda>(consumed_len, t, r).
           let t = t\<lparr>t_sizes := (t_sizes t)[offset := consumed_len],
                     t_parents := (t_parents t)[offset := paren]\<rparr>
           in rbind (assert_that (consumed_len \<le> cur_child_max_len)) (\<lambda>_.
              rbind (assert_that (min_nt \<le> consumed_len)) (\<lambda>_.
              rbind (usub (remaining_len + min_nt) consumed_len) (\<lambda>remaining_len.
              children_loop gen nxt regen ctx paren nts remaining_len
                (total_size + consumed_len) t r))))))))))))"

primrec generate ::
  "nat \<Rightarrow> ('r \<Rightarrow> u64 \<times> 'r) \<Rightarrow> ('h, 'r) regen \<Rightarrow> 'h gcontext \<Rightarrow> 'h rule \<Rightarrow> nat \<Rightarrow> tree \<Rightarrow> 'r
    \<Rightarrow> fault + nat \<times> tree \<times> 'r" where
  "generate 0 nxt regen ctx rule len t r = Inl OutOfFuel"
| "generate (Suc fuel) nxt regen ctx rule len t r =
     rbind (sum_min_lens ctx (nonterms rule)) (\<lambda>minimal_needed_len.
     rbind (assert_that (minimal_needed_len \<le> len)) (\<lambda>_.
     rbind (usub (length (t_rules t)) 1) (\<lambda>paren.
     children_loop (\<lambda>rule len t r. generate fuel nxt regen ctx rule len t r) nxt regen ctx paren
       (nonterms rule) (len - minimal_needed_len) 1 t r)))"

definition truncate_tree :: "tree \<Rightarrow> tree" where
  "truncate_tree t = \<lparr>t_rules = [], t_sizes = [], t_parents = []\<rparr>"

definition generate_from_rule ::
  "('r \<Rightarrow> u64 \<times> 'r) \<Rightarrow> ('h, 'r) regen \<Rightarrow> 'h gcontext \<Rightarrow> tree \<Rightarrow> 'r \<Rightarrow> nat \<Rightarrow> nat \<Rightarrow> fault + tree \<times> 'r" where
  "generate_from_rule nxt regen ctx t r ruleid max_len =
     rbind (get_rule ruleid ctx) (\<lambda>rule.
     case rule of
       Plain _ _ _ \<Rightarrow>
         rbind (generate (Suc max_len) nxt regen ctx rule max_len
                  (push_node (Rule ruleid) (truncate_tree t)) r) (\<lambda>(_, t, r).
         Inr (t\<lparr>t_sizes := (t_sizes t)[0 := length (t_rules t)]\<rparr>, r))
     | RegExp _ hir \<Rightarrow>
         rbind (regen hir r) (\<lambda>(d, r).
         let t = push_node (Custom ruleid d) (truncate_tree t)
         in Inr (t\<lparr>t_sizes := (t_sizes t)[0 := length (t_rules t)]\<rparr>, r)))"

definition generate_from_nt ::
  "('r \<Rightarrow> u64 \<times> 'r) \<Rightarrow> ('h, 'r) regen \<Rightarrow> 'h gcontext \<Rightarrow> tree \<Rightarrow> 'r \<Rightarrow> nat \<Rightarrow> nat \<Rightarrow> fault + tree \<times> 'r" where
  "generate_from_nt nxt regen ctx t r start len =
     rbind (get_random_rule_for_nt nxt ctx r start len) (\<lambda>(ruleid, r).
     rbind (usub len 1) (\<lambda>max_len. generate_from_rule nxt regen ctx t r ruleid max_len))"

definition empty_tree :: tree where
  "empty_tree = \<lparr>t_rules = [], t_sizes = [], t_parents = []\<rparr>"

text \<open>\<open>generate_tree_from_rule\<close> and \<open>generate_tree_from_nt\<close> of the context.\<close>

definition generate_tree_from_rule ::
  "('r \<Rightarrow> u64 \<times> 'r) \<Rightarrow> ('h, 'r) regen \<Rightarrow> 'h gcontext \<Rightarrow> 'r \<Rightarrow> nat \<Rightarrow> nat \<Rightarrow> fault + tree \<times> 'r" where
  "generate_tree_from_rule nxt regen ctx r rid len =
     rbind (from_rule_vec [] ctx) (\<lambda>t. generate_from_rule nxt regen ctx t r rid len)"

definition generate_tree_from_nt ::
  "('r \<Rightarrow> u64 \<times> 'r) \<Rightarrow> ('h, 'r) regen \<Rightarrow> 'h gcontext \<Rightarrow> 'r \<Rightarrow> nat \<Rightarrow> nat \<Rightarrow> fault + tree \<times> 'r" where
  "generate_tree_from_nt nxt regen ctx r nt max_len =
     rbind (get_random_rule_for_nt nxt ctx r nt max_len) (\<lambda>(rid, r).
     rbind (usub max_len 1) (\<lambda>len. generate_tree_from_rule nxt regen ctx r rid len))"

section \<open>The choices are right\<close>

lemma random_len_bound: "res \<le> whole \<Longrightarrow> fst (random_len_loop nxt whole iters res r) \<le> whole"
  by (induction nxt whole iters res r rule: random_len_loop.induct)
    (auto simp: Let_def split: prod.splits)

lemma get_random_len_ok:
  assumes "length nts < 2 ^ 31"
  obtains l r' where "get_random_len nxt r n nts = Inr (l, r')" "l \<le> n"
  using assms random_len_bound [of n n nxt "length nts - 1" r]
  by (cases "random_len_loop nxt n (length nts - 1) n r")
    (auto simp: get_random_len_def simple_get_random_len_def)

lemma applicable_rules_100:
  assumes "\<forall>x \<in> set xs. g_rule_min ctx x \<noteq> None \<and> g_rule_opts ctx x \<noteq> None"
  shows "\<exists>r'. applicable_rules nxt ctx max_len 100 xs r =
    Inr (takeWhile (\<lambda>x. the (g_rule_min ctx x) \<le> max_len) xs, r')"
  using assms
proof (induction xs arbitrary: r)
  case (Cons x xs)
  then obtain m n where m: "g_rule_min ctx x = Some m" "g_rule_opts ctx x = Some n" by auto
  obtain k r1 where b: "below nxt r 100 = (k, r1)" by force
  then have k: "k \<le> 100" using rnd.below_eq_lt [OF b] by simp
  show ?case
    using Cons.IH [of r] Cons.IH [of r1] Cons.prems m b k by (auto simp: Let_def)
qed simp

definition short_rules :: "'h gcontext \<Rightarrow> bool" where
  "short_rules ctx \<longleftrightarrow> (\<forall>rule \<in> set (g_rules ctx). length (nonterms rule) < 2 ^ 31)"

lemma initialized_rule:
  assumes "initialized ctx" "r < length (g_rules ctx)"
  obtains c where "g_rule_min ctx r = Some (Suc (min_sum (g_nt_min ctx) (nonterms (g_rules ctx ! r))))"
    "g_rule_opts ctx r \<noteq> None"
    "\<forall>nt \<in> set (nonterms (g_rules ctx ! r)). g_nt_min ctx nt \<noteq> None"
    "g_nt_min ctx (nonterm (g_rules ctx ! r)) = Some c" "c \<le> the (g_rule_min ctx r)"
  using assms by (auto simp: initialized_def measured_def settled_def min_len_for_rule_iff)

lemma initialized_nt:
  assumes init: "initialized ctx" and m: "g_nt_min ctx nt = Some m"
  obtains rs where "map_of (g_nts_to_rules ctx) nt = Some rs" "rs \<noteq> []"
    "the (g_rule_min ctx (hd rs)) = m"
    "\<forall>r \<in> set rs. r < length (g_rules ctx) \<and> nonterm (g_rules ctx ! r) = nt \<and> m \<le> the (g_rule_min ctx r)"
proof -
  let ?rules = "g_rules ctx"
  have meas: "measured ctx" using init by (simp add: initialized_def)
  then have listed: "listed_ok ?rules (g_nts_to_rules ctx)"
    by (simp add: measured_def ctx_ok_def)
  obtain d where d: "derives ?rules [nt] [d]" "fsize [d] = m"
    using measured_exact(2) [OF meas m] by (auto simp: derivable_def)
  obtain rc ts where dn: "d = Node rc ts" by (cases d)
  let ?x = "rc_id rc"
  have x: "?x < length ?rules" "nonterm (?rules ! ?x) = nt" "derives ?rules (nonterms (?rules ! ?x)) ts"
    using d by (simp_all add: dn)
  obtain c where c: "g_rule_min ctx ?x = Some (Suc (min_sum (g_nt_min ctx) (nonterms (?rules ! ?x))))"
    by (rule initialized_rule [OF init x(1)])
  have "min_sum (g_nt_min ctx) (nonterms (?rules ! ?x)) \<le> fsize ts"
    using settled_lower [OF x(3), of "g_nt_min ctx" "g_rule_min ctx"] meas by (simp add: measured_def)
  with c d(2) have le: "the (g_rule_min ctx ?x) \<le> m" by (simp add: dn)
  obtain rs where rs: "map_of (g_nts_to_rules ctx) nt = Some rs" "?x \<in> set rs"
    using listed x(1,2) by (auto simp: listed_ok_def)
  have all: "\<forall>r \<in> set rs. r < length ?rules \<and> nonterm (?rules ! r) = nt"
    using listed map_of_SomeD [OF rs(1)] by (simp add: listed_ok_def)
  have low: "m \<le> the (g_rule_min ctx r)" if "r \<in> set rs" for r
  proof -
    have r: "r < length ?rules" "nonterm (?rules ! r) = nt" using all that by auto
    show ?thesis by (rule initialized_rule [OF init r(1)]) (use r m in auto)
  qed
  have "sorted (map (\<lambda>r. the (g_rule_min ctx r)) rs)"
    using meas map_of_SomeD [OF rs(1)] by (simp add: measured_def)
  then have "the (g_rule_min ctx (hd rs)) \<le> the (g_rule_min ctx ?x)"
    using rs(2) by (cases rs) auto
  with le low [of "hd rs"] rs(2) have "the (g_rule_min ctx (hd rs)) = m"
    by (cases rs) auto
  with rs all low show ?thesis using that [of rs] by fastforce
qed

lemma get_random_rule_ok:
  assumes init: "initialized ctx" and m: "g_nt_min ctx nt = Some m"
  shows "m \<le> max_len \<Longrightarrow> \<exists>x r'. get_random_rule_for_nt nxt ctx r nt max_len = Inr (x, r') \<and>
      x < length (g_rules ctx) \<and> nonterm (g_rules ctx ! x) = nt \<and> the (g_rule_min ctx x) \<le> max_len"
    and "max_len < m \<Longrightarrow> get_random_rule_for_nt nxt ctx r nt max_len = Inl Panicked"
proof -
  obtain rs where rs: "map_of (g_nts_to_rules ctx) nt = Some rs" "rs \<noteq> []"
    "the (g_rule_min ctx (hd rs)) = m"
    "\<forall>r \<in> set rs. r < length (g_rules ctx) \<and> nonterm (g_rules ctx ! r) = nt \<and> m \<le> the (g_rule_min ctx r)"
    by (rule initialized_nt [OF init m])
  let ?items = "takeWhile (\<lambda>x. the (g_rule_min ctx x) \<le> max_len) rs"
  have all: "\<forall>x \<in> set rs. g_rule_min ctx x \<noteq> None \<and> g_rule_opts ctx x \<noteq> None"
  proof
    fix x assume "x \<in> set rs"
    then have "x < length (g_rules ctx)" using rs(4) by simp
    then show "g_rule_min ctx x \<noteq> None \<and> g_rule_opts ctx x \<noteq> None"
      by (rule initialized_rule [OF init]) simp
  qed
  have choose: "\<exists>r' c. choose_applicable_rule nxt ctx r max_len nt 100 =
      Inr (fst (reservoir romu_duo_jr_next ?items 0 None c), r')" for r
  proof -
    obtain seed r1 where s: "nxt r = (seed, r1)" by (cases "nxt r")
    obtain r2 where "applicable_rules nxt ctx max_len 100 rs r1 = Inr (?items, r2)"
      using applicable_rules_100 [OF all, of nxt max_len r1] by blast
    with s rs(1) show ?thesis
      by (auto simp: choose_applicable_rule_def get_rules_for_nt_def)
  qed
  show "\<exists>x r'. get_random_rule_for_nt nxt ctx r nt max_len = Inr (x, r') \<and>
      x < length (g_rules ctx) \<and> nonterm (g_rules ctx ! x) = nt \<and> the (g_rule_min ctx x) \<le> max_len"
    if "m \<le> max_len"
  proof -
    have ne: "?items \<noteq> []" using rs(2,3) that by (cases rs) auto
    obtain r1 c where c: "choose_applicable_rule nxt ctx r max_len nt 100 =
        Inr (fst (reservoir romu_duo_jr_next ?items 0 None c), r1)"
      using choose by blast
    obtain x c' where x: "reservoir romu_duo_jr_next ?items 0 None c = (Some x, c')" "x \<in> set ?items"
      using reservoir_first [OF ne, of romu_duo_jr_next c] by blast
    from x(2) have "x \<in> set rs" "the (g_rule_min ctx x) \<le> max_len"
      using set_takeWhileD by fastforce+
    with c x(1) rs(4) show ?thesis by (simp add: get_random_rule_for_nt_def)
  qed
  show "get_random_rule_for_nt nxt ctx r nt max_len = Inl Panicked" if "max_len < m"
  proof -
    have none: "?items = []" using rs(2,3) that by (cases rs) auto
    obtain r1 c1 where 1: "choose_applicable_rule nxt ctx r max_len nt 100 = Inr (None, r1)"
      using choose [of r] unfolding none by auto
    obtain r2 c2 where 2: "choose_applicable_rule nxt ctx r1 max_len nt 100 = Inr (None, r2)"
      using choose [of r1] unfolding none by auto
    show ?thesis by (simp add: get_random_rule_for_nt_def 1 2)
  qed
qed

section \<open>Generated trees are derivations\<close>

text \<open>The tree \<open>t\<close> with a forest below its node \<open>p\<close> appended.\<close>

definition grown :: "tree \<Rightarrow> nat \<Rightarrow> dtree list \<Rightarrow> tree" where
  "grown t p ds = \<lparr>t_rules = t_rules t @ fflat ds, t_sizes = t_sizes t @ fsizes ds,
     t_parents = t_parents t @ fparents (length (t_rules t)) p ds\<rparr>"

definition even_tree :: "tree \<Rightarrow> bool" where
  "even_tree t \<longleftrightarrow> length (t_rules t) = length (t_sizes t) \<and> length (t_sizes t) = length (t_parents t)"

lemma even_grown [simp]: "even_tree t \<Longrightarrow> even_tree (grown t p ds)"
  by (simp add: even_tree_def grown_def)

lemma even_push [simp]: "even_tree t \<Longrightarrow> even_tree (push_node rc t)"
  by (simp add: even_tree_def push_node_def)

lemma length_grown [simp]: "length (t_rules (grown t p ds)) = length (t_rules t) + fsize ds"
  by (simp add: grown_def)

lemma grown_Nil [simp]: "grown t p [] = t"
  by (simp add: grown_def)

lemma grown_child:
  assumes "even_tree t" "n = length (t_rules t)"
  shows "(grown (push_node rc t) n ts)
      \<lparr>t_sizes := (t_sizes (grown (push_node rc t) n ts))[n := Suc (fsize ts)],
       t_parents := (t_parents (grown (push_node rc t) n ts))[n := p]\<rparr> =
    grown t p [Node rc ts]"
  using assms by (simp add: grown_def push_node_def even_tree_def list_update_append)

lemma grown_grown: "grown (grown t p [d]) p ds = grown t p (d # ds)"
  by (cases d) (simp add: grown_def)

lemma sum_min_lens_ok:
  "\<forall>nt \<in> set nts. g_nt_min ctx nt \<noteq> None \<Longrightarrow> sum_min_lens ctx nts = Inr (min_sum (g_nt_min ctx) nts)"
  by (induction nts) (auto simp: get_min_len_for_nt_def)

definition regen_total :: "('h, 'r) regen \<Rightarrow> bool" where
  "regen_total regen \<longleftrightarrow> (\<forall>h r. \<exists>d r'. regen h r = Inr (d, r'))"

text \<open>What a call of \<open>generate\<close> does when its length allows the rule's smallest expansion.\<close>

definition generates ::
  "'h gcontext \<Rightarrow> ('h rule \<Rightarrow> nat \<Rightarrow> tree \<Rightarrow> 'r \<Rightarrow> fault + nat \<times> tree \<times> 'r) \<Rightarrow> nat \<Rightarrow> bool" where
  "generates ctx gen bound \<longleftrightarrow> (\<forall>x len t r. x < length (g_rules ctx) \<longrightarrow> len < bound \<longrightarrow>
     min_sum (g_nt_min ctx) (nonterms (g_rules ctx ! x)) \<le> len \<longrightarrow> even_tree t \<longrightarrow> t_rules t \<noteq> [] \<longrightarrow>
     (\<exists>ts r'. gen (g_rules ctx ! x) len t r =
         Inr (Suc (fsize ts), grown t (length (t_rules t) - 1) ts, r') \<and>
       derives (g_rules ctx) (nonterms (g_rules ctx ! x)) ts \<and> fsize ts \<le> len))"

lemma regen_totalE:
  assumes "regen_total regen"
  obtains d r' where "regen h r = Inr (d, r')"
  using assms unfolding regen_total_def by blast

lemma generatesE:
  assumes "generates ctx gen bound" "x < length (g_rules ctx)" "len < bound"
    "min_sum (g_nt_min ctx) (nonterms (g_rules ctx ! x)) \<le> len" "even_tree t" "t_rules t \<noteq> []"
  obtains ts r' where "gen (g_rules ctx ! x) len t r =
      Inr (Suc (fsize ts), grown t (length (t_rules t) - 1) ts, r')"
    "derives (g_rules ctx) (nonterms (g_rules ctx ! x)) ts" "fsize ts \<le> len"
  using assms unfolding generates_def by blast

lemma rule_entry_ok:
  assumes "regen_total regen"
  obtains rc r' where "rule_entry regen x rule r = Inr (rc, r')" "rc_id rc = x" "entry_fits rc rule"
proof (cases rule)
  case (Plain nt cs nts)
  with that [of "Rule x" r] show ?thesis by (auto simp: entry_fits_def)
next
  case (RegExp nt h)
  obtain d r' where "regen h r = Inr (d, r')"
    by (rule regen_totalE [OF assms])
  with RegExp that [of "Custom x d" r'] show ?thesis by (auto simp: entry_fits_def)
qed

lemma children_loop_ok:
  assumes init: "initialized ctx" and reg: "regen_total regen" and gen: "generates ctx gen bound"
  shows "\<forall>nt \<in> set nts. g_nt_min ctx nt \<noteq> None \<Longrightarrow> length nts < 2 ^ 31 \<Longrightarrow>
    remaining + min_sum (g_nt_min ctx) nts \<le> bound \<Longrightarrow> even_tree t \<Longrightarrow>
    \<exists>ts r'. children_loop gen nxt regen ctx p nts remaining acc t r =
        Inr (acc + fsize ts, grown t p ts, r') \<and>
      derives (g_rules ctx) nts ts \<and> fsize ts \<le> remaining + min_sum (g_nt_min ctx) nts"
proof (induction nts arbitrary: remaining acc t r)
  case Nil
  then show ?case by simp
next
  case (Cons nt nts)
  have meas: "measured ctx" using init by (simp add: initialized_def)
  obtain l r1 where l: "get_random_len nxt r remaining (nt # nts) = Inr (l, r1)" "l \<le> remaining"
    by (rule get_random_len_ok [OF Cons.prems(2)])
  obtain m where m: "g_nt_min ctx nt = Some m" using Cons.prems(1) by auto
  let ?cur = "l + m"
  obtain x r2 where x: "get_random_rule_for_nt nxt ctx r1 nt ?cur = Inr (x, r2)"
    "x < length (g_rules ctx)" "nonterm (g_rules ctx ! x) = nt" "the (g_rule_min ctx x) \<le> ?cur"
    using get_random_rule_ok(1) [OF init m, of ?cur nxt r1] by auto
  let ?rule = "g_rules ctx ! x"
  obtain rc r3 where rc: "rule_entry regen x ?rule r2 = Inr (rc, r3)" "rc_id rc = x"
    "entry_fits rc ?rule"
    by (rule rule_entry_ok [OF reg])
  have cur: "Suc (min_sum (g_nt_min ctx) (nonterms ?rule)) \<le> ?cur"
    by (rule initialized_rule [OF init x(2)]) (use x(4) in simp)
  have "?cur - 1 < bound"
    using Cons.prems(3) l(2) m cur by simp
  then obtain ts r4 where ts: "gen ?rule (?cur - 1) (push_node rc t) r3 =
      Inr (Suc (fsize ts), grown (push_node rc t) (length (t_rules t)) ts, r4)"
    "derives (g_rules ctx) (nonterms ?rule) ts" "fsize ts \<le> ?cur - 1"
    by (rule generatesE [OF gen x(2), of "?cur - 1" "push_node rc t" r3])
      (use cur Cons.prems(4) in \<open>simp_all add: push_node_def even_tree_def\<close>)
  let ?d = "Node rc ts"
  have d: "derives (g_rules ctx) [nt] [?d]" using x(2,3) rc(2,3) ts(2) by simp
  have low: "m \<le> Suc (fsize ts)"
    using measured_exact(1) [OF meas d] m by simp
  have up: "Suc (fsize ts) \<le> ?cur" using ts(3) cur by simp
  let ?rem = "remaining + m - Suc (fsize ts)"
  define n where "n = length (t_rules t)"
  then have n: "length (t_rules t) = n" "length (t_sizes t) = n" "length (t_parents t) = n"
    using Cons.prems(4) by (simp_all add: even_tree_def)
  note grow = grown_child [OF Cons.prems(4) n(1) [symmetric], of rc ts p]
  have step: "children_loop gen nxt regen ctx p (nt # nts) remaining acc t r =
    children_loop gen nxt regen ctx p nts ?rem (acc + Suc (fsize ts)) (grown t p [?d]) r4"
    using l m x rc ts low up cur
    by (simp add: get_min_len_for_nt_def get_rule_def Let_def n grow)
  have room: "?rem + min_sum (g_nt_min ctx) nts \<le> bound"
    using Cons.prems(3) m up l(2) low by simp
  obtain es r5 where es: "children_loop gen nxt regen ctx p nts ?rem (acc + Suc (fsize ts))
      (grown t p [?d]) r4 = Inr (acc + Suc (fsize ts) + fsize es, grown (grown t p [?d]) p es, r5)"
    "derives (g_rules ctx) nts es" "fsize es \<le> ?rem + min_sum (g_nt_min ctx) nts"
    using Cons.IH [OF _ _ room, of "grown t p [?d]" "acc + Suc (fsize ts)" r4] Cons.prems(1,2,4)
    by (auto simp del: children_loop.simps)
  have "derives (g_rules ctx) (nt # nts) (?d # es)"
    using d es(2) by simp
  moreover have "fsize (?d # es) \<le> remaining + min_sum (g_nt_min ctx) (nt # nts)"
    using es(3) m up l(2) by simp
  moreover have "children_loop gen nxt regen ctx p (nt # nts) remaining acc t r =
      Inr (acc + fsize (?d # es), grown t p (?d # es), r5)"
    unfolding step es(1) by (simp add: grown_grown)
  ultimately show ?case by blast
qed

lemma generate_ok:
  assumes init: "initialized ctx" and reg: "regen_total regen" and short: "short_rules ctx"
  shows "generates ctx (\<lambda>rule len t r. generate fuel nxt regen ctx rule len t r) fuel"
proof (induction fuel)
  case 0
  then show ?case by (simp add: generates_def)
next
  case (Suc fuel)
  show ?case
    unfolding generates_def
  proof (intro allI impI)
    fix x len :: nat and t :: tree and r :: 'b
    let ?rule = "g_rules ctx ! x" and ?min = "g_nt_min ctx"
    assume x: "x < length (g_rules ctx)" and len: "len < Suc fuel"
      "min_sum ?min (nonterms ?rule) \<le> len" and t: "even_tree t" "t_rules t \<noteq> []"
    have some: "\<forall>nt \<in> set (nonterms ?rule). ?min nt \<noteq> None"
      by (rule initialized_rule [OF init x])
    have "length (nonterms ?rule) < 2 ^ 31"
      using short x by (simp add: short_rules_def)
    from children_loop_ok [OF init reg Suc.IH some this, of "len - min_sum ?min (nonterms ?rule)" t
        nxt "length (t_rules t) - 1" 1 r] len t
    show "\<exists>ts r'. generate (Suc fuel) nxt regen ctx ?rule len t r =
        Inr (Suc (fsize ts), grown t (length (t_rules t) - 1) ts, r') \<and>
      derives (g_rules ctx) (nonterms ?rule) ts \<and> fsize ts \<le> len"
      by (simp add: sum_min_lens_ok [OF some] Suc_le_eq)
  qed
qed

lemma generate_from_rule_ok:
  assumes init: "initialized ctx" and reg: "regen_total regen" and short: "short_rules ctx"
    and x: "x < length (g_rules ctx)" "the (g_rule_min ctx x) \<le> Suc max_len"
  shows "\<exists>t' r'. generate_from_rule nxt regen ctx t r x max_len = Inr (t', r') \<and>
    tree_ok ctx (nonterm (g_rules ctx ! x)) t' \<and> tree_size t' \<le> Suc max_len \<and>
    (\<exists>rc. t_rules t' ! 0 = rc \<and> rc_id rc = x)"
proof (cases "g_rules ctx ! x")
  case (Plain nt cs nts)
  let ?t = "push_node (Rule x) (truncate_tree t)"
  have "min_sum (g_nt_min ctx) (nonterms (g_rules ctx ! x)) \<le> max_len"
    by (rule initialized_rule [OF init x(1)]) (use x(2) in simp)
  moreover have "even_tree ?t" "t_rules ?t = [Rule x]"
    by (simp_all add: push_node_def truncate_tree_def even_tree_def)
  ultimately obtain ts r' where g: "generate (Suc max_len) nxt regen ctx (g_rules ctx ! x) max_len ?t r =
      Inr (Suc (fsize ts), grown ?t 0 ts, r')"
    "derives (g_rules ctx) (nonterms (g_rules ctx ! x)) ts" "fsize ts \<le> max_len"
    by (auto intro: generatesE [OF generate_ok [OF init reg short, of "Suc max_len" nxt] x(1), of max_len ?t r])
  have "generate_from_rule nxt regen ctx t r x max_len = Inr (tree_of [Node (Rule x) ts], r')"
    using g(1) x(1) Plain
    by (simp add: generate_from_rule_def get_rule_def grown_def push_node_def truncate_tree_def tree_of_def)
  moreover have "derives (g_rules ctx) [nonterm (g_rules ctx ! x)] [Node (Rule x) ts]"
    using x(1) g(2) Plain by (simp add: entry_fits_def)
  ultimately show ?thesis
    using g(3) unfolding tree_ok_def by (intro exI conjI) (assumption | simp)+
next
  case (RegExp nt h)
  obtain d r' where d: "regen h r = Inr (d, r')" by (rule regen_totalE [OF reg])
  have "generate_from_rule nxt regen ctx t r x max_len = Inr (tree_of [Node (Custom x d) []], r')"
    using d x(1) RegExp
    by (simp add: generate_from_rule_def get_rule_def push_node_def truncate_tree_def tree_of_def)
  moreover have "derives (g_rules ctx) [nonterm (g_rules ctx ! x)] [Node (Custom x d) []]"
    using x(1) RegExp by (simp add: entry_fits_def)
  ultimately show ?thesis
    unfolding tree_ok_def by (intro exI conjI) (assumption | simp)+
qed

lemma generate_from_nt_ok:
  assumes init: "initialized ctx" and reg: "regen_total regen" and short: "short_rules ctx"
    and m: "g_nt_min ctx nt = Some m" "m \<le> len"
  shows "\<exists>t' r'. generate_from_nt nxt regen ctx t r nt len = Inr (t', r') \<and>
    tree_ok ctx nt t' \<and> m \<le> tree_size t' \<and> tree_size t' \<le> len"
proof -
  obtain x r1 where x: "get_random_rule_for_nt nxt ctx r nt len = Inr (x, r1)"
    "x < length (g_rules ctx)" "nonterm (g_rules ctx ! x) = nt" "the (g_rule_min ctx x) \<le> len"
    using get_random_rule_ok(1) [OF init m, of nxt r] by blast
  have "0 < the (g_rule_min ctx x)"
    by (rule initialized_rule [OF init x(2)]) simp
  with x(4) have len: "Suc (len - 1) = len" by simp
  obtain t' r' where t': "generate_from_rule nxt regen ctx t r1 x (len - 1) = Inr (t', r')"
    "tree_ok ctx nt t'" "tree_size t' \<le> len"
    using generate_from_rule_ok [OF init reg short x(2), of "len - 1" nxt t r1] x(3,4) len by auto
  have "m \<le> tree_size t'"
    using t'(2) measured_exact(1) init m(1) by (fastforce simp: tree_ok_def initialized_def)
  with t' x(1) len show ?thesis
    by (simp add: generate_from_nt_def usub_def)
qed



end
