(* ===== verification/LoadedDice.thy ===== *)
theory LoadedDice
  imports Complex_Main Rands "HOL-Library.Multiset"
begin

text \<open>
  The alias sampler of \<^verbatim>\<open>libaflmm_bolts/src/rands/loaded_dice.rs\<close>. Its
  \<^verbatim>\<open>f64\<close> values are rational numbers here: the arithmetic is exact and the rounding of
  the machine is not modelled. The lemmas: every sample is an index of the distribution, and the
  table gives each index exactly its probability.
\<close>

section \<open>The sampler\<close>

text \<open>\<open>next_float\<close> of the trait \<open>Rand\<close>.\<close>

definition next_float :: "('r \<Rightarrow> u64 \<times> 'r) \<Rightarrow> 'r \<Rightarrow> rat \<times> 'r" where
  "next_float nxt r =
     (let (x, r) = nxt r; u = x AND (2 ^ 53 - 1) in (of_nat (unat u) * (1 / 2 ^ 53), r))"

record alias_entry =
  ae_val :: nat
  ae_alias :: nat
  ae_prob :: rat

definition sort_descending :: "(nat \<times> rat) list \<Rightarrow> (nat \<times> rat) list" where
  "sort_descending tmp = sort_key (\<lambda>(_, p). - p) tmp"

function construct_loop :: "rat \<Rightarrow> rat \<Rightarrow> (nat \<times> rat) list \<Rightarrow> alias_entry list \<Rightarrow> alias_entry list" where
  "construct_loop n inv_n tmp res =
     (if 1 < length tmp
      then (let tmp = sort_descending tmp;
                (min_i, min_p) = last tmp;
                tmp = butlast tmp;
                (max_i, max_p) = hd tmp;
                entry = \<lparr>ae_val = min_i, ae_alias = max_i, ae_prob = min_p * n\<rparr>;
                used_prob = inv_n - min_p
            in construct_loop n inv_n ((max_i, max_p - used_prob) # tl tmp) (res @ [entry]))
      else (let (last_i, last_p) = last tmp
            in res @ [\<lparr>ae_val = last_i, ae_alias = usize_max, ae_prob = 1\<rparr>]))"
  by pat_completeness auto

termination
  by (relation "measure (\<lambda>(_, _, tmp, _). length tmp)") (auto simp: sort_descending_def)

declare construct_loop.simps [simp del]

definition construct_table :: "rat list \<Rightarrow> alias_entry list" where
  "construct_table probs =
     (let n = of_nat (length probs); inv_n = 1 / of_nat (length probs)
      in construct_loop n inv_n (zip [0..<length probs] probs) [])"

definition dice_new :: "rat list \<Rightarrow> alias_entry list option" where
  "dice_new probs = (if probs = [] then None else Some (construct_table probs))"

definition dice_sample :: "('r \<Rightarrow> u64 \<times> 'r) \<Rightarrow> alias_entry list \<Rightarrow> 'r \<Rightarrow> nat \<times> 'r" where
  "dice_sample nxt entries r =
     (let (index, r) = below nxt r (length entries);
          (coin, r) = next_float nxt r;
          entry = entries ! index
      in (if ae_prob entry < coin then ae_alias entry else ae_val entry, r))"

section \<open>The table is exact\<close>

text \<open>
  The share of an index in a table, in units of one entry: all of the entries whose value it is
  up to their probability, and the rest of those whose alias it is. The share in a list of
  remaining probabilities.
\<close>

definition share :: "alias_entry list \<Rightarrow> nat \<Rightarrow> rat" where
  "share entries i = (\<Sum>e \<leftarrow> entries. (if ae_val e = i then ae_prob e else 0) +
     (if ae_alias e = i then 1 - ae_prob e else 0))"

definition rest_share :: "(nat \<times> rat) list \<Rightarrow> nat \<Rightarrow> rat" where
  "rest_share tmp i = (\<Sum>(j, p) \<leftarrow> tmp. if j = i then p else 0)"

definition rest_sum :: "(nat \<times> rat) list \<Rightarrow> rat" where
  "rest_sum tmp = (\<Sum>(j, p) \<leftarrow> tmp. p)"

lemma sum_list_sort [simp]: "(\<Sum>x \<leftarrow> sort_descending tmp. f x :: rat) = (\<Sum>x \<leftarrow> tmp. f x)"
  by (simp add: sort_descending_def flip: sum_mset_sum_list)

lemma share_append [simp]: "share (es @ fs) i = share es i + share fs i"
  by (simp add: share_def)

lemma rest_simps [simp]:
  "rest_share (sort_descending tmp) i = rest_share tmp i" "rest_sum (sort_descending tmp) = rest_sum tmp"
  "rest_share ((j, p) # tmp) i = (if j = i then p else 0) + rest_share tmp i"
  "rest_share (tmp @ tmp') i = rest_share tmp i + rest_share tmp' i"
  "rest_sum ((j, p) # tmp) = p + rest_sum tmp" "rest_sum (tmp @ tmp') = rest_sum tmp + rest_sum tmp'"
  "rest_sum [] = 0" "rest_share [] i = 0"
  by (simp_all add: rest_share_def rest_sum_def)

text \<open>The parts of the sorted list: its first entry, the middle, and the last one.\<close>

lemma sorted_parts:
  assumes "1 < length tmp"
  obtains a p mid b q where "sort_descending tmp = (a, p) # mid @ [(b, q)]"
    "\<forall>(j, x) \<in> set tmp. q \<le> x \<and> x \<le> p" "set tmp = set ((a, p) # mid @ [(b, q)])"
    "length tmp = length mid + 2"
proof -
  let ?s = "sort_descending tmp"
  have len: "length ?s = length tmp" and set: "set ?s = set tmp"
    by (simp_all add: sort_descending_def)
  obtain x s where s: "?s = x # s" using assms len by (cases ?s) auto
  moreover have "s \<noteq> []" using s assms len by auto
  then obtain mid y where "s = mid @ [y]" by (cases s rule: rev_cases) auto
  ultimately have parts: "?s = x # mid @ [y]" by simp
  obtain a p b q where xy: "x = (a, p)" "y = (b, q)" by (cases x; cases y)
  have "sorted (map (\<lambda>(_, p). - p) ?s)" by (simp add: sort_descending_def)
  then have "\<forall>(j, v) \<in> set ?s. q \<le> v \<and> v \<le> p"
    unfolding parts xy by (auto simp: sorted_append)
  then show ?thesis
    using that [of a p mid b q] parts xy set len by auto
qed

lemma construct_loop_step:
  assumes "1 < length tmp" "sort_descending tmp = (a, p) # mid @ [(b, q)]"
  shows "construct_loop n inv_n tmp res =
    construct_loop n inv_n ((a, p - (inv_n - q)) # mid)
      (res @ [\<lparr>ae_val = b, ae_alias = a, ae_prob = q * n\<rparr>])"
  using assms(1) by (simp only: construct_loop.simps [of n inv_n tmp res] assms(2) Let_def
      list.sel butlast.simps last.simps prod.case if_True) simp

lemma average_between:
  assumes "\<forall>(j, x) \<in> set tmp. q \<le> x \<and> x \<le> p"
  shows "of_nat (length tmp) * q \<le> rest_sum tmp \<and> rest_sum tmp \<le> of_nat (length tmp) * p"
  using assms
proof (induction tmp)
  case (Cons jx tmp)
  then show ?case by (cases jx) (auto simp: algebra_simps)
qed simp

text \<open>What holds of the remaining probabilities: none is negative and their average is \<open>inv_n\<close>.\<close>

definition rest_ok :: "rat \<Rightarrow> (nat \<times> rat) list \<Rightarrow> bool" where
  "rest_ok inv_n tmp \<longleftrightarrow> (\<forall>(j, x) \<in> set tmp. 0 \<le> x) \<and> rest_sum tmp = of_nat (length tmp) * inv_n"

lemma rest_ok_step:
  assumes ok: "rest_ok inv_n tmp" and len: "1 < length tmp"
    and parts: "sort_descending tmp = (a, p) # mid @ [(b, q)]"
      "\<forall>(j, x) \<in> set tmp. q \<le> x \<and> x \<le> p" "set tmp = set ((a, p) # mid @ [(b, q)])"
      "length tmp = length mid + 2"
  shows "rest_ok inv_n ((a, p - (inv_n - q)) # mid)" "0 \<le> q" "q \<le> inv_n"
proof -
  have pos: "(0 :: rat) < of_nat (length tmp)" using len by (simp only: of_nat_0_less_iff)
  have avg: "of_nat (length tmp) * q \<le> of_nat (length tmp) * inv_n"
    "of_nat (length tmp) * inv_n \<le> of_nat (length tmp) * p"
    using average_between [OF parts(2)] ok by (simp_all add: rest_ok_def)
  from avg pos have q: "q \<le> inv_n" and p: "inv_n \<le> p" by simp_all
  show "q \<le> inv_n" by (rule q)
  show q0: "0 \<le> q" using ok parts(3) by (auto simp: rest_ok_def)
  have "rest_sum tmp = p + rest_sum mid + q"
    using arg_cong [OF parts(1), of rest_sum] by simp
  then have "rest_sum ((a, p - (inv_n - q)) # mid) = rest_sum tmp - inv_n" by simp
  also have "\<dots> = of_nat (length ((a, p - (inv_n - q)) # mid)) * inv_n"
    using ok parts(4) by (simp add: rest_ok_def algebra_simps)
  finally show "rest_ok inv_n ((a, p - (inv_n - q)) # mid)"
    using ok parts(3) p q0 by (auto simp: rest_ok_def)
qed

definition entry_ok :: "nat set \<Rightarrow> alias_entry \<Rightarrow> bool" where
  "entry_ok is e \<longleftrightarrow> ae_val e \<in> is \<and> 0 \<le> ae_prob e \<and> ae_prob e \<le> 1 \<and>
     (ae_alias e \<in> is \<or> ae_prob e = 1)"

lemma construct_loop_exact:
  assumes "rest_ok inv_n tmp" "tmp \<noteq> []" "n * inv_n = 1" "0 < n" "fst ` set tmp \<subseteq> is"
  shows "\<exists>es. construct_loop n inv_n tmp res = res @ es \<and> length es = length tmp \<and>
    (\<forall>e \<in> set es. entry_ok is e) \<and> (\<forall>i. share es i = n * rest_share tmp i)"
  using assms
proof (induction "length tmp" arbitrary: tmp res rule: less_induct)
  case less
  show ?case
  proof (cases "1 < length tmp")
    case True
    obtain a p mid b q where parts: "sort_descending tmp = (a, p) # mid @ [(b, q)]"
      "\<forall>(j, x) \<in> set tmp. q \<le> x \<and> x \<le> p" "set tmp = set ((a, p) # mid @ [(b, q)])"
      "length tmp = length mid + 2"
      by (rule sorted_parts [OF True])
    let ?tmp = "(a, p - (inv_n - q)) # mid"
    let ?e = "\<lparr>ae_val = b, ae_alias = a, ae_prob = q * n\<rparr>"
    note step = rest_ok_step [OF less.prems(1) True parts]
    have a: "a \<in> is" "b \<in> is" using less.prems(5) parts(3) by force+
    have "fst ` set ?tmp \<subseteq> is" using less.prems(5) parts(3) by auto
    with less.hyps [of ?tmp "res @ [?e]"] parts(4) step(1) less.prems(3,4)
    obtain es where es: "construct_loop n inv_n ?tmp (res @ [?e]) = (res @ [?e]) @ es"
      "length es = length ?tmp" "\<forall>e \<in> set es. entry_ok is e" "\<forall>i. share es i = n * rest_share ?tmp i"
      by auto
    have "q * n \<le> inv_n * n" using step(3) less.prems(4) by simp
    then have "q * n \<le> 1" using less.prems(3) by (simp add: mult.commute [of inv_n])
    then have "entry_ok is ?e"
      using a step(2) less.prems(4) by (simp add: entry_ok_def)
    moreover have "share (?e # es) i = n * rest_share tmp i" for i
    proof -
      have "rest_share tmp i = rest_share (sort_descending tmp) i" by simp
      also have "\<dots> = (if a = i then p else 0) + rest_share mid i + (if b = i then q else 0)"
        unfolding parts(1) by simp
      finally have r: "rest_share tmp i = (if a = i then p else 0) + rest_share mid i + (if b = i then q else 0)" .
      have "share (?e # es) i = share [?e] i + share es i" by (simp add: share_def)
      also have "share es i = n * ((if a = i then p - (inv_n - q) else 0) + rest_share mid i)"
        using es(4) by simp
      finally show ?thesis
        using less.prems(3) unfolding r by (auto simp: share_def algebra_simps)
    qed
    ultimately show ?thesis
      using construct_loop_step [OF True parts(1), of n inv_n res] es(1,2,3) parts(4)
      by (intro exI [of _ "?e # es"]) simp
  next
    case False
    with less.prems(2) obtain j x where tmp: "tmp = [(j, x)]"
      by (cases tmp) (auto simp: Suc_le_eq)
    have "n * x = 1" using less.prems(1,3) by (simp add: tmp rest_ok_def)
    then show ?thesis
      using less.prems(5)
      by (intro exI [of _ "[\<lparr>ae_val = j, ae_alias = usize_max, ae_prob = 1\<rparr>]"])
        (auto simp: construct_loop.simps [of n inv_n "[(j, x)]"] tmp share_def entry_ok_def)
  qed
qed

definition distribution :: "rat list \<Rightarrow> bool" where
  "distribution probs \<longleftrightarrow> probs \<noteq> [] \<and> (\<forall>p \<in> set probs. 0 \<le> p) \<and> sum_list probs = 1"

lemma rest_zip:
  "rest_sum (zip is probs) = sum_list probs" if "length is = length probs"
  using that by (induction "is" probs rule: list_induct2) simp_all

lemma rest_share_zip:
  "i < length probs \<Longrightarrow> rest_share (zip [k..<k + length probs] probs) (k + i) = probs ! i"
proof (induction probs arbitrary: k i)
  case (Cons p probs)
  have later: "rest_share (zip [j..<j + length ps] ps) k = 0" if "k < j" for j and ps :: "rat list"
    using that
  proof (induction ps arbitrary: j)
    case (Cons y ps)
    then show ?case using Cons.IH [of "Suc j"] by (simp add: upt_conv_Cons del: upt_Suc)
  qed simp
  show ?case
  proof (cases i)
    case 0
    then show ?thesis using later [of "Suc k" probs] by (simp add: upt_conv_Cons del: upt_Suc)
  next
    case (Suc i')
    then show ?thesis
      using Cons.IH [of i' "Suc k"] Cons.prems by (simp add: upt_conv_Cons del: upt_Suc)
  qed
qed simp

text \<open>
  For a distribution the sampler can be built. Its table has one entry for each index, each with a
  probability between 0 and 1, and gives every index exactly its share: the entries that
  return it as their value or as their alias make up \<open>length probs\<close> times its probability.
\<close>

lemma dice_new_exact:
  assumes "distribution probs"
  shows "\<exists>entries. dice_new probs = Some entries \<and> length entries = length probs \<and>
    (\<forall>e \<in> set entries. entry_ok {..<length probs} e) \<and>
    (\<forall>i < length probs. share entries i = of_nat (length probs) * probs ! i)"
proof -
  let ?n = "of_nat (length probs) :: rat" and ?tmp = "zip [0..<length probs] probs"
  have n: "0 < ?n" "probs \<noteq> []" using assms by (auto simp: distribution_def)
  have ok: "rest_ok (1 / ?n) ?tmp"
    using assms n(1) by (auto simp: rest_ok_def rest_zip distribution_def dest!: set_zip_rightD)
  have "fst ` set ?tmp \<subseteq> {..<length probs}" by (auto dest: set_zip_leftD)
  with construct_loop_exact [OF ok, of ?n "{..<length probs}" "[]"] n obtain es where
    "construct_loop ?n (1 / ?n) ?tmp [] = es" "length es = length probs"
    "\<forall>e \<in> set es. entry_ok {..<length probs} e" "\<forall>i. share es i = ?n * rest_share ?tmp i"
    by auto
  then show ?thesis
    using rest_share_zip [of _ probs 0] n(2)
    by (simp add: dice_new_def construct_table_def)
qed

lemma next_float_range: "fst (next_float nxt r) < 1" "0 \<le> fst (next_float nxt r)"
proof -
  obtain x r' where x: "nxt r = (x, r')" by (cases "nxt r")
  have "x AND (2 ^ 53 - 1) = take_bit 53 x" by (simp add: take_bit_eq_mask mask_eq_exp_minus_1)
  then have "unat (x AND (2 ^ 53 - 1)) < 2 ^ 53"
    by (metis unsigned_take_bit_eq take_bit_nat_less_exp)
  then have "(of_nat (unat (x AND (2 ^ 53 - 1))) :: rat) < of_nat (2 ^ 53)"
    by (simp only: of_nat_less_iff)
  moreover have "(0 :: rat) \<le> of_nat (unat (x AND (2 ^ 53 - 1)))" by (rule of_nat_0_le_iff)
  ultimately show "fst (next_float nxt r) < 1" "0 \<le> fst (next_float nxt r)"
    by (simp_all add: next_float_def x Let_def)
qed

lemma dice_sample_range:
  assumes "\<forall>e \<in> set entries. entry_ok is e" "entries \<noteq> []"
  shows "fst (dice_sample nxt entries r) \<in> is"
proof -
  obtain index r1 where b: "below nxt r (length entries) = (index, r1)" by force
  have "index < length entries" using rnd.below_eq_lt [OF b] assms(2) by simp
  then have "entry_ok is (entries ! index)" using assms(1) by simp
  then show ?thesis
    using b next_float_range(1) [of nxt r1]
    by (auto simp: dice_sample_def Let_def entry_ok_def split: prod.splits)
qed

section \<open>Properties\<close>



end
