(* ===== verification/Recursions.thy ===== *)
theory Recursions
  imports Generation LoadedDice
begin

text \<open>
  Recursions in a tree (\<^verbatim>\<open>common/nautilus/grammartec/recursion_info.rs\<close>,
  \<open>calc_recursions\<close> of \<^verbatim>\<open>tree.rs\<close>): the pairs of a node and an ancestor with the same
  nonterminal, and the sampling of one. The lemmas: every pair that can be sampled is a node and
  its nearest such ancestor, and building and sampling never panic.
\<close>

section \<open>RecursionInfo\<close>

text \<open>The parents, the nodes and their depths; absent until the first recursion is found.\<close>

type_synonym found_pairs = "((nat \<rightharpoonup> nat) \<times> nat list \<times> nat list) option"

definition add_found :: "nat \<times> nat \<times> nat \<Rightarrow> found_pairs \<Rightarrow> found_pairs" where
  "add_found = (\<lambda>(node, parent, depth) res.
     let (parents, ids, weights) = (case res of Some x \<Rightarrow> x | None \<Rightarrow> (Map.empty, [], []))
     in Some (parents(node \<mapsto> parent), ids @ [node], weights @ [depth]))"

fun find_parents_loop ::
  "'h gcontext \<Rightarrow> nat \<Rightarrow> nat \<Rightarrow> rule_or_custom list \<Rightarrow> (nat option \<times> nat) list \<Rightarrow> found_pairs \<Rightarrow> fault + found_pairs" where
  "find_parents_loop ctx nt i [] stack res = Inr res"
| "find_parents_loop ctx nt i (rc # rcs) stack res =
     (case stack of
        [] \<Rightarrow> Inl Panicked
      | (maybe_parent, depth) # stack \<Rightarrow>
          rbind (get_nt rc ctx) (\<lambda>n.
          let res = (if n = nt
                     then (case maybe_parent of Some parent \<Rightarrow> add_found (i, parent, depth) res | None \<Rightarrow> res)
                     else res);
              maybe_parent = (if n = nt then Some i else maybe_parent)
          in rbind (get_num_children rc ctx) (\<lambda>k.
             find_parents_loop ctx nt (Suc i) rcs (replicate k (maybe_parent, depth + 1) @ stack) res)))"

definition find_parents :: "tree \<Rightarrow> nat \<Rightarrow> 'h gcontext \<Rightarrow> fault + found_pairs" where
  "find_parents t nt ctx = find_parents_loop ctx nt 0 (t_rules t) [(None, 0)] None"

definition build_sampler :: "nat list \<Rightarrow> fault + alias_entry list" where
  "build_sampler depths =
     (let weights = map of_nat depths; norm = sum_list weights
      in rbind (assert_that (0 < norm)) (\<lambda>_.
         case dice_new (map (\<lambda>v. v / norm) weights) of
           Some s \<Rightarrow> Inr s
         | None \<Rightarrow> Inl (Fault IllegalArgument)))"

record recursion_info =
  ri_parents :: "nat \<rightharpoonup> nat"
  ri_sampler :: "alias_entry list"
  ri_depths :: "nat list"
  ri_nodes :: "nat list"

text \<open>An error of the sampler meets an \<open>expect\<close>.\<close>

definition recursion_info_new :: "tree \<Rightarrow> nat \<Rightarrow> 'h gcontext \<Rightarrow> fault + recursion_info option" where
  "recursion_info_new t n ctx =
     rbind (find_parents t n ctx) (\<lambda>res. case res of
       None \<Rightarrow> Inr None
     | Some (parents, nodes, depths) \<Rightarrow>
         (case build_sampler depths of
            Inl _ \<Rightarrow> Inl Panicked
          | Inr sampler \<Rightarrow> Inr (Some \<lparr>ri_parents = parents, ri_sampler = sampler,
              ri_depths = depths, ri_nodes = nodes\<rparr>)))"

fun pair_loop :: "recursion_info \<Rightarrow> nat \<Rightarrow> nat \<Rightarrow> nat \<Rightarrow> fault + nat" where
  "pair_loop ri node1 0 node2 = Inr node2"
| "pair_loop ri node1 (Suc k) node2 =
     rbind (some_or_panic (ri_parents ri node1)) (\<lambda>p. pair_loop ri node1 k p)"

definition get_recursion_pair_by_offset :: "recursion_info \<Rightarrow> nat \<Rightarrow> fault + nat \<times> nat" where
  "get_recursion_pair_by_offset ri offset =
     rbind (nth_or_panic (ri_nodes ri) offset) (\<lambda>node1.
     rbind (nth_or_panic (ri_depths ri) offset) (\<lambda>depth.
     rbind (pair_loop ri node1 depth node1) (\<lambda>node2. Inr (node2, node1))))"

definition get_random_recursion_pair ::
  "('r \<Rightarrow> u64 \<times> 'r) \<Rightarrow> recursion_info \<Rightarrow> 'r \<Rightarrow> fault + (nat \<times> nat) \<times> 'r" where
  "get_random_recursion_pair nxt ri r =
     (let (offset, r) = dice_sample nxt (ri_sampler ri) r
      in rbind (get_recursion_pair_by_offset ri offset) (\<lambda>pair. Inr (pair, r)))"

definition get_number_of_recursions :: "recursion_info \<Rightarrow> nat" where
  "get_number_of_recursions ri = length (ri_nodes ri)"

fun calc_recursions_loop ::
  "tree \<Rightarrow> 'h gcontext \<Rightarrow> rule_or_custom list \<Rightarrow> nat set \<Rightarrow> recursion_info list
    \<Rightarrow> fault + recursion_info list" where
  "calc_recursions_loop t ctx [] done_nterms ret = Inr ret"
| "calc_recursions_loop t ctx (rule # rules) done_nterms ret =
     rbind (get_nt rule ctx) (\<lambda>nterm.
     if nterm \<in> done_nterms then calc_recursions_loop t ctx rules done_nterms ret
     else rbind (recursion_info_new t nterm ctx) (\<lambda>info.
          calc_recursions_loop t ctx rules (insert nterm done_nterms)
            (case info of Some i \<Rightarrow> ret @ [i] | None \<Rightarrow> ret)))"

definition calc_recursions :: "tree \<Rightarrow> 'h gcontext \<Rightarrow> fault + recursion_info list option" where
  "calc_recursions t ctx =
     rbind (calc_recursions_loop t ctx (t_rules t) {} []) (\<lambda>ret.
     Inr (if ret = [] then None else Some ret))"

section \<open>The recursions of a derivation\<close>

text \<open>
  A node, its nearest ancestor with the nonterminal, and the depth of the node below the root.
\<close>

definition pair_here :: "bool \<Rightarrow> nat \<Rightarrow> nat option \<Rightarrow> nat \<Rightarrow> (nat \<times> nat \<times> nat) list" where
  "pair_here here i mp d = (if here then (case mp of Some p \<Rightarrow> [(i, p, d)] | None \<Rightarrow> []) else [])"

lemma pair_here_iff: "x \<in> set (pair_here b i mp d) \<longleftrightarrow> b \<and> (\<exists>p. mp = Some p \<and> x = (i, p, d))"
  by (cases b; cases mp) (simp_all add: pair_here_def)

lemma fold_pair_here:
  "fold add_found (pair_here b i mp d) res =
     (if b then (case mp of Some p \<Rightarrow> add_found (i, p, d) res | None \<Rightarrow> res) else res)"
  by (cases b; cases mp) (simp_all add: pair_here_def)

lemma distinct_pair_here: "distinct (map fst (pair_here b i mp d))"
  by (cases b; cases mp) (simp_all add: pair_here_def)

fun rec_pairs :: "'h rule list \<Rightarrow> nat \<Rightarrow> nat \<Rightarrow> nat option \<Rightarrow> nat \<Rightarrow> dtree list \<Rightarrow> (nat \<times> nat \<times> nat) list" where
  "rec_pairs rules nt i mp d [] = []"
| "rec_pairs rules nt i mp d (Node rc ts # ds) =
     pair_here (nonterm (rules ! rc_id rc) = nt) i mp d @
     rec_pairs rules nt (Suc i) (if nonterm (rules ! rc_id rc) = nt then Some i else mp) (Suc d) ts @
     rec_pairs rules nt (Suc (i + fsize ts)) mp d ds"

lemma find_parents_forest:
  "derives (g_rules ctx) nts ds \<Longrightarrow>
   find_parents_loop ctx nt i (fflat ds @ rest) (replicate (length nts) (mp, d) @ stack) res =
   find_parents_loop ctx nt (i + fsize ds) rest stack
     (fold add_found (rec_pairs (g_rules ctx) nt i mp d ds) res)"
proof (induction "g_rules ctx" nts ds arbitrary: i mp d rest stack res rule: derives.induct)
  case (2 n nts rc ts ds)
  let ?r = "g_rules ctx ! rc_id rc"
  have d: "rc_id rc < length (g_rules ctx)" "nonterm ?r = n"
    "derives (g_rules ctx) (nonterms ?r) ts" "derives (g_rules ctx) nts ds"
    using "2.prems" by simp_all
  let ?mp = "if n = nt then Some i else mp"
  let ?res = "if n = nt then (case mp of Some p \<Rightarrow> add_found (i, p, d) res | None \<Rightarrow> res) else res"
  have "find_parents_loop ctx nt i (fflat (Node rc ts # ds) @ rest)
      (replicate (length (n # nts)) (mp, d) @ stack) res =
    find_parents_loop ctx nt (Suc i) (fflat ts @ fflat ds @ rest)
      (replicate (length (nonterms ?r)) (?mp, Suc d) @ replicate (length nts) (mp, d) @ stack) ?res"
    using d(1,2) by (simp add: get_nt_def get_num_children_def get_rule_def number_of_nonterms_def Let_def)
  also have "\<dots> = find_parents_loop ctx nt (Suc i + fsize ts) (fflat ds @ rest)
      (replicate (length nts) (mp, d) @ stack)
      (fold add_found (rec_pairs (g_rules ctx) nt (Suc i) ?mp (Suc d) ts) ?res)"
    by (rule "2.hyps"(1) [OF d(3)])
  also have "\<dots> = find_parents_loop ctx nt (Suc i + fsize ts + fsize ds) rest stack
      (fold add_found (rec_pairs (g_rules ctx) nt (Suc i + fsize ts) mp d ds)
        (fold add_found (rec_pairs (g_rules ctx) nt (Suc i) ?mp (Suc d) ts) ?res))"
    by (rule "2.hyps"(2) [OF d(4)])
  finally show ?case
    using d(2) by (simp add: add.assoc fold_pair_here)
qed simp_all

lemma rec_pairs_range:
  "(j, q, e) \<in> set (rec_pairs rls n k m dd ds) \<Longrightarrow> k \<le> j \<and> j < k + fsize ds"
  by (induction rls n k m dd ds rule: rec_pairs.induct) (auto simp: pair_here_iff)

lemma rec_pairs_distinct: "distinct (map fst (rec_pairs rls n k m dd ds))"
proof (induction rls n k m dd ds rule: rec_pairs.induct)
  case (2 rules nt i mp d rc ts ds)
  have r1: "Suc i \<le> j \<and> j < Suc i + fsize ts"
    if "j \<in> fst ` set (rec_pairs rules nt (Suc i) (if nonterm (rules ! rc_id rc) = nt then Some i else mp) (Suc d) ts)" for j
    using that rec_pairs_range by fastforce
  have r2: "Suc (i + fsize ts) \<le> j"
    if "j \<in> fst ` set (rec_pairs rules nt (Suc (i + fsize ts)) mp d ds)" for j
    using that rec_pairs_range by fastforce
  show ?case
    using 2 r1 r2 by (auto simp: distinct_pair_here pair_here_iff image_iff) fastforce+
qed simp

text \<open>What each pair is: a node below its ancestor, both with the nonterminal.\<close>

definition rec_pair_ok :: "'h rule list \<Rightarrow> nat \<Rightarrow> dtree list \<Rightarrow> nat \<Rightarrow> nat \<Rightarrow> bool" where
  "rec_pair_ok rules nt ds q j \<longleftrightarrow> q < j \<and> j < q + fsize [fget ds q] \<and>
     root_nt rules (fget ds q) = nt \<and> root_nt rules (fget ds j) = nt"

lemma rec_pairs_ok:
  "(j, q, e) \<in> set (rec_pairs rls n k m dd ds) \<Longrightarrow> (m \<noteq> None \<Longrightarrow> 0 < dd) \<Longrightarrow> 0 < e \<and>
     root_nt rls (fget ds (j - k)) = n \<and> (m = Some q \<or> (k \<le> q \<and> rec_pair_ok rls n ds (q - k) (j - k)))"
proof (induction rls n k m dd ds rule: rec_pairs.induct)
  case (2 rules nt i mp d rc ts ds)
  let ?m = "nonterm (rules ! rc_id rc) = nt" and ?mp = "if nonterm (rules ! rc_id rc) = nt then Some i else mp"
  from "2.prems"(1) consider
      (root) "?m" "mp = Some q" "j = i" "e = d"
    | (below) "(j, q, e) \<in> set (rec_pairs rules nt (Suc i) ?mp (Suc d) ts)"
    | (beside) "(j, q, e) \<in> set (rec_pairs rules nt (Suc (i + fsize ts)) mp d ds)"
    by (auto simp: pair_here_iff)
  then show ?case
  proof cases
    case root
    with "2.prems"(2) show ?thesis by simp
  next
    case below
    have r: "Suc i \<le> j" "j < Suc i + fsize ts" using rec_pairs_range [OF below] by auto
    have IH: "0 < e \<and> root_nt rules (fget ts (j - Suc i)) = nt \<and>
        (?mp = Some q \<or> (Suc i \<le> q \<and> rec_pair_ok rules nt ts (q - Suc i) (j - Suc i)))"
      by (rule "2.IH"(1) [OF below]) simp
    have under: "fget (Node rc ts # ds) (k - i) = fget ts (k - Suc i)"
      if "Suc i \<le> k" "k < Suc i + fsize ts" for k
    proof -
      have "k - i \<noteq> 0" "k - i \<le> fsize ts" "k - i - 1 = k - Suc i" using that by linarith+
      then show ?thesis by (simp only: fget.simps if_False if_True)
    qed
    note j = under [OF r]
    consider "?m" "q = i" | "mp = Some q" | "Suc i \<le> q" "rec_pair_ok rules nt ts (q - Suc i) (j - Suc i)"
      using IH by (auto split: if_splits)
    then show ?thesis
    proof cases
      case 1
      then have "rec_pair_ok rules nt (Node rc ts # ds) (q - i) (j - i)"
        using IH r unfolding rec_pair_ok_def j by auto
      with IH j 1 show ?thesis by (simp only: j) simp
    next
      case 2
      with IH j show ?thesis by simp
    next
      case 3
      then have lt: "q - Suc i < j - Suc i" "j - Suc i < (q - Suc i) + fsize [fget ts (q - Suc i)]"
        by (simp_all only: rec_pair_ok_def)
      then have "q < j" by linarith
      with 3 r have q: "fget (Node rc ts # ds) (q - i) = fget ts (q - Suc i)" by (intro under) simp_all
      have "q - i < j - i" "j - i < (q - i) + fsize [fget ts (q - Suc i)]"
        using lt 3(1) r(1) by linarith+
      then have "rec_pair_ok rules nt (Node rc ts # ds) (q - i) (j - i)"
        using 3(2) unfolding rec_pair_ok_def j q by blast
      with IH 3(1) show ?thesis by (simp only: j) simp
    qed
  next
    case beside
    have r: "Suc (i + fsize ts) \<le> j" "j < Suc (i + fsize ts) + fsize ds"
      using rec_pairs_range [OF beside] by auto
    have IH: "0 < e \<and> root_nt rules (fget ds (j - Suc (i + fsize ts))) = nt \<and>
        (mp = Some q \<or> (Suc (i + fsize ts) \<le> q \<and>
          rec_pair_ok rules nt ds (q - Suc (i + fsize ts)) (j - Suc (i + fsize ts))))"
      by (rule "2.IH"(2) [OF beside "2.prems"(2)])
    have at: "fget (Node rc ts # ds) (k - i) = fget ds (k - Suc (i + fsize ts))"
      if "Suc (i + fsize ts) \<le> k" for k
    proof -
      have "k - i \<noteq> 0" "\<not> k - i \<le> fsize ts" "k - i - Suc (fsize ts) = k - Suc (i + fsize ts)"
        using that by simp_all
      then show ?thesis by (simp only: fget.simps if_False)
    qed
    show ?thesis
    proof (cases "mp = Some q")
      case False
      with IH have q: "Suc (i + fsize ts) \<le> q"
        "rec_pair_ok rules nt ds (q - Suc (i + fsize ts)) (j - Suc (i + fsize ts))" by auto
      let ?k = "Suc (i + fsize ts)"
      have "q - ?k < j - ?k" "j - ?k < (q - ?k) + fsize [fget ds (q - ?k)]"
        using q(2) by (simp_all only: rec_pair_ok_def)
      then have "q - i < j - i" "j - i < (q - i) + fsize [fget ds (q - ?k)]"
        using q(1) r(1) by linarith+
      then have "rec_pair_ok rules nt (Node rc ts # ds) (q - i) (j - i)"
        using q(2) unfolding rec_pair_ok_def at [OF q(1)] at [OF r(1)] by blast
      with q IH at [OF r(1)] show ?thesis by simp
    qed (use IH at [OF r(1)] in simp)
  qed
qed simp

lemma add_found_simp:
  "add_found (j, q, e) res = Some (case res of None \<Rightarrow> ([j \<mapsto> q], [j], [e])
     | Some (parents, ids, weights) \<Rightarrow> (parents(j \<mapsto> q), ids @ [j], weights @ [e]))"
  by (simp add: add_found_def split: option.splits prod.splits)

text \<open>What the search returns.\<close>

lemma fold_add_found_Some:
  "fold add_found pairs (Some (parents, ids, weights)) =
     Some (parents ++ map_of (rev (map (\<lambda>(j, q, e). (j, q)) pairs)),
       ids @ map fst pairs, weights @ map (\<lambda>(j, q, e). e) pairs)"
proof (induction pairs arbitrary: parents ids weights)
  case (Cons x pairs)
  obtain j q e where "x = (j, q, e)" by (cases x)
  with Cons show ?case by (simp add: add_found_simp map_add_def fun_eq_iff split: option.splits)
qed simp

lemma fold_add_found:
  "fold add_found pairs None = (if pairs = [] then None else
     Some (map_of (rev (map (\<lambda>(j, q, e). (j, q)) pairs)), map fst pairs, map (\<lambda>(j, q, e). e) pairs))"
proof (cases pairs)
  case (Cons x xs)
  obtain j q e where "x = (j, q, e)" by (cases x)
  with Cons show ?thesis by (simp add: add_found_simp fold_add_found_Some map_add_def fun_eq_iff split: option.splits)
qed simp

lemma find_parents_exact:
  assumes "derives (g_rules ctx) [n] [d]"
  shows "find_parents (tree_of [d]) nt ctx =
    Inr (fold add_found (rec_pairs (g_rules ctx) nt 0 None 0 [d]) None)"
proof -
  have "find_parents_loop ctx nt 0 (fflat [d] @ []) (replicate (length [n]) (None, 0) @ []) None =
    find_parents_loop ctx nt (0 + fsize [d]) [] [] (fold add_found (rec_pairs (g_rules ctx) nt 0 None 0 [d]) None)"
    by (rule find_parents_forest [OF assms])
  then show ?thesis by (simp add: find_parents_def)
qed

section \<open>Sampling a recursion\<close>

text \<open>
  What a \<open>recursion_info\<close> of a tree holds: the nodes are distinct from none of their
  recorded ancestors, the table samples one of the nodes.
\<close>

definition info_ok :: "'h rule list \<Rightarrow> dtree \<Rightarrow> nat \<Rightarrow> recursion_info \<Rightarrow> bool" where
  "info_ok rules d nt ri \<longleftrightarrow> (\<exists>pairs. pairs \<noteq> [] \<and> pairs = rec_pairs rules nt 0 None 0 [d] \<and>
     ri_nodes ri = map fst pairs \<and> ri_depths ri = map (\<lambda>(j, q, e). e) pairs \<and>
     ri_parents ri = map_of (rev (map (\<lambda>(j, q, e). (j, q)) pairs)) \<and>
     ri_sampler ri \<noteq> [] \<and> (\<forall>e \<in> set (ri_sampler ri). entry_ok {..<length pairs} e))"

lemma build_sampler_ok:
  assumes "depths \<noteq> []" "\<forall>e \<in> set depths. 0 < e"
  shows "\<exists>s. build_sampler depths = Inr s \<and> s \<noteq> [] \<and> (\<forall>e \<in> set s. entry_ok {..<length depths} e)"
proof -
  let ?w = "map of_nat depths :: rat list" and ?norm = "sum_list (map of_nat depths) :: rat"
  have "0 < sum_list depths"
    using assms by (cases depths) auto
  moreover have "?norm = of_nat (sum_list depths)" by (induction depths) simp_all
  ultimately have pos: "0 < ?norm" by (simp only: of_nat_0_less_iff)
  have div: "sum_list (map (\<lambda>v. v / ?norm) xs) = sum_list xs / ?norm" for xs :: "rat list"
    by (induction xs) (simp_all add: add_divide_distrib)
  have "distribution (map (\<lambda>v. v / ?norm) ?w)"
    using assms(1) pos unfolding distribution_def div by auto
  from dice_new_exact [OF this] obtain s where "dice_new (map (\<lambda>v. v / ?norm) ?w) = Some s"
    "length s = length depths" "\<forall>e \<in> set s. entry_ok {..<length depths} e" by auto
  moreover from this(2) have "s \<noteq> []" using assms(1) by auto
  ultimately show ?thesis using pos by (simp add: build_sampler_def)
qed

lemma recursion_info_new_ok:
  assumes d: "derives (g_rules ctx) [n] [d]"
  shows "\<exists>res. recursion_info_new (tree_of [d]) nt ctx = Inr res \<and>
    (\<forall>ri. res = Some ri \<longrightarrow> info_ok (g_rules ctx) d nt ri)"
proof -
  define pairs where "pairs = rec_pairs (g_rules ctx) nt 0 None 0 [d]"
  have f: "find_parents (tree_of [d]) nt ctx = Inr (fold add_found pairs None)"
    using find_parents_exact [OF d] by (simp add: pairs_def)
  show ?thesis
  proof (cases "pairs = []")
    case True
    with f show ?thesis by (simp add: recursion_info_new_def fold_add_found)
  next
    case False
    let ?depths = "map (\<lambda>(j, q, e). e) pairs"
    have "\<forall>e \<in> set ?depths. 0 < e"
      using rec_pairs_ok [of _ _ _ "g_rules ctx" nt 0 None 0 "[d]"] by (auto simp: pairs_def)
    with build_sampler_ok [of ?depths] False obtain s where s: "build_sampler ?depths = Inr s" "s \<noteq> []"
      "\<forall>e \<in> set s. entry_ok {..<length pairs} e" by auto
    let ?ri = "\<lparr>ri_parents = map_of (rev (map (\<lambda>(j, q, e). (j, q)) pairs)), ri_sampler = s,
      ri_depths = ?depths, ri_nodes = map fst pairs\<rparr>"
    have "info_ok (g_rules ctx) d nt ?ri"
      using False s by (simp add: info_ok_def pairs_def)
    with f False s show ?thesis by (simp add: recursion_info_new_def fold_add_found)
  qed
qed

lemma pair_loop_fixed:
  "ri_parents ri j = Some q \<Longrightarrow> 0 < k \<Longrightarrow> pair_loop ri j k n = Inr q"
  by (induction k arbitrary: n) (auto, metis gr0I pair_loop.simps(1))

lemma recursion_pair_ok:
  assumes ri: "info_ok (g_rules ctx) d nt ri" and o: "offset < length (ri_nodes ri)"
  shows "\<exists>q j. get_recursion_pair_by_offset ri offset = Inr (q, j) \<and> j < fsize [d] \<and>
    rec_pair_ok (g_rules ctx) nt [d] q j"
proof -
  define pairs where "pairs = rec_pairs (g_rules ctx) nt 0 None 0 [d]"
  have ri': "ri_nodes ri = map fst pairs" "ri_depths ri = map (\<lambda>(j, q, e). e) pairs"
    "ri_parents ri = map_of (rev (map (\<lambda>(j, q, e). (j, q)) pairs))"
    using ri by (auto simp: info_ok_def pairs_def)
  obtain j q e where x: "pairs ! offset = (j, q, e)" by (cases "pairs ! offset")
  have mem: "(j, q, e) \<in> set pairs" using o x by (metis length_map nth_mem ri'(1))
  have ok: "0 < e" "rec_pair_ok (g_rules ctx) nt [d] q j"
    using rec_pairs_ok [of j q e "g_rules ctx" nt 0 None 0 "[d]"] mem by (auto simp: pairs_def)
  have "distinct (map fst (map (\<lambda>(j, q, e). (j, q)) pairs))"
    using rec_pairs_distinct [of "g_rules ctx" nt 0 None 0 "[d]"]
    by (simp add: pairs_def comp_def split_def)
  moreover have "(j, q) \<in> set (map (\<lambda>(j, q, e). (j, q)) pairs)" using mem by force
  ultimately have "ri_parents ri j = Some q"
    unfolding ri'(3) by (simp add: map_of_eq_Some_iff rev_map distinct_rev flip: rev_map)
  then have "pair_loop ri j e j = Inr q" using ok(1) by (rule pair_loop_fixed)
  moreover have "j < fsize [d]"
    using rec_pairs_range [of j q e "g_rules ctx" nt 0 None 0 "[d]"] mem by (simp add: pairs_def)
  ultimately show ?thesis
    using o x ok(2) by (simp add: get_recursion_pair_by_offset_def ri'(1,2))
qed

lemma random_recursion_pair_ok:
  assumes ri: "info_ok (g_rules ctx) d nt ri"
  shows "\<exists>q j r'. get_random_recursion_pair nxt ri r = Inr ((q, j), r') \<and> j < fsize [d] \<and>
    rec_pair_ok (g_rules ctx) nt [d] q j"
proof -
  obtain offset r' where s: "dice_sample nxt (ri_sampler ri) r = (offset, r')" by force
  have "fst (dice_sample nxt (ri_sampler ri) r) \<in> {..<length (ri_nodes ri)}"
    by (rule dice_sample_range) (use ri in \<open>auto simp: info_ok_def\<close>)
  then have "offset < length (ri_nodes ri)" by (simp add: s)
  from recursion_pair_ok [OF ri this] s show ?thesis
    by (auto simp: get_random_recursion_pair_def)
qed

lemma calc_recursions_loop_ok:
  assumes d: "derives (g_rules ctx) [n] [d]"
  shows "\<forall>rc \<in> set rcs. rc_id rc < length (g_rules ctx) \<Longrightarrow>
    \<forall>ri \<in> set ret. \<exists>nt. info_ok (g_rules ctx) d nt ri \<Longrightarrow>
    \<exists>ret'. calc_recursions_loop (tree_of [d]) ctx rcs done_nterms ret = Inr ret' \<and>
      (\<forall>ri \<in> set ret'. \<exists>nt. info_ok (g_rules ctx) d nt ri)"
proof (induction rcs arbitrary: done_nterms ret)
  case (Cons rc rcs)
  let ?nt = "nonterm (g_rules ctx ! rc_id rc)"
  have nt: "get_nt rc ctx = Inr ?nt" using Cons.prems(1) by (simp add: get_nt_def get_rule_def)
  obtain res where res: "recursion_info_new (tree_of [d]) ?nt ctx = Inr res"
    "\<And>ri. res = Some ri \<Longrightarrow> info_ok (g_rules ctx) d ?nt ri"
    using recursion_info_new_ok [OF d, of ?nt] by blast
  let ?ret = "case res of Some i \<Rightarrow> ret @ [i] | None \<Rightarrow> ret"
  have "\<forall>ri \<in> set ?ret. \<exists>nt. info_ok (g_rules ctx) d nt ri"
    using Cons.prems(2) res(2) by (auto split: option.splits)
  with Cons.IH [of ?ret "insert ?nt done_nterms"] Cons.IH [of ret done_nterms] Cons.prems nt res(1)
  show ?case by simp
qed simp

lemma fflat_ids:
  "derives rules nts ds \<Longrightarrow> rc \<in> set (fflat ds) \<Longrightarrow> rc_id rc < length rules"
  by (induction rules nts ds rule: derives.induct) auto

lemma calc_recursions_ok:
  assumes d: "derives (g_rules ctx) [n] [d]"
  shows "\<exists>res. calc_recursions (tree_of [d]) ctx = Inr res \<and>
    (\<forall>ris. res = Some ris \<longrightarrow> ris \<noteq> [] \<and> (\<forall>ri \<in> set ris. \<exists>nt. info_ok (g_rules ctx) d nt ri))"
proof -
  have "\<forall>rc \<in> set (fflat [d]). rc_id rc < length (g_rules ctx)"
    using fflat_ids [OF d] by blast
  from calc_recursions_loop_ok [OF d this, of "[]" "{}"] show ?thesis
    by (auto simp: calc_recursions_def)
qed

end
