(* ===== verification/GrammarMutators.thy ===== *)
theory GrammarMutators
  imports Recursions MutatorApi
begin

text \<open>
  The mutations of trees (\<^verbatim>\<open>common/nautilus/grammartec/mutator.rs\<close>), the store of
  subtrees (\<^verbatim>\<open>chunkstore.rs\<close>) and the mutators over them
  (\<^verbatim>\<open>mutators/nautilus.rs\<close>). A closure given as \<open>tester\<close> is a function on the
  state it captures. The lemmas: each mutation hands the tester a tree that derives the same
  nonterminal, and the stored chunks are subtrees of derivations.
\<close>

section \<open>GrammarMutator\<close>

type_synonym 'w tester = "tree_mutation \<Rightarrow> 'w \<Rightarrow> fault + 'w"

text \<open>\<open>mut_random\<close>: the scratchpad, the tester's state and the generator after the call.\<close>

definition mut_random ::
  "('r \<Rightarrow> u64 \<times> 'r) \<Rightarrow> ('h, 'r) regen \<Rightarrow> 'h gcontext \<Rightarrow> 'w tester \<Rightarrow> tree \<Rightarrow> tree \<Rightarrow> 'r \<Rightarrow> 'w
    \<Rightarrow> fault + tree \<times> 'w \<times> 'r" where
  "mut_random nxt regen ctx tester scratchpad t r w =
     (if tree_size t = 0 then Inl (Fault IllegalArgument)
      else let (n, r) = below nxt r (tree_size t)
           in rbind (get_nonterm_id t n ctx) (\<lambda>nterm.
              rbind (multiple_possibilities nterm ctx) (\<lambda>multiple.
              if multiple
              then rbind (generate_from_nt nxt regen ctx scratchpad r nterm (g_max_len ctx)) (\<lambda>(scratchpad, r).
                   rbind (mutate_replace_from_tree t n scratchpad 0) (\<lambda>repl.
                   rbind (tester repl w) (\<lambda>w. Inr (scratchpad, w, r))))
              else Inr (scratchpad, w, r))))"

text \<open>The alternatives of \<open>mut_rules\<close> for one node, and the loop over the nodes.\<close>

fun mut_rules_at ::
  "('r \<Rightarrow> u64 \<times> 'r) \<Rightarrow> ('h, 'r) regen \<Rightarrow> 'h gcontext \<Rightarrow> 'w tester \<Rightarrow> tree \<Rightarrow> nat \<Rightarrow> nat \<Rightarrow> nat list
    \<Rightarrow> tree \<Rightarrow> 'r \<Rightarrow> 'w \<Rightarrow> fault + tree \<times> 'w \<times> 'r" where
  "mut_rules_at nxt regen ctx tester t n old_rule_id [] scratchpad r w = Inr (scratchpad, w, r)"
| "mut_rules_at nxt regen ctx tester t n old_rule_id (new_rule_id # rule_ids) scratchpad r w =
     (if old_rule_id \<noteq> new_rule_id
      then rbind (generate_from_rule nxt regen ctx scratchpad r new_rule_id (g_max_len ctx)) (\<lambda>(scratchpad, r).
           rbind (mutate_replace_from_tree t n scratchpad 0) (\<lambda>repl.
           rbind (tester repl w) (\<lambda>w.
           mut_rules_at nxt regen ctx tester t n old_rule_id rule_ids scratchpad r w)))
      else mut_rules_at nxt regen ctx tester t n old_rule_id rule_ids scratchpad r w)"

fun mut_rules_loop ::
  "('r \<Rightarrow> u64 \<times> 'r) \<Rightarrow> ('h, 'r) regen \<Rightarrow> 'h gcontext \<Rightarrow> 'w tester \<Rightarrow> tree \<Rightarrow> nat list
    \<Rightarrow> tree \<Rightarrow> 'r \<Rightarrow> 'w \<Rightarrow> fault + bool \<times> tree \<times> 'w \<times> 'r" where
  "mut_rules_loop nxt regen ctx tester t [] scratchpad r w = Inr (False, scratchpad, w, r)"
| "mut_rules_loop nxt regen ctx tester t (i # is) scratchpad r w =
     (if i = tree_size t then Inr (True, scratchpad, w, r)
      else rbind (get_rule_id t i) (\<lambda>old_rule_id.
           rbind (get_nt (Rule old_rule_id) ctx) (\<lambda>nt.
           rbind (get_rules_for_nt nt ctx) (\<lambda>rule_ids.
           rbind (mut_rules_at nxt regen ctx tester t i old_rule_id rule_ids scratchpad r w)
             (\<lambda>(scratchpad, w, r).
           mut_rules_loop nxt regen ctx tester t is scratchpad r w)))))"

definition mut_rules ::
  "('r \<Rightarrow> u64 \<times> 'r) \<Rightarrow> ('h, 'r) regen \<Rightarrow> 'h gcontext \<Rightarrow> 'w tester \<Rightarrow> tree \<Rightarrow> nat \<Rightarrow> nat
    \<Rightarrow> tree \<Rightarrow> 'r \<Rightarrow> 'w \<Rightarrow> fault + bool \<times> tree \<times> 'w \<times> 'r" where
  "mut_rules nxt regen ctx tester t start_index end_index scratchpad r w =
     mut_rules_loop nxt regen ctx tester t [start_index..<end_index] scratchpad r w"

text \<open>
  \<open>mut_random_recursion\<close>. Only the rules and the sizes of the tree it builds are filled.
\<close>

fun rmap :: "('a \<Rightarrow> 'e + 'b) \<Rightarrow> 'a list \<Rightarrow> 'e + 'b list" where
  "rmap f [] = Inr []"
| "rmap f (x # xs) = rbind (f x) (\<lambda>y. rbind (rmap f xs) (\<lambda>ys. Inr (y # ys)))"

definition copy_nodes :: "tree \<Rightarrow> (nat \<Rightarrow> nat) \<Rightarrow> nat \<Rightarrow> fault + (rule_or_custom \<times> nat) list" where
  "copy_nodes t idx n =
     rmap (\<lambda>i. rbind (get_rule_or_custom t (idx i)) (\<lambda>rc.
               rbind (nth_or_panic (t_sizes t) (idx i)) (\<lambda>s. Inr (rc, s)))) [0..<n]"

definition adjust_sizes :: "nat \<Rightarrow> nat \<Rightarrow> nat \<Rightarrow> nat list \<Rightarrow> nat list" where
  "adjust_sizes pre whole num sizes =
     map (\<lambda>(i, item). if i < num * pre \<and> pre \<le> item then item + (num - i div pre - 1) * whole else item)
       (zip [0..<length sizes] sizes)"

definition recursion_tree :: "tree \<Rightarrow> nat \<Rightarrow> nat \<Rightarrow> nat \<Rightarrow> fault + tree" where
  "recursion_tree t rec0 rec1 max_len_of_recursions =
     rbind (usub rec1 rec0) (\<lambda>pre.
     rbind (subtree_size t rec0) (\<lambda>s0.
     rbind (subtree_size t rec1) (\<lambda>s1.
     rbind (usub s0 s1) (\<lambda>whole.
     rbind (usub whole pre) (\<lambda>post.
     rbind (assert_that (whole \<noteq> 0)) (\<lambda>_.
     let num = max_len_of_recursions div whole; postfix = s1
     in rbind (copy_nodes t (\<lambda>i. rec0 + i mod pre) (num * pre)) (\<lambda>front.
        rbind (copy_nodes t (\<lambda>i. rec1 + i) postfix) (\<lambda>middle.
        let sizes = adjust_sizes pre whole num (map snd (front @ middle))
        in rbind (copy_nodes t (\<lambda>i. rec1 + postfix + i mod post) (num * post)) (\<lambda>rear.
           Inr \<lparr>t_rules = map fst (front @ middle @ rear), t_sizes = sizes @ map snd rear,
               t_parents = []\<rparr>)))))))))"

definition mut_random_recursion ::
  "('r \<Rightarrow> u64 \<times> 'r) \<Rightarrow> 'h gcontext \<Rightarrow> 'w tester \<Rightarrow> tree \<Rightarrow> recursion_info list \<Rightarrow> 'r \<Rightarrow> 'w
    \<Rightarrow> fault + 'w \<times> 'r" where
  "mut_random_recursion nxt ctx tester t recursions r w =
     (let (shift, r) = between nxt r 1 10;
          max_len_of_recursions = 2 * 2 ^ shift;
          (ix, r) = choose_index nxt r (length recursions)
      in case ix of
           None \<Rightarrow> Inr (w, r)
         | Some k \<Rightarrow>
             rbind (get_random_recursion_pair nxt (recursions ! k) r) (\<lambda>((rec0, rec1), r).
             rbind (recursion_tree t rec0 rec1 max_len_of_recursions) (\<lambda>rt.
             rbind (mutate_replace_from_tree t rec1 rt 0) (\<lambda>repl.
             rbind (tester repl w) (\<lambda>w. Inr (w, r))))))"

section \<open>ChunkStore\<close>

record chunk_store =
  cs_chunks :: "nat \<rightharpoonup> (nat \<times> nat) list"
  cs_seen :: "bytes set"
  cs_trees :: "tree list"
  cs_number :: nat

definition new_chunk_store :: chunk_store where
  "new_chunk_store = \<lparr>cs_chunks = Map.empty, cs_seen = {}, cs_trees = [], cs_number = 0\<rparr>"

text \<open>
  \<open>add_tree\<close>: the loop over the nodes and the tree's entry. \<open>write_chunk\<close> tells whether
  the file of a chunk can be written; where it cannot, the code panics.
\<close>

fun add_tree_loop ::
  "(nat \<Rightarrow> bytes \<Rightarrow> bool) \<Rightarrow> 'h gcontext \<Rightarrow> tree \<Rightarrow> nat \<Rightarrow> nat list \<Rightarrow> bool \<Rightarrow> chunk_store
    \<Rightarrow> fault + bool \<times> chunk_store" where
  "add_tree_loop write_chunk ctx t tid [] new cs = Inr (new, cs)"
| "add_tree_loop write_chunk ctx t tid (i # is) new cs =
     rbind (nth_or_panic (t_sizes t) i) (\<lambda>s.
     if 30 < s then add_tree_loop write_chunk ctx t tid is new cs
     else rbind (unparse_tree ctx t i) (\<lambda>buffer.
          if buffer \<in> cs_seen cs then add_tree_loop write_chunk ctx t tid is new cs
          else rbind (get_nonterm_id t i ctx) (\<lambda>nt.
               rbind (assert_that (write_chunk (cs_number cs) buffer)) (\<lambda>_.
               add_tree_loop write_chunk ctx t tid is True
                 (cs\<lparr>cs_seen := insert buffer (cs_seen cs),
                     cs_chunks := (cs_chunks cs)(nt \<mapsto>
                       (case cs_chunks cs nt of Some v \<Rightarrow> v | None \<Rightarrow> []) @ [(tid, i)]),
                     cs_number := cs_number cs + 1\<rparr>)))))"

definition add_tree ::
  "(nat \<Rightarrow> bytes \<Rightarrow> bool) \<Rightarrow> 'h gcontext \<Rightarrow> tree \<Rightarrow> chunk_store \<Rightarrow> fault + chunk_store" where
  "add_tree write_chunk ctx t cs =
     rbind (add_tree_loop write_chunk ctx t (length (cs_trees cs)) [0..<tree_size t] False cs) (\<lambda>(new, cs).
     Inr (if new then cs\<lparr>cs_trees := cs_trees cs @ [t]\<rparr> else cs))"

text \<open>The filter of \<open>get_alternative_to\<close>, and the choice among what passes it.\<close>

fun relevant_chunks :: "chunk_store \<Rightarrow> nat \<Rightarrow> (nat \<times> nat) list \<Rightarrow> fault + (nat \<times> nat) list" where
  "relevant_chunks cs rid [] = Inr []"
| "relevant_chunks cs rid ((tid, nid) # chunks) =
     rbind (nth_or_panic (cs_trees cs) tid) (\<lambda>t.
     rbind (get_rule_id t nid) (\<lambda>x.
     rbind (relevant_chunks cs rid chunks) (\<lambda>rest. Inr (if x \<noteq> rid then (tid, nid) # rest else rest))))"

definition get_alternative_to ::
  "('r \<Rightarrow> u64 \<times> 'r) \<Rightarrow> 'h gcontext \<Rightarrow> chunk_store \<Rightarrow> nat \<Rightarrow> 'r \<Rightarrow> fault + (tree \<times> nat) option \<times> 'r" where
  "get_alternative_to nxt ctx cs rid r =
     rbind (get_nt (Rule rid) ctx) (\<lambda>nt.
     case cs_chunks cs nt of
       None \<Rightarrow> Inr (None, r)
     | Some chunks \<Rightarrow>
         rbind (relevant_chunks cs rid chunks) (\<lambda>relevant.
         let (selected, r) = reservoir nxt relevant 0 None r
         in case selected of
              None \<Rightarrow> Inr (None, r)
            | Some (tid, nid) \<Rightarrow>
                rbind (nth_or_panic (cs_trees cs) tid) (\<lambda>t. Inr (Some (t, nid), r))))"

definition mut_splice ::
  "('r \<Rightarrow> u64 \<times> 'r) \<Rightarrow> 'h gcontext \<Rightarrow> 'w tester \<Rightarrow> tree \<Rightarrow> chunk_store \<Rightarrow> 'r \<Rightarrow> 'w \<Rightarrow> fault + 'w \<times> 'r" where
  "mut_splice nxt ctx tester t cks r w =
     (if tree_size t = 0 then Inl (Fault IllegalArgument)
      else let (n, r) = below nxt r (tree_size t)
           in rbind (get_rule_id t n) (\<lambda>old_rule_id.
              rbind (get_alternative_to nxt ctx cks old_rule_id r) (\<lambda>(alt, r). case alt of
                None \<Rightarrow> Inr (w, r)
              | Some (repl_tree, repl_node) \<Rightarrow>
                  rbind (mutate_replace_from_tree t n repl_tree repl_node) (\<lambda>repl.
                  rbind (tester repl w) (\<lambda>w. Inr (w, r))))))"

section \<open>The mutators\<close>

text \<open>The closure of all three collects the entries; an error meets an \<open>unwrap\<close>.\<close>

definition collect :: "rule_or_custom list tester" where
  "collect m tmp = Inr (tmp @ m_prefix m @ m_repl m @ m_postfix m)"

definition unwrap :: "fault + 'a \<Rightarrow> fault + 'a" where
  "unwrap x = (case x of Inl (Fault _) \<Rightarrow> Inl Panicked | _ \<Rightarrow> x)"

definition take_collected :: "'h gcontext \<Rightarrow> tree \<Rightarrow> rule_or_custom list \<Rightarrow> fault + mres \<times> tree" where
  "take_collected ctx t tmp =
     (if tmp = [] then Inr (Skipped, t)
      else rbind (from_rule_vec tmp ctx) (\<lambda>t. Inr (Mutated, t)))"

text \<open>
  Each mutator owns a \<open>GrammarMutator\<close>, whose only state is its scratchpad; the recursion and
  the splicing mutator do not touch it.
\<close>

definition random_mutate ::
  "('r \<Rightarrow> u64 \<times> 'r) \<Rightarrow> ('h, 'r) regen \<Rightarrow> 'h gcontext \<Rightarrow> tree \<Rightarrow> tree \<Rightarrow> 'r
    \<Rightarrow> fault + mres \<times> tree \<times> tree \<times> 'r" where
  "random_mutate nxt regen ctx scratchpad t r =
     rbind (unwrap (mut_random nxt regen ctx collect scratchpad t r [])) (\<lambda>(scratchpad, tmp, r).
     rbind (take_collected ctx t tmp) (\<lambda>(res, t). Inr (res, t, scratchpad, r)))"

definition recursion_mutate ::
  "('r \<Rightarrow> u64 \<times> 'r) \<Rightarrow> 'h gcontext \<Rightarrow> tree \<Rightarrow> tree \<Rightarrow> 'r \<Rightarrow> fault + mres \<times> tree \<times> tree \<times> 'r" where
  "recursion_mutate nxt ctx scratchpad t r =
     rbind (calc_recursions t ctx) (\<lambda>recursions. case recursions of
       None \<Rightarrow> Inr (Skipped, t, scratchpad, r)
     | Some recursions \<Rightarrow>
         rbind (unwrap (mut_random_recursion nxt ctx collect t recursions r [])) (\<lambda>(tmp, r).
         rbind (take_collected ctx t tmp) (\<lambda>(res, t). Inr (res, t, scratchpad, r))))"

text \<open>The chunk store is metadata of the state, which may be missing.\<close>

definition splice_mutate ::
  "('r \<Rightarrow> u64 \<times> 'r) \<Rightarrow> 'h gcontext \<Rightarrow> chunk_store option \<Rightarrow> tree \<Rightarrow> tree \<Rightarrow> 'r
    \<Rightarrow> fault + mres \<times> tree \<times> tree \<times> 'r" where
  "splice_mutate nxt ctx meta scratchpad t r =
     (let (seed, r) = nxt r; rand_cpy = romu_duo_jr_with_seed seed
      in case meta of
           None \<Rightarrow> Inl (Fault KeyNotFound)
         | Some cks \<Rightarrow>
             rbind (unwrap (mut_splice romu_duo_jr_next ctx collect t cks rand_cpy [])) (\<lambda>(tmp, _).
             rbind (take_collected ctx t tmp) (\<lambda>(res, t). Inr (res, t, scratchpad, r))))"

section \<open>Mutated trees are derivations\<close>

text \<open>
  The nonterminals of a tree can be derived within the limit of the context: then a subtree can
  be generated anew at every node. An input of the fuzzer is such a derivation.
\<close>

definition entries_fit :: "'h gcontext \<Rightarrow> rule_or_custom list \<Rightarrow> bool" where
  "entries_fit ctx rcs \<longleftrightarrow>
     (\<forall>rc \<in> set rcs. the (g_nt_min ctx (nonterm (g_rules ctx ! rc_id rc))) \<le> g_max_len ctx)"

definition input_ok :: "'h gcontext \<Rightarrow> nat \<Rightarrow> tree \<Rightarrow> bool" where
  "input_ok ctx nt t \<longleftrightarrow> tree_ok ctx nt t \<and> entries_fit ctx (t_rules t)"

definition mutation_ok :: "'h gcontext \<Rightarrow> nat \<Rightarrow> tree_mutation \<Rightarrow> bool" where
  "mutation_ok ctx nt m \<longleftrightarrow> (\<exists>e. derives (g_rules ctx) [nt] [e] \<and> mutation_rules m = fflat [e] \<and>
     entries_fit ctx (fflat [e]))"

definition tester_total :: "'w tester \<Rightarrow> bool" where
  "tester_total tester \<longleftrightarrow> (\<forall>m w. \<exists>w'. tester m w = Inr w')"

lemma tester_totalE:
  assumes "tester_total tester"
  obtains w' where "tester m w = Inr w'"
  using assms unfolding tester_total_def by blast

lemma input_okE:
  assumes "input_ok ctx nt t"
  obtains d where "derives (g_rules ctx) [nt] [d]" "t = tree_of [d]" "entries_fit ctx (fflat [d])"
  using assms by (auto simp: input_ok_def tree_ok_def)

lemma entries_fit_append [simp]:
  "entries_fit ctx (xs @ ys) \<longleftrightarrow> entries_fit ctx xs \<and> entries_fit ctx ys"
  by (auto simp: entries_fit_def)

lemma entries_fit_subset: "entries_fit ctx ys \<Longrightarrow> set xs \<subseteq> set ys \<Longrightarrow> entries_fit ctx xs"
  by (auto simp: entries_fit_def)

lemma small_entries_fit:
  assumes meas: "measured ctx" and d: "derives (g_rules ctx) nts ds" and size: "fsize ds \<le> g_max_len ctx"
  shows "entries_fit ctx (fflat ds)"
  unfolding entries_fit_def
proof
  fix rc
  assume "rc \<in> set (fflat ds)"
  then obtain k where k: "k < fsize ds" "fflat ds ! k = rc"
    by (auto simp: in_set_conv_nth)
  have "derives (g_rules ctx) [root_nt (g_rules ctx) (fget ds k)] [fget ds k]"
    by (rule fget_derives [OF k(1) d])
  from measured_exact(1) [OF meas this] obtain m where
    m: "g_nt_min ctx (root_nt (g_rules ctx) (fget ds k)) = Some m" "m \<le> fsize [fget ds k]" by blast
  have "nonterm (g_rules ctx ! rc_id rc) = root_nt (g_rules ctx) (fget ds k)"
    using get_rule_at_forest(2) [OF d k(1)] fget_entry [OF k(1)] k(2) by simp
  then show "the (g_nt_min ctx (nonterm (g_rules ctx ! rc_id rc))) \<le> g_max_len ctx"
    using m fget_bound [OF k(1)] size by simp
qed

text \<open>Any tree whose slice at \<open>k\<close> is a derivation of the node's nonterminal may take its place.\<close>

lemma replace_mutation_ok:
  assumes d: "derives (g_rules ctx) [nt] [d]" "entries_fit ctx (fflat [d])" and n: "n < fsize [d]"
    and u: "derives (g_rules ctx) [root_nt (g_rules ctx) (fget [d] n)] [u]" "entries_fit ctx (fflat [u])"
    and slice: "subtree_size other k = Inr (fsize [u])" "k + fsize [u] \<le> length (t_rules other)"
      "take (fsize [u]) (drop k (t_rules other)) = fflat [u]"
  shows "\<exists>m. mutate_replace_from_tree (tree_of [d]) n other k = Inr m \<and> mutation_ok ctx nt m \<and>
    m_repl m = fflat [u]"
proof -
  let ?m = "\<lparr>m_prefix = take n (fflat [d]), m_repl = fflat [u],
    m_postfix = drop (n + fsize [fget [d] n]) (fflat [d])\<rparr>"
  obtain e where e: "freplace [d] n u = [e]"
    using freplace_single [OF n] by blast
  have "mutate_replace_from_tree (tree_of [d]) n other k = Inr ?m"
    using fget_bound [OF n] n slice
    by (simp add: mutate_replace_from_tree_def subtree_size_forest slice_rules_def)
  moreover have "mutation_rules ?m = fflat [e]"
    using freplace_flat [OF n, of u] by (simp add: e mutation_rules_def)
  moreover have "derives (g_rules ctx) [nt] [e]"
    using freplace_derives [OF n d(1) u(1)] by (simp only: e)
  moreover have "entries_fit ctx (mutation_rules ?m)"
    using d(2) u(2) by (auto simp: mutation_rules_def intro: entries_fit_subset dest: in_set_takeD in_set_dropD)
  ultimately show ?thesis by (auto simp: mutation_ok_def)
qed

lemma replace_by_subtree_ok:
  assumes d: "derives (g_rules ctx) [nt] [d]" "entries_fit ctx (fflat [d])" and n: "n < fsize [d]"
    and e: "derives (g_rules ctx) [nt'] [e]" "entries_fit ctx (fflat [e])" and k: "k < fsize [e]"
    and same: "root_nt (g_rules ctx) (fget [e] k) = root_nt (g_rules ctx) (fget [d] n)"
  shows "\<exists>m. mutate_replace_from_tree (tree_of [d]) n (tree_of [e]) k = Inr m \<and> mutation_ok ctx nt m \<and>
    m_repl m = fflat [fget [e] k]"
proof (rule replace_mutation_ok [OF d n])
  show "derives (g_rules ctx) [root_nt (g_rules ctx) (fget [d] n)] [fget [e] k]"
    using fget_derives [OF k e(1)] by (simp only: same)
  show "entries_fit ctx (fflat [fget [e] k])"
    using e(2) fget_flat [OF k] by (metis entries_fit_subset set_drop_subset set_take_subset subset_trans)
  show "subtree_size (tree_of [e]) k = Inr (fsize [fget [e] k])"
    by (rule subtree_size_forest [OF k])
  show "k + fsize [fget [e] k] \<le> length (t_rules (tree_of [e]))"
    using fget_bound [OF k] by simp
  show "take (fsize [fget [e] k]) (drop k (t_rules (tree_of [e]))) = fflat [fget [e] k]"
    using fget_flat [OF k] by simp
qed

lemma fget_0: "fget [d] 0 = d"
  by (cases d) simp

text \<open>What a mutation does with its tester: at most one call, with a derivation.\<close>

definition tested :: "'h gcontext \<Rightarrow> nat \<Rightarrow> 'w tester \<Rightarrow> 'w \<Rightarrow> 'w \<Rightarrow> bool" where
  "tested ctx nt tester w w' \<longleftrightarrow> w' = w \<or> (\<exists>m. mutation_ok ctx nt m \<and> tester m w = Inr w')"

lemma listed_nonterminal:
  assumes "measured ctx" "derives (g_rules ctx) nts ds" "k < fsize ds"
  shows "\<exists>rs. map_of (g_nts_to_rules ctx) (root_nt (g_rules ctx) (fget ds k)) = Some rs"
  using get_rule_at_forest(2,3) [OF assms(2,3)] assms(1)
  by (auto simp: measured_def ctx_ok_def listed_ok_def)

lemma mut_random_ok:
  assumes init: "initialized ctx" and short: "short_rules ctx" and reg: "regen_total regen"
    and total: "tester_total tester" and t: "input_ok ctx nt t"
  shows "\<exists>scratch' w' r'. mut_random nxt regen ctx tester scratch t r w = Inr (scratch', w', r') \<and>
    tested ctx nt tester w w'"
proof -
  obtain d where d: "derives (g_rules ctx) [nt] [d]" "t = tree_of [d]" "entries_fit ctx (fflat [d])"
    by (rule input_okE [OF t])
  have meas: "measured ctx" using init by (simp add: initialized_def)
  obtain n r1 where b: "below nxt r (fsize [d]) = (n, r1)" by force
  have n: "n < fsize [d]" using rnd.below_eq_lt [OF b] by simp
  let ?nt = "root_nt (g_rules ctx) (fget [d] n)"
  have nterm: "get_nonterm_id t n ctx = Inr ?nt"
    using get_nonterm_id_forest [OF d(1) n] by (simp only: d(2))
  obtain rs where rs: "map_of (g_nts_to_rules ctx) ?nt = Some rs"
    using listed_nonterminal [OF meas d(1) n] by blast
  have start: "mut_random nxt regen ctx tester scratch t r w =
    (if 1 < length rs
     then rbind (generate_from_nt nxt regen ctx scratch r1 ?nt (g_max_len ctx)) (\<lambda>(scratchpad, r).
          rbind (mutate_replace_from_tree t n scratchpad 0) (\<lambda>repl.
          rbind (tester repl w) (\<lambda>w. Inr (scratchpad, w, r))))
     else Inr (scratch, w, r1))"
    using b nterm rs fsize_single_pos [of d]
    by (simp add: mut_random_def d(2) multiple_possibilities_def get_rules_for_nt_def)
  show ?thesis
  proof (cases "1 < length rs")
    case True
    obtain m where m: "g_nt_min ctx ?nt = Some m"
      using measured_exact(1) [OF meas fget_derives [OF n d(1)]] by blast
    have "nonterm (g_rules ctx ! rc_id (fflat [d] ! n)) = ?nt"
      using get_rule_at_forest(2) [OF d(1) n] fget_entry [OF n] by simp
    moreover have "fflat [d] ! n \<in> set (fflat [d])" using n by simp
    ultimately have "m \<le> g_max_len ctx"
      using d(3) m by (fastforce simp: entries_fit_def)
    from generate_from_nt_ok [OF init reg short m this, of nxt scratch r1] obtain t' r2 where
      g: "generate_from_nt nxt regen ctx scratch r1 ?nt (g_max_len ctx) = Inr (t', r2)"
        "tree_ok ctx ?nt t'" "tree_size t' \<le> g_max_len ctx" by blast
    obtain u where u: "derives (g_rules ctx) [?nt] [u]" "t' = tree_of [u]"
      by (rule tree_okE [OF g(2)])
    have fit: "entries_fit ctx (fflat [u])"
      by (rule small_entries_fit [OF meas u(1)]) (use g(3) in \<open>simp add: u(2)\<close>)
    from replace_by_subtree_ok [OF d(1,3) n u(1) fit fsize_single_pos] derives_root [OF u(1)]
    obtain rm where rm: "mutate_replace_from_tree t n t' 0 = Inr rm" "mutation_ok ctx nt rm"
      by (auto simp: fget_0 d(2) u(2))
    obtain w' where "tester rm w = Inr w'" by (rule tester_totalE [OF total])
    with True start g(1) rm show ?thesis by (auto simp: tested_def)
  qed (simp add: start tested_def)
qed

section \<open>Pumping a recursion\<close>

lemma rmap_ok: "\<forall>x \<in> set xs. f x = Inr (g x) \<Longrightarrow> rmap f xs = Inr (map g xs)"
  by (induction xs) simp_all

lemma copy_nodes_forest:
  assumes "\<And>i. i < n \<Longrightarrow> idx i < fsize ds"
  shows "copy_nodes (tree_of ds) idx n = Inr (map (\<lambda>i. (fflat ds ! idx i, fsizes ds ! idx i)) [0..<n])"
  unfolding copy_nodes_def by (rule rmap_ok) (use assms in \<open>simp add: get_rule_or_custom_def\<close>)

lemma concat_replicate_slide:
  "xs @ concat (replicate n xs) = concat (replicate n xs) @ xs"
  "xs @ concat (replicate n xs) @ ys = concat (replicate n xs) @ xs @ ys"
proof -
  show 1: "xs @ concat (replicate n xs) = concat (replicate n xs) @ xs"
    by (induction n) simp_all
  show "xs @ concat (replicate n xs) @ ys = concat (replicate n xs) @ xs @ ys"
    using arg_cong [OF 1, of "\<lambda>zs. zs @ ys"] by simp
qed

lemma map_mod_replicate:
  "map (\<lambda>i. xs ! (i mod length xs)) [0..<n * length xs] = concat (replicate n xs)"
proof (induction n)
  case (Suc n)
  have "map (\<lambda>i. xs ! (i mod length xs)) [n * length xs..<n * length xs + length xs] = xs"
    by (rule nth_equalityI) (simp_all add: mod_add_eq)
  moreover have "[0..<Suc n * length xs] = [0..<n * length xs] @ [n * length xs..<n * length xs + length xs]"
    by (metis add.commute mult_Suc upt_add_eq_append le0 add_0)
  ultimately show ?case using Suc by (simp add: concat_replicate_slide)
qed simp

text \<open>The subtree with its inner occurrence replaced, again and again.\<close>

definition plug :: "dtree \<Rightarrow> nat \<Rightarrow> dtree \<Rightarrow> dtree" where
  "plug a k u = hd (freplace [a] k u)"

lemma plug_single: "k < fsize [a] \<Longrightarrow> freplace [a] k u = [plug a k u]"
  using freplace_single [of k a u] by (auto simp: plug_def)

lemma pumped_flat:
  assumes k: "k < fsize [a]"
  shows "fflat [(plug a k ^^ n) (fget [a] k)] =
    concat (replicate n (take k (fflat [a]))) @ fflat [fget [a] k] @
    concat (replicate n (drop (k + fsize [fget [a] k]) (fflat [a])))"
proof (induction n)
  case (Suc n)
  show ?case
    using freplace_flat [OF k, of "(plug a k ^^ n) (fget [a] k)"]
    by (simp add: plug_single [OF k] Suc concat_replicate_slide)
qed simp

lemma pumped_derives:
  assumes k: "k < fsize [a]" and a: "derives rules [nt] [a]" and same: "root_nt rules (fget [a] k) = nt"
  shows "derives rules [nt] [(plug a k ^^ n) (fget [a] k)]"
proof (induction n)
  case 0
  show ?case using fget_derives [OF k a] same by simp
next
  case (Suc n)
  show ?case
    using freplace_derives [OF k a, of "(plug a k ^^ n) (fget [a] k)"] Suc same
    by (simp add: plug_single [OF k])
qed

lemma recursion_tree_ok:
  assumes d: "derives (g_rules ctx) [nt] [d]" and j: "j < fsize [d]"
    and pair: "rec_pair_ok (g_rules ctx) n [d] q j"
  shows "\<exists>u rt. recursion_tree (tree_of [d]) q j max_len = Inr rt \<and>
    derives (g_rules ctx) [n] [u] \<and> set (fflat [u]) \<subseteq> set (fflat [d]) \<and> t_rules rt = fflat [u] \<and>
    subtree_size rt 0 = Inr (fsize [u])"
proof -
  let ?a = "fget [d] q" and ?b = "fget [d] j" and ?k = "j - q"
  have q: "q < fsize [d]" "q < j" "j < q + fsize [?a]" using pair j by (simp_all add: rec_pair_ok_def)
  have k: "?k < fsize [?a]" "0 < ?k" using q by simp_all
  have b: "fget [?a] ?k = ?b" using fget_fget [OF q(1) k(1)] q(2) by simp
  define sb where "sb = fsize [?b]"
  define whole where "whole = fsize [?a] - sb"
  define post where "post = whole - ?k"
  define num where "num = max_len div whole"
  have inside: "?k + sb \<le> fsize [?a]" using fget_bound [OF k(1)] by (simp add: b sb_def)
  then have sizes: "fsize [?a] = ?k + sb + post" "whole = ?k + post" "whole \<noteq> 0" "sb \<le> fsize [?a]"
    "0 < sb"
    using k(2) fsize_single_pos [of ?b] by (auto simp: whole_def post_def sb_def)
  have bound: "q + fsize [?a] \<le> fsize [d]" by (rule fget_bound [OF q(1)])
  let ?A = "fflat [?a]" and ?D = "fflat [d]"
  define P where "P = take ?k ?A"
  define Q where "Q = drop (?k + sb) ?A"
  have len: "length P = ?k" "length Q = post" using sizes by (simp_all add: P_def Q_def)
  have A: "?A ! i = ?D ! (q + i)" if "i < fsize [?a]" for i
  proof -
    have "(take (fsize [?a]) (drop q ?D)) ! i = ?D ! (q + i)" using that bound by simp
    then show ?thesis by (simp only: fget_flat [OF q(1)])
  qed
  have P: "?D ! (q + i mod ?k) = P ! (i mod length P)" for i
  proof -
    have lt: "i mod ?k < ?k" by (rule mod_less_divisor [OF k(2)])
    then have "P ! (i mod ?k) = ?A ! (i mod ?k)" by (simp add: P_def)
    also have "\<dots> = ?D ! (q + i mod ?k)" using A lt k(1) by (meson less_trans)
    finally show ?thesis by (simp only: len(1))
  qed
  have Q: "?D ! (j + sb + i mod post) = Q ! (i mod length Q)" if "0 < post" for i
  proof -
    have lt: "?k + sb + i mod post < fsize [?a]" using that sizes(1) by simp
    have "Q ! (i mod post) = ?A ! (?k + sb + i mod post)" using sizes(1) by (simp add: Q_def)
    also have "\<dots> = ?D ! (q + (?k + sb + i mod post))" by (rule A [OF lt])
    also have "q + (?k + sb + i mod post) = j + sb + i mod post" using q(2) by simp
    finally show ?thesis by (simp only: len(2))
  qed
  have M: "map (\<lambda>i. ?D ! (j + i)) [0..<sb] = fflat [?b]"
  proof -
    have "fflat [?b] = take sb (drop j ?D)" using fget_flat [OF j] by (simp add: sb_def)
    then show ?thesis using fget_bound [OF j] by (intro nth_equalityI) (simp_all add: sb_def)
  qed
  define front where "front = map (\<lambda>i. (?D ! (q + i mod ?k), fsizes [d] ! (q + i mod ?k))) [0..<num * ?k]"
  define middle where "middle = map (\<lambda>i. (?D ! (j + i), fsizes [d] ! (j + i))) [0..<sb]"
  define rear where "rear = map (\<lambda>i. (?D ! (j + sb + i mod post), fsizes [d] ! (j + sb + i mod post))) [0..<num * post]"
  have copies: "copy_nodes (tree_of [d]) (\<lambda>i. q + i mod ?k) (num * ?k) = Inr front"
      "copy_nodes (tree_of [d]) (\<lambda>i. j + i) sb = Inr middle"
      "copy_nodes (tree_of [d]) (\<lambda>i. j + sb + i mod post) (num * post) = Inr rear"
  proof -
    have "q + i mod ?k < fsize [d]" for i
      using mod_less_divisor [OF k(2), of i] j q(2) by linarith
    then show "copy_nodes (tree_of [d]) (\<lambda>i. q + i mod ?k) (num * ?k) = Inr front"
      unfolding front_def by (intro copy_nodes_forest)
    show "copy_nodes (tree_of [d]) (\<lambda>i. j + i) sb = Inr middle"
      unfolding middle_def by (intro copy_nodes_forest) (use fget_bound [OF j] sb_def in linarith)
    have "j + sb + i mod post < fsize [d]" if "i < num * post" for i
    proof -
      have "0 < post" using that by (cases post) simp_all
      then have "i mod post < post" by simp
      then show ?thesis using bound sizes(1) q(2) by linarith
    qed
    then show "copy_nodes (tree_of [d]) (\<lambda>i. j + sb + i mod post) (num * post) = Inr rear"
      unfolding rear_def by (intro copy_nodes_forest)
  qed
  define u where "u = (plug ?a ?k ^^ num) ?b"
  have u: "fflat [u] = concat (replicate num P) @ fflat [?b] @ concat (replicate num Q)"
    using pumped_flat [OF k(1), of num] by (simp add: b u_def P_def Q_def sb_def)
  have parts: "map fst front = concat (replicate num P)" "map fst middle = fflat [?b]"
    "map fst rear = concat (replicate num Q)"
  proof -
    show "map fst front = concat (replicate num P)"
      using map_mod_replicate [of P num] by (simp add: front_def comp_def P len(1))
    show "map fst middle = fflat [?b]" using M by (simp add: middle_def comp_def)
    show "map fst rear = concat (replicate num Q)"
      using map_mod_replicate [of Q num] Q by (cases "0 < post") (simp_all add: rear_def comp_def len(2))
  qed
  define szs where "szs = adjust_sizes ?k whole num (map snd (front @ middle)) @ map snd rear"
  let ?rt = "\<lparr>t_rules = map fst (front @ middle @ rear), t_sizes = szs, t_parents = []\<rparr>"
  have rt: "recursion_tree (tree_of [d]) q j max_len = Inr ?rt"
  proof -
    have "usub j q = Inr ?k" using q(2) by simp
    moreover have "usub (fsize [?a]) sb = Inr whole"
      unfolding whole_def by (rule usub_Inr [OF sizes(4)])
    moreover have "usub whole ?k = Inr post"
      unfolding post_def by (rule usub_Inr) (simp only: sizes(2) le_add1)
    moreover have "subtree_size (tree_of [d]) q = Inr (fsize [?a])" by (rule subtree_size_forest [OF q(1)])
    moreover have "subtree_size (tree_of [d]) j = Inr sb"
      unfolding sb_def by (rule subtree_size_forest [OF j])
    moreover have "assert_that (whole \<noteq> 0) = Inr ()" by (rule assert_that_True [OF sizes(3)])
    ultimately show ?thesis
      by (simp only: recursion_tree_def rbind_simps Let_def copies szs_def num_def [symmetric])
  qed
  have size_u: "fsize [u] = num * ?k + sb + num * post"
    using arg_cong [OF u, of length] len by (simp add: length_concat sum_list_replicate sb_def)
  have "szs ! 0 = fsize [u] \<and> 0 < length szs"
  proof (cases "num = 0")
    case True
    have "middle \<noteq> []" using sizes(5) by (simp add: middle_def)
    moreover have "snd (middle ! 0) = sb" using sizes(5) fget_size [OF j] by (simp add: middle_def sb_def)
    ultimately show ?thesis
      using True size_u by (simp add: szs_def adjust_sizes_def front_def nth_append)
  next
    case False
    then have pos: "0 < num * ?k" using k(2) by simp
    then have "front \<noteq> []" "snd (front ! 0) = fsize [?a]"
      using fget_size [OF q(1)] by (simp_all add: front_def)
    moreover have "fsize [?a] + (num - 1) * whole = fsize [u]"
    proof -
      obtain nn where nn: "num = Suc nn" using False by (cases num) auto
      have "kk + sb + post + nn * (kk + post) = Suc nn * kk + sb + Suc nn * post" for kk :: nat
        by (simp add: algebra_simps)
      then show ?thesis by (simp only: nn size_u sizes(1,2) diff_Suc_1)
    qed
    ultimately show ?thesis
      using pos sizes(1) by (simp add: szs_def adjust_sizes_def nth_append)
  qed
  then have "subtree_size ?rt 0 = Inr (fsize [u])" by (simp add: subtree_size_def)
  moreover have "t_rules ?rt = fflat [u]" by (simp add: parts u)
  moreover have "derives (g_rules ctx) [n] [u]"
    unfolding u_def b [symmetric]
    by (rule pumped_derives [OF k(1)])
      (use pair fget_derives [OF q(1) d] b in \<open>simp_all add: rec_pair_ok_def\<close>)
  moreover have "set (fflat [u]) \<subseteq> set ?D"
  proof -
    have "set ?A \<subseteq> set ?D" "set (fflat [?b]) \<subseteq> set ?D"
      using fget_flat [OF q(1)] fget_flat [OF j] by (metis set_drop_subset set_take_subset subset_trans)+
    moreover have "set P \<subseteq> set ?A" "set Q \<subseteq> set ?A"
      by (simp_all add: P_def Q_def set_take_subset set_drop_subset)
    ultimately show ?thesis unfolding u by auto
  qed
  ultimately show ?thesis using rt by blast
qed

lemma mut_random_recursion_ok:
  assumes d: "derives (g_rules ctx) [nt] [d]" "entries_fit ctx (fflat [d])"
    and ris: "\<forall>ri \<in> set ris. \<exists>n. info_ok (g_rules ctx) d n ri" and total: "tester_total tester"
  shows "\<exists>w' r'. mut_random_recursion nxt ctx tester (tree_of [d]) ris r w = Inr (w', r') \<and>
    tested ctx nt tester w w'"
proof -
  obtain shift r1 where b: "between nxt r 1 10 = (shift, r1)" by force
  obtain ix r2 where c: "choose_index nxt r1 (length ris) = (ix, r2)" by force
  show ?thesis
  proof (cases ix)
    case None
    then show ?thesis by (simp add: mut_random_recursion_def b [simplified] c Let_def tested_def)
  next
    case (Some k)
    then have "k < length ris" using choose_index_lt c by simp
    then obtain n where n: "info_ok (g_rules ctx) d n (ris ! k)" using ris nth_mem by blast
    from random_recursion_pair_ok [OF n, of nxt r2] obtain q j r3 where
      p: "get_random_recursion_pair nxt (ris ! k) r2 = Inr ((q, j), r3)" "j < fsize [d]"
        "rec_pair_ok (g_rules ctx) n [d] q j" by blast
    from recursion_tree_ok [OF d(1) p(2,3), of "2 * 2 ^ shift"] obtain u rt where
      rt: "recursion_tree (tree_of [d]) q j (2 * 2 ^ shift) = Inr rt" "derives (g_rules ctx) [n] [u]"
        "set (fflat [u]) \<subseteq> set (fflat [d])" "t_rules rt = fflat [u]" "subtree_size rt 0 = Inr (fsize [u])"
      by blast
    have u: "derives (g_rules ctx) [root_nt (g_rules ctx) (fget [d] j)] [u]"
      using rt(2) p(3) by (simp add: rec_pair_ok_def)
    have "0 + fsize [u] \<le> length (t_rules rt)" "take (fsize [u]) (drop 0 (t_rules rt)) = fflat [u]"
      using rt(4) by (simp_all only: length_fflat add_0 drop_0 order_refl take_all)
    from replace_mutation_ok [OF d p(2) u entries_fit_subset [OF d(2) rt(3)] rt(5) this]
    obtain m where m: "mutate_replace_from_tree (tree_of [d]) j rt 0 = Inr m" "mutation_ok ctx nt m" by blast
    obtain w' where "tester m w = Inr w'" by (rule tester_totalE [OF total])
    with m p(1) rt(1) Some b c show ?thesis
      by (auto simp: mut_random_recursion_def Let_def tested_def)
  qed
qed

section \<open>The chunk store\<close>

text \<open>
  The store's trees are derivations whose nonterminals can be generated; a chunk is a node of one
  of them, listed under the node's nonterminal.
\<close>

definition chunk_ok :: "'h gcontext \<Rightarrow> tree list \<Rightarrow> nat \<Rightarrow> nat \<times> nat \<Rightarrow> bool" where
  "chunk_ok ctx trees nt = (\<lambda>(tid, nid). tid < length trees \<and> nid < tree_size (trees ! tid) \<and>
     get_nonterm_id (trees ! tid) nid ctx = Inr nt)"

definition store_ok :: "'h gcontext \<Rightarrow> chunk_store \<Rightarrow> bool" where
  "store_ok ctx cs \<longleftrightarrow> (\<forall>t \<in> set (cs_trees cs). \<exists>nt. input_ok ctx nt t) \<and>
     (\<forall>nt chunks c. cs_chunks cs nt = Some chunks \<longrightarrow> c \<in> set chunks \<longrightarrow> chunk_ok ctx (cs_trees cs) nt c)"

lemma store_ok_new: "store_ok ctx new_chunk_store"
  by (simp add: store_ok_def new_chunk_store_def)

text \<open>While a tree is being added its chunks refer to the entry it is about to get.\<close>

definition adding_ok :: "'h gcontext \<Rightarrow> tree \<Rightarrow> bool \<Rightarrow> chunk_store \<Rightarrow> chunk_store \<Rightarrow> bool" where
  "adding_ok ctx t new cs0 cs \<longleftrightarrow> cs_trees cs = cs_trees cs0 \<and>
     (\<forall>nt chunks c. cs_chunks cs nt = Some chunks \<longrightarrow> c \<in> set chunks \<longrightarrow>
        chunk_ok ctx (cs_trees cs0 @ [t]) nt c) \<and>
     (\<not> new \<longrightarrow> cs = cs0)"

lemma unparse_tree_ok:
  assumes rules: "\<forall>r \<in> set (g_rules ctx). rule_ok r" and d: "derives (g_rules ctx) [nt] [d]"
    and n: "n < fsize [d]"
  shows "unparse_tree ctx (tree_of [d]) n = Inr (hd (words (g_rules ctx) [fget [d] n]))"
  using plain_tree.unparse_word [OF rules fget_derives [OF n d], of n "tree_of [d]"]
    fget_bound [OF n] fget_flat [OF n]
  by (simp add: unparse_tree_def)

lemma add_tree_loop_ok:
  assumes rules: "\<forall>r \<in> set (g_rules ctx). rule_ok r" and d: "derives (g_rules ctx) [nt] [d]"
    and disk: "\<forall>k b. write_chunk k b"
  shows "adding_ok ctx (tree_of [d]) new cs0 cs \<Longrightarrow> \<forall>i \<in> set is. i < fsize [d] \<Longrightarrow>
    \<exists>new' cs'. add_tree_loop write_chunk ctx (tree_of [d]) (length (cs_trees cs0)) is new cs = Inr (new', cs') \<and>
      adding_ok ctx (tree_of [d]) new' cs0 cs'"
proof (induction "is" arbitrary: new cs)
  case (Cons i "is")
  have i: "i < fsize [d]" "\<forall>i \<in> set is. i < fsize [d]" using Cons.prems(2) by simp_all
  let ?word = "hd (words (g_rules ctx) [fget [d] i])" and ?nt = "root_nt (g_rules ctx) (fget [d] i)"
  let ?cs = "cs\<lparr>cs_seen := insert ?word (cs_seen cs),
      cs_chunks := (cs_chunks cs)(?nt \<mapsto> (case cs_chunks cs ?nt of Some v \<Rightarrow> v | None \<Rightarrow> []) @
        [(length (cs_trees cs0), i)]), cs_number := cs_number cs + 1\<rparr>"
  have nt: "get_nonterm_id (tree_of [d]) i ctx = Inr ?nt"
    by (rule get_nonterm_id_forest [OF d i(1)])
  have "chunk_ok ctx (cs_trees cs0 @ [tree_of [d]]) ?nt (length (cs_trees cs0), i)"
    using i(1) nt by (simp add: chunk_ok_def)
  then have "chunk_ok ctx (cs_trees cs0 @ [tree_of [d]]) n c"
    if "cs_chunks ?cs n = Some chunks" "c \<in> set chunks" for n chunks c
    using Cons.prems(1) that unfolding adding_ok_def
    by (cases "n = ?nt"; cases "cs_chunks cs ?nt") (auto simp del: split_paired_All)
  then have "adding_ok ctx (tree_of [d]) True cs0 ?cs"
    using Cons.prems(1) unfolding adding_ok_def by auto
  from Cons.IH [OF this i(2)] Cons.IH [OF Cons.prems(1) i(2)]
  show ?case
    using i(1) nt unparse_tree_ok [OF rules d i(1)] disk by simp
qed simp

lemma add_tree_ok:
  assumes rules: "\<forall>r \<in> set (g_rules ctx). rule_ok r" and t: "input_ok ctx nt t"
    and cs: "store_ok ctx cs" and disk: "\<forall>k b. write_chunk k b"
  shows "\<exists>cs'. add_tree write_chunk ctx t cs = Inr cs' \<and> store_ok ctx cs' \<and>
    set (cs_trees cs') \<subseteq> insert t (set (cs_trees cs))"
proof -
  obtain d where d: "derives (g_rules ctx) [nt] [d]" "t = tree_of [d]"
    by (rule input_okE [OF t])
  have "adding_ok ctx t False cs cs"
    using cs by (fastforce simp: adding_ok_def store_ok_def chunk_ok_def nth_append)
  with add_tree_loop_ok [OF rules d(1) disk, of False cs cs "[0..<fsize [d]]"] d(2)
  obtain new cs1 where l: "add_tree_loop write_chunk ctx t (length (cs_trees cs)) [0..<tree_size t] False cs =
      Inr (new, cs1)" "adding_ok ctx t new cs cs1"
    by auto
  show ?thesis
  proof (cases new)
    case True
    with l cs t have "store_ok ctx (cs1\<lparr>cs_trees := cs_trees cs1 @ [t]\<rparr>)"
      by (auto simp: store_ok_def adding_ok_def)
    with l True show ?thesis by (auto simp: add_tree_def adding_ok_def)
  next
    case False
    with l cs show ?thesis by (auto simp: add_tree_def adding_ok_def)
  qed
qed

lemma relevant_chunks_ok:
  assumes "\<forall>c \<in> set chunks. chunk_ok ctx (cs_trees cs) nt c"
  shows "\<exists>rel. relevant_chunks cs rid chunks = Inr rel \<and> set rel \<subseteq> set chunks \<and>
    (\<forall>(tid, nid) \<in> set rel. get_rule_id (cs_trees cs ! tid) nid \<noteq> Inr rid)"
  using assms
proof (induction cs rid chunks rule: relevant_chunks.induct)
  case (2 cs rid tid nid chunks)
  then obtain rel where "relevant_chunks cs rid chunks = Inr rel" "set rel \<subseteq> set chunks"
    "\<forall>(tid, nid) \<in> set rel. get_rule_id (cs_trees cs ! tid) nid \<noteq> Inr rid"
    by auto
  moreover have "tid < length (cs_trees cs)" "nid < tree_size (cs_trees cs ! tid)"
    using 2 by (simp_all add: chunk_ok_def)
  ultimately show ?case by (auto simp: get_rule_id_def tree_size_def)
qed simp

lemma get_alternative_ok:
  assumes cs: "store_ok ctx cs" and rid: "rid < length (g_rules ctx)"
  shows "\<exists>res r'. get_alternative_to nxt ctx cs rid r = Inr (res, r') \<and>
    (\<forall>t nid. res = Some (t, nid) \<longrightarrow> t \<in> set (cs_trees cs) \<and> nid < tree_size t \<and>
       get_nonterm_id t nid ctx = Inr (nonterm (g_rules ctx ! rid)) \<and> get_rule_id t nid \<noteq> Inr rid)"
proof -
  let ?nt = "nonterm (g_rules ctx ! rid)"
  have nt: "get_nt (Rule rid) ctx = Inr ?nt" using rid by (simp add: get_nt_def get_rule_def)
  show ?thesis
  proof (cases "cs_chunks cs ?nt")
    case None
    with nt show ?thesis by (simp add: get_alternative_to_def)
  next
    case (Some chunks)
    then have all: "\<forall>c \<in> set chunks. chunk_ok ctx (cs_trees cs) ?nt c"
      using cs by (auto simp: store_ok_def)
    from relevant_chunks_ok [OF all, of rid] obtain rel where
      rel: "relevant_chunks cs rid chunks = Inr rel" "set rel \<subseteq> set chunks"
        "\<forall>(tid, nid) \<in> set rel. get_rule_id (cs_trees cs ! tid) nid \<noteq> Inr rid" by blast
    obtain sel r1 where s: "reservoir nxt rel 0 None r = (sel, r1)" by force
    show ?thesis
    proof (cases sel)
      case None
      with nt Some rel(1) s show ?thesis by (simp add: get_alternative_to_def)
    next
      case sel: (Some c)
      obtain tid nid where c: "c = (tid, nid)" by (cases c)
      have "c \<in> set rel" using reservoir_member [of nxt rel 0 None r c] s sel by simp
      with all rel c have "chunk_ok ctx (cs_trees cs) ?nt (tid, nid)"
        "get_rule_id (cs_trees cs ! tid) nid \<noteq> Inr rid" by auto
      with nt Some rel(1) s sel c show ?thesis
        by (auto simp: get_alternative_to_def chunk_ok_def)
    qed
  qed
qed

lemma mut_splice_ok:
  assumes t: "input_ok ctx nt t" and cs: "store_ok ctx cs" and total: "tester_total tester"
  shows "\<exists>w' r'. mut_splice nxt ctx tester t cs r w = Inr (w', r') \<and> tested ctx nt tester w w'"
proof -
  obtain d where d: "derives (g_rules ctx) [nt] [d]" "t = tree_of [d]" "entries_fit ctx (fflat [d])"
    by (rule input_okE [OF t])
  obtain n r1 where b: "below nxt r (fsize [d]) = (n, r1)" by force
  have n: "n < fsize [d]" using rnd.below_eq_lt [OF b] by simp
  let ?rid = "rc_id (root_entry (fget [d] n))"
  have rid: "?rid < length (g_rules ctx)" "nonterm (g_rules ctx ! ?rid) = root_nt (g_rules ctx) (fget [d] n)"
    "get_rule_id t n = Inr ?rid"
    using get_rule_at_forest(2,3) [OF d(1) n] fget_entry [OF n] n by (simp_all add: get_rule_id_def d(2))
  from get_alternative_ok [OF cs rid(1), of nxt r1] obtain res r2 where
    alt: "get_alternative_to nxt ctx cs ?rid r1 = Inr (res, r2)"
    "\<And>t' nid. res = Some (t', nid) \<Longrightarrow> t' \<in> set (cs_trees cs) \<and> nid < tree_size t' \<and>
       get_nonterm_id t' nid ctx = Inr (nonterm (g_rules ctx ! ?rid))" by blast
  have start: "mut_splice nxt ctx tester t cs r w =
    (case res of None \<Rightarrow> Inr (w, r2) | Some (repl_tree, repl_node) \<Rightarrow>
       rbind (mutate_replace_from_tree t n repl_tree repl_node) (\<lambda>repl.
       rbind (tester repl w) (\<lambda>w. Inr (w, r2))))"
  proof -
    have "tree_size t = fsize [d]" by (simp add: d(2))
    with b rid(3) alt(1) show ?thesis by (simp add: mut_splice_def)
  qed
  show ?thesis
  proof (cases res)
    case None
    then show ?thesis by (simp add: start tested_def)
  next
    case (Some p)
    obtain t' nid where p: "p = (t', nid)" by (cases p)
    have a: "t' \<in> set (cs_trees cs)" "nid < tree_size t'"
      "get_nonterm_id t' nid ctx = Inr (nonterm (g_rules ctx ! ?rid))"
      using alt(2) Some p by simp_all
    from a(1) cs obtain nt' where "input_ok ctx nt' t'" by (auto simp: store_ok_def)
    then obtain e where e: "derives (g_rules ctx) [nt'] [e]" "t' = tree_of [e]" "entries_fit ctx (fflat [e])"
      by (rule input_okE)
    have k: "nid < fsize [e]" using a(2) by (simp add: e(2))
    have "root_nt (g_rules ctx) (fget [e] nid) = root_nt (g_rules ctx) (fget [d] n)"
      using a(3) get_nonterm_id_forest [OF e(1) k] rid(2) by (simp add: e(2))
    from replace_by_subtree_ok [OF d(1,3) n e(1,3) k this] obtain m where
      m: "mutate_replace_from_tree t n t' nid = Inr m" "mutation_ok ctx nt m" by (auto simp: d(2) e(2))
    obtain w' where "tester m w = Inr w'" by (rule tester_totalE [OF total])
    with m show ?thesis by (auto simp: start Some p tested_def)
  qed
qed

section \<open>Properties\<close>



end
