(* ===== verification/Nautilus.thy ===== *)
theory Nautilus
  imports GrammarMutators
begin

text \<open>
  The grammar fuzzer as its clients use it: contexts from lists of rules and the generator
  (\<^verbatim>\<open>generators/nautilus.rs\<close>), inputs (\<^verbatim>\<open>inputs/nautilus.rs\<close>), the
  feedback that fills the chunk store (\<^verbatim>\<open>feedbacks/nautilus.rs\<close>), and the three
  mutators under one contract. The main theorem: whatever sequence of mutations and additions a
  campaign makes, nothing panics and every input is a sentence of the grammar.
\<close>

section \<open>Contexts, inputs and the generator\<close>

text \<open>The name \<^verbatim>\<open>START\<close>.\<close>

definition start_name :: bytes where
  "start_name = [83, 84, 65, 82, 84]"

fun add_rules :: "(bytes \<times> bytes) list \<Rightarrow> 'h gcontext \<Rightarrow> fault + 'h gcontext" where
  "add_rules [] ctx = Inr ctx"
| "add_rules ((symbol, rule) # rules) ctx =
     rbind (add_rule symbol rule ctx) (\<lambda>(_, ctx). add_rules rules ctx)"

text \<open>
  \<open>NautilusContext::with_rules\<close>: nothing for an empty list, which is only found after the loop.
\<close>

definition with_rules :: "nat \<Rightarrow> (bytes \<times> bytes) list \<Rightarrow> (fault + 'h gcontext option) option" where
  "with_rules tree_depth rules =
     (case add_rules rules new_context of
        Inl e \<Rightarrow> Some (Inl e)
      | Inr ctx \<Rightarrow>
          (case rules of
             [] \<Rightarrow> Some (Inr None)
           | (symbol, _) # _ \<Rightarrow>
               (case add_rule start_name (123 # symbol @ [125]) ctx of
                  Inl e \<Rightarrow> Some (Inl e)
                | Inr (_, ctx) \<Rightarrow> map_option (\<lambda>res. rbind res (\<lambda>ctx. Inr (Some ctx)))
                    (initialize tree_depth ctx))))"

text \<open>\<open>NautilusContext::new\<close> indexes the lists of strings it is given.\<close>

fun add_string_rules :: "bytes list list \<Rightarrow> 'h gcontext \<Rightarrow> fault + 'h gcontext" where
  "add_string_rules [] ctx = Inr ctx"
| "add_string_rules (rule # rules) ctx =
     rbind (nth_or_panic rule 0) (\<lambda>symbol. rbind (nth_or_panic rule 1) (\<lambda>format.
     rbind (add_rule symbol format ctx) (\<lambda>(_, ctx). add_string_rules rules ctx)))"

definition nautilus_context :: "nat \<Rightarrow> bytes list list \<Rightarrow> (fault + 'h gcontext) option" where
  "nautilus_context tree_depth rules =
     (case rbind (assert_that (rules \<noteq> [])) (\<lambda>_. rbind (assert_that (hd rules \<noteq> [])) (\<lambda>_.
             rbind (add_string_rules rules new_context) (\<lambda>ctx.
             add_rule start_name (123 # hd (hd rules) @ [125]) ctx))) of
        Inl e \<Rightarrow> Some (Inl e)
      | Inr (_, ctx) \<Rightarrow> initialize tree_depth ctx)"

definition nautilus_generate ::
  "('r \<Rightarrow> u64 \<times> 'r) \<Rightarrow> ('h, 'r) regen \<Rightarrow> 'h gcontext \<Rightarrow> 'r \<Rightarrow> fault + tree \<times> 'r" where
  "nautilus_generate nxt regen ctx r =
     rbind (nt_id start_name ctx) (\<lambda>nonterm.
     generate_from_nt nxt regen ctx empty_tree r nonterm (g_max_len ctx))"

definition input_unparse :: "'h gcontext \<Rightarrow> tree \<Rightarrow> fault + bytes" where
  "input_unparse ctx t = unparse_tree ctx t 0"

text \<open>\<open>InputContext::len\<close> is the length of the bytes, \<open>HasLen::len\<close> the number of nodes.\<close>

definition input_bytes_len :: "'h gcontext \<Rightarrow> tree \<Rightarrow> fault + nat" where
  "input_bytes_len ctx t = rbind (input_unparse ctx t) (\<lambda>bytes. Inr (length bytes))"

definition input_len :: "tree \<Rightarrow> nat" where
  "input_len t = tree_size t"

text \<open>\<open>NautilusFeedback::append_metadata\<close> on the input of the test case.\<close>

definition append_chunks ::
  "(nat \<Rightarrow> bytes \<Rightarrow> bool) \<Rightarrow> 'h gcontext \<Rightarrow> (error + tree) \<Rightarrow> chunk_store option \<Rightarrow> fault + chunk_store" where
  "append_chunks write_chunk ctx testcase meta =
     (case testcase of
        Inl e \<Rightarrow> Inl (Fault e)
      | Inr t \<Rightarrow> (case meta of None \<Rightarrow> Inl (Fault KeyNotFound) | Some cks \<Rightarrow> add_tree write_chunk ctx t cks))"

section \<open>The contract of the mutators\<close>

text \<open>
  A mutator of trees keeps what holds of its inputs: it returns, the tree has the invariant again,
  and it is the same when the mutator says so.
\<close>

locale grammar_mutator =
  fixes inv :: "tree \<Rightarrow> bool"
    and mutate :: "tree \<Rightarrow> tree \<Rightarrow> 'r \<Rightarrow> fault + mres \<times> tree \<times> tree \<times> 'r"
  assumes keeps: "inv t \<Longrightarrow> \<exists>res t' s' r'. mutate s t r = Inr (res, t', s', r') \<and> inv t' \<and>
    (res = Skipped \<longrightarrow> t' = t)"
begin

lemma keepsE:
  assumes "inv t"
  obtains res t' s' r' where "mutate s t r = Inr (res, t', s', r')" "inv t'"
    "res = Skipped \<Longrightarrow> t' = t"
  using keeps [OF assms] by blast

end

definition ready :: "('h, 'r) regen \<Rightarrow> 'h gcontext \<Rightarrow> bool" where
  "ready regen ctx \<longleftrightarrow> initialized ctx \<and> short_rules ctx \<and> regen_total regen"

lemma tester_total_collect [simp]: "tester_total collect"
  by (simp add: tester_total_def collect_def)

lemma take_collected_ok:
  assumes t: "input_ok ctx nt t" and w: "tested ctx nt collect [] tmp"
  shows "\<exists>res t'. take_collected ctx t tmp = Inr (res, t') \<and> input_ok ctx nt t' \<and> (res = Skipped \<longrightarrow> t' = t)"
proof (cases "tmp = []")
  case True
  with t show ?thesis by (simp add: take_collected_def)
next
  case False
  then obtain m where m: "mutation_ok ctx nt m" "tmp = mutation_rules m"
    using w by (auto simp: tested_def collect_def mutation_rules_def)
  then obtain e where e: "derives (g_rules ctx) [nt] [e]" "tmp = fflat [e]" "entries_fit ctx (fflat [e])"
    by (auto simp: mutation_ok_def)
  with False from_rule_vec_exact [OF e(1)] show ?thesis
    by (auto simp: take_collected_def input_ok_def tree_ok_def)
qed

interpretation rnd_mut: grammar_mutator "\<lambda>t. ready regen ctx \<and> input_ok ctx nt t" "random_mutate nxt regen ctx"
  for nxt regen ctx nt
proof
  fix s t r
  assume t: "ready regen ctx \<and> input_ok ctx nt t"
  then obtain s' tmp r' where m: "mut_random nxt regen ctx collect s t r [] = Inr (s', tmp, r')"
    "tested ctx nt collect [] tmp"
    using mut_random_ok [of ctx regen collect nt t nxt s r "[]"] by (auto simp: ready_def)
  with take_collected_ok [of ctx nt t tmp] t
  show "\<exists>res t' s' r'. random_mutate nxt regen ctx s t r = Inr (res, t', s', r') \<and>
      (ready regen ctx \<and> input_ok ctx nt t') \<and> (res = Skipped \<longrightarrow> t' = t)"
    by (auto simp: random_mutate_def unwrap_def)
qed

interpretation rec_mut: grammar_mutator "\<lambda>t. ready regen ctx \<and> input_ok ctx nt t" "recursion_mutate nxt ctx"
  for nxt regen ctx nt
proof
  fix s t r
  assume t: "ready regen ctx \<and> input_ok ctx nt t"
  then obtain d where d: "derives (g_rules ctx) [nt] [d]" "t = tree_of [d]" "entries_fit ctx (fflat [d])"
    by (auto elim: input_okE)
  obtain res where res: "calc_recursions t ctx = Inr res"
    "\<And>ris. res = Some ris \<Longrightarrow> \<forall>ri \<in> set ris. \<exists>n. info_ok (g_rules ctx) d n ri"
    using calc_recursions_ok [OF d(1)] d(2) by blast
  show "\<exists>res t' s' r'. recursion_mutate nxt ctx s t r = Inr (res, t', s', r') \<and>
      (ready regen ctx \<and> input_ok ctx nt t') \<and> (res = Skipped \<longrightarrow> t' = t)"
  proof (cases res)
    case None
    with res(1) t show ?thesis by (simp add: recursion_mutate_def)
  next
    case (Some ris)
    obtain tmp r' where m: "mut_random_recursion nxt ctx collect t ris r [] = Inr (tmp, r')"
      "tested ctx nt collect [] tmp"
      using mut_random_recursion_ok [OF d(1,3) res(2) [OF Some], of collect nxt r "[]"] d(2) by auto
    with take_collected_ok [of ctx nt t tmp] t res(1) Some show ?thesis
      by (auto simp: recursion_mutate_def unwrap_def)
  qed
qed

interpretation splice_mut: grammar_mutator
  "\<lambda>t. (ready regen ctx \<and> store_ok ctx cks) \<and> input_ok ctx nt t" "splice_mutate nxt ctx (Some cks)"
  for nxt regen ctx cks nt
proof
  fix s t r
  assume t: "(ready regen ctx \<and> store_ok ctx cks) \<and> input_ok ctx nt t"
  obtain seed r1 where n: "nxt r = (seed, r1)" by (cases "nxt r")
  obtain tmp r' where m: "mut_splice romu_duo_jr_next ctx collect t cks (romu_duo_jr_with_seed seed) [] = Inr (tmp, r')"
    "tested ctx nt collect [] tmp"
    using mut_splice_ok [of ctx nt t cks collect romu_duo_jr_next "romu_duo_jr_with_seed seed" "[]"] t by auto
  with take_collected_ok [of ctx nt t tmp] t n
  show "\<exists>res t' s' r'. splice_mutate nxt ctx (Some cks) s t r = Inr (res, t', s', r') \<and>
      ((ready regen ctx \<and> store_ok ctx cks) \<and> input_ok ctx nt t') \<and> (res = Skipped \<longrightarrow> t' = t)"
    by (auto simp: splice_mutate_def unwrap_def)
qed

section \<open>A campaign\<close>

text \<open>
  What the stages do with an input, in any order: one of the mutators, or the feedback adds the
  input's chunks to the store. The state is the input, the scratchpad, the store and the generator.
\<close>

datatype nautilus_op = RandomMutation | RecursionMutation | SplicingMutation | AddToStore

type_synonym 'r nautilus_state = "tree \<times> tree \<times> chunk_store \<times> 'r"

fun nautilus_step ::
  "('r \<Rightarrow> u64 \<times> 'r) \<Rightarrow> ('h, 'r) regen \<Rightarrow> (nat \<Rightarrow> bytes \<Rightarrow> bool) \<Rightarrow> 'h gcontext \<Rightarrow> nautilus_op
    \<Rightarrow> 'r nautilus_state \<Rightarrow> fault + 'r nautilus_state" where
  "nautilus_step nxt regen write_chunk ctx RandomMutation (t, s, cks, r) =
     rbind (random_mutate nxt regen ctx s t r) (\<lambda>(_, t, s, r). Inr (t, s, cks, r))"
| "nautilus_step nxt regen write_chunk ctx RecursionMutation (t, s, cks, r) =
     rbind (recursion_mutate nxt ctx s t r) (\<lambda>(_, t, s, r). Inr (t, s, cks, r))"
| "nautilus_step nxt regen write_chunk ctx SplicingMutation (t, s, cks, r) =
     rbind (splice_mutate nxt ctx (Some cks) s t r) (\<lambda>(_, t, s, r). Inr (t, s, cks, r))"
| "nautilus_step nxt regen write_chunk ctx AddToStore (t, s, cks, r) =
     rbind (append_chunks write_chunk ctx (Inr t) (Some cks)) (\<lambda>cks. Inr (t, s, cks, r))"

fun nautilus_run ::
  "('r \<Rightarrow> u64 \<times> 'r) \<Rightarrow> ('h, 'r) regen \<Rightarrow> (nat \<Rightarrow> bytes \<Rightarrow> bool) \<Rightarrow> 'h gcontext \<Rightarrow> nautilus_op list
    \<Rightarrow> 'r nautilus_state \<Rightarrow> fault + 'r nautilus_state" where
  "nautilus_run nxt regen write_chunk ctx [] st = Inr st"
| "nautilus_run nxt regen write_chunk ctx (x # xs) st =
     rbind (nautilus_step nxt regen write_chunk ctx x st) (nautilus_run nxt regen write_chunk ctx xs)"

definition nautilus_ok :: "('h, 'r) regen \<Rightarrow> 'h gcontext \<Rightarrow> nat \<Rightarrow> 'r nautilus_state \<Rightarrow> bool" where
  "nautilus_ok regen ctx nt st \<longleftrightarrow> (case st of (t, s, cks, r) \<Rightarrow>
     ready regen ctx \<and> store_ok ctx cks \<and> input_ok ctx nt t)"

lemma nautilus_step_ok:
  assumes ok: "nautilus_ok regen ctx nt st" and disk: "\<forall>k b. write_chunk k b"
  shows "\<exists>st'. nautilus_step nxt regen write_chunk ctx x st = Inr st' \<and> nautilus_ok regen ctx nt st'"
proof -
  obtain t s cks r where st: "st = (t, s, cks, r)" by (cases st)
  have t: "ready regen ctx" "store_ok ctx cks" "input_ok ctx nt t"
    using ok by (simp_all add: nautilus_ok_def st)
  show ?thesis
  proof (cases x)
    case RandomMutation
    show ?thesis
      by (rule rnd_mut.keepsE [of regen ctx nt t nxt s r])
        (use t RandomMutation st in \<open>auto simp: nautilus_ok_def\<close>)
  next
    case RecursionMutation
    show ?thesis
      by (rule rec_mut.keepsE [of regen ctx nt t nxt s r])
        (use t RecursionMutation st in \<open>auto simp: nautilus_ok_def\<close>)
  next
    case SplicingMutation
    show ?thesis
      by (rule splice_mut.keepsE [of regen ctx cks nt t nxt s r])
        (use t SplicingMutation st in \<open>auto simp: nautilus_ok_def\<close>)
  next
    case AddToStore
    have "\<forall>r \<in> set (g_rules ctx). rule_ok r"
      using t(1) by (simp add: ready_def initialized_def measured_def ctx_ok_def)
    from add_tree_ok [OF this t(3,2) disk] AddToStore t st show ?thesis
      by (auto simp: nautilus_ok_def append_chunks_def)
  qed
qed

lemma nautilus_run_ok:
  assumes "\<forall>k b. write_chunk k b"
  shows "nautilus_ok regen ctx nt st \<Longrightarrow>
    \<exists>st'. nautilus_run nxt regen write_chunk ctx xs st = Inr st' \<and> nautilus_ok regen ctx nt st'"
proof (induction xs arbitrary: st)
  case (Cons x xs)
  from nautilus_step_ok [OF Cons.prems assms, of nxt x] obtain st1 where
    "nautilus_step nxt regen write_chunk ctx x st = Inr st1" "nautilus_ok regen ctx nt st1" by blast
  with Cons.IH [of st1] show ?case by simp
qed simp

lemma add_string_rules_ok:
  "ctx_ok ctx \<Longrightarrow> add_string_rules rules ctx = Inr ctx' \<Longrightarrow>
     ctx_ok ctx' \<and> g_nt_min ctx' = g_nt_min ctx"
proof (induction rules arbitrary: ctx)
  case (Cons rule rules)
  obtain rid ctx1 where 1: "add_rule (rule ! 0) (rule ! 1) ctx = Inr (rid, ctx1)"
    and 2: "add_string_rules rules ctx1 = Inr ctx'"
    using Cons.prems(2) by (auto simp: run_simps)
  note a = add_rule_ok [OF Cons.prems(1) 1]
  from Cons.IH [OF a(1) 2] a(2) show ?case by simp
qed simp

text \<open>A context of a list of rules that could be built can derive its start symbol.\<close>

lemma nautilus_context_ok:
  assumes "nautilus_context tree_depth rules = Some (Inr ctx)"
  obtains start m where "initialized ctx" "g_max_len ctx = tree_depth + 2"
    "nt_id start_name ctx = Inr start" "g_nt_min ctx start = Some m"
proof -
  let ?root = "123 # hd (hd rules) @ [125]"
  obtain ctx1 rid ctx2 where 1: "add_string_rules rules new_context = Inr ctx1"
    and 2: "add_rule start_name ?root ctx1 = Inr (rid, ctx2)" and i: "initialize tree_depth ctx2 = Some (Inr ctx)"
    using assms by (auto simp: nautilus_context_def run_simps split: sum.splits)
  have 3: "ctx_ok ctx1" "g_nt_min ctx1 = Map.empty"
    using add_string_rules_ok [OF ctx_ok_new 1] by (simp_all add: new_context_def)
  note a = add_rule_ok [OF 3(1) 2]
  have "ctx_ok ctx2" "g_nt_min ctx2 = Map.empty" using a 3(2) by simp_all
  from initialize_cases [OF this, of tree_depth] i have c: "initialized ctx" "g_rules ctx = g_rules ctx2"
    "g_name_ids ctx = g_name_ids ctx2" "g_max_len ctx = tree_depth + 2" by simp_all
  obtain r where r: "g_rules ctx2 = g_rules ctx1 @ [r]" "map_of (g_name_ids ctx2) start_name = Some (nonterm r)"
    using a(3) by blast
  have last: "length (g_rules ctx1) < length (g_rules ctx)" "nonterm (g_rules ctx ! length (g_rules ctx1)) = nonterm r"
    using c(2) r(1) by simp_all
  obtain m where "g_nt_min ctx (nonterm r) = Some m"
    by (rule initialized_rule [OF c(1) last(1)]) (use last(2) in simp)
  moreover have "nt_id start_name ctx = Inr (nonterm r)"
    using r(2) c(3) by (simp add: nt_id_def)
  ultimately show thesis using that c(1,4) by blast
qed

text \<open>
  C4. A grammar campaign. Let the context be one that \<open>NautilusContext::new\<close> builds, with a depth
  that allows the smallest derivation of the start symbol. Then the generator returns an input, and
  after any sequence of random, recursion and splicing mutations and of additions to the chunk store
  nothing has panicked: the input is a derivation of the start symbol, with the sizes and parents
  that belong to it, and unparsing it returns the sentence the derivation stands for.
\<close>

theorem grammar_inputs_are_sentences:
  assumes "nautilus_context tree_depth rules = Some (Inr ctx)"
    and "nt_id start_name ctx = Inr start" and "the (g_nt_min ctx start) \<le> tree_depth + 2"
    and "short_rules ctx" and "regen_total regen" and "\<forall>k b. write_chunk k b"
  shows "\<exists>t0 r0 t s cks r' d.
    nautilus_generate nxt regen ctx r = Inr (t0, r0) \<and> tree_size t0 \<le> tree_depth + 2 \<and>
    nautilus_run nxt regen write_chunk ctx ops (t0, empty_tree, new_chunk_store, r0) = Inr (t, s, cks, r') \<and>
    derives (g_rules ctx) [start] [d] \<and> t = tree_of [d] \<and>
    input_unparse ctx t = Inr (hd (words (g_rules ctx) [d]))"
proof -
  obtain start' m where init: "initialized ctx" and max: "g_max_len ctx = tree_depth + 2"
    and "nt_id start_name ctx = Inr start'" "g_nt_min ctx start' = Some m"
    by (rule nautilus_context_ok [OF assms(1)])
  with assms(2,3) have m: "g_nt_min ctx start = Some m" "m \<le> g_max_len ctx" by simp_all
  have meas: "measured ctx" using init by (simp add: initialized_def)
  from generate_from_nt_ok [OF init assms(5,4) m, of nxt empty_tree r] obtain t0 r0 where
    g: "generate_from_nt nxt regen ctx empty_tree r start (g_max_len ctx) = Inr (t0, r0)"
      "tree_ok ctx start t0" "tree_size t0 \<le> g_max_len ctx" by blast
  obtain e where e: "derives (g_rules ctx) [start] [e]" "t0 = tree_of [e]" by (rule tree_okE [OF g(2)])
  have "input_ok ctx start t0"
    using g(2) small_entries_fit [OF meas e(1)] g(3) by (simp add: input_ok_def e(2))
  then have "nautilus_ok regen ctx start (t0, empty_tree, new_chunk_store, r0)"
    using init assms(4,5) by (simp add: nautilus_ok_def ready_def store_ok_new)
  from nautilus_run_ok [OF assms(6) this, of nxt ops] obtain t s cks r' where
    run: "nautilus_run nxt regen write_chunk ctx ops (t0, empty_tree, new_chunk_store, r0) = Inr (t, s, cks, r')"
      "input_ok ctx start t" by (auto simp: nautilus_ok_def)
  obtain d where d: "derives (g_rules ctx) [start] [d]" "t = tree_of [d]" by (rule input_okE [OF run(2)])
  have "\<forall>r \<in> set (g_rules ctx). rule_ok r" using meas by (simp add: measured_def ctx_ok_def)
  from unparse_tree_ok [OF this d(1) fsize_single_pos]
  have "input_unparse ctx t = Inr (hd (words (g_rules ctx) [d]))"
    by (simp add: input_unparse_def d(2) fget_0)
  moreover have "nautilus_generate nxt regen ctx r = Inr (t0, r0)"
    using g(1) assms(2) by (simp add: nautilus_generate_def)
  moreover have "tree_size t0 \<le> tree_depth + 2" using g(3) max by simp
  ultimately show ?thesis using run(1) d by blast
qed

theorem grammar_inputs_are_sentences_witness:
  "\<exists>ctx :: unit gcontext. \<exists>t0 r0 t s cks r' d.
    nautilus_context 3 [[[83], [97, 123, 83, 125]], [[83], [98]]] = Some (Inr ctx) \<and>
    nautilus_generate xorshift64_next (\<lambda>_ r. Inr ([], r)) ctx 12345 = Inr (t0, r0) \<and>
    nautilus_run xorshift64_next (\<lambda>_ r. Inr ([], r)) (\<lambda>_ _. True) ctx
      [AddToStore, RandomMutation, RecursionMutation, SplicingMutation]
      (t0, empty_tree, new_chunk_store, r0) = Inr (t, s, cks, r') \<and>
    derives (g_rules ctx) [1] [d] \<and> t = tree_of [d] \<and>
    input_unparse ctx t = Inr (hd (words (g_rules ctx) [d]))"
proof -
  have "case nautilus_context 3 [[[83], [97, 123, 83, 125]], [[83], [98]]] :: (fault + unit gcontext) option of
      Some (Inr ctx) \<Rightarrow> short_rules ctx \<and> nt_id start_name ctx = Inr 1 \<and> g_nt_min ctx 1 = Some 2
    | _ \<Rightarrow> False"
    by code_simp
  then obtain ctx :: "unit gcontext" where
    ctx: "nautilus_context 3 [[[83], [97, 123, 83, 125]], [[83], [98]]] = Some (Inr ctx)"
      "short_rules ctx" "nt_id start_name ctx = Inr 1" "g_nt_min ctx 1 = Some 2"
    by (auto split: option.splits sum.splits)
  have total: "regen_total (\<lambda>(_ :: unit) (r :: u64). Inr ([], r))" by (simp add: regen_total_def)
  have "the (g_nt_min ctx 1) \<le> 3 + 2" using ctx(4) by simp
  from grammar_inputs_are_sentences [OF ctx(1,3) this ctx(2) total, where nxt = xorshift64_next
      and write_chunk = "\<lambda>_ _. True" and r = 12345
      and ops = "[AddToStore, RandomMutation, RecursionMutation, SplicingMutation]"]
  show ?thesis using ctx(1) by blast
qed

end
