(* ===== verification/Minimizers.thy ===== *)
theory Minimizers
  imports GrammarMutators
begin

text \<open>
  The two minimisations of \<^verbatim>\<open>common/nautilus/grammartec/mutator.rs\<close>: a subtree is
  replaced by a smallest one of its nonterminal, or by a node below it with the same nonterminal,
  as long as the caller's test accepts the result. The lemmas: both end, their trees stay
  derivations and never grow, and with a test that accepts everything they reach what they aim at.
\<close>

section \<open>The operations\<close>

text \<open>
  \<open>find_parent_with_nt\<close> climbs the vector of parents, which in an arbitrary vector may run in
  a circle.
\<close>

partial_function (option) find_parent_loop ::
  "tree \<Rightarrow> 'h gcontext \<Rightarrow> nat \<Rightarrow> nat \<Rightarrow> (fault + nat option) option" where
  "find_parent_loop t ctx nt node =
     (case get_parent t node of
        Inl e \<Rightarrow> Some (Inl e)
      | Inr None \<Rightarrow> Some (Inr None)
      | Inr (Some parent) \<Rightarrow>
          (case get_nonterm_id t parent ctx of
             Inl e \<Rightarrow> Some (Inl e)
           | Inr n \<Rightarrow> if n = nt then Some (Inr (Some parent)) else find_parent_loop t ctx nt parent))"

declare find_parent_loop.simps [code]

definition find_parent_with_nt :: "tree \<Rightarrow> nat \<Rightarrow> 'h gcontext \<Rightarrow> (fault + nat option) option" where
  "find_parent_with_nt t node ctx =
     (case get_nonterm_id t node ctx of
        Inl e \<Rightarrow> Some (Inl e)
      | Inr nt \<Rightarrow> find_parent_loop t ctx nt node)"

text \<open>The closures of the minimisations answer whether the mutation keeps the bits they are given.\<close>

type_synonym 'w chooser = "tree_mutation \<Rightarrow> nat set \<Rightarrow> 'w \<Rightarrow> fault + bool \<times> 'w"

definition test_and_convert ::
  "tree \<Rightarrow> nat \<Rightarrow> tree \<Rightarrow> nat \<Rightarrow> 'h gcontext \<Rightarrow> nat set \<Rightarrow> 'w chooser \<Rightarrow> 'w \<Rightarrow> fault + tree option \<times> 'w" where
  "test_and_convert tree_a n_a tree_b n_b ctx fresh_bits tester w =
     rbind (mutate_replace_from_tree tree_a n_a tree_b n_b) (\<lambda>repl.
     rbind (tester repl fresh_bits w) (\<lambda>(accepted, w).
     if accepted then rbind (mutation_to_tree ctx repl) (\<lambda>t. Inr (Some t, w)) else Inr (None, w)))"

text \<open>
  \<open>minimize_tree\<close>: one node and the loop, over the tree, the scratchpad, the generator and what
  the closure captures. The result tells whether the end of the tree was reached.
\<close>

definition minimize_node ::
  "('r \<Rightarrow> u64 \<times> 'r) \<Rightarrow> ('h, 'r) regen \<Rightarrow> 'h gcontext \<Rightarrow> nat set \<Rightarrow> 'w chooser \<Rightarrow> nat
    \<Rightarrow> tree \<times> tree \<times> 'r \<times> 'w \<Rightarrow> fault + tree \<times> tree \<times> 'r \<times> 'w" where
  "minimize_node nxt regen ctx bits tester n = (\<lambda>(t, scratchpad, r, w).
     rbind (get_nonterm_id t n ctx) (\<lambda>nt.
     rbind (subtree_size t n) (\<lambda>s.
     rbind (get_min_len_for_nt nt ctx) (\<lambda>m.
     if m < s
     then rbind (generate_from_nt nxt regen ctx scratchpad r nt m) (\<lambda>(scratchpad, r).
          rbind (test_and_convert t n scratchpad 0 ctx bits tester w) (\<lambda>(res, w).
          Inr (case res of Some t' \<Rightarrow> t' | None \<Rightarrow> t, scratchpad, r, w)))
     else Inr (t, scratchpad, r, w)))))"

partial_function (option) minimize_tree_loop ::
  "('r \<Rightarrow> u64 \<times> 'r) \<Rightarrow> ('h, 'r) regen \<Rightarrow> 'h gcontext \<Rightarrow> nat set \<Rightarrow> 'w chooser \<Rightarrow> nat \<Rightarrow> nat
    \<Rightarrow> tree \<times> tree \<times> 'r \<times> 'w \<Rightarrow> (fault + bool \<times> tree \<times> tree \<times> 'r \<times> 'w) option" where
  "minimize_tree_loop nxt regen ctx bits tester end_index i st =
     (if tree_size (fst st) \<le> i then Some (Inr (True, st))
      else case minimize_node nxt regen ctx bits tester i st of
             Inl e \<Rightarrow> Some (Inl e)
           | Inr st' \<Rightarrow>
               if Suc i = end_index then Some (Inr (False, st'))
               else minimize_tree_loop nxt regen ctx bits tester end_index (Suc i) st')"

declare minimize_tree_loop.simps [code]

definition minimize_tree ::
  "('r \<Rightarrow> u64 \<times> 'r) \<Rightarrow> ('h, 'r) regen \<Rightarrow> 'h gcontext \<Rightarrow> nat set \<Rightarrow> 'w chooser \<Rightarrow> nat \<Rightarrow> nat
    \<Rightarrow> tree \<Rightarrow> tree \<Rightarrow> 'r \<Rightarrow> 'w \<Rightarrow> (fault + bool \<times> tree \<times> tree \<times> 'r \<times> 'w) option" where
  "minimize_tree nxt regen ctx bits tester start_index end_index t scratchpad r w =
     minimize_tree_loop nxt regen ctx bits tester end_index start_index (t, scratchpad, r, w)"

text \<open>\<open>minimize_rec\<close> goes on behind the parent whose place the node has taken.\<close>

definition minimize_rec_node ::
  "'h gcontext \<Rightarrow> nat set \<Rightarrow> 'w chooser \<Rightarrow> nat \<Rightarrow> tree \<Rightarrow> 'w \<Rightarrow> (fault + tree \<times> nat \<times> 'w) option" where
  "minimize_rec_node ctx bits tester i t w =
     (case find_parent_with_nt t i ctx of
        None \<Rightarrow> None
      | Some (Inl e) \<Rightarrow> Some (Inl e)
      | Some (Inr None) \<Rightarrow> Some (Inr (t, i, w))
      | Some (Inr (Some parent)) \<Rightarrow>
          Some (rbind (test_and_convert t parent t i ctx bits tester w) (\<lambda>(res, w).
            Inr (case res of Some t' \<Rightarrow> (t', parent, w) | None \<Rightarrow> (t, i, w)))))"

partial_function (option) minimize_rec_loop ::
  "'h gcontext \<Rightarrow> nat set \<Rightarrow> 'w chooser \<Rightarrow> nat \<Rightarrow> nat \<Rightarrow> tree \<Rightarrow> 'w \<Rightarrow> (fault + bool \<times> tree \<times> 'w) option" where
  "minimize_rec_loop ctx bits tester end_index i t w =
     (if tree_size t \<le> i then Some (Inr (True, t, w))
      else case minimize_rec_node ctx bits tester i t w of
             None \<Rightarrow> None
           | Some (Inl e) \<Rightarrow> Some (Inl e)
           | Some (Inr (t', j, w')) \<Rightarrow>
               if Suc j = end_index then Some (Inr (False, t', w'))
               else minimize_rec_loop ctx bits tester end_index (Suc j) t' w')"

declare minimize_rec_loop.simps [code]

definition minimize_rec ::
  "'h gcontext \<Rightarrow> nat set \<Rightarrow> 'w chooser \<Rightarrow> nat \<Rightarrow> nat \<Rightarrow> tree \<Rightarrow> 'w \<Rightarrow> (fault + bool \<times> tree \<times> 'w) option" where
  "minimize_rec ctx bits tester start_index end_index t w =
     minimize_rec_loop ctx bits tester end_index start_index t w"

section \<open>Replacing by what the test accepts\<close>

definition chooser_total :: "'w chooser \<Rightarrow> bool" where
  "chooser_total tester \<longleftrightarrow> (\<forall>m bits w. \<exists>a w'. tester m bits w = Inr (a, w'))"

definition accepts_all :: "'w chooser \<Rightarrow> bool" where
  "accepts_all tester \<longleftrightarrow> (\<forall>m bits w. \<exists>w'. tester m bits w = Inr (True, w'))"

lemma freplace_size:
  "k < fsize ds \<Longrightarrow> fsize (freplace ds k u) + fsize [fget ds k] = fsize ds + fsize [u]"
  using fget_bound [of k ds] arg_cong [OF freplace_flat [of k ds u], of length]
  by (simp del: fsize_simps)

lemma test_and_convert_ok:
  assumes d: "derives (g_rules ctx) [nt] [d]" "n < fsize [d]"
    and e: "derives (g_rules ctx) [nt'] [e]" "k < fsize [e]"
    and same: "root_nt (g_rules ctx) (fget [e] k) = root_nt (g_rules ctx) (fget [d] n)"
    and total: "chooser_total tester"
  obtains w' where "test_and_convert (tree_of [d]) n (tree_of [e]) k ctx bits tester w = Inr (None, w')"
      "\<not> accepts_all tester"
    | w' u where "test_and_convert (tree_of [d]) n (tree_of [e]) k ctx bits tester w =
        Inr (Some (tree_of [u]), w')"
      "freplace [d] n (fget [e] k) = [u]" "derives (g_rules ctx) [nt] [u]"
      "fsize [u] + fsize [fget [d] n] = fsize [d] + fsize [fget [e] k]"
proof -
  have sub: "derives (g_rules ctx) [root_nt (g_rules ctx) (fget [d] n)] [fget [e] k]"
    using fget_derives [OF e(2,1)] same by simp
  let ?m = "\<lparr>m_prefix = take n (fflat [d]), m_repl = fflat [fget [e] k],
    m_postfix = drop (n + fsize [fget [d] n]) (fflat [d])\<rparr>"
  have m: "mutate_replace_from_tree (tree_of [d]) n (tree_of [e]) k = Inr ?m"
    by (rule mutate_replace_forest) fact+
  from replaced_rules [OF d sub] obtain u where
    u: "freplace [d] n (fget [e] k) = [u]" "derives (g_rules ctx) [nt] [u]"
      "mutation_to_tree ctx ?m = Inr (tree_of [u])" by (auto simp: mutation_to_tree_def)
  obtain a w' where a: "tester ?m bits w = Inr (a, w')"
    using total unfolding chooser_total_def by blast
  show thesis
  proof (cases a)
    case True
    have "test_and_convert (tree_of [d]) n (tree_of [e]) k ctx bits tester w = Inr (Some (tree_of [u]), w')"
      using m a u(3) True by (simp add: test_and_convert_def)
    moreover have "fsize [u] + fsize [fget [d] n] = fsize [d] + fsize [fget [e] k]"
      using freplace_size [OF d(2), of "fget [e] k"] by (simp only: u(1))
    ultimately show thesis using that(2) u by blast
  next
    case False
    with a have "\<not> accepts_all tester" unfolding accepts_all_def by (metis Inr_inject prod.inject)
    with m a False that(1) show thesis by (simp add: test_and_convert_def)
  qed
qed

section \<open>minimize_tree\<close>

lemma minimize_node_ok:
  assumes init: "initialized ctx" and short: "short_rules ctx" and reg: "regen_total regen"
    and total: "chooser_total tester"
    and d: "derives (g_rules ctx) [nt] [d]" "n < fsize [d]"
  obtains u scratch' r' w' where
    "minimize_node nxt regen ctx bits tester n (tree_of [d], scratch, r, w) =
       Inr (tree_of [u], scratch', r', w')"
    "derives (g_rules ctx) [nt] [u]" "fsize [u] \<le> fsize [d]"
    "accepts_all tester \<longrightarrow> n = 0 \<longrightarrow> fsize [u] \<le> the (g_nt_min ctx nt)"
proof -
  have meas: "measured ctx" using init by (simp add: initialized_def)
  let ?nt = "root_nt (g_rules ctx) (fget [d] n)" and ?s = "fsize [fget [d] n]"
  have "derives (g_rules ctx) [?nt] [fget [d] n]" by (rule fget_derives [OF d(2,1)])
  from measured_exact(1) [OF meas this] obtain m where m: "g_nt_min ctx ?nt = Some m" "m \<le> ?s" by blast
  have start: "minimize_node nxt regen ctx bits tester n (tree_of [d], scratch, r, w) =
    (if m < ?s
     then rbind (generate_from_nt nxt regen ctx scratch r ?nt m) (\<lambda>(scratchpad, r).
          rbind (test_and_convert (tree_of [d]) n scratchpad 0 ctx bits tester w) (\<lambda>(res, w).
          Inr (case res of Some t' \<Rightarrow> t' | None \<Rightarrow> tree_of [d], scratchpad, r, w)))
     else Inr (tree_of [d], scratch, r, w))"
    using get_nonterm_id_forest [OF d] subtree_size_forest [OF d(2)] m(1)
    by (simp add: minimize_node_def get_min_len_for_nt_def)
  have root: "fget [d] n = d" "?nt = nt" if "n = 0" using that derives_root [OF d(1)] by (simp_all add: fget_0)
  show thesis
  proof (cases "m < ?s")
    case False
    with m(1) root that [of d scratch r w] d(1) start show thesis by force
  next
    case True
    from generate_from_nt_ok [OF init reg short m(1) order_refl, of nxt scratch r] obtain t1 r1 where
      g: "generate_from_nt nxt regen ctx scratch r ?nt m = Inr (t1, r1)" "tree_ok ctx ?nt t1" "tree_size t1 = m"
      by auto
    obtain e where e: "derives (g_rules ctx) [?nt] [e]" "t1 = tree_of [e]" by (rule tree_okE [OF g(2)])
    have k: "0 < fsize [e]" by (rule fsize_single_pos)
    have e0: "fget [e] 0 = e" and size: "fsize [e] = m"
      using g(3) e(2) by (simp_all add: fget_0)
    have same: "root_nt (g_rules ctx) (fget [e] 0) = ?nt"
      using derives_root [OF e(1)] by (simp only: e0)
    show thesis
    proof (rule test_and_convert_ok [OF d e(1) k same total, of bits w])
      fix w' assume "test_and_convert (tree_of [d]) n (tree_of [e]) 0 ctx bits tester w = Inr (None, w')"
        "\<not> accepts_all tester"
      with that [of d t1 r1 w'] d(1) start True g(1) e(2) show thesis by simp
    next
      fix w' u assume u: "test_and_convert (tree_of [d]) n (tree_of [e]) 0 ctx bits tester w =
          Inr (Some (tree_of [u]), w')"
        "derives (g_rules ctx) [nt] [u]" "fsize [u] + ?s = fsize [d] + fsize [fget [e] 0]"
      have le: "fsize [u] \<le> fsize [d]" using u(3) True size by (simp only: e0)
      have min: "fsize [u] \<le> the (g_nt_min ctx nt)" if "n = 0"
        using u(3) size m(1) root [OF that] by (simp only: e0) simp
      show thesis
        by (rule that [of u t1 r1 w']) (use start True g(1) e(2) u le min in simp_all)
    qed
  qed
qed

lemma minimize_tree_loop_ok:
  assumes init: "initialized ctx" and short: "short_rules ctx" and reg: "regen_total regen"
    and total: "chooser_total tester"
  shows "derives (g_rules ctx) [nt] [d] \<Longrightarrow>
    \<exists>b u scratch' r' w'. minimize_tree_loop nxt regen ctx bits tester end_index i (tree_of [d], scratch, r, w) =
        Some (Inr (b, tree_of [u], scratch', r', w')) \<and>
      derives (g_rules ctx) [nt] [u] \<and> fsize [u] \<le> fsize [d] \<and>
      (accepts_all tester \<longrightarrow> i = 0 \<longrightarrow> fsize [u] \<le> the (g_nt_min ctx nt))"
proof (induction "fsize [d] - i" arbitrary: d i scratch r w rule: less_induct)
  case less
  note unfold = minimize_tree_loop.simps [of _ _ _ _ _ _ i]
  show ?case
  proof (cases "fsize [d] \<le> i")
    case True
    then have "i \<noteq> 0" using fsize_single_pos [of d] by linarith
    with True less.prems show ?thesis by (subst unfold) (auto simp del: fsize_simps)
  next
    case False
    then have i: "i < fsize [d]" by simp
    obtain u scratch1 r1 w1 where node:
      "minimize_node nxt regen ctx bits tester i (tree_of [d], scratch, r, w) = Inr (tree_of [u], scratch1, r1, w1)"
      "derives (g_rules ctx) [nt] [u]" "fsize [u] \<le> fsize [d]"
      "accepts_all tester \<longrightarrow> i = 0 \<longrightarrow> fsize [u] \<le> the (g_nt_min ctx nt)"
      by (rule minimize_node_ok [OF init short reg total less.prems i,
        where nxt = nxt and bits = bits and scratch = scratch and r = r and w = w])
    have "fsize [u] - Suc i < fsize [d] - i" using i node(3) by linarith
    from less.hyps [OF this node(2), of scratch1 r1 w1] obtain b v scratch' r' w' where
      rest: "minimize_tree_loop nxt regen ctx bits tester end_index (Suc i) (tree_of [u], scratch1, r1, w1) =
          Some (Inr (b, tree_of [v], scratch', r', w'))"
        "derives (g_rules ctx) [nt] [v]" "fsize [v] \<le> fsize [u]" by blast
    show ?thesis
    proof (cases "Suc i = end_index")
      case True
      with False node show ?thesis by (subst unfold) (auto simp del: fsize_simps)
    next
      case more: False
      have "minimize_tree_loop nxt regen ctx bits tester end_index i (tree_of [d], scratch, r, w) =
          Some (Inr (b, tree_of [v], scratch', r', w'))"
        using False node(1) rest(1) more by (subst unfold) (simp del: fsize_simps)
      moreover have "fsize [v] \<le> fsize [d]" using rest(3) node(3) by linarith
      moreover have "fsize [v] \<le> the (g_nt_min ctx nt)" if "accepts_all tester" "i = 0"
        using rest(3) node(4) that by simp
      ultimately show ?thesis using rest(2) by blast
    qed
  qed
qed

section \<open>Ancestors\<close>

text \<open>The edges of the vector of parents.\<close>

definition above :: "dtree \<Rightarrow> (nat \<times> nat) set" where
  "above d = {(fparents 0 0 [d] ! k, k) | k. 0 < k \<and> k < fsize [d]}"

lemma fparents_span:
  "k < fsize ds \<Longrightarrow> fparents i p ds ! k = p \<or>
     (i \<le> fparents i p ds ! k \<and> fparents i p ds ! k < i + k \<and>
      k < (fparents i p ds ! k - i) + fsize [fget ds (fparents i p ds ! k - i)])"
proof (induction arbitrary: i p rule: forest_induct)
  case (root rc ts es)
  then show ?case by simp
next
  case (below rc ts es j)
  let ?q = "fparents (Suc i) i ts ! j"
  have q: "fparents i p (Node rc ts # es) ! Suc j = ?q"
    using below by (simp add: nth_append)
  from below.IH [of "Suc i" i] consider "?q = i"
    | "Suc i \<le> ?q" "?q < Suc i + j" "j < (?q - Suc i) + fsize [fget ts (?q - Suc i)]" by blast
  then show ?case
  proof cases
    case 1
    then show ?thesis unfolding q using below(1) by simp
  next
    case 2
    have "fget (Node rc ts # es) (?q - i) = fget ts (?q - Suc i)"
    proof -
      have "?q - i \<noteq> 0" "?q - i \<le> fsize ts" "?q - i - 1 = ?q - Suc i" using 2 below(1) by linarith+
      then show ?thesis by (simp only: fget.simps if_False if_True)
    qed
    with 2 show ?thesis unfolding q by (simp del: fsize_simps) linarith
  qed
next
  case (beside rc ts es j)
  let ?q = "fparents (Suc (i + fsize ts)) p es ! j"
  have q: "fparents i p (Node rc ts # es) ! Suc (fsize ts + j) = ?q"
    using beside by (simp add: nth_append)
  from beside.IH [of "Suc (i + fsize ts)" p] consider "?q = p"
    | "Suc (i + fsize ts) \<le> ?q" "?q < Suc (i + fsize ts) + j"
      "j < (?q - (Suc (i + fsize ts))) + fsize [fget es (?q - (Suc (i + fsize ts)))]" by blast
  then show ?case
  proof cases
    case 1
    then show ?thesis unfolding q by simp
  next
    case 2
    have "fget (Node rc ts # es) (?q - i) = fget es (?q - (Suc (i + fsize ts)))"
    proof -
      have "?q - i \<noteq> 0" "\<not> ?q - i \<le> fsize ts" "?q - i - Suc (fsize ts) = ?q - (Suc (i + fsize ts))"
        using 2 by linarith+
      then show ?thesis by (simp only: fget.simps if_False)
    qed
    with 2 show ?thesis unfolding q by (simp del: fsize_simps) linarith
  qed
qed

lemma parent_span:
  assumes "0 < k" "k < fsize [d]"
  shows "fparents 0 0 [d] ! k < k" "k < fparents 0 0 [d] ! k + fsize [fget [d] (fparents 0 0 [d] ! k)]"
  using fparents_span [OF assms(2), of 0 0] assms by (auto simp: fget_0 simp del: fparents.simps)

lemma above_span:
  "(j, k) \<in> (above d)\<^sup>+ \<Longrightarrow> j < k \<and> k < fsize [d] \<and> k < j + fsize [fget [d] j]"
proof (induction rule: trancl_induct)
  case (base k)
  then show ?case using parent_span [of k d] by (auto simp: above_def simp del: fparents.simps fget.simps fsize_simps)
next
  case (step y z)
  have y: "j < y" "y < fsize [d]" "y < j + fsize [fget [d] j]" using step.IH by simp_all
  have z: "y < z" "z < fsize [d]" "z < y + fsize [fget [d] y]"
    using step.hyps(2) parent_span [of z d] by (auto simp: above_def simp del: fparents.simps fget.simps fsize_simps)
  have "fget [fget [d] j] (y - j) = fget [d] (j + (y - j))"
    by (rule fget_fget) (use y in linarith)+
  moreover have "y - j + fsize [fget [fget [d] j] (y - j)] \<le> fsize [fget [d] j]"
    by (rule fget_bound) (use y in linarith)
  ultimately have "y - j + fsize [fget [d] y] \<le> fsize [fget [d] j]" using y(1) by simp
  with y z show ?case by linarith
qed

lemma above_smaller:
  assumes "(j, k) \<in> (above d)\<^sup>+"
  shows "fsize [fget [d] k] < fsize [fget [d] j]"
proof -
  have k: "j < k" "k < fsize [d]" "k < j + fsize [fget [d] j]" using above_span [OF assms] by simp_all
  have "fget [fget [d] j] (k - j) = fget [d] (j + (k - j))"
    by (rule fget_fget) (use k in linarith)+
  moreover have "k - j + fsize [fget [fget [d] j] (k - j)] \<le> fsize [fget [d] j]"
    by (rule fget_bound) (use k in linarith)
  ultimately have "k - j + fsize [fget [d] k] \<le> fsize [fget [d] j]" using k(1) by simp
  with k(1) show ?thesis by linarith
qed

lemma above_parent:
  assumes "0 < k" "k < fsize [d]"
  shows "(j, k) \<in> (above d)\<^sup>+ \<longleftrightarrow> j = fparents 0 0 [d] ! k \<or> (j, fparents 0 0 [d] ! k) \<in> (above d)\<^sup>+"
proof -
  have "(i, k) \<in> above d \<longleftrightarrow> i = fparents 0 0 [d] ! k" for i
    using assms by (auto simp: above_def simp del: fparents.simps fsize_simps)
  then show ?thesis by (metis r_into_trancl' trancl.simps)
qed

text \<open>The climb finds the nearest ancestor, or that there is none.\<close>

lemma find_parent_loop_ok:
  assumes d: "derives (g_rules ctx) [nt] [d]"
  shows "k < fsize [d] \<Longrightarrow> \<exists>res. find_parent_loop (tree_of [d]) ctx x k = Some (Inr res) \<and>
    (case res of None \<Rightarrow> \<forall>j. (j, k) \<in> (above d)\<^sup>+ \<longrightarrow> root_nt (g_rules ctx) (fget [d] j) \<noteq> x
     | Some j \<Rightarrow> (j, k) \<in> (above d)\<^sup>+ \<and> root_nt (g_rules ctx) (fget [d] j) = x)"
proof (induction k rule: less_induct)
  case (less k)
  note unfold = find_parent_loop.simps [of _ _ _ k]
  show ?case
  proof (cases "k = 0")
    case True
    then have "(j, k) \<notin> (above d)\<^sup>+" for j using above_span by blast
    with True show ?thesis by (subst unfold) (simp add: get_parent_def)
  next
    case False
    let ?q = "fparents 0 0 [d] ! k"
    have k: "0 < k" using False by simp
    have q: "?q < k" "?q < fsize [d]" using parent_span [OF k less.prems] less.prems by simp_all
    have parent: "get_parent (tree_of [d]) k = Inr (Some ?q)"
      using False less.prems by (simp add: get_parent_def del: fparents.simps fsize_simps)
    note nt = get_nonterm_id_forest [OF d q(2)]
    from less.IH [OF q] obtain res where
      "find_parent_loop (tree_of [d]) ctx x ?q = Some (Inr res)"
      "case res of None \<Rightarrow> \<forall>j. (j, ?q) \<in> (above d)\<^sup>+ \<longrightarrow> root_nt (g_rules ctx) (fget [d] j) \<noteq> x
       | Some j \<Rightarrow> (j, ?q) \<in> (above d)\<^sup>+ \<and> root_nt (g_rules ctx) (fget [d] j) = x" by blast
    with parent nt above_parent [OF k less.prems] show ?thesis
      by (subst unfold) (auto simp del: fparents.simps fget.simps split: option.splits)
  qed
qed

section \<open>minimize_rec\<close>

text \<open>No node before \<open>i\<close> has an ancestor with its nonterminal.\<close>

definition unrepeated :: "'h rule list \<Rightarrow> dtree \<Rightarrow> nat \<Rightarrow> bool" where
  "unrepeated rules d i \<longleftrightarrow>
     (\<forall>j k. (j, k) \<in> (above d)\<^sup>+ \<longrightarrow> k < i \<longrightarrow> root_nt rules (fget [d] j) \<noteq> root_nt rules (fget [d] k))"

lemma freplace_longer: "n < fsize ds \<Longrightarrow> n < fsize (freplace ds n u)"
  using freplace_size [of n ds u] fget_bound [of n ds] by (cases u) simp

lemma fparents_replace:
  "n < fsize ds \<Longrightarrow> k \<le> n \<Longrightarrow> fparents i p (freplace ds n u) ! k = fparents i p ds ! k"
proof (induction arbitrary: i p k rule: forest_induct)
  case (root rc ts es)
  then show ?case by (cases u) simp
next
  case (below rc ts es j)
  then show ?case using freplace_longer [OF below(1), of u] by (cases k) (simp_all add: nth_append)
next
  case (beside rc ts es j)
  then show ?case by (cases k) (auto simp: nth_append)
qed

lemma root_nt_entry: "root_nt rules d = nonterm (rules ! rc_id (root_entry d))"
  by (cases d) simp

lemma freplace_before:
  assumes "freplace [d] n u = [e]" "n < fsize [d]"
  shows "k < n \<Longrightarrow> root_nt rules (fget [e] k) = root_nt rules (fget [d] k)"
    and "root_nt rules (fget [e] n) = root_nt rules u"
    and "(j, k) \<in> (above e)\<^sup>+ \<Longrightarrow> k \<le> n \<Longrightarrow> (j, k) \<in> (above d)\<^sup>+"
proof -
  have flat: "fflat [e] = take n (fflat [d]) @ fflat [u] @ drop (n + fsize [fget [d] n]) (fflat [d])"
    using freplace_flat [OF assms(2), of u] by (simp only: assms(1))
  have n: "n < fsize [e]" using freplace_longer [OF assms(2), of u] by (simp only: assms(1))
  show "root_nt rules (fget [e] k) = root_nt rules (fget [d] k)" if "k < n" for k
  proof -
    have "fflat [e] ! k = fflat [d] ! k"
      using that assms(2) by (simp add: flat nth_append del: fflat.simps fsize_simps)
    then show ?thesis
      using fget_entry [of k "[e]"] fget_entry [of k "[d]"] that n assms(2) by (simp add: root_nt_entry)
  qed
  have "fflat [e] ! n = root_entry u"
    using assms(2) by (cases u) (simp add: flat nth_append del: fsize_simps)
  then show "root_nt rules (fget [e] n) = root_nt rules u"
    using fget_entry [OF n] by (simp add: root_nt_entry)
  have edge: "(j, k) \<in> above d" if "(j, k) \<in> above e" "k \<le> n" for j k
    using that assms(2) fparents_replace [OF assms(2) that(2), of 0 0 u]
    by (auto simp: above_def assms(1) simp del: fparents.simps fsize_simps)
  show "(j, k) \<in> (above e)\<^sup>+ \<Longrightarrow> k \<le> n \<Longrightarrow> (j, k) \<in> (above d)\<^sup>+" for j k
  proof (induction rule: trancl_induct)
    case (base y)
    then show ?case using edge by blast
  next
    case (step y z)
    have "y < z" using above_span [of y z e] step.hyps(2) by blast
    with step.prems have "y \<le> n" by linarith
    with step edge show ?case by (meson trancl_into_trancl)
  qed
qed

lemma minimize_rec_node_ok:
  assumes d: "derives (g_rules ctx) [nt] [d]" "i < fsize [d]" and total: "chooser_total tester"
  obtains (stay) w' where "minimize_rec_node ctx bits tester i (tree_of [d]) w = Some (Inr (tree_of [d], i, w'))"
      "accepts_all tester \<longrightarrow>
        (\<forall>j. (j, i) \<in> (above d)\<^sup>+ \<longrightarrow> root_nt (g_rules ctx) (fget [d] j) \<noteq> root_nt (g_rules ctx) (fget [d] i))"
    | (up) p u w' where "minimize_rec_node ctx bits tester i (tree_of [d]) w = Some (Inr (tree_of [u], p, w'))"
      "p < i" "freplace [d] p (fget [d] i) = [u]" "derives (g_rules ctx) [nt] [u]" "fsize [u] < fsize [d]"
      "root_nt (g_rules ctx) (fget [d] i) = root_nt (g_rules ctx) (fget [d] p)"
proof -
  let ?x = "root_nt (g_rules ctx) (fget [d] i)"
  note nt = get_nonterm_id_forest [OF d]
  from find_parent_loop_ok [OF d, of ?x] obtain res where
    loop: "find_parent_loop (tree_of [d]) ctx ?x i = Some (Inr res)"
    and res: "case res of None \<Rightarrow> \<forall>j. (j, i) \<in> (above d)\<^sup>+ \<longrightarrow> root_nt (g_rules ctx) (fget [d] j) \<noteq> ?x
      | Some j \<Rightarrow> (j, i) \<in> (above d)\<^sup>+ \<and> root_nt (g_rules ctx) (fget [d] j) = ?x" by blast
  have found: "find_parent_with_nt (tree_of [d]) i ctx = Some (Inr res)"
    using loop nt by (simp add: find_parent_with_nt_def)
  show thesis
  proof (cases res)
    case None
    show thesis by (rule stay [of w]) (use None found res in \<open>simp_all add: minimize_rec_node_def\<close>)
  next
    case (Some p)
    then have p: "(p, i) \<in> (above d)\<^sup>+" "root_nt (g_rules ctx) (fget [d] p) = ?x" using res by simp_all
    have lt: "p < i" "p < fsize [d]" using above_span [OF p(1)] by simp_all
    show thesis
    proof (rule test_and_convert_ok [OF d(1) lt(2) d p(2) [symmetric] total, of bits w])
      fix w'
      assume "test_and_convert (tree_of [d]) p (tree_of [d]) i ctx bits tester w = Inr (None, w')"
        "\<not> accepts_all tester"
      with found Some show thesis by (intro stay [of w']) (simp_all add: minimize_rec_node_def)
    next
      fix w' u
      assume u: "test_and_convert (tree_of [d]) p (tree_of [d]) i ctx bits tester w =
          Inr (Some (tree_of [u]), w')"
        "freplace [d] p (fget [d] i) = [u]" "derives (g_rules ctx) [nt] [u]"
        "fsize [u] + fsize [fget [d] p] = fsize [d] + fsize [fget [d] i]"
      have "fsize [u] < fsize [d]" using u(4) above_smaller [OF p(1)] by linarith
      with u(1-3) found Some p(2) lt(1) show thesis
        by (intro up [of u p w']) (simp_all add: minimize_rec_node_def)
    qed
  qed
qed

lemma unrepeated_step:
  assumes "unrepeated rules d i"
    and "\<forall>j. (j, i) \<in> (above d)\<^sup>+ \<longrightarrow> root_nt rules (fget [d] j) \<noteq> root_nt rules (fget [d] i)"
  shows "unrepeated rules d (Suc i)"
  using assms by (auto simp: unrepeated_def less_Suc_eq)

lemma unrepeated_up:
  assumes u: "freplace [d] p v = [u]" "p < fsize [d]" "root_nt rules v = root_nt rules (fget [d] p)"
    and "p < i" "unrepeated rules d i"
  shows "unrepeated rules u (Suc p)"
  unfolding unrepeated_def
proof (intro allI impI)
  fix j k
  assume jk: "(j, k) \<in> (above u)\<^sup>+" "k < Suc p"
  have same: "root_nt rules (fget [u] m) = root_nt rules (fget [d] m)" if "m \<le> p" for m
    using freplace_before(1) [OF u(1,2), of m rules] freplace_before(2) [OF u(1,2), of rules] u(3) that
    by (cases "m = p") simp_all
  have "(j, k) \<in> (above d)\<^sup>+" "j < k"
    using freplace_before(3) [OF u(1,2) jk(1)] above_span [OF jk(1)] jk(2) by simp_all
  with assms(4,5) jk(2) same [of j] same [of k]
  show "root_nt rules (fget [u] j) \<noteq> root_nt rules (fget [u] k)"
    by (simp add: unrepeated_def)
qed

lemma minimize_rec_loop_ok:
  assumes total: "chooser_total tester"
  shows "derives (g_rules ctx) [nt] [d] \<Longrightarrow>
    \<exists>b u w'. minimize_rec_loop ctx bits tester end_index i (tree_of [d]) w = Some (Inr (b, tree_of [u], w')) \<and>
      derives (g_rules ctx) [nt] [u] \<and> fsize [u] \<le> fsize [d] \<and> (end_index = 0 \<longrightarrow> b) \<and>
      (accepts_all tester \<longrightarrow> unrepeated (g_rules ctx) d i \<longrightarrow> b \<longrightarrow> unrepeated (g_rules ctx) u (fsize [u]))"
proof (induction "(fsize [d], fsize [d] - i)" arbitrary: d i w
    rule: wf_induct_rule [OF wf_lex_prod [OF wf_less_than wf_less_than], case_names less])
  case less
  note unfold = minimize_rec_loop.simps [of _ _ _ _ i]
  show ?case
  proof (cases "fsize [d] \<le> i")
    case True
    moreover have "unrepeated (g_rules ctx) d (fsize [d])" if "unrepeated (g_rules ctx) d i"
      using that above_span True unfolding unrepeated_def by (meson less_le_trans)
    ultimately show ?thesis using less.prems by (subst unfold) (auto simp del: fsize_simps)
  next
    case False
    then have i: "i < fsize [d]" by simp
    obtain d1 j w1 where
      node: "minimize_rec_node ctx bits tester i (tree_of [d]) w = Some (Inr (tree_of [d1], j, w1))"
      and d1: "derives (g_rules ctx) [nt] [d1]"
      and smaller: "fsize [d1] < fsize [d] \<or> d1 = d \<and> j = i"
      and clean: "accepts_all tester \<longrightarrow> unrepeated (g_rules ctx) d i \<longrightarrow> unrepeated (g_rules ctx) d1 (Suc j)"
    proof (rule minimize_rec_node_ok [OF less.prems i total, of bits w])
      fix w'
      assume "minimize_rec_node ctx bits tester i (tree_of [d]) w = Some (Inr (tree_of [d], i, w'))"
        "accepts_all tester \<longrightarrow>
          (\<forall>j. (j, i) \<in> (above d)\<^sup>+ \<longrightarrow> root_nt (g_rules ctx) (fget [d] j) \<noteq> root_nt (g_rules ctx) (fget [d] i))"
      then show thesis using that [of d i w'] less.prems unrepeated_step by blast
    next
      fix p u w'
      assume "minimize_rec_node ctx bits tester i (tree_of [d]) w = Some (Inr (tree_of [u], p, w'))"
        and "p < i" "freplace [d] p (fget [d] i) = [u]" "derives (g_rules ctx) [nt] [u]" "fsize [u] < fsize [d]"
        "root_nt (g_rules ctx) (fget [d] i) = root_nt (g_rules ctx) (fget [d] p)"
      moreover from this i have "unrepeated (g_rules ctx) d i \<longrightarrow> unrepeated (g_rules ctx) u (Suc p)"
        by (intro impI unrepeated_up [of d p "fget [d] i"]) simp_all
      ultimately show thesis using that [of u p w'] by blast
    qed
    have "((fsize [d1], fsize [d1] - Suc j), (fsize [d], fsize [d] - i)) \<in> less_than <*lex*> less_than"
      using smaller i by auto
    from less.hyps [OF this d1, of w1] obtain b u w' where
      rest: "minimize_rec_loop ctx bits tester end_index (Suc j) (tree_of [d1]) w1 = Some (Inr (b, tree_of [u], w'))"
        "derives (g_rules ctx) [nt] [u]" "fsize [u] \<le> fsize [d1]" "end_index = 0 \<longrightarrow> b"
        "accepts_all tester \<longrightarrow> unrepeated (g_rules ctx) d1 (Suc j) \<longrightarrow> b \<longrightarrow> unrepeated (g_rules ctx) u (fsize [u])"
      by blast
    have le: "fsize [d1] \<le> fsize [d]" using smaller by auto
    have step: "minimize_rec_loop ctx bits tester end_index i (tree_of [d]) w =
      (if Suc j = end_index then Some (Inr (False, tree_of [d1], w1))
       else minimize_rec_loop ctx bits tester end_index (Suc j) (tree_of [d1]) w1)"
      using False node by (subst unfold) (simp del: fsize_simps)
    show ?thesis
    proof (cases "Suc j = end_index")
      case True
      then show ?thesis using step d1 le by auto
    next
      case False
      have "minimize_rec_loop ctx bits tester end_index i (tree_of [d]) w = Some (Inr (b, tree_of [u], w'))"
        using step rest(1) False by simp
      moreover have "fsize [u] \<le> fsize [d]" using rest(3) le by linarith
      ultimately show ?thesis using rest(2,4,5) clean by blast
    qed
  qed
qed

section \<open>Properties\<close>

text \<open>
  C18. Both minimisations end, whatever the test answers and wherever they start and stop, and the tree
  they leave is a derivation of the same nonterminal and no larger than the one they were given.
\<close>

theorem minimized_trees_shrink:
  assumes "initialized ctx" and "short_rules ctx" and "regen_total regen" and "chooser_total tester"
    and "tree_ok ctx nt t"
  shows "(\<exists>b t' scratch' r' w'.
      minimize_tree nxt regen ctx bits tester start_index end_index t scratch r w =
        Some (Inr (b, t', scratch', r', w')) \<and> tree_ok ctx nt t' \<and> tree_size t' \<le> tree_size t) \<and>
    (\<exists>b t' w'. minimize_rec ctx bits tester start_index end_index t w = Some (Inr (b, t', w')) \<and>
       tree_ok ctx nt t' \<and> tree_size t' \<le> tree_size t)"
proof -
  obtain d where d: "derives (g_rules ctx) [nt] [d]" "t = tree_of [d]" by (rule tree_okE [OF assms(5)])
  from minimize_tree_loop_ok [OF assms(1-4) d(1), of nxt bits end_index start_index scratch r w]
  obtain b u scratch' r' w' where u:
    "minimize_tree nxt regen ctx bits tester start_index end_index t scratch r w =
       Some (Inr (b, tree_of [u], scratch', r', w'))"
    "tree_ok ctx nt (tree_of [u])" "tree_size (tree_of [u]) \<le> tree_size t"
    unfolding minimize_tree_def d(2) tree_ok_def tree_of_simps(4) by blast
  from minimize_rec_loop_ok [OF assms(4) d(1), of bits end_index start_index w]
  obtain b2 v w2 where v:
    "minimize_rec ctx bits tester start_index end_index t w = Some (Inr (b2, tree_of [v], w2))"
    "tree_ok ctx nt (tree_of [v])" "tree_size (tree_of [v]) \<le> tree_size t"
    unfolding minimize_rec_def d(2) tree_ok_def tree_of_simps(4) by blast
  from u v show ?thesis by blast
qed

text \<open>
  C19. When the test accepts everything they reach what they aim at: from the root on, \<open>minimize_tree\<close>
  leaves a tree of the smallest size the nonterminal has, and \<open>minimize_rec\<close> without a limit goes
  through to the end of the tree and leaves no node below another one with the same nonterminal.
\<close>

theorem minimization_reaches_its_aim:
  assumes "initialized ctx" and "short_rules ctx" and "regen_total regen"
    and "accepts_all tester" and "tree_ok ctx nt t"
  shows "(\<exists>b t' scratch' r' w'. minimize_tree nxt regen ctx bits tester 0 end_index t scratch r w =
        Some (Inr (b, t', scratch', r', w')) \<and> tree_ok ctx nt t' \<and>
        g_nt_min ctx nt = Some (tree_size t')) \<and>
    (\<exists>d w'. minimize_rec ctx bits tester 0 0 t w = Some (Inr (True, tree_of [d], w')) \<and>
       derives (g_rules ctx) [nt] [d] \<and>
       (\<forall>j k. (j, k) \<in> (above d)\<^sup>+ \<longrightarrow>
          root_nt (g_rules ctx) (fget [d] j) \<noteq> root_nt (g_rules ctx) (fget [d] k)))"
proof -
  have total: "chooser_total tester" using assms(4) unfolding accepts_all_def chooser_total_def by blast
  have meas: "measured ctx" using assms(1) by (simp add: initialized_def)
  obtain d where d: "derives (g_rules ctx) [nt] [d]" "t = tree_of [d]" by (rule tree_okE [OF assms(5)])
  from minimize_tree_loop_ok [OF assms(1-3) total d(1), of nxt bits end_index 0 scratch r w] assms(4)
  obtain b u scratch' r' w' where
    u: "minimize_tree nxt regen ctx bits tester 0 end_index t scratch r w =
        Some (Inr (b, tree_of [u], scratch', r', w'))"
      "derives (g_rules ctx) [nt] [u]" "fsize [u] \<le> the (g_nt_min ctx nt)"
    unfolding minimize_tree_def d(2) by blast
  from measured_exact(1) [OF meas u(2)] u(3) have "g_nt_min ctx nt = Some (tree_size (tree_of [u]))"
    by auto
  moreover have start: "unrepeated (g_rules ctx) d 0" by (simp add: unrepeated_def)
  from minimize_rec_loop_ok [OF total d(1), of bits 0 0 w] assms(4) start obtain v w2 where
    v: "minimize_rec ctx bits tester 0 0 t w = Some (Inr (True, tree_of [v], w2))"
      "derives (g_rules ctx) [nt] [v]" "unrepeated (g_rules ctx) v (fsize [v])"
    unfolding minimize_rec_def d(2) by (metis (full_types))
  moreover have "\<forall>j k. (j, k) \<in> (above v)\<^sup>+ \<longrightarrow>
      root_nt (g_rules ctx) (fget [v] j) \<noteq> root_nt (g_rules ctx) (fget [v] k)"
    using v(3) above_span unfolding unrepeated_def by blast
  moreover have "tree_ok ctx nt (tree_of [u])" using u(2) unfolding tree_ok_def by blast
  ultimately show ?thesis using u(1) by blast
qed

text \<open>The example grammar, with the tree of \<^verbatim>\<open>aab\<close>.\<close>

lemma aab_ok:
  assumes "g_rules ctx = g_rules ab_context"
  shows "tree_ok ctx 0 (tree_of [Node (Rule 0) [Node (Rule 0) [Node (Rule 1) []]]])"
proof -
  have "derives (g_rules ctx) [0] [Node (Rule 0) [Node (Rule 0) [Node (Rule 1) []]]]"
    by (simp add: assms ab_context_fields entry_fits_def)
  then show ?thesis unfolding tree_ok_def by blast
qed

theorem minimized_trees_shrink_witness:
  "\<exists>ctx b t w. initialize 3 ab_context = Some (Inr ctx) \<and>
    minimize_rec ctx {} (\<lambda>m _ n. Inr (even n, n + 1 :: nat)) 0 2
      (tree_of [Node (Rule 0) [Node (Rule 0) [Node (Rule 1) []]]]) 0 = Some (Inr (b, t, w)) \<and>
    tree_ok ctx 0 t \<and> tree_size t \<le> 3"
proof -
  obtain ctx where ctx: "initialize 3 ab_context = Some (Inr ctx)" "initialized ctx"
    "g_rules ctx = g_rules ab_context"
    by (rule ab_initialized)
  have "short_rules ctx" by (simp add: short_rules_def ctx(3) ab_context_fields)
  moreover have "regen_total (\<lambda>(_ :: unit) (r :: u64). Inr ([], r))" by (simp add: regen_total_def)
  moreover have "chooser_total (\<lambda>m _ n. Inr (even n, n + 1 :: nat))" by (simp add: chooser_total_def)
  ultimately show ?thesis
    using minimized_trees_shrink [OF ctx(2) _ _ _ aab_ok [OF ctx(3)], where nxt = xorshift64_next
      and bits = "{}" and start_index = 0 and end_index = 2 and scratch = empty_tree and r = 1 and w = 0] ctx(1)
    by fastforce
qed

theorem minimization_reaches_its_aim_witness:
  "\<exists>ctx b t scratch r w. initialize 3 ab_context = Some (Inr ctx) \<and>
    minimize_tree xorshift64_next (\<lambda>_ r. Inr ([], r)) ctx {} (\<lambda>m _ n. Inr (True, n + 1 :: nat)) 0 0
      (tree_of [Node (Rule 0) [Node (Rule 0) [Node (Rule 1) []]]]) empty_tree 12345 0 =
      Some (Inr (b, t, scratch, r, w)) \<and>
    tree_ok ctx 0 t \<and> tree_size t = 1"
proof -
  obtain ctx where ctx: "initialize 3 ab_context = Some (Inr ctx)" "initialized ctx"
    "g_rules ctx = g_rules ab_context" "g_nt_min ctx 0 = Some 1"
    by (rule ab_initialized)
  have "short_rules ctx" by (simp add: short_rules_def ctx(3) ab_context_fields)
  moreover have "regen_total (\<lambda>(_ :: unit) (r :: u64). Inr ([], r))" by (simp add: regen_total_def)
  moreover have "accepts_all (\<lambda>m _ n. Inr (True, n + 1 :: nat))" by (simp add: accepts_all_def)
  ultimately show ?thesis
    using minimization_reaches_its_aim [OF ctx(2) _ _ _ aab_ok [OF ctx(3)], where nxt = xorshift64_next
      and bits = "{}" and end_index = 0 and scratch = empty_tree and r = 12345 and w = 0] ctx(1,4)
    by fastforce
qed

end
