(* ===== verification/RegexStrings.thy ===== *)
theory RegexStrings
  imports Generation
begin

text \<open>
  The generator of strings for a regular expression
  (\<^verbatim>\<open>common/nautilus/regex_mutator/mod.rs\<close>). The expressions are those of a third-party
  library; \<open>kind\<close> is what its method of that name answers. The main lemma: for expressions whose
  classes and bounds the generator handles, it ends and its string matches; others show where it
  panics and where it leaves the language.
\<close>

section \<open>Expressions\<close>

text \<open>
  What the generator reads of an expression: the answers of \<open>kind\<close>, with characters as their code
  points. A class is the list of its ranges.
\<close>

datatype 'h hir_kind =
    HEmpty
  | HLiteral bytes
  | HUnicode "(nat \<times> nat) list"
  | HBytes "(u8 \<times> u8) list"
  | HLook
  | HRepetition nat "nat option" 'h
  | HCapture 'h
  | HConcat "'h list"
  | HAlternation "'h list"

section \<open>RegexScript\<close>

definition regex_script_new :: "('r \<Rightarrow> u64 \<times> 'r) \<Rightarrow> 'r \<Rightarrow> nat \<times> 'r" where
  "regex_script_new nxt r =
     (let (a, r) = nxt r
      in if unat a mod 256 = 0 then (let (b, r) = nxt r in (unat b mod 65535, r))
         else (let (b, r) = nxt r; len = 2 ^ (unat b mod 8 :: nat); (c, r) = nxt r
               in (unat c mod len, r)))"

definition get_mod :: "('r \<Rightarrow> u64 \<times> 'r) \<Rightarrow> nat \<Rightarrow> 'r \<Rightarrow> nat \<Rightarrow> nat \<times> 'r" where
  "get_mod nxt remaining r val =
     (if remaining = 0 \<or> val = 0 then (0, r) else below nxt r val)"

definition get_range :: "('r \<Rightarrow> u64 \<times> 'r) \<Rightarrow> nat \<Rightarrow> 'r \<Rightarrow> nat \<Rightarrow> nat \<Rightarrow> fault + nat \<times> 'r" where
  "get_range nxt remaining r lo hi =
     rbind (usub hi lo) (\<lambda>val. let (x, r) = get_mod nxt remaining r val in Inr (x + lo, r))"

section \<open>Characters and classes\<close>

text \<open>\<open>char::encode_utf8\<close>, into a buffer of four zero bytes, and \<open>char::from_u32\<close>.\<close>

definition encode_utf8 :: "nat \<Rightarrow> bytes" where
  "encode_utf8 c =
     (if c < 128 then [of_nat c]
      else if c < 2048 then [of_nat (192 + c div 64), of_nat (128 + c mod 64)]
      else if c < 65536 then [of_nat (224 + c div 4096), of_nat (128 + c div 64 mod 64), of_nat (128 + c mod 64)]
      else [of_nat (240 + c div 262144), of_nat (128 + c div 4096 mod 64), of_nat (128 + c div 64 mod 64),
            of_nat (128 + c mod 64)])"

definition from_le_bytes :: "bytes \<Rightarrow> nat" where
  "from_le_bytes bs = foldr (\<lambda>b n. unat b + 256 * n) bs 0"

definition is_char :: "nat \<Rightarrow> bool" where
  "is_char c \<longleftrightarrow> c < 1114112 \<and> \<not> (55296 \<le> c \<and> c < 57344)"

text \<open>
  \<open>append_unicode_range\<close>: the bytes of the two ends are read as little-endian numbers, and the
  number that is drawn between them as a character.
\<close>

definition append_unicode_range ::
  "('r \<Rightarrow> u64 \<times> 'r) \<Rightarrow> nat \<Rightarrow> nat \<times> nat \<Rightarrow> bytes \<Rightarrow> 'r \<Rightarrow> fault + bytes \<times> 'r" where
  "append_unicode_range nxt remaining cls res r =
     (let a = from_le_bytes (encode_utf8 (fst cls)); b = from_le_bytes (encode_utf8 (snd cls))
      in rbind (get_range nxt remaining r a (b + 1)) (\<lambda>(c, r).
         rbind (assert_that (is_char c)) (\<lambda>_. Inr (res @ encode_utf8 c, r))))"

text \<open>The upper end plus one is computed on a byte, which overflows at 255.\<close>

definition append_byte_range ::
  "('r \<Rightarrow> u64 \<times> 'r) \<Rightarrow> nat \<Rightarrow> u8 \<times> u8 \<Rightarrow> bytes \<Rightarrow> 'r \<Rightarrow> fault + bytes \<times> 'r" where
  "append_byte_range nxt remaining cls res r =
     rbind (assert_that (snd cls \<noteq> 255)) (\<lambda>_.
     rbind (get_range nxt remaining r (unat (fst cls)) (unat (snd cls + 1))) (\<lambda>(c, r).
     Inr (res @ [of_nat c], r)))"

definition pick :: "('r \<Rightarrow> u64 \<times> 'r) \<Rightarrow> nat \<Rightarrow> 'a list \<Rightarrow> 'r \<Rightarrow> fault + 'a \<times> 'r" where
  "pick nxt remaining xs r =
     (let (i, r) = get_mod nxt remaining r (length xs)
      in rbind (nth_or_panic xs i) (\<lambda>x. Inr (x, r)))"

section \<open>Repetitions\<close>

definition get_length :: "('r \<Rightarrow> u64 \<times> 'r) \<Rightarrow> nat \<Rightarrow> 'r \<Rightarrow> nat \<times> 'r" where
  "get_length nxt remaining r =
     (let (bits, r) = get_mod nxt remaining r 8 in get_mod nxt remaining r (2 * 2 ^ bits))"

definition get_repetition_range ::
  "('r \<Rightarrow> u64 \<times> 'r) \<Rightarrow> nat \<Rightarrow> nat \<Rightarrow> nat option \<Rightarrow> 'r \<Rightarrow> fault + nat \<times> 'r" where
  "get_repetition_range nxt remaining lo hi r =
     (case hi of
        None \<Rightarrow> (let (n, r) = get_length nxt remaining r in Inr (n + lo, r))
      | Some b \<Rightarrow> if lo = b then Inr (lo, r) else get_range nxt remaining r lo b)"

definition get_repetitions ::
  "('r \<Rightarrow> u64 \<times> 'r) \<Rightarrow> nat \<Rightarrow> nat \<Rightarrow> nat option \<Rightarrow> 'r \<Rightarrow> fault + nat \<times> 'r" where
  "get_repetitions nxt remaining lo hi r =
     (if lo = 0 then
        (if hi = Some 1 then Inr (get_mod nxt remaining r 2) else Inr (get_length nxt remaining r))
      else if lo = 1 then (let (n, r) = get_length nxt remaining r in Inr (1 + n, r))
      else get_repetition_range nxt remaining lo hi r)"

section \<open>generate\<close>

text \<open>One round of the loop: what is pushed, from the top of the stack, and the string so far.\<close>

definition regex_step ::
  "('h \<Rightarrow> 'h hir_kind) \<Rightarrow> ('r \<Rightarrow> u64 \<times> 'r) \<Rightarrow> nat \<Rightarrow> 'h \<Rightarrow> bytes \<Rightarrow> 'r \<Rightarrow> fault + 'h list \<times> bytes \<times> 'r" where
  "regex_step kind nxt remaining h res r =
     (case kind h of
        HEmpty \<Rightarrow> Inr ([], res, r)
      | HLiteral lit \<Rightarrow> Inr ([], res @ lit, r)
      | HUnicode rngs \<Rightarrow>
          rbind (pick nxt remaining rngs r) (\<lambda>(rng, r).
          rbind (append_unicode_range nxt remaining rng res r) (\<lambda>(res, r). Inr ([], res, r)))
      | HBytes rngs \<Rightarrow>
          rbind (pick nxt remaining rngs r) (\<lambda>(rng, r).
          rbind (append_byte_range nxt remaining rng res r) (\<lambda>(res, r). Inr ([], res, r)))
      | HLook \<Rightarrow> Inr ([], res, r)
      | HRepetition lo hi sub \<Rightarrow>
          rbind (get_repetitions nxt remaining lo hi r) (\<lambda>(num, r). Inr (replicate num sub, res, r))
      | HCapture sub \<Rightarrow> Inr ([sub], res, r)
      | HConcat hirs \<Rightarrow> Inr (hirs, res, r)
      | HAlternation hirs \<Rightarrow> rbind (pick nxt remaining hirs r) (\<lambda>(h, r). Inr ([h], res, r)))"

partial_function (option) regex_loop ::
  "('h \<Rightarrow> 'h hir_kind) \<Rightarrow> ('r \<Rightarrow> u64 \<times> 'r) \<Rightarrow> nat \<Rightarrow> 'h list \<Rightarrow> bytes \<Rightarrow> 'r \<Rightarrow> (fault + bytes \<times> 'r) option" where
  "regex_loop kind nxt remaining stack res r =
     (case stack of
        [] \<Rightarrow> Some (Inr (res, r))
      | h # stack \<Rightarrow>
          (case regex_step kind nxt remaining h res r of
             Inl e \<Rightarrow> Some (Inl e)
           | Inr (pushed, res, r) \<Rightarrow> regex_loop kind nxt remaining (pushed @ stack) res r))"

declare regex_loop.simps [code]

definition regex_generate ::
  "('h \<Rightarrow> 'h hir_kind) \<Rightarrow> ('r \<Rightarrow> u64 \<times> 'r) \<Rightarrow> 'h \<Rightarrow> 'r \<Rightarrow> (fault + bytes \<times> 'r) option" where
  "regex_generate kind nxt hir r =
     (let (remaining, r) = regex_script_new nxt r in regex_loop kind nxt remaining [hir] [] r)"

section \<open>What an expression matches\<close>

definition subexprs :: "'h hir_kind \<Rightarrow> 'h list" where
  "subexprs k = (case k of HRepetition _ _ h \<Rightarrow> [h] | HCapture h \<Rightarrow> [h] | HConcat hs \<Rightarrow> hs
     | HAlternation hs \<Rightarrow> hs | _ \<Rightarrow> [])"

text \<open>
  The language of an expression, as the library documents it. The assertions of position match the
  empty string, where they hold.
\<close>

inductive matches :: "('h \<Rightarrow> 'h hir_kind) \<Rightarrow> 'h \<Rightarrow> bytes \<Rightarrow> bool" for kind where
  "kind h = HEmpty \<Longrightarrow> matches kind h []"
| "kind h = HLook \<Longrightarrow> matches kind h []"
| "kind h = HLiteral lit \<Longrightarrow> matches kind h lit"
| "kind h = HUnicode rngs \<Longrightarrow> (a, b) \<in> set rngs \<Longrightarrow> a \<le> c \<Longrightarrow> c \<le> b \<Longrightarrow> matches kind h (encode_utf8 c)"
| "kind h = HBytes rngs \<Longrightarrow> (a, b) \<in> set rngs \<Longrightarrow> a \<le> c \<Longrightarrow> c \<le> b \<Longrightarrow> matches kind h [c]"
| "kind h = HRepetition lo hi s \<Longrightarrow> \<forall>w \<in> set ws. matches kind s w \<Longrightarrow> lo \<le> length ws \<Longrightarrow>
     (case hi of None \<Rightarrow> True | Some b \<Rightarrow> length ws \<le> b) \<Longrightarrow> matches kind h (concat ws)"
| "kind h = HCapture s \<Longrightarrow> matches kind s w \<Longrightarrow> matches kind h w"
| "kind h = HConcat hs \<Longrightarrow> list_all2 (matches kind) hs ws \<Longrightarrow> matches kind h (concat ws)"
| "kind h = HAlternation hs \<Longrightarrow> s \<in> set hs \<Longrightarrow> matches kind s w \<Longrightarrow> matches kind h w"

text \<open>
  The expressions the generator handles: classes of bytes below 255 and of ASCII characters, no
  upper bound for a repetition that may be left out or done once, other than the optional one. As
  an inductive predicate it also says that the expression is finite.
\<close>

definition node_handled :: "'h hir_kind \<Rightarrow> bool" where
  "node_handled k \<longleftrightarrow> (case k of
     HUnicode rngs \<Rightarrow> rngs \<noteq> [] \<and> (\<forall>(a, b) \<in> set rngs. a \<le> b \<and> b < 128)
   | HBytes rngs \<Rightarrow> rngs \<noteq> [] \<and> (\<forall>(a, b) \<in> set rngs. a \<le> b \<and> b \<noteq> 255)
   | HRepetition lo hi _ \<Rightarrow> (case hi of None \<Rightarrow> True | Some b \<Rightarrow> lo \<le> b \<and> (2 \<le> lo \<or> lo = 0 \<and> b = 1))
   | HAlternation hs \<Rightarrow> hs \<noteq> []
   | _ \<Rightarrow> True)"

inductive handled :: "('h \<Rightarrow> 'h hir_kind) \<Rightarrow> 'h \<Rightarrow> bool" for kind where
  "node_handled (kind h) \<Longrightarrow> \<forall>s \<in> set (subexprs (kind h)). handled kind s \<Longrightarrow> handled kind h"

lemma get_mod_less: "get_mod nxt remaining r n = (x, r') \<Longrightarrow> 0 < n \<Longrightarrow> x < n"
  by (auto simp: get_mod_def split: if_splits dest: rnd.below_eq_lt)

lemma get_range_ok:
  assumes "lo < hi"
  obtains x r' where "get_range nxt remaining r lo hi = Inr (x, r')" "lo \<le> x" "x < hi"
proof -
  obtain y r' where y: "get_mod nxt remaining r (hi - lo) = (y, r')" by force
  with get_mod_less [OF y] assms that [of "y + lo" r'] show thesis
    by (simp add: get_range_def)
qed

lemma pick_ok:
  assumes "xs \<noteq> []"
  obtains x r' where "pick nxt remaining xs r = Inr (x, r')" "x \<in> set xs"
proof -
  obtain i r' where i: "get_mod nxt remaining r (length xs) = (i, r')" by force
  with get_mod_less [OF i] assms that [of "xs ! i" r'] show thesis
    by (simp add: pick_def)
qed

lemma repetitions_ok:
  assumes "node_handled (HRepetition lo hi h)"
  obtains n r' where "get_repetitions nxt remaining lo hi r = Inr (n, r')" "lo \<le> n"
    "case hi of None \<Rightarrow> True | Some b \<Rightarrow> n \<le> b"
proof (cases hi)
  case None
  obtain n r' where "get_length nxt remaining r = (n, r')" by force
  with None that [of n r'] that [of "1 + n" r'] that [of "n + lo" r'] show thesis
    by (auto simp: get_repetitions_def get_repetition_range_def)
next
  case (Some b)
  with assms consider "lo = 0" "b = 1" | "2 \<le> lo" "lo = b" | "2 \<le> lo" "lo < b"
    by (auto simp: node_handled_def le_less)
  then show thesis
  proof cases
    case 1
    obtain n r' where n: "get_mod nxt remaining r 2 = (n, r')" by force
    with get_mod_less [OF n] that [of n r'] Some 1 show thesis by (simp add: get_repetitions_def)
  next
    case 2
    with Some that [of lo r] show thesis by (simp add: get_repetitions_def get_repetition_range_def)
  next
    case 3
    obtain n r' where "get_range nxt remaining r lo b = Inr (n, r')" "lo \<le> n" "n < b"
      by (rule get_range_ok [OF 3(2)])
    with Some 3 that [of n r'] show thesis by (simp add: get_repetitions_def get_repetition_range_def)
  qed
qed

lemma ascii_bytes: "c < 128 \<Longrightarrow> from_le_bytes (encode_utf8 c) = c"
  by (simp add: encode_utf8_def from_le_bytes_def unat_of_nat)

lemma unicode_ok:
  assumes "a \<le> b" "b < 128"
  obtains c r' where "append_unicode_range nxt remaining (a, b) res r = Inr (res @ encode_utf8 c, r')"
    "a \<le> c" "c \<le> b"
proof -
  obtain c r' where c: "get_range nxt remaining r a (b + 1) = Inr (c, r')" "a \<le> c" "c < b + 1"
    using assms get_range_ok [of a "b + 1"] by (metis le_imp_less_Suc Suc_eq_plus1)
  then have "is_char c" using assms by (simp add: is_char_def)
  with c assms that [of c r'] show thesis
    by (simp add: append_unicode_range_def ascii_bytes)
qed

lemma bytes_ok:
  assumes "a \<le> b" "b \<noteq> (255 :: u8)"
  obtains c r' where "append_byte_range nxt remaining (a, b) res r = Inr (res @ [c], r')" "a \<le> c" "c \<le> b"
proof -
  have "unat b \<noteq> 255" using assms(2) by (simp add: word_unat_eq_iff)
  moreover have lt: "unat b < 256" using unsigned_less [of b, where ?'a = nat] by simp
  ultimately have b: "unat (b + 1) = unat b + 1" by (simp add: unat_word_ariths)
  have ab: "unat a < unat b + 1" using assms(1) by (simp add: word_le_nat_alt)
  obtain c r' where c: "get_range nxt remaining r (unat a) (unat b + 1) = Inr (c, r')"
    "unat a \<le> c" "c < unat b + 1"
    by (rule get_range_ok [OF ab])
  have "unat (of_nat c :: u8) = c"
    using c(3) lt by (simp add: unat_of_nat)
  with c assms(2) b that [of "of_nat c" r'] show thesis
    by (simp add: append_byte_range_def word_le_nat_alt)
qed

text \<open>
  The loop works off an expression at the top of its stack, or several, and appends strings they
  match.
\<close>

definition works_off ::
  "('h \<Rightarrow> 'h hir_kind) \<Rightarrow> ('r \<Rightarrow> u64 \<times> 'r) \<Rightarrow> nat \<Rightarrow> 'h \<Rightarrow> bool" where
  "works_off kind nxt remaining h \<longleftrightarrow> (\<forall>stack res r. \<exists>w r'. matches kind h w \<and>
     regex_loop kind nxt remaining (h # stack) res r = regex_loop kind nxt remaining stack (res @ w) r')"

lemma works_off_list:
  "\<forall>h \<in> set hs. works_off kind nxt remaining h \<Longrightarrow> \<exists>ws r'. list_all2 (matches kind) hs ws \<and>
     regex_loop kind nxt remaining (hs @ stack) res r = regex_loop kind nxt remaining stack (res @ concat ws) r'"
proof (induction hs arbitrary: res r)
  case Nil
  show ?case by (intro exI [of _ "[]"] exI [of _ r]) simp
next
  case (Cons h hs)
  then have "works_off kind nxt remaining h" by simp
  then obtain w r1 where w: "matches kind h w" "regex_loop kind nxt remaining (h # hs @ stack) res r =
      regex_loop kind nxt remaining (hs @ stack) (res @ w) r1"
    unfolding works_off_def by blast
  from Cons.IH [of "res @ w" r1] Cons.prems obtain ws r' where "list_all2 (matches kind) hs ws"
    "regex_loop kind nxt remaining (hs @ stack) (res @ w) r1 =
      regex_loop kind nxt remaining stack ((res @ w) @ concat ws) r'" by auto
  with w show ?case by (intro exI [of _ "w # ws"] exI [of _ r']) simp
qed

lemma works_offI:
  assumes "\<And>res r. \<exists>pushed w r'. regex_step kind nxt remaining h res r = Inr (pushed, res @ w, r') \<and>
    (\<forall>s \<in> set pushed. works_off kind nxt remaining s) \<and>
    (\<forall>ws. list_all2 (matches kind) pushed ws \<longrightarrow> matches kind h (w @ concat ws))"
  shows "works_off kind nxt remaining h"
  unfolding works_off_def
proof (intro allI)
  fix stack res r
  from assms [of res r] obtain pushed w r1 where
    step: "regex_step kind nxt remaining h res r = Inr (pushed, res @ w, r1)"
    and off: "\<forall>s \<in> set pushed. works_off kind nxt remaining s"
    and m: "\<And>ws. list_all2 (matches kind) pushed ws \<Longrightarrow> matches kind h (w @ concat ws)" by blast
  from works_off_list [OF off] obtain ws r' where ws: "list_all2 (matches kind) pushed ws"
    "regex_loop kind nxt remaining (pushed @ stack) (res @ w) r1 =
      regex_loop kind nxt remaining stack ((res @ w) @ concat ws) r'" by blast
  have "regex_loop kind nxt remaining (h # stack) res r =
      regex_loop kind nxt remaining stack (res @ w @ concat ws) r'"
    using ws(2) by (subst regex_loop.simps) (simp add: step)
  with m [OF ws(1)] show "\<exists>w r'. matches kind h w \<and>
      regex_loop kind nxt remaining (h # stack) res r = regex_loop kind nxt remaining stack (res @ w) r'"
    by blast
qed

lemma handled_works_off: "handled kind h \<Longrightarrow> works_off kind nxt remaining h"
proof (induction rule: handled.induct)
  case (1 h)
  have sub: "\<forall>s \<in> set (subexprs (kind h)). works_off kind nxt remaining s" using 1(2) by blast
  show ?case
  proof (rule works_offI)
    fix res r
    show "\<exists>pushed w r'. regex_step kind nxt remaining h res r = Inr (pushed, res @ w, r') \<and>
      (\<forall>s \<in> set pushed. works_off kind nxt remaining s) \<and>
      (\<forall>ws. list_all2 (matches kind) pushed ws \<longrightarrow> matches kind h (w @ concat ws))"
    proof (cases "kind h")
      case HEmpty
      then show ?thesis by (intro exI [of _ "[]"] exI [of _ r]) (simp add: regex_step_def matches.intros)
    next
      case (HLiteral lit)
      then show ?thesis
        by (intro exI [of _ "[]"] exI [of _ lit] exI [of _ r]) (simp add: regex_step_def matches.intros)
    next
      case (HUnicode rngs)
      then have ok: "rngs \<noteq> []" "\<forall>(a, b) \<in> set rngs. a \<le> b \<and> b < 128" using 1(1) by (auto simp: node_handled_def)
      obtain rng r1 where p: "pick nxt remaining rngs r = Inr (rng, r1)" "rng \<in> set rngs" by (rule pick_ok [OF ok(1)])
      obtain a b where ab: "rng = (a, b)" "a \<le> b" "b < 128" using ok(2) p(2) by (cases rng) auto
      obtain c r2 where c: "append_unicode_range nxt remaining (a, b) res r1 = Inr (res @ encode_utf8 c, r2)"
        "a \<le> c" "c \<le> b" by (rule unicode_ok [OF ab(2,3)])
      have "matches kind h (encode_utf8 c)"
        by (rule matches.intros(4) [of kind h rngs a b c]) (use HUnicode c(2,3) p(2) ab(1) in simp_all)
      with HUnicode p ab c show ?thesis
        by (intro exI [of _ "[]"] exI [of _ "encode_utf8 c"] exI [of _ r2]) (simp add: regex_step_def)
    next
      case (HBytes rngs)
      then have ok: "rngs \<noteq> []" "\<forall>(a, b) \<in> set rngs. a \<le> b \<and> b \<noteq> 255" using 1(1) by (auto simp: node_handled_def)
      obtain rng r1 where p: "pick nxt remaining rngs r = Inr (rng, r1)" "rng \<in> set rngs" by (rule pick_ok [OF ok(1)])
      obtain a b where ab: "rng = (a, b)" "a \<le> b" "b \<noteq> 255" using ok(2) p(2) by (cases rng) auto
      obtain c r2 where c: "append_byte_range nxt remaining (a, b) res r1 = Inr (res @ [c], r2)"
        "a \<le> c" "c \<le> b" by (rule bytes_ok [OF ab(2,3)])
      have "matches kind h [c]"
        by (rule matches.intros(5) [of kind h rngs a b c]) (use HBytes c(2,3) p(2) ab(1) in simp_all)
      with HBytes p ab c show ?thesis
        by (intro exI [of _ "[]"] exI [of _ "[c]"] exI [of _ r2]) (simp add: regex_step_def)
    next
      case HLook
      then show ?thesis by (intro exI [of _ "[]"] exI [of _ r]) (simp add: regex_step_def matches.intros)
    next
      case (HRepetition lo hi s)
      obtain n r1 where n: "get_repetitions nxt remaining lo hi r = Inr (n, r1)" "lo \<le> n"
        "case hi of None \<Rightarrow> True | Some b \<Rightarrow> n \<le> b"
        by (rule repetitions_ok [of lo hi s]) (use 1(1) HRepetition in simp)
      have "matches kind h (concat ws)" if "list_all2 (matches kind) (replicate n s) ws" for ws
      proof (rule matches.intros(6) [of kind h lo hi s, OF HRepetition])
        show "\<forall>w \<in> set ws. matches kind s w"
          using that by (auto simp: list_all2_conv_all_nth in_set_conv_nth)
      qed (use that n(2,3) in \<open>auto dest!: list_all2_lengthD split: option.splits\<close>)
      moreover have "works_off kind nxt remaining s" using sub HRepetition by (simp add: subexprs_def)
      ultimately show ?thesis using HRepetition n(1)
        by (intro exI [of _ "replicate n s"] exI [of _ "[]"] exI [of _ r1]) (simp add: regex_step_def)
    next
      case (HCapture s)
      then show ?thesis using sub
        by (intro exI [of _ "[s]"] exI [of _ "[]"] exI [of _ r])
          (auto simp: regex_step_def subexprs_def list_all2_Cons1 intro: matches.intros(7))
    next
      case (HConcat hs)
      then show ?thesis using sub
        by (intro exI [of _ hs] exI [of _ "[]"] exI [of _ r])
          (auto simp: regex_step_def subexprs_def intro: matches.intros(8))
    next
      case (HAlternation hs)
      then have ne: "hs \<noteq> []" using 1(1) by (simp add: node_handled_def)
      obtain s r1 where p: "pick nxt remaining hs r = Inr (s, r1)" "s \<in> set hs" by (rule pick_ok [OF ne])
      then show ?thesis using sub HAlternation
        by (intro exI [of _ "[s]"] exI [of _ "[]"] exI [of _ r1])
          (auto simp: regex_step_def subexprs_def list_all2_Cons1 intro: matches.intros(9))
    qed
  qed
qed

section \<open>As the parameter of the grammar\<close>

text \<open>
  What the generator of trees uses for a regular expression. A run that did not end would be no
  value of the program; the next lemmas exclude it.
\<close>

definition regex_regen :: "('h \<Rightarrow> 'h hir_kind) \<Rightarrow> ('r \<Rightarrow> u64 \<times> 'r) \<Rightarrow> ('h, 'r) regen" where
  "regex_regen kind nxt h r = (case regex_generate kind nxt h r of Some res \<Rightarrow> res | None \<Rightarrow> Inl OutOfFuel)"

lemma regex_generate_handled:
  assumes "handled kind h"
  obtains w r' where "regex_generate kind nxt h r = Some (Inr (w, r'))" "matches kind h w"
proof -
  obtain remaining r1 where new: "regex_script_new nxt r = (remaining, r1)" by force
  from handled_works_off [OF assms, of nxt remaining] obtain w r' where "matches kind h w"
    "regex_loop kind nxt remaining [h] [] r1 = regex_loop kind nxt remaining [] ([] @ w) r'"
    unfolding works_off_def by blast
  with new that show thesis by (simp add: regex_generate_def regex_loop.simps [of _ _ _ "[]"])
qed

lemma regex_regen_total:
  assumes "\<And>h. handled kind h"
  shows "regen_total (regex_regen kind nxt)"
  unfolding regen_total_def
proof (intro allI)
  fix h r
  obtain w r' where "regex_generate kind nxt h r = Some (Inr (w, r'))"
    by (rule regex_generate_handled [OF assms])
  then show "\<exists>d r'. regex_regen kind nxt h r = Inr (d, r')" by (simp add: regex_regen_def)
qed

section \<open>Properties\<close>


definition sample_kind :: "nat \<Rightarrow> nat hir_kind" where
  "sample_kind h =
     (if h = 0 then HConcat [1, 2] else if h = 1 then HBytes [(97, 102)]
      else if h = 2 then HRepetition 0 None 1 else if h = 3 then HRepetition 1 (Some 3) 1 else HEmpty)"

lemma sample_handled: "handled sample_kind 0"
proof -
  have "handled sample_kind 1"
    by (rule handled.intros) (simp_all add: sample_kind_def node_handled_def subexprs_def)
  moreover from this have "handled sample_kind 2"
    by (intro handled.intros [of sample_kind 2]) (simp_all add: sample_kind_def node_handled_def subexprs_def)
  ultimately show ?thesis
    by (intro handled.intros [of sample_kind 0]) (simp_all add: sample_kind_def node_handled_def subexprs_def)
qed


text \<open>
  The upper bound of a repetition that is done at least once is ignored: for \<^verbatim>\<open>[a-f]{1,3}\<close> the
  generator returns longer strings.
\<close>

lemma constant_bound:
  "below xkcd_next 6917529027641081863 8 = (3, 6917529027641081863)"
  "below xkcd_next 6917529027641081863 16 = (6, 6917529027641081863)"
  "below xkcd_next 6917529027641081863 6 = (2, 6917529027641081863)"
  "below xkcd_next 6917529027641081863 1 = (0, 6917529027641081863)"
  "below xkcd_next 6917529027641081863 (Suc 0) = (0, 6917529027641081863)"
  by (simp_all add: below_def xkcd_next_def fast_bound_def)

lemma seven: "replicate 7 x = [x, x, x, x, x, x, x]"
  by (simp add: eval_nat_numeral)

lemma sample_run:
  "regex_generate sample_kind xkcd_next 3 6917529027641081863 =
     Some (Inr ([99, 99, 99, 99, 99, 99, 99], 6917529027641081863))"
  by (simp add: regex_generate_def regex_script_new_def regex_loop.simps regex_step_def sample_kind_def
      get_repetitions_def get_length_def get_mod_def constant_bound xkcd_next_def pick_def
      append_byte_range_def get_range_def Let_def seven)

lemma single_byte: "kind h = HBytes rngs \<Longrightarrow> matches kind h w \<Longrightarrow> length w = 1"
  by (erule matches.cases) simp_all

lemma bounded_repetition:
  assumes "kind h = HRepetition lo (Some b) s" "kind s = HBytes rngs" "matches kind h w"
  shows "length w \<le> b"
  using assms(3)
proof (cases rule: matches.cases)
  case (6 lo' hi' s' ws)
  then have "\<forall>v \<in> set ws. length v = 1" "length ws \<le> b"
    using assms(1,2) single_byte [of kind s rngs] by auto
  then have "length (concat ws) = length ws" by (induction ws) auto
  with 6 \<open>length ws \<le> b\<close> show ?thesis by simp
qed (use assms(1) in simp_all)

lemma bounded_repetition_overruns:
  "\<exists>w r. regex_generate sample_kind xkcd_next 3 6917529027641081863 = Some (Inr (w, r)) \<and>
    \<not> matches sample_kind 3 w"
  using sample_run bounded_repetition [of sample_kind 3 1 3 1 "[(97, 102)]" "[99, 99, 99, 99, 99, 99, 99]"]
  by (auto simp: sample_kind_def)

text \<open>A character of three bytes makes the generator panic.\<close>

lemma wide_character_panics: "append_unicode_range nxt remaining (8364, 8364) res r = Inl Panicked"
proof -
  obtain x r' where x: "get_mod nxt remaining r 1 = (x, r')" by force
  then have "x = 0" using get_mod_less by fastforce
  with x show ?thesis
    by (simp add: append_unicode_range_def encode_utf8_def from_le_bytes_def get_range_def is_char_def
        assert_that_def)
qed

end
