(* ===== verification/Spec2Isabelle.thy ===== *)
theory Spec2Isabelle
  imports Scheduled Corpora AsanNumbers AsanHeapHooks AsanWideHooks Campaign
    Nautilus Minimizers RegexStrings
begin

text \<open>
  A model of the fuzzing library \<^verbatim>\<open>LibAFL--\<close>, in four parts. All paths are under
  \<^verbatim>\<open>src/crates\<close>.

  \<^bold>\<open>Inputs, mutators and corpora\<close> (\<^verbatim>\<open>libaflmm/src\<close>). \<open>Rands\<close> models the generators of
  \<^verbatim>\<open>libaflmm_bolts/src/rands/mod.rs\<close>. \<open>Buffers\<close>, \<open>MutatorApi\<close>, \<open>ByteMutators\<close>, \<open>ResizeMutators\<close>,
  \<open>Crossover\<close>, \<open>Tokens\<close>, \<open>InputToState\<close> and \<open>Scheduled\<close> model \<^verbatim>\<open>mutators/\<close>: a mutator is a function
  of the part of the state it reads, the input and the generator; the locale \<open>byte_mutator\<close> is its
  contract, which every mutator of the library is shown to keep, and with it the standard stack.
  \<open>CorpusMaps\<close>, \<open>Stores\<close> and \<open>Corpora\<close> model \<^verbatim>\<open>corpus/\<close>: the two maps with their links, the stores in
  memory and on disk, the schedulers, the corpora with one store or behind a cache. Their interfaces
  are the locales \<open>append_map\<close>, \<open>corpus_map\<close>, \<open>append_store\<close>, \<open>store\<close>, \<open>removable_store\<close>, \<open>scheduler\<close> and
  \<open>scheduled_store\<close>, interpreted on the model's maps, stores and schedulers.

  \<^bold>\<open>The fuzzer\<close> (\<^verbatim>\<open>libaflmm/src\<close>). \<open>Effects\<close> holds the composition of fallible steps on a state;
  \<open>States\<close> the state with its statistics and metadata (\<^verbatim>\<open>states/mod.rs\<close>); \<open>MapFeedbacks\<close> the buckets of
  hit counts and both scans of a coverage map (\<^verbatim>\<open>observers/map/hitcount_map.rs\<close>, \<^verbatim>\<open>feedbacks/map.rs\<close>,
  \<^verbatim>\<open>feedbacks/simd.rs\<close>, \<^verbatim>\<open>libaflmm_bolts/src/simd.rs\<close>); \<open>Observers\<close> and \<open>Feedbacks\<close> the observers with
  their tuples and the feedbacks with their combinations; \<open>Fuzzers\<close> the standard fuzzer
  (\<^verbatim>\<open>fuzzers/standard.rs\<close>) with the frame around a run (\<^verbatim>\<open>executors/mod.rs\<close>), the handlers of crashes
  and timeouts, loads and the loop; \<open>Stages\<close> the stages. The target, the clock, the runtime and the
  worker are the operations of the record \<open>env\<close> on a state of their own. \<open>Evaluation\<close> shows how a run
  is booked, \<open>Loading\<close> that a load survives crashes, and \<open>Campaign\<close> that the loop over the standard
  corpus, feedbacks and stage does not fail, over the locale \<open>campaign_corpora\<close>.

  \<^bold>\<open>The grammar fuzzer\<close> (\<^verbatim>\<open>libaflmm/src/common/nautilus\<close>, \<^verbatim>\<open>nautilus.rs\<close> under
  \<^verbatim>\<open>mutators\<close>, \<^verbatim>\<open>generators\<close>, \<^verbatim>\<open>inputs\<close> and \<^verbatim>\<open>feedbacks\<close>). \<open>Grammars\<close> holds the context with its rules, the
  parser of rules and the loops of \<open>initialize\<close>; \<open>DerivTrees\<close> the trees as vectors, their unparser and
  the mutations of trees, over the locale \<open>tree_like\<close>; \<open>Subtrees\<close> what replacing a node means for
  derivations; \<open>GrammarSizes\<close> that the loops end with the exact minimal sizes; \<open>Generation\<close> the random
  trees; \<open>LoadedDice\<close> the alias table (\<^verbatim>\<open>libaflmm_bolts/src/rands/loaded_dice.rs\<close>); \<open>Recursions\<close> the
  recursions of a tree; \<open>GrammarMutators\<close> the mutations, the chunk store and the mutators; \<open>Minimizers\<close>
  the two minimisations, which end with a smallest tree and one without recursions; \<open>Nautilus\<close> the context, generator, input and feedback their clients use, with the contract \<open>grammar_mutator\<close>
  of the three mutators. A derivation is a tree of the datatype \<open>dtree\<close>, and \<open>tree_of\<close> its vectors; the
  theorems say that the code's vectors are those of a derivation throughout. The recursion of the
  generator has the requested length plus one as fuel, enough because every level takes one from it.
  The numbers of type f64 of the dice are exact rationals. Regular expressions come from a
  third-party parser: in the trees an expression is of any type and the strings generated for it are
  a parameter, and \<open>RegexStrings\<close> models that generator (\<^verbatim>\<open>regex_mutator\<close>) over a function for what the
  parser's expressions answer. Rules scripted in Python are behind a feature and left out.

  \<^bold>\<open>The address sanitizer\<close> (\<^verbatim>\<open>libaflmm_asan/src\<close>, \<^verbatim>\<open>libaflmm_qemu/libaflmm_qemu_asan/libaflmm_qemu_asan_guest\<close>).
  \<open>AsanShadow\<close>, \<open>AsanTracking\<close> and \<open>AsanFrontend\<close> model the shadow memory at the level of its bytes, the
  trackers and the allocator over any backend; \<open>AsanRuntime\<close> the guest runtime; \<open>AsanMemHooks\<close>,
  \<open>AsanStrHooks\<close>, \<open>AsanNumbers\<close>, \<open>AsanHeapHooks\<close> and \<open>AsanWideHooks\<close> the hooks of the C library.

  Machine integers are words where they wrap and numbers with their bounds written out elsewhere; a
  panic, an out-of-range access and an error are values of a sum. Loops that may not end are partial
  functions whose result is \<open>None\<close> then; the theorems say that they return. Counters that the program
  keeps in 64 bits and only ever increments are numbers.

  Not modelled: processes, signals, pipes, sockets and shared memory; the bindings of emulators and
  instrumentation engines, which are generated or call third-party code; macros and build tools;
  floating-point scores. The manifest lists every part with the reason.
\<close>

section \<open>Hooks on the heap\<close>

text \<open>A hook that asks for an access the shadow refuses does not return.\<close>

lemma isl_checks:
  "isl (rbind (asan_load p n m) f) \<longleftrightarrow> (accessible m p n \<longrightarrow> isl (f ()))"
  "isl (rbind (asan_store p n m) f) \<longleftrightarrow> (accessible m p n \<longrightarrow> isl (f ()))"
  "isl (rbind (panic_if b msg) f) \<longleftrightarrow> b \<or> isl (f ())"
  using asan_load_ok [of p n m] asan_store_ok [of p n m]
  by (auto simp: rbind_def panic_if_def split: sum.splits)

definition bulk_hooks_refuse :: "'b machine \<Rightarrow> u64 \<Rightarrow> u64 \<Rightarrow> bool" where
  "bulk_hooks_refuse m p k \<longleftrightarrow> (\<forall>q c.
     isl (memcpy p q k m) \<and> isl (memcpy q p k m) \<and> isl (mempcpy p q k m) \<and> isl (mempcpy q p k m) \<and>
     isl (memmove p q k m) \<and> isl (memmove q p k m) \<and> isl (memset p c k m) \<and> isl (bzero p k m) \<and>
     isl (explicit_bzero p k m) \<and> isl (memcmp p q k m) \<and> isl (memcmp q p k m) \<and> isl (memchr p c k m) \<and>
     isl (memrchr p c k m)) \<and>
   (\<forall>q s. string_at m q s \<and> unat k = length s + 1 \<longrightarrow> isl (strcpy p q m) \<and> isl (stpcpy p q m))"

lemma bulk_hooks_refuseI:
  assumes "\<not> accessible m p (unat k)" "k \<noteq> 0"
  shows "bulk_hooks_refuse m p k"
  unfolding bulk_hooks_refuse_def using assms
  by (auto simp: memcpy_def mempcpy_def memmove_def memset_def bzero_def explicit_bzero_def memcmp_def
    memchr_def memrchr_def strcpy_def stpcpy_def Let_def isl_checks hook_simps)



end
